(* ===== verification/Prelude.thy ===== *)
theory Prelude
  imports Main "HOL-Library.Word" "HOL-Library.Monad_Syntax"
begin

text \<open>
  Shared material of the development: the machine types of \<open>c.h\<close>, bounds-checked
  access to C arrays, the total-correctness predicate \<open>rets\<close> for code whose result
  is an \<open>option\<close> (\<open>None\<close> stands for undefined behaviour or for no return), and the
  reading of a machine word as a list of bits, most significant bit first.
\<close>

unbundle bit_operations_syntax

type_synonym uint32 = "32 word"
type_synonym uint16 = "16 word"
type_synonym word_t = uint32

named_theorems rets_intros \<open>rules that compose \<open>rets\<close> facts along a computation\<close>
named_theorems bits_simps \<open>bit lists of the words the code builds\<close>

subsection \<open>C arrays: reads and writes that are checked against the allocation\<close>

definition arr_get :: "'a list \<Rightarrow> nat \<Rightarrow> 'a option" where
  "arr_get v i = (if i < length v then Some (v ! i) else None)"

definition arr_set :: "'a list \<Rightarrow> nat \<Rightarrow> 'a \<Rightarrow> 'a list option" where
  "arr_set v i x = (if i < length v then Some (v[i := x]) else None)"

lemma arr_get_in [simp]: "i < length v \<Longrightarrow> arr_get v i = Some (v ! i)"
  by (simp add: arr_get_def)

lemma arr_set_in [simp]: "i < length v \<Longrightarrow> arr_set v i x = Some (v[i := x])"
  by (simp add: arr_set_def)

lemma arr_get_SomeD: "arr_get v i = Some x \<Longrightarrow> i < length v \<and> x = v ! i"
  by (simp add: arr_get_def split: if_splits)

subsection \<open>C shifts\<close>

text \<open>
  A shift of a 32-bit operand is defined in C for amounts below 32 only. The amount is read
  as an unsigned word, so a negative \<open>int\<close> amount is out of range as well.
\<close>

definition c_shl :: "uint32 \<Rightarrow> uint32 \<Rightarrow> uint32 option" where
  "c_shl a k = (if k < 32 then Some (push_bit (unat k) a) else None)"

definition c_shr :: "uint32 \<Rightarrow> uint32 \<Rightarrow> uint32 option" where
  "c_shr a k = (if k < 32 then Some (drop_bit (unat k) a) else None)"

lemma c_shl_in [simp]: "k < 32 \<Longrightarrow> c_shl a k = Some (push_bit (unat k) a)"
  by (simp add: c_shl_def)

lemma c_shr_in [simp]: "k < 32 \<Longrightarrow> c_shr a k = Some (drop_bit (unat k) a)"
  by (simp add: c_shr_def)

subsection \<open>Total correctness of partial computations\<close>

definition rets :: "'a option \<Rightarrow> ('a \<Rightarrow> bool) \<Rightarrow> bool" where
  "rets m Q \<longleftrightarrow> (\<exists>x. m = Some x \<and> Q x)"

lemma rets_Some [simp]: "rets (Some x) Q \<longleftrightarrow> Q x"
  by (simp add: rets_def)

lemma rets_None [simp]: "\<not> rets None Q"
  by (simp add: rets_def)

lemma rets_bind [rets_intros]:
  assumes "rets m P" and "\<And>x. P x \<Longrightarrow> rets (f x) Q"
  shows "rets (m \<bind> f) Q"
  using assms by (auto simp: rets_def)

lemma rets_mono: "rets m P \<Longrightarrow> (\<And>x. P x \<Longrightarrow> Q x) \<Longrightarrow> rets m Q"
  by (auto simp: rets_def)

lemma rets_map_option [simp]: "rets (map_option f m) Q \<longleftrightarrow> rets m (\<lambda>x. Q (f x))"
  by (auto simp: rets_def)

lemma retsE:
  assumes "rets m P"
  obtains x where "m = Some x" and "P x"
  using assms by (auto simp: rets_def)

subsection \<open>Counting loops\<close>

text \<open>\<open>for (i = lo; i < hi; i++) s = f(i, s)\<close>, stopping at the first failing iteration.\<close>

primrec for_n :: "nat \<Rightarrow> nat \<Rightarrow> (nat \<Rightarrow> 's \<Rightarrow> 's option) \<Rightarrow> 's \<Rightarrow> 's option" where
  "for_n 0 i f s = Some s"
| "for_n (Suc k) i f s = (f i s \<bind> for_n k (Suc i) f)"

definition for_loop :: "nat \<Rightarrow> nat \<Rightarrow> (nat \<Rightarrow> 's \<Rightarrow> 's option) \<Rightarrow> 's \<Rightarrow> 's option" where
  "for_loop lo hi f s = for_n (hi - lo) lo f s"

lemma rets_for_n:
  assumes "I i s"
    and "\<And>j s. i \<le> j \<Longrightarrow> j < i + k \<Longrightarrow> I j s \<Longrightarrow> rets (f j s) (I (Suc j))"
  shows "rets (for_n k i f s) (I (i + k))"
  using assms
proof (induction k arbitrary: i s)
  case (Suc k)
  have "rets (f i s) (I (Suc i))" using Suc.prems by simp
  moreover have "rets (for_n k (Suc i) f s') (I (Suc i + k))" if "I (Suc i) s'" for s'
    by (rule Suc.IH) (use that Suc.prems(2) in auto)
  ultimately show ?case by (auto intro: rets_bind)
qed simp

text \<open>The invariant rule: \<open>I i s\<close> holds before iteration \<open>i\<close>.\<close>

lemma rets_for_loop:
  assumes "lo \<le> hi" and "I lo s"
    and "\<And>i s. lo \<le> i \<Longrightarrow> i < hi \<Longrightarrow> I i s \<Longrightarrow> rets (f i s) (I (Suc i))"
  shows "rets (for_loop lo hi f s) (I hi)"
  using rets_for_n [of I lo s "hi - lo" f] assms by (simp add: for_loop_def)

subsection \<open>Words as bit lists\<close>

text \<open>The \<open>n\<close> low bits of a word, most significant first.\<close>

primrec to_bits :: "nat \<Rightarrow> 'a::len word \<Rightarrow> bool list" where
  "to_bits 0 w = []"
| "to_bits (Suc n) w = bit w n # to_bits n w"

lemma length_to_bits [simp]: "length (to_bits n w) = n"
  by (induction n) auto

lemma to_bits_cong: "(\<And>i. i < n \<Longrightarrow> bit v i = bit w i) \<Longrightarrow> to_bits n v = to_bits n w"
  by (induction n) auto

lemma to_bits_0 [simp, bits_simps]: "to_bits n 0 = replicate n False"
  by (induction n) auto

lemma to_bits_nth: "i < n \<Longrightarrow> to_bits n w ! i = bit w (n - Suc i)"
proof (induction n arbitrary: i)
  case (Suc n)
  then show ?case by (cases i) auto
qed simp

lemma to_bits_add: "to_bits (m + n) w = to_bits m (drop_bit n w) @ to_bits n w"
  by (induction m) (auto simp: bit_drop_bit_eq add.commute)

lemma to_bits_take_bit [simp]: "to_bits n (take_bit n w) = to_bits n w"
  by (rule to_bits_cong) (simp add: bit_take_bit_iff)

lemma to_bits_mask [bits_simps]: "n \<le> LENGTH('a) \<Longrightarrow> to_bits n (mask n :: 'a::len word) = replicate n True"
  by (rule nth_equalityI) (auto simp: to_bits_nth bit_mask_iff)

lemma to_bits_and: "to_bits n (v AND w) = map2 (\<and>) (to_bits n v) (to_bits n w)"
  by (induction n) (auto simp: bit_and_iff)

lemma to_bits_or: "to_bits n (v OR w) = map2 (\<or>) (to_bits n v) (to_bits n w)"
  by (induction n) (auto simp: bit_or_iff)

lemma take_bit_le_word: "m \<le> n \<Longrightarrow> take_bit m w = w \<Longrightarrow> take_bit n w = (w :: 'a::len word)"
  by (metis take_bit_take_bit min.absorb2)

lemma shifted_one_mask: "2 ^ n - 1 = (mask n :: 'a::len word)"
  by (simp add: mask_eq_exp_minus_1)

lemma take_bit_push_or:
  fixes v w :: "'a::len word"
  assumes "take_bit m v = v" and "take_bit n w = w"
  shows "take_bit (m + n) (push_bit n v OR w) = push_bit n v OR w"
  using assms take_bit_le_word [of n "m + n" w] by (simp add: take_bit_or take_bit_push_bit)

text \<open>Shifting \<open>v\<close> left by \<open>n\<close> and filling the gap with \<open>w < 2 ^ n\<close> appends the bits of \<open>w\<close>.\<close>

lemma to_bits_push_or:
  fixes v w :: "'a::len word"
  assumes "m + n \<le> LENGTH('a)" and "take_bit n w = w"
  shows "to_bits (m + n) (push_bit n v OR w) = to_bits m v @ to_bits n w"
proof -
  have w: "\<not> bit w i" if "n \<le> i" for i
    using that assms(2) by (metis bit_take_bit_iff not_le)
  have "to_bits m (drop_bit n (push_bit n v OR w)) = to_bits m v"
    by (rule to_bits_cong) (use assms(1) w in \<open>auto simp: bit_simps\<close>)
  moreover have "to_bits n (push_bit n v OR w) = to_bits n w"
    by (rule to_bits_cong) (auto simp: bit_simps)
  ultimately show ?thesis by (simp add: to_bits_add)
qed

lemma to_bits_inject:
  fixes v w :: "'a::len word"
  assumes "to_bits n v = to_bits n w" and "take_bit n v = v" and "take_bit n w = w"
  shows "v = w"
proof (rule bit_word_eqI)
  fix i
  show "bit v i = bit w i"
  proof (cases "i < n")
    case True
    then have "to_bits n v ! (n - Suc i) = bit v i" "to_bits n w ! (n - Suc i) = bit w i"
      by (auto simp: to_bits_nth)
    with assms(1) show ?thesis by simp
  next
    case False
    with assms(2,3) show ?thesis by (metis bit_take_bit_iff)
  qed
qed

subsection \<open>Words: small facts\<close>

lemma unat32_less: "unat (w :: uint32) < 2 ^ 32"
  using unsigned_less [of w, where 'a = nat] by simp

lemma unat_take_bit: "unat (take_bit n (w :: 'a::len word)) = unat w mod 2 ^ n"
  unfolding unsigned_take_bit_eq by (simp add: take_bit_eq_mod)

lemma unat_add_no_wrap:
  fixes a b :: "'a::len word"
  assumes "unat a + unat b < 2 ^ LENGTH('a)"
  shows "unat (a + b) = unat a + unat b"
  using assms by (simp add: unat_word_ariths)

lemma unat_inc_no_wrap:
  fixes a :: "'a::len word"
  assumes "Suc (unat a) < 2 ^ LENGTH('a)"
  shows "unat (a + 1) = Suc (unat a)"
  using assms by (simp add: unat_word_ariths mod_Suc_eq)

lemma unat_mult_no_wrap:
  fixes a b :: "'a::len word"
  assumes "unat a * unat b < 2 ^ LENGTH('a)"
  shows "unat (a * b) = unat a * unat b"
  using assms by (simp add: unat_word_ariths)

lemma sint_diff:
  fixes a b :: uint32
  assumes "unat a < 2 ^ 31" and "unat b \<le> 2 ^ 31"
  shows "sint (a - b) = int (unat a) - int (unat b)"
proof -
  define m n where mn: "m = unat a" "n = unat b"
  have "signed_take_bit 31 (int m - int n) = int m - int n"
    using assms unfolding mn [symmetric] by (intro signed_take_bit_int_eq_self) simp_all
  moreover have "sint (word_of_int x :: uint32) = signed_take_bit 31 x" for x by transfer simp
  moreover have "a - b = word_of_int (int m - int n)" unfolding mn by simp
  ultimately show ?thesis unfolding mn by metis
qed

lemma sint_small:
  fixes w :: uint16
  assumes "unat w < 2 ^ 15"
  shows "sint w = int (unat w)"
proof -
  define n where n: "n = unat w"
  have "signed_take_bit 15 (int n) = int n"
    using assms unfolding n [symmetric] by (intro signed_take_bit_int_eq_self) simp_all
  moreover have "sint (word_of_int x :: uint16) = signed_take_bit 15 x" for x by transfer simp
  moreover have "w = word_of_int (int n)" unfolding n by simp
  ultimately show ?thesis unfolding n by metis
qed

lemma unat_ucast_up:
  assumes "LENGTH('a) \<le> LENGTH('b)"
  shows "unat (ucast (w :: 'a::len word) :: 'b::len word) = unat w"
proof -
  have "unat w < 2 ^ LENGTH('a)" by (rule unsigned_less)
  then have "unat w < 2 ^ LENGTH('b)" using power_increasing [OF assms, of "2::nat"] by linarith
  then show ?thesis by (simp add: unsigned_ucast_eq take_bit_nat_eq_self)
qed

lemma unat_of_int:
  assumes "0 \<le> i" and "i < 2 ^ LENGTH('a)"
  shows "unat (of_int i :: 'a::len word) = nat i"
proof -
  obtain n where n: "i = int n" using assms(1) nonneg_int_cases by blast
  have "n < 2 ^ LENGTH('a)" using assms(2) n by simp
  then show ?thesis by (simp add: n unat_of_nat)
qed

lemma div_mod_add_lt:
  fixes a b m :: nat
  assumes "a mod m + b < m"
  shows "(a + b) div m = a div m" and "(a + b) mod m = a mod m + b"
proof -
  have s: "a + b = a div m * m + (a mod m + b)" by simp
  show "(a + b) div m = a div m"
    unfolding s using assms by (metis add.commute add_0 div_less div_mult_self3 less_nat_zero_code)
  show "(a + b) mod m = a mod m + b"
    unfolding s using assms by (metis mod_less mod_mult_self3)
qed

subsection \<open>Lists\<close>

lemma map2_append:
  "length xs = length us \<Longrightarrow> map2 f (xs @ ys) (us @ vs) = map2 f xs us @ map2 f ys vs"
  by (simp add: zip_append)

text \<open>Two lists read in step: first what both prefixes hold, then what is left of the longer one.\<close>

lemma map2_drop_split:
  "map2 h (gx @ xs) (gy @ ys) =
     map2 h gx gy @ map2 h (drop (length gy) gx @ xs) (drop (length gx) gy @ ys)"
proof (induction gx arbitrary: gy)
  case Nil
  show ?case by simp
next
  case (Cons g gx)
  then show ?case by (cases gy) simp_all
qed

lemma map2_replicate: "map2 f (replicate n x) (replicate n y) = replicate n (f x y)"
  by (simp add: zip_replicate)

lemma concat_replicate_const:
  "concat (replicate n (replicate m x)) = replicate (n * m) x"
  by (induction n) (auto simp: replicate_add)

lemma list_update_last [simp]: "xs \<noteq> [] \<Longrightarrow> xs[length xs - Suc 0 := y] = butlast xs @ [y]"
  by (induction xs rule: rev_induct) auto

lemma take_length_append: "take (length xs) (xs @ ys) = xs"
  by simp

lemma butlast_snoc_last: "xs \<noteq> [] \<Longrightarrow> xs = butlast xs @ [last xs]"
  by simp

end
