(* ===== verification/Bitmap.thy ===== *)
theory Bitmap
  imports Prelude
begin

text \<open>
  The word-aligned-hybrid bitmap of \<open>src/psql-test/src/backend/main/bitmap.c\<close> and
  \<open>bitmap.h\<close>. A bitmap is a vector of 32-bit words and an active word of fewer than 31
  bits. A stored word with top bits \<open>10\<close> or \<open>11\<close> is a fill: its 30-bit counter says
  how many 31-bit groups of zeros or ones it stands for; any other word is a literal group.

  Every operation of the file but the output routine \<open>printBitmap\<close> is a definition here. \<open>m_vec\<close> is the allocation the pointer
  refers to, and \<open>None\<close> is what C leaves undefined: an access outside it or a shift by 32
  or more. Allocation is taken to succeed; its size is computed in \<open>unsigned int\<close>, as
  \<open>palloc(Size)\<close> does. Diagnostics printed by the code are left out.
\<close>

subsection \<open>Constants and types of bitmap.h\<close>

definition MAXBITS :: word_t where "MAXBITS = 31"
definition HEADER_0F :: word_t where "HEADER_0F = push_bit 30 2"
definition HEADER_1F :: word_t where "HEADER_1F = push_bit 30 3"
definition ALLONES :: word_t where "ALLONES = NOT (push_bit 31 1)"

record ActiveWord =
  aval :: word_t
  anbits :: word_t

record bitmap =
  isCompressed :: bool
  nbits :: word_t
  m_vec :: "word_t list"
  m_size :: word_t
  active :: ActiveWord

abbreviation set_active_val :: "bitmap \<Rightarrow> word_t \<Rightarrow> bitmap" where
  "set_active_val bmp v \<equiv> bmp\<lparr>active := (active bmp)\<lparr>aval := v\<rparr>\<rparr>"

abbreviation set_active_nbits :: "bitmap \<Rightarrow> word_t \<Rightarrow> bitmap" where
  "set_active_nbits bmp n \<equiv> bmp\<lparr>active := (active bmp)\<lparr>anbits := n\<rparr>\<rparr>"

subsection \<open>Allocation of word arrays\<close>

text \<open>The byte count \<open>n * sizeof(word_t)\<close> is truncated to 32 bits by the parameter type.\<close>

definition alloc_words :: "word_t \<Rightarrow> nat" where
  "alloc_words n = (unat n * 4) mod 2 ^ 32 div 4"

definition palloc_words :: "word_t \<Rightarrow> word_t list" where
  "palloc_words n = replicate (alloc_words n) 0"

definition repalloc_words :: "word_t list \<Rightarrow> word_t \<Rightarrow> word_t list" where
  "repalloc_words v n = take (alloc_words n) v @ replicate (alloc_words n - length v) 0"

subsection \<open>The vector as a stack\<close>

definition makeBitmap :: bitmap where
  "makeBitmap = \<lparr>isCompressed = False, nbits = 0, m_vec = [], m_size = 0,
     active = \<lparr>aval = 0, anbits = 0\<rparr>\<rparr>"

definition isEmpty :: "bitmap \<Rightarrow> bool" where
  "isEmpty bmp = (m_size bmp = 0)"

definition setBitmapTop :: "bitmap \<Rightarrow> word_t \<Rightarrow> bitmap option" where
  "setBitmapTop bmp w =
     (if isEmpty bmp then Some bmp
      else do {
        v \<leftarrow> arr_set (m_vec bmp) (unat (m_size bmp - 1)) w;
        Some (bmp\<lparr>m_vec := v\<rparr>)
      })"

definition getBitmapTop :: "bitmap \<Rightarrow> word_t option" where
  "getBitmapTop bmp =
     (if isEmpty bmp then Some 0 else arr_get (m_vec bmp) (unat (m_size bmp - 1)))"

definition pushBitmap :: "bitmap \<Rightarrow> word_t \<Rightarrow> bitmap option" where
  "pushBitmap bmp w =
     (let size = m_size bmp;
          v = (if size = 0 then palloc_words 1 else repalloc_words (m_vec bmp) (size + 1))
      in do {
        v' \<leftarrow> arr_set v (unat (m_size bmp)) w;
        Some (bmp\<lparr>m_vec := v', m_size := m_size bmp + 1\<rparr>)
      })"

subsection \<open>Appending\<close>

definition appendCounter :: "bitmap \<Rightarrow> word_t \<Rightarrow> word_t \<Rightarrow> bitmap option" where
  "appendCounter bmp val cnt =
     (let head = 2 + val; w = push_bit 30 head OR cnt
      in do {
        bmp \<leftarrow> (if isEmpty bmp then pushBitmap bmp w
                else do {
                  w1 \<leftarrow> getBitmapTop bmp;
                  if drop_bit 30 w1 = head then setBitmapTop bmp (w1 + cnt)
                  else pushBitmap bmp w
                });
        Some (bmp\<lparr>nbits := nbits bmp + cnt * MAXBITS\<rparr>)
      })"

definition appendActive :: "bitmap \<Rightarrow> bitmap option" where
  "appendActive bmp =
     (let w0 = aval (active bmp);
          (head, w) = (if w0 = 0 then (2, HEADER_0F OR 1)
                       else if w0 = ALLONES then (3, HEADER_1F OR 1)
                       else (0, w0))
      in do {
        bmp \<leftarrow> (if isEmpty bmp then pushBitmap bmp w
                else do {
                  w1 \<leftarrow> getBitmapTop bmp;
                  if drop_bit 30 w1 = head \<and> 1 < head then setBitmapTop bmp (w1 + 1)
                  else pushBitmap bmp w
                });
        Some (bmp\<lparr>nbits := nbits bmp + MAXBITS, active := \<lparr>aval = 0, anbits = 0\<rparr>\<rparr>)
      })"

definition appendWord :: "bitmap \<Rightarrow> word_t \<Rightarrow> bitmap option" where
  "appendWord bmp w =
     (let head = drop_bit 30 w; b2 = head mod 2
      in if anbits (active bmp) \<noteq> 0 then
           let nb1 = anbits (active bmp); nb2 = MAXBITS - nb1
           in do {
             v \<leftarrow> c_shl (aval (active bmp)) nb2;
             bmp \<leftarrow> Some (set_active_val bmp v);
             if 1 < head then do {
               bmp \<leftarrow> (if head = 3 then do {
                         one \<leftarrow> c_shl 1 nb2;
                         Some (set_active_val bmp (aval (active bmp) OR (one - 1)))
                       } else Some bmp);
               bmp \<leftarrow> appendActive bmp;
               cnt \<leftarrow> Some ((w AND NOT HEADER_1F) - 1);
               bmp \<leftarrow> (if 0 < cnt then appendCounter bmp b2 cnt else Some bmp);
               one \<leftarrow> c_shl 1 nb1;
               Some (bmp\<lparr>active := \<lparr>aval = (one - 1) * b2, anbits = nb1\<rparr>\<rparr>)
             } else do {
               w1 \<leftarrow> c_shr w nb1;
               bmp \<leftarrow> appendActive (set_active_val bmp (aval (active bmp) OR w1));
               one \<leftarrow> c_shl 1 nb1;
               Some (bmp\<lparr>active := \<lparr>aval = w AND (one - 1), anbits = nb1\<rparr>\<rparr>)
             }
           }
         else if 1 < head then
           let cnt = w AND NOT HEADER_1F
           in if 0 < cnt then appendCounter bmp b2 cnt else Some bmp
         else appendActive (set_active_val bmp w))"

text \<open>\<open>appendBits\<close> in its three steps: into the active word, as a fill, into a new active word.\<close>

definition appendBits_active :: "bitmap \<Rightarrow> word_t \<Rightarrow> word_t \<Rightarrow> (bitmap \<times> word_t) option" where
  "appendBits_active bmp val n =
     (if 0 < anbits (active bmp) then
        let room = MAXBITS - anbits (active bmp); tmp = (if n < room then n else room)
        in do {
          v \<leftarrow> c_shl (aval (active bmp)) tmp;
          one \<leftarrow> c_shl 1 tmp;
          v \<leftarrow> Some (if val = 1 then v OR (one - 1) else v);
          bmp \<leftarrow> Some (bmp\<lparr>active := \<lparr>aval = v, anbits = anbits (active bmp) + tmp\<rparr>\<rparr>);
          bmp \<leftarrow> (if anbits (active bmp) = MAXBITS then appendActive bmp else Some bmp);
          Some (bmp, n - tmp)
        }
      else Some (bmp, n))"

definition appendBits_fill :: "bitmap \<Rightarrow> word_t \<Rightarrow> word_t \<Rightarrow> (bitmap \<times> word_t) option" where
  "appendBits_fill bmp val n =
     (if MAXBITS \<le> n then
        let cnt = n div MAXBITS
        in do {
          bmp \<leftarrow> appendCounter bmp val cnt;
          Some (bmp, n - cnt * MAXBITS)
        }
      else Some (bmp, n))"

definition appendBits :: "bitmap \<Rightarrow> word_t \<Rightarrow> word_t \<Rightarrow> bitmap option" where
  "appendBits bmp val n =
     (if n = 0 then Some bmp
      else do {
        (bmp, n) \<leftarrow> appendBits_active bmp val n;
        (bmp, n) \<leftarrow> appendBits_fill bmp val n;
        if 0 < n then do {
          one \<leftarrow> c_shl 1 n;
          Some (bmp\<lparr>active := \<lparr>aval = val * (one - 1), anbits = n\<rparr>\<rparr>)
        } else Some bmp
      })"

definition appendOneBit :: "bitmap \<Rightarrow> word_t \<Rightarrow> bitmap option" where
  "appendOneBit bmp val =
     (let bmp = bmp\<lparr>active := \<lparr>aval = push_bit 1 (aval (active bmp)) OR val,
                            anbits = anbits (active bmp) + 1\<rparr>\<rparr>
      in if anbits (active bmp) = MAXBITS then appendActive bmp else Some bmp)"

subsection \<open>Size\<close>

definition do_cnt :: "bitmap \<Rightarrow> word_t option" where
  "do_cnt bmp = do {
     cnt \<leftarrow> for_loop 0 (unat (m_size bmp)) (\<lambda>i cnt. do {
              w \<leftarrow> arr_get (m_vec bmp) i;
              Some (if ALLONES < w then cnt + (w AND NOT HEADER_1F) * MAXBITS
                    else cnt + MAXBITS)
            }) 0;
     Some (cnt + anbits (active bmp))
   }"

definition bitmapSize :: "bitmap \<Rightarrow> word_t option" where
  "bitmapSize bmp = do {
     sz \<leftarrow> Some (nbits bmp + anbits (active bmp));
     sr \<leftarrow> do_cnt bmp;
     Some (if sz < sr then sz else sr)
   }"

definition adjustSize :: "bitmap \<Rightarrow> word_t \<Rightarrow> bitmap option" where
  "adjustSize bmp n =
     (let sz = nbits bmp + anbits (active bmp)
      in if sz = n then Some bmp
         else if sz < n then appendBits bmp 0 (n - sz)
         else Some bmp)"

text \<open>
  \<open>bitmapCopy(a, b)\<close>: \<open>b\<close> takes over the fields of \<open>a\<close> and a fresh copy of its vector.
  The branch for \<open>b == NULL\<close> only assigns the local parameter, so callers pass a bitmap.
\<close>

definition bitmapCopy :: "bitmap \<Rightarrow> bitmap \<Rightarrow> bitmap option" where
  "bitmapCopy bmpa bmpb =
     (let n = unat (m_size bmpa)
      in if n \<le> length (m_vec bmpa) \<and> n \<le> alloc_words (m_size bmpa) then
           Some (bmpb\<lparr>nbits := nbits bmpa, active := active bmpa, m_size := m_size bmpa,
                      isCompressed := isCompressed bmpa, m_vec := take n (m_vec bmpa)\<rparr>)
         else None)"

text \<open>
  \<open>appendBitmap\<close>: the stored words one by one, then the active words. The two statements
  \<open>bmp->active.val << ...;\<close> of the source discard the shifted value, so they leave the
  active word as it is.
\<close>

definition appendBitmap_active :: "bitmap \<Rightarrow> bitmap \<Rightarrow> bitmap option" where
  "appendBitmap_active bmp bmpa =
     (if anbits (active bmpa) \<noteq> 0 then
        if anbits (active bmp) + anbits (active bmpa) < MAXBITS then
          Some (bmp\<lparr>active := \<lparr>aval = aval (active bmp) OR aval (active bmpa),
                             anbits = anbits (active bmp) + anbits (active bmpa)\<rparr>\<rparr>)
        else
          let nb1 = anbits (active bmp) + anbits (active bmpa) - MAXBITS
          in do {
            w1 \<leftarrow> c_shr (aval (active bmpa)) nb1;
            bmp \<leftarrow> appendActive (set_active_val bmp (aval (active bmp) OR w1));
            bmp \<leftarrow> Some (set_active_nbits bmp nb1);
            if 0 < nb1 then do {
              one \<leftarrow> c_shl 1 nb1;
              Some (set_active_val bmp ((one - 1) AND aval (active bmpa)))
            } else Some bmp
          }
      else Some (bmp\<lparr>active := \<lparr>aval = aval (active bmpa), anbits = anbits (active bmpa)\<rparr>\<rparr>))"

definition appendBitmap :: "bitmap \<Rightarrow> bitmap \<Rightarrow> bitmap option" where
  "appendBitmap bmp bmpa = do {
     bitmapSize bmp;
     bitmapSize bmpa;
     bmp \<leftarrow> for_loop 0 (unat (m_size bmpa)) (\<lambda>i bmp. do {
              w \<leftarrow> arr_get (m_vec bmpa) i;
              appendWord bmp w
            }) bmp;
     bmp \<leftarrow> appendBitmap_active bmp bmpa;
     bitmapSize bmp;
     Some bmp
   }"

subsection \<open>Compression\<close>

text \<open>
  \<open>headj\<close> is the header of the word handled last; it is read only when \<open>j \<noteq> 0\<close>, that is
  after the first iteration has set it. \<open>j\<close> never passes the loop index.
\<close>

definition compress_body ::
    "bitmap \<Rightarrow> nat \<Rightarrow> word_t list \<times> nat \<times> word_t \<Rightarrow> (word_t list \<times> nat \<times> word_t) option" where
  "compress_body bmp i = (\<lambda>(tmp, j, headj). do {
     w0 \<leftarrow> arr_get (m_vec bmp) i;
     (headi, w) \<leftarrow> Some (if w0 = 0 then (2, HEADER_0F OR 1)
                         else if w0 = ALLONES then (3, HEADER_1F OR 1)
                         else (drop_bit 30 w0, w0));
     (tmp, j) \<leftarrow>
       (if j = 0 then do { tmp \<leftarrow> arr_set tmp j w; Some (tmp, Suc j) }
        else if headi = headj \<and> 1 < headj then do {
          t \<leftarrow> arr_get tmp (j - 1);
          tmp \<leftarrow> arr_set tmp (j - 1) (t + (w AND NOT HEADER_1F));
          Some (tmp, j)
        }
        else do { tmp \<leftarrow> arr_set tmp j w; Some (tmp, Suc j) });
     Some (tmp, j, headi)
   })"

definition compress :: "bitmap \<Rightarrow> bitmap option" where
  "compress bmp = do {
     (tmp, j, headj) \<leftarrow> for_loop 0 (unat (m_size bmp)) (compress_body bmp)
                         (palloc_words (m_size bmp), 0, 0);
     Some (bmp\<lparr>m_size := of_nat j, m_vec := tmp\<rparr>)
   }"

definition decompress_body ::
    "bitmap \<Rightarrow> nat \<Rightarrow> word_t list \<times> nat \<Rightarrow> (word_t list \<times> nat) option" where
  "decompress_body bmp i = (\<lambda>(tmp, j). do {
     w \<leftarrow> arr_get (m_vec bmp) i;
     head \<leftarrow> Some (drop_bit 30 w);
     cnt \<leftarrow> Some (NOT HEADER_1F AND w);
     if 1 < head then
       for_loop 0 (unat cnt) (\<lambda>k (tmp, j). do {
         tmp \<leftarrow> arr_set tmp j (if head = 2 then 0 else ALLONES);
         Some (tmp, Suc j)
       }) (tmp, j)
     else do { tmp \<leftarrow> arr_set tmp j w; Some (tmp, Suc j) }
   })"

definition decompress :: "bitmap \<Rightarrow> bitmap option" where
  "decompress bmp = do {
     (tmp, j) \<leftarrow> for_loop 0 (unat (m_size bmp)) (decompress_body bmp)
                  (palloc_words (nbits bmp div MAXBITS), 0);
     Some (bmp\<lparr>m_size := of_nat j, m_vec := tmp\<rparr>)
   }"

subsection \<open>Boolean operations on uncompressed bitmaps\<close>

text \<open>
  \<open>c00_and\<close> and \<open>c00_or\<close> fill the vector of the result but set neither its \<open>m_size\<close> nor
  its \<open>nbits\<close>, and combine the active word of the first operand with itself.
\<close>

definition c00_and :: "bitmap \<Rightarrow> bitmap \<Rightarrow> bitmap option" where
  "c00_and bmp1 bmp2 = do {
     v \<leftarrow> for_loop 0 (unat (m_size bmp1)) (\<lambda>i v. do {
            wi \<leftarrow> arr_get (m_vec bmp1) i;
            wj \<leftarrow> arr_get (m_vec bmp2) i;
            arr_set v i (wi AND wj)
          }) (palloc_words (m_size bmp1));
     Some (makeBitmap\<lparr>m_vec := v,
             active := \<lparr>aval = aval (active bmp1) AND aval (active bmp1),
                        anbits = anbits (active bmp1)\<rparr>\<rparr>)
   }"

definition c00_or :: "bitmap \<Rightarrow> bitmap \<Rightarrow> bitmap option" where
  "c00_or bmp1 bmp2 = do {
     v \<leftarrow> for_loop 0 (unat (m_size bmp1)) (\<lambda>i v. do {
            wi \<leftarrow> arr_get (m_vec bmp1) i;
            wj \<leftarrow> arr_get (m_vec bmp2) i;
            arr_set v i (wi OR wj)
          }) (palloc_words (m_size bmp1));
     Some (makeBitmap\<lparr>m_vec := v,
             active := \<lparr>aval = aval (active bmp1) OR aval (active bmp1),
                        anbits = anbits (active bmp1)\<rparr>\<rparr>)
   }"

definition c0_and :: "bitmap \<Rightarrow> bitmap \<Rightarrow> bitmap option" where
  "c0_and bmpa bmpb = do {
     result \<leftarrow> for_loop 0 (unat (m_size bmpa)) (\<lambda>i result. do {
                 wi \<leftarrow> arr_get (m_vec bmpa) i;
                 wj \<leftarrow> arr_get (m_vec bmpb) i;
                 appendWord result (wi AND wj)
               }) makeBitmap;
     Some (if anbits (active bmpa) \<noteq> 0 then
             result\<lparr>active := \<lparr>aval = aval (active bmpa) AND aval (active bmpb),
                              anbits = anbits (active bmpa)\<rparr>\<rparr>
           else result)
   }"

definition c0_or :: "bitmap \<Rightarrow> bitmap \<Rightarrow> bitmap option" where
  "c0_or bmpa bmpb = do {
     result \<leftarrow> for_loop 0 (unat (m_size bmpa)) (\<lambda>i result. do {
                 wi \<leftarrow> arr_get (m_vec bmpa) i;
                 wj \<leftarrow> arr_get (m_vec bmpb) i;
                 appendWord result (wi OR wj)
               }) makeBitmap;
     Some (if anbits (active bmpa) \<noteq> 0 then
             result\<lparr>active := \<lparr>aval = aval (active bmpa) OR aval (active bmpb),
                              anbits = anbits (active bmpa)\<rparr>\<rparr>
           else result)
   }"

subsection \<open>Boolean operations on compressed bitmaps\<close>

text \<open>
  \<open>c2_and\<close> and \<open>c2_or\<close> walk both operands in step. For each operand the C locals
  \<open>xi, x, headx, countx\<close> (\<open>yi, y, heady, county\<close>) form a cursor. At the top of the loop a
  cursor whose count is zero is advanced, or the loop is left when its operand is used up
  (\<open>Some None\<close>). The two functions share the text of the loop and differ in its body.
\<close>

record cursor =
  ci :: word_t
  cw :: word_t
  chead :: word_t
  ccount :: word_t

definition c2_start :: cursor where
  "c2_start = \<lparr>ci = 0, cw = 0, chead = 0, ccount = 0\<rparr>"

definition c2_fetch :: "bitmap \<Rightarrow> cursor \<Rightarrow> cursor option option" where
  "c2_fetch bmp c =
     (if ccount c = 0 then
        if m_size bmp \<le> ci c then Some None
        else do {
          x \<leftarrow> arr_get (m_vec bmp) (unat (ci c));
          Some (Some \<lparr>ci = ci c + 1, cw = x, chead = drop_bit 30 x,
                      ccount = NOT HEADER_1F AND x\<rparr>)
        }
      else Some (Some c))"

type_synonym c2_body = "bitmap \<Rightarrow> cursor \<Rightarrow> cursor \<Rightarrow> (bitmap \<times> cursor \<times> cursor) option"

definition c2_and_body :: c2_body where
  "c2_and_body result cx cy =
     (if chead cx < 2 \<and> chead cy < 2 then do {
        result \<leftarrow> appendWord result (cw cx AND cw cy);
        Some (result, cx\<lparr>ccount := 0\<rparr>, cy\<lparr>ccount := 0\<rparr>)
      }
      else if 1 < chead cx \<and> 1 < chead cy then
        let count_min = (if ccount cy < ccount cx then ccount cy else ccount cx)
        in do {
          result \<leftarrow> (if chead cx = 3 \<and> chead cy = 3 then appendCounter result 1 count_min
                     else appendCounter result 0 count_min);
          Some (result, cx\<lparr>ccount := ccount cx - count_min\<rparr>,
                        cy\<lparr>ccount := ccount cy - count_min\<rparr>)
        }
      else if 1 < chead cx then do {
        result \<leftarrow> (if chead cx = 2 then appendCounter result 0 1
                   else appendWord result (cw cy));
        Some (result, cx\<lparr>ccount := ccount cx - 1\<rparr>, cy\<lparr>ccount := 0\<rparr>)
      }
      else do {
        result \<leftarrow> (if chead cy = 2 then appendCounter result 0 1
                   else appendWord result (cw cx));
        Some (result, cx\<lparr>ccount := 0\<rparr>, cy\<lparr>ccount := ccount cy - 1\<rparr>)
      })"

definition c2_or_body :: c2_body where
  "c2_or_body result cx cy =
     (if chead cx < 2 \<and> chead cy < 2 then do {
        result \<leftarrow> appendWord result (cw cx OR cw cy);
        Some (result, cx\<lparr>ccount := 0\<rparr>, cy\<lparr>ccount := 0\<rparr>)
      }
      else if 1 < chead cx \<and> 1 < chead cy then
        let count_min = (if ccount cy < ccount cx then ccount cy else ccount cx)
        in do {
          result \<leftarrow> (if chead cx = 3 \<or> chead cy = 3 then appendCounter result 1 count_min
                     else appendCounter result 0 count_min);
          Some (result, cx\<lparr>ccount := ccount cx - count_min\<rparr>,
                        cy\<lparr>ccount := ccount cy - count_min\<rparr>)
        }
      else if 1 < chead cx then do {
        result \<leftarrow> (if chead cx = 3 then appendCounter result 1 1
                   else appendWord result (cw cy));
        Some (result, cx\<lparr>ccount := ccount cx - 1\<rparr>, cy\<lparr>ccount := 0\<rparr>)
      }
      else do {
        result \<leftarrow> (if chead cy = 3 then appendCounter result 1 1
                   else appendWord result (cw cx));
        Some (result, cx\<lparr>ccount := 0\<rparr>, cy\<lparr>ccount := ccount cy - 1\<rparr>)
      })"

partial_function (option) c2_loop ::
    "c2_body \<Rightarrow> bitmap \<Rightarrow> bitmap \<Rightarrow> bitmap \<Rightarrow> cursor \<Rightarrow> cursor \<Rightarrow> bitmap option" where
  "c2_loop body bmpa bmpb result cx cy = do {
     fx \<leftarrow> c2_fetch bmpa cx;
     case fx of None \<Rightarrow> Some result
     | Some cx \<Rightarrow> do {
         fy \<leftarrow> c2_fetch bmpb cy;
         case fy of None \<Rightarrow> Some result
         | Some cy \<Rightarrow> do {
             (result, cx, cy) \<leftarrow> body result cx cy;
             c2_loop body bmpa bmpb result cx cy
           }
       }
   }"

definition c2_and :: "bitmap \<Rightarrow> bitmap \<Rightarrow> bitmap option" where
  "c2_and bmpa bmpb = do {
     result \<leftarrow> c2_loop c2_and_body bmpa bmpb makeBitmap c2_start c2_start;
     Some (if anbits (active bmpa) \<noteq> 0 then
             result\<lparr>active := \<lparr>aval = aval (active bmpa) AND aval (active bmpb),
                              anbits = anbits (active bmpa)\<rparr>\<rparr>
           else result)
   }"

definition c2_or :: "bitmap \<Rightarrow> bitmap \<Rightarrow> bitmap option" where
  "c2_or bmpa bmpb = do {
     result \<leftarrow> c2_loop c2_or_body bmpa bmpb makeBitmap c2_start c2_start;
     Some (if anbits (active bmpa) \<noteq> 0 then
             result\<lparr>active := \<lparr>aval = aval (active bmpa) OR aval (active bmpb),
                              anbits = anbits (active bmpa)\<rparr>\<rparr>
           else result)
   }"

subsection \<open>Boolean operations on bitmaps of any sizes\<close>

partial_function (option) bmpand :: "bitmap \<Rightarrow> bitmap \<Rightarrow> bitmap option" where
  "bmpand bmpa bmpb = do {
     nbitsa \<leftarrow> bitmapSize bmpa;
     nbitsb \<leftarrow> bitmapSize bmpb;
     if nbitsb < nbitsa then do {
       tmp \<leftarrow> bitmapCopy bmpb makeBitmap;
       tmp \<leftarrow> adjustSize tmp nbitsa;
       bmpand bmpa tmp
     }
     else if nbitsa < nbitsb then do {
       tmp \<leftarrow> bitmapCopy bmpa makeBitmap;
       tmp \<leftarrow> adjustSize tmp nbitsb;
       bmpand bmpb tmp
     }
     else c2_and bmpa bmpb
   }"

text \<open>\<open>bmpor\<close> calls \<open>bmpand\<close>, not itself, when its second operand is the longer one.\<close>

partial_function (option) bmpor :: "bitmap \<Rightarrow> bitmap \<Rightarrow> bitmap option" where
  "bmpor bmpa bmpb = do {
     nbitsa \<leftarrow> bitmapSize bmpa;
     nbitsb \<leftarrow> bitmapSize bmpb;
     if nbitsb < nbitsa then do {
       tmp \<leftarrow> bitmapCopy bmpb makeBitmap;
       tmp \<leftarrow> adjustSize tmp nbitsa;
       bmpor bmpa tmp
     }
     else if nbitsa < nbitsb then do {
       tmp \<leftarrow> bitmapCopy bmpa makeBitmap;
       tmp \<leftarrow> adjustSize tmp nbitsb;
       bmpand bmpb tmp
     }
     else c2_or bmpa bmpb
   }"

subsection \<open>Single bits of an uncompressed bitmap\<close>

definition setBitBitmap :: "bitmap \<Rightarrow> word_t \<Rightarrow> bitmap option" where
  "setBitBitmap bmp nbit =
     (if isCompressed bmp then Some bmp
      else do {
        sz \<leftarrow> bitmapSize bmp;
        if nbit < sz then
          let nw = nbit div MAXBITS; b = nbit mod MAXBITS
          in if nw < m_size bmp then do {
               w \<leftarrow> arr_get (m_vec bmp) (unat nw);
               one \<leftarrow> c_shl 1 (MAXBITS - b - 1);
               v \<leftarrow> arr_set (m_vec bmp) (unat nw) (w OR one);
               Some (bmp\<lparr>m_vec := v\<rparr>)
             }
             else do {
               one \<leftarrow> c_shl 1 (anbits (active bmp) - b - 1);
               Some (set_active_val bmp (aval (active bmp) OR one))
             }
        else Some bmp
      })"

text \<open>
  \<open>setBitZBitmap\<close> clears position \<open>31 - bit\<close> of a stored word, where \<open>setBitBitmap\<close> sets
  position \<open>31 - bit - 1\<close>. The shift \<open>1 << 31\<close> of an \<open>int\<close> is taken as the compiler
  (gcc) computes it.
\<close>

definition setBitZBitmap :: "bitmap \<Rightarrow> word_t \<Rightarrow> bitmap option" where
  "setBitZBitmap bmp nbit =
     (if isCompressed bmp then Some bmp
      else do {
        sz \<leftarrow> bitmapSize bmp;
        if nbit < sz then
          let nw = nbit div MAXBITS; b = nbit mod MAXBITS
          in if nw < m_size bmp then do {
               w \<leftarrow> arr_get (m_vec bmp) (unat nw);
               one \<leftarrow> c_shl 1 (31 - b);
               v \<leftarrow> arr_set (m_vec bmp) (unat nw) (w AND NOT one);
               Some (bmp\<lparr>m_vec := v\<rparr>)
             }
             else do {
               one \<leftarrow> c_shl 1 (anbits (active bmp) - b - 1);
               Some (set_active_val bmp (aval (active bmp) AND NOT one))
             }
        else Some bmp
      })"

subsection \<open>Random bitmaps\<close>

text \<open>
  \<open>randBitmap\<close> draws positions until \<open>nc\<close> bits have been set. Floating point and the random
  number generator are parameters: \<open>sparse\<close> is the test \<open>density < 1\<close>, \<open>nc\<close> the value of
  \<open>nb * density\<close> as a \<open>word_t\<close>, and \<open>coin k\<close> whether the \<open>k\<close>-th number drawn is below
  \<open>RAND_MAX * density\<close>. The loop has no bound of its own.
\<close>

partial_function (option) rand_loop ::
    "(nat \<Rightarrow> bool) \<Rightarrow> word_t \<Rightarrow> word_t \<Rightarrow> nat \<Rightarrow> bitmap \<Rightarrow> word_t \<Rightarrow> word_t \<Rightarrow> bitmap option" where
  "rand_loop coin nb nc k bmp i cnt =
     (if cnt < nc then do {
        (bmp, cnt) \<leftarrow> (if coin k then do {
                         bmp \<leftarrow> setBitBitmap bmp i;
                         Some (bmp, cnt + 1)
                       } else Some (bmp, cnt));
        rand_loop coin nb nc (Suc k) bmp (if nb \<le> i + 1 then 0 else i + 1) cnt
      } else Some bmp)"

definition randBitmap :: "(nat \<Rightarrow> bool) \<Rightarrow> bool \<Rightarrow> word_t \<Rightarrow> bitmap \<Rightarrow> word_t \<Rightarrow> bitmap option" where
  "randBitmap coin sparse nc bmp nb =
     (if 0 < nb \<and> sparse then
        let nw = nb div MAXBITS
        in rand_loop coin nb nc 0
             (bmp\<lparr>m_vec := palloc_words nw, nbits := nw * MAXBITS, m_size := nw,
                  active := \<lparr>aval = 0, anbits = nb mod MAXBITS\<rparr>, isCompressed := False\<rparr>) 0 0
      else Some bmp)"

end
