(* ===== verification/Bitmap_Append.thy ===== *)
theory Bitmap_Append
  imports Bitmap
begin

text \<open>
  What a bitmap denotes, and the operations that extend it. \<open>groups\<close> reads the stored words
  as 31-bit groups, \<open>bits\<close> as the whole bit vector with the active bits at its end.
  \<open>wf_vec\<close> and \<open>wf_bitmap\<close> are the representation invariant. Each appending operation
  returns, keeps the invariant and extends the bits by what it is asked to append, as long as
  the number of bits stays below \<open>2 ^ 32\<close>, the range of the counter \<open>nbits\<close>.
\<close>

subsection \<open>The denotation and the invariant\<close>

definition is_fill :: "word_t \<Rightarrow> bool" where
  "is_fill w \<longleftrightarrow> 1 < drop_bit 30 w"

definition fill_group :: "word_t \<Rightarrow> word_t" where
  "fill_group val = (if val = 1 then ALLONES else 0)"

definition groups_of :: "word_t \<Rightarrow> word_t list" where
  "groups_of w = (if is_fill w then replicate (unat (take_bit 30 w)) (fill_group (drop_bit 30 w - 2))
                  else [w])"

definition stored :: "bitmap \<Rightarrow> word_t list" where
  "stored b = take (unat (m_size b)) (m_vec b)"

definition groups :: "bitmap \<Rightarrow> word_t list" where
  "groups b = concat (map groups_of (stored b))"

definition active_bits :: "bitmap \<Rightarrow> bool list" where
  "active_bits b = to_bits (unat (anbits (active b))) (aval (active b))"

definition group_bits :: "word_t list \<Rightarrow> bool list" where
  "group_bits gs = concat (map (to_bits 31) gs)"

definition bits :: "bitmap \<Rightarrow> bool list" where
  "bits b = group_bits (groups b) @ active_bits b"

definition wf_vec :: "bitmap \<Rightarrow> bool" where
  "wf_vec b \<longleftrightarrow> unat (m_size b) \<le> length (m_vec b) \<and>
     (\<forall>w\<in>set (stored b). groups_of w \<noteq> []) \<and>
     unat (nbits b) = 31 * length (groups b)"

definition wf_active :: "bitmap \<Rightarrow> bool" where
  "wf_active b \<longleftrightarrow> anbits (active b) < 31 \<and>
     take_bit (unat (anbits (active b))) (aval (active b)) = aval (active b)"

definition wf_bitmap :: "bitmap \<Rightarrow> bool" where
  "wf_bitmap b \<longleftrightarrow> wf_vec b \<and> wf_active b"

subsection \<open>Word arithmetic of the header and counter fields\<close>

lemma counter_mask [simp]: "w AND NOT HEADER_1F = take_bit 30 w" "NOT HEADER_1F AND w = take_bit 30 w"
proof -
  have "NOT HEADER_1F = (mask 30 :: word_t)" by (simp add: HEADER_1F_def mask_eq_exp_minus_1)
  then show "w AND NOT HEADER_1F = take_bit 30 w" "NOT HEADER_1F AND w = take_bit 30 w"
    by (simp_all add: take_bit_eq_mask and.commute)
qed

lemma unat_header: "unat (drop_bit 30 (w::word_t)) = unat w div 2 ^ 30"
  unfolding unat_drop_bit_eq by (simp add: drop_bit_eq_div)

lemmas unat_counter = unat_take_bit [of 30]

lemma header_range: "unat (drop_bit 30 (w::word_t)) < 4"
  using unat32_less [of w] by (simp add: unat_header)

lemma header_cases:
  fixes w :: word_t
  obtains "drop_bit 30 w = 0" | "drop_bit 30 w = 1" | "drop_bit 30 w = 2" | "drop_bit 30 w = 3"
proof -
  have "unat (drop_bit 30 w) \<in> {0, 1, 2, 3}" using header_range [of w] by auto
  then show thesis
    using that by (auto simp: word_unat_eq_iff)
qed

lemma literal_31: "\<not> is_fill w \<longleftrightarrow> take_bit 31 w = w"
proof -
  have "\<not> is_fill w \<longleftrightarrow> unat w div 2 ^ 30 \<le> 1"
    by (simp add: is_fill_def word_less_nat_alt unat_header not_less)
  also have "\<dots> \<longleftrightarrow> unat w < 2 ^ 31" by auto
  also have "\<dots> \<longleftrightarrow> take_bit 31 w = w"
    by (simp add: word_unat_eq_iff unat_take_bit mod_eq_self_iff_div_eq_0 div_eq_0_iff)
  finally show ?thesis .
qed


lemma fill_word:
  assumes "val = 0 \<or> val = 1" and "unat cnt < 2 ^ 30"
  shows "drop_bit 30 (push_bit 30 (2 + val) OR cnt :: word_t) = 2 + val"
    and "take_bit 30 (push_bit 30 (2 + val) OR cnt :: word_t) = cnt"
proof -
  have c: "take_bit 30 cnt = cnt" using assms(2) by (simp add: word_unat_eq_iff unat_take_bit)
  then have "drop_bit 30 cnt = 0"
    by (metis drop_bit_take_bit diff_self_eq_0 take_bit_0)
  with assms(1) show "drop_bit 30 (push_bit 30 (2 + val) OR cnt) = 2 + val"
    by (auto simp: drop_bit_or)
  show "take_bit 30 (push_bit 30 (2 + val) OR cnt) = cnt"
    by (simp add: take_bit_or take_bit_push_bit c)
qed

lemma groups_of_fill:
  assumes "val = 0 \<or> val = 1" and "unat cnt < 2 ^ 30"
  shows "groups_of (push_bit 30 (2 + val) OR cnt) = replicate (unat cnt) (fill_group val)"
proof -
  note f = fill_word [OF assms]
  have "1 < 2 + val" "fill_group (2 + val - 2) = fill_group val" using assms(1) by auto
  then show ?thesis unfolding groups_of_def is_fill_def f by simp
qed

text \<open>Adding to the counter of a fill, without a carry into the header.\<close>

lemma fill_add:
  fixes w cnt :: word_t
  assumes "unat (take_bit 30 w) + unat cnt < 2 ^ 30"
  shows "drop_bit 30 (w + cnt) = drop_bit 30 w"
    and "unat (take_bit 30 (w + cnt)) = unat (take_bit 30 w) + unat cnt"
proof -
  have w: "unat w = unat w div 2 ^ 30 * 2 ^ 30 + unat w mod 2 ^ 30" by simp
  have "unat w div 2 ^ 30 < 4" using unat32_less [of w] by simp
  then have "unat w div 2 ^ 30 * 2 ^ 30 \<le> 3 * 2 ^ 30" by simp
  with assms w have "unat w + unat cnt < 4 * 2 ^ 30" unfolding unat_counter by linarith
  then have u: "unat (w + cnt) = unat w + unat cnt" by (simp add: unat_add_no_wrap)
  note dm = div_mod_add_lt [OF assms [unfolded unat_counter]]
  show "drop_bit 30 (w + cnt) = drop_bit 30 w"
    by (simp only: word_unat_eq_iff unat_header u dm)
  show "unat (take_bit 30 (w + cnt)) = unat (take_bit 30 w) + unat cnt"
    by (simp only: unat_counter u dm)
qed

lemma groups_of_add:
  assumes "is_fill w" and "unat (take_bit 30 w) + unat cnt < 2 ^ 30"
  shows "groups_of (w + cnt) =
    groups_of w @ replicate (unat cnt) (fill_group (drop_bit 30 w - 2))"
  using assms(1) fill_add [OF assms(2)]
  by (simp add: groups_of_def is_fill_def replicate_add)

lemma groups_of_0F [simp]: "groups_of (HEADER_0F OR 1) = [0]"
  and groups_of_1F [simp]: "groups_of (HEADER_1F OR 1) = [ALLONES]"
  by (simp_all add: groups_of_def is_fill_def fill_group_def HEADER_0F_def HEADER_1F_def)

lemma groups_of_literal: "take_bit 31 w = w \<Longrightarrow> groups_of w = [w]"
  by (simp add: groups_of_def flip: literal_31)


subsection \<open>The vector as a stack\<close>

lemma length_stored: "wf_vec b \<Longrightarrow> length (stored b) = unat (m_size b)"
  by (simp add: wf_vec_def stored_def)

lemma length_groups_ge: "(\<forall>w\<in>set ws. groups_of w \<noteq> []) \<Longrightarrow> length ws \<le> length (concat (map groups_of ws))"
proof (induction ws)
  case (Cons w ws)
  then have "groups_of w \<noteq> []" by simp
  then have "1 \<le> length (groups_of w)" by (cases "groups_of w") auto
  moreover have "length ws \<le> length (concat (map groups_of ws))" using Cons by simp
  ultimately show ?case by simp
qed simp

lemma groups_bound: "wf_vec b \<Longrightarrow> 31 * length (groups b) < 2 ^ 32"
  using unat32_less [of "nbits b"] by (simp add: wf_vec_def)

lemma size_le_groups: "wf_vec b \<Longrightarrow> unat (m_size b) \<le> length (groups b)"
  using length_stored [of b] length_groups_ge [of "stored b"]
  by (simp add: groups_def wf_vec_def)

lemma isEmpty_iff: "wf_vec b \<Longrightarrow> isEmpty b \<longleftrightarrow> stored b = []"
  using length_stored [of b] by (auto simp: isEmpty_def unat_eq_0)

lemma unat_pred: "(n::word_t) \<noteq> 0 \<Longrightarrow> unat (n - 1) = unat n - 1"
  by (metis unat_minus_one)

lemma getBitmapTop_eq:
  assumes "wf_vec b" and "\<not> isEmpty b"
  shows "getBitmapTop b = Some (last (stored b))"
proof -
  have n: "m_size b \<noteq> 0" "unat (m_size b) \<noteq> 0" using assms(2) by (auto simp: isEmpty_def unat_eq_0)
  have le: "unat (m_size b) \<le> length (m_vec b)" using assms(1) by (simp add: wf_vec_def)
  with n have "unat (m_size b - 1) < length (m_vec b)" unfolding unat_pred [OF n(1)] by arith
  moreover have "last (stored b) = m_vec b ! (unat (m_size b) - 1)"
    using n le by (subst last_conv_nth) (auto simp: stored_def min_absorb2)
  ultimately show ?thesis
    using n assms(2) by (simp add: getBitmapTop_def unat_pred)
qed

lemma setBitmapTop_eq:
  assumes "wf_vec b" and "\<not> isEmpty b"
  obtains v where "setBitmapTop b w = Some (b\<lparr>m_vec := v\<rparr>)" and "length v = length (m_vec b)"
    and "take (unat (m_size b)) v = butlast (stored b) @ [w]"
proof
  let ?v = "(m_vec b)[unat (m_size b) - 1 := w]"
  have n: "m_size b \<noteq> 0" "unat (m_size b) \<noteq> 0" using assms(2) by (auto simp: isEmpty_def unat_eq_0)
  have le: "unat (m_size b) \<le> length (m_vec b)" using assms(1) by (simp add: wf_vec_def)
  with n have lt: "unat (m_size b) - 1 < length (m_vec b)" by arith
  with n show "setBitmapTop b w = Some (b\<lparr>m_vec := ?v\<rparr>)"
    using assms(2) by (simp add: setBitmapTop_def unat_pred)
  show "length ?v = length (m_vec b)" by simp
  have "take (unat (m_size b)) ?v = (stored b)[unat (m_size b) - 1 := w]"
    by (simp add: stored_def take_update_swap)
  also have "\<dots> = (stored b)[length (stored b) - Suc 0 := w]"
    using length_stored [OF assms(1)] by simp
  also have "\<dots> = butlast (stored b) @ [w]"
    using assms(2) isEmpty_iff [OF assms(1)] by (intro list_update_last) simp
  finally show "take (unat (m_size b)) ?v = butlast (stored b) @ [w]" .
qed

lemma alloc_words_eq: "unat n < 2 ^ 30 \<Longrightarrow> alloc_words n = unat n"
  by (simp add: alloc_words_def)

lemma pushBitmap_eq:
  assumes "wf_vec b" and "Suc (unat (m_size b)) < 2 ^ 30"
  shows "pushBitmap b w = Some (b\<lparr>m_vec := stored b @ [w], m_size := m_size b + 1\<rparr>)"
proof (cases "m_size b = 0")
  case True
  then show ?thesis
    by (simp add: pushBitmap_def palloc_words_def alloc_words_def stored_def Let_def)
next
  case False
  let ?n = "unat (m_size b)" and ?r = "repalloc_words (m_vec b) (m_size b + 1)"
  have le: "?n \<le> length (m_vec b)" using assms(1) by (simp add: wf_vec_def)
  have inc: "unat (m_size b + 1) = Suc ?n" using assms(2) by (simp add: unat_inc_no_wrap)
  then have al: "alloc_words (m_size b + 1) = Suc ?n" using assms(2) by (simp add: alloc_words_eq)
  have len: "length ?r = Suc ?n" using le by (simp add: repalloc_words_def al)
  have "take ?n ?r = stored b" using le by (simp add: repalloc_words_def al stored_def)
  then have "?r[?n := w] = stored b @ [w]"
    using len by (simp add: upd_conv_take_nth_drop)
  then show ?thesis using False len by (simp add: pushBitmap_def Let_def)
qed


subsection \<open>Appending whole groups\<close>

text \<open>
  \<open>vec_ext b b' gs\<close>: the stored words of \<open>b'\<close> denote those of \<open>b\<close> followed by \<open>gs\<close>, and
  the other fields are those of \<open>b\<close>.
\<close>

definition vec_ext :: "bitmap \<Rightarrow> bitmap \<Rightarrow> word_t list \<Rightarrow> bool" where
  "vec_ext b b' gs \<longleftrightarrow> unat (m_size b') \<le> length (m_vec b') \<and>
     (\<forall>w\<in>set (stored b'). groups_of w \<noteq> []) \<and> groups b' = groups b @ gs \<and>
     nbits b' = nbits b \<and> active b' = active b \<and> isCompressed b' = isCompressed b"

lemma stored_simps [simp]:
  "stored (b\<lparr>nbits := n\<rparr>) = stored b" "stored (b\<lparr>active := a\<rparr>) = stored b"
  "groups (b\<lparr>nbits := n\<rparr>) = groups b" "groups (b\<lparr>active := a\<rparr>) = groups b"
  by (simp_all add: stored_def groups_def)

lemma wf_vec_active [simp]: "wf_vec (b\<lparr>active := a\<rparr>) = wf_vec b"
  by (simp add: wf_vec_def)

lemma vec_ext_wf:
  assumes "wf_vec b" and "vec_ext b b' gs" and "unat k = 31 * length gs"
    and "31 * (length (groups b) + length gs) < 2 ^ 32"
  shows "wf_vec (b'\<lparr>nbits := nbits b' + k\<rparr>)"
proof -
  have "unat (nbits b + k) = unat (nbits b) + unat k"
    using assms by (intro unat_add_no_wrap) (simp add: wf_vec_def)
  with assms show ?thesis by (simp add: vec_ext_def wf_vec_def)
qed

lemma push_ext:
  assumes "wf_vec b" and "groups_of w = gs" and "gs \<noteq> []"
    and "31 * (length (groups b) + length gs) < 2 ^ 32"
  shows "rets (pushBitmap b w) (\<lambda>b'. vec_ext b b' gs)"
proof -
  have "1 \<le> length gs" using assms(3) by (cases gs) auto
  then have cap: "Suc (unat (m_size b)) < 2 ^ 30"
    using assms(4) size_le_groups [OF assms(1)] by simp
  then have inc: "unat (m_size b + 1) = Suc (unat (m_size b))" by (simp add: unat_inc_no_wrap)
  have st: "stored (b\<lparr>m_vec := stored b @ [w], m_size := m_size b + 1\<rparr>) = stored b @ [w]"
    using length_stored [OF assms(1)] by (simp add: stored_def inc)
  show ?thesis
    unfolding pushBitmap_eq [OF assms(1) cap] rets_Some vec_ext_def groups_def st
    using assms length_stored [OF assms(1)] by (auto simp: inc wf_vec_def)
qed

lemma set_top_ext:
  assumes "wf_vec b" and "\<not> isEmpty b" and "groups_of w = groups_of (last (stored b)) @ gs"
  shows "rets (setBitmapTop b w) (\<lambda>b'. vec_ext b b' gs)"
proof -
  obtain v where v: "setBitmapTop b w = Some (b\<lparr>m_vec := v\<rparr>)" "length v = length (m_vec b)"
      "take (unat (m_size b)) v = butlast (stored b) @ [w]"
    using setBitmapTop_eq [OF assms(1,2)] .
  have ne: "stored b \<noteq> []" using assms(1,2) by (simp add: isEmpty_iff)
  have st: "stored (b\<lparr>m_vec := v\<rparr>) = butlast (stored b) @ [w]" using v by (simp add: stored_def)
  have sp: "stored b = butlast (stored b) @ [last (stored b)]" using ne by simp
  have g: "groups b = concat (map groups_of (butlast (stored b))) @ groups_of (last (stored b))"
    unfolding groups_def by (subst sp) simp
  have wf: "\<forall>u\<in>set (stored b). groups_of u \<noteq> []" "unat (m_size b) \<le> length (m_vec b)"
    using assms(1) by (simp_all add: wf_vec_def)
  have "\<forall>u\<in>set (butlast (stored b) @ [w]). groups_of u \<noteq> []"
    using wf(1) ne assms(3) by (auto dest: in_set_butlastD)
  then show ?thesis
    unfolding v(1) rets_Some vec_ext_def st using g assms(3) wf(2) v(2)
    by (simp add: groups_def [of "b\<lparr>m_vec := v\<rparr>"] st)
qed

lemma groups_of_le: "w \<in> set (stored b) \<Longrightarrow> length (groups_of w) \<le> length (groups b)"
  unfolding groups_def by (auto simp: length_concat intro!: member_le_sum_list)

text \<open>The counter of a fill on top of the stack has room for \<open>n\<close> more groups.\<close>

lemma top_counter_room:
  assumes "wf_vec b" and "\<not> isEmpty b" and "is_fill (last (stored b))"
    and "31 * (length (groups b) + n) < 2 ^ 32"
  shows "unat (take_bit 30 (last (stored b))) + n < 2 ^ 30"
proof -
  have "last (stored b) \<in> set (stored b)" using assms(1,2) by (simp add: isEmpty_iff)
  from groups_of_le [OF this] assms(3,4) show ?thesis by (simp add: groups_of_def)
qed

text \<open>
  Both \<open>appendCounter\<close> and \<open>appendActive\<close> put a word on the stack, or add to the counter of
  the word on top when it is a fill of the same kind.
\<close>

lemma emit_ext:
  assumes "wf_vec b" and "groups_of w = gs" and "gs \<noteq> []"
    and "31 * (length (groups b) + length gs) < 2 ^ 32"
    and "\<not> isEmpty b \<Longrightarrow> P (last (stored b)) \<Longrightarrow>
      groups_of (last (stored b) + c) = groups_of (last (stored b)) @ gs"
  shows "rets (if isEmpty b then pushBitmap b w
               else getBitmapTop b \<bind> (\<lambda>w1. if P w1 then setBitmapTop b (w1 + c) else pushBitmap b w))
              (\<lambda>b'. vec_ext b b' gs)"
  using push_ext [OF assms(1-4)] set_top_ext [OF assms(1) _ assms(5)]
  by (simp add: getBitmapTop_eq [OF assms(1)])

lemma groups_of_top:
  assumes "wf_vec b" and "\<not> isEmpty b" and "drop_bit 30 (last (stored b)) = 2 + val"
    and "val = 0 \<or> val = 1" and "31 * (length (groups b) + unat cnt) < 2 ^ 32"
  shows "groups_of (last (stored b) + cnt) =
    groups_of (last (stored b)) @ replicate (unat cnt) (fill_group val)"
proof -
  have f: "is_fill (last (stored b))" using assms(3,4) by (auto simp: is_fill_def)
  show ?thesis
    using groups_of_add [OF f top_counter_room [OF assms(1,2) f assms(5)]] assms(3) by simp
qed

lemma appendCounter_ok:
  assumes "wf_vec b" and "val = 0 \<or> val = 1" and "0 < cnt"
    and cap: "31 * (length (groups b) + unat cnt) < 2 ^ 32"
  shows "rets (appendCounter b val cnt)
    (\<lambda>b'. wf_vec b' \<and> groups b' = groups b @ replicate (unat cnt) (fill_group val) \<and>
          active b' = active b \<and> isCompressed b' = isCompressed b)"
proof -
  let ?gs = "replicate (unat cnt) (fill_group val)" and ?w = "push_bit 30 (2 + val) OR cnt"
  have "0 < unat cnt" "unat cnt < 2 ^ 30" using assms(3) cap by (simp_all add: word_less_nat_alt)
  then have step: "rets (if isEmpty b then pushBitmap b ?w
      else getBitmapTop b \<bind> (\<lambda>w1. if drop_bit 30 w1 = 2 + val
        then setBitmapTop b (w1 + cnt) else pushBitmap b ?w)) (\<lambda>b'. vec_ext b b' ?gs)"
    using assms groups_of_top by (intro emit_ext) (auto simp: groups_of_fill)
  have "unat (cnt * MAXBITS) = 31 * length ?gs"
    using cap by (simp add: MAXBITS_def unat_mult_no_wrap)
  then have "wf_vec (b'\<lparr>nbits := nbits b' + cnt * MAXBITS\<rparr>)" if "vec_ext b b' ?gs" for b'
    using vec_ext_wf [OF assms(1) that] cap by simp
  then show ?thesis unfolding appendCounter_def Let_def
    by (intro rets_bind [OF step]) (simp add: vec_ext_def)
qed

lemma appendActive_ok:
  assumes "wf_vec b" and lit: "take_bit 31 (aval (active b)) = aval (active b)"
    and cap: "31 * (length (groups b) + 1) < 2 ^ 32"
  shows "rets (appendActive b)
    (\<lambda>b'. wf_vec b' \<and> groups b' = groups b @ [aval (active b)] \<and>
          active b' = \<lparr>aval = 0, anbits = 0\<rparr> \<and> isCompressed b' = isCompressed b)"
proof -
  let ?w0 = "aval (active b)"
  define head where "head = (if ?w0 = 0 then 2 else if ?w0 = ALLONES then 3 else (0::word_t))"
  define w where "w = (if ?w0 = 0 then HEADER_0F OR 1 else if ?w0 = ALLONES then HEADER_1F OR 1 else ?w0)"
  have w: "groups_of w = [?w0]"
    using lit by (simp add: w_def groups_of_literal)
  have "groups_of (last (stored b) + 1) = groups_of (last (stored b)) @ [?w0]"
    if "\<not> isEmpty b" "drop_bit 30 (last (stored b)) = head \<and> 1 < head"
    using groups_of_top [OF assms(1) that(1), of 0 1] groups_of_top [OF assms(1) that(1), of 1 1]
      that(2) cap by (auto simp: head_def fill_group_def split: if_splits)
  then have step: "rets (if isEmpty b then pushBitmap b w
      else getBitmapTop b \<bind> (\<lambda>w1. if drop_bit 30 w1 = head \<and> 1 < head
        then setBitmapTop b (w1 + 1) else pushBitmap b w)) (\<lambda>b'. vec_ext b b' [?w0])"
    using assms w by (intro emit_ext) auto
  have "wf_vec (b'\<lparr>nbits := nbits b' + MAXBITS\<rparr>)" if "vec_ext b b' [?w0]" for b'
    using vec_ext_wf [OF assms(1) that, of MAXBITS] cap by (simp add: MAXBITS_def)
  moreover have "(head, w) = (if ?w0 = 0 then (2, HEADER_0F OR 1)
      else if ?w0 = ALLONES then (3, HEADER_1F OR 1) else (0, ?w0))"
    by (simp add: head_def w_def)
  ultimately show ?thesis unfolding appendActive_def Let_def
    by (simp only: case_prod_conv flip: \<open>(head, w) = _\<close>)
      (intro rets_bind [OF step], simp add: vec_ext_def)
qed


subsection \<open>Bits of groups\<close>

lemma group_bits_append [simp]: "group_bits (xs @ ys) = group_bits xs @ group_bits ys"
  by (simp add: group_bits_def)

lemma group_bits_Nil [simp]: "group_bits [] = []"
  and group_bits_Cons [simp]: "group_bits (g # gs) = to_bits 31 g @ group_bits gs"
  by (simp_all add: group_bits_def)

lemma length_group_bits [simp]: "length (group_bits gs) = 31 * length gs"
  by (induction gs) auto

lemma to_bits_ALLONES: "to_bits 31 ALLONES = replicate 31 True"
proof -
  have "ALLONES = (mask 31 :: word_t)" by (simp add: ALLONES_def mask_eq_exp_minus_1)
  moreover have "to_bits 31 (mask 31 :: word_t) = replicate 31 True" by (rule to_bits_mask) simp
  ultimately show ?thesis by (simp only:)
qed

lemma to_bits_fill_group: "to_bits 31 (fill_group val) = replicate 31 (val = 1)"
  unfolding fill_group_def by (simp only: to_bits_ALLONES to_bits_0 split: if_split) simp

lemma group_bits_fill [simp]: "group_bits (replicate n (fill_group val)) = replicate (31 * n) (val = 1)"
proof (induction n)
  case (Suc n)
  have "replicate (31 * Suc n) (val = 1) = replicate 31 (val = 1) @ replicate (31 * n) (val = 1)"
    by (simp flip: replicate_add)
  with Suc show ?case by (simp only: replicate_Suc group_bits_Cons to_bits_fill_group)
qed simp

lemma length_bits: "length (bits b) = 31 * length (groups b) + unat (anbits (active b))"
  by (simp add: bits_def active_bits_def)

lemma mask_times_bit:
  fixes val :: word_t
  assumes "val = 0 \<or> val = 1" and "k \<le> 32"
  shows "take_bit k (mask k * val) = mask k * val"
    and "to_bits k (mask k * val) = replicate k (val = 1)"
  using assms by (auto simp: to_bits_mask)

text \<open>A word that fills up the active word: \<open>k\<close> old bits, then \<open>31 - k\<close> new ones.\<close>

lemma fill_up_active:
  assumes "k \<le> 31" and "take_bit k (a::word_t) = a" and "take_bit (31 - k) w = w"
  shows "take_bit 31 (push_bit (31 - k) a OR w) = push_bit (31 - k) a OR w"
    and "to_bits 31 (push_bit (31 - k) a OR w) = to_bits k a @ to_bits (31 - k) w"
  using assms take_bit_push_or [of k a "31 - k" w] to_bits_push_or [of k "31 - k" w a] by simp_all


subsection \<open>appendWord\<close>

lemma wf_activeD:
  assumes "wf_active b"
  shows "unat (anbits (active b)) < 31"
    and "take_bit (unat (anbits (active b))) (aval (active b)) = aval (active b)"
  using assms by (simp_all add: wf_active_def word_less_nat_alt)

lemma wf_active_aligned: "wf_active b \<Longrightarrow> anbits (active b) = 0 \<Longrightarrow> active b = \<lparr>aval = 0, anbits = 0\<rparr>"
  using wf_activeD(2) [of b] by (cases "active b") simp

text \<open>On a bitmap without active bits \<open>appendWord\<close> appends the groups of the word.\<close>

lemma appendWord_aligned:
  assumes "wf_bitmap b" and al: "anbits (active b) = 0" and "groups_of w \<noteq> []"
    and cap: "31 * (length (groups b) + length (groups_of w)) < 2 ^ 32"
  shows "rets (appendWord b w)
    (\<lambda>b'. wf_vec b' \<and> groups b' = groups b @ groups_of w \<and>
          active b' = \<lparr>aval = 0, anbits = 0\<rparr> \<and> isCompressed b' = isCompressed b)"
proof (cases "is_fill w")
  case True
  have wf: "wf_vec b" and a0: "active b = \<lparr>aval = 0, anbits = 0\<rparr>"
    using assms(1) wf_active_aligned al by (simp_all add: wf_bitmap_def)
  let ?v = "drop_bit 30 w mod 2"
  have v: "?v = 0 \<or> ?v = 1" "drop_bit 30 w - 2 = ?v"
    using True by (cases w rule: header_cases; simp add: is_fill_def)+
  have g: "groups_of w = replicate (unat (take_bit 30 w)) (fill_group ?v)"
    using True v(2) by (simp add: groups_of_def)
  with assms(3) have pos: "0 < take_bit 30 w" by (simp add: word_less_nat_alt)
  have "rets (appendCounter b ?v (take_bit 30 w)) (\<lambda>b'. wf_vec b' \<and> groups b' = groups b @ groups_of w \<and>
          active b' = active b \<and> isCompressed b' = isCompressed b)"
    using appendCounter_ok [OF wf v(1) pos] cap unfolding g by simp
  then show ?thesis
    using True pos al a0 by (simp add: appendWord_def is_fill_def Let_def)
next
  case False
  then have lit: "take_bit 31 w = w" by (simp add: literal_31)
  have "rets (appendActive (set_active_val b w)) (\<lambda>b'. wf_vec b' \<and> groups b' = groups b @ [w] \<and>
          active b' = \<lparr>aval = 0, anbits = 0\<rparr> \<and> isCompressed b' = isCompressed b)"
    using appendActive_ok [of "set_active_val b w"] assms(1) cap lit
    by (simp add: wf_bitmap_def groups_of_literal)
  with False al lit show ?thesis
    by (simp add: appendWord_def is_fill_def Let_def groups_of_literal)
qed


text \<open>
  With \<open>k\<close> active bits the word is cut: its first \<open>31 - k\<close> bits complete the active word,
  its last \<open>k\<close> bits become the new active bits.
\<close>

lemma unat_MAXBITS: "unat MAXBITS = 31"
  by (simp add: MAXBITS_def)

lemma unat_room:
  assumes "n < 31"
  shows "unat (MAXBITS - n) = 31 - unat n" and "MAXBITS - n < 32" and "n < 32"
proof -
  show u: "unat (MAXBITS - n) = 31 - unat n"
    using assms by (simp add: MAXBITS_def unat_sub word_le_less_eq)
  show "MAXBITS - n < 32" "n < 32" using assms u by (simp_all add: word_less_nat_alt)
qed

lemma appendWord_literal:
  assumes "wf_bitmap b" and ua: "anbits (active b) \<noteq> 0" and lit: "take_bit 31 w = w"
    and cap: "31 * (length (groups b) + 1) < 2 ^ 32"
  shows "rets (appendWord b w) (\<lambda>b'. wf_bitmap b' \<and> bits b' = bits b @ to_bits 31 w \<and>
           anbits (active b') = anbits (active b) \<and> isCompressed b' = isCompressed b)"
proof -
  let ?k = "unat (anbits (active b))" and ?a = "aval (active b)"
  have wf: "wf_vec b" and wa: "wf_active b" using assms(1) by (simp_all add: wf_bitmap_def)
  note k = wf_activeD(1) [OF wa] and a = wf_activeD(2) [OF wa]
  have "anbits (active b) < 31" using wa by (simp add: wf_active_def)
  note room = unat_room [OF this]
  let ?v = "push_bit (31 - ?k) ?a OR drop_bit ?k w"
  have "take_bit (31 - ?k) (drop_bit ?k w) = drop_bit ?k w"
    using lit by (metis drop_bit_take_bit)
  note v = fill_up_active [OF less_imp_le [OF k] a this]
  have act: "rets (appendActive (set_active_val b ?v)) (\<lambda>b'. wf_vec b' \<and> groups b' = groups b @ [?v] \<and>
      active b' = \<lparr>aval = 0, anbits = 0\<rparr> \<and> isCompressed b' = isCompressed b)"
    using appendActive_ok [of "set_active_val b ?v"] wf v(1) cap by simp
  have w: "to_bits 31 w = to_bits (31 - ?k) (drop_bit ?k w) @ to_bits ?k w"
    using to_bits_add [of "31 - ?k" ?k w] k by simp
  have lit': "\<not> 1 < drop_bit 30 w" using lit literal_31 by (simp add: is_fill_def)
  have ev: "appendWord b w = appendActive (set_active_val b ?v) \<bind>
      (\<lambda>b'. Some (b'\<lparr>active := \<lparr>aval = take_bit ?k w, anbits = anbits (active b)\<rparr>\<rparr>))"
    using ua lit' room
    by (simp add: appendWord_def Let_def shifted_one_mask take_bit_eq_mask)
  show ?thesis unfolding ev
    by (rule rets_bind [OF act])
      (use wa v(2) w in \<open>simp add: wf_bitmap_def wf_active_def bits_def active_bits_def\<close>)
qed

lemma appendWord_fill:
  assumes "wf_bitmap b" and ua: "anbits (active b) \<noteq> 0" and "is_fill w" and "groups_of w \<noteq> []"
    and cap: "31 * (length (groups b) + length (groups_of w)) < 2 ^ 32"
  shows "rets (appendWord b w) (\<lambda>b'. wf_bitmap b' \<and> bits b' = bits b @ group_bits (groups_of w) \<and>
           anbits (active b') = anbits (active b) \<and> isCompressed b' = isCompressed b)"
proof -
  let ?k = "unat (anbits (active b))" and ?a = "aval (active b)"
  let ?v = "drop_bit 30 w mod 2" and ?c = "take_bit 30 w"
  have wf: "wf_vec b" and wa: "wf_active b" using assms(1) by (simp_all add: wf_bitmap_def)
  note k = wf_activeD(1) [OF wa] and a = wf_activeD(2) [OF wa]
  have v: "?v = 0 \<or> ?v = 1" "drop_bit 30 w - 2 = ?v" "?v = 1 \<longleftrightarrow> drop_bit 30 w = 3"
    using assms(3) by (cases w rule: header_cases; simp add: is_fill_def)+
  have g: "groups_of w = replicate (unat ?c) (fill_group ?v)"
    using assms(3) v(2) by (simp add: groups_of_def)
  with assms(4) have c1: "1 \<le> unat ?c" by (cases "unat ?c") auto
  then have pos: "?c \<noteq> 0" by auto
  have cap1: "31 * (length (groups b) + 1) < 2 ^ 32" using cap g c1 by simp
  have "anbits (active b) < 31" using wa by (simp add: wf_active_def)
  note room = unat_room [OF this]
  define u where "u = (if ?v = 1 then mask (31 - ?k) else 0 :: word_t)"
  have u: "take_bit (31 - ?k) u = u" "to_bits (31 - ?k) u = replicate (31 - ?k) (?v = 1)"
    by (simp_all add: u_def to_bits_mask)
  note f = fill_up_active [OF less_imp_le [OF k] a u(1)]
  define x where "x = push_bit (31 - ?k) ?a OR u"
  have act: "rets (appendActive (set_active_val b x)) (\<lambda>b'. wf_vec b' \<and> groups b' = groups b @ [x] \<and>
      active b' = \<lparr>aval = 0, anbits = 0\<rparr> \<and> isCompressed b' = isCompressed b)"
    using appendActive_ok [of "set_active_val b x"] wf f(1) cap1 by (simp add: x_def)
  define ones where "ones = mask ?k * ?v"
  have ones: "take_bit ?k ones = ones" "to_bits ?k ones = replicate ?k (?v = 1)"
    using mask_times_bit [OF v(1), of ?k] k by (simp_all add: ones_def)
  have ev: "appendWord b w = appendActive (set_active_val b x) \<bind>
      (\<lambda>b'. (if 0 < ?c - 1 then appendCounter b' ?v (?c - 1) else Some b') \<bind>
      (\<lambda>b'. Some (b'\<lparr>active := \<lparr>aval = ones, anbits = anbits (active b)\<rparr>\<rparr>)))"
    using ua assms(3) room v
    by (auto simp: appendWord_def Let_def shifted_one_mask is_fill_def x_def u_def ones_def)
  have cnt: "rets (if 0 < ?c - 1 then appendCounter b' ?v (?c - 1) else Some b')
      (\<lambda>b''. wf_vec b'' \<and> groups b'' = groups b @ [x] @ replicate (unat ?c - 1) (fill_group ?v) \<and>
            isCompressed b'' = isCompressed b)"
    if "wf_vec b'" "groups b' = groups b @ [x]" "isCompressed b' = isCompressed b" for b'
  proof (cases "0 < ?c - 1")
    case True
    then show ?thesis
      using appendCounter_ok [OF that(1) v(1) True] that cap g c1
      by (auto simp: unat_pred [OF pos] elim!: rets_mono)
  next
    case False
    then have "unat ?c - 1 = 0" using unat_pred [OF pos] by (simp add: word_less_nat_alt)
    with False that show ?thesis by simp
  qed
  have n: "31 * unat ?c = (31 - ?k) + 31 * (unat ?c - 1) + ?k" using k c1 by simp
  have fin: "bits b @ group_bits (groups_of w) = group_bits (groups b @ [x] @
      replicate (unat ?c - 1) (fill_group ?v)) @ replicate ?k (?v = 1)"
    unfolding g group_bits_fill n replicate_add
    by (simp add: bits_def active_bits_def x_def f(2) u(2))
  show ?thesis unfolding ev
    by (rule rets_bind [OF act], rule rets_bind [OF cnt])
      (use fin wa ones in \<open>auto simp: wf_bitmap_def wf_active_def bits_def active_bits_def\<close>)
qed

text \<open>In all cases the bits of the bitmap are extended by the bits of the word.\<close>

lemma appendWord_ok:
  assumes "wf_bitmap b" and "groups_of w \<noteq> []"
    and cap: "31 * (length (groups b) + length (groups_of w)) < 2 ^ 32"
  shows "rets (appendWord b w) (\<lambda>b'. wf_bitmap b' \<and> bits b' = bits b @ group_bits (groups_of w) \<and>
           anbits (active b') = anbits (active b) \<and> isCompressed b' = isCompressed b)"
proof (cases "anbits (active b) = 0")
  case True
  then show ?thesis
    using appendWord_aligned [OF assms(1) True assms(2,3)]
    by (auto simp: wf_bitmap_def wf_active_def bits_def active_bits_def elim!: rets_mono)
next
  case False
  show ?thesis
  proof (cases "is_fill w")
    case True
    then show ?thesis using appendWord_fill [OF assms(1) False True assms(2,3)] by simp
  next
    case lit: False
    then have "take_bit 31 w = w" by (simp add: literal_31)
    then show ?thesis
      using appendWord_literal [OF assms(1) False] cap by (simp add: groups_of_literal)
  qed
qed


subsection \<open>appendBits and appendOneBit\<close>

text \<open>\<open>t\<close> equal bits put after the active ones.\<close>

lemma extend_active:
  fixes val t :: word_t
  assumes "wf_active b" and "unat (anbits (active b)) + unat t \<le> 31"
  defines "k \<equiv> unat (anbits (active b))"
  defines "v \<equiv> push_bit (unat t) (aval (active b)) OR (if val = 1 then mask (unat t) else 0)"
  shows "take_bit (k + unat t) v = v"
    and "to_bits (k + unat t) v = active_bits b @ replicate (unat t) (val = 1)"
    and "unat (anbits (active b) + t) = k + unat t"
proof -
  let ?m = "if val = 1 then mask (unat t) else 0 :: word_t"
  have m: "take_bit (unat t) ?m = ?m" by simp
  have mb: "to_bits (unat t) ?m = replicate (unat t) (val = 1)"
    using assms(2) by (simp add: to_bits_mask)
  show "take_bit (k + unat t) v = v"
    unfolding v_def k_def by (rule take_bit_push_or [OF wf_activeD(2) [OF assms(1)] m])
  show "to_bits (k + unat t) v = active_bits b @ replicate (unat t) (val = 1)"
    unfolding v_def using to_bits_push_or [OF _ m, of k] mb assms(2)
    by (simp add: k_def active_bits_def)
  show "unat (anbits (active b) + t) = k + unat t"
    using assms(2) by (simp add: k_def unat_add_no_wrap)
qed

lemma appendBits_active_ok:
  assumes "wf_bitmap b" and cap: "length (bits b) + unat n < 2 ^ 32"
  shows "rets (appendBits_active b val n) (\<lambda>(b', n'). wf_bitmap b' \<and> n' \<le> n \<and>
           bits b' = bits b @ replicate (unat n - unat n') (val = 1) \<and>
           (n' \<noteq> 0 \<longrightarrow> anbits (active b') = 0) \<and> isCompressed b' = isCompressed b)"
proof (cases "0 < anbits (active b)")
  case False
  with assms(1) show ?thesis by (simp add: appendBits_active_def word_gt_0)
next
  case True
  let ?k = "unat (anbits (active b))"
  define t where "t = (if n < MAXBITS - anbits (active b) then n else MAXBITS - anbits (active b))"
  define v where "v = push_bit (unat t) (aval (active b)) OR (if val = 1 then mask (unat t) else 0)"
  let ?b = "b\<lparr>active := \<lparr>aval = v, anbits = anbits (active b) + t\<rparr>\<rparr>"
  have wf: "wf_vec b" and wa: "wf_active b" using assms(1) by (simp_all add: wf_bitmap_def)
  note k = wf_activeD(1) [OF wa]
  have "anbits (active b) < 31" using wa by (simp add: wf_active_def)
  note room = unat_room [OF this]
  have t: "unat t = min (unat n) (31 - ?k)" "t \<le> n" "t < 32" "unat t \<le> unat n"
    using room by (auto simp: t_def word_less_nat_alt word_le_nat_alt)
  have kt: "?k + unat t \<le> 31" using t(1) k by simp
  note ext = extend_active(1,2) [OF wa kt, where val = val, folded v_def] extend_active(3) [OF wa kt]
  have ev: "appendBits_active b val n =
      (if anbits (active b) + t = MAXBITS then appendActive ?b else Some ?b) \<bind> (\<lambda>b'. Some (b', n - t))"
    using True t(3) by (auto simp: appendBits_active_def Let_def shifted_one_mask v_def simp flip: t_def)
  have nt: "unat (n - t) = unat n - unat t" using t(2) by (simp add: unat_sub)
  show ?thesis
  proof (cases "?k + unat t = 31")
    case full: True
    then have M: "anbits (active b) + t = MAXBITS"
      using ext(3) by (simp add: word_unat_eq_iff MAXBITS_def)
    have "31 * (length (groups b) + 1) < 2 ^ 32" using cap full t(4) by (simp add: length_bits)
    then have "rets (appendActive ?b) (\<lambda>b'. wf_vec b' \<and> groups b' = groups b @ [v] \<and>
        active b' = \<lparr>aval = 0, anbits = 0\<rparr> \<and> isCompressed b' = isCompressed b)"
      using appendActive_ok [of ?b] wf ext(1) full by simp
    then show ?thesis unfolding ev M using ext(2) full nt t(4)
      by (auto simp: rets_def wf_bitmap_def wf_active_def bits_def active_bits_def word_le_nat_alt)
  next
    case part: False
    then have "anbits (active b) + t \<noteq> MAXBITS" "anbits (active b) + t < 31"
      using kt ext(3) by (simp_all add: word_unat_eq_iff word_less_nat_alt MAXBITS_def)
    moreover have "t = n" using part t(1) k by (simp add: word_unat_eq_iff min_def split: if_splits)
    ultimately show ?thesis unfolding ev using wf ext
      by (simp add: wf_bitmap_def wf_active_def bits_def active_bits_def)
  qed
qed

lemma appendBits_fill_ok:
  assumes "wf_bitmap b" and val: "val = 0 \<or> val = 1"
    and cap: "length (bits b) + unat n < 2 ^ 32" and al: "n \<noteq> 0 \<longrightarrow> anbits (active b) = 0"
  shows "rets (appendBits_fill b val n) (\<lambda>(b', n'). wf_bitmap b' \<and> n' < 31 \<and> n' \<le> n \<and>
           bits b' = bits b @ replicate (unat n - unat n') (val = 1) \<and>
           (n' \<noteq> 0 \<longrightarrow> anbits (active b') = 0) \<and> isCompressed b' = isCompressed b)"
proof (cases "MAXBITS \<le> n")
  case False
  then have "n < 31" by (simp add: MAXBITS_def not_le)
  with False assms(1) al show ?thesis by (simp add: appendBits_fill_def)
next
  case True
  let ?c = "n div MAXBITS"
  have wf: "wf_vec b" and wa: "wf_active b" using assms(1) by (simp_all add: wf_bitmap_def)
  have n31: "31 \<le> unat n" using True by (simp add: word_le_nat_alt MAXBITS_def)
  have c: "unat ?c = unat n div 31" by (simp add: unat_div_distrib MAXBITS_def)
  have pos: "0 < ?c" using n31 c by (simp add: word_less_nat_alt)
  have a0: "active b = \<lparr>aval = 0, anbits = 0\<rparr>"
    using al n31 wf_active_aligned [OF wa] by (auto simp: unat_eq_0)
  have le: "31 * (unat n div 31) \<le> unat n" by simp
  with cap c have capg: "31 * (length (groups b) + unat ?c) < 2 ^ 32"
    by (simp add: length_bits)
  have m: "unat (?c * MAXBITS) = 31 * (unat n div 31)"
    using le unat32_less [of n] by (subst unat_mult_no_wrap) (simp_all add: c unat_MAXBITS)
  have r: "unat (n - ?c * MAXBITS) = unat n mod 31"
    using le m by (simp add: unat_sub word_le_nat_alt minus_mult_div_eq_mod)
  have nr: "n - ?c * MAXBITS < 31" "n - ?c * MAXBITS \<le> n" "unat n - unat (n - ?c * MAXBITS) = 31 * unat ?c"
    using r c by (simp_all add: word_less_nat_alt word_le_nat_alt minus_mod_eq_mult_div)
  show ?thesis
    unfolding appendBits_fill_def Let_def using True
    by (simp, intro rets_bind [OF appendCounter_ok [OF wf val pos capg]])
      (use a0 nr wa in \<open>auto simp: wf_bitmap_def wf_active_def bits_def active_bits_def\<close>)
qed

lemma appendBits_ok:
  assumes "wf_bitmap b" and val: "val = 0 \<or> val = 1"
    and cap: "length (bits b) + unat n < 2 ^ 32"
  shows "rets (appendBits b val n) (\<lambda>b'. wf_bitmap b' \<and>
           bits b' = bits b @ replicate (unat n) (val = 1) \<and> isCompressed b' = isCompressed b)"
proof (cases "n = 0")
  case False
  obtain b1 n1 where 1: "appendBits_active b val n = Some (b1, n1)" "wf_bitmap b1" "n1 \<le> n"
      "bits b1 = bits b @ replicate (unat n - unat n1) (val = 1)"
      "n1 \<noteq> 0 \<longrightarrow> anbits (active b1) = 0" "isCompressed b1 = isCompressed b"
    using appendBits_active_ok [OF assms(1) cap, of val] by (auto simp: rets_def)
  have c1: "length (bits b1) + unat n1 < 2 ^ 32"
    using 1(3,4) cap by (simp add: word_le_nat_alt)
  obtain b2 n2 where 2: "appendBits_fill b1 val n1 = Some (b2, n2)" "wf_bitmap b2" "n2 < 31" "n2 \<le> n1"
      "bits b2 = bits b1 @ replicate (unat n1 - unat n2) (val = 1)"
      "n2 \<noteq> 0 \<longrightarrow> anbits (active b2) = 0" "isCompressed b2 = isCompressed b"
    using appendBits_fill_ok [OF 1(2) val c1 1(5)] 1(6) by (auto simp: rets_def)
  have len: "unat n = (unat n - unat n1) + (unat n1 - unat n2) + unat n2"
    using 1(3) 2(4) by (simp add: word_le_nat_alt)
  have b2: "bits b @ replicate (unat n) (val = 1) = bits b2 @ replicate (unat n2) (val = 1)"
    by (subst len) (simp add: 1(4) 2(5) replicate_add)
  have n2: "n2 < 32" "unat n2 < 31" using 2(3) by (simp_all add: word_less_nat_alt)
  note m = mask_times_bit [OF val, of "unat n2"]
  have ev: "appendBits b val n = Some (if 0 < n2
      then b2\<lparr>active := \<lparr>aval = mask (unat n2) * val, anbits = n2\<rparr>\<rparr> else b2)"
    using False 1(1) 2(1) n2 by (simp add: appendBits_def shifted_one_mask mult.commute)
  show ?thesis
    unfolding ev using b2 2(2,3,6,7) m n2
    by (auto simp: wf_bitmap_def wf_active_def bits_def active_bits_def word_gt_0)
qed (use assms(1) in \<open>simp add: appendBits_def\<close>)

lemma appendOneBit_ok:
  assumes "wf_bitmap b" and val: "val = 0 \<or> val = 1" and cap: "length (bits b) + 1 < 2 ^ 32"
  shows "rets (appendOneBit b val) (\<lambda>b'. wf_bitmap b' \<and> bits b' = bits b @ [val = 1] \<and>
           isCompressed b' = isCompressed b)"
proof -
  let ?k = "unat (anbits (active b))"
  let ?v = "push_bit 1 (aval (active b)) OR val"
  let ?b = "b\<lparr>active := \<lparr>aval = ?v, anbits = anbits (active b) + 1\<rparr>\<rparr>"
  have wf: "wf_vec b" and wa: "wf_active b" using assms(1) by (simp_all add: wf_bitmap_def)
  note k = wf_activeD(1) [OF wa]
  have "?v = push_bit (unat (1::word_t)) (aval (active b)) OR (if val = 1 then mask (unat (1::word_t)) else 0)"
    using val by auto
  note ext = extend_active(1,2) [OF wa, where t = 1 and val = val, folded this]
    extend_active(3) [OF wa, where t = 1]
  show ?thesis
  proof (cases "?k = 30")
    case True
    then have M: "anbits (active b) + 1 = MAXBITS" using ext(3) by (simp add: word_unat_eq_iff MAXBITS_def)
    have "rets (appendActive ?b) (\<lambda>b'. wf_vec b' \<and> groups b' = groups b @ [?v] \<and>
        active b' = \<lparr>aval = 0, anbits = 0\<rparr> \<and> isCompressed b' = isCompressed b)"
      using appendActive_ok [of ?b] wf ext(1) True cap by (simp add: length_bits)
    with M ext(2) True show ?thesis
      by (auto simp: appendOneBit_def rets_def wf_bitmap_def wf_active_def bits_def active_bits_def)
  next
    case False
    then have "anbits (active b) + 1 \<noteq> MAXBITS" "anbits (active b) + 1 < 31"
      using ext(3) k by (simp_all add: word_unat_eq_iff word_less_nat_alt MAXBITS_def)
    with wf ext k show ?thesis
      by (simp add: appendOneBit_def wf_bitmap_def wf_active_def bits_def active_bits_def)
  qed
qed

end
