(* ===== verification/Bitmap_Ops.thy ===== *)
theory Bitmap_Ops
  imports Bitmap_Append
begin

text \<open>
  The size functions, copying and concatenation of bitmaps, compression and decompression,
  the boolean operations and the single-bit updates of \<open>bitmap.c\<close>, related to the bit vector
  that a bitmap denotes.
\<close>

subsection \<open>Size\<close>

lemma fill_iff_gt: "ALLONES < w \<longleftrightarrow> is_fill w"
proof -
  have "ALLONES < w \<longleftrightarrow> \<not> unat w < 2 ^ 31" by (auto simp: ALLONES_def word_less_nat_alt)
  also have "\<dots> \<longleftrightarrow> take_bit 31 w \<noteq> w"
    by (simp add: word_unat_eq_iff unat_take_bit mod_eq_self_iff_div_eq_0 div_eq_0_iff)
  finally show ?thesis by (simp add: literal_31 [symmetric])
qed

lemma stored_nth: "wf_vec b \<Longrightarrow> i < unat (m_size b) \<Longrightarrow> arr_get (m_vec b) i = Some (stored b ! i)"
  by (simp add: stored_def wf_vec_def)

lemma stored_take_Suc:
  assumes "wf_vec b" and "i < unat (m_size b)"
  shows "take (Suc i) (stored b) = take i (stored b) @ [stored b ! i]"
  using assms length_stored [of b] by (simp add: take_Suc_conv_app_nth)

lemma do_cnt_eq:
  assumes "wf_vec b"
  shows "do_cnt b = Some (of_nat (length (bits b)))"
proof -
  let ?g = "\<lambda>i. length (concat (map groups_of (take i (stored b))))"
  let ?f = "\<lambda>i cnt. do {
      w \<leftarrow> arr_get (m_vec b) i;
      Some (if ALLONES < w then cnt + (w AND NOT HEADER_1F) * MAXBITS else cnt + MAXBITS) }"
  have "rets (for_loop 0 (unat (m_size b)) ?f 0) (\<lambda>cnt. cnt = of_nat (31 * ?g (unat (m_size b))))"
  proof (rule rets_for_loop [where I = "\<lambda>i cnt. cnt = of_nat (31 * ?g i)"])
    fix i and cnt :: word_t
    assume i: "i < unat (m_size b)" and c: "cnt = of_nat (31 * ?g i)"
    let ?w = "stored b ! i"
    have "of_nat (31 * ?g (Suc i)) = cnt + of_nat (length (groups_of ?w)) * MAXBITS"
      by (simp add: stored_take_Suc [OF assms i] c MAXBITS_def algebra_simps)
    also have "of_nat (length (groups_of ?w)) * MAXBITS =
        (if is_fill ?w then take_bit 30 ?w * MAXBITS else MAXBITS)"
      by (simp add: groups_of_def)
    finally show "rets (?f i cnt) (\<lambda>cnt. cnt = of_nat (31 * ?g (Suc i)))"
      by (simp add: stored_nth [OF assms i] fill_iff_gt)
  qed simp_all
  moreover have "?g (unat (m_size b)) = length (groups b)"
    using length_stored [OF assms] by (simp add: groups_def)
  ultimately show ?thesis
    by (auto simp: do_cnt_def rets_def length_bits)
qed

lemma size_field_eq: "wf_vec b \<Longrightarrow> nbits b + anbits (active b) = of_nat (length (bits b))"
proof -
  assume "wf_vec b"
  then have "of_nat (unat (nbits b)) = (of_nat (31 * length (groups b)) :: word_t)"
    by (simp add: wf_vec_def)
  then show ?thesis by (simp add: length_bits)
qed

text \<open>Both ways of counting agree, so the smaller of the two is the number of bits.\<close>

lemma bitmapSize_eq: "wf_vec b \<Longrightarrow> bitmapSize b = Some (of_nat (length (bits b)))"
  by (simp add: bitmapSize_def do_cnt_eq size_field_eq)

lemma unat_of_nat_bits: "length (bits b) < 2 ^ 32 \<Longrightarrow> unat (of_nat (length (bits b)) :: word_t) = length (bits b)"
  by (simp add: unat_of_nat)

subsection \<open>Copying, padding, concatenation\<close>

lemma bitmapCopy_eq:
  assumes "wf_bitmap a"
  shows "rets (bitmapCopy a b) (\<lambda>c. wf_bitmap c \<and> bits c = bits a \<and> groups c = groups a \<and>
           isCompressed c = isCompressed a)"
proof -
  have wf: "wf_vec a" using assms by (simp add: wf_bitmap_def)
  have "unat (m_size a) < 2 ^ 30" using size_le_groups [OF wf] groups_bound [OF wf] by simp
  then have al: "alloc_words (m_size a) = unat (m_size a)" by (rule alloc_words_eq)
  have le: "unat (m_size a) \<le> length (m_vec a)" using wf by (simp add: wf_vec_def)
  with al show ?thesis
    using assms by (simp add: bitmapCopy_def Let_def wf_bitmap_def wf_vec_def wf_active_def
        bits_def active_bits_def groups_def stored_def)
qed

lemma adjustSize_ok:
  assumes "wf_bitmap b" and len: "length (bits b) \<le> unat n"
  shows "rets (adjustSize b n) (\<lambda>b'. wf_bitmap b' \<and>
           bits b' = bits b @ replicate (unat n - length (bits b)) False)"
proof -
  have lt: "length (bits b) < 2 ^ 32" using len unat32_less [of n] by simp
  have sz: "nbits b + anbits (active b) = of_nat (length (bits b))"
    using assms(1) by (simp add: wf_bitmap_def size_field_eq)
  have u: "unat (of_nat (length (bits b)) :: word_t) = length (bits b)" by (rule unat_of_nat_bits [OF lt])
  have d: "unat (n - of_nat (length (bits b))) = unat n - length (bits b)"
    using len by (simp add: unat_sub word_le_nat_alt u)
  show ?thesis
  proof (cases "length (bits b) = unat n")
    case True
    then have "of_nat (length (bits b)) = n" by simp
    with True assms(1) show ?thesis by (simp add: adjustSize_def sz)
  next
    case False
    then have "of_nat (length (bits b)) < n" "of_nat (length (bits b)) \<noteq> n"
      using len u by (auto simp: word_less_nat_alt)
    then show ?thesis
      using appendBits_ok [OF assms(1), of 0 "n - of_nat (length (bits b))"] len unat32_less [of n]
      by (auto simp: adjustSize_def sz d elim!: rets_mono)
  qed
qed

text \<open>The word loop of \<open>appendBitmap\<close> appends all stored words of its second operand.\<close>

lemma append_words_ok:
  assumes "wf_bitmap b" and "wf_vec a" and cap: "length (bits b) + 31 * length (groups a) < 2 ^ 32"
  shows "rets (for_loop 0 (unat (m_size a)) (\<lambda>i b. do { w \<leftarrow> arr_get (m_vec a) i; appendWord b w }) b)
    (\<lambda>b'. wf_bitmap b' \<and> bits b' = bits b @ group_bits (groups a) \<and>
          anbits (active b') = anbits (active b) \<and> isCompressed b' = isCompressed b)"
proof -
  let ?g = "\<lambda>i. concat (map groups_of (take i (stored a)))"
  let ?I = "\<lambda>i b'. wf_bitmap b' \<and> bits b' = bits b @ group_bits (?g i) \<and>
      anbits (active b') = anbits (active b) \<and> isCompressed b' = isCompressed b"
  have all: "?g (unat (m_size a)) = groups a"
    using length_stored [OF assms(2)] by (simp add: groups_def)
  have "rets (for_loop 0 (unat (m_size a)) (\<lambda>i b. do { w \<leftarrow> arr_get (m_vec a) i; appendWord b w }) b)
      (?I (unat (m_size a)))"
  proof (rule rets_for_loop [where I = ?I])
    fix i b'
    assume i: "i < unat (m_size a)" and I: "?I i b'"
    let ?w = "stored a ! i"
    note st = stored_take_Suc [OF assms(2) i]
    have "?w \<in> set (stored a)" using i length_stored [OF assms(2)] by simp
    then have ne: "groups_of ?w \<noteq> []" using assms(2) by (simp add: wf_vec_def)
    have "stored a = take (Suc i) (stored a) @ drop (Suc i) (stored a)" by simp
    then have "length (?g (Suc i)) \<le> length (groups a)"
      unfolding groups_def by (metis concat_append length_append map_append le_add1)
    moreover have "length (bits b') = length (bits b) + 31 * length (?g i)" using I by simp
    ultimately have "31 * (length (groups b') + length (groups_of ?w)) < 2 ^ 32"
      using cap st by (simp add: length_bits [of b'])
    with I appendWord_ok [OF _ ne, of b'] st
    show "rets (do { w \<leftarrow> arr_get (m_vec a) i; appendWord b' w }) (?I (Suc i))"
      by (auto simp: stored_nth [OF assms(2) i] elim!: rets_mono)
  qed (use assms(1) in simp_all)
  then show ?thesis unfolding all .
qed


lemma appendBitmap_loop:
  assumes "wf_bitmap b" and "wf_bitmap a" and cap: "length (bits b) + length (bits a) < 2 ^ 32"
  obtains c where "wf_bitmap c" and "bits c = bits b @ group_bits (groups a)"
    and "anbits (active c) = anbits (active b)"
    and "appendBitmap b a = appendBitmap_active c a \<bind> (\<lambda>c. bitmapSize c \<bind> (\<lambda>_. Some c))"
proof -
  have wfb: "wf_vec b" and wfa: "wf_vec a" using assms(1,2) by (simp_all add: wf_bitmap_def)
  have "length (bits b) + 31 * length (groups a) < 2 ^ 32" using cap by (simp add: length_bits [of a])
  from append_words_ok [OF assms(1) wfa this]
  obtain c where "for_loop 0 (unat (m_size a)) (\<lambda>i b. do { w \<leftarrow> arr_get (m_vec a) i; appendWord b w }) b = Some c"
    "wf_bitmap c" "bits c = bits b @ group_bits (groups a)" "anbits (active c) = anbits (active b)"
    by (auto simp: rets_def)
  with that [of c] bitmapSize_eq [OF wfb] bitmapSize_eq [OF wfa] show thesis
    by (simp add: appendBitmap_def)
qed

text \<open>Appending to a bitmap without active bits concatenates the bit vectors.\<close>

lemma appendBitmap_aligned_ok:
  assumes "wf_bitmap b" and "wf_bitmap a" and cap: "length (bits b) + length (bits a) < 2 ^ 32"
    and al: "anbits (active b) = 0"
  shows "rets (appendBitmap b a) (\<lambda>b'. wf_bitmap b' \<and> bits b' = bits b @ bits a)"
proof -
  obtain c where c: "wf_bitmap c" "bits c = bits b @ group_bits (groups a)" "anbits (active c) = anbits (active b)"
    and ev: "appendBitmap b a = appendBitmap_active c a \<bind> (\<lambda>c. bitmapSize c \<bind> (\<lambda>_. Some c))"
    by (rule appendBitmap_loop [OF assms(1-3)])
  have "active c = \<lparr>aval = 0, anbits = 0\<rparr>"
    using c(1,3) al wf_active_aligned by (simp add: wf_bitmap_def)
  moreover have "anbits (active a) < MAXBITS"
    using assms(2) by (simp add: wf_bitmap_def wf_active_def MAXBITS_def)
  ultimately have act: "appendBitmap_active c a = Some (c\<lparr>active := active a\<rparr>)"
    by (cases "active a") (simp add: appendBitmap_active_def)
  have wf: "wf_vec (c\<lparr>active := active a\<rparr>)" using c(1) by (simp add: wf_bitmap_def)
  moreover have "bits (c\<lparr>active := active a\<rparr>) = bits b @ bits a"
    using c(2,3) al by (simp add: bits_def active_bits_def)
  ultimately show ?thesis
    using ev act bitmapSize_eq [OF wf] assms(2) by (simp add: wf_bitmap_def wf_active_def)
qed

text \<open>
  If the appended bitmap has no active bits, the last branch overwrites the active word: as
  many bits as the first bitmap had active ones are lost at the end.
\<close>

lemma appendBitmap_truncates_ok:
  assumes "wf_bitmap b" and "wf_bitmap a" and cap: "length (bits b) + length (bits a) < 2 ^ 32"
    and a0: "anbits (active a) = 0"
  shows "rets (appendBitmap b a) (\<lambda>b'. bits b' =
    take (length (bits b) + length (bits a) - unat (anbits (active b))) (bits b @ bits a))"
proof -
  have act: "active a = \<lparr>aval = 0, anbits = 0\<rparr>"
    using assms(2) a0 wf_active_aligned by (simp add: wf_bitmap_def)
  obtain c where c: "wf_bitmap c" "bits c = bits b @ group_bits (groups a)" "anbits (active c) = anbits (active b)"
    and ev: "appendBitmap b a = appendBitmap_active c a \<bind> (\<lambda>c. bitmapSize c \<bind> (\<lambda>_. Some c))"
    by (rule appendBitmap_loop [OF assms(1-3)])
  have ac: "appendBitmap_active c a = Some (c\<lparr>active := active a\<rparr>)"
    using act by (simp add: appendBitmap_active_def)
  have ba: "bits a = group_bits (groups a)" using act by (simp add: bits_def active_bits_def)
  then have len: "length (bits b) + length (bits a) = length (bits c)" using c(2) by simp
  have "bits (c\<lparr>active := active a\<rparr>) = take (length (bits c) - unat (anbits (active b))) (bits c)"
    using act c(3) by (simp add: length_bits [of c]) (simp add: bits_def active_bits_def)
  moreover have wf: "wf_vec (c\<lparr>active := active a\<rparr>)" using c(1) by (simp add: wf_bitmap_def)
  ultimately show ?thesis
    using ev ac bitmapSize_eq [OF wf] c(2) ba len by simp
qed

end
