(* ===== verification/Bitmap_Compress.thy ===== *)
theory Bitmap_Compress
  imports Bitmap_Ops
begin

text \<open>
  \<open>compress\<close> and \<open>decompress\<close>: both keep the bits; \<open>decompress\<close> stores exactly the groups,
  \<open>compress\<close> stores the canonical list of words for them, in which no two neighbouring fills
  are of one kind and no literal is all zeros or all ones. The canonical list is determined
  by the groups, so bitmaps with equal groups compress to the same words.
\<close>

subsection \<open>Decompression\<close>

lemma groups_of_literals: "g \<in> set (groups_of w) \<Longrightarrow> take_bit 31 g = g"
proof -
  have ones: "take_bit 31 ALLONES = ALLONES" by (simp add: ALLONES_def)
  assume "g \<in> set (groups_of w)"
  then show ?thesis
    using ones by (auto simp: groups_of_def fill_group_def literal_31 split: if_splits)
qed

lemma groups_literals: "g \<in> set (groups b) \<Longrightarrow> take_bit 31 g = g"
  by (auto simp: groups_def dest: groups_of_literals)

lemma concat_groups_of_literals: "(\<And>g. g \<in> set gs \<Longrightarrow> take_bit 31 g = g) \<Longrightarrow> concat (map groups_of gs) = gs"
  by (induction gs) (simp_all add: groups_of_literal)

text \<open>Writing a value \<open>n\<close> times from index \<open>j\<close> on.\<close>

lemma fill_writes:
  assumes "j + n \<le> length tmp"
  shows "rets (for_loop 0 n (\<lambda>k (tmp, j). do { tmp \<leftarrow> arr_set tmp j x; Some (tmp, Suc j) }) (tmp, j))
    (\<lambda>(tmp', j'). j' = j + n \<and> length tmp' = length tmp \<and> take j' tmp' = take j tmp @ replicate n x)"
proof (rule rets_mono)
  let ?I = "\<lambda>k (tmp', j'). j' = j + k \<and> length tmp' = length tmp \<and>
    take j' tmp' = take j tmp @ replicate k x"
  show "rets (for_loop 0 n (\<lambda>k (tmp, j). do { tmp \<leftarrow> arr_set tmp j x; Some (tmp, Suc j) }) (tmp, j)) (?I n)"
  proof (rule rets_for_loop [where I = ?I])
    fix k s
    assume "k < n" "?I k s"
    then show "rets (case s of (tmp, j) \<Rightarrow> do { tmp \<leftarrow> arr_set tmp j x; Some (tmp, Suc j) }) (?I (Suc k))"
      using assms by (cases s) (simp add: take_Suc_conv_app_nth replicate_append_same)
  qed simp_all
qed auto

lemma decompress_body_ok:
  assumes "wf_vec b" and i: "i < unat (m_size b)"
    and "j + length (groups_of (stored b ! i)) \<le> length tmp"
  shows "rets (decompress_body b i (tmp, j)) (\<lambda>(tmp', j'). j' = j + length (groups_of (stored b ! i)) \<and>
    length tmp' = length tmp \<and> take j' tmp' = take j tmp @ groups_of (stored b ! i))"
proof (cases "is_fill (stored b ! i)")
  case True
  let ?w = "stored b ! i"
  have "(if drop_bit 30 ?w = 2 then 0 else ALLONES) = fill_group (drop_bit 30 ?w - 2)"
    using True by (cases ?w rule: header_cases) (simp_all add: is_fill_def fill_group_def)
  with True fill_writes [of j "unat (take_bit 30 ?w)" tmp] assms(3) show ?thesis
    by (simp add: decompress_body_def stored_nth [OF assms(1) i] groups_of_def is_fill_def)
next
  case False
  with assms(3) show ?thesis
    by (simp add: decompress_body_def stored_nth [OF assms(1) i] groups_of_def is_fill_def
        take_Suc_conv_app_nth)
qed

lemma decompress_ok:
  assumes "wf_bitmap b"
  shows "rets (decompress b) (\<lambda>b'. wf_bitmap b' \<and> m_vec b' = groups b \<and>
           unat (m_size b') = length (groups b) \<and> groups b' = groups b \<and>
           active b' = active b \<and> isCompressed b' = isCompressed b)"
proof -
  have wf: "wf_vec b" using assms by (simp add: wf_bitmap_def)
  let ?g = "\<lambda>i. concat (map groups_of (take i (stored b)))" and ?n = "length (groups b)"
  have n30: "?n < 2 ^ 30" using groups_bound [OF wf] by simp
  have "unat (nbits b div MAXBITS) = ?n"
    using wf by (simp add: unat_div_distrib unat_MAXBITS wf_vec_def)
  then have al: "palloc_words (nbits b div MAXBITS) = replicate ?n 0"
    using n30 by (simp add: palloc_words_def alloc_words_eq)
  let ?I = "\<lambda>i (tmp, j). j = length (?g i) \<and> length tmp = ?n \<and> take j tmp = ?g i"
  have all: "?g (unat (m_size b)) = groups b"
    using length_stored [OF wf] by (simp add: groups_def)
  have "rets (for_loop 0 (unat (m_size b)) (decompress_body b) (replicate ?n 0, 0)) (?I (unat (m_size b)))"
  proof (rule rets_for_loop [where I = ?I])
    fix i s
    assume i: "i < unat (m_size b)" and I: "?I i s"
    obtain tmp j where s: "s = (tmp, j)" by (cases s)
    have "stored b = take (Suc i) (stored b) @ drop (Suc i) (stored b)" by simp
    then have "length (?g (Suc i)) \<le> ?n"
      unfolding groups_def by (metis concat_append length_append map_append le_add1)
    then have "j + length (groups_of (stored b ! i)) \<le> length tmp"
      using I s stored_take_Suc [OF wf i] by simp
    from decompress_body_ok [OF wf i this] I s stored_take_Suc [OF wf i]
    show "rets (decompress_body b i s) (?I (Suc i))"
      by (auto elim!: rets_mono)
  qed simp_all
  then obtain tmp where tmp: "for_loop 0 (unat (m_size b)) (decompress_body b) (replicate ?n 0, 0) = Some (tmp, ?n)"
      "tmp = groups b"
    using all by (auto simp: rets_def)
  let ?b = "b\<lparr>m_size := of_nat ?n, m_vec := groups b\<rparr>"
  have u: "unat (of_nat ?n :: word_t) = ?n" using n30 by (simp add: unat_of_nat)
  have st: "stored ?b = groups b" by (simp add: stored_def u)
  have gr: "groups ?b = groups b"
    unfolding groups_def [of ?b] st by (rule concat_groups_of_literals) (rule groups_literals)
  have "\<forall>w\<in>set (groups b). groups_of w \<noteq> []" by (simp add: groups_of_literal groups_literals)
  then have "wf_bitmap ?b"
    using assms by (simp add: wf_bitmap_def wf_vec_def wf_active_def st gr u)
  then show ?thesis
    using tmp u gr by (simp add: decompress_def al)
qed


subsection \<open>Canonical word lists\<close>

definition wah_proper :: "word_t \<Rightarrow> bool" where
  "wah_proper w \<longleftrightarrow> groups_of w \<noteq> [] \<and> w \<noteq> 0 \<and> w \<noteq> ALLONES"

definition wah_joinable :: "word_t \<Rightarrow> word_t \<Rightarrow> bool" where
  "wah_joinable u v \<longleftrightarrow> is_fill u \<and> drop_bit 30 u = drop_bit 30 v"

definition wah_canonical :: "word_t list \<Rightarrow> bool" where
  "wah_canonical ws \<longleftrightarrow> (\<forall>w\<in>set ws. wah_proper w) \<and> successively (\<lambda>u v. \<not> wah_joinable u v) ws"

text \<open>One step of compression as a function on word lists.\<close>

definition canon_snoc :: "word_t list \<Rightarrow> word_t \<Rightarrow> word_t list" where
  "canon_snoc ws w =
     (if ws \<noteq> [] \<and> wah_joinable (last ws) w then butlast ws @ [last ws + take_bit 30 w] else ws @ [w])"

lemma canonical_snoc:
  "wah_canonical (ws @ [w]) \<longleftrightarrow>
     wah_canonical ws \<and> wah_proper w \<and> (ws \<noteq> [] \<longrightarrow> \<not> wah_joinable (last ws) w)"
  by (auto simp: wah_canonical_def successively_append_iff)

lemma joined_word:
  assumes "wah_joinable u w" and "wah_proper u" and "length (groups_of u) + length (groups_of w) < 2 ^ 30"
  shows "groups_of (u + take_bit 30 w) = groups_of u @ groups_of w"
    and "drop_bit 30 (u + take_bit 30 w) = drop_bit 30 u" and "wah_proper (u + take_bit 30 w)"
proof -
  have f: "is_fill u" "is_fill w" and h: "drop_bit 30 u = drop_bit 30 w"
    using assms(1) by (auto simp: wah_joinable_def is_fill_def)
  have room: "unat (take_bit 30 u) + unat (take_bit 30 w) < 2 ^ 30"
    using assms(3) f by (simp add: groups_of_def)
  show g: "groups_of (u + take_bit 30 w) = groups_of u @ groups_of w"
    using groups_of_add [OF f(1) room] h f(2) by (simp add: groups_of_def)
  show d: "drop_bit 30 (u + take_bit 30 w) = drop_bit 30 u" by (rule fill_add(1) [OF room])
  have "is_fill (u + take_bit 30 w)" using d f(1) by (simp add: is_fill_def)
  moreover have "\<not> is_fill 0" "\<not> is_fill ALLONES" by (simp_all add: is_fill_def ALLONES_def)
  ultimately show "wah_proper (u + take_bit 30 w)"
    using g assms(2) by (auto simp: wah_proper_def)
qed

lemma canon_snoc_ok:
  assumes "wah_canonical ws" and "wah_proper w"
    and "length (concat (map groups_of ws)) + length (groups_of w) < 2 ^ 30"
  shows "wah_canonical (canon_snoc ws w)"
    and "concat (map groups_of (canon_snoc ws w)) = concat (map groups_of ws) @ groups_of w"
    and "drop_bit 30 (last (canon_snoc ws w)) = drop_bit 30 w"
proof -
  have "wah_canonical (canon_snoc ws w) \<and>
    concat (map groups_of (canon_snoc ws w)) = concat (map groups_of ws) @ groups_of w \<and>
    drop_bit 30 (last (canon_snoc ws w)) = drop_bit 30 w"
  proof (cases "ws \<noteq> [] \<and> wah_joinable (last ws) w")
    case True
    then obtain us u where ws: "ws = us @ [u]" by (metis append_butlast_last_id)
    have j: "wah_joinable u w" and p: "wah_proper u" and us: "wah_canonical us"
      using True assms(1) ws by (simp_all add: canonical_snoc)
    have "length (groups_of u) + length (groups_of w) < 2 ^ 30" using assms(3) ws by simp
    note v = joined_word [OF j p this]
    have "us \<noteq> [] \<longrightarrow> \<not> wah_joinable (last us) (u + take_bit 30 w)"
      using assms(1) ws v(2) by (auto simp: canonical_snoc wah_joinable_def)
    with True ws us v j show ?thesis
      by (simp add: canon_snoc_def canonical_snoc wah_joinable_def)
  qed (use assms in \<open>auto simp: canon_snoc_def canonical_snoc\<close>)
  then show "wah_canonical (canon_snoc ws w)"
    "concat (map groups_of (canon_snoc ws w)) = concat (map groups_of ws) @ groups_of w"
    "drop_bit 30 (last (canon_snoc ws w)) = drop_bit 30 w" by simp_all
qed

subsection \<open>Compression\<close>

definition norm_word :: "word_t \<Rightarrow> word_t" where
  "norm_word w = (if w = 0 then HEADER_0F OR 1 else if w = ALLONES then HEADER_1F OR 1 else w)"

lemma norm_word_ok:
  assumes "groups_of w \<noteq> []"
  shows "wah_proper (norm_word w)" and "groups_of (norm_word w) = groups_of w"
proof -
  have "groups_of 0 = [0]" "groups_of ALLONES = [ALLONES]"
    by (simp_all add: groups_of_literal ALLONES_def)
  moreover have "HEADER_0F OR 1 \<noteq> 0" "HEADER_1F OR 1 \<noteq> 0" "HEADER_0F OR 1 \<noteq> ALLONES"
    "HEADER_1F OR 1 \<noteq> ALLONES" by (simp_all add: HEADER_0F_def HEADER_1F_def ALLONES_def)
  ultimately show "wah_proper (norm_word w)" "groups_of (norm_word w) = groups_of w"
    using assms by (auto simp: norm_word_def wah_proper_def)
qed

text \<open>The loop body performs \<open>canon_snoc\<close> on the first \<open>j\<close> entries of the work array.\<close>

lemma compress_body_eq:
  assumes "wf_vec b" and "i < unat (m_size b)" and "j \<le> i" and "length tmp = unat (m_size b)"
    and hd: "j \<noteq> 0 \<longrightarrow> headj = drop_bit 30 (last (take j tmp))"
  shows "rets (compress_body b i (tmp, j, headj)) (\<lambda>(tmp', j', headj').
    length tmp' = length tmp \<and> j' \<le> Suc i \<and> j' \<noteq> 0 \<and>
    take j' tmp' = canon_snoc (take j tmp) (norm_word (stored b ! i)) \<and>
    headj' = drop_bit 30 (norm_word (stored b ! i)))"
proof -
  let ?w = "norm_word (stored b ! i)"
  have pair: "(if stored b ! i = 0 then (2, HEADER_0F OR 1)
      else if stored b ! i = ALLONES then (3, HEADER_1F OR 1)
      else (drop_bit 30 (stored b ! i), stored b ! i)) = (drop_bit 30 ?w, ?w)"
    by (simp add: norm_word_def HEADER_0F_def HEADER_1F_def)
  have lt: "j < length tmp" using assms by simp
  show ?thesis
  proof (cases "j \<noteq> 0 \<and> drop_bit 30 ?w = headj \<and> 1 < headj")
    case True
    then obtain m where m: "j = Suc m" by (cases j) auto
    then have "take j tmp = take m tmp @ [tmp ! m]" using lt by (simp add: take_Suc_conv_app_nth)
    moreover have "take j (tmp[m := x]) = take m tmp @ [x]" for x
      using lt m by (simp add: take_Suc_conv_app_nth)
    moreover have "wah_joinable (last (take j tmp)) ?w"
      using True hd by (simp add: wah_joinable_def is_fill_def)
    ultimately show ?thesis
      using True lt m assms(3) by (simp add: compress_body_def stored_nth [OF assms(1,2)] pair canon_snoc_def)
  next
    case False
    then have "\<not> (take j tmp \<noteq> [] \<and> wah_joinable (last (take j tmp)) ?w)"
      using hd by (auto simp: wah_joinable_def is_fill_def)
    then have "canon_snoc (take j tmp) ?w = take j tmp @ [?w]"
      unfolding canon_snoc_def by (rule if_not_P)
    then have "canon_snoc (take j tmp) ?w = take (Suc j) (tmp[j := ?w])"
      using lt by (simp add: take_Suc_conv_app_nth)
    with False lt assms(3) show ?thesis
      by (auto simp: compress_body_def stored_nth [OF assms(1,2)] pair)
  qed
qed


lemma compress_ok:
  assumes "wf_bitmap b"
  shows "rets (compress b) (\<lambda>b'. wf_bitmap b' \<and> groups b' = groups b \<and> wah_canonical (stored b') \<and>
           unat (m_size b') \<le> unat (m_size b) \<and> active b' = active b \<and> isCompressed b' = isCompressed b)"
proof -
  have wf: "wf_vec b" using assms by (simp add: wf_bitmap_def)
  let ?g = "\<lambda>i. concat (map groups_of (take i (stored b)))" and ?n = "unat (m_size b)"
  have n30: "length (groups b) < 2 ^ 30" using groups_bound [OF wf] by simp
  have s30: "?n < 2 ^ 30" using size_le_groups [OF wf] n30 by simp
  have all: "?g ?n = groups b" using length_stored [OF wf] by (simp add: groups_def)
  let ?I = "\<lambda>i (tmp, j, headj). length tmp = ?n \<and> j \<le> i \<and> wah_canonical (take j tmp) \<and>
    concat (map groups_of (take j tmp)) = ?g i \<and> (j \<noteq> 0 \<longrightarrow> headj = drop_bit 30 (last (take j tmp)))"
  have "rets (for_loop 0 ?n (compress_body b) (replicate ?n 0, 0, 0)) (?I ?n)"
  proof (rule rets_for_loop [where I = ?I])
    fix i s
    assume i: "i < ?n" and I: "?I i s"
    obtain tmp j headj where s: "s = (tmp, j, headj)" by (cases s)
    have "stored b ! i \<in> set (stored b)" using i length_stored [OF wf] by simp
    then have ne: "groups_of (stored b ! i) \<noteq> []" using wf by (simp add: wf_vec_def)
    note nw = norm_word_ok [OF ne] and st = stored_take_Suc [OF wf i]
    have "stored b = take (Suc i) (stored b) @ drop (Suc i) (stored b)" by simp
    then have "length (?g (Suc i)) \<le> length (groups b)"
      unfolding groups_def by (metis concat_append length_append map_append le_add1)
    then have "length (concat (map groups_of (take j tmp))) + length (groups_of (norm_word (stored b ! i))) < 2 ^ 30"
      using I s nw(2) st n30 by simp
    note cs = canon_snoc_ok [OF _ nw(1) this]
    have "rets (compress_body b i s) (\<lambda>(tmp', j', headj'). length tmp' = length tmp \<and> j' \<le> Suc i \<and>
        j' \<noteq> 0 \<and> take j' tmp' = canon_snoc (take j tmp) (norm_word (stored b ! i)) \<and>
        headj' = drop_bit 30 (norm_word (stored b ! i)))"
      unfolding s by (rule compress_body_eq [OF wf i]) (use I s in auto)
    then show "rets (compress_body b i s) (?I (Suc i))"
      by (rule rets_mono) (use I s cs nw(2) st in auto)
  qed (simp_all add: wah_canonical_def)
  then obtain tmp j headj where r: "for_loop 0 ?n (compress_body b) (replicate ?n 0, 0, 0) = Some (tmp, j, headj)"
      "length tmp = ?n" "j \<le> ?n" "wah_canonical (take j tmp)" "concat (map groups_of (take j tmp)) = groups b"
    using all by (auto simp: rets_def)
  let ?b = "b\<lparr>m_size := of_nat j, m_vec := tmp\<rparr>"
  have u: "unat (of_nat j :: word_t) = j" using r(3) s30 by (simp add: unat_of_nat)
  have st: "stored ?b = take j tmp" by (simp add: stored_def u)
  moreover have gr: "groups ?b = groups b" by (simp add: groups_def [of ?b] st r(5))
  moreover have "\<forall>w\<in>set (take j tmp). groups_of w \<noteq> []"
    using r(4) by (simp add: wah_canonical_def wah_proper_def)
  ultimately have "wf_bitmap ?b"
    using assms r(2,3) by (simp add: wf_bitmap_def wf_vec_def wf_active_def u)
  with r st gr u show ?thesis
    by (simp add: compress_def palloc_words_def alloc_words_eq [OF s30])
qed

subsection \<open>The canonical list is determined by the groups\<close>

lemma canonical_run:
  assumes "wah_canonical (w # ws)" and "is_fill w"
  shows "takeWhile (\<lambda>g. g = fill_group (drop_bit 30 w - 2)) (concat (map groups_of (w # ws))) = groups_of w"
proof -
  let ?f = "fill_group (drop_bit 30 w - 2)"
  have "takeWhile (\<lambda>g. g = ?f) (concat (map groups_of ws)) = []"
  proof (cases ws)
    case (Cons v vs)
    have v: "wah_proper v" "\<not> wah_joinable w v"
      using assms(1) Cons by (simp_all add: wah_canonical_def)
    then obtain g gs where g: "groups_of v = g # gs" by (auto simp: wah_proper_def neq_Nil_conv)
    then have gv: "g = (if is_fill v then fill_group (drop_bit 30 v - 2) else v)"
      by (cases "unat (take_bit 30 v)") (auto simp: groups_of_def split: if_splits)
    have "g \<noteq> ?f"
    proof (cases "is_fill v")
      case True
      have "ALLONES \<noteq> 0" by (simp add: ALLONES_def)
      moreover have "drop_bit 30 w \<noteq> drop_bit 30 v" using v(2) assms(2) by (simp add: wah_joinable_def)
      ultimately show ?thesis
        using True assms(2) gv
        by (cases w rule: header_cases; cases v rule: header_cases) (simp_all add: is_fill_def fill_group_def)
    next
      case False
      then show ?thesis using gv v(1) by (auto simp: fill_group_def wah_proper_def)
    qed
    with Cons g show ?thesis by simp
  qed simp
  moreover have "\<forall>g\<in>set (groups_of w). g = ?f" using assms(2) by (simp add: groups_of_def)
  ultimately show ?thesis by (simp add: takeWhile_append2)
qed

lemma fill_word_eqI:
  assumes "groups_of u = groups_of v" and "is_fill u" and "is_fill v" and "groups_of u \<noteq> []"
  shows "u = v"
proof -
  have l: "unat (take_bit 30 u) = unat (take_bit 30 v)"
    using arg_cong [OF assms(1), of length] assms(2,3) by (simp add: groups_of_def)
  have "hd (groups_of u) = hd (groups_of v)" using assms(1) by simp
  then have "fill_group (drop_bit 30 u - 2) = fill_group (drop_bit 30 v - 2)"
    using assms(2-4) l by (auto simp: groups_of_def hd_replicate split: if_splits)
  then have h: "drop_bit 30 u = drop_bit 30 v"
    using assms(2,3) by (cases u rule: header_cases; cases v rule: header_cases)
      (simp_all add: is_fill_def fill_group_def ALLONES_def)
  have "unat w = unat (drop_bit 30 w) * 2 ^ 30 + unat (take_bit 30 w)" for w :: word_t
    unfolding unat_header unat_counter by simp
  then have "unat u = unat v" using l h by metis
  then show ?thesis by (simp only: word_unat_eq_iff)
qed

lemma proper_hd:
  assumes "wah_proper w"
  obtains gs where "groups_of w = (if is_fill w then fill_group (drop_bit 30 w - 2) else w) # gs"
    and "is_fill w \<or> gs = []" and "is_fill w \<or> w \<noteq> 0 \<and> w \<noteq> ALLONES"
proof -
  obtain g gs where g: "groups_of w = g # gs" using assms by (auto simp: wah_proper_def neq_Nil_conv)
  then have "g = (if is_fill w then fill_group (drop_bit 30 w - 2) else w)" "is_fill w \<or> gs = []"
    by (cases "unat (take_bit 30 w)"; auto simp: groups_of_def split: if_splits)+
  then show thesis using that g assms by (auto simp: wah_proper_def)
qed

lemma canonical_unique:
  assumes "wah_canonical us" and "wah_canonical vs"
    and "concat (map groups_of us) = concat (map groups_of vs)"
  shows "us = vs"
  using assms
proof (induction us arbitrary: vs)
  case Nil
  then show ?case by (cases vs) (auto simp: wah_canonical_def wah_proper_def)
next
  case (Cons u us)
  have pu: "wah_proper u" using Cons.prems(1) by (simp add: wah_canonical_def)
  then obtain v vs' where vs: "vs = v # vs'"
    using Cons.prems(3) by (cases vs) (auto simp: wah_proper_def)
  have pv: "wah_proper v" using Cons.prems(2) vs by (simp add: wah_canonical_def)
  have uv: "groups_of u @ concat (map groups_of us) = groups_of v @ concat (map groups_of vs')"
    using Cons.prems(3) vs by simp
  obtain gs where gs: "groups_of u = (if is_fill u then fill_group (drop_bit 30 u - 2) else u) # gs"
      "is_fill u \<or> gs = []" "is_fill u \<or> u \<noteq> 0 \<and> u \<noteq> ALLONES"
    using pu by (rule proper_hd)
  obtain hs where hs: "groups_of v = (if is_fill v then fill_group (drop_bit 30 v - 2) else v) # hs"
      "is_fill v \<or> hs = []" "is_fill v \<or> v \<noteq> 0 \<and> v \<noteq> ALLONES"
    using pv by (rule proper_hd)
  have hd: "(if is_fill u then fill_group (drop_bit 30 u - 2) else u) =
      (if is_fill v then fill_group (drop_bit 30 v - 2) else v)"
    using uv gs(1) hs(1) by simp
  have uv_fill: "is_fill u = is_fill v"
    using hd gs(3) hs(3) by (auto simp: fill_group_def split: if_splits)
  have "u = v"
  proof (cases "is_fill u")
    case True
    then have f: "fill_group (drop_bit 30 u - 2) = fill_group (drop_bit 30 v - 2)" "is_fill v"
      using hd uv_fill by simp_all
    have "groups_of u = groups_of v"
      using canonical_run [OF Cons.prems(1) True] canonical_run [of v vs'] Cons.prems(2,3) vs f by simp
    then show ?thesis using True f(2) gs(1) by (intro fill_word_eqI) auto
  next
    case False
    then show ?thesis using hd uv_fill by simp
  qed
  then show ?case
    using Cons.IH [of vs'] Cons.prems vs by (auto simp: wah_canonical_def successively_Cons)
qed

end
