(* ===== verification/Bitmap_Bool.thy ===== *)
theory Bitmap_Bool
  imports Bitmap_Compress
begin

text \<open>
  The boolean operations. \<open>c2_and\<close> and \<open>c2_or\<close> run one loop over two compressed operands;
  what the loop needs of its body is the locale \<open>wah_merge\<close>, in which the loop is proved to
  return and to combine the operands group by group. The locale is interpreted on the two
  bodies of the source. On top of it, \<open>bmpand\<close> and \<open>bmpor\<close> with operands of unequal sizes.
\<close>

subsection \<open>What a cursor has left\<close>

definition cur_ok :: "cursor \<Rightarrow> bool" where
  "cur_ok c \<longleftrightarrow> ccount c \<noteq> 0 \<longrightarrow> chead c = 2 \<or> chead c = 3"

definition pending :: "cursor \<Rightarrow> word_t list" where
  "pending c = replicate (unat (ccount c)) (fill_group (chead c - 2))"

definition rest :: "bitmap \<Rightarrow> cursor \<Rightarrow> word_t list" where
  "rest b c = pending c @ concat (map groups_of (drop (unat (ci c)) (stored b)))"

text \<open>The groups a loaded cursor holds: a run of a fill, or one literal.\<close>

definition loaded :: "cursor \<Rightarrow> word_t list \<Rightarrow> bool" where
  "loaded c gs \<longleftrightarrow> gs \<noteq> [] \<and>
     (((chead c = 2 \<or> chead c = 3) \<and> gs = pending c) \<or>
      (chead c < 2 \<and> gs = [cw c] \<and> take_bit 31 (cw c) = cw c))"

lemma c2_fetch_ok:
  assumes wf: "wf_vec b" and ok: "cur_ok c" and ci: "unat (ci c) \<le> unat (m_size b)"
  shows "rets (c2_fetch b c) (\<lambda>r. case r of None \<Rightarrow> rest b c = []
    | Some c' \<Rightarrow> \<exists>gs. loaded c' gs \<and> unat (ci c') \<le> unat (m_size b) \<and>
        rest b c = gs @ concat (map groups_of (drop (unat (ci c')) (stored b))))"
proof (cases "ccount c = 0 \<and> ci c < m_size b")
  case True
  then have i: "unat (ci c) < unat (m_size b)" by (simp add: word_less_nat_alt)
  let ?w = "stored b ! unat (ci c)"
  let ?c = "\<lparr>ci = ci c + 1, cw = ?w, chead = drop_bit 30 ?w, ccount = take_bit 30 ?w\<rparr>"
  have "unat (m_size b) < 2 ^ 32" by (rule unat32_less)
  then have inc: "unat (ci c + 1) = Suc (unat (ci c))" using i by (intro unat_inc_no_wrap) simp
  have len: "unat (ci c) < length (stored b)" using i length_stored [OF wf] by simp
  then have ne: "groups_of ?w \<noteq> []" using wf by (simp add: wf_vec_def)
  have "rest b c = groups_of ?w @ concat (map groups_of (drop (Suc (unat (ci c))) (stored b)))"
    using True len by (simp add: rest_def pending_def Cons_nth_drop_Suc [symmetric])
  moreover have "loaded ?c (groups_of ?w)"
    using ne by (cases ?w rule: header_cases)
      (auto simp: loaded_def pending_def groups_of_def is_fill_def literal_31 [symmetric])
  moreover have "c2_fetch b c = Some (Some ?c)"
    using True i by (simp add: c2_fetch_def stored_nth [OF wf] not_le [symmetric])
  ultimately show ?thesis using i inc by auto
next
  case False
  show ?thesis
  proof (cases "ccount c = 0")
    case True
    with False have "c2_fetch b c = Some None" "unat (m_size b) \<le> unat (ci c)"
      by (simp_all add: c2_fetch_def not_less word_le_nat_alt)
    then show ?thesis using True length_stored [OF wf] by (simp add: rest_def pending_def)
  next
    case nz: False
    then have "c2_fetch b c = Some (Some c)" by (simp add: c2_fetch_def)
    moreover have "loaded c (pending c)"
      using nz ok by (auto simp: loaded_def cur_ok_def pending_def unat_eq_zero)
    ultimately show ?thesis using ci by (auto simp: rest_def)
  qed
qed

subsection \<open>Results grow group by group\<close>

definition grown :: "bitmap \<Rightarrow> word_t list \<Rightarrow> bitmap \<Rightarrow> bool" where
  "grown r gs r' \<longleftrightarrow> wf_bitmap r' \<and> anbits (active r') = 0 \<and> groups r' = groups r @ gs"

lemma grow_word:
  assumes "wf_bitmap r" and "anbits (active r) = 0" and "take_bit 31 w = w"
    and "31 * (length (groups r) + 1) < 2 ^ 32"
  shows "rets (appendWord r w) (grown r [w])"
  using appendWord_aligned [OF assms(1,2), of w] assms(3,4)
  by (auto simp: groups_of_literal grown_def wf_bitmap_def wf_active_def elim!: rets_mono)

lemma grow_counter:
  assumes "wf_bitmap r" and "anbits (active r) = 0" and "val = 0 \<or> val = 1" and "0 < cnt"
    and "31 * (length (groups r) + unat cnt) < 2 ^ 32"
  shows "rets (appendCounter r val cnt) (grown r (replicate (unat cnt) (fill_group val)))"
  using appendCounter_ok [OF _ assms(3-5)] assms(1,2)
  by (auto simp: grown_def wf_bitmap_def wf_active_def elim!: rets_mono)

text \<open>
  What one iteration has to achieve: the result grows by the combined groups and each cursor
  keeps what the other one did not reach.
\<close>

definition merged :: "(word_t \<Rightarrow> word_t \<Rightarrow> word_t) \<Rightarrow> bitmap \<Rightarrow> cursor \<Rightarrow> word_t list \<Rightarrow> cursor \<Rightarrow>
    word_t list \<Rightarrow> bitmap \<times> cursor \<times> cursor \<Rightarrow> bool" where
  "merged wop r cx gx cy gy = (\<lambda>(r', cx', cy'). grown r (map2 wop gx gy) r' \<and>
     ci cx' = ci cx \<and> ci cy' = ci cy \<and> cur_ok cx' \<and> cur_ok cy' \<and>
     pending cx' = drop (length gy) gx \<and> pending cy' = drop (length gx) gy)"

lemma loaded_fill:
  assumes "loaded c gs" and "1 < chead c"
  shows "chead c = 2 \<or> chead c = 3" and "gs = replicate (unat (ccount c)) (fill_group (chead c - 2))"
    and "0 < ccount c"
  using assms by (auto simp: loaded_def pending_def word_less_nat_alt)

lemma loaded_literal:
  assumes "loaded c gs" and "\<not> 1 < chead c"
  shows "chead c < 2" and "gs = [cw c]" and "take_bit 31 (cw c) = cw c"
  using assms by (auto simp: loaded_def)

lemma merge_step:
  assumes "rets m (grown r gs)" and "gs = map2 wop gx gy"
    and "cx' = cx\<lparr>ccount := nx\<rparr>" and "cur_ok cx'" and "pending cx' = drop (length gy) gx"
    and "cy' = cy\<lparr>ccount := ny\<rparr>" and "cur_ok cy'" and "pending cy' = drop (length gx) gy"
  shows "rets (m \<bind> (\<lambda>r'. Some (r', cx', cy'))) (merged wop r cx gx cy gy)"
  using assms(1) by (rule rets_bind) (use assms(2-) in \<open>simp add: merged_def\<close>)

lemma pending_used_up [simp]: "cur_ok (c\<lparr>ccount := 0\<rparr>)" "pending (c\<lparr>ccount := 0\<rparr>) = []"
  by (simp_all add: cur_ok_def pending_def)

lemma pending_part_used:
  assumes "chead c = 2 \<or> chead c = 3" and "k \<le> ccount c"
  shows "cur_ok (c\<lparr>ccount := ccount c - k\<rparr>)"
    and "pending (c\<lparr>ccount := ccount c - k\<rparr>) = drop (unat k) (replicate (unat (ccount c)) (fill_group (chead c - 2)))"
  using assms by (simp_all add: cur_ok_def pending_def unat_sub)

subsection \<open>The loop, for any body that meets the contract\<close>

locale wah_merge =
  fixes body :: c2_body and wop :: "word_t \<Rightarrow> word_t \<Rightarrow> word_t" and bop :: "bool \<Rightarrow> bool \<Rightarrow> bool"
  assumes body_ok: "\<lbrakk>wf_bitmap r; anbits (active r) = 0; loaded cx gx; loaded cy gy;
      31 * (length (groups r) + min (length gx) (length gy)) < 2 ^ 32\<rbrakk> \<Longrightarrow>
      rets (body r cx cy) (merged wop r cx gx cy gy)"
    and to_bits_op: "to_bits n (wop u v) = map2 bop (to_bits n u) (to_bits n v)"
    and op_literal: "take_bit n u = u \<Longrightarrow> take_bit n v = v \<Longrightarrow> take_bit n (wop u v) = wop u v"
begin

lemma loop_ok:
  assumes "wf_vec a" and "wf_vec b" and "wf_bitmap r" and "anbits (active r) = 0"
    and "cur_ok cx" and "cur_ok cy" and "unat (ci cx) \<le> unat (m_size a)" and "unat (ci cy) \<le> unat (m_size b)"
    and "31 * (length (groups r) + min (length (rest a cx)) (length (rest b cy))) < 2 ^ 32"
  shows "rets (c2_loop body a b r cx cy) (grown r (map2 wop (rest a cx) (rest b cy)))"
  using assms(3-)
proof (induction "length (rest a cx)" arbitrary: r cx cy rule: less_induct)
  case less
  obtain fx where fx: "c2_fetch a cx = Some fx"
    and fxs: "case fx of None \<Rightarrow> rest a cx = [] | Some c \<Rightarrow> \<exists>gs. loaded c gs \<and> unat (ci c) \<le> unat (m_size a) \<and>
        rest a cx = gs @ concat (map groups_of (drop (unat (ci c)) (stored a)))"
    using c2_fetch_ok [OF assms(1) less.prems(3,5)] by (rule retsE)
  obtain fy where fy: "c2_fetch b cy = Some fy"
    and fys: "case fy of None \<Rightarrow> rest b cy = [] | Some c \<Rightarrow> \<exists>gs. loaded c gs \<and> unat (ci c) \<le> unat (m_size b) \<and>
        rest b cy = gs @ concat (map groups_of (drop (unat (ci c)) (stored b)))"
    using c2_fetch_ok [OF assms(2) less.prems(4,6)] by (rule retsE)
  show ?case
  proof (cases "fx = None \<or> fy = None")
    case True
    then have "map2 wop (rest a cx) (rest b cy) = []" using fxs fys by auto
    moreover have "c2_loop body a b r cx cy = Some r"
      using True by (subst c2_loop.simps) (auto simp: fx fy split: option.splits)
    ultimately show ?thesis using less.prems(1,2) by (simp add: grown_def)
  next
    case False
    then obtain dx gx dy gy where d: "fx = Some dx" "loaded dx gx" "unat (ci dx) \<le> unat (m_size a)"
        "fy = Some dy" "loaded dy gy" "unat (ci dy) \<le> unat (m_size b)"
      and rx: "rest a cx = gx @ concat (map groups_of (drop (unat (ci dx)) (stored a)))" (is "_ = _ @ ?xs")
      and ry: "rest b cy = gy @ concat (map groups_of (drop (unat (ci dy)) (stored b)))" (is "_ = _ @ ?ys")
      using fxs fys by auto
    have cap: "31 * (length (groups r) + min (length gx) (length gy)) < 2 ^ 32"
      using less.prems(7) unfolding rx ry by (auto simp: min_def split: if_splits)
    obtain res where res: "body r dx dy = Some res" and post: "merged wop r dx gx dy gy res"
      using body_ok [OF less.prems(1,2) d(2,5) cap] by (rule retsE)
    obtain r' ex ey where e: "res = (r', ex, ey)" by (cases res)
    have g: "grown r (map2 wop gx gy) r'" and ci: "ci ex = ci dx" "ci ey = ci dy" and ok: "cur_ok ex" "cur_ok ey"
      and rest: "rest a ex = drop (length gy) gx @ ?xs" "rest b ey = drop (length gx) gy @ ?ys"
      using post e by (simp_all add: rest_def merged_def)
    have "gx \<noteq> []" "gy \<noteq> []" using d(2,5) by (simp_all add: loaded_def)
    then have shorter: "length (rest a ex) < length (rest a cx)" unfolding rest rx by (cases gx; cases gy) auto
    have "rets (c2_loop body a b r' ex ey) (grown r' (map2 wop (rest a ex) (rest b ey)))"
    proof (rule less.hyps [OF shorter])
      show "31 * (length (groups r') + min (length (rest a ex)) (length (rest b ey))) < 2 ^ 32"
        using less.prems(7) g unfolding rest rx ry by (auto simp: grown_def min_def split: if_splits)
    qed (use g ci ok d(3,6) in \<open>simp_all add: grown_def\<close>)
    then have "rets (c2_loop body a b r' ex ey) (grown r (map2 wop (rest a cx) (rest b cy)))"
      using g unfolding rest rx ry map2_drop_split [of wop gx ?xs]
      by (elim rets_mono) (simp add: grown_def)
    then show ?thesis by (subst c2_loop.simps) (simp add: fx fy d(1,4) res e)
  qed
qed

text \<open>From the start, the loop combines all groups the operands have in common.\<close>

lemma start_ok:
  assumes "wf_vec a" and "wf_vec b"
  shows "rets (c2_loop body a b makeBitmap c2_start c2_start) (\<lambda>r. wf_bitmap r \<and>
    anbits (active r) = 0 \<and> groups r = map2 wop (groups a) (groups b))"
proof -
  have "rest x c2_start = groups x" for x by (simp add: rest_def pending_def c2_start_def groups_def)
  moreover have "wf_bitmap makeBitmap" "groups makeBitmap = []" "anbits (active makeBitmap) = 0"
    by (simp_all add: makeBitmap_def wf_bitmap_def wf_vec_def wf_active_def groups_def stored_def)
  moreover have "31 * min (length (groups a)) (length (groups b)) < 2 ^ 32"
    using groups_bound [OF assms(1)] by simp
  ultimately show ?thesis
    using loop_ok [OF assms, of makeBitmap c2_start c2_start] by (simp add: grown_def [abs_def] cur_ok_def c2_start_def)
qed

lemma group_bits_op:
  "length gs = length hs \<Longrightarrow> group_bits (map2 wop gs hs) = map2 bop (group_bits gs) (group_bits hs)"
  by (induction gs hs rule: list_induct2) (simp_all add: to_bits_op map2_append)

text \<open>With the active words combined the same way, the bits are combined position by position.\<close>

lemma merge_bits:
  assumes "wf_bitmap a" and "wf_bitmap b" and len: "length (bits a) = length (bits b)"
    and r: "wf_bitmap r" "anbits (active r) = 0" "groups r = map2 wop (groups a) (groups b)"
  defines "r' \<equiv> (if anbits (active a) \<noteq> 0 then r\<lparr>active := \<lparr>aval = wop (aval (active a)) (aval (active b)),
                    anbits = anbits (active a)\<rparr>\<rparr> else r)"
  shows "wf_bitmap r' \<and> bits r' = map2 bop (bits a) (bits b)"
proof -
  note wa = wf_activeD [of a] and wb = wf_activeD [of b]
  have lt: "unat (anbits (active a)) < 31" "unat (anbits (active b)) < 31"
    using assms(1,2) wa(1) wb(1) by (simp_all add: wf_bitmap_def)
  then have eq: "length (groups a) = length (groups b)" "unat (anbits (active a)) = unat (anbits (active b))"
    using len unfolding length_bits by presburger+
  then have an: "anbits (active b) = anbits (active a)" by (simp add: word_unat_eq_iff)
  have "take_bit (unat (anbits (active a))) (wop (aval (active a)) (aval (active b))) =
      wop (aval (active a)) (aval (active b))"
    using assms(1,2) wa(2) wb(2) an by (intro op_literal) (simp_all add: wf_bitmap_def)
  then have "wf_bitmap r'" using r(1) assms(1) by (simp add: r'_def wf_bitmap_def wf_active_def)
  moreover have "bits r' = map2 bop (bits a) (bits b)"
    using r(2) eq(1) an
    by (simp add: r'_def bits_def r(3) group_bits_op map2_append active_bits_def to_bits_op)
  ultimately show ?thesis ..
qed

end

subsection \<open>The two bodies of the source\<close>

lemma fill_group_and: "fill_group u AND fill_group v = fill_group (if u = 1 \<and> v = 1 then 1 else 0)"
  and fill_group_or: "fill_group u OR fill_group v = fill_group (if u = 1 \<or> v = 1 then 1 else 0)"
  by (simp_all add: fill_group_def)

lemma literal_and_ones: "take_bit 31 w = w \<Longrightarrow> w AND ALLONES = w"
  and literal_or_ones: "take_bit 31 w = w \<Longrightarrow> w OR ALLONES = ALLONES"
proof -
  have m: "ALLONES = mask 31" by (simp add: ALLONES_def mask_eq_exp_minus_1)
  show "take_bit 31 w = w \<Longrightarrow> w AND ALLONES = w" by (simp add: m take_bit_eq_mask)
  assume "take_bit 31 w = w"
  then show "w OR ALLONES = ALLONES"
    unfolding m by (intro bit_word_eqI) (auto simp: bit_or_iff bit_mask_iff bit_take_bit_iff dest: arg_cong [where f = "\<lambda>v. bit v _"])
qed

text \<open>The cases in which at least one of the operands holds a fill.\<close>

lemma merge_fills:
  assumes r: "wf_bitmap r" "anbits (active r) = 0" and l: "loaded cx gx" "loaded cy gy"
    and cap: "31 * (length (groups r) + min (length gx) (length gy)) < 2 ^ 32"
    and f: "1 < chead cx" "1 < chead cy" and val: "val = 0 \<or> val = 1"
    and op: "wop (fill_group (chead cx - 2)) (fill_group (chead cy - 2)) = fill_group val"
  defines "k \<equiv> if ccount cy < ccount cx then ccount cy else ccount cx"
  shows "rets (appendCounter r val k \<bind> (\<lambda>r'. Some (r', cx\<lparr>ccount := ccount cx - k\<rparr>, cy\<lparr>ccount := ccount cy - k\<rparr>)))
    (merged wop r cx gx cy gy)"
proof -
  note fx = loaded_fill [OF l(1) f(1)] and fy = loaded_fill [OF l(2) f(2)]
  have k: "unat k = min (unat (ccount cx)) (unat (ccount cy))" "0 < k" "k \<le> ccount cx" "k \<le> ccount cy"
    using fx(3) fy(3) by (auto simp: k_def word_less_nat_alt word_le_nat_alt)
  have m: "map2 wop gx gy = replicate (unat k) (fill_group val)"
    unfolding fx(2) fy(2) k(1) op [symmetric] by (simp add: zip_replicate)
  show ?thesis
  proof (rule merge_step [OF grow_counter [OF r val k(2)]])
    show "31 * (length (groups r) + unat k) < 2 ^ 32" using cap fx(2) fy(2) k(1) by simp
    show "pending (cx\<lparr>ccount := ccount cx - k\<rparr>) = drop (length gy) gx"
      unfolding pending_part_used(2) [OF fx(1) k(3)] fx(2) fy(2) k(1) by (simp add: min_def)
    show "pending (cy\<lparr>ccount := ccount cy - k\<rparr>) = drop (length gx) gy"
      unfolding pending_part_used(2) [OF fy(1) k(4)] fx(2) fy(2) k(1) by (simp add: min_def)
  qed (use m pending_part_used(1) fx(1) fy(1) k in auto)
qed

lemma merge_fill_literal:
  assumes l: "loaded cx gx" "loaded cy gy" and f: "1 < chead cx" "\<not> 1 < chead cy"
    and grow: "rets m (grown r [g])" and op: "wop (fill_group (chead cx - 2)) (cw cy) = g"
  shows "rets (m \<bind> (\<lambda>r'. Some (r', cx\<lparr>ccount := ccount cx - 1\<rparr>, cy\<lparr>ccount := 0\<rparr>))) (merged wop r cx gx cy gy)"
proof -
  note fx = loaded_fill [OF l(1) f(1)] and fy = loaded_literal [OF l(2) f(2)]
  have one: "1 \<le> ccount cx" using fx(3) by (simp add: word_less_nat_alt word_le_nat_alt)
  obtain n where n: "unat (ccount cx) = Suc n" using fx(3) by (cases "unat (ccount cx)") (auto simp: word_less_nat_alt)
  show ?thesis
    by (rule merge_step [OF grow])
      (use pending_part_used [OF fx(1) one] fx(2) fy(2) n op in auto)
qed

lemma merge_literal_fill:
  assumes l: "loaded cx gx" "loaded cy gy" and f: "\<not> 1 < chead cx" "1 < chead cy"
    and grow: "rets m (grown r [g])" and op: "wop (cw cx) (fill_group (chead cy - 2)) = g"
  shows "rets (m \<bind> (\<lambda>r'. Some (r', cx\<lparr>ccount := 0\<rparr>, cy\<lparr>ccount := ccount cy - 1\<rparr>))) (merged wop r cx gx cy gy)"
proof -
  note fx = loaded_literal [OF l(1) f(1)] and fy = loaded_fill [OF l(2) f(2)]
  have one: "1 \<le> ccount cy" using fy(3) by (simp add: word_less_nat_alt word_le_nat_alt)
  obtain n where n: "unat (ccount cy) = Suc n" using fy(3) by (cases "unat (ccount cy)") (auto simp: word_less_nat_alt)
  show ?thesis
    by (rule merge_step [OF grow])
      (use pending_part_used [OF fy(1) one] fy(2) fx(2) n op in auto)
qed

lemma merge_literals:
  assumes l: "loaded cx gx" "loaded cy gy" and f: "\<not> 1 < chead cx" "\<not> 1 < chead cy"
    and grow: "rets m (grown r [wop (cw cx) (cw cy)])"
  shows "rets (m \<bind> (\<lambda>r'. Some (r', cx\<lparr>ccount := 0\<rparr>, cy\<lparr>ccount := 0\<rparr>))) (merged wop r cx gx cy gy)"
  by (rule merge_step [OF grow]) (use loaded_literal(2) [OF l(1) f(1)] loaded_literal(2) [OF l(2) f(2)] in auto)

lemmas merge_rules = merge_fills merge_fill_literal merge_literal_fill merge_literals

lemma one_group_fits:
  assumes "loaded cx gx" and "loaded cy gy"
    and "31 * (length (groups r) + min (length gx) (length gy)) < 2 ^ 32"
  shows "31 * (length (groups r) + 1) < 2 ^ 32"
proof -
  have "1 \<le> min (length gx) (length gy)" using assms(1,2) by (cases gx; cases gy) (auto simp: loaded_def)
  then have "31 * (length (groups r) + 1) \<le> 31 * (length (groups r) + min (length gx) (length gy))" by simp
  then show ?thesis using assms(3) by (rule le_less_trans)
qed

lemma grow_one_counter:
  assumes "wf_bitmap r" and "anbits (active r) = 0" and "val = 0 \<or> val = 1" and "31 * (length (groups r) + 1) < 2 ^ 32"
  shows "rets (appendCounter r val 1) (grown r [fill_group val])"
  using grow_counter [OF assms(1-3), of 1] assms(4) by simp

interpretation and_merge: wah_merge c2_and_body "(AND)" "(\<and>)"
proof
  fix r cx gx cy gy
  assume r: "wf_bitmap r" "anbits (active r) = 0" and l: "loaded cx gx" "loaded cy gy"
    and cap: "31 * (length (groups r) + min (length gx) (length gy)) < 2 ^ 32"
  note cap1 = one_group_fits [OF l cap]
  show "rets (c2_and_body r cx cy) (merged (AND) r cx gx cy gy)"
  proof (cases "1 < chead cx"; cases "1 < chead cy")
    assume f: "1 < chead cx" "1 < chead cy"
    show ?thesis
      using merge_fills [OF r l cap f, of 0 "(AND)"] merge_fills [OF r l cap f, of 1 "(AND)"]
        loaded_fill(1) [OF l(1) f(1)] loaded_fill(1) [OF l(2) f(2)]
      by (auto simp: c2_and_body_def Let_def fill_group_and)
  next
    assume f: "1 < chead cx" "\<not> 1 < chead cy"
    note fx = loaded_fill(1) [OF l(1) f(1)] and fy = loaded_literal [OF l(2) f(2)]
    show ?thesis
      using f fx fy(1) grow_one_counter [OF r _ cap1, of 0] grow_word [OF r fy(3) cap1] fy(3)
      by (auto simp: c2_and_body_def fill_group_def literal_and_ones and.commute [of ALLONES]
            intro!: merge_fill_literal [OF l f])
  next
    assume f: "\<not> 1 < chead cx" "1 < chead cy"
    note fy = loaded_fill(1) [OF l(2) f(2)] and fx = loaded_literal [OF l(1) f(1)]
    show ?thesis
      using f fy fx(1) grow_one_counter [OF r _ cap1, of 0] grow_word [OF r fx(3) cap1] fx(3)
      by (auto simp: c2_and_body_def fill_group_def literal_and_ones intro!: merge_literal_fill [OF l f])
  next
    assume f: "\<not> 1 < chead cx" "\<not> 1 < chead cy"
    note fx = loaded_literal [OF l(1) f(1)] and fy = loaded_literal [OF l(2) f(2)]
    have "take_bit 31 (cw cx AND cw cy) = cw cx AND cw cy" using fx fy by (simp add: take_bit_and)
    then show ?thesis
      using f fx(1) fy(1) grow_word [OF r _ cap1] by (auto simp: c2_and_body_def intro!: merge_literals [OF l f])
  qed
qed (simp_all add: to_bits_and take_bit_and)

interpretation or_merge: wah_merge c2_or_body "(OR)" "(\<or>)"
proof
  fix r cx gx cy gy
  assume r: "wf_bitmap r" "anbits (active r) = 0" and l: "loaded cx gx" "loaded cy gy"
    and cap: "31 * (length (groups r) + min (length gx) (length gy)) < 2 ^ 32"
  note cap1 = one_group_fits [OF l cap]
  show "rets (c2_or_body r cx cy) (merged (OR) r cx gx cy gy)"
  proof (cases "1 < chead cx"; cases "1 < chead cy")
    assume f: "1 < chead cx" "1 < chead cy"
    show ?thesis
      using merge_fills [OF r l cap f, of 0 "(OR)"] merge_fills [OF r l cap f, of 1 "(OR)"]
        loaded_fill(1) [OF l(1) f(1)] loaded_fill(1) [OF l(2) f(2)]
      by (auto simp: c2_or_body_def Let_def fill_group_or)
  next
    assume f: "1 < chead cx" "\<not> 1 < chead cy"
    note fx = loaded_fill(1) [OF l(1) f(1)] and fy = loaded_literal [OF l(2) f(2)]
    show ?thesis
      using f fx fy(1) grow_one_counter [OF r _ cap1, of 1] grow_word [OF r fy(3) cap1] fy(3)
      by (auto simp: c2_or_body_def fill_group_def literal_or_ones or.commute [of ALLONES]
            intro!: merge_fill_literal [OF l f])
  next
    assume f: "\<not> 1 < chead cx" "1 < chead cy"
    note fy = loaded_fill(1) [OF l(2) f(2)] and fx = loaded_literal [OF l(1) f(1)]
    show ?thesis
      using f fy fx(1) grow_one_counter [OF r _ cap1, of 1] grow_word [OF r fx(3) cap1] fx(3)
      by (auto simp: c2_or_body_def fill_group_def literal_or_ones intro!: merge_literal_fill [OF l f])
  next
    assume f: "\<not> 1 < chead cx" "\<not> 1 < chead cy"
    note fx = loaded_literal [OF l(1) f(1)] and fy = loaded_literal [OF l(2) f(2)]
    have "take_bit 31 (cw cx OR cw cy) = cw cx OR cw cy" using fx fy by (simp add: take_bit_or)
    then show ?thesis
      using f fx(1) fy(1) grow_word [OF r _ cap1] by (auto simp: c2_or_body_def intro!: merge_literals [OF l f])
  qed
qed (simp_all add: to_bits_or take_bit_or)

subsection \<open>The operations\<close>

lemma c2_and_ok:
  assumes "wf_bitmap a" and "wf_bitmap b" and "length (bits a) = length (bits b)"
  shows "rets (c2_and a b) (\<lambda>r. wf_bitmap r \<and> bits r = map2 (\<and>) (bits a) (bits b))"
  unfolding c2_and_def using and_merge.start_ok [of a b] assms and_merge.merge_bits [OF assms]
  by (auto simp: wf_bitmap_def intro!: rets_bind)

lemma c2_or_ok:
  assumes "wf_bitmap a" and "wf_bitmap b" and "length (bits a) = length (bits b)"
  shows "rets (c2_or a b) (\<lambda>r. wf_bitmap r \<and> bits r = map2 (\<or>) (bits a) (bits b))"
  unfolding c2_or_def using or_merge.start_ok [of a b] assms or_merge.merge_bits [OF assms]
  by (auto simp: wf_bitmap_def intro!: rets_bind)

text \<open>The shorter operand is copied and padded with zeros up to the size of the other.\<close>

definition pad :: "nat \<Rightarrow> bool list \<Rightarrow> bool list" where
  "pad n xs = xs @ replicate (n - length xs) False"

lemma length_pad [simp]: "length xs \<le> n \<Longrightarrow> length (pad n xs) = n"
  and pad_same [simp]: "pad (length xs) xs = xs"
  by (simp_all add: pad_def)

lemma map2_commute_and: "map2 (\<and>) xs ys = map2 (\<and>) ys (xs :: bool list)"
  by (induction xs ys rule: list_induct2') auto

lemma padded_then:
  assumes "wf_bitmap a" and "wf_bitmap b" and "length (bits b) \<le> length (bits a)" and "length (bits a) < 2 ^ 32"
    and "\<And>t. wf_bitmap t \<Longrightarrow> bits t = pad (length (bits a)) (bits b) \<Longrightarrow> rets (g t) Q"
  shows "rets (bitmapCopy b makeBitmap \<bind> (\<lambda>tmp. adjustSize tmp (of_nat (length (bits a))) \<bind> g)) Q"
proof (rule rets_bind [OF bitmapCopy_eq [OF assms(2)]])
  fix c
  assume c: "wf_bitmap c \<and> bits c = bits b \<and> groups c = groups b \<and> isCompressed c = isCompressed b"
  have "rets (adjustSize c (of_nat (length (bits a)))) (\<lambda>t. wf_bitmap t \<and> bits t = pad (length (bits a)) (bits b))"
    using adjustSize_ok [of c "of_nat (length (bits a))"] c assms(3) unat_of_nat_bits [OF assms(4)]
    by (simp add: pad_def)
  then show "rets (adjustSize c (of_nat (length (bits a))) \<bind> g) Q"
    by (rule rets_bind) (use assms(5) in simp)
qed

lemma bmpand_same:
  assumes "wf_bitmap a" and "wf_bitmap b" and "length (bits a) = length (bits b)"
  shows "bmpand a b = c2_and a b" and "bmpor a b = c2_or a b"
  using assms by (simp_all add: bmpand.simps bmpor.simps bitmapSize_eq wf_bitmap_def)

lemma size_less_iff:
  assumes "length (bits a) < 2 ^ 32" and "length (bits b) < 2 ^ 32"
  shows "(of_nat (length (bits a)) :: word_t) < of_nat (length (bits b)) \<longleftrightarrow> length (bits a) < length (bits b)"
  using assms by (simp add: word_less_nat_alt unat_of_nat_bits)

lemma bmpand_ok:
  assumes a: "wf_bitmap a" "length (bits a) < 2 ^ 32" and b: "wf_bitmap b" "length (bits b) < 2 ^ 32"
  defines "n \<equiv> max (length (bits a)) (length (bits b))"
  shows "rets (bmpand a b) (\<lambda>r. wf_bitmap r \<and> bits r = map2 (\<and>) (pad n (bits a)) (pad n (bits b)))"
proof -
  note sz = bitmapSize_eq and lt = size_less_iff [OF a(2) b(2)] size_less_iff [OF b(2) a(2)]
  have wf: "wf_vec a" "wf_vec b" using a b by (simp_all add: wf_bitmap_def)
  have fin: "rets (bmpand x t) (\<lambda>r. wf_bitmap r \<and> bits r = map2 (\<and>) (bits x) (pad (length (bits x)) ys))"
    if "wf_bitmap x" "length ys \<le> length (bits x)" "wf_bitmap t" "bits t = pad (length (bits x)) ys" for x t ys
    using that c2_and_ok [of x t] by (simp add: bmpand_same)
  consider "length (bits b) < length (bits a)" | "length (bits a) < length (bits b)"
    | "length (bits a) = length (bits b)" by linarith
  then show ?thesis
  proof cases
    case 1
    then have "bmpand a b = bitmapCopy b makeBitmap \<bind>
        (\<lambda>tmp. adjustSize tmp (of_nat (length (bits a))) \<bind> bmpand a)"
      using lt by (subst bmpand.simps) (simp add: sz wf)
    with 1 show ?thesis
      using padded_then [OF a(1) b(1) _ a(2) fin [OF a(1), of "bits b"]] by (simp add: n_def max_def)
  next
    case 2
    then have "bmpand a b = bitmapCopy a makeBitmap \<bind>
        (\<lambda>tmp. adjustSize tmp (of_nat (length (bits b))) \<bind> bmpand b)"
      using lt by (subst bmpand.simps) (simp add: sz wf)
    with 2 show ?thesis
      using padded_then [OF b(1) a(1) _ b(2) fin [OF b(1), of "bits a"]]
      by (simp add: n_def max_def map2_commute_and)
  next
    case 3
    then show ?thesis using c2_and_ok [OF a(1) b(1)] by (simp add: bmpand_same a b n_def) (simp add: pad_def)
  qed
qed

text \<open>
  \<open>bmpor\<close> computes the union when its second operand is not longer than the first. When it is
  longer, the code calls \<open>bmpand\<close> and the result is the intersection with the padded operand.
\<close>

lemma bmpor_ok:
  assumes a: "wf_bitmap a" "length (bits a) < 2 ^ 32" and b: "wf_bitmap b"
    and le: "length (bits b) \<le> length (bits a)"
  shows "rets (bmpor a b) (\<lambda>r. wf_bitmap r \<and> bits r = map2 (\<or>) (bits a) (pad (length (bits a)) (bits b)))"
proof (cases "length (bits a) = length (bits b)")
  case True
  then show ?thesis using c2_or_ok [OF a(1) b] by (simp add: bmpand_same a b)
next
  case False
  have lt: "(of_nat (length (bits b)) :: word_t) < of_nat (length (bits a))"
    using False le a(2) size_less_iff [of b a] by simp
  have ev: "bmpor a b = bitmapCopy b makeBitmap \<bind>
      (\<lambda>tmp. adjustSize tmp (of_nat (length (bits a))) \<bind> bmpor a)"
    using lt a(1) b by (subst bmpor.simps) (simp add: bitmapSize_eq wf_bitmap_def)
  show ?thesis
    unfolding ev
  proof (rule padded_then [OF a(1) b le a(2)])
    fix t
    assume "wf_bitmap t" "bits t = pad (length (bits a)) (bits b)"
    then show "rets (bmpor a t) (\<lambda>r. wf_bitmap r \<and> bits r = map2 (\<or>) (bits a) (pad (length (bits a)) (bits b)))"
      using c2_or_ok [OF a(1), of t] le by (simp add: bmpand_same a)
  qed
qed

lemma bmpor_is_and:
  assumes a: "wf_bitmap a" and b: "wf_bitmap b" "length (bits b) < 2 ^ 32"
    and lt: "length (bits a) < length (bits b)"
  shows "rets (bmpor a b) (\<lambda>r. bits r = map2 (\<and>) (bits b) (pad (length (bits b)) (bits a)))"
proof -
  have w: "(of_nat (length (bits a)) :: word_t) < of_nat (length (bits b))"
    using lt b(2) size_less_iff [of a b] by simp
  have ev: "bmpor a b = bitmapCopy a makeBitmap \<bind>
      (\<lambda>tmp. adjustSize tmp (of_nat (length (bits b))) \<bind> bmpand b)"
    using w a(1) b by (subst bmpor.simps) (simp add: bitmapSize_eq wf_bitmap_def less_not_sym)
  show ?thesis
    unfolding ev
  proof (rule padded_then [OF b(1) a _ b(2)])
    fix t
    assume "wf_bitmap t" "bits t = pad (length (bits b)) (bits a)"
    then show "rets (bmpand b t) (\<lambda>r. bits r = map2 (\<and>) (bits b) (pad (length (bits b)) (bits a)))"
      using c2_and_ok [OF b(1), of t] lt by (auto simp: bmpand_same b elim: rets_mono)
  qed (use lt in simp)
qed

end
