(* ===== verification/Bitmap_Literal.thy ===== *)
theory Bitmap_Literal
  imports Bitmap_Bool
begin

text \<open>
  The operations meant for uncompressed bitmaps: \<open>c0_and\<close> and \<open>c0_or\<close>, the broken
  \<open>c00_and\<close> and \<open>c00_or\<close>, and the single-bit updates. A bitmap is uncompressed when every
  stored word is a literal; then the stored words are the groups.
\<close>

definition uncompressed :: "bitmap \<Rightarrow> bool" where
  "uncompressed b \<longleftrightarrow> (\<forall>w\<in>set (stored b). \<not> is_fill w)"

lemma uncompressed_groups: "uncompressed b \<Longrightarrow> groups b = stored b"
  unfolding groups_def uncompressed_def literal_31 by (rule concat_groups_of_literals) simp

subsection \<open>Word by word\<close>

context wah_merge
begin

lemma literal_loop:
  assumes a: "wf_vec a" "uncompressed a" and b: "wf_vec b" "uncompressed b"
    and le: "unat (m_size a) = unat (m_size b)"
  shows "rets (for_loop 0 (unat (m_size a)) (\<lambda>i r. do {
      wi \<leftarrow> arr_get (m_vec a) i;
      wj \<leftarrow> arr_get (m_vec b) i;
      appendWord r (wop wi wj) }) makeBitmap)
    (\<lambda>r. wf_bitmap r \<and> anbits (active r) = 0 \<and> groups r = map2 wop (groups a) (groups b))"
proof -
  let ?I = "\<lambda>i r. wf_bitmap r \<and> anbits (active r) = 0 \<and> groups r = map2 wop (take i (stored a)) (take i (stored b))"
  have "rets (for_loop 0 (unat (m_size a)) (\<lambda>i r. do {
      wi \<leftarrow> arr_get (m_vec a) i;
      wj \<leftarrow> arr_get (m_vec b) i;
      appendWord r (wop wi wj) }) makeBitmap) (?I (unat (m_size a)))"
  proof (rule rets_for_loop [where I = ?I])
    show "?I 0 makeBitmap"
      by (simp add: makeBitmap_def wf_bitmap_def wf_vec_def wf_active_def groups_def stored_def)
    fix i r
    assume i: "i < unat (m_size a)" and I: "?I i r"
    have ib: "i < unat (m_size b)" using i le by simp
    have len: "i < length (stored a)" "i < length (stored b)"
      using i ib length_stored a(1) b(1) by simp_all
    then have "take_bit 31 (stored a ! i) = stored a ! i" "take_bit 31 (stored b ! i) = stored b ! i"
      using a(2) b(2) by (simp_all add: uncompressed_def literal_31 [symmetric])
    then have lit: "take_bit 31 (wop (stored a ! i) (stored b ! i)) = wop (stored a ! i) (stored b ! i)"
      by (rule op_literal)
    have "31 * (length (groups r) + 1) < 2 ^ 32"
      using I len i groups_bound [OF a(1)] size_le_groups [OF a(1)] by simp
    with I lit have "rets (appendWord r (wop (stored a ! i) (stored b ! i)))
        (grown r [wop (stored a ! i) (stored b ! i)])" by (intro grow_word) simp_all
    then show "rets (do { wi \<leftarrow> arr_get (m_vec a) i; wj \<leftarrow> arr_get (m_vec b) i; appendWord r (wop wi wj) }) (?I (Suc i))"
      using I len by (auto simp: stored_nth [OF a(1) i] stored_nth [OF b(1) ib] grown_def
        take_Suc_conv_app_nth map2_append elim!: rets_mono)
  qed simp
  moreover have "map2 wop (take (unat (m_size a)) (stored a)) (take (unat (m_size a)) (stored b)) =
      map2 wop (groups a) (groups b)"
    using length_stored [OF a(1)] length_stored [OF b(1)] a(2) b(2) le by (simp add: uncompressed_groups)
  ultimately show ?thesis by simp
qed

end

lemma same_size:
  assumes a: "wf_bitmap a" "uncompressed a" and b: "wf_bitmap b" "uncompressed b"
    and len: "length (bits a) = length (bits b)"
  shows "unat (m_size a) = unat (m_size b)"
proof -
  have "unat (anbits (active a)) < 31" "unat (anbits (active b)) < 31"
    using wf_activeD(1) a(1) b(1) by (simp_all add: wf_bitmap_def)
  then have "length (groups a) = length (groups b)" using len unfolding length_bits by presburger
  then show ?thesis using a b length_stored by (simp add: uncompressed_groups wf_bitmap_def)
qed

lemma c0_and_ok:
  assumes a: "wf_bitmap a" "uncompressed a" and b: "wf_bitmap b" "uncompressed b"
    and len: "length (bits a) = length (bits b)"
  shows "rets (c0_and a b) (\<lambda>r. wf_bitmap r \<and> bits r = map2 (\<and>) (bits a) (bits b))"
  unfolding c0_and_def
  using and_merge.literal_loop [of a b] same_size [OF assms] assms and_merge.merge_bits [OF a(1) b(1) len]
  by (auto simp: wf_bitmap_def intro!: rets_bind)

lemma c0_or_ok:
  assumes a: "wf_bitmap a" "uncompressed a" and b: "wf_bitmap b" "uncompressed b"
    and len: "length (bits a) = length (bits b)"
  shows "rets (c0_or a b) (\<lambda>r. wf_bitmap r \<and> bits r = map2 (\<or>) (bits a) (bits b))"
  unfolding c0_or_def
  using or_merge.literal_loop [of a b] same_size [OF assms] assms or_merge.merge_bits [OF a(1) b(1) len]
  by (auto simp: wf_bitmap_def intro!: rets_bind)

text \<open>\<open>c00_and\<close> and \<open>c00_or\<close> return a bitmap that has only the active bits of the first operand.\<close>

lemma c00_writes:
  assumes "n \<le> length u" and "n \<le> length v" and "n \<le> length t"
  shows "rets (for_loop 0 n (\<lambda>i t. do { x \<leftarrow> arr_get u i; y \<leftarrow> arr_get v i; arr_set t i (f x y) }) t)
    (\<lambda>t'. length t' = length t)"
proof (rule rets_for_loop [where I = "\<lambda>_ t'. length t' = length t"])
qed (use assms in simp_all)

lemma c00_bits:
  assumes "wf_vec a" and "wf_vec b" and "unat (m_size a) \<le> unat (m_size b)"
  shows "rets (c00_and a b) (\<lambda>r. bits r = active_bits a)" and "rets (c00_or a b) (\<lambda>r. bits r = active_bits a)"
proof -
  let ?n = "unat (m_size a)"
  have n: "?n \<le> length (m_vec a)" "?n \<le> length (m_vec b)" using assms by (simp_all add: wf_vec_def)
  have "?n < 2 ^ 30" using size_le_groups [OF assms(1)] groups_bound [OF assms(1)] by simp
  then have al: "?n \<le> length (palloc_words (m_size a))" by (simp add: palloc_words_def alloc_words_eq)
  have "bits (makeBitmap\<lparr>m_vec := v, active := act\<rparr>) = to_bits (unat (anbits act)) (aval act)" for v act
    by (simp add: bits_def groups_def stored_def active_bits_def makeBitmap_def)
  then show "rets (c00_and a b) (\<lambda>r. bits r = active_bits a)" "rets (c00_or a b) (\<lambda>r. bits r = active_bits a)"
    unfolding c00_and_def c00_or_def
    by (auto intro!: rets_bind [OF c00_writes [OF n al]] simp: active_bits_def)
qed

subsection \<open>Single bits\<close>

lemma to_bits_set:
  assumes "j < n" and "n \<le> LENGTH('a)"
  shows "to_bits n (w OR push_bit (n - Suc j) 1 :: 'a::len word) = (to_bits n w)[j := True]"
    and "to_bits n (w AND NOT (push_bit (n - Suc j) 1) :: 'a::len word) = (to_bits n w)[j := False]"
  using assms by (auto simp: list_eq_iff_nth_eq to_bits_nth nth_list_update bit_simps)

lemma single_bit_fits: "j < n \<Longrightarrow> take_bit n (push_bit (n - Suc j) 1 :: word_t) = push_bit (n - Suc j) 1"
  by (rule bit_word_eqI) (auto simp: bit_simps)

lemma group_bits_update:
  assumes "i < length gs" and "j < 31" and "to_bits 31 g = (to_bits 31 (gs ! i))[j := v]"
  shows "group_bits (gs[i := g]) = (group_bits gs)[31 * i + j := v]"
  using assms
proof (induction gs arbitrary: i)
  case (Cons h gs)
  then show ?case by (cases i) (simp_all add: list_update_append)
qed simp

text \<open>Where bit \<open>n\<close> of a bitmap of literals is kept.\<close>

lemma bit_position:
  assumes "wf_bitmap b" and "uncompressed b" and "unat n < length (bits b)"
  shows "unat (n div MAXBITS) = unat n div 31" and "unat (n mod MAXBITS) = unat n mod 31"
    and "n div MAXBITS < m_size b \<longleftrightarrow> unat n div 31 < length (stored b)"
    and "\<not> unat n div 31 < length (stored b) \<Longrightarrow> unat n = 31 * length (stored b) + unat n mod 31 \<and>
      unat n mod 31 < unat (anbits (active b))"
proof -
  show d: "unat (n div MAXBITS) = unat n div 31" "unat (n mod MAXBITS) = unat n mod 31"
    by (simp_all add: MAXBITS_def unat_div unat_mod)
  have "wf_vec b" "wf_active b" using assms(1) by (simp_all add: wf_bitmap_def)
  note len = length_stored [OF this(1)] and act = wf_activeD(1) [OF this(2)]
  show "n div MAXBITS < m_size b \<longleftrightarrow> unat n div 31 < length (stored b)"
    by (simp add: word_less_nat_alt d len)
  assume ge: "\<not> unat n div 31 < length (stored b)"
  have lt: "unat n < 31 * length (stored b) + unat (anbits (active b))"
    using assms(2,3) by (simp add: length_bits uncompressed_groups)
  have "unat n div 31 < Suc (length (stored b))" by (rule less_mult_imp_div_less) (use lt act in simp)
  with ge have eq: "unat n div 31 = length (stored b)" by simp
  moreover have "unat n = 31 * (unat n div 31) + unat n mod 31" by simp
  ultimately show "unat n = 31 * length (stored b) + unat n mod 31 \<and> unat n mod 31 < unat (anbits (active b))"
    using lt by linarith
qed

lemma unat_bit_shift:
  fixes m k :: word_t
  assumes "unat k < unat m" and "m < 32"
  shows "m - k - 1 < 32" and "unat (m - k - 1) = unat m - Suc (unat k)"
proof -
  have km: "k \<le> m" using assms(1) by (simp add: word_le_nat_alt)
  have "m - k \<noteq> 0" using assms(1) by auto
  then show u: "unat (m - k - 1) = unat m - Suc (unat k)"
    by (simp add: unat_pred unat_sub [OF km])
  show "m - k - 1 < 32" using assms(2) by (simp add: word_less_nat_alt u)
qed

lemma size_guard:
  fixes n :: word_t
  assumes "wf_bitmap b" and "unat n < length (bits b)" and "length (bits b) < 2 ^ 32"
  shows "bitmapSize b = Some (of_nat (length (bits b)))" and "n < of_nat (length (bits b))"
  using assms(1,2) unfolding word_less_nat_alt unat_of_nat_bits [OF assms(3)]
  by (simp_all add: bitmapSize_eq wf_bitmap_def)

lemma stored_update: "stored (b\<lparr>m_vec := (m_vec b)[i := x]\<rparr>) = (stored b)[i := x]"
  by (simp add: stored_def take_update_swap)

text \<open>An update of one word of an uncompressed bitmap by a literal.\<close>

lemma store_literal:
  assumes b: "wf_bitmap b" "uncompressed b" and i: "i < length (stored b)" and x: "take_bit 31 x = x"
  defines "b' \<equiv> b\<lparr>m_vec := (m_vec b)[i := x]\<rparr>"
  shows "wf_bitmap b'" and "uncompressed b'" and "bits b' = group_bits ((stored b)[i := x]) @ active_bits b"
proof -
  have st: "stored b' = (stored b)[i := x]" by (simp add: b'_def stored_update)
  then show un: "uncompressed b'"
    using b(2) x set_update_subset_insert [of "stored b" i x] by (auto simp: uncompressed_def literal_31)
  have gr: "groups b' = (stored b)[i := x]" using un st by (simp add: uncompressed_groups)
  then show "bits b' = group_bits ((stored b)[i := x]) @ active_bits b"
    by (simp add: bits_def active_bits_def b'_def)
  have "\<forall>w\<in>set (stored b'). groups_of w \<noteq> []" using un by (simp add: uncompressed_def groups_of_def)
  then show "wf_bitmap b'"
    using b gr by (simp add: wf_bitmap_def wf_vec_def uncompressed_groups wf_active_def b'_def)
qed

lemma store_active:
  assumes b: "wf_bitmap b" and x: "take_bit (unat (anbits (active b))) x = x"
  shows "wf_bitmap (set_active_val b x)" and "uncompressed (set_active_val b x) = uncompressed b"
    and "bits (set_active_val b x) = group_bits (groups b) @ to_bits (unat (anbits (active b))) x"
  using assms by (simp_all add: wf_bitmap_def wf_active_def uncompressed_def bits_def active_bits_def)

lemma setBitBitmap_ok:
  assumes b: "wf_bitmap b" "uncompressed b" "\<not> isCompressed b" and n: "unat n < length (bits b)"
    and cap: "length (bits b) < 2 ^ 32"
  shows "rets (setBitBitmap b n) (\<lambda>b'. wf_bitmap b' \<and> uncompressed b' \<and> bits b' = (bits b)[unat n := True])"
proof -
  note pos = bit_position [OF b(1,2) n] and sz = size_guard [OF b(1) n cap]
  let ?i = "unat n div 31" and ?j = "unat n mod 31"
  have wfv: "wf_vec b" and wfa: "wf_active b" using b(1) by (simp_all add: wf_bitmap_def)
  have eqn: "unat n = 31 * ?i + ?j" by simp
  show ?thesis
  proof (cases "?i < length (stored b)")
    case True
    have "unat (n mod MAXBITS) < unat MAXBITS" "MAXBITS < 32" unfolding pos(2) by (simp_all add: MAXBITS_def)
    note sh = unat_bit_shift [OF this]
    let ?w = "stored b ! ?i" and ?m = "push_bit (31 - Suc ?j) 1 :: word_t"
    have "take_bit 31 ?m = ?m" by (rule single_bit_fits) simp
    moreover have "take_bit 31 ?w = ?w" using b(2) True by (simp add: uncompressed_def literal_31)
    ultimately have lit: "take_bit 31 (?w OR ?m) = ?w OR ?m" by (simp add: take_bit_or)
    have "group_bits ((stored b)[?i := ?w OR ?m]) = (group_bits (stored b))[31 * ?i + ?j := True]"
      by (rule group_bits_update [OF True _ to_bits_set(1)]) simp_all
    moreover have "unat n < 31 * length (stored b)" using True by (simp add: div_less_iff_less_mult mult.commute)
    ultimately have "group_bits ((stored b)[?i := ?w OR ?m]) @ active_bits b = (bits b)[unat n := True]"
      using b(2) by (simp add: bits_def uncompressed_groups list_update_append)
    moreover have "setBitBitmap b n = Some (b\<lparr>m_vec := (m_vec b)[?i := ?w OR ?m]\<rparr>)"
      using True b(3) sz sh pos length_stored [OF wfv]
      by (simp add: setBitBitmap_def Let_def stored_def MAXBITS_def)
    ultimately show ?thesis using store_literal [OF b(1,2) True lit] by simp
  next
    case False
    note act = pos(4) [OF False] wf_activeD [OF wfa]
    have "unat (n mod MAXBITS) < unat (anbits (active b))" "anbits (active b) < 32"
      using act by (simp_all add: pos(2) word_less_nat_alt)
    note sh = unat_bit_shift [OF this]
    let ?k = "unat (anbits (active b))"
    let ?m = "push_bit (?k - Suc ?j) 1 :: word_t"
    have "take_bit ?k ?m = ?m" by (rule single_bit_fits) (use act in simp)
    then have lit: "take_bit ?k (aval (active b) OR ?m) = aval (active b) OR ?m" using act by (simp add: take_bit_or)
    have "to_bits ?k (aval (active b) OR ?m) = (active_bits b)[?j := True]"
      unfolding active_bits_def by (rule to_bits_set(1)) (use act in simp_all)
    moreover have "(bits b)[unat n := True] = group_bits (groups b) @ (active_bits b)[?j := True]"
      using b(2) by (subst conjunct1 [OF act(1)]) (simp add: bits_def uncompressed_groups list_update_append)
    moreover have "setBitBitmap b n = Some (set_active_val b (aval (active b) OR ?m))"
      using False b(3) sz sh pos by (simp add: setBitBitmap_def Let_def)
    ultimately show ?thesis using store_active [OF b(1) lit] b(2) by simp
  qed
qed

text \<open>\<open>setBitZBitmap\<close> on a stored word clears the bit before the one asked for, if there is one.\<close>

lemma setBitZBitmap_stored:
  assumes b: "wf_bitmap b" "uncompressed b" "\<not> isCompressed b" and n: "unat n < length (bits b)"
    and cap: "length (bits b) < 2 ^ 32" and st: "unat n div 31 < length (stored b)"
  shows "rets (setBitZBitmap b n) (\<lambda>b'. bits b' = (if unat n mod 31 = 0 then bits b else (bits b)[unat n - 1 := False]))"
proof -
  note pos = bit_position [OF b(1,2) n] and sz = size_guard [OF b(1) n cap]
  let ?i = "unat n div 31" and ?j = "unat n mod 31"
  have wfv: "wf_vec b" using b(1) by (simp add: wf_bitmap_def)
  have "n mod MAXBITS \<le> 31" unfolding word_le_nat_alt pos(2) by (simp add: less_imp_le)
  then have sh: "unat (31 - n mod MAXBITS) = 31 - ?j" "31 - n mod MAXBITS < 32"
    using pos(2) by (simp_all add: unat_sub word_less_nat_alt)
  let ?w = "stored b ! ?i" and ?m = "push_bit (31 - ?j) 1 :: word_t"
  have w31: "take_bit 31 ?w = ?w" using b(2) st by (simp add: uncompressed_def literal_31 [symmetric])
  have ev: "setBitZBitmap b n = Some (b\<lparr>m_vec := (m_vec b)[?i := ?w AND NOT ?m]\<rparr>)"
    using st b(3) sz sh pos length_stored [OF wfv] by (simp add: setBitZBitmap_def Let_def stored_def)
  have below: "bit ?w k \<Longrightarrow> k < 31" for k using w31 by (metis bit_take_bit_iff)
  then have lit: "take_bit 31 (?w AND NOT ?m) = ?w AND NOT ?m"
    by (intro bit_word_eqI) (auto simp: bit_take_bit_iff bit_and_iff)
  have "group_bits ((stored b)[?i := ?w AND NOT ?m]) =
      (if ?j = 0 then group_bits (stored b) else (group_bits (stored b))[31 * ?i + (?j - 1) := False])"
  proof (cases "?j = 0")
    case True
    have "bit ?w k \<Longrightarrow> \<not> bit ?m k" for k
      using below [of k] unfolding bit_push_bit_iff True by simp
    then have "?w AND NOT ?m = ?w" by (intro bit_word_eqI) (auto simp: bit_and_iff bit_not_iff)
    with True show ?thesis by simp
  next
    case False
    then have "31 - ?j = 31 - Suc (?j - 1)" by simp
    then have "to_bits 31 (?w AND NOT ?m) = (to_bits 31 ?w)[?j - 1 := False]"
      by (simp only:) (rule to_bits_set(2); simp)
    then show ?thesis using group_bits_update [OF st, of "?j - 1"] False by simp
  qed
  moreover have "31 * ?i + (?j - 1) = unat n - 1" if "?j \<noteq> 0" using that by simp
  moreover have "unat n - 1 < 31 * length (stored b)" if "?j \<noteq> 0" using st that by linarith
  ultimately show ?thesis
    using store_literal(3) [OF b(1,2) st lit] b(2) ev
    by (simp add: bits_def uncompressed_groups list_update_append)
qed

subsection \<open>Random bitmaps\<close>

lemma filter_update_le: "length (filter id (xs[i := True])) \<le> Suc (length (filter id xs))"
proof (induction xs arbitrary: i)
  case (Cons x xs)
  then show ?case by (cases i) (auto simp: le_SucI)
qed simp

definition rand_inv :: "word_t \<Rightarrow> word_t \<Rightarrow> word_t \<Rightarrow> bitmap \<Rightarrow> bool" where
  "rand_inv nb i cnt b \<longleftrightarrow> wf_bitmap b \<and> uncompressed b \<and> \<not> isCompressed b \<and> length (bits b) = unat nb \<and>
     i < nb \<and> length (filter id (bits b)) \<le> unat cnt"

lemma setBitBitmap_flag: "setBitBitmap b n = Some b' \<Longrightarrow> isCompressed b' = isCompressed b"
  by (auto simp: setBitBitmap_def Let_def Option.bind_eq_Some_conv split: if_splits)

lemma rand_inv_step:
  assumes "rand_inv nb i cnt b" and "cnt < nc"
  shows "rets (setBitBitmap b i) (rand_inv nb i (cnt + 1))"
proof -
  have inv: "wf_bitmap b" "uncompressed b" "\<not> isCompressed b" "length (bits b) = unat nb"
    "unat i < length (bits b)" "length (filter id (bits b)) \<le> unat cnt"
    using assms(1) by (simp_all add: rand_inv_def word_less_nat_alt)
  have "length (bits b) < 2 ^ 32" using inv(4) unat32_less [of nb] by simp
  from setBitBitmap_ok [OF inv(1-3,5) this] obtain b' where b': "setBitBitmap b i = Some b'"
      "wf_bitmap b'" "uncompressed b'" "bits b' = (bits b)[unat i := True]"
    by (auto simp: rets_def)
  have "unat (cnt + 1) = Suc (unat cnt)"
    using assms(2) unat32_less [of nc] by (intro unat_inc_no_wrap) (simp add: word_less_nat_alt)
  with b' inv assms(1) filter_update_le [of "bits b" "unat i"] show ?thesis
    by (simp add: rand_inv_def setBitBitmap_flag)
qed

lemma rand_inv_next:
  assumes "rand_inv nb i cnt b"
  shows "rand_inv nb (if nb \<le> i + 1 then 0 else i + 1) cnt b"
  using assms by (auto simp: rand_inv_def not_le word_less_nat_alt)

text \<open>
  The loop returns when the generator keeps producing small numbers: induction on the bits
  still to be set, and within it on the distance to the next small number.
\<close>

lemma rand_loop_ok:
  assumes coin: "\<forall>k. \<exists>k'\<ge>k. coin k'" and "rand_inv nb i cnt b" and "cnt \<le> nc"
  shows "rets (rand_loop coin nb nc k b i cnt) (\<lambda>b'. \<exists>i. rand_inv nb i nc b')"
  using assms(2,3)
proof (induction "unat nc - unat cnt" arbitrary: k b i cnt rule: less_induct)
  case less
  have hit: "rets (rand_loop coin nb nc k b i cnt) (\<lambda>b'. \<exists>i. rand_inv nb i nc b')"
    if lt: "cnt < nc" and c: "coin k" and inv: "rand_inv nb i cnt b" for k i
  proof -
    obtain b' where b': "setBitBitmap b i = Some b'" "rand_inv nb i (cnt + 1) b'"
      using rand_inv_step [OF inv lt] by (auto simp: rets_def)
    have u: "unat (cnt + 1) = Suc (unat cnt)"
      using lt unat32_less [of nc] by (intro unat_inc_no_wrap) (simp add: word_less_nat_alt)
    have "rets (rand_loop coin nb nc (Suc k) b' (if nb \<le> i + 1 then 0 else i + 1) (cnt + 1))
        (\<lambda>b'. \<exists>i. rand_inv nb i nc b')"
      by (rule less.hyps [OF _ rand_inv_next [OF b'(2)]])
        (use lt u in \<open>simp_all add: word_less_nat_alt word_le_nat_alt\<close>)
    then show ?thesis using lt c b'(1) by (subst rand_loop.simps) simp
  qed
  show ?case
  proof (cases "cnt < nc")
    case True
    obtain k' where k': "k \<le> k'" "coin k'" using coin by blast
    from k'(1) less.prems(1) show ?thesis
    proof (induction k arbitrary: i rule: inc_induct)
      case base
      then show ?case using hit True k'(2) by blast
    next
      case (step k)
      have "rets (rand_loop coin nb nc (Suc k) b (if nb \<le> i + 1 then 0 else i + 1) cnt)
          (\<lambda>b'. \<exists>i. rand_inv nb i nc b')"
        by (rule step.IH [OF rand_inv_next [OF step.prems]])
      then have "\<not> coin k \<Longrightarrow> ?case" using True by (simp add: rand_loop.simps [of coin nb nc k])
      then show ?case using hit [OF True _ step.prems] by blast
    qed
  next
    case False
    then show ?thesis using less.prems by (subst rand_loop.simps) auto
  qed
qed

lemma randBitmap_ok:
  assumes "\<forall>k. \<exists>k'\<ge>k. coin k'" and "0 < nb"
  shows "rets (randBitmap coin True nc b nb) (\<lambda>b'. wf_bitmap b' \<and> uncompressed b' \<and>
    length (bits b') = unat nb \<and> length (filter id (bits b')) \<le> unat nc)"
proof -
  let ?nw = "nb div MAXBITS"
  let ?b = "b\<lparr>m_vec := palloc_words ?nw, nbits := ?nw * MAXBITS, m_size := ?nw,
                  active := \<lparr>aval = 0, anbits = nb mod MAXBITS\<rparr>, isCompressed := False\<rparr>"
  have u: "unat ?nw = unat nb div 31" "unat (nb mod MAXBITS) = unat nb mod 31"
    by (simp_all add: MAXBITS_def unat_div unat_mod)
  have lt: "unat nb < 2 ^ 32" by (rule unat32_less)
  then have "unat ?nw < 2 ^ 30" unfolding u(1) by (simp add: div_less_iff_less_mult)
  then have pa: "palloc_words ?nw = replicate (unat ?nw) 0" by (simp add: palloc_words_def alloc_words_eq)
  then have st: "stored ?b = replicate (unat ?nw) 0" by (simp add: stored_def)
  then have un: "uncompressed ?b" by (simp add: uncompressed_def is_fill_def)
  then have gr: "groups ?b = replicate (unat ?nw) 0" using st by (simp add: uncompressed_groups)
  have "unat (?nw * MAXBITS) = unat nb div 31 * 31"
    using lt u(1) by (subst unat_mult_no_wrap) (simp_all add: MAXBITS_def)
  moreover have "\<forall>w\<in>set (stored ?b). groups_of w \<noteq> []" using un by (simp add: uncompressed_def groups_of_def)
  ultimately have "wf_vec ?b" using gr pa u(1) by (simp add: wf_vec_def)
  moreover have "wf_active ?b" using u(2) by (simp add: wf_active_def word_less_nat_alt)
  moreover have bits: "bits ?b = replicate (unat nb) False"
  proof -
    have "group_bits (replicate m 0) = replicate (31 * m) False" for m
      using group_bits_fill [of m 0] by (simp add: fill_group_def)
    then show ?thesis by (simp add: bits_def gr active_bits_def u flip: replicate_add)
  qed
  ultimately have "rand_inv nb 0 0 ?b" using un assms(2) by (simp add: rand_inv_def wf_bitmap_def)
  from rand_loop_ok [OF assms(1) this, of nc 0] show ?thesis
    using assms(2) by (auto simp: randBitmap_def Let_def rand_inv_def elim!: rets_mono)
qed

end
