(* ===== verification/Bitmap_Props.thy ===== *)
theory Bitmap_Props
  imports Bitmap_Literal
begin

text \<open>
  The properties of the bitmap library, stated on the abstraction \<open>bits\<close>: the list of the
  bits a bitmap holds, in order. Each theorem says that the operation returns (\<open>rets\<close>: no
  access outside an allocation, no undefined shift, no endless loop) and what it returns.
\<close>

subsection \<open>Sample bitmaps\<close>

definition sample_a :: bitmap where
  "sample_a = \<lparr>isCompressed = False, nbits = 93, m_vec = [HEADER_1F OR 2, 5, 0], m_size = 2,
     active = \<lparr>aval = 2, anbits = 3\<rparr>\<rparr>"

definition sample_b :: bitmap where
  "sample_b = \<lparr>isCompressed = False, nbits = 31, m_vec = [9], m_size = 1, active = \<lparr>aval = 0, anbits = 0\<rparr>\<rparr>"

lemma sample_wf: "wf_bitmap sample_a" "wf_bitmap sample_b"
  by code_simp+

lemma sample_sizes: "length (bits sample_a) = 96" "length (bits sample_b) = 31"
  by code_simp+

lemma sample_fields [simp]: "anbits (active sample_a) = 3" "anbits (active sample_b) = 0"
  "m_size sample_a = 2" "isCompressed sample_b = False"
  by (simp_all add: sample_a_def sample_b_def)

lemma sample_literal: "uncompressed sample_b"
  by code_simp

subsection \<open>Appending\<close>

text \<open>
  C19: \<open>appendBits\<close> appends \<open>n\<close> copies of a bit to any well-formed bitmap whose size stays
  below \<open>2 ^ 32\<close>, whatever the state of the active word and of the last fill.
\<close>

theorem appendBits_correct:
  assumes "wf_bitmap b" and "val = 0 \<or> val = 1" and "length (bits b) + unat n < 2 ^ 32"
  shows "rets (appendBits b val n) (\<lambda>b'. wf_bitmap b' \<and> bits b' = bits b @ replicate (unat n) (val = 1))"
  using appendBits_ok [OF assms] by (auto elim: rets_mono)

theorem appendBits_correct_witness:
  "rets (appendBits sample_a 1 70) (\<lambda>b'. wf_bitmap b' \<and> bits b' = bits sample_a @ replicate 70 True)"
  using appendBits_correct [of sample_a 1 70] by (simp add: sample_wf sample_sizes)

text \<open>
  \<open>appendWord\<close> appends the bits a code word stands for, a run of a fill or the 31 bits of
  a literal, also when it straddles the active word; the number of active bits stays the same.
\<close>

theorem appendWord_correct:
  assumes "wf_bitmap b" and "groups_of w \<noteq> []" and "31 * (length (groups b) + length (groups_of w)) < 2 ^ 32"
  shows "rets (appendWord b w) (\<lambda>b'. wf_bitmap b' \<and> bits b' = bits b @ group_bits (groups_of w) \<and>
    anbits (active b') = anbits (active b))"
  using appendWord_ok [OF assms] by (auto elim: rets_mono)

theorem appendWord_correct_witness:
  "rets (appendWord sample_a (HEADER_1F OR 4)) (\<lambda>b'. wf_bitmap b' \<and>
     bits b' = bits sample_a @ group_bits (groups_of (HEADER_1F OR 4)) \<and> anbits (active b') = anbits (active sample_a))"
proof -
  have "length (groups_of (HEADER_1F OR 4)) = 4" "length (groups sample_a) = 3" by code_simp+
  moreover from this have "groups_of (HEADER_1F OR 4) \<noteq> []" by auto
  ultimately show ?thesis using appendWord_correct [of sample_a "HEADER_1F OR 4"] sample_wf(1) by simp
qed

text \<open>\<open>appendOneBit\<close> appends one bit.\<close>

theorem appendOneBit_correct:
  assumes "wf_bitmap b" and "val = 0 \<or> val = 1" and "length (bits b) + 1 < 2 ^ 32"
  shows "rets (appendOneBit b val) (\<lambda>b'. wf_bitmap b' \<and> bits b' = bits b @ [val = 1])"
  using appendOneBit_ok [OF assms] by (auto elim: rets_mono)

theorem appendOneBit_correct_witness:
  "rets (appendOneBit sample_b 1) (\<lambda>b'. wf_bitmap b' \<and> bits b' = bits sample_b @ [True])"
  using appendOneBit_correct [of sample_b 1] by (simp add: sample_wf sample_sizes)

text \<open>
  \<open>bitmapSize\<close>, which takes the smaller of the recorded and the counted number of bits,
  is the number of bits.
\<close>

theorem bitmapSize_correct:
  assumes "wf_bitmap b"
  shows "bitmapSize b = Some (of_nat (length (bits b)))"
  using assms by (simp add: bitmapSize_eq wf_bitmap_def)

theorem bitmapSize_correct_witness: "bitmapSize sample_a = Some 96"
  using bitmapSize_correct [of sample_a] by (simp add: sample_wf sample_sizes)

text \<open>
  \<open>appendBitmap\<close> concatenates when the first operand has no active bits.
\<close>

theorem appendBitmap_correct:
  assumes "wf_bitmap b" and "wf_bitmap a" and "length (bits b) + length (bits a) < 2 ^ 32" and "anbits (active b) = 0"
  shows "rets (appendBitmap b a) (\<lambda>b'. wf_bitmap b' \<and> bits b' = bits b @ bits a)"
  by (rule appendBitmap_aligned_ok [OF assms])

theorem appendBitmap_correct_witness:
  "rets (appendBitmap sample_b sample_a) (\<lambda>b'. wf_bitmap b' \<and> bits b' = bits sample_b @ bits sample_a)"
  using appendBitmap_correct [OF sample_wf(2,1)] by (simp add: sample_sizes)

text \<open>
  C26: \<open>appendBitmap\<close> loses bits when the first operand has active bits and the second has
  none: the active bits left over from the last word are overwritten, so the result lacks as
  many bits at its end as the first operand had active.
\<close>

theorem appendBitmap_truncates:
  assumes "wf_bitmap b" and "wf_bitmap a" and "length (bits b) + length (bits a) < 2 ^ 32" and "anbits (active a) = 0"
  shows "rets (appendBitmap b a) (\<lambda>b'. bits b' =
    take (length (bits b) + length (bits a) - unat (anbits (active b))) (bits b @ bits a))"
  by (rule appendBitmap_truncates_ok [OF assms])

theorem appendBitmap_truncates_witness:
  "rets (appendBitmap sample_a sample_b) (\<lambda>b'. bits b' = take 124 (bits sample_a @ bits sample_b))"
proof -
  have "take (length (bits sample_a) + length (bits sample_b) - unat (anbits (active sample_a))) = (take 124 :: bool list \<Rightarrow> _)"
    by (simp add: sample_sizes)
  then show ?thesis using appendBitmap_truncates [OF sample_wf] by (simp only: sample_sizes sample_fields) simp
qed

subsection \<open>Compression\<close>



text \<open>
  The compressed form is determined by the bits: two well-formed bitmaps with the same
  groups compress to the same stored words, however they were built.
\<close>

theorem compress_unique:
  assumes "wf_bitmap a" and "wf_bitmap b" and "groups a = groups b"
  shows "map_option stored (compress a) = map_option stored (compress b) \<and> compress a \<noteq> None"
proof -
  obtain a' b' where "compress a = Some a'" "compress b = Some b'" "wah_canonical (stored a')"
      "wah_canonical (stored b')" "groups a' = groups b'"
    using compress_ok [OF assms(1)] compress_ok [OF assms(2)] assms(3) by (auto simp: rets_def)
  then show ?thesis using canonical_unique [of "stored a'" "stored b'"] by (simp add: groups_def)
qed

theorem compress_unique_witness:
  "map_option stored (compress sample_a) = map_option stored (compress
     (sample_a\<lparr>m_vec := [ALLONES, HEADER_1F OR 1, 5], m_size := 3\<rparr>)) \<and> compress sample_a \<noteq> None"
proof (rule compress_unique)
  show "wf_bitmap (sample_a\<lparr>m_vec := [ALLONES, HEADER_1F OR 1, 5], m_size := 3\<rparr>)"
    "groups sample_a = groups (sample_a\<lparr>m_vec := [ALLONES, HEADER_1F OR 1, 5], m_size := 3\<rparr>)" by code_simp+
qed (rule sample_wf)



subsection \<open>Boolean operations\<close>

text \<open>
  C2: \<open>bmpand\<close> returns, for operands of any two sizes, the intersection of the operands with
  the shorter one padded by zeros.
\<close>

theorem bmpand_correct:
  assumes "wf_bitmap a" and "length (bits a) < 2 ^ 32" and "wf_bitmap b" and "length (bits b) < 2 ^ 32"
  shows "rets (bmpand a b) (\<lambda>r. wf_bitmap r \<and> bits r = map2 (\<and>)
    (pad (max (length (bits a)) (length (bits b))) (bits a)) (pad (max (length (bits a)) (length (bits b))) (bits b)))"
  by (rule bmpand_ok [OF assms])

theorem bmpand_correct_witness:
  "rets (bmpand sample_b sample_a) (\<lambda>r. wf_bitmap r \<and> bits r = map2 (\<and>) (pad 96 (bits sample_b)) (pad 96 (bits sample_a)))"
  using bmpand_correct [OF sample_wf(2) _ sample_wf(1)] by (simp add: sample_sizes)

text \<open>
  C23: \<open>bmpor\<close> returns the union when the second operand is not longer than the first.
\<close>

theorem bmpor_correct:
  assumes "wf_bitmap a" and "length (bits a) < 2 ^ 32" and "wf_bitmap b" and "length (bits b) \<le> length (bits a)"
  shows "rets (bmpor a b) (\<lambda>r. wf_bitmap r \<and> bits r = map2 (\<or>) (bits a) (pad (length (bits a)) (bits b)))"
  by (rule bmpor_ok [OF assms])

theorem bmpor_correct_witness:
  "rets (bmpor sample_a sample_b) (\<lambda>r. wf_bitmap r \<and> bits r = map2 (\<or>) (bits sample_a) (pad 96 (bits sample_b)))"
  using bmpor_correct [OF sample_wf(1) _ sample_wf(2)] by (simp add: sample_sizes)

text \<open>
  C24: when the second operand of \<open>bmpor\<close> is the longer one the result is the intersection,
  not the union: that branch calls \<open>bmpand\<close>.
\<close>

theorem bmpor_intersects:
  assumes "wf_bitmap a" and "wf_bitmap b" and "length (bits b) < 2 ^ 32" and "length (bits a) < length (bits b)"
  shows "rets (bmpor a b) (\<lambda>r. bits r = map2 (\<and>) (bits b) (pad (length (bits b)) (bits a)))"
  by (rule bmpor_is_and [OF assms])

theorem bmpor_intersects_witness:
  "rets (bmpor sample_b sample_a) (\<lambda>r. bits r = map2 (\<and>) (bits sample_a) (pad 96 (bits sample_b)))"
  using bmpor_intersects [OF sample_wf(2,1)] by (simp add: sample_sizes)

text \<open>
  C25: on uncompressed operands of one size, the word-by-word \<open>c0_and\<close> and \<open>c0_or\<close> agree with
  the run-length merges \<open>c2_and\<close> and \<open>c2_or\<close>, and all of them return.
\<close>

theorem c0_agrees_c2:
  assumes "wf_bitmap a" and "uncompressed a" and "wf_bitmap b" and "uncompressed b"
    and "length (bits a) = length (bits b)"
  shows "map_option bits (c0_and a b) = map_option bits (c2_and a b) \<and>
    map_option bits (c0_or a b) = map_option bits (c2_or a b) \<and> c0_and a b \<noteq> None \<and> c0_or a b \<noteq> None"
  using c0_and_ok [OF assms] c0_or_ok [OF assms] c2_and_ok [OF assms(1,3,5)] c2_or_ok [OF assms(1,3,5)]
  by (auto simp: rets_def)

theorem c0_agrees_c2_witness:
  "map_option bits (c0_and sample_b sample_b) = map_option bits (c2_and sample_b sample_b) \<and>
    map_option bits (c0_or sample_b sample_b) = map_option bits (c2_or sample_b sample_b) \<and>
    c0_and sample_b sample_b \<noteq> None \<and> c0_or sample_b sample_b \<noteq> None"
  by (rule c0_agrees_c2) (simp_all add: sample_wf sample_literal)

text \<open>
  \<open>c00_and\<close> and \<open>c00_or\<close> drop every stored word: their result has only the active bits
  of the first operand.
\<close>

theorem c00_drops_words:
  assumes "wf_bitmap a" and "wf_bitmap b" and "m_size a \<le> m_size b"
  shows "rets (c00_and a b) (\<lambda>r. bits r = active_bits a) \<and> rets (c00_or a b) (\<lambda>r. bits r = active_bits a)"
  using c00_bits [of a b] assms by (simp add: wf_bitmap_def word_le_nat_alt)

theorem c00_drops_words_witness:
  "rets (c00_and sample_b sample_b) (\<lambda>r. bits r = []) \<and> rets (c00_or sample_b sample_b) (\<lambda>r. bits r = [])"
  using c00_drops_words [OF sample_wf(2,2)] by (simp add: active_bits_def)

subsection \<open>Single bits\<close>

text \<open>\<open>setBitBitmap\<close> sets the bit at the given position and no other.\<close>

theorem setBitBitmap_correct:
  assumes "wf_bitmap b" and "uncompressed b" and "\<not> isCompressed b" and "unat n < length (bits b)"
    and "length (bits b) < 2 ^ 32"
  shows "rets (setBitBitmap b n) (\<lambda>b'. wf_bitmap b' \<and> bits b' = (bits b)[unat n := True])"
  using setBitBitmap_ok [OF assms] by (auto elim: rets_mono)

theorem setBitBitmap_correct_witness:
  "rets (setBitBitmap sample_b 3) (\<lambda>b'. wf_bitmap b' \<and> bits b' = (bits sample_b)[3 := True])"
  using setBitBitmap_correct [OF sample_wf(2) sample_literal, of 3] by (simp add: sample_sizes)

text \<open>
  \<open>setBitZBitmap\<close> on a stored word clears the bit before the one asked for, and none when
  the position is the first of its word.
\<close>

theorem setBitZBitmap_off_by_one:
  assumes "wf_bitmap b" and "uncompressed b" and "\<not> isCompressed b" and "unat n < length (bits b)"
    and "length (bits b) < 2 ^ 32" and "unat n div 31 < length (stored b)"
  shows "rets (setBitZBitmap b n)
    (\<lambda>b'. bits b' = (if unat n mod 31 = 0 then bits b else (bits b)[unat n - 1 := False]))"
  by (rule setBitZBitmap_stored [OF assms])

theorem setBitZBitmap_off_by_one_witness:
  "rets (setBitZBitmap sample_b 28) (\<lambda>b'. bits b' = (bits sample_b)[27 := False])"
proof -
  have "length (stored sample_b) = 1" by code_simp
  then show ?thesis
    using setBitZBitmap_off_by_one [OF sample_wf(2) sample_literal, of 28] by (simp add: sample_sizes)
qed

text \<open>
  \<open>randBitmap\<close> returns if the generator never stops producing numbers below the
  threshold; the result has \<open>nb\<close> bits of which at most \<open>nc\<close> are ones.
\<close>

theorem randBitmap_returns:
  assumes "\<forall>k. \<exists>k'\<ge>k. coin k'" and "0 < nb"
  shows "rets (randBitmap coin True nc b nb) (\<lambda>b'. wf_bitmap b' \<and> length (bits b') = unat nb \<and>
    length (filter id (bits b')) \<le> unat nc)"
  by (rule rets_mono [OF randBitmap_ok [OF assms]]) simp

theorem randBitmap_returns_witness:
  "rets (randBitmap (\<lambda>k. even k) True 5 makeBitmap 40) (\<lambda>b'. wf_bitmap b' \<and> length (bits b') = 40 \<and>
    length (filter id (bits b')) \<le> 5)"
proof -
  have "\<exists>k'\<ge>k. even k'" for k :: nat by (rule exI [of _ "2 * k"]) simp
  then show ?thesis using randBitmap_returns [of even 40 5 makeBitmap] by simp
qed

end
