(* ===== verification/Bytes.thy ===== *)
theory Bytes
  imports Prelude
begin

text \<open>
  Memory blocks as byte lists: reading and writing a range, and little-endian words in them.
  The laws say what a read sees after a write at the same or at a disjoint place; the page
  component rests on them alone.
\<close>

type_synonym byte = "8 word"

text \<open>The size of a disk block (\<open>postgres.h\<close>).\<close>

definition BLCKSZ :: nat where "BLCKSZ = 8192"

definition rd :: "byte list \<Rightarrow> nat \<Rightarrow> nat \<Rightarrow> byte list" where
  "rd p o1 n = take n (drop o1 p)"

definition wr :: "byte list \<Rightarrow> nat \<Rightarrow> byte list \<Rightarrow> byte list" where
  "wr p o1 bs = take o1 p @ bs @ drop (o1 + length bs) p"

text \<open>\<open>memmove\<close>: the source range is read before the target is written, so they may overlap.\<close>

definition memmove :: "byte list \<Rightarrow> nat \<Rightarrow> byte list \<Rightarrow> byte list option" where
  "memmove p o1 bs = (if o1 + length bs \<le> length p then Some (wr p o1 bs) else None)"

definition rd_opt :: "byte list \<Rightarrow> nat \<Rightarrow> nat \<Rightarrow> byte list option" where
  "rd_opt p o1 n = (if o1 + n \<le> length p then Some (rd p o1 n) else None)"

lemma length_rd: "o1 + n \<le> length p \<Longrightarrow> length (rd p o1 n) = n"
  by (simp add: rd_def)

lemma length_wr: "o1 + length bs \<le> length p \<Longrightarrow> length (wr p o1 bs) = length p"
  by (simp add: wr_def)

lemma rd_wr_same: "o1 + length bs \<le> length p \<Longrightarrow> n = length bs \<Longrightarrow> rd (wr p o1 bs) o1 n = bs"
  by (simp add: rd_def wr_def)

lemma rd_wr_before:
  assumes "o2 + n \<le> o1" and "o1 + length bs \<le> length p"
  shows "rd (wr p o1 bs) o2 n = rd p o2 n"
proof -
  have "drop o2 (wr p o1 bs) = take (o1 - o2) (drop o2 p) @ bs @ drop (o1 + length bs) p"
    using assms by (simp add: wr_def drop_take)
  then show ?thesis using assms by (simp add: rd_def min_absorb1)
qed

lemma rd_wr_after:
  assumes "o1 + length bs \<le> o2" and "o1 + length bs \<le> length p"
  shows "rd (wr p o1 bs) o2 n = rd p o2 n"
proof -
  have "drop (o2 - o1 - length bs) (drop (o1 + length bs) p) = drop o2 p" using assms by simp
  moreover have "drop o2 (wr p o1 bs) = drop (o2 - o1 - length bs) (drop (o1 + length bs) p)"
    using assms by (simp add: wr_def)
  ultimately show ?thesis by (simp add: rd_def)
qed

lemmas rd_wr = rd_wr_same rd_wr_before rd_wr_after

text \<open>A range read as the concatenation of two.\<close>

lemma rd_split: "rd p o1 (m + n) = rd p o1 m @ rd p (o1 + m) n"
  by (simp add: rd_def take_add add.commute)

subsection \<open>Little-endian words\<close>

primrec le_bytes :: "nat \<Rightarrow> 'a::len word \<Rightarrow> byte list" where
  "le_bytes 0 w = []"
| "le_bytes (Suc n) w = ucast w # le_bytes n (drop_bit 8 w)"

primrec le_word :: "byte list \<Rightarrow> 'a::len word" where
  "le_word [] = 0"
| "le_word (b # bs) = ucast b OR push_bit 8 (le_word bs)"

lemma length_le_bytes [simp]: "length (le_bytes n w) = n"
  by (induction n arbitrary: w) auto

lemma le_word_le_bytes: "(le_word (le_bytes n w) :: 'a::len word) = take_bit (8 * n) w"
proof (induction n arbitrary: w)
  case (Suc n)
  show ?case
  proof (rule bit_word_eqI)
    fix i
    assume "i < LENGTH('a)"
    then show "bit (le_word (le_bytes (Suc n) w) :: 'a word) i = bit (take_bit (8 * Suc n) w) i"
      by (cases "i < 8") (auto simp: Suc bit_simps)
  qed
qed simp

lemma le_word_16 [simp]: "le_word (le_bytes 2 (w :: 16 word)) = w"
  and le_word_32 [simp]: "le_word (le_bytes 4 (v :: 32 word)) = v"
  by (simp_all add: le_word_le_bytes take_bit_word_eq_self)

end
