(* ===== verification/QSort.thy ===== *)
theory QSort
  imports Prelude "HOL-Library.Multiset"
begin

text \<open>
  \<open>src/psql-test/src/backend/lib/qsort.c\<close>: the sort used for line pointers. The array of
  \<open>nmemb\<close> elements of \<open>size\<close> bytes each is a list, a pointer into it an index, the byte loop
  \<open>SWAP\<close> the exchange of two elements. \<open>compar\<close> is a parameter, as in the C code; the
  theorems ask of it what \<open>qsort\<close> documents: that it is a consistent total order.
\<close>

subsection \<open>The code\<close>

definition MTHRESH :: nat where "MTHRESH = 6"
definition THRESH :: nat where "THRESH = 4"

type_synonym 'a compar = "'a \<Rightarrow> 'a \<Rightarrow> int"

definition SWAP :: "'a list \<Rightarrow> nat \<Rightarrow> nat \<Rightarrow> 'a list" where
  "SWAP xs a b = xs[a := xs ! b, b := xs ! a]"

text \<open>\<open>for (t2 = t1; (t2 -= size) >= bot && compar(t1, t2) < 0;); t2 += size\<close>\<close>

primrec ins_pos :: "'a compar \<Rightarrow> 'a list \<Rightarrow> nat \<Rightarrow> nat \<Rightarrow> nat" where
  "ins_pos compar xs t1 0 = 0"
| "ins_pos compar xs t1 (Suc t2) = (if compar (xs ! t1) (xs ! t2) < 0 then ins_pos compar xs t1 t2 else Suc t2)"

text \<open>Element \<open>t1\<close> goes to index \<open>t2\<close>; the elements in between move up by one.\<close>

definition bubble :: "'a list \<Rightarrow> nat \<Rightarrow> nat \<Rightarrow> 'a list" where
  "bubble xs t1 t2 = take t2 xs @ [xs ! t1] @ drop t2 (take t1 xs) @ drop (Suc t1) xs"

definition insertion_step :: "'a compar \<Rightarrow> nat \<Rightarrow> 'a list \<Rightarrow> 'a list" where
  "insertion_step compar t1 xs =
     (let t2 = ins_pos compar xs t1 t1 in if t1 \<noteq> t2 then bubble xs t1 t2 else xs)"

definition insertion_sort :: "'a compar \<Rightarrow> 'a list \<Rightarrow> 'a list" where
  "insertion_sort compar xs = fold (insertion_step compar) [1 ..< length xs] xs"

definition SORT :: "'a compar \<Rightarrow> 'a list \<Rightarrow> 'a list" where
  "SORT compar xs =
     (if 1 < length xs then
        if length xs = 2 then if compar (xs ! 1) (xs ! 0) < 0 then SWAP xs 1 0 else xs
        else insertion_sort compar xs
      else xs)"

text \<open>The choice of the pivot: the median of three is brought to the middle.\<close>

definition median :: "'a compar \<Rightarrow> 'a list \<Rightarrow> 'a list" where
  "median compar xs =
     (let mid = length xs div 2; tp = length xs - 1;
          n1 = compar (xs ! 0) (xs ! mid); n2 = compar (xs ! mid) (xs ! tp);
          t1 = (if n1 < 0 \<and> 0 < n2 then if compar (xs ! 0) (xs ! tp) < 0 then tp else 0
                else if 0 < n1 \<and> n2 < 0 then if 0 < compar (xs ! 0) (xs ! tp) then tp else 0
                else mid)
      in if MTHRESH \<le> length xs \<and> t1 \<noteq> mid then SWAP xs t1 mid else xs)"

text \<open>\<open>for (; bot < mid && compar(bot, mid) <= 0; bot += size);\<close>\<close>

function scan_up :: "'a compar \<Rightarrow> 'a list \<Rightarrow> nat \<Rightarrow> nat \<Rightarrow> nat" where
  "scan_up compar xs mid bt =
     (if bt < mid \<and> compar (xs ! bt) (xs ! mid) \<le> 0 then scan_up compar xs mid (Suc bt) else bt)"
  by pat_completeness auto
termination by (relation "measure (\<lambda>(_, _, mid, bt). mid - bt)") auto

text \<open>\<open>while (top > mid) { if (compar(mid, top) <= 0) { top -= size; continue; } ... }\<close>\<close>

primrec scan_down :: "'a compar \<Rightarrow> 'a list \<Rightarrow> nat \<Rightarrow> nat \<Rightarrow> nat" where
  "scan_down compar xs mid 0 = 0"
| "scan_down compar xs mid (Suc tp) =
     (if mid < Suc tp \<and> compar (xs ! mid) (xs ! Suc tp) \<le> 0 then scan_down compar xs mid tp else Suc tp)"

declare scan_up.simps [simp del]

lemma scan_up_le: "bt \<le> mid \<Longrightarrow> scan_up compar xs mid bt \<le> mid"
  and scan_up_ge: "bt \<le> scan_up compar xs mid bt"
proof -
  show "bt \<le> mid \<Longrightarrow> scan_up compar xs mid bt \<le> mid"
    by (induction compar xs mid bt rule: scan_up.induct) (subst scan_up.simps, simp)
  show "bt \<le> scan_up compar xs mid bt"
    by (induction compar xs mid bt rule: scan_up.induct) (subst scan_up.simps, auto)
qed

lemma scan_down_le: "scan_down compar xs mid tp \<le> tp"
  by (induction tp) auto

lemma scan_down_ge: "mid \<le> tp \<Longrightarrow> mid \<le> scan_down compar xs mid tp"
  by (induction tp) auto

text \<open>
  One pass of the partitioning loop; \<open>None\<close> is its \<open>break\<close>. \<open>bt\<close>, \<open>mid\<close>, \<open>tp\<close> are the pointers
  \<open>bot\<close>, \<open>mid\<close>, \<open>top\<close>. They satisfy \<open>bt \<le> mid \<le> tp\<close> throughout, so the disjunct \<open>tp = 0\<close> of the
  exit condition, there to make the loop total, adds nothing.
\<close>

definition part_step :: "'a compar \<Rightarrow> 'a list \<Rightarrow> nat \<Rightarrow> nat \<Rightarrow> nat \<Rightarrow> ('a list \<times> nat \<times> nat \<times> nat) option" where
  "part_step compar xs bt mid tp =
     (let bt = scan_up compar xs mid bt; tp = scan_down compar xs mid tp
      in if mid < tp then
           if bt = mid then Some (SWAP xs bt tp, Suc bt, tp, tp)
           else Some (SWAP xs bt tp, Suc bt, mid, tp - 1)
         else if bt = mid \<or> tp = 0 then None
         else Some (SWAP xs bt mid, bt, bt, tp - 1))"

lemma part_step_measure:
  assumes "part_step compar xs bt mid tp = Some (ys, b, m, t)"
  shows "t + (t - b) < tp + (tp - bt)"
proof -
  define u d where ud: "u = scan_up compar xs mid bt" "d = scan_down compar xs mid tp"
  have "bt \<le> u" "d \<le> tp" by (simp_all add: ud scan_up_ge scan_down_le)
  moreover have "b = Suc u \<and> t = d \<and> u = mid \<and> mid < d \<or> b = Suc u \<and> t = d - 1 \<and> mid < d \<or>
      b = u \<and> t = d - 1 \<and> d \<noteq> 0"
    using assms by (auto simp: part_step_def ud Let_def split: if_splits)
  ultimately show ?thesis by (elim disjE) auto
qed

function part_loop :: "'a compar \<Rightarrow> 'a list \<Rightarrow> nat \<Rightarrow> nat \<Rightarrow> nat \<Rightarrow> bool \<Rightarrow> 'a list \<times> nat \<times> bool" where
  "part_loop compar xs bt mid tp didswap =
     (case part_step compar xs bt mid tp of
        None \<Rightarrow> (xs, mid, didswap)
      | Some (ys, b, m, t) \<Rightarrow> part_loop compar ys b m t True)"
  by pat_completeness auto
termination
  by (relation "measure (\<lambda>(_, _, bt, mid, tp, _). tp + (tp - bt))") (auto dest: part_step_measure)

declare part_loop.simps [simp del]

subsection \<open>The partitioning loop permutes and stays in bounds\<close>

lemma length_SWAP [simp]: "length (SWAP xs a b) = length xs"
  by (simp add: SWAP_def)

lemma mset_SWAP [simp]: "a < length xs \<Longrightarrow> b < length xs \<Longrightarrow> mset (SWAP xs a b) = mset xs"
  by (simp add: SWAP_def mset_swap)

lemma SWAP_nth: "a < length xs \<Longrightarrow> b < length xs \<Longrightarrow> i < length xs \<Longrightarrow>
    SWAP xs a b ! i = (if i = b then xs ! a else if i = a then xs ! b else xs ! i)"
  by (simp add: SWAP_def nth_list_update)

lemma part_step_cases:
  assumes step: "part_step compar xs bt mid tp = Some (ys, b, m, t)" and "bt \<le> mid" and "mid \<le> tp"
  obtains u d where "u = scan_up compar xs mid bt" and "d = scan_down compar xs mid tp"
    and "mid < d \<and> u = mid \<and> ys = SWAP xs u d \<and> b = Suc u \<and> m = d \<and> t = d \<or>
      mid < d \<and> u < mid \<and> ys = SWAP xs u d \<and> b = Suc u \<and> m = mid \<and> t = d - 1 \<or>
      d = mid \<and> u < mid \<and> ys = SWAP xs u mid \<and> b = u \<and> m = u \<and> t = d - 1"
proof -
  define u d where ud: "u = scan_up compar xs mid bt" "d = scan_down compar xs mid tp"
  have "u \<le> mid" "mid \<le> d" using assms(2,3) by (simp_all add: ud scan_up_le scan_down_ge)
  moreover have "(if mid < d then if u = mid then Some (SWAP xs u d, Suc u, d, d) else Some (SWAP xs u d, Suc u, mid, d - 1)
      else if u = mid \<or> d = 0 then None else Some (SWAP xs u mid, u, u, d - 1)) = Some (ys, b, m, t)"
    using step unfolding part_step_def Let_def ud .
  ultimately show thesis
    by (intro that [OF ud]; cases "mid < d"; cases "u = mid") (auto split: if_splits)
qed

lemma part_step_bounds:
  assumes "part_step compar xs bt mid tp = Some (ys, b, m, t)" and "bt \<le> mid" and "mid \<le> tp" and "tp < length xs"
  shows "b \<le> m \<and> m \<le> t \<and> t < length ys \<and> mset ys = mset xs"
  using assms scan_up_le [of bt mid compar xs] scan_down_le [of compar xs mid tp] scan_down_ge [of mid tp compar xs]
  by (auto simp: part_step_def Let_def split: if_splits)

lemma part_loop_bounds:
  assumes "part_loop compar xs bt mid tp d = (ys, m, d')" and "bt \<le> mid" and "mid \<le> tp" and "tp < length xs"
  shows "m < length ys \<and> mset ys = mset xs"
  using assms
proof (induction compar xs bt mid tp d arbitrary: ys m d' rule: part_loop.induct)
  case (1 compar xs bt mid tp d)
  show ?case
  proof (cases "part_step compar xs bt mid tp")
    case None
    then show ?thesis using "1.prems" by (auto simp: part_loop.simps [of compar xs])
  next
    case (Some st)
    obtain zs b n t where st: "st = (zs, b, n, t)" by (cases st)
    note bd = part_step_bounds [OF Some [unfolded st] "1.prems"(2-4)]
    have "part_loop compar zs b n t True = (ys, m, d')"
      using "1.prems"(1) Some st by (simp add: part_loop.simps [of compar xs])
    then show ?thesis using "1.IH" [OF Some st [symmetric] refl refl] bd by auto
  qed
qed

text \<open>One partitioning of \<open>quick_sort\<close>: the array, the place of the pivot, whether elements moved.\<close>

definition qs_partition :: "'a compar \<Rightarrow> 'a list \<Rightarrow> 'a list \<times> nat \<times> bool" where
  "qs_partition compar xs = part_loop compar (median compar xs) 0 (length xs div 2) (length xs - 1) False"

lemma mset_median: "xs \<noteq> [] \<Longrightarrow> mset (median compar xs) = mset xs"
proof -
  assume "xs \<noteq> []"
  then have "length xs div 2 < length xs" "length xs - 1 < length xs" "0 < length xs" by auto
  then show ?thesis by (simp add: median_def Let_def)
qed

lemma partition_bounds:
  assumes "qs_partition compar xs = (ys, m, d)" and "xs \<noteq> []"
  shows "m < length ys" and "mset ys = mset xs" and "length ys = length xs"
proof -
  have len: "length (median compar xs) = length xs" using mset_eq_length [OF mset_median [OF assms(2)]] .
  have lt: "length xs div 2 \<le> length xs - 1" "length xs - 1 < length (median compar xs)"
    using assms(2) len by (cases xs; simp)+
  show "m < length ys" and 1: "mset ys = mset xs"
    using part_loop_bounds [OF assms(1) [unfolded qs_partition_def] le0 lt] mset_median [OF assms(2)] by auto
  show "length ys = length xs" by (rule mset_eq_length [OF 1])
qed

lemma partition_lengths:
  "(ys, m, d) = qs_partition compar xs \<Longrightarrow> xs \<noteq> [] \<Longrightarrow> length ys = length xs \<and> m < length xs"
  using partition_bounds [of compar xs ys m d] by auto

subsection \<open>The sort\<close>

text \<open>
  The two partitions are disjoint pieces of the array, so the calls on them act on the two
  sublists; the last call of each branch is the jump back to \<open>partition\<close>.
\<close>

function quick_sort :: "'a compar \<Rightarrow> 'a list \<Rightarrow> 'a list" where
  "quick_sort compar xs =
     (if xs = [] then []
      else case qs_partition compar xs of (ys, mid, didswap) \<Rightarrow>
        if \<not> didswap then insertion_sort compar ys
        else if length (drop (Suc mid) ys) < length (take mid ys) then
          if THRESH \<le> length (drop (Suc mid) ys) then
            quick_sort compar (take mid ys) @ ys ! mid # quick_sort compar (drop (Suc mid) ys)
          else if length (take mid ys) < THRESH then
            SORT compar (take mid ys) @ ys ! mid # SORT compar (drop (Suc mid) ys)
          else quick_sort compar (take mid ys) @ ys ! mid # SORT compar (drop (Suc mid) ys)
        else
          if THRESH \<le> length (take mid ys) then
            quick_sort compar (take mid ys) @ ys ! mid # quick_sort compar (drop (Suc mid) ys)
          else if length (drop (Suc mid) ys) < THRESH then
            SORT compar (take mid ys) @ ys ! mid # SORT compar (drop (Suc mid) ys)
          else SORT compar (take mid ys) @ ys ! mid # quick_sort compar (drop (Suc mid) ys))"
  by pat_completeness auto
termination
  by (relation "measure (\<lambda>(_, xs). length xs)") (auto dest!: partition_lengths)

declare quick_sort.simps [simp del]

text \<open>
  \<open>pg_qsort\<close> takes the number and the size of the elements as \<open>size_t\<close> and hands them to routines that take \<open>int\<close> and compute byte offsets up to
  \<open>nmemb * size\<close> in \<open>int\<close>. \<open>None\<close> is an array for which that overflows, or whose elements have no bytes, which \<open>SWAP\<close> does
  not expect.
\<close>

definition qsort_list :: "'a compar \<Rightarrow> 'a list \<Rightarrow> 'a list" where
  "qsort_list compar xs = (if THRESH \<le> length xs then quick_sort compar xs else insertion_sort compar xs)"

definition pg_qsort :: "nat \<Rightarrow> 'a compar \<Rightarrow> 'a list \<Rightarrow> 'a list option" where
  "pg_qsort sz compar xs =
     (if length xs \<le> 1 then Some xs
      else if 0 < sz \<and> length xs < 2 ^ 31 \<and> length xs * sz < 2 ^ 31 then Some (qsort_list compar xs)
      else None)"

subsection \<open>Correctness for a consistent comparison\<close>

locale cmp_order =
  fixes compar :: "'a compar"
  assumes sym: "compar x y < 0 \<longleftrightarrow> 0 < compar y x"
    and trans: "compar x y \<le> 0 \<Longrightarrow> compar y z \<le> 0 \<Longrightarrow> compar x z \<le> 0"
begin

definition le :: "'a \<Rightarrow> 'a \<Rightarrow> bool" where
  "le x y \<longleftrightarrow> compar x y \<le> 0"

lemma le_refl: "le x x"
  using sym [of x x] unfolding le_def by linarith

lemma le_trans: "le x y \<Longrightarrow> le y z \<Longrightarrow> le x z"
  unfolding le_def by (rule trans)

lemma less_le: "compar x y < 0 \<Longrightarrow> le x y" "\<not> compar x y < 0 \<Longrightarrow> le y x" "0 < compar x y \<Longrightarrow> le y x"
  using sym [of x y] sym [of y x] by (auto simp: le_def)

lemma ins_pos_ok:
  "ins_pos compar xs t1 t \<le> t \<and> (\<forall>j. ins_pos compar xs t1 t \<le> j \<and> j < t \<longrightarrow> le (xs ! t1) (xs ! j)) \<and>
   (ins_pos compar xs t1 t \<noteq> 0 \<longrightarrow> le (xs ! (ins_pos compar xs t1 t - 1)) (xs ! t1))"
  by (induction t) (auto simp: less_le less_Suc_eq)

lemma insertion_step_ok:
  assumes t1: "t1 < length xs" and s: "sorted_wrt le (take t1 xs)"
  shows "mset (insertion_step compar t1 xs) = mset xs" and "sorted_wrt le (take (Suc t1) (insertion_step compar t1 xs))"
proof -
  define t2 where "t2 = ins_pos compar xs t1 t1"
  have t2: "t2 \<le> t1" "\<And>j. t2 \<le> j \<Longrightarrow> j < t1 \<Longrightarrow> le (xs ! t1) (xs ! j)" "t2 \<noteq> 0 \<Longrightarrow> le (xs ! (t2 - 1)) (xs ! t1)"
    using ins_pos_ok [of xs t1 t1] by (auto simp: t2_def)
  let ?l = "take t2 xs" and ?r = "drop t2 (take t1 xs)" and ?x = "xs ! t1"
  have split: "take t1 xs = ?l @ ?r" using t2(1) by (metis append_take_drop_id min.absorb1 take_take)
  have "xs = (?l @ ?r) @ ?x # drop (Suc t1) xs" unfolding split [symmetric] by (rule id_take_nth_drop [OF t1])
  then have xs: "xs = ?l @ ?r @ ?x # drop (Suc t1) xs" by (simp only: append_assoc)
  have eq: "insertion_step compar t1 xs = ?l @ [?x] @ ?r @ drop (Suc t1) xs"
    using xs t2(1) t1 by (auto simp: insertion_step_def t2_def [symmetric] bubble_def Let_def)
  have "mset xs = mset (?l @ ?r @ ?x # drop (Suc t1) xs)" using xs by simp
  then show "mset (insertion_step compar t1 xs) = mset xs" unfolding eq by simp
  have len: "length (?l @ [?x] @ ?r) = Suc t1" using t1 t2(1) by simp
  have "take (length (?l @ [?x] @ ?r)) ((?l @ [?x] @ ?r) @ drop (Suc t1) xs) = ?l @ [?x] @ ?r"
    by (rule take_length_append)
  then have "take (Suc t1) (insertion_step compar t1 xs) = ?l @ [?x] @ ?r" unfolding len eq by simp
  moreover have "le y ?x" if y: "y \<in> set ?l" for y
  proof -
    obtain i where i: "i < t2" "y = xs ! i" using y t1 t2(1) by (auto simp: in_set_conv_nth)
    have "le (xs ! i) (xs ! (t2 - 1))" if "i < t2 - 1"
      using s that t1 t2(1) by (auto simp: sorted_wrt_iff_nth_less)
    moreover have "i = t2 - 1 \<or> i < t2 - 1" using i(1) by arith
    ultimately have "i = t2 - 1 \<or> le (xs ! i) (xs ! (t2 - 1))" by blast
    then show ?thesis using t2(3) i by (auto intro: le_trans)
  qed
  moreover have "le ?x y" if "y \<in> set ?r" for y
    using that t2(1,2) t1 by (auto simp: in_set_conv_nth)
  moreover have "sorted_wrt le (?l @ ?r)" using s by (subst (asm) split)
  ultimately show "sorted_wrt le (take (Suc t1) (insertion_step compar t1 xs))"
    by (auto simp: sorted_wrt_append)
qed

lemma insertion_fold_ok:
  assumes "n \<le> length xs" and "sorted_wrt le (take 1 xs)"
  shows "mset (fold (insertion_step compar) [1 ..< n] xs) = mset xs \<and>
    sorted_wrt le (take n (fold (insertion_step compar) [1 ..< n] xs))"
  using assms
proof (induction n)
  case (Suc n)
  show ?case
  proof (cases "n = 0")
    case False
    let ?f = "fold (insertion_step compar) [1 ..< n] xs"
    have IH: "mset ?f = mset xs" "sorted_wrt le (take n ?f)" using Suc by auto
    have lt: "n < length ?f" using Suc.prems(1) mset_eq_length [OF IH(1)] by simp
    have "[1 ..< Suc n] = [1 ..< n] @ [n]" using False by simp
    then show ?thesis using insertion_step_ok [OF lt IH(2)] IH by simp
  qed (use Suc.prems in simp)
qed simp

lemma insertion_sort_ok: "mset (insertion_sort compar xs) = mset xs" "sorted_wrt le (insertion_sort compar xs)"
proof -
  have s: "sorted_wrt le (take 1 xs)" by (cases xs) auto
  show m: "mset (insertion_sort compar xs) = mset xs"
    using insertion_fold_ok [OF _ s, of "length xs"] by (simp add: insertion_sort_def)
  show "sorted_wrt le (insertion_sort compar xs)"
    using insertion_fold_ok [OF _ s, of "length xs"] mset_eq_length [OF m] by (simp add: insertion_sort_def)
qed

lemma SORT_ok: "mset (SORT compar xs) = mset xs" "sorted_wrt le (SORT compar xs)"
proof -
  have "mset (SORT compar xs) = mset xs \<and> sorted_wrt le (SORT compar xs)"
  proof (cases "length xs = 2")
    case True
    then obtain a b where "xs = [a, b]" by (auto simp: length_Suc_conv numeral_2_eq_2)
    then show ?thesis by (auto simp: SORT_def SWAP_def less_le)
  next
    case False
    show ?thesis
    proof (cases "length xs \<le> 1")
      case True
      then show ?thesis by (cases xs) (auto simp: SORT_def)
    next
      case nle: False
      then show ?thesis using False insertion_sort_ok by (simp add: SORT_def)
    qed
  qed
  then show "mset (SORT compar xs) = mset xs" "sorted_wrt le (SORT compar xs)" by auto
qed

text \<open>The scans stop at the first element on the wrong side of the pivot.\<close>

lemma scan_up_ok:
  "(\<forall>i. bt \<le> i \<and> i < scan_up compar xs mid bt \<longrightarrow> le (xs ! i) (xs ! mid)) \<and>
   (scan_up compar xs mid bt < mid \<longrightarrow> le (xs ! mid) (xs ! scan_up compar xs mid bt))"
proof (induction "mid - bt" arbitrary: bt)
  case 0
  then show ?case by (auto simp: scan_up.simps [of compar xs mid bt])
next
  case (Suc n)
  have "n = mid - Suc bt" using Suc.hyps(2) by simp
  note IH = Suc.hyps(1) [OF this]
  show ?case
  proof (cases "compar (xs ! bt) (xs ! mid) \<le> 0")
    case True
    moreover have "bt < mid" using Suc.hyps(2) by simp
    ultimately have "scan_up compar xs mid bt = scan_up compar xs mid (Suc bt)" "le (xs ! bt) (xs ! mid)"
      by (simp_all add: scan_up.simps [of compar xs mid bt] le_def)
    then show ?thesis using IH by (metis Suc_leI le_neq_implies_less)
  next
    case False
    then show ?thesis by (simp add: scan_up.simps [of compar xs mid bt] less_le)
  qed
qed

lemma scan_down_ok:
  assumes "mid \<le> tp"
  shows "(\<forall>i. scan_down compar xs mid tp < i \<and> i \<le> tp \<longrightarrow> le (xs ! mid) (xs ! i)) \<and>
   (mid < scan_down compar xs mid tp \<longrightarrow> le (xs ! scan_down compar xs mid tp) (xs ! mid))"
  using assms
proof (induction tp)
  case (Suc tp)
  show ?case
  proof (cases "mid < Suc tp \<and> compar (xs ! mid) (xs ! Suc tp) \<le> 0")
    case True
    then show ?thesis using Suc.IH by (auto simp: le_def le_Suc_eq)
  next
    case False
    then show ?thesis by (auto simp: less_le)
  qed
qed simp

definition part_inv :: "'a list \<Rightarrow> nat \<Rightarrow> nat \<Rightarrow> nat \<Rightarrow> bool" where
  "part_inv xs bt mid tp \<longleftrightarrow> bt \<le> mid \<and> mid \<le> tp \<and> tp < length xs \<and>
     (\<forall>i<bt. le (xs ! i) (xs ! mid)) \<and> (\<forall>i. tp < i \<and> i < length xs \<longrightarrow> le (xs ! mid) (xs ! i))"

lemma part_inv_scan:
  assumes "part_inv xs bt mid tp"
  shows "part_inv xs (scan_up compar xs mid bt) mid (scan_down compar xs mid tp)"
proof -
  have le: "bt \<le> mid" "mid \<le> tp" using assms by (simp_all add: part_inv_def)
  show ?thesis
    using assms scan_up_ok [of bt xs mid] scan_down_ok [OF le(2), of xs] scan_up_le [OF le(1), of compar xs]
      scan_down_ge [OF le(2), of compar xs] scan_down_le [of compar xs mid tp]
    unfolding part_inv_def by (metis leI le_less_trans)
qed

lemma part_step_inv:
  assumes "part_step compar xs bt mid tp = Some (ys, b, m, t)" and "part_inv xs bt mid tp"
  shows "part_inv ys b m t"
proof -
  have le: "bt \<le> mid" "mid \<le> tp" using assms(2) by (simp_all add: part_inv_def)
  obtain u d where ud: "u = scan_up compar xs mid bt" "d = scan_down compar xs mid tp"
    and cs: "mid < d \<and> u = mid \<and> ys = SWAP xs u d \<and> b = Suc u \<and> m = d \<and> t = d \<or>
      mid < d \<and> u < mid \<and> ys = SWAP xs u d \<and> b = Suc u \<and> m = mid \<and> t = d - 1 \<or>
      d = mid \<and> u < mid \<and> ys = SWAP xs u mid \<and> b = u \<and> m = u \<and> t = d - 1"
    by (rule part_step_cases [OF assms(1) le])
  have inv: "part_inv xs u mid d" unfolding ud by (rule part_inv_scan [OF assms(2)])
  have wrong: "u < mid \<Longrightarrow> le (xs ! mid) (xs ! u)" "mid < d \<Longrightarrow> le (xs ! d) (xs ! mid)"
    unfolding ud using scan_up_ok scan_down_ok [OF le(2)] by blast+
  consider "mid < d" "u = mid" "ys = SWAP xs u d" "b = Suc u" "m = d" "t = d"
    | "mid < d" "u < mid" "ys = SWAP xs u d" "b = Suc u" "m = mid" "t = d - 1"
    | "d = mid" "u < mid" "ys = SWAP xs u mid" "b = u" "m = u" "t = d - 1"
    using cs by blast
  then show ?thesis
  proof cases
    case 1
    have "le (ys ! i) (ys ! m)" if "i < b" for i
      using that 1 inv wrong(2) by (cases "i = u") (auto simp: part_inv_def SWAP_nth)
    then show ?thesis using 1 inv by (auto simp: part_inv_def SWAP_nth)
  next
    case 2
    have "le (ys ! i) (ys ! m)" if "i < b" for i
      using that 2 inv wrong(2) by (cases "i = u") (auto simp: part_inv_def SWAP_nth)
    moreover have "le (ys ! m) (ys ! i)" if "t < i" "i < length ys" for i
      using that 2 inv wrong(1) by (cases "i = d") (auto simp: part_inv_def SWAP_nth)
    ultimately show ?thesis using 2 inv by (auto simp: part_inv_def)
  next
    case 3
    have "le (ys ! m) (ys ! i)" if "t < i" "i < length ys" for i
      using that 3 inv wrong(1) by (cases "i = d") (auto simp: part_inv_def SWAP_nth)
    moreover have "le (ys ! i) (ys ! m)" if "i < b" for i
      using that 3 inv by (auto simp: part_inv_def SWAP_nth)
    ultimately show ?thesis using 3 inv by (auto simp: part_inv_def)
  qed
qed

lemma part_loop_inv:
  assumes "part_loop compar xs bt mid tp d = (ys, m, d')" and "part_inv xs bt mid tp"
  shows "part_inv ys m m m"
  using assms
proof (induction "tp + (tp - bt)" arbitrary: xs bt mid tp d rule: less_induct)
  case less
  show ?case
  proof (cases "part_step compar xs bt mid tp")
    case None
    have "part_inv xs (scan_up compar xs mid bt) mid (scan_down compar xs mid tp)"
      by (rule part_inv_scan [OF less.prems(2)])
    moreover have "ys = xs" "m = mid" using less.prems(1) None by (auto simp: part_loop.simps [of compar xs])
    ultimately show ?thesis using None by (auto simp: part_step_def part_inv_def Let_def split: if_splits)
  next
    case (Some st)
    obtain zs b n t where st: "st = (zs, b, n, t)" by (cases st)
    have "part_loop compar zs b n t True = (ys, m, d')"
      using less.prems(1) Some st by (simp add: part_loop.simps [of compar xs])
    then show ?thesis
      by (rule less.hyps [OF part_step_measure [OF Some [unfolded st]]])
        (rule part_step_inv [OF Some [unfolded st] less.prems(2)])
  qed
qed

lemma partition_ok:
  assumes "qs_partition compar xs = (ys, m, d)" and "xs \<noteq> []"
  shows "\<forall>x\<in>set (take m ys). le x (ys ! m)" and "\<forall>y\<in>set (drop (Suc m) ys). le (ys ! m) y"
proof -
  have len: "length (median compar xs) = length xs" using mset_eq_length [OF mset_median [OF assms(2)]] .
  have "length xs div 2 \<le> length xs - 1" "length xs - 1 < length xs" using assms(2) by (cases xs; simp)+
  then have "part_inv (median compar xs) 0 (length xs div 2) (length xs - 1)" using len by (auto simp: part_inv_def)
  then have "part_inv ys m m m" using assms(1) part_loop_inv unfolding qs_partition_def by blast
  then show "\<forall>x\<in>set (take m ys). le x (ys ! m)" "\<forall>y\<in>set (drop (Suc m) ys). le (ys ! m) y"
    by (auto simp: part_inv_def in_set_conv_nth)
qed

text \<open>Sorting both parts of a partitioned array sorts the array.\<close>

lemma combine_ok:
  assumes "qs_partition compar xs = (ys, m, d)" and "xs \<noteq> []"
    and l: "mset ls = mset (take m ys)" "sorted_wrt le ls" and r: "mset rs = mset (drop (Suc m) ys)" "sorted_wrt le rs"
  shows "mset (ls @ ys ! m # rs) = mset xs \<and> sorted_wrt le (ls @ ys ! m # rs)"
proof -
  note b = partition_bounds [OF assms(1,2)] and p = partition_ok [OF assms(1,2)]
  have sets: "set ls = set (take m ys)" "set rs = set (drop (Suc m) ys)" using l(1) r(1) by (metis set_mset_mset)+
  have "mset (take m ys @ ys ! m # drop (Suc m) ys) = mset xs"
    using id_take_nth_drop [OF b(1)] b(2) by metis
  then have "mset (ls @ ys ! m # rs) = mset xs" using l(1) r(1) by simp
  moreover have "le x y" if "x \<in> set ls" "y \<in> set rs" for x y
    using that p sets le_trans by blast
  ultimately show ?thesis using l r p sets by (auto simp: sorted_wrt_append)
qed

lemma quick_sort_ok: "mset (quick_sort compar xs) = mset xs \<and> sorted_wrt le (quick_sort compar xs)"
proof (induction "length xs" arbitrary: xs rule: less_induct)
  case less
  show ?case
  proof (cases "xs = []")
    case False
    obtain ys m d where p: "qs_partition compar xs = (ys, m, d)" by (cases "qs_partition compar xs")
    note b = partition_bounds [OF p False]
    have IH: "mset (quick_sort compar (take m ys)) = mset (take m ys) \<and> sorted_wrt le (quick_sort compar (take m ys))"
      "mset (quick_sort compar (drop (Suc m) ys)) = mset (drop (Suc m) ys) \<and>
        sorted_wrt le (quick_sort compar (drop (Suc m) ys))"
      by (rule less.hyps; use b False in simp)+
    show ?thesis
      using combine_ok [OF p False] IH SORT_ok insertion_sort_ok [of ys] b False
      by (subst (1 2) quick_sort.simps) (auto simp: p)
  qed (simp add: quick_sort.simps [of compar "[]"])
qed

lemma qsort_list_ok: "mset (qsort_list compar xs) = mset xs" "sorted_wrt le (qsort_list compar xs)"
  using quick_sort_ok [of xs] insertion_sort_ok [of xs] by (auto simp: qsort_list_def)

lemma pg_qsort_ok:
  assumes "0 < sz" and "length xs < 2 ^ 31" and "length xs * sz < 2 ^ 31"
  shows "rets (pg_qsort sz compar xs) (\<lambda>ys. mset ys = mset xs \<and> sorted_wrt le ys)"
  using qsort_list_ok [of xs] assms by (cases xs) (auto simp: pg_qsort_def)

end

end
