(* ===== verification/Page.thy ===== *)
theory Page
  imports Bytes QSort
begin

text \<open>
  Slotted disk pages: \<open>storage/page/bufpage.c\<close> with \<open>bufpage.h\<close>, \<open>itemid.h\<close>, \<open>off.h\<close>. A page is the
  block of bytes it is in memory. The header is four 16-bit fields, the line pointers follow it
  from byte 8 on, each a 32-bit word of three bit fields, laid out as gcc does on a
  little-endian machine; tuples fill the page from its end. Line pointers and tuples share
  the block, so a write to one may reach the other, as in C.

  \<open>None\<close> is a failed \<open>Assert\<close> (the code prints a message and goes on; the model does not follow such a run), \<open>abort\<close>, or an access outside the
  block. \<open>Size\<close> is a 32-bit unsigned, \<open>Offset\<close> a 32-bit signed integer.
\<close>

subsection \<open>Layout\<close>

type_synonym page = "byte list"
type_synonym OffsetNumber = uint16
type_synonym size_word = uint32

record ItemIdData =
  lp_off :: "13 word"
  lp_flags :: "6 word"
  lp_len :: "13 word"

definition itemid_word :: "ItemIdData \<Rightarrow> uint32" where
  "itemid_word x = ucast (lp_off x) OR push_bit 13 (ucast (lp_flags x)) OR push_bit 19 (ucast (lp_len x))"

definition word_itemid :: "uint32 \<Rightarrow> ItemIdData" where
  "word_itemid w = \<lparr>lp_off = ucast w, lp_flags = ucast (drop_bit 13 w), lp_len = ucast (drop_bit 19 w)\<rparr>"

definition LP_USED :: "6 word" where "LP_USED = 1"

definition ItemIdIsUsed :: "ItemIdData \<Rightarrow> bool" where
  "ItemIdIsUsed x \<longleftrightarrow> lp_flags x AND LP_USED \<noteq> 0"

definition pd_lower :: "page \<Rightarrow> uint16" where "pd_lower p = le_word (rd p 0 2)"
definition pd_upper :: "page \<Rightarrow> uint16" where "pd_upper p = le_word (rd p 2 2)"
definition pd_special :: "page \<Rightarrow> uint16" where "pd_special p = le_word (rd p 4 2)"
definition od_pagesize :: "page \<Rightarrow> uint16" where "od_pagesize p = le_word (rd p 6 2)"

definition set_pd_lower :: "page \<Rightarrow> uint16 \<Rightarrow> page" where "set_pd_lower p v = wr p 0 (le_bytes 2 v)"
definition set_pd_upper :: "page \<Rightarrow> uint16 \<Rightarrow> page" where "set_pd_upper p v = wr p 2 (le_bytes 2 v)"
definition set_pd_special :: "page \<Rightarrow> uint16 \<Rightarrow> page" where "set_pd_special p v = wr p 4 (le_bytes 2 v)"
definition set_od_pagesize :: "page \<Rightarrow> uint16 \<Rightarrow> page" where "set_od_pagesize p v = wr p 6 (le_bytes 2 v)"

text \<open>\<open>pd_linp[i]\<close>\<close>

definition get_linp :: "page \<Rightarrow> nat \<Rightarrow> ItemIdData option" where
  "get_linp p i = map_option (\<lambda>bs. word_itemid (le_word bs)) (rd_opt p (8 + 4 * i) 4)"

definition set_linp :: "page \<Rightarrow> nat \<Rightarrow> ItemIdData \<Rightarrow> page option" where
  "set_linp p i x = memmove p (8 + 4 * i) (le_bytes 4 (itemid_word x))"

definition InvalidOffsetNumber :: OffsetNumber where "InvalidOffsetNumber = 0"
definition MaxOffsetNumber :: OffsetNumber where "MaxOffsetNumber = 2048"

definition OffsetNumberIsValid :: "OffsetNumber \<Rightarrow> bool" where
  "OffsetNumberIsValid off \<longleftrightarrow> off \<noteq> InvalidOffsetNumber \<and> off \<le> MaxOffsetNumber"

definition DOUBLEALIGN :: "size_word \<Rightarrow> size_word" where
  "DOUBLEALIGN len = (len + 7) AND NOT 7"

subsection \<open>Header macros\<close>

definition PageIsEmpty :: "page \<Rightarrow> bool" where
  "PageIsEmpty p \<longleftrightarrow> pd_lower p = 8"

definition PageIsNew :: "page \<Rightarrow> bool" where
  "PageIsNew p \<longleftrightarrow> pd_upper p = 0"

definition PageGetPageSize :: "page \<Rightarrow> size_word" where
  "PageGetPageSize p = ucast (od_pagesize p)"

definition PageGetSpecialSize :: "page \<Rightarrow> uint16" where
  "PageGetSpecialSize p = ucast (PageGetPageSize p - ucast (pd_special p))"

subsection \<open>Initialisation and lookup\<close>

definition PageInit :: "page \<Rightarrow> size_word \<Rightarrow> size_word \<Rightarrow> page option" where
  "PageInit p pageSize specialSize =
     (if unat pageSize \<noteq> BLCKSZ then None
      else if unat pageSize \<le> unat specialSize + 12 - 4 then None
      else
        let specialSize = DOUBLEALIGN specialSize;
            p = set_pd_lower p 8;
            p = set_pd_upper p (ucast (pageSize - specialSize));
            p = set_pd_special p (ucast (pageSize - specialSize))
        in Some (set_od_pagesize p (ucast pageSize)))"

text \<open>The item is given by its place in the page.\<close>

definition PageGetItem :: "page \<Rightarrow> ItemIdData \<Rightarrow> nat option" where
  "PageGetItem p itemId = (if \<not> ItemIdIsUsed itemId then None else Some (unat (lp_off itemId)))"

definition PageGetMaxOffsetNumber :: "page \<Rightarrow> OffsetNumber" where
  "PageGetMaxOffsetNumber p = of_nat ((unat (pd_lower p) + 2 ^ 64 - 8) mod 2 ^ 64 div 4)"

definition PageGetFreeSpace :: "page \<Rightarrow> size_word" where
  "PageGetFreeSpace p =
     (let space = ucast (pd_upper p) - ucast (pd_lower p)
      in if space < 4 then 0 else space - 4)"

datatype PageManagerMode = ShufflePageManagerMode | OverwritePageManagerMode

text \<open>\<open>PageManagerShuffle\<close> is a static variable, here an argument.\<close>

definition PageManagerModeSet :: "PageManagerMode \<Rightarrow> bool \<Rightarrow> bool" where
  "PageManagerModeSet mode shuffle =
     (case mode of ShufflePageManagerMode \<Rightarrow> True | OverwritePageManagerMode \<Rightarrow> False)"

subsection \<open>Adding an item\<close>

text \<open>\<open>for (i = limit - 1; i >= offsetNumber; i--) linp[i] = linp[i - 1]\<close>\<close>

primrec shuffle_linps :: "page \<Rightarrow> nat \<Rightarrow> nat \<Rightarrow> page option" where
  "shuffle_linps p off 0 = Some p"
| "shuffle_linps p off (Suc i) =
     (if off \<le> Suc i then do {
        x \<leftarrow> get_linp p i;
        p \<leftarrow> set_linp p (Suc i) x;
        shuffle_linps p off i
      } else Some p)"

text \<open>The first recyclable line pointer among the next \<open>n\<close> from \<open>off\<close> on.\<close>

primrec find_recyclable :: "page \<Rightarrow> nat \<Rightarrow> nat \<Rightarrow> nat option" where
  "find_recyclable p 0 off = Some off"
| "find_recyclable p (Suc n) off = do {
     x \<leftarrow> get_linp p (off - 1);
     if \<not> ItemIdIsUsed x \<and> lp_len x = 0 then Some off else find_recyclable p n (Suc off)
   }"

text \<open>The choice of the offset number: the page, the number and whether pointers were moved.\<close>

definition add_offset :: "bool \<Rightarrow> page \<Rightarrow> OffsetNumber \<Rightarrow> OffsetNumber \<Rightarrow> (page \<times> OffsetNumber \<times> bool) option option" where
  "add_offset shuffle p limit off =
     (if OffsetNumberIsValid off then
        if shuffle then do {
          p \<leftarrow> shuffle_linps p (unat off) (unat limit - 1);
          Some (Some (p, off, True))
        } else do {
          x \<leftarrow> get_linp p (unat off - 1);
          Some (if ItemIdIsUsed x \<or> lp_len x \<noteq> 0 then None else Some (p, off, False))
        }
      else do {
        o1 \<leftarrow> find_recyclable p (unat limit - 1) 1;
        Some (Some (p, of_nat o1, False))
      })"

definition PageAddItem ::
    "bool \<Rightarrow> page \<Rightarrow> byte list \<Rightarrow> size_word \<Rightarrow> OffsetNumber \<Rightarrow> uint16 \<Rightarrow> (page \<times> OffsetNumber) option" where
  "PageAddItem shuffle p item sz off flags = do {
     limit \<leftarrow> Some (1 + PageGetMaxOffsetNumber p);
     r \<leftarrow> add_offset shuffle p limit off;
     case r of None \<Rightarrow> Some (p, InvalidOffsetNumber)
     | Some (p, off, shuffled) \<Rightarrow>
         let lower = (if limit < off then 8 + 4 * int (unat off)
                      else if off = limit \<or> shuffled then int (unat (pd_lower p)) + 4
                      else int (unat (pd_lower p)));
             alignedSize = DOUBLEALIGN sz;
             upper = sint (ucast (pd_upper p) - alignedSize :: uint32)
         in if upper < lower then Some (p, InvalidOffsetNumber)
            else do {
              p \<leftarrow> set_linp p (unat off - 1) \<lparr>lp_off = of_int upper, lp_flags = ucast flags, lp_len = ucast sz\<rparr>;
              bs \<leftarrow> rd_opt item 0 (unat sz);
              p \<leftarrow> memmove p (nat upper) bs;
              Some (set_pd_upper (set_pd_lower p (of_int lower)) (of_int upper), off)
            }
   }"

subsection \<open>Temporary pages\<close>

definition PageGetTempPage :: "page \<Rightarrow> size_word \<Rightarrow> page option" where
  "PageGetTempPage p specialSize = do {
     pageSize \<leftarrow> Some (PageGetPageSize p);
     temp \<leftarrow> rd_opt p 0 (unat pageSize);
     sz \<leftarrow> Some ((pageSize - 12) + 4 - DOUBLEALIGN specialSize);
     temp \<leftarrow> memmove temp 8 (replicate (unat sz) 0);
     Some (set_pd_upper (set_pd_lower temp 8) (ucast (pageSize - DOUBLEALIGN specialSize)))
   }"

definition PageRestoreTempPage :: "page \<Rightarrow> page \<Rightarrow> page option" where
  "PageRestoreTempPage tempPage oldPage = do {
     bs \<leftarrow> rd_opt tempPage 0 (unat (PageGetPageSize tempPage));
     memmove oldPage 0 bs
   }"

subsection \<open>Compaction\<close>

record itemIdSortData =
  offsetindex :: nat
  itemiddata :: ItemIdData

definition itemidcompare :: "itemIdSortData \<Rightarrow> itemIdSortData \<Rightarrow> int" where
  "itemidcompare a b =
     (if lp_off (itemiddata a) = lp_off (itemiddata b) then 0
      else if lp_off (itemiddata a) < lp_off (itemiddata b) then 1 else -1)"

definition count_used :: "page \<Rightarrow> nat \<Rightarrow> nat option" where
  "count_used p nline = for_loop 0 nline (\<lambda>i n. do {
     x \<leftarrow> get_linp p i;
     Some (if ItemIdIsUsed x then Suc n else n)
   }) 0"

definition dealloc_all :: "page \<Rightarrow> nat \<Rightarrow> page option" where
  "dealloc_all p nline = for_loop 0 nline (\<lambda>i p. do {
     x \<leftarrow> get_linp p i;
     if 0 < lp_len x then set_linp p i (x\<lparr>lp_len := 0\<rparr>) else Some p
   }) p"

definition collect_used :: "page \<Rightarrow> nat \<Rightarrow> (page \<times> itemIdSortData list) option" where
  "collect_used p nline = for_loop 0 nline (\<lambda>i (p, base). do {
     x \<leftarrow> get_linp p i;
     if ItemIdIsUsed x then Some (p, base @ [\<lparr>offsetindex = i, itemiddata = x\<rparr>])
     else if 0 < lp_len x then do { p \<leftarrow> set_linp p i (x\<lparr>lp_len := 0\<rparr>); Some (p, base) }
     else Some (p, base)
   }) (p, [])"

text \<open>One step of the compaction loop: the item moves up against \<open>pd_upper\<close>.\<close>

definition compact_item :: "page \<Rightarrow> nat \<Rightarrow> page option" where
  "compact_item p i = do {
     x \<leftarrow> get_linp p i;
     upper \<leftarrow> Some (sint (ucast (pd_upper p) - DOUBLEALIGN (ucast (lp_len x)) :: uint32));
     if upper < 0 then None
     else do {
       bs \<leftarrow> rd_opt p (unat (lp_off x)) (unat (lp_len x));
       p \<leftarrow> memmove p (nat upper) bs;
       y \<leftarrow> get_linp p i;
       p \<leftarrow> set_linp p i (y\<lparr>lp_off := of_int upper\<rparr>);
       Some (set_pd_upper p (of_int upper))
     }
   }"

primrec compact_items :: "itemIdSortData list \<Rightarrow> page \<Rightarrow> page option" where
  "compact_items [] p = Some p"
| "compact_items (x # xs) p = (compact_item p (offsetindex x) \<bind> compact_items xs)"

definition PageRepairFragmentation :: "page \<Rightarrow> page option" where
  "PageRepairFragmentation p = do {
     nline \<leftarrow> Some (nat (sint (PageGetMaxOffsetNumber p)));
     nused \<leftarrow> count_used p nline;
     if nused = 0 then do {
       p \<leftarrow> dealloc_all p nline;
       Some (set_pd_upper p (pd_special p))
     } else do {
       (p, base) \<leftarrow> collect_used p nline;
       base \<leftarrow> pg_qsort 8 itemidcompare base;
       compact_items base (set_pd_upper p (pd_special p))
     }
   }"

subsection \<open>Deleting an index tuple\<close>

text \<open>\<open>for (i = max - 1; i >= 0; i--) if (linp[i].lp_off <= location) linp[i].lp_off += size\<close>\<close>

primrec adjust_linps :: "nat \<Rightarrow> nat \<Rightarrow> size_word \<Rightarrow> page \<Rightarrow> page option" where
  "adjust_linps 0 location sz p = Some p"
| "adjust_linps (Suc i) location sz p = do {
     x \<leftarrow> get_linp p i;
     p \<leftarrow> (if unat (lp_off x) \<le> location then set_linp p i (x\<lparr>lp_off := lp_off x + ucast sz\<rparr>) else Some p);
     adjust_linps i location sz p
   }"

definition PageIndexTupleDeleteAdjustLinePointers :: "page \<Rightarrow> nat \<Rightarrow> size_word \<Rightarrow> page option" where
  "PageIndexTupleDeleteAdjustLinePointers p location sz =
     adjust_linps (unat (PageGetMaxOffsetNumber p)) location sz p"

text \<open>
  \<open>&pd_linp[offnum - 1]\<close> is at byte \<open>4 + 4 * offnum\<close>. A negative byte count turns into a huge
  \<open>size_t\<close>, which is an access outside the page.
\<close>

definition PageIndexTupleDelete :: "page \<Rightarrow> OffsetNumber \<Rightarrow> page option" where
  "PageIndexTupleDelete p offnum = do {
     w \<leftarrow> rd_opt p (4 + 4 * unat offnum) 4;
     tup \<leftarrow> Some (word_itemid (le_word w));
     sz \<leftarrow> Some (DOUBLEALIGN (ucast (lp_len tup)));
     locn \<leftarrow> Some (unat (lp_off tup));
     if unat (pd_lower p) < 8 + 4 * unat offnum then None
     else do {
       nbytes \<leftarrow> Some (unat (pd_lower p) - (8 + 4 * unat offnum));
       bs \<leftarrow> rd_opt p (8 + 4 * unat offnum) nbytes;
       p \<leftarrow> memmove p (4 + 4 * unat offnum) bs;
       addr \<leftarrow> Some (unat (pd_upper p));
       p \<leftarrow> (if locn \<noteq> addr then
               if locn < addr then None
               else do {
                 bs \<leftarrow> rd_opt p addr (locn - addr);
                 memmove p (addr + unat sz) bs
               }
             else Some p);
       p \<leftarrow> Some (set_pd_upper p (pd_upper p + ucast sz));
       p \<leftarrow> Some (set_pd_lower p (pd_lower p - 4));
       if \<not> PageIsEmpty p then PageIndexTupleDeleteAdjustLinePointers p locn sz else Some p
     }
   }"

end
