(* ===== verification/Page_Inv.thy ===== *)
theory Page_Inv
  imports Page
begin

text \<open>
  The page component seen through its contents: the list that has, for each line pointer, the
  bytes of its item, or nothing when the pointer is unused. Frame lemmas for the writes the
  code performs, the page invariant, and what each operation does to the contents.
\<close>

subsection \<open>Views of a page\<close>

definition linp :: "page \<Rightarrow> nat \<Rightarrow> ItemIdData" where
  "linp p i = word_itemid (le_word (rd p (8 + 4 * i) 4))"

definition nlines :: "page \<Rightarrow> nat" where
  "nlines p = (unat (pd_lower p) - 8) div 4"

definition ioff :: "ItemIdData \<Rightarrow> nat" where "ioff x = unat (lp_off x)"
definition ilen :: "ItemIdData \<Rightarrow> nat" where "ilen x = unat (lp_len x)"

definition al :: "nat \<Rightarrow> nat" where
  "al n = (n + 7) div 8 * 8"

definition iend :: "ItemIdData \<Rightarrow> nat" where
  "iend x = ioff x + al (ilen x)"

definition item_bytes :: "page \<Rightarrow> ItemIdData \<Rightarrow> byte list" where
  "item_bytes p x = rd p (ioff x) (ilen x)"

definition slot :: "page \<Rightarrow> ItemIdData \<Rightarrow> byte list option" where
  "slot p x = (if ItemIdIsUsed x then Some (item_bytes p x) else None)"

definition contents :: "page \<Rightarrow> byte list option list" where
  "contents p = map (\<lambda>i. slot p (linp p i)) [0 ..< nlines p]"

definition header_ok :: "page \<Rightarrow> bool" where
  "header_ok p \<longleftrightarrow> length p = BLCKSZ \<and> od_pagesize p = 8192 \<and> 8 \<le> unat (pd_lower p) \<and> 4 dvd unat (pd_lower p) \<and>
     unat (pd_lower p) \<le> unat (pd_upper p) \<and> unat (pd_upper p) \<le> unat (pd_special p) \<and> unat (pd_special p) \<le> BLCKSZ"

definition item_ok :: "page \<Rightarrow> ItemIdData \<Rightarrow> bool" where
  "item_ok p x \<longleftrightarrow> 0 < ilen x \<and> unat (pd_upper p) \<le> ioff x \<and> iend x \<le> unat (pd_special p)"

definition apart :: "ItemIdData \<Rightarrow> ItemIdData \<Rightarrow> bool" where
  "apart x y \<longleftrightarrow> iend x \<le> ioff y \<or> iend y \<le> ioff x"

definition page_ok :: "page \<Rightarrow> bool" where
  "page_ok p \<longleftrightarrow> header_ok p \<and>
     (\<forall>i<nlines p. ItemIdIsUsed (linp p i) \<longrightarrow> item_ok p (linp p i)) \<and>
     (\<forall>i<nlines p. \<forall>j<nlines p. i \<noteq> j \<longrightarrow> ItemIdIsUsed (linp p i) \<longrightarrow> ItemIdIsUsed (linp p j) \<longrightarrow>
        apart (linp p i) (linp p j))"

subsection \<open>Words\<close>

lemma word_itemid_word [simp]: "word_itemid (itemid_word x) = x"
proof -
  have out: "\<not> bit (lp_off x) (13 + n)" "\<not> bit (lp_off x) (19 + n)" "\<not> bit (lp_flags x) (6 + n)" for n
    using bit_imp_le_length [of "lp_off x"] bit_imp_le_length [of "lp_flags x"] by fastforce+
  have "ucast (itemid_word x) = lp_off x" "ucast (drop_bit 13 (itemid_word x)) = lp_flags x"
    "ucast (drop_bit 19 (itemid_word x)) = lp_len x"
    by (auto simp: itemid_word_def bit_simps out intro!: bit_word_eqI)
  then show ?thesis by (simp add: word_itemid_def)
qed

lemma al_bounds: "n \<le> al n" "al n < n + 8" "8 dvd al n"
proof -
  have "(n + 7) div 8 * 8 + (n + 7) mod 8 = n + 7" "(n + 7) mod 8 < 8" by simp_all
  then show "n \<le> al n" "al n < n + 8" unfolding al_def by linarith+
  show "8 dvd al n" by (simp add: al_def)
qed

lemma unat_DOUBLEALIGN:
  assumes "unat len + 7 < 2 ^ 32"
  shows "unat (DOUBLEALIGN len) = al (unat len)"
proof -
  have seven: "(7 :: uint32) = mask 3" by (simp add: mask_eq_exp_minus_1)
  have m: "v AND NOT 7 = push_bit 3 (drop_bit 3 v)" for v :: uint32
    unfolding seven by (rule bit_word_eqI) (auto simp: bit_simps)
  have u: "unat (len + 7) = unat len + 7" using assms by (simp add: unat_add_no_wrap)
  have d: "unat (drop_bit 3 (len + 7)) = (unat len + 7) div 8"
    by (simp add: drop_bit_eq_div unat_div u)
  have "unat (drop_bit 3 (len + 7) * 8) = (unat len + 7) div 8 * 8"
    using assms by (subst unat_mult_no_wrap) (simp_all add: d)
  then show ?thesis unfolding DOUBLEALIGN_def m push_bit_eq_mult al_def by simp
qed

subsection \<open>Frames\<close>

lemma header_frame:
  assumes "8 \<le> o1" and "o1 + length bs \<le> length p"
  shows "pd_lower (wr p o1 bs) = pd_lower p" and "pd_upper (wr p o1 bs) = pd_upper p"
    and "pd_special (wr p o1 bs) = pd_special p" and "od_pagesize (wr p o1 bs) = od_pagesize p"
  using assms by (simp_all add: pd_lower_def pd_upper_def pd_special_def od_pagesize_def rd_wr_before)

lemma linp_frame:
  assumes "12 + 4 * i \<le> o1 \<or> o1 + length bs \<le> 8 + 4 * i" and "o1 + length bs \<le> length p"
  shows "linp (wr p o1 bs) i = linp p i"
  using assms by (auto simp: linp_def rd_wr_before rd_wr_after)

lemma set_header_simps:
  assumes "8 \<le> length p"
  shows "pd_lower (set_pd_lower p v) = v" "pd_upper (set_pd_lower p v) = pd_upper p"
    "pd_special (set_pd_lower p v) = pd_special p" "od_pagesize (set_pd_lower p v) = od_pagesize p"
    "pd_lower (set_pd_upper p v) = pd_lower p" "pd_upper (set_pd_upper p v) = v"
    "pd_special (set_pd_upper p v) = pd_special p" "od_pagesize (set_pd_upper p v) = od_pagesize p"
    "pd_lower (set_pd_special p v) = pd_lower p" "pd_upper (set_pd_special p v) = pd_upper p"
    "pd_special (set_pd_special p v) = v" "od_pagesize (set_pd_special p v) = od_pagesize p"
    "pd_lower (set_od_pagesize p v) = pd_lower p" "pd_upper (set_od_pagesize p v) = pd_upper p"
    "pd_special (set_od_pagesize p v) = pd_special p" "od_pagesize (set_od_pagesize p v) = v"
    "length (set_pd_lower p v) = length p" "length (set_pd_upper p v) = length p"
    "length (set_pd_special p v) = length p" "length (set_od_pagesize p v) = length p"
    "linp (set_pd_lower p v) i = linp p i" "linp (set_pd_upper p v) i = linp p i"
  using assms
  by (simp_all add: pd_lower_def pd_upper_def pd_special_def od_pagesize_def linp_def set_pd_lower_def set_pd_upper_def
      set_pd_special_def set_od_pagesize_def length_wr rd_wr_same rd_wr_before rd_wr_after)

lemma rd_set_header:
  assumes "8 \<le> length p" and "8 \<le> o1"
  shows "rd (set_pd_lower p v) o1 n = rd p o1 n" "rd (set_pd_upper p v) o1 n = rd p o1 n"
  using assms by (simp_all add: set_pd_lower_def set_pd_upper_def rd_wr_after)

definition put_linp :: "page \<Rightarrow> nat \<Rightarrow> ItemIdData \<Rightarrow> page" where
  "put_linp p i x = wr p (8 + 4 * i) (le_bytes 4 (itemid_word x))"

lemma linp_access:
  assumes "12 + 4 * i \<le> length p"
  shows "get_linp p i = Some (linp p i)" "set_linp p i x = Some (put_linp p i x)"
  using assms by (simp_all add: get_linp_def set_linp_def rd_opt_def memmove_def linp_def put_linp_def)

lemma put_linp_simps:
  assumes "12 + 4 * i \<le> length p"
  shows "pd_lower (put_linp p i x) = pd_lower p" "pd_upper (put_linp p i x) = pd_upper p"
    "pd_special (put_linp p i x) = pd_special p" "od_pagesize (put_linp p i x) = od_pagesize p"
    "length (put_linp p i x) = length p" "linp (put_linp p i x) j = (if j = i then x else linp p j)"
    "12 + 4 * i \<le> o1 \<Longrightarrow> rd (put_linp p i x) o1 n = rd p o1 n"
proof -
  show "linp (put_linp p i x) j = (if j = i then x else linp p j)"
    using assms by (cases "j < i"; cases "i < j") (auto simp: linp_def put_linp_def rd_wr_same rd_wr_before rd_wr_after)
qed (use assms in \<open>simp_all add: put_linp_def header_frame length_wr rd_wr_after\<close>)

lemma nlines_cong: "pd_lower p = pd_lower q \<Longrightarrow> nlines p = nlines q"
  by (simp add: nlines_def)

lemma header_okD:
  assumes "header_ok p"
  shows "length p = 8192" and "unat (pd_lower p) = 8 + 4 * nlines p" and "nlines p \<le> 2046"
    and "8 + 4 * nlines p \<le> unat (pd_upper p)" and "unat (pd_upper p) \<le> unat (pd_special p)" and "unat (pd_special p) \<le> 8192"
proof -
  show "length p = 8192" "unat (pd_upper p) \<le> unat (pd_special p)" "unat (pd_special p) \<le> 8192"
    using assms by (simp_all add: header_ok_def BLCKSZ_def)
  have "8 \<le> unat (pd_lower p)" "4 dvd unat (pd_lower p) - 8"
    using assms by (auto simp: header_ok_def intro: dvd_diff_nat)
  then show lo: "unat (pd_lower p) = 8 + 4 * nlines p" by (simp add: nlines_def)
  show "8 + 4 * nlines p \<le> unat (pd_upper p)" using assms lo by (simp add: header_ok_def)
  then show "nlines p \<le> 2046" using assms by (simp add: header_ok_def BLCKSZ_def)
qed

lemma max_offset_eq: "header_ok p \<Longrightarrow> unat (PageGetMaxOffsetNumber p) = nlines p"
proof -
  assume "header_ok p"
  note h = header_okD [OF this]
  have "unat (pd_lower p) + 2 ^ 64 - 8 = 4 * nlines p + 2 ^ 64" using h(2) by simp
  then have "(unat (pd_lower p) + 2 ^ 64 - 8) mod 2 ^ 64 div 4 = nlines p" using h(3) by simp
  then show ?thesis using h(3) by (simp add: PageGetMaxOffsetNumber_def unat_of_nat)
qed

lemma line_access:
  assumes "header_ok p" and "i < nlines p"
  shows "get_linp p i = Some (linp p i)" and "12 + 4 * i \<le> unat (pd_lower p)" and "12 + 4 * i \<le> length p"
  using header_okD [OF assms(1)] assms(2) by (simp_all add: linp_access)

lemma page_okD:
  assumes "page_ok p"
  shows "header_ok p" and "\<And>i. i < nlines p \<Longrightarrow> ItemIdIsUsed (linp p i) \<Longrightarrow> item_ok p (linp p i)"
    and "\<And>i j. i < nlines p \<Longrightarrow> j < nlines p \<Longrightarrow> i \<noteq> j \<Longrightarrow> ItemIdIsUsed (linp p i) \<Longrightarrow> ItemIdIsUsed (linp p j) \<Longrightarrow>
      apart (linp p i) (linp p j)"
  using assms by (simp_all add: page_ok_def)

lemma length_contents [simp]: "length (contents p) = nlines p"
  by (simp add: contents_def)

lemma contents_nth: "i < nlines p \<Longrightarrow> contents p ! i = slot p (linp p i)"
  by (simp add: contents_def)

text \<open>An item that is not touched by a write keeps its bytes.\<close>

lemma slot_frame:
  assumes "ItemIdIsUsed x \<Longrightarrow> item_ok p x" and "\<And>o1 n. unat (pd_upper p) \<le> o1 \<Longrightarrow> rd q o1 n = rd p o1 n"
  shows "slot q x = slot p x"
  using assms by (auto simp: slot_def item_bytes_def item_ok_def)

subsection \<open>Placing an item below the tuple space\<close>

text \<open>
  The writes of \<open>PageAddItem\<close> once the offset number is fixed: the line pointer at index \<open>k\<close>,
  the bytes of the item, the two bounds of the free space.
\<close>

definition placed :: "page \<Rightarrow> nat \<Rightarrow> ItemIdData \<Rightarrow> byte list \<Rightarrow> uint16 \<Rightarrow> uint16 \<Rightarrow> page" where
  "placed p k x bs lower upper = set_pd_upper (set_pd_lower (wr (put_linp p k x) (unat upper) bs) lower) upper"

lemma placed_views:
  fixes x :: ItemIdData
  assumes "length p = 8192" and "12 + 4 * k \<le> unat lower" and "unat lower \<le> unat upper"
    and "unat upper + length bs \<le> 8192"
  defines "q \<equiv> placed p k x bs lower upper"
  shows "length q = 8192" and "pd_lower q = lower" and "pd_upper q = upper" and "pd_special q = pd_special p"
    and "od_pagesize q = od_pagesize p" and "12 + 4 * j \<le> unat upper \<Longrightarrow> linp q j = (if j = k then x else linp p j)"
    and "rd q (unat upper) (length bs) = bs"
    and "unat upper + length bs \<le> o1 \<Longrightarrow> rd q o1 n = rd p o1 n"
proof -
  let ?a = "put_linp p k x" and ?b = "wr (put_linp p k x) (unat upper) bs"
  note a = put_linp_simps [where i = k and p = p and x = x]
  have k: "12 + 4 * k \<le> length p" using assms by simp
  have fit: "unat upper + length bs \<le> length ?a" using assms k by (simp add: a)
  have up8: "8 \<le> unat upper" using assms by simp
  have b8: "8 \<le> length ?b" using assms k fit by (simp add: length_wr a)
  note hdr = header_frame [OF up8 fit] and sets = set_header_simps
  show "length q = 8192" "pd_lower q = lower" "pd_upper q = upper" "pd_special q = pd_special p" "od_pagesize q = od_pagesize p"
    using assms k b8 hdr fit by (simp_all add: q_def placed_def sets a length_wr)
  show "linp q j = (if j = k then x else linp p j)" if "12 + 4 * j \<le> unat upper"
    using that b8 linp_frame [of j "unat upper" bs ?a] fit k by (simp add: q_def placed_def sets a)
  show "rd q (unat upper) (length bs) = bs"
    using b8 up8 fit by (simp add: q_def placed_def rd_set_header sets rd_wr_same)
  show "rd q o1 n = rd p o1 n" if "unat upper + length bs \<le> o1"
    using that b8 up8 fit k assms(2,3) by (simp add: q_def placed_def rd_set_header sets rd_wr_after a(7))
qed

lemma place_item:
  assumes ok: "page_ok p" and k: "k \<le> nlines p" and free: "k < nlines p \<Longrightarrow> \<not> ItemIdIsUsed (linp p k)"
    and lower: "unat lower = (if k = nlines p then unat (pd_lower p) + 4 else unat (pd_lower p))"
    and upper: "unat upper + al (length bs) = unat (pd_upper p)" "unat lower \<le> unat upper"
    and bs: "bs \<noteq> []" and x: "ioff x = unat upper" "ilen x = length bs" "ItemIdIsUsed x"
  defines "q \<equiv> placed p k x bs lower upper"
  shows "page_ok q" and "contents q = (if k = nlines p then contents p @ [Some bs] else (contents p)[k := Some bs])"
    and "nlines q = (if k = nlines p then Suc k else nlines p)"
proof -
  note h = header_okD [OF page_okD(1) [OF ok]]
  have al: "length bs \<le> al (length bs)" by (rule al_bounds)
  have klow: "12 + 4 * k \<le> unat lower" using lower h(2) k by auto
  have fit: "unat upper + length bs \<le> 8192" using upper(1) al h(5,6) by linarith
  note q = placed_views [OF h(1) klow upper(2) fit, where x = x, folded q_def]
  show nl: "nlines q = (if k = nlines p then Suc k else nlines p)"
    unfolding nlines_def [of q] q(2) lower h(2) by simp
  have line: "linp q j = (if j = k then x else linp p j)" if "j < nlines q" for j
    using that q(6) nl upper(2) lower h(2) k by (auto split: if_splits)
  have old: "j < nlines p" if "j < nlines q" "j \<noteq> k" for j using that nl by (auto split: if_splits)
  have ext: "iend x = unat (pd_upper p)" using x upper(1) by (simp add: iend_def)
  have up: "unat upper \<le> unat (pd_upper p)" using upper(1) by simp
  have iok: "item_ok q (linp q j)" if "j < nlines q" "ItemIdIsUsed (linp q j)" for j
  proof (cases "j = k")
    case True
    then show ?thesis using line [OF that(1)] x bs ext h(5) by (simp add: item_ok_def q)
  next
    case False
    then have "item_ok p (linp p j)" using that line [OF that(1)] old page_okD(2) [OF ok] by simp
    then show ?thesis using False line [OF that(1)] up by (simp add: item_ok_def q)
  qed
  have new: "apart x (linp p j) \<and> apart (linp p j) x" if "j < nlines p" "ItemIdIsUsed (linp p j)" for j
    using page_okD(2) [OF ok that] ext by (simp add: apart_def item_ok_def)
  have "apart (linp q i) (linp q j)"
    if "i < nlines q" "j < nlines q" "i \<noteq> j" "ItemIdIsUsed (linp q i)" "ItemIdIsUsed (linp q j)" for i j
    using that line [OF that(1)] line [OF that(2)] old [OF that(1)] old [OF that(2)] new page_okD(3) [OF ok]
    by (cases "i = k"; cases "j = k") simp_all
  moreover have "header_ok q"
    using page_okD(1) [OF ok] lower upper(2) up h by (auto simp: header_ok_def q)
  ultimately show "page_ok q" using iok by (simp add: page_ok_def)
  have "contents q ! j = (if j = k then Some bs else contents p ! j)" if j: "j < nlines q" for j
  proof (cases "j = k")
    case True
    then show ?thesis using j line [OF j] x q(7) by (simp add: contents_nth slot_def item_bytes_def)
  next
    case False
    have "slot q (linp p j) = slot p (linp p j)"
      using page_okD(2) [OF ok old [OF j False]] upper(1) al q(8) by (intro slot_frame) simp_all
    then show ?thesis using False j line [OF j] old [OF j False] by (simp add: contents_nth)
  qed
  then show "contents q = (if k = nlines p then contents p @ [Some bs] else (contents p)[k := Some bs])"
    using nl k by (intro nth_equalityI) (auto simp: nth_append nth_list_update split: if_splits)
qed

subsection \<open>PageAddItem without an offset number\<close>

definition recyclable :: "page \<Rightarrow> nat \<Rightarrow> bool" where
  "recyclable p i \<longleftrightarrow> \<not> ItemIdIsUsed (linp p i) \<and> lp_len (linp p i) = 0"

text \<open>The index the search finds: the first recyclable line pointer, or the next new one.\<close>

definition free_slot :: "page \<Rightarrow> nat" where
  "free_slot p = (case find (recyclable p) [0 ..< nlines p] of Some i \<Rightarrow> i | None \<Rightarrow> nlines p)"

lemma free_slot_le: "free_slot p \<le> nlines p"
  by (auto simp: free_slot_def find_Some_iff split: option.splits)

lemma free_slot_recyclable:
  assumes "free_slot p < nlines p"
  shows "recyclable p (free_slot p)"
proof -
  have "find (recyclable p) [0 ..< nlines p] = Some (free_slot p)"
    using assms by (simp add: free_slot_def split: option.splits)
  then show ?thesis by (auto simp: find_Some_iff)
qed

lemma find_recyclable_eq:
  assumes "header_ok p" and "Suc n = off + m" and "n = nlines p" and "1 \<le> off"
  shows "find_recyclable p m off =
    Some (case find (recyclable p) [off - 1 ..< nlines p] of Some i \<Rightarrow> Suc i | None \<Rightarrow> Suc (nlines p))"
  using assms(2-)
proof (induction m arbitrary: off)
  case (Suc m)
  then have lt: "off - 1 < nlines p" by simp
  moreover have "[off - 1 ..< nlines p] = (off - 1) # [off ..< nlines p]" using lt Suc.prems by (simp add: upt_rec)
  ultimately show ?case
    using Suc.IH [of "Suc off"] Suc.prems line_access(1) [OF assms(1) lt] by (simp add: recyclable_def)
qed simp

lemma add_offset_free:
  assumes "header_ok p" and "\<not> OffsetNumberIsValid off"
  shows "add_offset s p (1 + PageGetMaxOffsetNumber p) off = Some (Some (p, of_nat (Suc (free_slot p)), False))"
proof -
  have "nlines p \<le> 2046" by (rule header_okD(3) [OF assms(1)])
  then have u: "unat (1 + PageGetMaxOffsetNumber p) = Suc (nlines p)"
    using max_offset_eq [OF assms(1)] by (simp add: unat_inc_no_wrap add.commute [of 1])
  have "find_recyclable p (nlines p) 1 = Some (Suc (free_slot p))"
    using find_recyclable_eq [OF assms(1), of "nlines p" 1 "nlines p"] by (simp add: free_slot_def split: option.splits)
  then show ?thesis using assms(2) by (simp add: add_offset_def u)
qed

text \<open>The signed subtraction of the code, for sizes that are not absurd.\<close>

lemma upper_eq:
  assumes "unat sz \<le> 2 ^ 30"
  shows "sint (ucast (u::uint16) - DOUBLEALIGN sz :: uint32) = int (unat u) - int (al (unat sz))"
proof -
  have d: "unat (DOUBLEALIGN sz) = al (unat sz)" using assms by (intro unat_DOUBLEALIGN) simp
  moreover have u: "unat (ucast u :: uint32) = unat u" by (simp add: unat_ucast_up)
  moreover have "unat u < 2 ^ 31" using unsigned_less [of u, where 'a = nat] by simp
  moreover have "al (unat sz) \<le> 2 ^ 31" using al_bounds(2) [of "unat sz"] assms by simp
  ultimately show ?thesis by (subst sint_diff) simp_all
qed

definition need :: "page \<Rightarrow> nat \<Rightarrow> nat" where
  "need p k = (if k = nlines p then unat (pd_lower p) + 4 else unat (pd_lower p))"

definition new_linp :: "nat \<Rightarrow> uint16 \<Rightarrow> size_word \<Rightarrow> ItemIdData" where
  "new_linp upper flags sz = \<lparr>lp_off = of_nat upper, lp_flags = ucast flags, lp_len = ucast sz\<rparr>"

text \<open>The rest of \<open>PageAddItem\<close> once the index \<open>k\<close> and the lower bound are settled.\<close>

lemma finish_add:
  assumes "length p = 8192" and "12 + 4 * k \<le> lower" and "lower \<le> u" and "u + unat sz \<le> 8192"
    and "length item = unat sz" and "0 < k'" and "k' - 1 = k"
  shows "(if int u < int lower then Some (p, InvalidOffsetNumber)
     else do {
       p \<leftarrow> set_linp p (k' - 1) \<lparr>lp_off = of_int (int u), lp_flags = ucast flags, lp_len = ucast sz\<rparr>;
       bs \<leftarrow> rd_opt item 0 (unat sz);
       p \<leftarrow> memmove p (nat (int u)) bs;
       Some (set_pd_upper (set_pd_lower p (of_int (int lower))) (of_int (int u)), off)
     }) = Some (placed p k (new_linp u flags sz) item (of_nat lower) (of_nat u), off)"
proof -
  have "12 + 4 * k \<le> length p" using assms by simp
  moreover have "unat (of_nat u :: uint16) = u" using assms by (subst unat_of_nat) simp
  ultimately show ?thesis
    using assms put_linp_simps(5) [of k p]
    by (simp add: linp_access rd_opt_def rd_def memmove_def placed_def new_linp_def)
qed

lemma PageAddItem_eq:
  assumes ok: "page_ok p" and off: "\<not> OffsetNumberIsValid off" and item: "length item = unat sz" and sz: "unat sz \<le> 2 ^ 30"
  defines "k \<equiv> free_slot p" and "u \<equiv> unat (pd_upper p) - al (unat sz)"
  shows "PageAddItem s p item sz off flags =
    (if need p k + al (unat sz) \<le> unat (pd_upper p)
     then Some (placed p k (new_linp u flags sz) item (of_nat (need p k)) (of_nat u), of_nat (Suc k))
     else Some (p, InvalidOffsetNumber))"
proof -
  have hk: "header_ok p" by (rule page_okD(1) [OF ok])
  note h = header_okD [OF hk]
  have k: "k \<le> nlines p" unfolding k_def by (rule free_slot_le)
  have lim: "unat (1 + PageGetMaxOffsetNumber p) = Suc (nlines p)"
    using h(3) max_offset_eq [OF hk] by (simp add: unat_inc_no_wrap add.commute [of 1])
  have ro: "unat (of_nat (Suc k) :: uint16) = Suc k" using k h(3) by (subst unat_of_nat) simp
  have cmp: "\<not> 1 + PageGetMaxOffsetNumber p < of_nat (Suc k)" "of_nat (Suc k) = 1 + PageGetMaxOffsetNumber p \<longleftrightarrow> k = nlines p"
    using k unfolding word_less_nat_alt word_unat_eq_iff ro lim by auto
  let ?u = "int (unat (pd_upper p)) - int (al (unat sz))"
  note ao = add_offset_free [OF hk off, of s, folded k_def] and ue = upper_eq [OF sz, of "pd_upper p"]
  have ev: "PageAddItem s p item sz off flags =
      (if ?u < int (need p k) then Some (p, InvalidOffsetNumber)
       else do {
         q \<leftarrow> set_linp p (unat (of_nat (Suc k) :: uint16) - 1) \<lparr>lp_off = of_int ?u, lp_flags = ucast flags, lp_len = ucast sz\<rparr>;
         bs \<leftarrow> rd_opt item 0 (unat sz);
         q \<leftarrow> memmove q (nat ?u) bs;
         Some (set_pd_upper (set_pd_lower q (of_int (int (need p k)))) (of_int ?u), of_nat (Suc k))
       })"
  proof -
    have "(if 1 + PageGetMaxOffsetNumber p < of_nat (Suc k) then 8 + 4 * int (unat (of_nat (Suc k) :: uint16))
      else if of_nat (Suc k) = 1 + PageGetMaxOffsetNumber p \<or> False then int (unat (pd_lower p)) + 4
      else int (unat (pd_lower p))) = int (need p k)"
      using cmp by (simp add: need_def)
    then show ?thesis unfolding PageAddItem_def Let_def by (simp only: bind.simps ao option.case prod.case ue)
  qed
  show ?thesis
  proof (cases "need p k + al (unat sz) \<le> unat (pd_upper p)")
    case True
    then have u: "?u = int u" "need p k \<le> u" by (simp_all add: u_def)
    have "12 + 4 * k \<le> need p k" using k h(2) by (auto simp: need_def)
    moreover have "u + unat sz \<le> 8192"
      using True al_bounds(1) [of "unat sz"] h(5,6) unfolding u_def by linarith
    ultimately show ?thesis
      using True u(2) finish_add [OF h(1) _ u(2) _ item, of k "unat (of_nat (Suc k) :: uint16)"] ro
      unfolding ev u(1) by simp
  next
    case False
    then have "?u < int (need p k)" by linarith
    with False show ?thesis unfolding ev by (simp only: if_True if_False)
  qed
qed

lemma new_linp_views:
  assumes "u < 8192" and "unat sz < 8192" and "(ucast flags :: 6 word) AND LP_USED \<noteq> 0"
  shows "ioff (new_linp u flags sz) = u" and "ilen (new_linp u flags sz) = unat sz"
    and "ItemIdIsUsed (new_linp u flags sz)"
proof -
  show "ItemIdIsUsed (new_linp u flags sz)" using assms(3) by (simp add: ItemIdIsUsed_def new_linp_def)
  show "ioff (new_linp u flags sz) = u" using assms(1) by (simp add: ioff_def new_linp_def unat_of_nat)
  have "unat (ucast sz :: 13 word) = unat sz mod 2 ^ 13" by (simp add: unsigned_ucast_eq take_bit_eq_mod)
  then show "ilen (new_linp u flags sz) = unat sz" using assms(2) by (simp add: ilen_def new_linp_def)
qed

lemma PageAddItem_free:
  assumes ok: "page_ok p" and off: "\<not> OffsetNumberIsValid off" and item: "length item = unat sz" "item \<noteq> []"
    and sz: "unat sz \<le> 2 ^ 30" and fl: "(ucast flags :: 6 word) AND LP_USED \<noteq> 0"
    and fit: "need p (free_slot p) + al (unat sz) \<le> unat (pd_upper p)"
  shows "rets (PageAddItem s p item sz off flags) (\<lambda>(q, r). r = of_nat (Suc (free_slot p)) \<and> page_ok q \<and>
    contents q = (if free_slot p = nlines p then contents p @ [Some item] else (contents p)[free_slot p := Some item]))"
proof -
  note h = header_okD [OF page_okD(1) [OF ok]]
  let ?k = "free_slot p" and ?u = "unat (pd_upper p) - al (unat sz)"
  have pos: "0 < unat sz" using item by (cases item) simp_all
  have al: "unat sz \<le> al (unat sz)" by (rule al_bounds)
  have n8: "8 \<le> need p ?k" using h(2) by (simp add: need_def)
  have b: "?u < 8192" "unat sz < 8192" using fit pos al h(5,6) n8 by linarith+
  note x = new_linp_views [OF b fl]
  have w: "unat (of_nat (need p ?k) :: uint16) = need p ?k" "unat (of_nat ?u :: uint16) = ?u"
    using b(1) fit h(5,6) by (subst unat_of_nat, simp)+
  have "page_ok (placed p ?k (new_linp ?u flags sz) item (of_nat (need p ?k)) (of_nat ?u))"
    "contents (placed p ?k (new_linp ?u flags sz) item (of_nat (need p ?k)) (of_nat ?u)) =
       (if ?k = nlines p then contents p @ [Some item] else (contents p)[?k := Some item])"
    by (rule place_item [OF ok free_slot_le];
        use w x item fit free_slot_recyclable in \<open>auto simp: need_def recyclable_def\<close>)+
  then show ?thesis using fit by (simp add: PageAddItem_eq [OF ok off item(1) sz])
qed

end
