(* ===== verification/Page_Compact.thy ===== *)
theory Page_Compact
  imports Page_Inv
begin

text \<open>
  \<open>PageRepairFragmentation\<close>: the used items are sorted by descending offset and moved up
  against the special space one by one. An item is moved over free space or over its own old
  place only, so every item keeps its bytes.
\<close>

interpretation item_order: cmp_order itemidcompare
  by unfold_locales (auto simp: itemidcompare_def split: if_splits)

lemma sorted_items: "sorted_wrt item_order.le xs \<Longrightarrow> sorted_wrt (\<lambda>a b. ioff (itemiddata b) \<le> ioff (itemiddata a)) xs"
proof (rule sorted_wrt_mono_rel [rotated])
  fix a b
  assume "item_order.le a b"
  then show "ioff (itemiddata b) \<le> ioff (itemiddata a)"
    by (auto simp: item_order.le_def itemidcompare_def ioff_def word_less_nat_alt not_less split: if_splits)
qed

subsection \<open>Loops over the line pointers\<close>

text \<open>\<open>relined p q g\<close>: \<open>q\<close> is \<open>p\<close> with line pointer \<open>i\<close> replaced by \<open>g i\<close>.\<close>

definition relined :: "page \<Rightarrow> page \<Rightarrow> (nat \<Rightarrow> ItemIdData) \<Rightarrow> bool" where
  "relined p q g \<longleftrightarrow> length q = length p \<and> pd_lower q = pd_lower p \<and> pd_upper q = pd_upper p \<and>
     pd_special q = pd_special p \<and> od_pagesize q = od_pagesize p \<and> (\<forall>i<nlines p. linp q i = g i) \<and>
     (\<forall>o1 n. unat (pd_lower p) \<le> o1 \<longrightarrow> rd q o1 n = rd p o1 n)"

lemma relined_refl: "relined p p (linp p)"
  by (simp add: relined_def)

lemma relined_put:
  assumes "header_ok p" and "relined p q g" and "i < nlines p"
  shows "relined p (put_linp q i x) (g(i := x))"
  using assms line_access(2,3) [OF assms(1,3)] by (auto simp: relined_def put_linp_simps)

lemma relined_access:
  assumes "header_ok p" and "relined p q g" and "i < nlines p"
  shows "get_linp q i = Some (g i)" and "set_linp q i x = Some (put_linp q i x)"
  using assms line_access(3) [OF assms(1,3)] by (simp_all add: relined_def linp_access)

lemma relined_header: "header_ok p \<Longrightarrow> relined p q g \<Longrightarrow> header_ok q"
  by (simp add: relined_def header_ok_def)

lemma count_used_eq:
  assumes "header_ok p" and "n \<le> nlines p"
  shows "count_used p n = Some (length (filter (\<lambda>i. ItemIdIsUsed (linp p i)) [0 ..< n]))"
proof -
  have "rets (count_used p n) (\<lambda>c. c = length (filter (\<lambda>i. ItemIdIsUsed (linp p i)) [0 ..< n]))"
    unfolding count_used_def
    by (rule rets_for_loop [where I = "\<lambda>i c. c = length (filter (\<lambda>i. ItemIdIsUsed (linp p i)) [0 ..< i])"])
      (use assms line_access(1) [OF assms(1)] in auto)
  then show ?thesis by (auto simp: rets_def)
qed

definition freed :: "page \<Rightarrow> nat \<Rightarrow> ItemIdData" where
  "freed p i = (if ItemIdIsUsed (linp p i) then linp p i else (linp p i)\<lparr>lp_len := 0\<rparr>)"

lemma update_same_len: "\<not> 0 < lp_len x \<Longrightarrow> x\<lparr>lp_len := 0\<rparr> = x"
  by (cases x) (simp add: word_gt_0)

lemma collect_used_ok:
  assumes "header_ok p"
  shows "rets (collect_used p (nlines p)) (\<lambda>(q, base). relined p q (freed p) \<and>
    base = map (\<lambda>i. \<lparr>offsetindex = i, itemiddata = linp p i\<rparr>) (filter (\<lambda>i. ItemIdIsUsed (linp p i)) [0 ..< nlines p]))"
proof -
  let ?g = "\<lambda>n i. if i < n then freed p i else linp p i"
  let ?I = "\<lambda>n (q, base). relined p q (?g n) \<and>
    base = map (\<lambda>i. \<lparr>offsetindex = i, itemiddata = linp p i\<rparr>) (filter (\<lambda>i. ItemIdIsUsed (linp p i)) [0 ..< n])"
  have upd: "?g (Suc n) = (?g n)(n := freed p n)" for n by (auto simp: fun_eq_iff)
  have keep: "(?g n)(n := linp p n) = ?g n" for n by (auto simp: fun_eq_iff)
  have "rets (collect_used p (nlines p)) (?I (nlines p))"
    unfolding collect_used_def
  proof (rule rets_for_loop [where I = ?I])
    show "?I 0 (p, [])" by (simp add: relined_refl)
    fix i s
    assume i: "i < nlines p" and I: "?I i s"
    obtain q base where s: "s = (q, base)" by (cases s)
    have q: "relined p q (?g i)" using I s by simp
    note acc = relined_access [OF assms q i]
    show "rets (case s of (p, base) \<Rightarrow> do {
        x \<leftarrow> get_linp p i;
        if ItemIdIsUsed x then Some (p, base @ [\<lparr>offsetindex = i, itemiddata = x\<rparr>])
        else if 0 < lp_len x then do { p \<leftarrow> set_linp p i (x\<lparr>lp_len := 0\<rparr>); Some (p, base) }
        else Some (p, base) }) (?I (Suc i))"
    proof (cases "ItemIdIsUsed (linp p i) \<or> \<not> 0 < lp_len (linp p i)")
      case True
      then have "freed p i = linp p i" by (auto simp: freed_def update_same_len)
      then have "?g (Suc i) = ?g i" using upd keep by simp
      then show ?thesis using True acc I s by auto
    next
      case False
      then have "freed p i = (linp p i)\<lparr>lp_len := 0\<rparr>" by (simp add: freed_def)
      then show ?thesis
        using False acc I s relined_put [OF assms q i, of "(linp p i)\<lparr>lp_len := 0\<rparr>"] upd by simp
    qed
  qed simp
  moreover have "relined p q (?g (nlines p)) = relined p q (freed p)" for q by (simp add: relined_def)
  ultimately show ?thesis by (auto elim!: rets_mono)
qed

lemma dealloc_all_ok:
  assumes "header_ok p" and "\<forall>i<nlines p. \<not> ItemIdIsUsed (linp p i)"
  shows "rets (dealloc_all p (nlines p)) (\<lambda>q. relined p q (freed p))"
proof -
  let ?g = "\<lambda>n i. if i < n then freed p i else linp p i"
  have upd: "?g (Suc n) = (?g n)(n := freed p n)" for n by (auto simp: fun_eq_iff)
  have keep: "(?g n)(n := linp p n) = ?g n" for n by (auto simp: fun_eq_iff)
  have "rets (dealloc_all p (nlines p)) (\<lambda>q. relined p q (?g (nlines p)))"
    unfolding dealloc_all_def
  proof (rule rets_for_loop [where I = "\<lambda>n q. relined p q (?g n)"])
    fix i q
    assume i: "i < nlines p" and q: "relined p q (?g i)"
    note acc = relined_access [OF assms(1) q i]
    have fr: "freed p i = (linp p i)\<lparr>lp_len := 0\<rparr>" using assms(2) i by (simp add: freed_def)
    show "rets (do { x \<leftarrow> get_linp q i; if 0 < lp_len x then set_linp q i (x\<lparr>lp_len := 0\<rparr>) else Some q })
        (\<lambda>q. relined p q (?g (Suc i)))"
    proof (cases "0 < lp_len (linp p i)")
      case True
      then show ?thesis using acc q relined_put [OF assms(1) q i, of "(linp p i)\<lparr>lp_len := 0\<rparr>"] upd fr by simp
    next
      case False
      then have "freed p i = linp p i" unfolding fr by (rule update_same_len)
      then have "?g (Suc i) = ?g i" using upd keep by simp
      then show ?thesis using False acc q by simp
    qed
  qed (simp_all add: relined_refl)
  moreover have "relined p q (?g (nlines p)) = relined p q (freed p)" for q by (simp add: relined_def)
  ultimately show ?thesis by simp
qed

subsection \<open>One move\<close>

lemma compact_item_ok:
  assumes h: "header_ok p" and i: "i < nlines p" and x: "x = linp p i" "unat (pd_lower p) \<le> ioff x" "iend x \<le> unat (pd_upper p)"
    and pos: "0 < ilen x"
  defines "u \<equiv> unat (pd_upper p) - al (ilen x)"
  shows "rets (compact_item p i) (\<lambda>q. header_ok q \<and> pd_lower q = pd_lower p \<and> pd_special q = pd_special p \<and>
    unat (pd_upper q) = u \<and> (\<forall>j<nlines p. linp q j = (if j = i then x\<lparr>lp_off := of_nat u\<rparr> else linp p j)) \<and>
    rd q u (ilen x) = item_bytes p x \<and> (\<forall>o1 n. unat (pd_lower p) \<le> o1 \<and> (o1 + n \<le> u \<or> unat (pd_upper p) \<le> o1) \<longrightarrow> rd q o1 n = rd p o1 n))"
proof -
  note hd = header_okD [OF h]
  note la = line_access [OF h i]
  have al: "ilen x \<le> al (ilen x)" by (rule al_bounds)
  have len: "ilen x < 8192" unfolding ilen_def using unsigned_less [of "lp_len x", where 'a = nat] by simp
  have uc: "unat (ucast (lp_len x) :: uint32) = ilen x" by (simp add: unat_ucast_up ilen_def)
  have fit: "ioff x + al (ilen x) \<le> unat (pd_upper p)" using x(3) by (simp add: iend_def)
  have up: "sint (ucast (pd_upper p) - DOUBLEALIGN (ucast (lp_len x)) :: uint32) = int u"
    using upper_eq [of "ucast (lp_len x)" "pd_upper p"] fit len unfolding uc u_def by simp
  have lo: "unat (pd_lower p) \<le> u" "u + ilen x \<le> unat (pd_upper p)" "u < 8192"
    using fit x(2) al hd(5,6) pos unfolding u_def by linarith+
  let ?bs = "item_bytes p x"
  have rdx: "ioff x + ilen x \<le> length p" using fit al hd by linarith
  have lbs: "length ?bs = ilen x" unfolding item_bytes_def by (rule length_rd [OF rdx])
  have wfit: "u + length ?bs \<le> length p" using lo lbs hd by linarith
  let ?a = "wr p u ?bs"
  have a8: "8 \<le> u" "length ?a = length p" using lo hd(2) wfit by (simp_all add: length_wr)
  note hf = header_frame [OF a8(1) wfit]
  have la_a: "linp ?a j = linp p j" if "j < nlines p" for j
    using line_access(2) [OF h that] lo wfit by (intro linp_frame) auto
  let ?b = "put_linp ?a i (x\<lparr>lp_off := of_nat u\<rparr>)"
  have ia: "12 + 4 * i \<le> length ?a" using la a8 by simp
  note pb = put_linp_simps [where i = i and p = ?a and x = "x\<lparr>lp_off := of_nat u\<rparr>", OF ia]
  have b8: "8 \<le> length ?b" using pb(5) a8 hd by simp
  have ev: "compact_item p i = Some (set_pd_upper ?b (of_nat u))"
    using la up x(1) rdx wfit ia la_a [OF i] lbs
    by (simp add: compact_item_def rd_opt_def ioff_def ilen_def item_bytes_def memmove_def linp_access)
  have u16: "unat (of_nat u :: uint16) = u" using lo(3) by (subst unat_of_nat) simp
  let ?q = "set_pd_upper ?b (of_nat u)"
  have "header_ok ?q"
    using h b8 pb hf lo hd a8 u16 by (simp add: header_ok_def set_header_simps)
  moreover have "linp ?q j = (if j = i then x\<lparr>lp_off := of_nat u\<rparr> else linp p j)" if "j < nlines p" for j
    using b8 pb(6) la_a [OF that] by (simp add: set_header_simps)
  moreover have rdq: "rd ?q o1 n = rd ?a o1 n" if "unat (pd_lower p) \<le> o1" for o1 n
    using that la(2) hd(2) b8 by (simp add: rd_set_header pb(7))
  moreover have "rd ?a u (ilen x) = ?bs" using lbs wfit by (simp add: rd_wr_same)
  moreover have "rd ?a o1 n = rd p o1 n" if "o1 + n \<le> u \<or> unat (pd_upper p) \<le> o1" for o1 n
    using that wfit lo lbs by (auto simp: rd_wr_before rd_wr_after)
  ultimately show ?thesis
    using ev b8 pb hf lo(1) u16 by (simp add: set_header_simps)
qed

subsection \<open>All moves\<close>

text \<open>Items to be moved, highest first: each ends below the one before it.\<close>

definition descending :: "page \<Rightarrow> itemIdSortData list \<Rightarrow> bool" where
  "descending p xs \<longleftrightarrow> distinct (map offsetindex xs) \<and>
     sorted_wrt (\<lambda>a b. iend (itemiddata b) \<le> ioff (itemiddata a)) xs \<and>
     (\<forall>x\<in>set xs. offsetindex x < nlines p \<and> linp p (offsetindex x) = itemiddata x \<and> 0 < ilen (itemiddata x) \<and>
        unat (pd_lower p) \<le> ioff (itemiddata x) \<and> iend (itemiddata x) \<le> unat (pd_upper p))"

text \<open>Item \<open>i\<close> of \<open>p\<close> is found again in \<open>q\<close>, with the same flags and bytes, between two bounds.\<close>

definition moved :: "page \<Rightarrow> page \<Rightarrow> nat \<Rightarrow> nat \<Rightarrow> bool" where
  "moved p q top1 i \<longleftrightarrow> lp_flags (linp q i) = lp_flags (linp p i) \<and> lp_len (linp q i) = lp_len (linp p i) \<and>
     item_bytes q (linp q i) = item_bytes p (linp p i) \<and> unat (pd_upper q) \<le> ioff (linp q i) \<and> iend (linp q i) \<le> top1"

definition compacted :: "page \<Rightarrow> page \<Rightarrow> nat set \<Rightarrow> bool" where
  "compacted p q I \<longleftrightarrow> header_ok q \<and> pd_lower q = pd_lower p \<and> pd_special q = pd_special p \<and>
     (\<forall>i<nlines p. i \<notin> I \<longrightarrow> linp q i = linp p i) \<and> (\<forall>i\<in>I. moved p q (unat (pd_upper p)) i) \<and>
     (\<forall>i\<in>I. \<forall>j\<in>I. i \<noteq> j \<longrightarrow> apart (linp q i) (linp q j)) \<and>
     (\<forall>o1 n. unat (pd_upper p) \<le> o1 \<longrightarrow> rd q o1 n = rd p o1 n)"

lemma descending_step:
  assumes d: "descending p (x # xs)" and h: "header_ok p" and q: "header_ok q" "pd_lower q = pd_lower p"
    "unat (pd_upper q) = unat (pd_upper p) - al (ilen (itemiddata x))"
    "\<And>j. j < nlines p \<Longrightarrow> j \<noteq> offsetindex x \<Longrightarrow> linp q j = linp p j"
  shows "descending q xs"
proof -
  have n: "nlines q = nlines p" using q(2) by (rule nlines_cong)
  have "iend (itemiddata y) \<le> unat (pd_upper q)" if "y \<in> set xs" for y
  proof -
    have "iend (itemiddata y) \<le> ioff (itemiddata x)" "iend (itemiddata x) \<le> unat (pd_upper p)"
      using d that by (simp_all add: descending_def)
    then show ?thesis unfolding q(3) iend_def by linarith
  qed
  moreover have "offsetindex y \<noteq> offsetindex x" if "y \<in> set xs" for y
    using d that by (simp add: descending_def image_iff) metis
  ultimately show ?thesis using d q(2,4) n by (simp add: descending_def)
qed

lemma compact_items_ok:
  assumes "header_ok p" and "descending p xs"
  shows "rets (compact_items xs p) (\<lambda>q. compacted p q (offsetindex ` set xs) \<and>
    unat (pd_upper q) + sum_list (map (\<lambda>x. al (ilen (itemiddata x))) xs) = unat (pd_upper p))"
  using assms
proof (induction xs arbitrary: p)
  case Nil
  then show ?case by (simp add: compacted_def)
next
  case (Cons x xs)
  define u where "u = unat (pd_upper p) - al (ilen (itemiddata x))"
  let ?i = "offsetindex x" and ?x = "itemiddata x" and ?I = "offsetindex ` set xs"
  have x: "?i < nlines p" "?x = linp p ?i" "unat (pd_lower p) \<le> ioff ?x" "iend ?x \<le> unat (pd_upper p)" "0 < ilen ?x"
    and notin: "?i \<notin> ?I" using Cons.prems(2) by (simp_all add: descending_def)
  obtain q where q: "compact_item p ?i = Some q" "header_ok q" "pd_lower q = pd_lower p" "pd_special q = pd_special p"
      "unat (pd_upper q) = u" "\<And>j. j < nlines p \<Longrightarrow> linp q j = (if j = ?i then ?x\<lparr>lp_off := of_nat u\<rparr> else linp p j)"
      "rd q u (ilen ?x) = item_bytes p ?x"
      "\<And>o1 n. unat (pd_lower p) \<le> o1 \<Longrightarrow> o1 + n \<le> u \<or> unat (pd_upper p) \<le> o1 \<Longrightarrow> rd q o1 n = rd p o1 n"
    using compact_item_ok [OF Cons.prems(1) x, folded u_def] unfolding rets_def by blast
  have n: "nlines q = nlines p" using q(3) by (rule nlines_cong)
  have dq: "descending q xs" using descending_step [OF Cons.prems(2,1) q(2,3)] q(5,6) by (simp add: u_def)
  obtain r where r: "compact_items xs q = Some r" "compacted q r ?I"
      "unat (pd_upper r) + sum_list (map (\<lambda>x. al (ilen (itemiddata x))) xs) = unat (pd_upper q)"
    using Cons.IH [OF q(2) dq] unfolding rets_def by blast
  have u: "u + al (ilen ?x) = unat (pd_upper p)" using x(4) by (simp add: iend_def u_def)
  have u13: "u < 8192" using x u header_okD(5,6) [OF Cons.prems(1)] al_bounds(1) [of "ilen ?x"] by linarith
  have rx: "linp r ?i = ?x\<lparr>lp_off := of_nat u\<rparr>" using r(2) notin x(1) n q(6) by (simp add: compacted_def)
  then have rx': "ioff (linp r ?i) = u" "ilen (linp r ?i) = ilen ?x"
    using u13 by (simp_all add: ioff_def ilen_def unat_of_nat)
  then have ex: "iend (linp r ?i) = unat (pd_upper p)" using u by (simp add: iend_def)
  have mx: "moved p r (unat (pd_upper p)) ?i"
    using rx rx' ex r(2,3) q(5,7) x(2) by (simp add: moved_def compacted_def item_bytes_def)
  have my: "moved p r (unat (pd_upper p)) j" "iend (linp r j) \<le> u" if j: "j \<in> ?I" for j
  proof -
    obtain y where y: "y \<in> set xs" "j = offsetindex y" using j by blast
    have "j < nlines p" using dq y n by (simp add: descending_def)
    moreover have "j \<noteq> ?i" using notin j by metis
    ultimately have jn: "linp q j = linp p j" using q(6) by simp
    have m: "moved q r u j" using r(2) j q(5) unfolding compacted_def by metis
    have "unat (pd_lower p) \<le> ioff (linp q j)" "ioff (linp q j) + ilen (linp q j) \<le> u"
      using dq y q(3,5) al_bounds(1) [of "ilen (linp q j)"] by (auto simp: descending_def iend_def)
    then have "item_bytes q (linp q j) = item_bytes p (linp q j)" unfolding item_bytes_def by (intro q(8)) auto
    then show "moved p r (unat (pd_upper p)) j" "iend (linp r j) \<le> u" using m jn u by (auto simp: moved_def)
  qed
  have ap: "apart (linp r i) (linp r j)" if "i \<in> insert ?i ?I" "j \<in> insert ?i ?I" "i \<noteq> j" for i j
    using that r(2) my(2) rx'(1) by (auto simp: compacted_def apart_def)
  have rdr: "rd r o1 n = rd p o1 n" if "unat (pd_upper p) \<le> o1" for o1 n
    using that r(2) q(5,8) u header_okD(2,4) [OF Cons.prems(1)] by (simp add: compacted_def)
  have "compacted p r (insert ?i ?I)"
    using r(2) q(3,4,6) n mx my(1) ap rdr by (auto simp: compacted_def)
  then show ?case using q(1,5) r(1,3) u by simp
qed

subsection \<open>The operation\<close>

definition used_lines :: "page \<Rightarrow> nat list" where
  "used_lines p = filter (\<lambda>i. ItemIdIsUsed (linp p i)) [0 ..< nlines p]"

lemma used_lines_simps [simp]:
  "i \<in> set (used_lines p) \<longleftrightarrow> i < nlines p \<and> ItemIdIsUsed (linp p i)" "distinct (used_lines p)"
  by (auto simp: used_lines_def)

definition sort_entry :: "page \<Rightarrow> nat \<Rightarrow> itemIdSortData" where
  "sort_entry p i = \<lparr>offsetindex = i, itemiddata = linp p i\<rparr>"

lemma iend_gt: "0 < ilen x \<Longrightarrow> ioff x < iend x"
  using al_bounds(1) [of "ilen x"] by (simp add: iend_def)

lemma sorted_descending:
  assumes ok: "page_ok p" and q: "relined p q (freed p)"
    and m: "mset xs = mset (map (sort_entry p) (used_lines p))" and sorted: "sorted_wrt item_order.le xs"
  shows "descending (set_pd_upper q (pd_special q)) xs"
proof -
  note h = header_okD [OF page_okD(1) [OF ok]]
  have set: "set xs = sort_entry p ` set (used_lines p)" using m by (metis list.set_map set_mset_mset)
  have "mset (map offsetindex xs) = mset (used_lines p)"
    using arg_cong [OF m, of "image_mset offsetindex"] by (simp add: sort_entry_def comp_def flip: mset_map)
  then have dis: "distinct (map offsetindex xs)" by (metis mset_eq_imp_distinct_iff used_lines_simps(2))
  have "sorted_wrt (\<lambda>a b. ioff (itemiddata b) \<le> ioff (itemiddata a)) xs" by (rule sorted_items [OF sorted])
  then have srt: "sorted_wrt (\<lambda>a b. iend (itemiddata b) \<le> ioff (itemiddata a)) xs"
    unfolding sorted_wrt_iff_nth_less
  proof (intro allI impI)
    fix i j
    assume le: "\<forall>i j. i < j \<longrightarrow> j < length xs \<longrightarrow> ioff (itemiddata (xs ! j)) \<le> ioff (itemiddata (xs ! i))"
      and ij: "i < j" "j < length xs"
    have "xs ! i \<in> sort_entry p ` set (used_lines p)" "xs ! j \<in> sort_entry p ` set (used_lines p)"
      using ij unfolding set [symmetric] by simp_all
    then obtain a b where ab: "xs ! i = sort_entry p a" "xs ! j = sort_entry p b" "a \<in> set (used_lines p)" "b \<in> set (used_lines p)"
      by (elim imageE)
    have "offsetindex (xs ! i) \<noteq> offsetindex (xs ! j)"
      using dis ij by (auto simp: distinct_conv_nth)
    then have "a \<noteq> b" using ab by auto
    then have "apart (linp p a) (linp p b)" using ab(3,4) page_okD(3) [OF ok] by simp
    moreover have "ioff (linp p a) < iend (linp p a)"
      using page_okD(2) [OF ok] ab(3) by (intro iend_gt) (simp add: item_ok_def)
    moreover have "ioff (linp p b) \<le> ioff (linp p a)" using le ij ab(1,2) by (metis itemIdSortData.select_convs(2) sort_entry_def)
    ultimately show "iend (itemiddata (xs ! j)) \<le> ioff (itemiddata (xs ! i))"
      using ab(1,2) by (auto simp: apart_def sort_entry_def)
  qed
  have q8: "8 \<le> length q" and hq: "header_ok q" using q relined_header [OF page_okD(1) [OF ok] q] h(1) by (simp_all add: relined_def)
  have nq: "nlines (set_pd_upper q (pd_special q)) = nlines p"
    using q q8 by (intro nlines_cong) (simp add: set_header_simps relined_def)
  have "offsetindex x < nlines p \<and> linp q (offsetindex x) = itemiddata x \<and> 0 < ilen (itemiddata x) \<and>
      unat (pd_lower p) \<le> ioff (itemiddata x) \<and> iend (itemiddata x) \<le> unat (pd_special p)" if "x \<in> set xs" for x
  proof -
    have "x \<in> sort_entry p ` set (used_lines p)" using that unfolding set .
    then obtain a where a: "x = sort_entry p a" "a < nlines p" "ItemIdIsUsed (linp p a)" by auto
    then show ?thesis
      using page_okD(2) [OF ok a(2,3)] q h(2,4) by (auto simp: sort_entry_def relined_def freed_def item_ok_def)
  qed
  moreover have "pd_lower q = pd_lower p" "pd_special q = pd_special p" using q by (simp_all add: relined_def)
  ultimately show "descending (set_pd_upper q (pd_special q)) xs"
    using dis srt nq q8 by (simp add: descending_def set_header_simps)
qed

lemma freed_slot: "ItemIdIsUsed (freed p i) = ItemIdIsUsed (linp p i)"
  by (simp add: freed_def ItemIdIsUsed_def)

text \<open>The items of a page after compaction, seen from the page before.\<close>

lemma compacted_page:
  assumes ok: "page_ok p" and q: "relined p q (freed p)"
    and r: "compacted (set_pd_upper q (pd_special q)) r (set (used_lines p))"
  shows "page_ok r" and "contents r = contents p" and "nlines r = nlines p" and "pd_special r = pd_special p"
proof -
  note hk = page_okD(1) [OF ok]
  note h = header_okD [OF hk]
  let ?q = "set_pd_upper q (pd_special q)"
  have q8: "8 \<le> length q" using q h(1) by (simp add: relined_def)
  have hd: "pd_lower r = pd_lower p" "pd_upper ?q = pd_special p" "pd_lower ?q = pd_lower p"
    and sp: "pd_special r = pd_special p"
    using r q q8 by (simp_all add: compacted_def set_header_simps relined_def)
  show n: "nlines r = nlines p" using hd(1) by (rule nlines_cong)
  show "pd_special r = pd_special p" by (rule sp)
  have nq: "nlines ?q = nlines p" using hd(3) by (rule nlines_cong)
  have lq: "linp ?q i = freed p i" if "i < nlines p" for i using q q8 that by (simp add: set_header_simps relined_def)
  have used: "linp ?q i = linp p i \<and> item_bytes ?q (linp p i) = item_bytes p (linp p i) \<and>
      moved ?q r (unat (pd_special p)) i \<and> 0 < ilen (linp p i)"
    if i: "i < nlines p" "ItemIdIsUsed (linp p i)" for i
  proof -
    have io: "item_ok p (linp p i)" using page_okD(2) [OF ok i] .
    then have "unat (pd_lower p) \<le> ioff (linp p i)" using h by (simp add: item_ok_def)
    then have "item_bytes ?q (linp p i) = item_bytes p (linp p i)"
      using q q8 h(2) unfolding item_bytes_def by (simp add: rd_set_header relined_def)
    moreover have "moved ?q r (unat (pd_special p)) i" using r i hd(2) by (simp add: compacted_def)
    ultimately show ?thesis using lq [OF i(1)] i(2) io by (simp add: freed_def item_ok_def)
  qed
  have unused: "\<not> ItemIdIsUsed (linp r i)" if "i < nlines p" "\<not> ItemIdIsUsed (linp p i)" for i
    using r that lq nq by (simp add: compacted_def freed_slot)
  have same: "ItemIdIsUsed (linp r i) = ItemIdIsUsed (linp p i)" if "i < nlines p" for i
    using unused [OF that] used [OF that]
    by (cases "ItemIdIsUsed (linp p i)") (simp_all add: moved_def ItemIdIsUsed_def)
  have "item_ok r (linp r i)" if "i < nlines p" "ItemIdIsUsed (linp p i)" for i
    using used [OF that] sp by (auto simp: item_ok_def moved_def ilen_def)
  moreover have "apart (linp r i) (linp r j)"
    if "i < nlines p" "j < nlines p" "i \<noteq> j" "ItemIdIsUsed (linp p i)" "ItemIdIsUsed (linp p j)" for i j
    using r that by (simp add: compacted_def)
  ultimately show "page_ok r" using r n same by (simp add: page_ok_def compacted_def)
  show "contents r = contents p"
    using n used same by (intro nth_equalityI) (auto simp: contents_nth slot_def moved_def)
qed

lemma sum_list_mset_eq: "mset xs = mset ys \<Longrightarrow> sum_list (map f xs) = sum_list (map f (ys :: 'a list))" for f :: "'a \<Rightarrow> nat"
  by (metis mset_map sum_mset_sum_list)

lemma repair_used:
  assumes ok: "page_ok p" and some: "used_lines p \<noteq> []"
  shows "rets (PageRepairFragmentation p) (\<lambda>q. page_ok q \<and> contents q = contents p \<and> nlines q = nlines p \<and>
    pd_special q = pd_special p \<and>
    unat (pd_upper q) + sum_list (map (\<lambda>i. al (ilen (linp p i))) (used_lines p)) = unat (pd_special p))"
proof -
  note hk = page_okD(1) [OF ok]
  note h = header_okD [OF hk]
  have nl: "nat (sint (PageGetMaxOffsetNumber p)) = nlines p"
    using max_offset_eq [OF hk] h(3) by (simp add: sint_small)
  let ?xs = "map (sort_entry p) (used_lines p)"
  obtain q where q: "collect_used p (nlines p) = Some (q, ?xs)" "relined p q (freed p)"
    using collect_used_ok [OF hk] by (auto simp: rets_def sort_entry_def [abs_def] used_lines_def)
  have "length ?xs \<le> nlines p" using length_filter_le [of _ "[0..<nlines p]"] by (simp add: used_lines_def)
  also have "\<dots> \<le> 2046" by (rule h(3))
  finally have "length ?xs \<le> 2046" .
  then have sz: "0 < (8 :: nat)" "length ?xs < 2 ^ 31" "length ?xs * 8 < 2 ^ 31" by simp_all
  obtain ys where s: "pg_qsort 8 itemidcompare ?xs = Some ys" "mset ys = mset ?xs" "sorted_wrt item_order.le ys"
    using item_order.pg_qsort_ok [OF sz] by (elim retsE) auto
  let ?q = "set_pd_upper q (pd_special q)" and ?s = ys
  have "8 \<le> length q" using q(2) h(1) by (simp add: relined_def)
  then have hq: "header_ok ?q" and uq: "pd_upper ?q = pd_special p"
    using relined_header [OF hk q(2)] q(2) by (auto simp: header_ok_def set_header_simps relined_def)
  note sd = sorted_descending [OF ok q(2) s(2,3)] s(2)
  have "mset (map offsetindex ?s) = mset (used_lines p)"
    using arg_cong [OF sd(2), of "image_mset offsetindex"] by (simp add: sort_entry_def comp_def flip: mset_map)
  then have I: "offsetindex ` set ?s = set (used_lines p)" by (metis list.set_map set_mset_mset)
  have sum: "sum_list (map (\<lambda>x. al (ilen (itemiddata x))) ?s) = sum_list (map (\<lambda>i. al (ilen (linp p i))) (used_lines p))"
    using sum_list_mset_eq [OF sd(2), of "\<lambda>x. al (ilen (itemiddata x))"] by (simp add: comp_def sort_entry_def)
  obtain r where r: "compact_items ?s ?q = Some r" "compacted ?q r (set (used_lines p))"
      "unat (pd_upper r) + sum_list (map (\<lambda>i. al (ilen (linp p i))) (used_lines p)) = unat (pd_special p)"
    using compact_items_ok [OF hq sd(1)] unfolding I sum uq rets_def by blast
  have "PageRepairFragmentation p = Some r"
    using some r(1) s(1) by (simp add: PageRepairFragmentation_def nl count_used_eq [OF hk] used_lines_def [symmetric] q(1))
  then show ?thesis using compacted_page [OF ok q(2) r(2)] r(3) by simp
qed

lemma repair_unused:
  assumes ok: "page_ok p" and none: "used_lines p = []"
  shows "rets (PageRepairFragmentation p) (\<lambda>q. page_ok q \<and> contents q = contents p \<and> nlines q = nlines p \<and>
    pd_special q = pd_special p \<and> pd_upper q = pd_special p)"
proof -
  note hk = page_okD(1) [OF ok]
  note h = header_okD [OF hk]
  have un: "\<forall>i<nlines p. \<not> ItemIdIsUsed (linp p i)" using none by (auto simp: used_lines_def filter_empty_conv)
  have nl: "nat (sint (PageGetMaxOffsetNumber p)) = nlines p"
    using max_offset_eq [OF hk] h(3) by (simp add: sint_small)
  obtain q where q: "dealloc_all p (nlines p) = Some q" "relined p q (freed p)"
    using dealloc_all_ok [OF hk un] by (auto simp: rets_def)
  let ?q = "set_pd_upper q (pd_special q)"
  have q8: "8 \<le> length q" using q(2) h(1) by (simp add: relined_def)
  then have hq: "header_ok ?q" using relined_header [OF hk q(2)] by (auto simp: header_ok_def set_header_simps)
  then have "compacted ?q ?q (set (used_lines p))" by (simp add: compacted_def none)
  from compacted_page [OF ok q(2) this] have "page_ok ?q \<and> contents ?q = contents p \<and> nlines ?q = nlines p \<and>
      pd_special ?q = pd_special p" by blast
  moreover have "PageRepairFragmentation p = Some ?q"
    using none by (simp add: PageRepairFragmentation_def nl count_used_eq [OF hk] used_lines_def [symmetric] q(1))
  moreover have "pd_upper ?q = pd_special p" using q8 q(2) by (simp add: set_header_simps relined_def)
  ultimately show ?thesis by (simp only: rets_Some)
qed

end
