(* ===== verification/Page_Delete.thy ===== *)
theory Page_Delete
  imports Page_Compact
begin

text \<open>
  \<open>PageIndexTupleDelete\<close>: the line pointer is removed from the array, the tuples below the
  deleted one move up over it, and the line pointers of the moved tuples are adjusted.
\<close>

definition adjusted :: "nat \<Rightarrow> size_word \<Rightarrow> ItemIdData \<Rightarrow> ItemIdData" where
  "adjusted loc sz x = (if unat (lp_off x) \<le> loc then x\<lparr>lp_off := lp_off x + ucast sz\<rparr> else x)"

lemma adjust_linps_ok:
  assumes "header_ok p" and "n \<le> nlines p" and "relined p q g"
  shows "rets (adjust_linps n loc sz q) (\<lambda>r. relined p r (\<lambda>i. if i < n then adjusted loc sz (g i) else g i))"
  using assms(2,3)
proof (induction n arbitrary: q g)
  case 0
  then show ?case by simp
next
  case (Suc n)
  then have n: "n < nlines p" by simp
  note acc = relined_access [OF assms(1) Suc.prems(2) n]
  let ?q = "if unat (lp_off (g n)) \<le> loc then put_linp q n ((g n)\<lparr>lp_off := lp_off (g n) + ucast sz\<rparr>) else q"
  have "relined p ?q (g(n := adjusted loc sz (g n)))"
    using relined_put [OF assms(1) Suc.prems(2) n] Suc.prems(2) by (auto simp: adjusted_def)
  from Suc.IH [OF _ this] have "rets (adjust_linps n loc sz ?q)
      (\<lambda>r. relined p r (\<lambda>i. if i < n then adjusted loc sz ((g(n := adjusted loc sz (g n))) i) else (g(n := adjusted loc sz (g n))) i))"
    using n by simp
  moreover have "(\<lambda>i. if i < n then adjusted loc sz ((g(n := adjusted loc sz (g n))) i) else (g(n := adjusted loc sz (g n))) i) =
      (\<lambda>i. if i < Suc n then adjusted loc sz (g i) else g i)"
    by (auto simp: fun_eq_iff less_Suc_eq)
  moreover have "adjust_linps (Suc n) loc sz q = adjust_linps n loc sz ?q" using acc by simp
  ultimately show ?case by simp
qed

lemma rd_wr_within:
  assumes "o1 + n \<le> length p" and "o2 + n \<le> length p" and "d + m \<le> n"
  shows "rd (wr p o2 (rd p o1 n)) (o2 + d) m = rd p (o1 + d) m"
proof -
  have len: "length (rd p o1 n) = n" using assms(1) by (rule length_rd)
  have "drop (o2 + d) (wr p o2 (rd p o1 n)) = drop d (rd p o1 n) @ drop (o2 + n) p"
    using assms len by (simp add: wr_def)
  moreover have "take m (drop d (rd p o1 n)) = rd p (o1 + d) m"
    using assms(3) by (simp add: rd_def drop_take min_absorb1 add.commute)
  moreover have "m \<le> length (drop d (rd p o1 n))" using len assms(3) by simp
  ultimately show ?thesis by (simp add: rd_def)
qed

text \<open>The page after the two block moves and with the new bounds.\<close>

definition unlinked :: "page \<Rightarrow> nat \<Rightarrow> page" where
  "unlinked p i = wr p (8 + 4 * i) (rd p (12 + 4 * i) (unat (pd_lower p) - (12 + 4 * i)))"

lemma unlinked_views:
  assumes h: "header_ok p" and i: "i < nlines p"
  defines "q \<equiv> unlinked p i"
  shows "length q = 8192" and "pd_lower q = pd_lower p" and "pd_upper q = pd_upper p" and "pd_special q = pd_special p"
    and "od_pagesize q = od_pagesize p"
    and "Suc j < nlines p \<Longrightarrow> linp q j = linp p (if j < i then j else Suc j)"
    and "unat (pd_lower p) \<le> o1 \<Longrightarrow> rd q o1 n = rd p o1 n"
proof -
  note hd = header_okD [OF h]
  let ?n = "unat (pd_lower p) - (12 + 4 * i)"
  have b: "12 + 4 * i + ?n \<le> length p" "8 + 4 * i + ?n \<le> length p" "12 + 4 * i \<le> unat (pd_lower p)" using hd i by simp_all
  have len: "length (rd p (12 + 4 * i) ?n) = ?n" using b(1) by (rule length_rd)
  then have fit: "8 + 4 * i + length (rd p (12 + 4 * i) ?n) \<le> length p" using b(2) by simp
  show "length q = 8192" using fit hd(1) by (simp add: q_def unlinked_def length_wr)
  show "pd_lower q = pd_lower p" "pd_upper q = pd_upper p" "pd_special q = pd_special p" "od_pagesize q = od_pagesize p"
    using header_frame [OF _ fit] by (simp_all add: q_def unlinked_def)
  show "rd q o1 n = rd p o1 n" if "unat (pd_lower p) \<le> o1"
    using that fit len b(3) by (simp add: q_def unlinked_def rd_wr_after)
  show "linp q j = linp p (if j < i then j else Suc j)" if j: "Suc j < nlines p"
  proof (cases "j < i")
    case True
    then show ?thesis using fit by (simp add: q_def unlinked_def linp_frame)
  next
    case False
    have "4 * (j - i) + 4 \<le> ?n" using j False hd(2) by linarith
    from rd_wr_within [OF b(1,2) this]
    have "rd q (8 + 4 * i + 4 * (j - i)) 4 = rd p (12 + 4 * i + 4 * (j - i)) 4" by (simp add: q_def unlinked_def)
    moreover have "8 + 4 * i + 4 * (j - i) = 8 + 4 * j" "12 + 4 * i + 4 * (j - i) = 8 + 4 * Suc j" using False by simp_all
    ultimately have "rd q (8 + 4 * j) 4 = rd p (8 + 4 * Suc j) 4" by (simp only:)
    then show ?thesis using False by (simp add: linp_def)
  qed
qed

definition slid :: "page \<Rightarrow> nat \<Rightarrow> nat \<Rightarrow> page" where
  "slid p loc sz = (if loc \<noteq> unat (pd_upper p) then wr p (unat (pd_upper p) + sz) (rd p (unat (pd_upper p)) (loc - unat (pd_upper p))) else p)"

lemma slid_views:
  assumes len: "length p = 8192" and b: "unat (pd_lower p) \<le> unat (pd_upper p)" "unat (pd_upper p) \<le> loc" "loc + sz \<le> 8192" "8 \<le> unat (pd_lower p)"
  defines "q \<equiv> slid p loc sz"
  shows "length q = 8192" and "pd_lower q = pd_lower p" and "pd_upper q = pd_upper p" and "pd_special q = pd_special p"
    and "od_pagesize q = od_pagesize p" and "12 + 4 * j \<le> unat (pd_lower p) \<Longrightarrow> linp q j = linp p j"
    and "loc + sz \<le> o1 \<Longrightarrow> rd q o1 n = rd p o1 n"
    and "unat (pd_upper p) \<le> o1 \<Longrightarrow> o1 + n \<le> loc \<Longrightarrow> rd q (o1 + sz) n = rd p o1 n \<or> loc = unat (pd_upper p)"
proof -
  let ?u = "unat (pd_upper p)"
  have rl: "?u + (loc - ?u) \<le> length p" "?u + sz + (loc - ?u) \<le> length p" using b len by simp_all
  have ln: "length (rd p ?u (loc - ?u)) = loc - ?u" using rl(1) by (rule length_rd)
  have fit: "?u + sz + length (rd p ?u (loc - ?u)) \<le> length p" using rl(2) ln by simp
  show "length q = 8192" using fit len by (simp add: q_def slid_def length_wr)
  show "pd_lower q = pd_lower p" "pd_upper q = pd_upper p" "pd_special q = pd_special p" "od_pagesize q = od_pagesize p"
    using header_frame [OF _ fit] b by (simp_all add: q_def slid_def)
  show "linp q j = linp p j" if "12 + 4 * j \<le> unat (pd_lower p)"
    using that fit b by (simp add: q_def slid_def linp_frame)
  show "rd q o1 n = rd p o1 n" if "loc + sz \<le> o1"
    using that fit b ln by (simp add: q_def slid_def rd_wr_after)
  show "rd q (o1 + sz) n = rd p o1 n \<or> loc = ?u" if "?u \<le> o1" "o1 + n \<le> loc"
  proof -
    have "o1 - ?u + n \<le> loc - ?u" "?u + sz + (o1 - ?u) = o1 + sz" "?u + (o1 - ?u) = o1" using that by simp_all
    then show ?thesis using rd_wr_within [OF rl, of "o1 - ?u" n] by (simp add: q_def slid_def add.commute [of sz])
  qed
qed

text \<open>The code as the composition of these steps.\<close>

definition deleted :: "page \<Rightarrow> nat \<Rightarrow> page" where
  "deleted p i = (let q = slid (unlinked p i) (ioff (linp p i)) (al (ilen (linp p i)))
     in set_pd_lower (set_pd_upper q (pd_upper p + of_nat (al (ilen (linp p i))))) (pd_lower p - 4))"

lemma ucast_of_nat32: "n < 2 ^ 32 \<Longrightarrow> ucast (of_nat n :: uint32) = (of_nat n :: 'a::len word)"
  by (simp add: word_unat_eq_iff unsigned_ucast_eq unat_of_nat take_bit_eq_mod)

lemma delete_eq:
  assumes ok: "page_ok p" and i: "i < nlines p" "ItemIdIsUsed (linp p i)"
  shows "PageIndexTupleDelete p (of_nat (Suc i)) =
    (if PageIsEmpty (deleted p i) then Some (deleted p i)
     else adjust_linps (unat (PageGetMaxOffsetNumber (deleted p i))) (ioff (linp p i)) (of_nat (al (ilen (linp p i)))) (deleted p i))"
proof -
  note hk = page_okD(1) [OF ok] and io = page_okD(2) [OF ok i]
  note h = header_okD [OF hk] and ul = unlinked_views [OF hk i(1)]
  let ?x = "linp p i" and ?q = "unlinked p i"
  have b: "unat (pd_upper p) \<le> ioff ?x" "ioff ?x + al (ilen ?x) \<le> 8192" using io h by (simp_all add: item_ok_def iend_def)
  have off: "unat (of_nat (Suc i) :: uint16) = Suc i" using i(1) h(3) by (subst unat_of_nat) simp
  have lx: "unat (ucast (lp_len ?x) :: uint32) = ilen ?x" by (simp add: unat_ucast_up ilen_def)
  have al: "unat (DOUBLEALIGN (ucast (lp_len ?x))) = al (ilen ?x)"
    using al_bounds(1) [of "ilen ?x"] b(2) by (subst unat_DOUBLEALIGN) (simp_all add: lx)
  then have dal: "DOUBLEALIGN (ucast (lp_len ?x)) = of_nat (al (ilen ?x))"
    using b(2) by (simp add: word_unat_eq_iff unat_of_nat)
  have c16: "ucast (of_nat (al (ilen ?x)) :: uint32) = (of_nat (al (ilen ?x)) :: uint16)"
    using b(2) by (intro ucast_of_nat32) simp
  have a32: "unat (of_nat (al (ilen ?x)) :: uint32) = al (ilen ?x)" using b(2) by (subst unat_of_nat) simp
  have line: "rd_opt p (8 + 4 * i) 4 = Some (rd p (8 + 4 * i) 4)" "word_itemid (le_word (rd p (8 + 4 * i) 4)) = ?x"
    using h i(1) by (simp_all add: rd_opt_def linp_def)
  have u: "unat (pd_lower p) - (12 + 4 * i) + (12 + 4 * i) \<le> length p" "12 + 4 * i \<le> unat (pd_lower p)" using h i(1) by simp_all
  have mv: "rd_opt p (12 + 4 * i) (unat (pd_lower p) - (12 + 4 * i)) = Some (rd p (12 + 4 * i) (unat (pd_lower p) - (12 + 4 * i)))"
    "memmove p (8 + 4 * i) (rd p (12 + 4 * i) (unat (pd_lower p) - (12 + 4 * i))) = Some ?q"
    using u by (simp_all add: rd_opt_def memmove_def unlinked_def length_rd add.commute)
  have sl: "(if ioff ?x \<noteq> unat (pd_upper ?q) then if ioff ?x < unat (pd_upper ?q) then None
        else rd_opt ?q (unat (pd_upper ?q)) (ioff ?x - unat (pd_upper ?q)) \<bind> memmove ?q (unat (pd_upper ?q) + al (ilen ?x))
      else Some ?q) = Some (slid ?q (ioff ?x) (al (ilen ?x)))"
    using b ul(1,3) by (simp add: slid_def rd_opt_def memmove_def length_rd)
  have sv: "pd_upper (slid ?q (ioff ?x) (al (ilen ?x))) = pd_upper p" "pd_lower (slid ?q (ioff ?x) (al (ilen ?x))) = pd_lower p"
      "length (slid ?q (ioff ?x) (al (ilen ?x))) = 8192"
    using slid_views [of ?q "ioff ?x" "al (ilen ?x)"] ul b h by simp_all
  have addr: "4 + 4 * Suc i = 8 + 4 * i" "8 + 4 * Suc i = 12 + 4 * i" "(unat (pd_lower p) < 12 + 4 * i) = False"
    using u(2) by simp_all
  have del: "set_pd_lower (set_pd_upper (slid ?q (ioff ?x) (al (ilen ?x))) (pd_upper p + of_nat (al (ilen ?x))))
      (pd_lower p - 4) = deleted p i" by (simp add: deleted_def Let_def)
  have pl: "pd_lower (set_pd_upper (slid ?q (ioff ?x) (al (ilen ?x))) v) = pd_lower p" for v
    using sv by (simp add: set_header_simps)
  show ?thesis
    unfolding PageIndexTupleDelete_def off addr line dal a32 c16 ioff_def [symmetric]
    by (simp only: bind.bind_lunit if_False mv line dal a32 c16 sl sv pl del ioff_def [symmetric]
        PageIndexTupleDeleteAdjustLinePointers_def if_not_P cong: if_cong) simp
qed

definition skip :: "nat \<Rightarrow> nat \<Rightarrow> nat" where
  "skip i j = (if j < i then j else Suc j)"

lemma deleted_views:
  assumes ok: "page_ok p" and i: "i < nlines p" "ItemIdIsUsed (linp p i)"
  defines "d \<equiv> deleted p i" and "loc \<equiv> ioff (linp p i)" and "sz \<equiv> al (ilen (linp p i))"
  shows "header_ok d" and "nlines d = nlines p - 1" and "pd_special d = pd_special p"
    and "unat (pd_upper d) = unat (pd_upper p) + sz"
    and "Suc j < nlines p \<Longrightarrow> linp d j = linp p (skip i j)"
    and "loc + sz \<le> o1 \<Longrightarrow> rd d o1 n = rd p o1 n"
    and "unat (pd_upper p) \<le> o1 \<Longrightarrow> o1 + n \<le> loc \<Longrightarrow> 0 < n \<Longrightarrow> rd d (o1 + sz) n = rd p o1 n"
proof -
  note hk = page_okD(1) [OF ok] and io = page_okD(2) [OF ok i]
  note h = header_okD [OF hk] and ul = unlinked_views [OF hk i(1)]
  let ?q = "unlinked p i"
  have b: "unat (pd_upper p) \<le> loc" "loc + sz \<le> unat (pd_special p)"
    using io by (simp_all add: item_ok_def iend_def loc_def sz_def)
  have b2: "unat (pd_lower ?q) \<le> unat (pd_upper ?q)" "unat (pd_upper ?q) \<le> loc" "loc + sz \<le> 8192" "8 \<le> unat (pd_lower ?q)"
    using b ul h by simp_all
  note sv = slid_views [OF ul(1) b2]
  have d: "d = set_pd_lower (set_pd_upper (slid ?q loc sz) (pd_upper p + of_nat sz)) (pd_lower p - 4)"
    by (simp add: d_def deleted_def Let_def loc_def sz_def)
  have len: "8 \<le> length (slid ?q loc sz)" using sv(1) by simp
  have lw: "unat (pd_lower p - 4) = unat (pd_lower p) - 4"
    using h(2) i(1) by (subst unat_sub) (simp_all add: word_le_nat_alt)
  have szs: "unat (of_nat sz :: uint16) = sz" using b2(3) by (subst unat_of_nat) simp
  have uw: "unat (pd_upper p + of_nat sz) = unat (pd_upper p) + sz"
    using b h(6) szs by (subst unat_add_no_wrap) simp_all
  have f: "pd_lower d = pd_lower p - 4" "pd_upper d = pd_upper p + of_nat sz" "pd_special d = pd_special p"
      "od_pagesize d = od_pagesize p" "length d = 8192" "linp d j = linp (slid ?q loc sz) j" for j
    using len sv ul by (simp_all add: d set_header_simps)
  have n0: "0 < nlines p" using i(1) by simp
  have "unat (pd_lower d) = 8 + 4 * (nlines p - 1)" using lw h(2) n0 unfolding f(1) by simp
  then show nd: "nlines d = nlines p - 1" by (simp add: nlines_def)
  show "pd_special d = pd_special p" by (rule f(3))
  show up: "unat (pd_upper d) = unat (pd_upper p) + sz" unfolding f(2) by (rule uw)
  show "header_ok d"
    using hk f b h lw up n0 \<open>unat (pd_lower d) = 8 + 4 * (nlines p - 1)\<close>
    by (auto simp: header_ok_def BLCKSZ_def)
  show "linp d j = linp p (skip i j)" if "Suc j < nlines p"
    using that f(6) sv(6) [of j] ul(2,6) h(2) by (simp add: skip_def)
  have rdd: "rd d o1 n = rd (slid ?q loc sz) o1 n" if "8 \<le> o1" for o1 n
    using that len by (simp add: d rd_set_header set_header_simps)
  show "rd d o1 n = rd p o1 n" if "loc + sz \<le> o1"
    using that rdd [of o1] sv(7) ul(7) b h(2,4) by simp
  show "rd d (o1 + sz) n = rd p o1 n" if "unat (pd_upper p) \<le> o1" "o1 + n \<le> loc" "0 < n"
    using that rdd [of "o1 + sz"] sv(8) [of o1 n] ul(3,7) h(2,4) by simp
qed

lemma skip_facts:
  assumes "i < n" and "Suc j < n"
  shows "skip i j < n" and "skip i j \<noteq> i" and "Suc j' < n \<Longrightarrow> j \<noteq> j' \<Longrightarrow> skip i j \<noteq> skip i j'"
  using assms by (auto simp: skip_def)

text \<open>A tuple that stays is found again, moved up by the freed space when it lay below.\<close>

definition moved_linp :: "ItemIdData \<Rightarrow> ItemIdData \<Rightarrow> ItemIdData" where
  "moved_linp x y = (if ioff y < ioff x then y\<lparr>lp_off := of_nat (ioff y + al (ilen x))\<rparr> else y)"

lemma delete_item:
  assumes ok: "page_ok p" and i: "i < nlines p" "ItemIdIsUsed (linp p i)"
    and r: "relined (deleted p i) r (\<lambda>j. adjusted (ioff (linp p i)) (of_nat (al (ilen (linp p i)))) (linp (deleted p i) j))"
    and j: "Suc j < nlines p" "ItemIdIsUsed (linp p (skip i j))"
  shows "linp r j = moved_linp (linp p i) (linp p (skip i j))"
    and "item_bytes r (linp r j) = item_bytes p (linp p (skip i j))"
    and "item_ok r (linp r j)"
    and "ioff (linp r j) = (if ioff (linp p (skip i j)) < ioff (linp p i) then ioff (linp p (skip i j)) + al (ilen (linp p i))
           else ioff (linp p (skip i j)))"
    and "ilen (linp r j) = ilen (linp p (skip i j))"
proof -
  let ?x = "linp p i" and ?y = "linp p (skip i j)" and ?d = "deleted p i"
  note dv = deleted_views [OF ok i] and sk = skip_facts [OF i(1) j(1)] and iox = page_okD(2) [OF ok i]
  note h = header_okD [OF page_okD(1) [OF ok]] and ioy = page_okD(2) [OF ok sk(1) j(2)]
  have "apart ?x ?y" using page_okD(3) [OF ok i(1) sk(1) _ i(2) j(2)] sk(2) by simp
  moreover have "ioff ?x < iend ?x" "ioff ?y < iend ?y" using iox ioy by (simp_all add: item_ok_def iend_gt)
  ultimately have cs: "ioff ?y < ioff ?x \<and> iend ?y \<le> ioff ?x \<or> ioff ?x < ioff ?y \<and> iend ?x \<le> ioff ?y"
    by (auto simp: apart_def)
  have jd: "j < nlines ?d" using dv(2) j(1) by simp
  have sz: "al (ilen ?x) \<le> 8192" using iox h by (simp add: item_ok_def iend_def)
  have lp: "lp_off ?y + ucast (of_nat (al (ilen ?x)) :: uint32) = of_nat (ioff ?y + al (ilen ?x))"
    using sz by (simp add: ucast_of_nat32 ioff_def)
  have "linp r j = adjusted (ioff ?x) (of_nat (al (ilen ?x))) ?y" using r jd dv(5) [OF j(1)] by (simp add: relined_def)
  then show lr: "linp r j = moved_linp ?x ?y"
    using cs lp by (auto simp: adjusted_def moved_linp_def ioff_def)
  have rdr: "rd r o1 n = rd ?d o1 n" if "unat (pd_upper p) \<le> o1" for o1 n
    using r that header_okD(2) [OF dv(1)] dv(2) h(4) by (simp add: relined_def)
  have ends: "iend ?x = ioff ?x + al (ilen ?x)" "iend ?y = ioff ?y + al (ilen ?y)" "ilen ?y \<le> al (ilen ?y)"
    by (simp_all add: iend_def al_bounds)
  have bx: "unat (pd_upper p) \<le> ioff ?x" "iend ?x \<le> unat (pd_special p)" "iend ?x \<le> 8192"
    and y: "unat (pd_upper p) \<le> ioff ?y" "iend ?y \<le> unat (pd_special p)" "0 < ilen ?y"
    using iox ioy h by (simp_all add: item_ok_def)
  show off: "ioff (linp r j) = (if ioff ?y < ioff ?x then ioff ?y + al (ilen ?x) else ioff ?y)"
  proof (cases "ioff ?y < ioff ?x")
    case True
    then have "ioff ?y + al (ilen ?x) < 8192" using bx(3) ends(1) by linarith
    then have "unat (of_nat (ioff ?y + al (ilen ?x)) :: 13 word) = ioff ?y + al (ilen ?x)" by (subst unat_of_nat) simp
    with True show ?thesis unfolding lr moved_linp_def by (simp add: ioff_def)
  next
    case False
    then show ?thesis by (simp add: lr moved_linp_def)
  qed
  show len: "ilen (linp r j) = ilen ?y" by (simp add: lr moved_linp_def ilen_def)
  show "item_bytes r (linp r j) = item_bytes p ?y"
  proof (cases "ioff ?y < ioff ?x")
    case True
    then have le: "ioff ?y + ilen ?y \<le> ioff ?x" using cs ends by linarith
    then show ?thesis
      using True y rdr [of "ioff ?y + al (ilen ?x)"] dv(7) [OF y(1) le y(3)] unfolding item_bytes_def off len by simp
  next
    case False
    then have le: "ioff ?x + al (ilen ?x) \<le> ioff ?y" using cs ends by linarith
    then show ?thesis
      using False y rdr [of "ioff ?y"] dv(6) [OF le] unfolding item_bytes_def off len by simp
  qed
  have hr: "unat (pd_upper r) = unat (pd_upper p) + al (ilen ?x)" "pd_special r = pd_special p"
    using r dv(3,4) by (simp_all add: relined_def)
  have "unat (pd_upper p) + al (ilen ?x) \<le> ioff (linp r j) \<and> ioff (linp r j) + al (ilen ?y) \<le> unat (pd_special p)"
    using cs ends bx y unfolding off by (cases "ioff ?y < ioff ?x") auto
  then show "item_ok r (linp r j)" using y(3) len hr by (simp add: item_ok_def iend_def)
qed

lemma delete_ok:
  assumes ok: "page_ok p" and i: "i < nlines p" "ItemIdIsUsed (linp p i)"
  shows "rets (PageIndexTupleDelete p (of_nat (Suc i))) (\<lambda>r. page_ok r \<and>
    contents r = take i (contents p) @ drop (Suc i) (contents p) \<and>
    unat (pd_upper r) = unat (pd_upper p) + al (ilen (linp p i)) \<and> nlines r = nlines p - 1)"
proof -
  let ?d = "deleted p i" and ?x = "linp p i"
  note dv = deleted_views [OF ok i]
  let ?g = "\<lambda>j. adjusted (ioff ?x) (of_nat (al (ilen ?x))) (linp ?d j)"
  have "rets (PageIndexTupleDelete p (of_nat (Suc i))) (\<lambda>r. relined ?d r ?g)"
  proof (cases "PageIsEmpty ?d")
    case True
    then have "nlines ?d = 0" by (simp add: PageIsEmpty_def nlines_def)
    then show ?thesis unfolding delete_eq [OF ok i] using True by (simp add: relined_def)
  next
    case False
    have "relined ?d r (\<lambda>j. if j < nlines ?d then ?g j else linp ?d j) = relined ?d r ?g" for r by (simp add: relined_def)
    then show ?thesis
      unfolding delete_eq [OF ok i] using False adjust_linps_ok [OF dv(1) order.refl relined_refl, of "ioff ?x" "of_nat (al (ilen ?x))"]
      by (simp add: max_offset_eq [OF dv(1)])
  qed
  then show ?thesis
  proof (rule rets_mono)
    fix r
    assume r: "relined ?d r ?g"
    note it = delete_item [OF ok i r]
    have n: "nlines r = nlines p - 1" using r dv(2) nlines_cong [of r ?d] by (simp add: relined_def)
    have used: "ItemIdIsUsed (linp r j) = ItemIdIsUsed (linp p (skip i j))" if "j < nlines r" for j
      using r that n dv(2,5) by (simp add: relined_def adjusted_def ItemIdIsUsed_def)
    have s: "Suc j < nlines p" if "j < nlines r" for j using that n by simp
    have side: "ioff (linp p (skip i j)) < ioff ?x \<and> iend (linp p (skip i j)) \<le> ioff ?x \<or>
        \<not> ioff (linp p (skip i j)) < ioff ?x \<and> iend ?x \<le> ioff (linp p (skip i j))"
      if j: "j < nlines r" "ItemIdIsUsed (linp p (skip i j))" for j
    proof -
      have "apart ?x (linp p (skip i j))"
        using page_okD(3) [OF ok i(1) skip_facts(1) [OF i(1) s [OF j(1)]] _ i(2) j(2)] skip_facts(2) [OF i(1) s [OF j(1)]]
        by simp
      moreover have "ioff (linp p (skip i j)) < iend (linp p (skip i j))"
        using page_okD(2) [OF ok skip_facts(1) [OF i(1) s [OF j(1)]] j(2)] by (simp add: item_ok_def iend_gt)
      ultimately show ?thesis by (auto simp: apart_def iend_def)
    qed
    have ap: "apart (linp r j) (linp r k)"
      if jk: "j < nlines r" "k < nlines r" "j \<noteq> k" "ItemIdIsUsed (linp r j)" "ItemIdIsUsed (linp r k)" for j k
    proof -
      let ?y = "linp p (skip i j)" and ?z = "linp p (skip i k)"
      have u: "ItemIdIsUsed ?y" "ItemIdIsUsed ?z" using used jk by simp_all
      have "apart ?y ?z" using page_okD(3) [OF ok skip_facts(1) [OF i(1) s [OF jk(1)]] skip_facts(1) [OF i(1) s [OF jk(2)]]
          skip_facts(3) [OF i(1) s [OF jk(1)] s [OF jk(2)] jk(3)] u] .
      then show ?thesis
        using side [OF jk(1) u(1)] side [OF jk(2) u(2)] it(4,5) [OF s [OF jk(1)] u(1)] it(4,5) [OF s [OF jk(2)] u(2)]
        unfolding apart_def iend_def by (auto split: if_splits)
    qed
    have iok: "item_ok r (linp r j)" if "j < nlines r" "ItemIdIsUsed (linp r j)" for j
      using it(3) [OF s [OF that(1)]] used that by simp
    have "header_ok r" using relined_header [OF dv(1) r] .
    then have "page_ok r" using ap iok by (simp add: page_ok_def)
    moreover have "contents r = take i (contents p) @ drop (Suc i) (contents p)"
    proof (rule nth_equalityI)
      show "length (contents r) = length (take i (contents p) @ drop (Suc i) (contents p))" using n i(1) by simp
      fix j
      assume "j < length (contents r)"
      then have j: "j < nlines r" "skip i j < nlines p" using skip_facts(1) [OF i(1) s] by simp_all
      have "slot r (linp r j) = slot p (linp p (skip i j))" using it(2) [OF s [OF j(1)]] used [OF j(1)] by (simp add: slot_def)
      then show "contents r ! j = (take i (contents p) @ drop (Suc i) (contents p)) ! j"
        using j i(1) n by (auto simp: contents_nth nth_append skip_def)
    qed
    moreover have "unat (pd_upper r) = unat (pd_upper p) + al (ilen ?x)" using r dv(4) by (simp add: relined_def)
    ultimately show "page_ok r \<and> contents r = take i (contents p) @ drop (Suc i) (contents p) \<and>
      unat (pd_upper r) = unat (pd_upper p) + al (ilen (linp p i)) \<and> nlines r = nlines p - 1" using n by simp
  qed
qed

end
