(* ===== verification/Page_Props.thy ===== *)
theory Page_Props
  imports Page_Delete
begin

text \<open>
  The properties of the page component and of the sort it uses, stated on the contents of a
  page: the bytes of each item by line pointer.
\<close>

subsection \<open>Initialisation, free space, temporary pages\<close>

lemma al_le: "m \<le> n \<Longrightarrow> 8 dvd n \<Longrightarrow> al m \<le> n"
proof -
  assume "m \<le> n" "8 dvd n"
  then obtain k where "n = 8 * k" "m \<le> 8 * k" by auto
  then show ?thesis using al_bounds(2) [of m] al_bounds(3) [of m] by (auto elim!: dvdE)
qed

lemma PageInit_ok:
  assumes "length p = BLCKSZ" and "unat ss + 8 < BLCKSZ"
  shows "rets (PageInit p 8192 ss) (\<lambda>q. page_ok q \<and> contents q = [] \<and> unat (pd_special q) = BLCKSZ - al (unat ss) \<and>
    pd_upper q = pd_special q)"
proof -
  have al: "al (unat ss) \<le> 8184" using assms(2) by (intro al_le) (simp_all add: BLCKSZ_def)
  have d: "unat (DOUBLEALIGN ss) = al (unat ss)" using assms(2) by (intro unat_DOUBLEALIGN) (simp add: BLCKSZ_def)
  have "unat (8192 - DOUBLEALIGN ss) = 8192 - al (unat ss)"
    using al d by (subst unat_sub) (simp_all add: word_le_nat_alt)
  then have u: "unat (ucast (8192 - DOUBLEALIGN ss) :: uint16) = 8192 - al (unat ss)"
    by (simp add: unsigned_ucast_eq take_bit_eq_mod)
  have l8: "8 \<le> length p" using assms(1) by (simp add: BLCKSZ_def)
  define q where "q = set_od_pagesize (set_pd_special (set_pd_upper (set_pd_lower p 8) (ucast (8192 - DOUBLEALIGN ss)))
    (ucast (8192 - DOUBLEALIGN ss))) 8192"
  have ev: "PageInit p 8192 ss = Some q" using assms(2) by (simp add: PageInit_def Let_def BLCKSZ_def q_def)
  have f: "pd_lower q = 8" "unat (pd_upper q) = 8192 - al (unat ss)" "unat (pd_special q) = 8192 - al (unat ss)"
      "od_pagesize q = 8192" "length q = BLCKSZ" "pd_upper q = pd_special q"
    using l8 u assms(1) by (simp_all add: q_def set_header_simps)
  then have "header_ok q" using al by (simp add: header_ok_def BLCKSZ_def)
  moreover have "nlines q = 0" using f(1) by (simp add: nlines_def)
  ultimately show ?thesis using ev f by (simp add: page_ok_def contents_def BLCKSZ_def)
qed

lemma free_space_eq:
  assumes "header_ok p"
  shows "unat (PageGetFreeSpace p) = unat (pd_upper p) - unat (pd_lower p) - 4"
proof -
  note h = header_okD [OF assms]
  have c: "unat (ucast (pd_upper p) :: uint32) = unat (pd_upper p)" "unat (ucast (pd_lower p) :: uint32) = unat (pd_lower p)"
    by (simp_all add: unat_ucast_up)
  have s: "unat (ucast (pd_upper p) - ucast (pd_lower p) :: uint32) = unat (pd_upper p) - unat (pd_lower p)"
    using h(2,4) by (subst unat_sub) (simp_all add: word_le_nat_alt c)
  show ?thesis
  proof (cases "ucast (pd_upper p) - ucast (pd_lower p) < (4 :: uint32)")
    case True
    then show ?thesis using s by (simp add: PageGetFreeSpace_def word_less_nat_alt)
  next
    case False
    then have "unat (ucast (pd_upper p) - ucast (pd_lower p) - 4 :: uint32) = unat (pd_upper p) - unat (pd_lower p) - 4"
      using s by (subst unat_sub) (simp_all add: word_le_nat_alt not_less)
    then show ?thesis using False by (simp add: PageGetFreeSpace_def Let_def)
  qed
qed

lemma fits_free_space:
  assumes "header_ok p" and "0 < n" and "al n \<le> unat (PageGetFreeSpace p)"
  shows "need p k + al n \<le> unat (pd_upper p)"
proof -
  have "0 < al n" using assms(2) al_bounds(1) [of n] by simp
  then have "unat (pd_lower p) + 4 + al n \<le> unat (pd_upper p)"
    using assms(3) unfolding free_space_eq [OF assms(1)] by linarith
  then show ?thesis by (simp add: need_def)
qed

lemma temp_page_ok:
  assumes ok: "page_ok p" and ss: "unat ss \<le> 8184" "unat (pd_special p) = 8192 - al (unat ss)"
  shows "rets (PageGetTempPage p ss) (\<lambda>t. page_ok t \<and> contents t = [] \<and> pd_special t = pd_special p \<and>
    pd_upper t = pd_special p \<and> rd t (unat (pd_special p)) (al (unat ss)) = rd p (unat (pd_special p)) (al (unat ss)))"
proof -
  note h = header_okD [OF page_okD(1) [OF ok]]
  have al: "al (unat ss) \<le> 8184" using ss(1) by (intro al_le) simp_all
  have d: "unat (DOUBLEALIGN ss) = al (unat ss)" using ss(1) by (intro unat_DOUBLEALIGN) simp
  have od: "od_pagesize p = 8192" using page_okD(1) [OF ok] by (simp add: header_ok_def)
  then have ps: "PageGetPageSize p = 8192" by (simp add: PageGetPageSize_def)
  have "unat (8192 - DOUBLEALIGN ss) = 8192 - al (unat ss)" "unat (8184 - DOUBLEALIGN ss) = 8184 - al (unat ss)"
    using al d by (subst unat_sub, simp_all add: word_le_nat_alt)+
  then have u: "ucast (8192 - DOUBLEALIGN ss) = pd_special p" "unat (8184 - DOUBLEALIGN ss) = 8184 - al (unat ss)"
    using ss(2) by (simp_all add: word_unat_eq_iff unsigned_ucast_eq take_bit_eq_mod)
  let ?t = "wr p 8 (replicate (8184 - al (unat ss)) 0)"
  let ?q = "set_pd_upper (set_pd_lower ?t 8) (pd_special p)"
  have fit: "8 + length (replicate (8184 - al (unat ss)) (0 :: byte)) \<le> length p" using h(1) by simp
  have t8: "8 \<le> length ?t" "length ?t = 8192" using fit h(1) by (simp_all add: length_wr)
  have ev: "PageGetTempPage p ss = Some ?q"
    using fit h(1) by (simp add: PageGetTempPage_def ps rd_opt_def rd_def memmove_def u)
  note hf = header_frame [OF order.refl fit]
  have f: "pd_lower ?q = 8" "pd_upper ?q = pd_special p" "pd_special ?q = pd_special p" "od_pagesize ?q = 8192" "length ?q = 8192"
    using t8 hf od by (simp_all add: set_header_simps)
  have "header_ok ?q" using h al ss(2) f by (simp add: header_ok_def BLCKSZ_def)
  moreover have "nlines ?q = 0" using f(1) by (simp add: nlines_def)
  moreover have "rd ?q (unat (pd_special p)) n = rd p (unat (pd_special p)) n" for n
    using ss(2) al fit t8 by (simp add: rd_set_header set_header_simps rd_wr_after)
  ultimately show ?thesis using ev f by (simp add: page_ok_def contents_def)
qed

lemma restore_eq:
  assumes "header_ok t" and "length p = BLCKSZ"
  shows "PageRestoreTempPage t p = Some t"
proof -
  have "od_pagesize t = 8192" "length t = 8192" using assms(1) by (simp_all add: header_ok_def BLCKSZ_def)
  then show ?thesis
    using assms(2) by (simp add: PageRestoreTempPage_def PageGetPageSize_def rd_opt_def rd_def memmove_def wr_def BLCKSZ_def)
qed

subsection \<open>Properties\<close>

text \<open>A page to evaluate on: a fresh page without special space.\<close>

definition sample_page :: page where
  "sample_page = set_od_pagesize (set_pd_special (set_pd_upper (set_pd_lower (replicate 8192 0) 8) 8192) 8192) 8192"

lemma sample_page_header:
  "length sample_page = 8192" "pd_lower sample_page = 8" "pd_upper sample_page = 8192" "pd_special sample_page = 8192"
  "od_pagesize sample_page = 8192"
  by (simp_all add: sample_page_def set_header_simps)

lemma sample_page_ok: "page_ok sample_page" "contents sample_page = []" "nlines sample_page = 0"
  by (simp_all add: page_ok_def header_ok_def BLCKSZ_def contents_def nlines_def sample_page_header)

lemma sample_page_free: "free_slot sample_page = 0" "need sample_page 0 = 12"
  by (simp_all add: free_slot_def need_def sample_page_ok sample_page_header)

text \<open>
  \<open>PageInit\<close> on a block of \<open>BLCKSZ\<close> bytes makes a well-formed empty page with the aligned
  special space at its end, when the special space leaves room for the header.
\<close>

theorem PageInit_correct:
  assumes "length p = BLCKSZ" and "unat ss + 8 < BLCKSZ"
  shows "rets (PageInit p 8192 ss) (\<lambda>q. page_ok q \<and> contents q = [] \<and> unat (pd_special q) = BLCKSZ - al (unat ss))"
  using PageInit_ok [OF assms] by (auto elim: rets_mono)

theorem PageInit_correct_witness:
  "rets (PageInit (replicate 8192 7) 8192 13) (\<lambda>q. page_ok q \<and> contents q = [] \<and> unat (pd_special q) = 8176)"
  using PageInit_correct [of "replicate 8192 7" 13] by (simp add: BLCKSZ_def al_def)

text \<open>
  C5: \<open>PageAddItem\<close> without an offset number, when the item fits: it returns the first
  recyclable line pointer or a new one, the item can be read back there byte for byte, every
  other item keeps its bytes and its line pointer, and the page stays well formed.
\<close>

theorem PageAddItem_correct:
  assumes "page_ok p" and "\<not> OffsetNumberIsValid off" and "length item = unat sz" and "item \<noteq> []" and "unat sz \<le> 2 ^ 30"
    and "(ucast flags :: 6 word) AND LP_USED \<noteq> 0" and "need p (free_slot p) + al (unat sz) \<le> unat (pd_upper p)"
  shows "rets (PageAddItem shuffle p item sz off flags) (\<lambda>(q, r). r = of_nat (Suc (free_slot p)) \<and> page_ok q \<and>
    contents q = (if free_slot p = nlines p then contents p @ [Some item] else (contents p)[free_slot p := Some item]))"
  by (rule PageAddItem_free [OF assms])

theorem PageAddItem_correct_witness:
  "rets (PageAddItem True sample_page [1, 2, 3] 3 0 1) (\<lambda>(q, r). r = 1 \<and> page_ok q \<and> contents q = [Some [1, 2, 3]])"
  using PageAddItem_correct [of sample_page 0 "[1, 2, 3]" 3 1 True]
  by (simp add: sample_page_ok sample_page_free sample_page_header OffsetNumberIsValid_def InvalidOffsetNumber_def
      LP_USED_def al_def)

text \<open>
  An item whose aligned size is at most \<open>PageGetFreeSpace\<close> is never refused; this is the
  check \<open>RelationPut\<close> and \<open>RelationPutAtEnd\<close> make before they call \<open>PageAddItem\<close>.
\<close>

theorem PageAddItem_free_space:
  assumes "page_ok p" and "\<not> OffsetNumberIsValid off" and "length item = unat sz" and "item \<noteq> []"
    and "(ucast flags :: 6 word) AND LP_USED \<noteq> 0" and "unat sz \<le> 2 ^ 30" and "DOUBLEALIGN sz \<le> PageGetFreeSpace p"
  shows "rets (PageAddItem shuffle p item sz off flags) (\<lambda>(q, r). r \<noteq> InvalidOffsetNumber \<and> Some item \<in> set (contents q))"
proof -
  have hk: "header_ok p" by (rule page_okD(1) [OF assms(1)])
  have "al (unat sz) \<le> unat (PageGetFreeSpace p)"
    using assms(6,7) unat_DOUBLEALIGN [of sz] by (simp add: word_le_nat_alt)
  moreover have "0 < unat sz" using assms(3,4) by (cases item) simp_all
  ultimately have fit: "need p (free_slot p) + al (unat sz) \<le> unat (pd_upper p)"
    using fits_free_space [OF hk] by simp
  have "unat (of_nat (Suc (free_slot p)) :: uint16) = Suc (free_slot p)"
    using free_slot_le [of p] header_okD(3) [OF hk] by (subst unat_of_nat) simp
  then have "of_nat (Suc (free_slot p)) \<noteq> (0 :: uint16)" by (metis nat.distinct(1) unsigned_0)
  then show ?thesis
    using free_slot_le [of p]
    by (intro rets_mono [OF PageAddItem_free [OF assms(1-4) assms(6,5) fit]])
      (auto simp: InvalidOffsetNumber_def set_update_memI split: if_splits)
qed

theorem PageAddItem_free_space_witness:
  "rets (PageAddItem False sample_page [4, 5] 2 0 1) (\<lambda>(q, r). r \<noteq> InvalidOffsetNumber \<and> Some [4, 5] \<in> set (contents q))"
proof (rule PageAddItem_free_space)
  show "DOUBLEALIGN 2 \<le> PageGetFreeSpace sample_page"
    by (simp add: DOUBLEALIGN_def PageGetFreeSpace_def sample_page_header)
qed (simp_all add: sample_page_ok OffsetNumberIsValid_def InvalidOffsetNumber_def LP_USED_def)

text \<open>
  An item that does not fit is refused and the page is left as it was.
\<close>

theorem PageAddItem_refused:
  assumes "page_ok p" and "\<not> OffsetNumberIsValid off" and "length item = unat sz" and "unat sz \<le> 2 ^ 30"
    and "unat (pd_upper p) < need p (free_slot p) + al (unat sz)"
  shows "PageAddItem shuffle p item sz off flags = Some (p, InvalidOffsetNumber)"
  using PageAddItem_eq [OF assms(1-4)] assms(5) by simp

theorem PageAddItem_refused_witness:
  "PageAddItem True sample_page (replicate 8185 0) 8185 0 1 = Some (sample_page, InvalidOffsetNumber)"
  by (rule PageAddItem_refused) (simp_all add: sample_page_ok sample_page_free sample_page_header
      OffsetNumberIsValid_def InvalidOffsetNumber_def al_def)

text \<open>
  C14: \<open>PageRepairFragmentation\<close> keeps every item byte for byte under its line pointer and
  leaves no gap between items: the tuple space is exactly as large as the aligned sizes of the
  used items.
\<close>

theorem PageRepairFragmentation_correct:
  assumes "page_ok p"
  shows "rets (PageRepairFragmentation p) (\<lambda>q. page_ok q \<and> contents q = contents p \<and>
    unat (pd_upper q) + sum_list (map (\<lambda>i. al (ilen (linp p i))) (used_lines p)) = unat (pd_special p))"
proof (cases "used_lines p = []")
  case True
  then show ?thesis using repair_unused [OF assms True] by (auto elim!: rets_mono)
next
  case False
  then show ?thesis using repair_used [OF assms False] by (auto elim!: rets_mono)
qed

theorem PageRepairFragmentation_correct_witness:
  "rets (PageRepairFragmentation sample_page) (\<lambda>q. page_ok q \<and> contents q = [] \<and> unat (pd_upper q) = 8192)"
  using PageRepairFragmentation_correct [OF sample_page_ok(1)]
  by (simp add: sample_page_ok sample_page_header used_lines_def)

text \<open>
  C20: \<open>PageIndexTupleDelete\<close> removes one used item: the line pointers after it move down by
  one, all other items keep their bytes, and the free space grows by the aligned size of the
  item and one line pointer.
\<close>

theorem PageIndexTupleDelete_correct:
  assumes "page_ok p" and "i < nlines p" and "ItemIdIsUsed (linp p i)"
  shows "rets (PageIndexTupleDelete p (of_nat (Suc i))) (\<lambda>q. page_ok q \<and>
    contents q = take i (contents p) @ drop (Suc i) (contents p) \<and>
    unat (pd_upper q) = unat (pd_upper p) + al (ilen (linp p i)))"
  using delete_ok [OF assms] by (auto elim: rets_mono)

text \<open>The witness deletes the item that was added to the sample page.\<close>

theorem PageIndexTupleDelete_correct_witness:
  "\<exists>p q. PageAddItem True sample_page [1, 2, 3] 3 0 1 = Some (p, 1) \<and> PageIndexTupleDelete p 1 = Some q \<and> page_ok q \<and> contents q = []"
proof -
  have "rets (PageAddItem True sample_page [1, 2, 3] 3 0 1) (\<lambda>(q, r). r = of_nat (Suc (free_slot sample_page)) \<and> page_ok q \<and>
      contents q = (if free_slot sample_page = nlines sample_page then contents sample_page @ [Some [1, 2, 3]]
        else (contents sample_page)[free_slot sample_page := Some [1, 2, 3]]))"
    by (rule PageAddItem_free) (simp_all add: sample_page_ok sample_page_free sample_page_header OffsetNumberIsValid_def
        InvalidOffsetNumber_def LP_USED_def al_def)
  then obtain p where p: "PageAddItem True sample_page [1, 2, 3] 3 0 1 = Some (p, 1)" "page_ok p" "contents p = [Some [1, 2, 3]]"
    by (auto simp: rets_def sample_page_free sample_page_ok)
  have n: "0 < nlines p" using arg_cong [OF p(3), of length] by simp
  then have "slot p (linp p 0) = Some [1, 2, 3]" using contents_nth [of 0 p] p(3) by simp
  then have "ItemIdIsUsed (linp p 0)" by (simp add: slot_def split: if_splits)
  from PageIndexTupleDelete_correct [OF p(2) n this] show ?thesis
    using p by (auto simp: rets_def)
qed

text \<open>
  A temporary page starts empty with the special space copied, and \<open>PageRestoreTempPage\<close>
  puts a well-formed temporary page in place of the old one.
\<close>

theorem temp_page_roundtrip:
  assumes "page_ok p" and "unat ss \<le> 8184" and "unat (pd_special p) = 8192 - al (unat ss)"
  shows "rets (PageGetTempPage p ss) (\<lambda>t. page_ok t \<and> contents t = [] \<and>
    rd t (unat (pd_special p)) (al (unat ss)) = rd p (unat (pd_special p)) (al (unat ss)) \<and>
    PageRestoreTempPage t p = Some t)"
proof -
  have "length p = BLCKSZ" using page_okD(1) [OF assms(1)] by (simp add: header_ok_def)
  then show ?thesis
    using temp_page_ok [OF assms] by (auto simp: restore_eq page_okD(1) elim!: rets_mono)
qed

theorem temp_page_roundtrip_witness:
  "rets (PageGetTempPage sample_page 0) (\<lambda>t. page_ok t \<and> contents t = [] \<and> rd t 8192 0 = rd sample_page 8192 0 \<and>
    PageRestoreTempPage t sample_page = Some t)"
  using temp_page_roundtrip [OF sample_page_ok(1), of 0] by (simp add: sample_page_header al_def)

text \<open>
  C27: \<open>pg_qsort\<close> returns a sorted permutation for every comparison that is a consistent total
  order, through median selection, partitioning and the insertion sort of small parts, as long as the number of elements and the bytes of the array fit into an \<open>int\<close>: the
  routine narrows its two \<open>size_t\<close> arguments.
\<close>

theorem pg_qsort_sorts:
  assumes "\<And>x y. compar x y < 0 \<longleftrightarrow> 0 < compar y x"
    and "\<And>x y z. compar x y \<le> 0 \<Longrightarrow> compar y z \<le> 0 \<Longrightarrow> compar x z \<le> 0"
    and "0 < sz" and "length xs < 2 ^ 31" and "length xs * sz < 2 ^ 31"
  shows "rets (pg_qsort sz compar xs) (\<lambda>ys. mset ys = mset xs \<and> sorted_wrt (\<lambda>x y. compar x y \<le> 0) ys)"
proof -
  have c: "cmp_order compar" using assms(1,2) by unfold_locales
  show ?thesis using cmp_order.pg_qsort_ok [OF c assms(3-5)] by (simp add: cmp_order.le_def [OF c, abs_def])
qed

text \<open>The witness has ten elements, so that the quicksort partitions them.\<close>

theorem pg_qsort_sorts_witness:
  "rets (pg_qsort 4 (\<lambda>x y. x - y) [7, 3, 9, 1, 8, 2, 10, 5, 4, 6 :: int]) (\<lambda>ys. mset ys = mset [7, 3, 9, 1, 8, 2, 10, 5, 4, 6] \<and>
    sorted_wrt (\<lambda>x y. x - y \<le> 0) ys)"
  using pg_qsort_sorts [of "\<lambda>x y. x - y" 4 "[7, 3, 9, 1, 8, 2, 10, 5, 4, 6 :: int]"] by simp

end
