(* ===== verification/Ring.thy ===== *)
theory Ring
  imports Prelude
begin

text \<open>
  Circular doubly linked lists over a store of cells with a next and a previous link: the
  interface the free list of buffers, the queues in shared memory and the list of open virtual
  files share. The locale fixes the four accesses and the cells they are valid on; inside it,
  a ring with a fixed head is described by the list of its other cells, and unlinking and
  linking a cell are proved to remove it from and to insert it into that list.
\<close>

lemma successively_split:
  "successively P (h # as @ bs @ [k]) \<longleftrightarrow>
     successively P (h # as) \<and> P (last (h # as)) (hd (bs @ [k])) \<and> successively P (bs @ [k])"
proof -
  have "h # as @ bs @ [k] = (h # as) @ (bs @ [k])" by simp
  then show ?thesis by (simp only: successively_append_iff [of P "h # as" "bs @ [k]"]) auto
qed

lemma successively_first: "successively P (x # bs @ [k]) \<longleftrightarrow> P x (hd (bs @ [k])) \<and> successively P (bs @ [k])"
  by (cases bs) auto

lemma successively_mid:
  "successively P (h # as @ x # bs @ [k]) \<longleftrightarrow>
     successively P (h # as) \<and> P (last (h # as)) x \<and> P x (hd (bs @ [k])) \<and> successively P (bs @ [k])"
  using successively_split [of P h as "x # bs" k] successively_first [of P x bs k] by simp

locale link_store =
  fixes nx pv :: "'s \<Rightarrow> 'k \<Rightarrow> 'k" and set_nx set_pv :: "'s \<Rightarrow> 'k \<Rightarrow> 'k \<Rightarrow> 's" and valid :: "'s \<Rightarrow> 'k \<Rightarrow> bool"
  assumes nx_set_nx: "\<lbrakk>valid s a; valid s k\<rbrakk> \<Longrightarrow> nx (set_nx s a v) k = (if k = a then v else nx s k)"
    and pv_set_nx: "\<lbrakk>valid s a; valid s k\<rbrakk> \<Longrightarrow> pv (set_nx s a v) k = pv s k"
    and nx_set_pv: "\<lbrakk>valid s a; valid s k\<rbrakk> \<Longrightarrow> nx (set_pv s a v) k = nx s k"
    and pv_set_pv: "\<lbrakk>valid s a; valid s k\<rbrakk> \<Longrightarrow> pv (set_pv s a v) k = (if k = a then v else pv s k)"
    and valid_set_nx: "valid s a \<Longrightarrow> valid (set_nx s a v) k = valid s k"
    and valid_set_pv: "valid s a \<Longrightarrow> valid (set_pv s a v) k = valid s k"
begin

lemmas link_simps = nx_set_nx pv_set_nx nx_set_pv pv_set_pv valid_set_nx valid_set_pv

definition step :: "'s \<Rightarrow> 'k \<Rightarrow> 'k \<Rightarrow> bool" where
  "step s a b \<longleftrightarrow> nx s a = b \<and> pv s b = a"

definition ring :: "'s \<Rightarrow> 'k \<Rightarrow> 'k list \<Rightarrow> bool" where
  "ring s h xs \<longleftrightarrow> distinct (h # xs) \<and> (\<forall>x\<in>set (h # xs). valid s x) \<and> successively (step s) (h # xs @ [h])"

lemma ring_valid: "ring s h xs \<Longrightarrow> x = h \<or> x \<in> set xs \<Longrightarrow> valid s x"
  by (auto simp: ring_def)

text \<open>Reading the neighbours off a ring.\<close>

lemma ring_neighbours:
  assumes "ring s h (as @ x # bs)"
  shows "pv s x = last (h # as)" and "nx s x = hd (bs @ [h])"
    and "nx s (last (h # as)) = x" and "pv s (hd (bs @ [h])) = x"
proof -
  have "successively (step s) (h # as @ (x # bs) @ [h])" using assms by (simp add: ring_def)
  then have "step s (last (h # as)) x" "step s x (hd (bs @ [h]))"
    unfolding successively_split by (simp_all add: successively_first)
  then show "pv s x = last (h # as)" "nx s x = hd (bs @ [h])" "nx s (last (h # as)) = x" "pv s (hd (bs @ [h])) = x"
    unfolding step_def by simp_all
qed

lemma ring_first: "ring s h xs \<Longrightarrow> nx s h = hd (xs @ [h]) \<and> pv s h = last (h # xs)"
proof -
  assume "ring s h xs"
  then have r: "successively (step s) (h # xs @ [] @ [h])" "successively (step s) (h # xs @ [h])" by (simp_all add: ring_def)
  have "step s (last (h # xs)) h" using r(1) unfolding successively_split by simp
  moreover have "step s h (hd (xs @ [h]))" using r(2) unfolding successively_first by simp
  ultimately show ?thesis unfolding step_def by simp
qed

lemma ring_empty_iff: "ring s h xs \<Longrightarrow> (nx s h = h \<longleftrightarrow> xs = []) \<and> (pv s h = h \<longleftrightarrow> xs = [])"
  using ring_first [of s h xs] by (cases xs) (auto simp: ring_def)

text \<open>A ring only depends on the links of its own cells.\<close>

lemma ring_cong:
  assumes "\<And>k. k \<in> set (h # xs) \<Longrightarrow> nx s k = nx t k \<and> pv s k = pv t k \<and> valid s k = valid t k"
  shows "ring s h xs = ring t h xs"
proof -
  have "successively (step s) zs = successively (step t) zs" if "set zs \<subseteq> set (h # xs)" for zs
    using that assms by (induction zs rule: induct_list012) (auto simp: step_def)
  then show ?thesis using assms by (auto simp: ring_def)
qed

lemma path_frame:
  assumes "successively (step s) zs" and "\<And>a. a \<in> set (butlast zs) \<Longrightarrow> nx t a = nx s a"
    and "\<And>b. b \<in> set (tl zs) \<Longrightarrow> pv t b = pv s b"
  shows "successively (step t) zs"
  using assms
proof (induction zs rule: induct_list012)
  case (3 a b zs)
  have "step t a b" using 3(3-5) by (simp add: step_def)
  moreover have "successively (step t) (b # zs)"
    by (rule 3(2)) (use 3(3-5) in \<open>auto dest: list.set_sel(2) in_set_butlastD split: if_splits\<close>)
  ultimately show ?case by simp
qed auto

lemma butlast_not_last: "distinct zs \<Longrightarrow> a \<in> set (butlast zs) \<Longrightarrow> a \<noteq> last zs \<and> a \<in> set zs"
  by (induction zs rule: rev_induct) auto

lemma tl_not_hd: "distinct zs \<Longrightarrow> b \<in> set (tl zs) \<Longrightarrow> b \<noteq> hd zs \<and> b \<in> set zs"
  by (cases zs) auto

lemma ring_parts:
  assumes "ring s h (as @ bs)"
  shows "successively (step s) (h # as)" and "successively (step s) (bs @ [h])"
    and "step s (last (h # as)) (hd (bs @ [h]))" and "distinct (h # as)" and "distinct (bs @ [h])"
    and "set (h # as) \<inter> set bs = {}" and "\<And>k. k \<in> set (h # as @ bs) \<Longrightarrow> valid s k"
    and "last (h # as) \<in> set (h # as)" and "hd (bs @ [h]) \<in> set (bs @ [h])"
proof -
  have "successively (step s) (h # as @ bs @ [h])" using assms by (simp add: ring_def)
  then show "successively (step s) (h # as)" "successively (step s) (bs @ [h])" "step s (last (h # as)) (hd (bs @ [h]))"
    unfolding successively_split by blast+
  show "distinct (h # as)" "distinct (bs @ [h])" "set (h # as) \<inter> set bs = {}" "\<And>k. k \<in> set (h # as @ bs) \<Longrightarrow> valid s k"
    using assms by (auto simp: ring_def)
  show "last (h # as) \<in> set (h # as)" by (rule last_in_set) simp
  show "hd (bs @ [h]) \<in> set (bs @ [h])" by (rule hd_in_set) simp
qed

text \<open>Both updates replace the link between two neighbours and keep all others.\<close>

lemma ring_relink:
  assumes r: "ring s h (as @ bs)" and p: "p = last (h # as)" and n: "n = hd (bs @ [h])"
    and nx: "\<And>a. a \<in> set (h # as @ bs) \<Longrightarrow> a \<noteq> p \<Longrightarrow> nx t a = nx s a"
    and pv: "\<And>b. b \<in> set (h # as @ bs) \<Longrightarrow> b \<noteq> n \<Longrightarrow> pv t b = pv s b"
  shows "successively (step t) (h # as)" and "successively (step t) (bs @ [h])"
proof -
  note rp = ring_parts [OF r]
  have nm: "n \<in> set (bs @ [h])" "p \<in> set (h # as)" using rp(8,9) p n by simp_all
  show "successively (step t) (h # as)"
  proof (rule path_frame [OF rp(1)])
    show "nx t a = nx s a" if "a \<in> set (butlast (h # as))" for a
      using butlast_not_last [OF rp(4) that] p by (intro nx) auto
    show "pv t b = pv s b" if "b \<in> set (tl (h # as))" for b
      using tl_not_hd [OF rp(4) that] nm(1) rp(6) that by (intro pv) auto
  qed
  show "successively (step t) (bs @ [h])"
  proof (rule path_frame [OF rp(2)])
    show "nx t a = nx s a" if "a \<in> set (butlast (bs @ [h]))" for a
      using that nm(2) rp(6) by (intro nx) auto
    show "pv t b = pv s b" if "b \<in> set (tl (bs @ [h]))" for b
      using tl_not_hd [OF rp(5) that] n by (intro pv) auto
  qed
qed

text \<open>
  Unlinking \<open>x\<close>: any store \<open>t\<close> in which its neighbours point to each other, and the other
  links of the ring are as they were, has the ring without \<open>x\<close>. The links of \<open>x\<close> itself are free.
\<close>

lemma ring_unlink:
  assumes r: "ring s h (as @ x # bs)" and p: "p = pv s x" and n: "n = nx s x"
    and t: "\<And>k. k \<in> set (h # as @ bs) \<Longrightarrow>
      nx t k = (if k = p then n else nx s k) \<and> pv t k = (if k = n then p else pv s k) \<and> valid t k"
  shows "ring t h (as @ bs)"
proof -
  have pn: "p = last (h # as)" "n = hd (bs @ [h])" unfolding p n by (rule ring_neighbours [OF r])+
  have d: "distinct (h # as @ x # bs)" using r by (auto simp: ring_def)
  have mem: "n \<in> set (bs @ [h])" "p \<in> set (h # as)" unfolding pn by (rule hd_in_set last_in_set, simp)+
  have s0: "successively (step s) (h # as)" "successively (step s) (bs @ [h])"
    using r by (simp_all add: ring_def successively_mid del: successively.simps)
  have "successively (step t) (h # as)"
  proof (rule path_frame [OF s0(1)])
    show "nx t a = nx s a" if "a \<in> set (butlast (h # as))" for a
      using butlast_not_last [OF _ that] d pn t [of a] by auto
    show "pv t b = pv s b" if "b \<in> set (tl (h # as))" for b
      using that d mem t [of b] by auto
  qed
  moreover have "successively (step t) (bs @ [h])"
  proof (rule path_frame [OF s0(2)])
    show "nx t a = nx s a" if "a \<in> set (butlast (bs @ [h]))" for a
      using that d mem t [of a] by auto
    show "pv t b = pv s b" if "b \<in> set (tl (bs @ [h]))" for b
      using tl_not_hd [OF _ that] d pn t [of b] by auto
  qed
  moreover have "step t p n" using t [of p] t [of n] mem by (auto simp: step_def)
  ultimately have "successively (step t) (h # as @ bs @ [h])"
    unfolding pn successively_split by blast
  then show ?thesis using d t by (auto simp: ring_def)
qed

text \<open>
  Linking \<open>x\<close>, a cell outside the ring, between \<open>p\<close> and its successor \<open>n\<close>: any store \<open>t\<close> with
  the links this gives has \<open>x\<close> in its place, whatever the order of the writes was.
\<close>

lemma ring_link:
  assumes r: "ring s h (as @ bs)" and x: "valid s x" "x \<noteq> h" "x \<notin> set (as @ bs)"
    and p: "p = last (h # as)" and n: "n = hd (bs @ [h])"
    and t: "\<And>k. k = x \<or> k \<in> set (h # as @ bs) \<Longrightarrow>
      nx t k = (if k = p then x else if k = x then n else nx s k) \<and> pv t k = (if k = n then x else if k = x then p else pv s k) \<and>
      valid t k"
  shows "ring t h (as @ x # bs)"
proof -
  note rp = ring_parts [OF r]
  have mem: "n \<in> set (bs @ [h])" "p \<in> set (h # as)" using rp(8,9) p n by simp_all
  have ne: "x \<noteq> p" "x \<noteq> n" using mem x by auto
  have "nx t a = nx s a" if "a \<in> set (h # as @ bs)" "a \<noteq> p" for a using t [of a] that x by auto
  moreover have "pv t b = pv s b" if "b \<in> set (h # as @ bs)" "b \<noteq> n" for b using t [of b] that x by auto
  ultimately have s0: "successively (step t) (h # as)" "successively (step t) (bs @ [h])"
    by (rule ring_relink [OF r p n]; blast)+
  have "step t p x" "step t x n" using t [of p] t [of x] t [of n] mem ne by (auto simp: step_def)
  then have "successively (step t) (h # as @ x # bs @ [h])"
    using s0 unfolding p n successively_mid by blast
  then show ?thesis using r x t by (auto simp: ring_def)
qed

end

end
