(* ===== verification/FreeList.thy ===== *)
theory FreeList
  imports Ring
begin

text \<open>
  The descriptors of the shared buffer pool and the replacement list that runs through them:
  \<open>storage/buffer/freelist.c\<close>, the pool's initialisation in \<open>buf_init.c\<close>, and the declarations of
  \<open>buf_internals.h\<close>. The free list is a ring through \<open>freeNext\<close> and \<open>freePrev\<close>, whose links are
  array indices; descriptor \<open>NBuffers\<close> is its head. The descriptors are shared by all backends,
  the two reference counts per buffer belong to one
  backend each, and so do its local buffers (\<open>localbuf.c\<close>).

  \<open>None\<close> is a failed \<open>Assert\<close> (the code prints a message and goes on; the model does not follow such a run) or an access outside \<open>BufferDescriptors\<close>.
\<close>

subsection \<open>Declarations\<close>

definition BM_DIRTY :: uint16 where "BM_DIRTY = 1"
definition BM_VALID :: uint16 where "BM_VALID = 4"
definition BM_DELETED :: uint16 where "BM_DELETED = 8"
definition BM_FREE :: uint16 where "BM_FREE = 16"
definition BM_IO_IN_PROGRESS :: uint16 where "BM_IO_IN_PROGRESS = 32"
definition BM_IO_ERROR :: uint16 where "BM_IO_ERROR = 64"
definition BM_JUST_DIRTIED :: uint16 where "BM_JUST_DIRTIED = 128"

definition InvalidBlockNumber :: uint32 where "InvalidBlockNumber = 0xFFFFFFFF"
definition INVALID_DESCRIPTOR :: int where "INVALID_DESCRIPTOR = -3"

record BufferTag =
  dbId :: uint32
  relId :: uint32
  blockNum :: uint32

definition CLEAR_BUFFERTAG :: BufferTag where
  "CLEAR_BUFFERTAG = \<lparr>dbId = 0, relId = 0, blockNum = InvalidBlockNumber\<rparr>"

record BufferDesc =
  freeNext :: int
  freePrev :: int
  data :: "64 word"
  tag :: BufferTag
  buf_id :: int
  flags :: uint16
  bufsmgr :: uint16
  refcount :: uint32
  sb_dbname :: string
  sb_relname :: string

record pool =
  NBuffers :: nat
  BufferDescriptors :: "BufferDesc list"

record backend =
  PrivateRefCount :: "int list"
  LastRefCount :: "int list"
  NLocBuffer :: nat
  LocalRefCount :: "int list"
  LocalBufferDescriptors :: "BufferDesc list"
  nextFreeLocalBuf :: nat

definition Free_List_Descriptor :: "pool \<Rightarrow> int" where
  "Free_List_Descriptor s = int (NBuffers s)"

definition desc_ok :: "pool \<Rightarrow> int \<Rightarrow> bool" where
  "desc_ok s i \<longleftrightarrow> 0 \<le> i \<and> i < int (length (BufferDescriptors s))"

text \<open>\<open>BufferDescriptors[i]\<close>, read and written; the \<open>flags\<close> macros test and change one bit.\<close>

definition desc_at :: "pool \<Rightarrow> int \<Rightarrow> BufferDesc option" where
  "desc_at s i = (if desc_ok s i then Some (BufferDescriptors s ! nat i) else None)"

definition put_desc :: "pool \<Rightarrow> int \<Rightarrow> (BufferDesc \<Rightarrow> BufferDesc) \<Rightarrow> pool" where
  "put_desc s i f = s\<lparr>BufferDescriptors := (BufferDescriptors s)[nat i := f (BufferDescriptors s ! nat i)]\<rparr>"

definition desc_upd :: "pool \<Rightarrow> int \<Rightarrow> (BufferDesc \<Rightarrow> BufferDesc) \<Rightarrow> pool option" where
  "desc_upd s i f = (if desc_ok s i then Some (put_desc s i f) else None)"

definition has_flag :: "uint16 \<Rightarrow> BufferDesc \<Rightarrow> bool" where
  "has_flag m d \<longleftrightarrow> flags d AND m \<noteq> 0"

definition set_flag :: "uint16 \<Rightarrow> BufferDesc \<Rightarrow> BufferDesc" where
  "set_flag m d = d\<lparr>flags := flags d OR m\<rparr>"

definition clear_flag :: "uint16 \<Rightarrow> BufferDesc \<Rightarrow> BufferDesc" where
  "clear_flag m d = d\<lparr>flags := flags d AND NOT m\<rparr>"

definition BufferDescriptorGetBuffer :: "BufferDesc \<Rightarrow> int" where
  "BufferDescriptorGetBuffer d = buf_id d + 1"

definition ref_get :: "int list \<Rightarrow> int \<Rightarrow> int option" where
  "ref_get v i = (if 0 \<le> i \<and> i < int (length v) then Some (v ! nat i) else None)"

subsection \<open>The free list\<close>

definition IsInQueue :: "BufferDesc \<Rightarrow> bool" where
  "IsInQueue d \<longleftrightarrow> freeNext d \<noteq> INVALID_DESCRIPTOR \<and> freePrev d \<noteq> INVALID_DESCRIPTOR \<and> has_flag BM_FREE d"

definition NotInQueue :: "BufferDesc \<Rightarrow> bool" where
  "NotInQueue d \<longleftrightarrow> freeNext d = INVALID_DESCRIPTOR \<and> freePrev d = INVALID_DESCRIPTOR \<and> \<not> has_flag BM_FREE d"

definition AddBufferToFreelist :: "pool \<Rightarrow> int \<Rightarrow> pool option" where
  "AddBufferToFreelist s bf = do {
     d \<leftarrow> desc_at s bf;
     if \<not> NotInQueue d then None
     else do {
       h \<leftarrow> desc_at s (Free_List_Descriptor s);
       s \<leftarrow> desc_upd s bf (\<lambda>x. x\<lparr>freePrev := freePrev h\<rparr>);
       s \<leftarrow> desc_upd s bf (\<lambda>x. x\<lparr>freeNext := Free_List_Descriptor s\<rparr>);
       d \<leftarrow> desc_at s bf;
       s \<leftarrow> desc_upd s (freeNext d) (\<lambda>x. x\<lparr>freePrev := buf_id d\<rparr>);
       d \<leftarrow> desc_at s bf;
       desc_upd s (freePrev d) (\<lambda>x. x\<lparr>freeNext := buf_id d\<rparr>)
     }
   }"

text \<open>\<open>PinBuffer\<close> and \<open>GetFreeBuffer\<close> take a descriptor out of the queue with the same statements.\<close>

definition remove_desc :: "pool \<Rightarrow> int \<Rightarrow> pool option" where
  "remove_desc s b = do {
     d \<leftarrow> desc_at s b;
     s \<leftarrow> desc_upd s (freeNext d) (\<lambda>x. x\<lparr>freePrev := freePrev d\<rparr>);
     d \<leftarrow> desc_at s b;
     s \<leftarrow> desc_upd s (freePrev d) (\<lambda>x. x\<lparr>freeNext := freeNext d\<rparr>);
     s \<leftarrow> desc_upd s b (\<lambda>x. x\<lparr>freeNext := INVALID_DESCRIPTOR, freePrev := INVALID_DESCRIPTOR\<rparr>);
     desc_upd s b (clear_flag BM_FREE)
   }"

definition PinBuffer :: "pool \<Rightarrow> backend \<Rightarrow> int \<Rightarrow> (pool \<times> backend) option" where
  "PinBuffer s me buf = do {
     d \<leftarrow> desc_at s buf;
     s \<leftarrow> (if refcount d = 0 then if IsInQueue d then remove_desc s buf else None
           else if NotInQueue d then Some s else None);
     b \<leftarrow> Some (BufferDescriptorGetBuffer d - 1);
     c \<leftarrow> ref_get (PrivateRefCount me) b;
     l \<leftarrow> ref_get (LastRefCount me) b;
     if c < 0 then None
     else do {
       s \<leftarrow> (if c = 0 \<and> l = 0 then desc_upd s buf (\<lambda>x. x\<lparr>refcount := refcount x + 1\<rparr>) else Some s);
       Some (s, me\<lparr>PrivateRefCount := (PrivateRefCount me)[nat b := c + 1]\<rparr>)
     }
   }"

definition UnpinBuffer :: "pool \<Rightarrow> backend \<Rightarrow> int \<Rightarrow> (pool \<times> backend) option" where
  "UnpinBuffer s me buf = do {
     d \<leftarrow> desc_at s buf;
     b \<leftarrow> Some (BufferDescriptorGetBuffer d - 1);
     c \<leftarrow> ref_get (PrivateRefCount me) b;
     l \<leftarrow> ref_get (LastRefCount me) b;
     if refcount d = 0 \<or> c \<le> 0 then None
     else do {
       me \<leftarrow> Some (me\<lparr>PrivateRefCount := (PrivateRefCount me)[nat b := c - 1]\<rparr>);
       s \<leftarrow> (if c - 1 = 0 \<and> l = 0 then desc_upd s buf (\<lambda>x. x\<lparr>refcount := refcount x - 1\<rparr>) else Some s);
       d \<leftarrow> desc_at s buf;
       if \<not> NotInQueue d then None
       else if refcount d = 0 then do {
         s \<leftarrow> AddBufferToFreelist s buf;
         s \<leftarrow> desc_upd s buf (set_flag BM_FREE);
         Some (s, me)
       } else Some (s, me)
     }
   }"

text \<open>The result is the index of the buffer, or \<open>None\<close> inside for the null pointer.\<close>

definition GetFreeBuffer :: "pool \<Rightarrow> (pool \<times> int option) option" where
  "GetFreeBuffer s = do {
     h \<leftarrow> desc_at s (Free_List_Descriptor s);
     if Free_List_Descriptor s = freeNext h then Some (s, None)
     else do {
       s' \<leftarrow> remove_desc s (freeNext h);
       Some (s', Some (freeNext h))
     }
   }"

subsection \<open>Initialisation\<close>

definition InitFreeList :: "pool \<Rightarrow> bool \<Rightarrow> pool option" where
  "InitFreeList s init =
     (if init then do {
        fl \<leftarrow> Some (Free_List_Descriptor s);
        s \<leftarrow> desc_upd s fl (\<lambda>x. x\<lparr>data := -1, flags := 0 AND NOT (BM_VALID OR BM_DELETED OR BM_FREE), buf_id := fl\<rparr>);
        d0 \<leftarrow> desc_at s 0;
        s \<leftarrow> desc_upd s fl (\<lambda>x. x\<lparr>freeNext := freeNext d0, freePrev := 0\<rparr>);
        h \<leftarrow> desc_at s fl;
        s \<leftarrow> desc_upd s (freePrev h) (\<lambda>x. x\<lparr>freeNext := fl\<rparr>);
        h \<leftarrow> desc_at s fl;
        desc_upd s (freeNext h) (\<lambda>x. x\<lparr>freePrev := fl\<rparr>)
      } else Some s)"

definition init_desc :: "64 word \<Rightarrow> nat \<Rightarrow> BufferDesc \<Rightarrow> BufferDesc" where
  "init_desc base i d = d\<lparr>freeNext := int i + 1, freePrev := int i - 1, tag := CLEAR_BUFFERTAG,
     data := base + of_nat (8192 * i), flags := BM_DELETED OR BM_FREE OR BM_VALID, refcount := 0, buf_id := int i\<rparr>"

text \<open>
  \<open>mem\<close> is what shared memory holds at the descriptors' place and \<open>base\<close> the offset of the
  blocks; \<open>found\<close> says that another process has set the structures up already.
\<close>

definition InitBufferPool :: "nat \<Rightarrow> 64 word \<Rightarrow> BufferDesc list \<Rightarrow> bool \<Rightarrow> backend \<Rightarrow> (pool \<times> backend) option" where
  "InitBufferPool n base mem found me = do {
     s \<leftarrow> Some \<lparr>NBuffers = n, BufferDescriptors = mem\<rparr>;
     s \<leftarrow> (if found then Some s
           else do {
             s \<leftarrow> for_loop 0 n (\<lambda>i s. desc_upd s (int i) (init_desc base i)) s;
             s \<leftarrow> desc_upd s 0 (\<lambda>x. x\<lparr>freePrev := int n - 1\<rparr>);
             desc_upd s (int n - 1) (\<lambda>x. x\<lparr>freeNext := 0\<rparr>)
           });
     s \<leftarrow> InitFreeList s (\<not> found);
     Some (s, me\<lparr>PrivateRefCount := replicate n 0, LastRefCount := replicate n 0\<rparr>)
   }"

end
