(* ===== verification/FreeList_Inv.thy ===== *)
theory FreeList_Inv
  imports FreeList
begin

text \<open>
  The free list as a queue: the descriptors' ring interpreted as a link store, the invariant
  that ties the links and the \<open>BM_FREE\<close> flags to an abstract list of buffers, and what removing
  and adding a buffer do to that list. Everything else in the descriptors is unchanged, which
  the view \<open>core\<close> of a descriptor states.
\<close>

definition D :: "pool \<Rightarrow> int \<Rightarrow> BufferDesc" where
  "D s k = BufferDescriptors s ! nat k"

lemma D_put_desc [simp]:
  "desc_ok s a \<Longrightarrow> desc_ok s k \<Longrightarrow> D (put_desc s a f) k = (if k = a then f (D s a) else D s k)"
  by (auto simp: D_def put_desc_def desc_ok_def nth_list_update)

lemma put_desc_simps [simp]:
  "desc_ok (put_desc s a f) k = desc_ok s k" "NBuffers (put_desc s a f) = NBuffers s"
  "length (BufferDescriptors (put_desc s a f)) = length (BufferDescriptors s)"
  "Free_List_Descriptor (put_desc s a f) = Free_List_Descriptor s"
  by (simp_all add: put_desc_def desc_ok_def Free_List_Descriptor_def)

lemma desc_at_ok [simp]: "desc_ok s k \<Longrightarrow> desc_at s k = Some (D s k)"
  by (simp add: desc_at_def D_def)

lemma desc_upd_ok [simp]: "desc_ok s k \<Longrightarrow> desc_upd s k f = Some (put_desc s k f)"
  by (simp add: desc_upd_def)

interpretation fl: link_store "\<lambda>s k. freeNext (D s k)" "\<lambda>s k. freePrev (D s k)"
  "\<lambda>s k v. put_desc s k (\<lambda>x. x\<lparr>freeNext := v\<rparr>)" "\<lambda>s k v. put_desc s k (\<lambda>x. x\<lparr>freePrev := v\<rparr>)" desc_ok
  by unfold_locales auto

subsection \<open>Flags\<close>

lemma flag_simps [simp]:
  "has_flag BM_FREE (set_flag BM_FREE d)" "\<not> has_flag BM_FREE (clear_flag BM_FREE d)"
  "has_flag m (d\<lparr>freeNext := v\<rparr>) = has_flag m d" "has_flag m (d\<lparr>freePrev := v\<rparr>) = has_flag m d"
  "has_flag m (d\<lparr>refcount := c\<rparr>) = has_flag m d"
  "refcount (set_flag m d) = refcount d" "refcount (clear_flag m d) = refcount d"
  "buf_id (set_flag m d) = buf_id d" "buf_id (clear_flag m d) = buf_id d"
  "freeNext (set_flag m d) = freeNext d" "freeNext (clear_flag m d) = freeNext d"
  "freePrev (set_flag m d) = freePrev d" "freePrev (clear_flag m d) = freePrev d"
proof -
  show "has_flag BM_FREE (set_flag BM_FREE d)"
    by (simp add: has_flag_def set_flag_def BM_FREE_def bit_eq_iff bit_simps) (auto simp: bit_eq_iff bit_simps intro!: exI [of _ 4])
  show "\<not> has_flag BM_FREE (clear_flag BM_FREE d)"
    by (auto simp: has_flag_def clear_flag_def bit_eq_iff bit_simps)
qed (simp_all add: has_flag_def set_flag_def clear_flag_def)

text \<open>What the free list does not touch in a descriptor.\<close>

definition core :: "BufferDesc \<Rightarrow> BufferDesc" where
  "core d = d\<lparr>freeNext := 0, freePrev := 0, flags := flags d AND NOT BM_FREE\<rparr>"

lemma core_simps [simp]:
  "core (d\<lparr>freeNext := v\<rparr>) = core d" "core (d\<lparr>freePrev := v\<rparr>) = core d"
  "core (set_flag BM_FREE d) = core d" "core (clear_flag BM_FREE d) = core d"
  "core (d\<lparr>refcount := c\<rparr>) = (core d)\<lparr>refcount := c\<rparr>"
proof -
  have "(flags d OR BM_FREE) AND NOT BM_FREE = flags d AND NOT BM_FREE"
    "(flags d AND NOT BM_FREE) AND NOT BM_FREE = flags d AND NOT BM_FREE"
    by (auto simp: bit_eq_iff bit_simps)
  then show "core (set_flag BM_FREE d) = core d" "core (clear_flag BM_FREE d) = core d"
    by (simp_all add: core_def set_flag_def clear_flag_def)
qed (simp_all add: core_def)

lemma core_sel [simp]:
  "refcount (core d) = refcount d" "buf_id (core d) = buf_id d" "tag (core d) = tag d" "data (core d) = data d"
  by (simp_all add: core_def)

lemma core_eqD: "core d = core d' \<Longrightarrow> refcount d = refcount d' \<and> buf_id d = buf_id d' \<and> tag d = tag d' \<and> data d = data d'"
  by (metis core_sel)

subsection \<open>The invariant of the list\<close>

text \<open>\<open>linked s xs\<close>: the buffers on the free list, oldest first, are \<open>xs\<close>; the others are marked as off it.\<close>

definition linked :: "pool \<Rightarrow> int list \<Rightarrow> bool" where
  "linked s xs \<longleftrightarrow> length (BufferDescriptors s) = Suc (NBuffers s) \<and>
     (\<forall>k. desc_ok s k \<longrightarrow> buf_id (D s k) = k) \<and>
     fl.ring s (Free_List_Descriptor s) xs \<and>
     (\<forall>k. 0 \<le> k \<and> k < int (NBuffers s) \<longrightarrow> (if k \<in> set xs then has_flag BM_FREE (D s k) else NotInQueue (D s k)))"

lemma linked_ok:
  assumes "linked s xs"
  shows "desc_ok s k \<longleftrightarrow> 0 \<le> k \<and> k \<le> int (NBuffers s)"
  using assms by (auto simp: linked_def desc_ok_def)

lemma linked_range: "linked s xs \<Longrightarrow> x \<in> set xs \<Longrightarrow> 0 \<le> x \<and> x < int (NBuffers s)"
  using linked_ok [of s xs x] by (auto simp: linked_def fl.ring_def Free_List_Descriptor_def order_less_le)

lemma linked_buf_id: "linked s xs \<Longrightarrow> desc_ok s k \<Longrightarrow> buf_id (D s k) = k"
  by (simp add: linked_def)

lemma linked_NotInQueue: "linked s xs \<Longrightarrow> 0 \<le> k \<Longrightarrow> k < int (NBuffers s) \<Longrightarrow> k \<notin> set xs \<Longrightarrow> NotInQueue (D s k)"
  by (simp add: linked_def split: if_splits)

lemma linked_distinct: "linked s xs \<Longrightarrow> distinct xs"
  by (simp add: linked_def fl.ring_def)

lemma linked_neighbours:
  assumes "linked s (as @ x # bs)"
  shows "desc_ok s x" and "desc_ok s (freeNext (D s x))" and "desc_ok s (freePrev (D s x))"
    and "freeNext (D s x) \<noteq> x" and "freePrev (D s x) \<noteq> x"
    and "freeNext (D s x) \<in> insert (Free_List_Descriptor s) (set bs)"
    and "freePrev (D s x) \<in> insert (Free_List_Descriptor s) (set as)"
proof -
  let ?h = "Free_List_Descriptor s"
  have r: "fl.ring s ?h (as @ x # bs)" using assms by (simp add: linked_def)
  have n: "freeNext (D s x) = hd (bs @ [?h])" and p: "freePrev (D s x) = last (?h # as)"
    using fl.ring_neighbours [OF r] by simp_all
  show nm: "freeNext (D s x) \<in> insert ?h (set bs)" using hd_in_set [of "bs @ [?h]"] unfolding n by auto
  show pm: "freePrev (D s x) \<in> insert ?h (set as)" using last_in_set [of "?h # as"] unfolding p by auto
  show "desc_ok s x" "desc_ok s (freeNext (D s x))" "desc_ok s (freePrev (D s x))"
    using r nm pm by (auto simp: fl.ring_def)
  show "freeNext (D s x) \<noteq> x" "freePrev (D s x) \<noteq> x"
    using r nm pm by (auto simp: fl.ring_def)
qed

lemma linked_InQueue:
  assumes "linked s xs" and "x \<in> set xs"
  shows "IsInQueue (D s x)"
proof -
  obtain as bs where xs: "xs = as @ x # bs" using assms(2) by (meson split_list)
  note n = linked_neighbours [of s as x bs, folded xs, OF assms(1)]
  have "0 \<le> freeNext (D s x)" "0 \<le> freePrev (D s x)" using n by (simp_all add: desc_ok_def)
  then show ?thesis
    using assms linked_range [OF assms] by (auto simp: IsInQueue_def linked_def INVALID_DESCRIPTOR_def)
qed

subsection \<open>Removing and adding a buffer\<close>

lemma linkedI:
  assumes "linked s xs" and same: "length (BufferDescriptors s') = length (BufferDescriptors s)" "NBuffers s' = NBuffers s"
    and core: "\<And>k. desc_ok s k \<Longrightarrow> core (D s' k) = core (D s k)"
    and ring: "fl.ring s' (Free_List_Descriptor s) ys"
    and queue: "\<And>k. 0 \<le> k \<and> k < int (NBuffers s) \<Longrightarrow> (if k \<in> set ys then has_flag BM_FREE (D s' k) else NotInQueue (D s' k))"
  shows "linked s' ys"
proof -
  have "desc_ok s' k = desc_ok s k" for k using same by (simp add: desc_ok_def)
  moreover have "buf_id (D s' k) = k" if "desc_ok s k" for k
    using core_eqD [OF core [OF that]] assms(1) that by (simp add: linked_def)
  ultimately show ?thesis using assms by (simp add: linked_def Free_List_Descriptor_def)
qed

lemma remove_desc_eq:
  assumes "desc_ok s x" "desc_ok s n" "desc_ok s p" and np: "n = freeNext (D s x)" "p = freePrev (D s x)" and "n \<noteq> x" "p \<noteq> x"
  obtains s' where "remove_desc s x = Some s'" and "length (BufferDescriptors s') = length (BufferDescriptors s)"
    and "NBuffers s' = NBuffers s" and "\<And>k. desc_ok s k \<Longrightarrow> core (D s' k) = core (D s k)"
    and "\<And>k. desc_ok s k \<Longrightarrow> k \<noteq> x \<Longrightarrow> freeNext (D s' k) = (if k = p then n else freeNext (D s k))"
    and "\<And>k. desc_ok s k \<Longrightarrow> k \<noteq> x \<Longrightarrow> freePrev (D s' k) = (if k = n then p else freePrev (D s k))"
    and "\<And>k. desc_ok s k \<Longrightarrow> k \<noteq> x \<Longrightarrow> flags (D s' k) = flags (D s k)"
    and "NotInQueue (D s' x)"
proof -
  define s' where "s' = put_desc (put_desc (put_desc (put_desc s n (\<lambda>d. d\<lparr>freePrev := p\<rparr>)) p (\<lambda>d. d\<lparr>freeNext := n\<rparr>)) x
    (\<lambda>d. d\<lparr>freeNext := INVALID_DESCRIPTOR, freePrev := INVALID_DESCRIPTOR\<rparr>)) x (clear_flag BM_FREE)"
  have "remove_desc s x = Some s'" unfolding remove_desc_def s'_def using assms by simp
  then show ?thesis by (rule that) (use assms in \<open>auto simp: s'_def NotInQueue_def\<close>)
qed

lemma remove_desc_linked:
  assumes "linked s (as @ x # bs)"
  obtains s' where "remove_desc s x = Some s'" and "linked s' (as @ bs)" and "NBuffers s' = NBuffers s"
    and "\<And>k. desc_ok s k \<Longrightarrow> core (D s' k) = core (D s k)"
proof -
  note nb = linked_neighbours [OF assms]
  obtain s' where s': "remove_desc s x = Some s'" "length (BufferDescriptors s') = length (BufferDescriptors s)"
    "NBuffers s' = NBuffers s" "\<And>k. desc_ok s k \<Longrightarrow> core (D s' k) = core (D s k)"
    and nx: "\<And>k. desc_ok s k \<Longrightarrow> k \<noteq> x \<Longrightarrow> freeNext (D s' k) = (if k = freePrev (D s x) then freeNext (D s x) else freeNext (D s k))"
    and pv: "\<And>k. desc_ok s k \<Longrightarrow> k \<noteq> x \<Longrightarrow> freePrev (D s' k) = (if k = freeNext (D s x) then freePrev (D s x) else freePrev (D s k))"
    and fl: "\<And>k. desc_ok s k \<Longrightarrow> k \<noteq> x \<Longrightarrow> flags (D s' k) = flags (D s k)" and x: "NotInQueue (D s' x)"
    by (rule remove_desc_eq [OF nb(1) nb(2) nb(3) refl refl nb(4,5)]) blast
  have r: "fl.ring s (Free_List_Descriptor s) (as @ x # bs)" using assms by (simp add: linked_def)
  have ring: "fl.ring s' (Free_List_Descriptor s) (as @ bs)"
  proof (rule fl.ring_unlink [OF r refl refl])
    fix k assume k: "k \<in> set (Free_List_Descriptor s # as @ bs)"
    then have "desc_ok s k" "k \<noteq> x" using r by (auto simp: fl.ring_def)
    then show "freeNext (D s' k) = (if k = freePrev (D s x) then freeNext (D s x) else freeNext (D s k)) \<and>
      freePrev (D s' k) = (if k = freeNext (D s x) then freePrev (D s x) else freePrev (D s k)) \<and> desc_ok s' k"
      using nx pv s'(2) by (simp add: desc_ok_def)
  qed
  have "linked s' (as @ bs)"
  proof (rule linkedI [OF assms s'(2,3,4) ring])
    fix k assume k: "0 \<le> k \<and> k < int (NBuffers s)"
    have ok: "desc_ok s k" using k by (simp add: linked_ok [OF assms])
    have d: "x \<notin> set (as @ bs)" using linked_distinct [OF assms] by auto
    show "if k \<in> set (as @ bs) then has_flag BM_FREE (D s' k) else NotInQueue (D s' k)"
    proof (cases "k = x")
      case False
      have "has_flag BM_FREE (D s' k) = has_flag BM_FREE (D s k)" using fl [OF ok False] by (simp add: has_flag_def)
      moreover have "NotInQueue (D s' k)" if "k \<notin> set (as @ bs)"
      proof -
        have q: "NotInQueue (D s k)" using assms k that False by (auto simp: linked_def)
        have "k \<noteq> Free_List_Descriptor s" using k by (simp add: Free_List_Descriptor_def)
        then have "k \<noteq> freePrev (D s x)" "k \<noteq> freeNext (D s x)" using nb(6,7) that by auto
        then show ?thesis using q nx [OF ok False] pv [OF ok False] fl [OF ok False]
          by (simp add: NotInQueue_def has_flag_def)
      qed
      ultimately show ?thesis using assms k False by (auto simp: linked_def)
    qed (use x d in simp)
  qed (simp add: s')
  then show ?thesis by (rule that [OF s'(1) _ s'(3,4)])
qed

lemma add_desc_eq:
  assumes "desc_ok s x" "desc_ok s p" and h: "desc_ok s h" "h = Free_List_Descriptor s" and p: "p = freePrev (D s h)" and "h \<noteq> x" "p \<noteq> x"
    and q: "NotInQueue (D s x)" and id: "buf_id (D s x) = x"
  obtains s1 s' where "AddBufferToFreelist s x = Some s1" and "desc_upd s1 x (set_flag BM_FREE) = Some s'"
    and "length (BufferDescriptors s') = length (BufferDescriptors s)"
    and "NBuffers s' = NBuffers s" and "\<And>k. desc_ok s k \<Longrightarrow> core (D s' k) = core (D s k)"
    and "\<And>k. desc_ok s k \<Longrightarrow> freeNext (D s' k) = (if k = p then x else if k = x then h else freeNext (D s k))"
    and "\<And>k. desc_ok s k \<Longrightarrow> freePrev (D s' k) = (if k = h then x else if k = x then p else freePrev (D s k))"
    and "\<And>k. desc_ok s k \<Longrightarrow> k \<noteq> x \<Longrightarrow> flags (D s' k) = flags (D s k)"
    and "has_flag BM_FREE (D s' x)"
proof -
  define s1 where "s1 = put_desc (put_desc (put_desc (put_desc s x (\<lambda>d. d\<lparr>freePrev := p\<rparr>)) x (\<lambda>d. d\<lparr>freeNext := h\<rparr>))
    h (\<lambda>d. d\<lparr>freePrev := x\<rparr>)) p (\<lambda>d. d\<lparr>freeNext := x\<rparr>)"
  have "AddBufferToFreelist s x = Some s1" unfolding AddBufferToFreelist_def s1_def using assms by simp
  moreover have "desc_upd s1 x (set_flag BM_FREE) = Some (put_desc s1 x (set_flag BM_FREE))" using assms by (simp add: s1_def)
  ultimately show ?thesis by (rule that) (use assms in \<open>auto simp: s1_def\<close>)
qed

lemma add_desc_linked:
  assumes l: "linked s xs" and x: "0 \<le> x" "x < int (NBuffers s)" "x \<notin> set xs"
  obtains s1 s' where "AddBufferToFreelist s x = Some s1" and "desc_upd s1 x (set_flag BM_FREE) = Some s'"
    and "linked s' (xs @ [x])" and "NBuffers s' = NBuffers s" and "\<And>k. desc_ok s k \<Longrightarrow> core (D s' k) = core (D s k)"
proof -
  define h p where hp: "h = Free_List_Descriptor s" "p = freePrev (D s h)"
  have r: "fl.ring s h (xs @ [])" using l by (simp add: linked_def hp)
  have pl: "p = last (h # xs)" using fl.ring_first [of s h xs] r by (simp add: hp)
  have ok: "desc_ok s x" "desc_ok s h" using x by (simp_all add: linked_ok [OF l] hp Free_List_Descriptor_def)
  have "p \<in> set (h # xs)" unfolding pl by (rule last_in_set) simp
  then have p: "desc_ok s p" "p \<noteq> x" "p = h \<or> p \<in> set xs" using r x by (auto simp: fl.ring_def hp Free_List_Descriptor_def)
  have xh: "h \<noteq> x" using x by (simp add: hp Free_List_Descriptor_def)
  have q: "NotInQueue (D s x)" "buf_id (D s x) = x" using l x ok by (auto simp: linked_def)
  obtain s1 s' where s': "AddBufferToFreelist s x = Some s1" "desc_upd s1 x (set_flag BM_FREE) = Some s'"
    "length (BufferDescriptors s') = length (BufferDescriptors s)" "NBuffers s' = NBuffers s" "\<And>k. desc_ok s k \<Longrightarrow> core (D s' k) = core (D s k)"
    and nx: "\<And>k. desc_ok s k \<Longrightarrow> freeNext (D s' k) = (if k = p then x else if k = x then h else freeNext (D s k))"
    and pv: "\<And>k. desc_ok s k \<Longrightarrow> freePrev (D s' k) = (if k = h then x else if k = x then p else freePrev (D s k))"
    and fl: "\<And>k. desc_ok s k \<Longrightarrow> k \<noteq> x \<Longrightarrow> flags (D s' k) = flags (D s k)" and xf: "has_flag BM_FREE (D s' x)"
    by (rule add_desc_eq [OF ok(1) p(1) ok(2) hp xh p(2) q]) blast
  have ring: "fl.ring s' h (xs @ [x])"
  proof (rule fl.ring_link [OF r])
    show "desc_ok s x" "x \<noteq> h" "x \<notin> set (xs @ [])" "p = last (h # xs)" "h = hd ([] @ [h])" using ok x xh pl by auto
    fix k assume "k = x \<or> k \<in> set (h # xs @ [])"
    then have "desc_ok s k" using ok r by (auto simp: fl.ring_def)
    then show "freeNext (D s' k) = (if k = p then x else if k = x then h else freeNext (D s k)) \<and>
      freePrev (D s' k) = (if k = h then x else if k = x then p else freePrev (D s k)) \<and> desc_ok s' k"
      using nx pv s'(3) by (simp add: desc_ok_def)
  qed
  have "linked s' (xs @ [x])"
  proof (rule linkedI [OF l s'(3,4,5)])
    show "fl.ring s' (Free_List_Descriptor s) (xs @ [x])" using ring by (simp add: hp)
    fix k assume k: "0 \<le> k \<and> k < int (NBuffers s)"
    have ok: "desc_ok s k" using k by (simp add: linked_ok [OF l])
    have kh: "k \<noteq> h" using k by (simp add: hp Free_List_Descriptor_def)
    show "if k \<in> set (xs @ [x]) then has_flag BM_FREE (D s' k) else NotInQueue (D s' k)"
    proof (cases "k = x")
      case False
      have "has_flag BM_FREE (D s' k) = has_flag BM_FREE (D s k)" using fl [OF ok False] by (simp add: has_flag_def)
      moreover have "freeNext (D s' k) = freeNext (D s k)" "freePrev (D s' k) = freePrev (D s k)" if "k \<notin> set xs"
        using that nx [OF ok] pv [OF ok] kh False p(3) by auto
      ultimately show ?thesis using l k False by (auto simp: linked_def NotInQueue_def)
    qed (use xf in simp)
  qed
  then show ?thesis by (rule that [OF s'(1,2) _ s'(4,5)])
qed

end
