(* ===== verification/Pins.thy ===== *)
theory Pins
  imports FreeList_Inv
begin

text \<open>
  Pinning and releasing buffers: the parts of \<open>storage/buffer/bufmgr.c\<close> that keep the reference
  counts. A shared buffer is counted once in its descriptor for every backend that holds it,
  however often the backend pinned it; the backend counts its own pins, and sets the counts
  of an outer \<open>ExecMain\<close> level aside in \<open>LastRefCount\<close>. Negative buffer numbers are local buffers.
\<close>

definition STATUS_OK :: int where "STATUS_OK = 0"
definition STATUS_ERROR :: int where "STATUS_ERROR = -1"

definition BufferIsLocal :: "int \<Rightarrow> bool" where
  "BufferIsLocal buffer \<longleftrightarrow> buffer < 0"

definition BAD_BUFFER_ID :: "pool \<Rightarrow> int \<Rightarrow> bool" where
  "BAD_BUFFER_ID s bid \<longleftrightarrow> bid < 1 \<or> int (NBuffers s) < bid"

definition BufferIsValid :: "pool \<Rightarrow> backend \<Rightarrow> int \<Rightarrow> bool option" where
  "BufferIsValid s me bufnum =
     (if BufferIsLocal bufnum then
        if bufnum \<ge> - int (NLocBuffer me) then map_option (\<lambda>c. c > 0) (ref_get (LocalRefCount me) (- bufnum - 1)) else Some False
      else if BAD_BUFFER_ID s bufnum then Some False
      else map_option (\<lambda>c. c > 0) (ref_get (PrivateRefCount me) (bufnum - 1)))"

definition BufferGetBlockNumber :: "pool \<Rightarrow> backend \<Rightarrow> int \<Rightarrow> uint32 option" where
  "BufferGetBlockNumber s me buffer = do {
     v \<leftarrow> BufferIsValid s me buffer;
     if \<not> v then None
     else if BufferIsLocal buffer then map_option (\<lambda>d. blockNum (tag d)) (arr_get (LocalBufferDescriptors me) (nat (- buffer - 1)))
     else map_option (\<lambda>d. blockNum (tag d)) (desc_at s (buffer - 1))
   }"

definition IncrBufferRefCount :: "pool \<Rightarrow> backend \<Rightarrow> int \<Rightarrow> backend option" where
  "IncrBufferRefCount s me buffer =
     (if BufferIsLocal buffer then do {
        c \<leftarrow> ref_get (LocalRefCount me) (- buffer - 1);
        if c < 0 then None else Some (me\<lparr>LocalRefCount := (LocalRefCount me)[nat (- buffer - 1) := c + 1]\<rparr>)
      } else if BAD_BUFFER_ID s buffer then None
      else do {
        c \<leftarrow> ref_get (PrivateRefCount me) (buffer - 1);
        if c < 0 then None else Some (me\<lparr>PrivateRefCount := (PrivateRefCount me)[nat (buffer - 1) := c + 1]\<rparr>)
      })"

text \<open>
  Giving up the shared reference: the last backend to do so puts the buffer on the free list.
  \<open>ReleaseBuffer\<close> and \<open>ReleaseAndReadBuffer\<close> have the same statements.
\<close>

definition drop_shared :: "pool \<Rightarrow> int \<Rightarrow> pool option" where
  "drop_shared s bufHdr = do {
     s \<leftarrow> desc_upd s bufHdr (\<lambda>x. x\<lparr>refcount := refcount x - 1\<rparr>);
     d \<leftarrow> desc_at s bufHdr;
     if refcount d = 0 then do {
       s \<leftarrow> AddBufferToFreelist s bufHdr;
       desc_upd s bufHdr (set_flag BM_FREE)
     } else Some s
   }"

definition ReleaseBuffer :: "pool \<Rightarrow> backend \<Rightarrow> int \<Rightarrow> (pool \<times> backend \<times> int) option" where
  "ReleaseBuffer s me buffer =
     (if BufferIsLocal buffer then do {
        c \<leftarrow> ref_get (LocalRefCount me) (- buffer - 1);
        if c \<le> 0 then None
        else Some (s, me\<lparr>LocalRefCount := (LocalRefCount me)[nat (- buffer - 1) := c - 1]\<rparr>, STATUS_OK)
      } else if BAD_BUFFER_ID s buffer then Some (s, me, STATUS_ERROR)
      else do {
        c \<leftarrow> ref_get (PrivateRefCount me) (buffer - 1);
        l \<leftarrow> ref_get (LastRefCount me) (buffer - 1);
        if c \<le> 0 then None
        else do {
          me \<leftarrow> Some (me\<lparr>PrivateRefCount := (PrivateRefCount me)[nat (buffer - 1) := c - 1]\<rparr>);
          s \<leftarrow> (if c - 1 = 0 \<and> l = 0 then drop_shared s (buffer - 1) else Some s);
          Some (s, me, STATUS_OK)
        }
      })"

text \<open>
  The claim of a free buffer by \<open>BufferAlloc\<close>: the buffer taken off the free list gets the one
  pin of this backend. The inner \<open>None\<close> is the null pointer: every buffer is pinned.
\<close>

definition claim_buffer :: "pool \<Rightarrow> backend \<Rightarrow> (pool \<times> backend \<times> int option) option" where
  "claim_buffer s me = do {
     (s, r) \<leftarrow> GetFreeBuffer s;
     case r of None \<Rightarrow> Some (s, me, None)
     | Some buf \<Rightarrow> do {
         d \<leftarrow> desc_at s buf;
         if refcount d \<noteq> 0 then None
         else do {
           s \<leftarrow> desc_upd s buf (\<lambda>x. x\<lparr>refcount := 1\<rparr>);
           b \<leftarrow> Some (BufferDescriptorGetBuffer d - 1);
           _ \<leftarrow> ref_get (PrivateRefCount me) b;
           Some (s, me\<lparr>PrivateRefCount := (PrivateRefCount me)[nat b := 1]\<rparr>, Some buf)
         }
       }
   }"

text \<open>\<open>BufferRefCountReset\<close> returns the array it saves the counts in.\<close>

definition BufferRefCountReset :: "backend \<Rightarrow> backend \<times> int list" where
  "BufferRefCountReset me =
     (me\<lparr>LastRefCount := map2 (+) (LastRefCount me) (PrivateRefCount me),
         PrivateRefCount := map (\<lambda>_. 0) (PrivateRefCount me)\<rparr>, PrivateRefCount me)"

definition BufferRefCountRestore :: "backend \<Rightarrow> int list \<Rightarrow> backend" where
  "BufferRefCountRestore me refcountsave =
     me\<lparr>PrivateRefCount := refcountsave, LastRefCount := map2 (-) (LastRefCount me) refcountsave\<rparr>"

definition zero_desc :: BufferDesc where
  "zero_desc = \<lparr>freeNext = 0, freePrev = 0, data = 0, tag = \<lparr>dbId = 0, relId = 0, blockNum = 0\<rparr>, buf_id = 0, flags = 0,
     bufsmgr = 0, refcount = 0, sb_dbname = [], sb_relname = []\<rparr>"

definition ResetLocalBufferPool :: "backend \<Rightarrow> backend" where
  "ResetLocalBufferPool me = me\<lparr>
     LocalBufferDescriptors := map (\<lambda>i. zero_desc\<lparr>buf_id := - int i - 2\<rparr>) [0..<NLocBuffer me],
     nextFreeLocalBuf := 0, LocalRefCount := replicate (NLocBuffer me) 0\<rparr>"

text \<open>\<open>while (PrivateRefCount[i - 1] > 0) ReleaseBuffer(i);\<close>\<close>

partial_function (option) release_while :: "pool \<Rightarrow> backend \<Rightarrow> int \<Rightarrow> (pool \<times> backend) option" where
  "release_while s me i = do {
     c \<leftarrow> ref_get (PrivateRefCount me) (i - 1);
     if c > 0 then do {
       (s, me, _) \<leftarrow> ReleaseBuffer s me i;
       release_while s me i
     } else Some (s, me)
   }"

text \<open>One round of the loop over the buffers, and the routine.\<close>

definition reset_buffer :: "nat \<Rightarrow> pool \<times> backend \<Rightarrow> (pool \<times> backend) option" where
  "reset_buffer i = (\<lambda>(s, me). do {
     v \<leftarrow> BufferIsValid s me (int i);
     (s, me) \<leftarrow> (if v then release_while s me (int i) else Some (s, me));
     _ \<leftarrow> ref_get (LastRefCount me) (int i - 1);
     Some (s, me\<lparr>LastRefCount := (LastRefCount me)[i - 1 := 0]\<rparr>)
   })"

definition ResetBufferPool :: "pool \<Rightarrow> backend \<Rightarrow> (pool \<times> backend) option" where
  "ResetBufferPool s me = do {
     (s, me) \<leftarrow> for_loop 1 (NBuffers s + 1) reset_buffer (s, me);
     Some (s, ResetLocalBufferPool me)
   }"

end
