(* ===== verification/Pins_Inv.thy ===== *)
theory Pins_Inv
  imports Pins
begin

text \<open>
  The invariant \<open>buf_init.c\<close> promises for the pool, for any number of backends: a buffer is either
  pinned or on the free list but never both, and its shared count is the number of backends
  that hold it. Every operation keeps it and acts on the free list as on a queue.
\<close>

definition held :: "backend \<Rightarrow> nat \<Rightarrow> bool" where
  "held me b \<longleftrightarrow> PrivateRefCount me ! b > 0 \<or> LastRefCount me ! b > 0"

definition holders :: "backend list \<Rightarrow> nat \<Rightarrow> nat" where
  "holders ps b = length (filter (\<lambda>p. held p b) ps)"

definition backend_ok :: "nat \<Rightarrow> backend \<Rightarrow> bool" where
  "backend_ok n me \<longleftrightarrow> length (PrivateRefCount me) = n \<and> length (LastRefCount me) = n \<and>
     (\<forall>b<n. 0 \<le> PrivateRefCount me ! b \<and> 0 \<le> LastRefCount me ! b)"

definition pool_inv :: "pool \<Rightarrow> backend list \<Rightarrow> int list \<Rightarrow> bool" where
  "pool_inv s ps xs \<longleftrightarrow> linked s xs \<and> length ps < 2 ^ 32 \<and> (\<forall>p\<in>set ps. backend_ok (NBuffers s) p) \<and>
     (\<forall>b<NBuffers s. unat (refcount (D s (int b))) = holders ps b \<and> (int b \<in> set xs \<longleftrightarrow> holders ps b = 0))"

subsection \<open>Preservation in general\<close>

lemma holders_update:
  "j < length ps \<Longrightarrow> holders (ps[j := me]) b + of_bool (held (ps ! j) b) = holders ps b + of_bool (held me b)"
proof (induction ps arbitrary: j)
  case (Cons p ps)
  then show ?case by (cases j) (auto simp: holders_def)
qed simp

lemma holders_le: "holders ps b \<le> length ps"
  by (simp add: holders_def)

lemma holders_pos: "j < length ps \<Longrightarrow> held (ps ! j) b \<Longrightarrow> 0 < holders ps b"
  using filter_empty_conv [of "\<lambda>p. held p b" ps] nth_mem [of j ps] by (auto simp: holders_def)

lemma pool_inv_backend: "pool_inv s ps xs \<Longrightarrow> j < length ps \<Longrightarrow> backend_ok (NBuffers s) (ps ! j)"
  by (simp add: pool_inv_def)

lemma pool_inv_ok: "pool_inv s ps xs \<Longrightarrow> b < NBuffers s \<Longrightarrow> desc_ok s (int b) \<and> buf_id (D s (int b)) = int b"
  using linked_ok [of s xs "int b"] linked_buf_id [of s xs "int b"] by (simp add: pool_inv_def)

lemma ref_get_nth [simp]: "b < length v \<Longrightarrow> ref_get v (int b) = Some (v ! b)"
  by (simp add: ref_get_def)

lemma pool_inv_refcount:
  assumes "pool_inv s ps xs" and "b < NBuffers s"
  shows "refcount (D s (int b)) = 0 \<longleftrightarrow> holders ps b = 0"
  using assms by (metis pool_inv_def unat_eq_zero)

lemma pool_invI:
  assumes inv: "pool_inv s ps xs" and j: "j < length ps" and l: "linked s' ys" and N: "NBuffers s' = NBuffers s"
    and me: "backend_ok (NBuffers s) me'"
    and others: "\<And>c. c < NBuffers s \<Longrightarrow> c \<noteq> b \<Longrightarrow>
      refcount (D s' (int c)) = refcount (D s (int c)) \<and> held me' c = held (ps ! j) c \<and> (int c \<in> set ys \<longleftrightarrow> int c \<in> set xs)"
    and b: "b < NBuffers s \<Longrightarrow> unat (refcount (D s' (int b))) + of_bool (held (ps ! j) b) = unat (refcount (D s (int b))) + of_bool (held me' b)"
    and q: "b < NBuffers s \<Longrightarrow> int b \<in> set ys \<longleftrightarrow> refcount (D s' (int b)) = 0"
  shows "pool_inv s' (ps[j := me']) ys"
proof -
  have cnt: "unat (refcount (D s' (int c))) = holders (ps[j := me']) c \<and> (int c \<in> set ys \<longleftrightarrow> holders (ps[j := me']) c = 0)"
    if c: "c < NBuffers s" for c
  proof (cases "c = b")
    case True
    have "unat (refcount (D s' (int b))) = holders (ps[j := me']) b"
      using b c True holders_update [OF j, of me' b] inv by (simp add: pool_inv_def)
    then show ?thesis using q c True by (metis unat_eq_zero)
  next
    case False
    then show ?thesis using others [OF c False] holders_update [OF j, of me' c] inv c by (simp add: pool_inv_def)
  qed
  have "backend_ok (NBuffers s') p" if "p \<in> set (ps[j := me'])" for p
    using that set_update_subset_insert [of ps j me'] inv me N by (auto simp: pool_inv_def)
  then show ?thesis using cnt l N inv by (simp add: pool_inv_def)
qed

lemma linked_refcount:
  assumes "linked s xs" and "desc_ok s k"
  shows "linked (put_desc s k (\<lambda>x. x\<lparr>refcount := f x\<rparr>)) xs"
proof -
  let ?s = "put_desc s k (\<lambda>x. x\<lparr>refcount := f x\<rparr>)"
  have "fl.ring ?s (Free_List_Descriptor s) xs = fl.ring s (Free_List_Descriptor s) xs"
  proof (rule fl.ring_cong)
    fix c assume "c \<in> set (Free_List_Descriptor s # xs)"
    then have "desc_ok s c" using assms by (auto simp: linked_def fl.ring_def)
    then show "freeNext (D ?s c) = freeNext (D s c) \<and> freePrev (D ?s c) = freePrev (D s c) \<and> desc_ok ?s c = desc_ok s c"
      using assms(2) by simp
  qed
  moreover have "desc_ok s c" if "0 \<le> c \<and> c < int (NBuffers s)" for c using that assms linked_ok [of s xs c] by simp
  ultimately show ?thesis using assms by (auto simp: linked_def NotInQueue_def)
qed

subsection \<open>The operations\<close>

lemma pin_inv:
  assumes inv: "pool_inv s ps xs" and j: "j < length ps" and b: "b < NBuffers s"
  shows "rets (PinBuffer s (ps ! j) (int b)) (\<lambda>(s', me). pool_inv s' (ps[j := me]) (remove1 (int b) xs) \<and> NBuffers s' = NBuffers s \<and>
    me = (ps ! j)\<lparr>PrivateRefCount := (PrivateRefCount (ps ! j))[b := PrivateRefCount (ps ! j) ! b + 1]\<rparr>)"
proof -
  define me c l where me: "me = ps ! j" "c = PrivateRefCount me ! b" "l = LastRefCount me ! b"
  define me' where "me' = me\<lparr>PrivateRefCount := (PrivateRefCount me)[b := c + 1]\<rparr>"
  have bo: "backend_ok (NBuffers s) me" using pool_inv_backend [OF inv j] by (simp add: me)
  have cl: "0 \<le> c" "0 \<le> l" "b < length (PrivateRefCount me)" "b < length (LastRefCount me)" using bo b by (simp_all add: backend_ok_def me)
  have bo': "backend_ok (NBuffers s) me'" using bo cl b by (auto simp: backend_ok_def me'_def nth_list_update)
  have hm: "held me b \<longleftrightarrow> \<not> (c = 0 \<and> l = 0)" "held me' b" "\<And>k. k \<noteq> b \<Longrightarrow> held me' k = held me k"
    using cl by (auto simp: held_def me me'_def)
  have ok: "desc_ok s (int b)" "buf_id (D s (int b)) = int b" using pool_inv_ok [OF inv b] by simp_all
  have lk: "linked s xs" using inv by (simp add: pool_inv_def)
  have r0: "int b \<in> set xs \<longleftrightarrow> refcount (D s (int b)) = 0" using pool_inv_refcount [OF inv b] inv b by (simp add: pool_inv_def)
  have rl: "unat (refcount (D s (int b))) < 2 ^ 32 - 1" if "\<not> held me b"
  proof -
    have "holders ps b < length ps" using holders_update [OF j, of me' b] holders_le [of "ps[j := me']" b] that hm(2) by (simp add: me)
    then show ?thesis using inv b by (simp add: pool_inv_def)
  qed
  obtain s1 where s1: "(if refcount (D s (int b)) = 0 then if IsInQueue (D s (int b)) then remove_desc s (int b) else None
        else if NotInQueue (D s (int b)) then Some s else None) = Some s1"
    and l1: "linked s1 (remove1 (int b) xs)" and N1: "NBuffers s1 = NBuffers s"
    and c1: "\<And>k. desc_ok s k \<Longrightarrow> core (D s1 k) = core (D s k)" and o1: "\<And>k. desc_ok s1 k = desc_ok s k"
  proof (cases "refcount (D s (int b)) = 0")
    case True
    then have "int b \<in> set xs" using r0 by simp
    then obtain as bs where xs: "xs = as @ int b # bs" and nas: "int b \<notin> set as" by (meson split_list_first)
    obtain s1 where "remove_desc s (int b) = Some s1" "linked s1 (as @ bs)" "NBuffers s1 = NBuffers s"
      "\<And>k. desc_ok s k \<Longrightarrow> core (D s1 k) = core (D s k)" using remove_desc_linked [of s as "int b" bs] lk xs by blast
    moreover have "remove1 (int b) xs = as @ bs" using nas by (simp add: xs remove1_append)
    moreover have "IsInQueue (D s (int b))" using linked_InQueue [OF lk \<open>int b \<in> set xs\<close>] .
    moreover have "desc_ok s1 k = desc_ok s k" for k using calculation linked_ok [of s1 "as @ bs" k] linked_ok [OF lk, of k] by simp
    ultimately show ?thesis using that [of s1] True by simp
  next
    case False
    then have "NotInQueue (D s (int b))" using linked_NotInQueue [OF lk, of "int b"] b r0 by simp
    then show ?thesis using that [of s] False lk r0 by (simp add: remove1_idem)
  qed
  define s' where "s' = (if c = 0 \<and> l = 0 then put_desc s1 (int b) (\<lambda>x. x\<lparr>refcount := refcount x + 1\<rparr>) else s1)"
  have eq: "PinBuffer s me (int b) = Some (s', me')"
    unfolding PinBuffer_def using ok cl s1 o1 me by (simp add: BufferDescriptorGetBuffer_def s'_def me'_def split: if_splits)
  have rc: "refcount (D s1 (int k)) = refcount (D s (int k))" if "k < NBuffers s" for k
    using c1 [of "int k"] core_eqD pool_inv_ok [OF inv that] by blast
  have rs: "refcount (D s' (int k)) = (if k = b \<and> \<not> held me b then refcount (D s (int b)) + 1 else refcount (D s (int k)))"
    if k: "k < NBuffers s" for k using rc [OF k] rc [OF b] pool_inv_ok [OF inv k] ok(1) o1 hm(1) by (auto simp: s'_def)
  have "pool_inv s' (ps[j := me']) (remove1 (int b) xs)"
  proof (rule pool_invI [OF inv j _ _ bo', where b = b])
    show "linked s' (remove1 (int b) xs)" using l1 linked_refcount [OF l1] ok(1) o1 by (simp add: s'_def)
    show "NBuffers s' = NBuffers s" using N1 by (simp add: s'_def)
    show "refcount (D s' (int k)) = refcount (D s (int k)) \<and> held me' k = held (ps ! j) k \<and> (int k \<in> set (remove1 (int b) xs) \<longleftrightarrow> int k \<in> set xs)"
      if "k < NBuffers s" "k \<noteq> b" for k using rs [OF that(1)] that hm(3) in_set_remove1 [of "int k" "int b" xs] by (simp add: me)
    have u: "unat (refcount (D s' (int b))) = unat (refcount (D s (int b))) + of_bool (\<not> held me b)"
      using rs [OF b] rl by (simp add: unat_word_ariths(1))
    then show "unat (refcount (D s' (int b))) + of_bool (held (ps ! j) b) = unat (refcount (D s (int b))) + of_bool (held me' b)"
      using hm by (simp add: me)
    have "refcount (D s' (int b)) \<noteq> 0"
      using u r0 holders_pos [OF j, of b] inv b by (cases "held me b") (auto simp: pool_inv_def me simp flip: unat_eq_zero)
    moreover have "int b \<notin> set (remove1 (int b) xs)" using linked_distinct [OF lk] by simp
    ultimately show "int b \<in> set (remove1 (int b) xs) \<longleftrightarrow> refcount (D s' (int b)) = 0" by simp
  qed
  then show ?thesis using eq N1 by (simp add: me me'_def s'_def)
qed

lemma drop_shared_linked:
  assumes lk: "linked s xs" and b: "0 \<le> k" "k < int (NBuffers s)" "k \<notin> set xs" and nz: "refcount (D s k) \<noteq> 0"
  obtains s' where "drop_shared s k = Some s'" and "NBuffers s' = NBuffers s"
    and "linked s' (if refcount (D s k) = 1 then xs @ [k] else xs)"
    and "\<And>i. desc_ok s i \<Longrightarrow> refcount (D s' i) = (if i = k then refcount (D s k) - 1 else refcount (D s i))"
proof -
  have ok: "desc_ok s k" using linked_ok [OF lk, of k] b by simp
  define s1 where "s1 = put_desc s k (\<lambda>x. x\<lparr>refcount := refcount x - 1\<rparr>)"
  have l1: "linked s1 xs" unfolding s1_def by (rule linked_refcount [OF lk ok])
  have N1: "NBuffers s1 = NBuffers s" "\<And>i. desc_ok s1 i = desc_ok s i" by (simp_all add: s1_def)
  have r1: "refcount (D s1 i) = (if i = k then refcount (D s k) - 1 else refcount (D s i))" if "desc_ok s i" for i
    using that ok by (simp add: s1_def)
  show thesis
  proof (cases "refcount (D s k) = 1")
    case False
    then have "refcount (D s k) - 1 \<noteq> 0" by auto
    then have "drop_shared s k = Some s1" using ok by (simp add: drop_shared_def s1_def)
    then show thesis using that N1 l1 r1 False by simp
  next
    case True
    obtain s2 s' where s': "AddBufferToFreelist s1 k = Some s2" "desc_upd s2 k (set_flag BM_FREE) = Some s'"
      "linked s' (xs @ [k])" "NBuffers s' = NBuffers s1" "\<And>i. desc_ok s1 i \<Longrightarrow> core (D s' i) = core (D s1 i)"
      using add_desc_linked [OF l1, of k] b N1 by auto
    have "drop_shared s k = Some s'" using ok True s'(1,2) by (simp add: drop_shared_def s1_def)
    moreover have "refcount (D s' i) = (if i = k then refcount (D s k) - 1 else refcount (D s i))" if "desc_ok s i" for i
      using core_eqD [OF s'(5) [of i]] r1 [OF that] that N1 by simp
    ultimately show thesis using that s'(3,4) True N1 by simp
  qed
qed

text \<open>What the backend that gives up a pin looks like afterwards.\<close>

lemma release_backend:
  assumes bo: "backend_ok n me" and b: "b < n" and pos: "PrivateRefCount me ! b > 0"
    and me': "me' = me\<lparr>PrivateRefCount := (PrivateRefCount me)[b := PrivateRefCount me ! b - 1]\<rparr>"
  shows "backend_ok n me'" and "held me b" and "held me' b \<longleftrightarrow> \<not> (PrivateRefCount me ! b - 1 = 0 \<and> LastRefCount me ! b = 0)"
    and "\<And>k. k \<noteq> b \<Longrightarrow> held me' k = held me k"
  using assms by (auto simp: backend_ok_def held_def nth_list_update)

lemma shared_number:
  "b < NBuffers s \<Longrightarrow> \<not> BufferIsLocal (int b + 1) \<and> \<not> BAD_BUFFER_ID s (int b + 1) \<and> int b + 1 - 1 = int b"
  by (simp add: BufferIsLocal_def BAD_BUFFER_ID_def)

lemma release_inv:
  assumes inv: "pool_inv s ps xs" and j: "j < length ps" and b: "b < NBuffers s" and pos: "PrivateRefCount (ps ! j) ! b > 0"
  shows "rets (ReleaseBuffer s (ps ! j) (int b + 1)) (\<lambda>(s', me, r). r = STATUS_OK \<and> NBuffers s' = NBuffers s \<and>
    me = (ps ! j)\<lparr>PrivateRefCount := (PrivateRefCount (ps ! j))[b := PrivateRefCount (ps ! j) ! b - 1]\<rparr> \<and>
    pool_inv s' (ps[j := me]) (if holders (ps[j := me]) b = 0 then xs @ [int b] else xs))"
proof -
  define me me' where me: "me = ps ! j" and me': "me' = me\<lparr>PrivateRefCount := (PrivateRefCount me)[b := PrivateRefCount me ! b - 1]\<rparr>"
  have bo: "backend_ok (NBuffers s) me" using pool_inv_backend [OF inv j] by (simp add: me)
  have len: "b < length (PrivateRefCount me)" "b < length (LastRefCount me)" using bo b by (simp_all add: backend_ok_def)
  note rb = release_backend [OF bo b pos [folded me] me']
  have hp: "0 < holders ps b" using holders_pos [OF j] rb(2) by (simp add: me)
  have bx: "int b \<notin> set xs" and lk: "linked s xs" and rc: "unat (refcount (D s (int b))) = holders ps b"
    using inv b hp by (simp_all add: pool_inv_def)
  have nz: "refcount (D s (int b)) \<noteq> 0" using pool_inv_refcount [OF inv b] hp by simp
  note hu = holders_update [OF j, of me' b, folded me]
  have R: "ReleaseBuffer s me (int b + 1) =
      ((if PrivateRefCount me ! b - 1 = 0 \<and> LastRefCount me ! b = 0 then drop_shared s (int b) else Some s) \<bind> (\<lambda>s. Some (s, me', STATUS_OK)))"
    using shared_number [OF b] len pos me' unfolding ReleaseBuffer_def me by simp
  show ?thesis
  proof (cases "held me' b")
    case True
    have "pool_inv s (ps[j := me']) xs"
      by (rule pool_invI [OF inv j lk refl rb(1), where b = b]) (use rb(2,4) True bx nz me in simp_all)
    moreover have "holders (ps[j := me']) b \<noteq> 0" using hu rb(2) True hp by simp
    ultimately show ?thesis using R rb(3) True by (auto simp: me me')
  next
    case False
    obtain s' where s': "drop_shared s (int b) = Some s'" "NBuffers s' = NBuffers s"
      and l': "linked s' (if refcount (D s (int b)) = 1 then xs @ [int b] else xs)"
      and r': "\<And>i. desc_ok s i \<Longrightarrow> refcount (D s' i) = (if i = int b then refcount (D s (int b)) - 1 else refcount (D s i))"
      using drop_shared_linked [OF lk _ _ bx nz] b by auto
    have one: "refcount (D s (int b)) = 1 \<longleftrightarrow> holders (ps[j := me']) b = 0"
      using hu rb(2) False rc hp by (simp add: word_unat_eq_iff) linarith
    have "pool_inv s' (ps[j := me']) (if refcount (D s (int b)) = 1 then xs @ [int b] else xs)"
    proof (rule pool_invI [OF inv j l' s'(2) rb(1), where b = b])
      fix c assume "c < NBuffers s" "c \<noteq> b"
      then show "refcount (D s' (int c)) = refcount (D s (int c)) \<and> held me' c = held (ps ! j) c \<and>
        (int c \<in> set (if refcount (D s (int b)) = 1 then xs @ [int b] else xs) \<longleftrightarrow> int c \<in> set xs)"
        using r' [of "int c"] pool_inv_ok [OF inv, of c] rb(4) by (simp add: me)
    next
      show "unat (refcount (D s' (int b))) + of_bool (held (ps ! j) b) = unat (refcount (D s (int b))) + of_bool (held me' b)"
        using r' [of "int b"] pool_inv_ok [OF inv b] rb(2) False nz hp rc by (simp add: me unat_minus_one)
      show "int b \<in> set (if refcount (D s (int b)) = 1 then xs @ [int b] else xs) \<longleftrightarrow> refcount (D s' (int b)) = 0"
        using r' [of "int b"] pool_inv_ok [OF inv b] bx by auto
    qed
    then show ?thesis using R rb(3) False s' one by (auto simp: me me')
  qed
qed

lemma unpin_release:
  assumes inv: "pool_inv s ps xs" and j: "j < length ps" and b: "b < NBuffers s" and pos: "PrivateRefCount (ps ! j) ! b > 0"
  shows "UnpinBuffer s (ps ! j) (int b) = map_option (\<lambda>(s', me, _). (s', me)) (ReleaseBuffer s (ps ! j) (int b + 1))"
proof -
  have bo: "backend_ok (NBuffers s) (ps ! j)" using pool_inv_backend [OF inv j] .
  have len: "b < length (PrivateRefCount (ps ! j))" "b < length (LastRefCount (ps ! j))" using bo b by (simp_all add: backend_ok_def)
  have ok: "desc_ok s (int b)" "buf_id (D s (int b)) = int b" using pool_inv_ok [OF inv b] by simp_all
  have "0 < holders ps b" using holders_pos [OF j] pos by (simp add: held_def)
  then have nz: "refcount (D s (int b)) \<noteq> 0" and bx: "int b \<notin> set xs" using pool_inv_refcount [OF inv b] inv b by (auto simp: pool_inv_def)
  have q: "NotInQueue (D s (int b))" using linked_NotInQueue [of s xs "int b"] inv b bx by (simp add: pool_inv_def)
  have q': "NotInQueue (D s (int b)\<lparr>refcount := v\<rparr>)" for v using q by (simp add: NotInQueue_def)
  show ?thesis
    using shared_number [OF b] len ok nz q q' pos
    by (auto simp: ReleaseBuffer_def UnpinBuffer_def drop_shared_def BufferDescriptorGetBuffer_def option.map_comp comp_def
        bind_map_option map_conv_bind_option intro!: Option.bind_cong)
qed

lemma claim_none:
  assumes "pool_inv s ps []"
  shows "claim_buffer s me = Some (s, me, None)"
proof -
  have l: "linked s []" using assms by (simp add: pool_inv_def)
  then have "fl.ring s (Free_List_Descriptor s) []" by (simp add: linked_def)
  then have "freeNext (D s (Free_List_Descriptor s)) = Free_List_Descriptor s" using fl.ring_empty_iff by blast
  moreover have "desc_ok s (Free_List_Descriptor s)" using linked_ok [OF l] by (simp add: Free_List_Descriptor_def)
  ultimately show ?thesis by (simp add: claim_buffer_def GetFreeBuffer_def)
qed

lemma GetFreeBuffer_head:
  assumes "linked s (k # ys)"
  shows "GetFreeBuffer s = map_option (\<lambda>s'. (s', Some k)) (remove_desc s k)"
proof -
  have r: "fl.ring s (Free_List_Descriptor s) (k # ys)" using assms by (simp add: linked_def)
  have "freeNext (D s (Free_List_Descriptor s)) = k" using fl.ring_first [OF r] by simp
  moreover have "k \<noteq> Free_List_Descriptor s" "desc_ok s (Free_List_Descriptor s)" using r by (auto simp: fl.ring_def)
  ultimately show ?thesis by (simp add: GetFreeBuffer_def map_conv_bind_option comp_def)
qed

lemma unheld:
  assumes "backend_ok n me" and "b < n" and "\<not> held me b"
  shows "PrivateRefCount me ! b = 0" and "LastRefCount me ! b = 0"
  using assms by (auto simp: backend_ok_def held_def order_antisym)

lemma claim_inv:
  assumes inv: "pool_inv s ps (int b # ys)" and j: "j < length ps"
  shows "rets (claim_buffer s (ps ! j)) (\<lambda>(s', me, r). r = Some (int b) \<and> NBuffers s' = NBuffers s \<and>
    me = (ps ! j)\<lparr>PrivateRefCount := (PrivateRefCount (ps ! j))[b := 1]\<rparr> \<and> pool_inv s' (ps[j := me]) ys)"
proof -
  define me me' where me: "me = ps ! j" and me': "me' = me\<lparr>PrivateRefCount := (PrivateRefCount me)[b := 1]\<rparr>"
  have lk: "linked s (int b # ys)" using inv by (simp add: pool_inv_def)
  then have lk': "linked s ([] @ int b # ys)" by simp
  have b: "b < NBuffers s" using linked_range [OF lk, of "int b"] by simp
  have "int b \<in> set (int b # ys) \<longleftrightarrow> holders ps b = 0" using inv b unfolding pool_inv_def by blast
  then have h0: "holders ps b = 0" by simp
  then have r0: "refcount (D s (int b)) = 0" using pool_inv_refcount [OF inv b] by simp
  have nh: "\<not> held me b" using holders_pos [OF j, of b] h0 by (auto simp: me)
  have bo: "backend_ok (NBuffers s) me" using pool_inv_backend [OF inv j] by (simp add: me)
  have bo': "backend_ok (NBuffers s) me'" "held me' b" "\<And>k. k \<noteq> b \<Longrightarrow> held me' k = held me k"
    using bo b by (auto simp: backend_ok_def me' nth_list_update held_def)
  obtain s1 where s1: "remove_desc s (int b) = Some s1" "linked s1 ([] @ ys)" "NBuffers s1 = NBuffers s"
    and c1: "\<And>k. desc_ok s k \<Longrightarrow> core (D s1 k) = core (D s k)" using remove_desc_linked [OF lk'] by blast
  define s' where "s' = put_desc s1 (int b) (\<lambda>x. x\<lparr>refcount := 1\<rparr>)"
  have ok: "desc_ok s1 k = desc_ok s k" for k using s1 linked_ok [of s1 _ k] linked_ok [OF lk, of k] by simp
  have D1: "refcount (D s1 k) = refcount (D s k) \<and> buf_id (D s1 k) = buf_id (D s k)" if "desc_ok s k" for k
    using core_eqD [OF c1 [OF that]] by simp
  note ob = pool_inv_ok [OF inv b]
  have eq: "claim_buffer s me = Some (s', me', Some (int b))"
    unfolding claim_buffer_def GetFreeBuffer_head [OF lk] using s1(1) ok ob D1 [of "int b"] r0 bo b
    by (simp add: BufferDescriptorGetBuffer_def backend_ok_def s'_def me')
  have "pool_inv s' (ps[j := me']) ys"
  proof (rule pool_invI [OF inv j _ _ bo'(1), where b = b])
    show "linked s' ys" using linked_refcount [OF s1(2), of "int b"] ok ob by (simp add: s'_def)
    show "NBuffers s' = NBuffers s" using s1(3) by (simp add: s'_def)
    show "refcount (D s' (int c)) = refcount (D s (int c)) \<and> held me' c = held (ps ! j) c \<and> (int c \<in> set ys \<longleftrightarrow> int c \<in> set (int b # ys))"
      if "c < NBuffers s" "c \<noteq> b" for c using that D1 [of "int c"] pool_inv_ok [OF inv, of c] ok ob bo'(3) by (simp add: s'_def me)
    show "unat (refcount (D s' (int b))) + of_bool (held (ps ! j) b) = unat (refcount (D s (int b))) + of_bool (held me' b)"
      using ok ob r0 nh bo'(2) by (simp add: s'_def me)
    show "int b \<in> set ys \<longleftrightarrow> refcount (D s' (int b)) = 0" using linked_distinct [OF lk] ok ob by (simp add: s'_def)
  qed
  then show ?thesis using eq s1(3) by (simp add: me me' s'_def)
qed

text \<open>Operations that touch the backend's own counts only.\<close>

lemma backend_only_inv:
  assumes inv: "pool_inv s ps xs" and j: "j < length ps" and "backend_ok (NBuffers s) me" and "\<And>b. b < NBuffers s \<Longrightarrow> held me b = held (ps ! j) b"
  shows "pool_inv s (ps[j := me]) xs"
proof -
  have "linked s xs" using inv by (simp add: pool_inv_def)
  from inv j this refl assms(3) show ?thesis
    by (rule pool_invI [where b = "NBuffers s"]) (use assms(4) in auto)
qed

lemma incr_inv:
  assumes inv: "pool_inv s ps xs" and j: "j < length ps" and b: "b < NBuffers s" and h: "held (ps ! j) b"
  shows "rets (IncrBufferRefCount s (ps ! j) (int b + 1)) (\<lambda>me. pool_inv s (ps[j := me]) xs)"
proof -
  have bo: "backend_ok (NBuffers s) (ps ! j)" by (rule pool_inv_backend [OF inv j])
  then have len: "b < length (PrivateRefCount (ps ! j))" "0 \<le> PrivateRefCount (ps ! j) ! b" using b by (simp_all add: backend_ok_def)
  show ?thesis
    using shared_number [OF b] len unfolding IncrBufferRefCount_def
    by (simp, intro backend_only_inv [OF inv j]) (use bo b h in \<open>auto simp: backend_ok_def held_def nth_list_update\<close>)
qed

text \<open>
  The assertion of \<open>IncrBufferRefCount\<close> lets a count of zero pass. On a buffer the backend does not hold the routine makes it a holder
  that the shared count does not know of.
\<close>

lemma IncrBufferRefCount_unpinned:
  assumes inv: "pool_inv s ps xs" and j: "j < length ps" and b: "b < NBuffers s" and h: "\<not> held (ps ! j) b"
  shows "rets (IncrBufferRefCount s (ps ! j) (int b + 1)) (\<lambda>me. held me b \<and> holders (ps[j := me]) b = unat (refcount (D s (int b))) + 1)"
proof -
  have bo: "backend_ok (NBuffers s) (ps ! j)" by (rule pool_inv_backend [OF inv j])
  then have len: "b < length (PrivateRefCount (ps ! j))" "0 \<le> PrivateRefCount (ps ! j) ! b" using b by (simp_all add: backend_ok_def)
  have n: "unat (refcount (D s (int b))) = holders ps b" using inv b by (simp add: pool_inv_def)
  show ?thesis
    using shared_number [OF b] len holders_update [OF j, of _ b] h n unfolding IncrBufferRefCount_def by (simp add: held_def)
qed

lemma reset_counts_inv:
  assumes inv: "pool_inv s ps xs" and j: "j < length ps"
  shows "pool_inv s (ps[j := fst (BufferRefCountReset (ps ! j))]) xs"
  by (rule backend_only_inv [OF inv j])
    (use pool_inv_backend [OF inv j] in \<open>auto simp: BufferRefCountReset_def backend_ok_def held_def order_less_le\<close>)

lemma restore_counts_inv:
  assumes inv: "pool_inv s ps xs" and j: "j < length ps" and "length saved = NBuffers s"
    and "\<forall>b<NBuffers s. 0 \<le> saved ! b \<and> saved ! b \<le> LastRefCount (ps ! j) ! b \<and> (PrivateRefCount (ps ! j) ! b > 0 \<longrightarrow> LastRefCount (ps ! j) ! b > 0)"
  shows "pool_inv s (ps[j := BufferRefCountRestore (ps ! j) saved]) xs"
  by (rule backend_only_inv [OF inv j])
    (use pool_inv_backend [OF inv j] assms(3,4) in \<open>force simp: BufferRefCountRestore_def backend_ok_def held_def\<close>)+

subsection \<open>Initialisation\<close>

lemma init_loop:
  assumes "length mem = Suc n"
  shows "rets (for_loop 0 n (\<lambda>i s. desc_upd s (int i) (init_desc base i)) \<lparr>NBuffers = n, BufferDescriptors = mem\<rparr>)
    (\<lambda>s. NBuffers s = n \<and> length (BufferDescriptors s) = Suc n \<and> (\<forall>k<n. D s (int k) = init_desc base k (mem ! k)))"
proof -
  define I where "I = (\<lambda>i s. NBuffers s = n \<and> length (BufferDescriptors s) = Suc n \<and>
    (\<forall>k\<le>n. D s (int k) = (if k < i then init_desc base k (mem ! k) else mem ! k)))"
  have "rets (for_loop 0 n (\<lambda>i s. desc_upd s (int i) (init_desc base i)) \<lparr>NBuffers = n, BufferDescriptors = mem\<rparr>) (I n)"
  proof (rule rets_for_loop)
    show "I 0 \<lparr>NBuffers = n, BufferDescriptors = mem\<rparr>" using assms by (simp add: I_def D_def)
  next
    fix i s assume i: "0 \<le> i" "i < n" and I: "I i s"
    have ok: "desc_ok s (int k)" if "k \<le> n" for k using I that by (simp add: I_def desc_ok_def)
    have "D (put_desc s (int i) (init_desc base i)) (int k) = (if k < Suc i then init_desc base k (mem ! k) else mem ! k)" if k: "k \<le> n" for k
      using D_put_desc [of s "int i" "int k" "init_desc base i"] ok [OF k] ok [of i] I i k by (auto simp: I_def)
    then show "rets (desc_upd s (int i) (init_desc base i)) (I (Suc i))"
      using I ok [of i] i by (simp add: I_def)
  qed simp
  then show ?thesis by (rule rets_mono) (simp add: I_def)
qed

text \<open>Link by link, what the initialisation leaves: the head, then buffers 1, 2, and so on, then 0.\<close>

lemma ring_init:
  assumes "length (BufferDescriptors s) = Suc n" and "0 < n"
    and nx: "\<And>k. k \<le> n \<Longrightarrow> freeNext (D s (int k)) = (if k = 0 then int n else if k = n then (if n = 1 then 0 else 1) else if k = n - 1 then 0 else int k + 1)"
    and pv: "\<And>k. k \<le> n \<Longrightarrow> freePrev (D s (int k)) = (if k = n then 0 else if k = (if n = 1 then 0 else 1) then int n else if k = 0 then int n - 1 else int k - 1)"
  shows "fl.ring s (int n) (map int [1..<n] @ [0])"
proof -
  let ?L = "int n # map int [1..<n] @ [0] @ [int n]"
  have L: "?L ! i = (if i = 0 \<or> i = Suc n then int n else if i = n then 0 else int i)" if "i < length ?L" for i
    using that \<open>0 < n\<close> by (auto simp: nth_Cons' nth_append)
  have st: "fl.step s (?L ! i) (?L ! Suc i)" if i: "Suc i < length ?L" for i
  proof -
    have "i \<le> n" using i \<open>0 < n\<close> by simp
    then consider "i = 0" | "0 < i" "Suc i < n" | "0 < i" "Suc i = n" | "i = n" by linarith
    then show ?thesis
    proof cases
      case 1 then show ?thesis using L [of 0] L [of 1] i nx [of n] pv [of 1] pv [of 0] \<open>0 < n\<close> by (auto simp: fl.step_def)
    next
      case 2 then show ?thesis using L [of i] L [of "Suc i"] i nx [of i] pv [of "Suc i"] by (auto simp: fl.step_def)
    next
      case 3 then show ?thesis using L [of i] L [of "Suc i"] i nx [of i] pv [of 0] by (auto simp: fl.step_def)
    next
      case 4 then show ?thesis using L [of i] L [of "Suc i"] i nx [of 0] pv [of n] \<open>0 < n\<close> by (auto simp: fl.step_def)
    qed
  qed
  have "successively (fl.step s) ?L" unfolding successively_conv_nth using st by blast
  moreover have "distinct (int n # map int [1..<n] @ [0])" using \<open>0 < n\<close> by (auto simp: distinct_map)
  moreover have "desc_ok s x" if "x \<in> set (int n # map int [1..<n] @ [0])" for x using that assms(1) by (auto simp: desc_ok_def)
  ultimately show ?thesis by (simp add: fl.ring_def)
qed

lemma InitBufferPool_linked:
  assumes "length mem = Suc n" and n: "0 < n"
  shows "rets (InitBufferPool n base mem False me) (\<lambda>(s, me'). NBuffers s = n \<and> linked s (map int [1..<n] @ [0]) \<and>
    (\<forall>k<n. refcount (D s (int k)) = 0 \<and> data (D s (int k)) = base + of_nat (8192 * k) \<and> has_flag BM_DELETED (D s (int k)) \<and>
      flags (D s (int k)) = BM_DELETED OR BM_FREE OR BM_VALID) \<and>
    me' = me\<lparr>PrivateRefCount := replicate n 0, LastRefCount := replicate n 0\<rparr>)"
proof -
  obtain s0 where s0: "for_loop 0 n (\<lambda>i s. desc_upd s (int i) (init_desc base i)) \<lparr>NBuffers = n, BufferDescriptors = mem\<rparr> = Some s0"
    "NBuffers s0 = n" "length (BufferDescriptors s0) = Suc n" and D0: "\<And>k. k < n \<Longrightarrow> D s0 (int k) = init_desc base k (mem ! k)"
    using init_loop [OF assms(1), of base] by (auto simp: rets_def)
  have ok: "desc_ok s0 (int k)" if "k \<le> n" for k using s0 that by (simp add: desc_ok_def)
  have ok': "desc_ok s0 0" "desc_ok s0 (int n)" "desc_ok s0 (int n - 1)" "desc_ok s0 1" using s0 n by (auto simp: desc_ok_def)
  have ne: "int n \<noteq> 0" "int n - 1 \<noteq> int n" using n by auto
  define s1 where "s1 = put_desc (put_desc s0 0 (\<lambda>x. x\<lparr>freePrev := int n - 1\<rparr>)) (int n - 1) (\<lambda>x. x\<lparr>freeNext := 0\<rparr>)"
  define f1 where "f1 = (if n = 1 then 0 else 1 :: int)"
  define s2 where "s2 = put_desc (put_desc s1 (int n) (\<lambda>x. x\<lparr>data := -1, flags := 0 AND NOT (BM_VALID OR BM_DELETED OR BM_FREE), buf_id := int n\<rparr>))
    (int n) (\<lambda>x. x\<lparr>freeNext := f1, freePrev := 0\<rparr>)"
  define s where "s = put_desc (put_desc s2 0 (\<lambda>x. x\<lparr>freeNext := int n\<rparr>)) f1 (\<lambda>x. x\<lparr>freePrev := int n\<rparr>)"
  have okf: "desc_ok s0 f1" "f1 \<noteq> int n" using ok' n by (auto simp: f1_def)
  have N: "NBuffers s1 = n" "NBuffers s = n" "length (BufferDescriptors s) = Suc n" by (simp_all add: s_def s2_def s1_def s0)
  have "freeNext (D s1 0) = f1" using ok' n D0 [of 0] by (auto simp: s1_def f1_def init_desc_def)
  then have ini: "InitFreeList s1 True = Some s"
    using ok' okf ne N by (simp add: InitFreeList_def Free_List_Descriptor_def s_def s2_def s1_def)
  have Ds: "D s (int k) = (if k = n then (D s0 (int n))\<lparr>data := -1, flags := 0 AND NOT (BM_VALID OR BM_DELETED OR BM_FREE), buf_id := int n, freeNext := f1, freePrev := 0\<rparr>
      else (D s0 (int k))\<lparr>freeNext := (if k = 0 then int n else if k = n - 1 then 0 else int k + 1),
        freePrev := (if int k = f1 then int n else if k = 0 then int n - 1 else int k - 1)\<rparr>)" if k: "k \<le> n" for k
    using ok [OF k] ok' okf n D0 [of k] k by (auto simp: s_def s2_def s1_def init_desc_def of_nat_diff)
  have ring: "fl.ring s (int n) (map int [1..<n] @ [0])"
    by (rule ring_init [OF N(3) n]) (use Ds n in \<open>auto simp: f1_def\<close>)
  have fr: "has_flag BM_FREE (D s (int k)) \<and> refcount (D s (int k)) = 0 \<and> data (D s (int k)) = base + of_nat (8192 * k) \<and> buf_id (D s (int k)) = int k \<and> has_flag BM_DELETED (D s (int k)) \<and>
      flags (D s (int k)) = BM_DELETED OR BM_FREE OR BM_VALID"
    if k: "k < n" for k using Ds [of k] D0 [OF k] k by (simp add: init_desc_def has_flag_def BM_FREE_def BM_DELETED_def BM_VALID_def)
  have "linked s (map int [1..<n] @ [0])"
  proof -
    have "buf_id (D s k) = k" if "desc_ok s k" for k
    proof -
      have "0 \<le> k" "k \<le> int n" using that N by (auto simp: desc_ok_def)
      then obtain i where i: "k = int i" "i \<le> n" by (metis nonneg_int_cases of_nat_le_iff)
      then show ?thesis using fr [of i] Ds [of n] by (cases "i = n") auto
    qed
    moreover have "has_flag BM_FREE (D s k) \<and> k \<in> set (map int [1..<n] @ [0])" if "0 \<le> k" "k < int n" for k
      using that fr [of "nat k"] by (cases "k = 0") (auto simp: image_iff intro!: bexI [of _ "nat k"])
    ultimately show ?thesis using ring N by (auto simp: linked_def Free_List_Descriptor_def)
  qed
  moreover have "InitBufferPool n base mem False me = Some (s, me\<lparr>PrivateRefCount := replicate n 0, LastRefCount := replicate n 0\<rparr>)"
    using s0(1) ini ok' by (simp add: InitBufferPool_def s1_def)
  ultimately show ?thesis using N fr by simp
qed

end
