(* ===== verification/Pool_Props.thy ===== *)
theory Pool_Props
  imports Pins_Inv
begin

text \<open>
  The buffer pool under any interleaving of the backends' operations, and the properties of the
  free list and of the reference counts.
\<close>

subsection \<open>Abort\<close>

lemma private_same: "PrivateRefCount me ! b = c \<Longrightarrow> me\<lparr>PrivateRefCount := (PrivateRefCount me)[b := c]\<rparr> = me"
  by auto

lemma release_while_inv:
  assumes "pool_inv s ps xs" and "j < length ps" and "b < NBuffers s" and "me = ps ! j"
  shows "rets (release_while s me (int b + 1)) (\<lambda>(s', me'). NBuffers s' = NBuffers s \<and>
    me' = me\<lparr>PrivateRefCount := (PrivateRefCount me)[b := 0]\<rparr> \<and> (\<exists>ys. pool_inv s' (ps[j := me']) ys))"
  using assms
proof (induction "nat (PrivateRefCount me ! b)" arbitrary: s ps me xs)
  case (0 me)
  have bo: "backend_ok (NBuffers s) me" using pool_inv_backend [OF 0(2,3)] 0 by simp
  then have "PrivateRefCount me ! b = 0" "b < length (PrivateRefCount me)" using 0 by (simp_all add: backend_ok_def order_antisym)
  then show ?case using 0 by (subst release_while.simps) (auto simp: private_same)
next
  case (Suc c me)
  have bo: "backend_ok (NBuffers s) me" using pool_inv_backend [OF Suc(3,4)] Suc by simp
  have pos: "PrivateRefCount me ! b > 0" using Suc(2) by simp
  have len: "b < length (PrivateRefCount me)" using bo Suc by (simp add: backend_ok_def)
  obtain s1 me1 r ys where R: "ReleaseBuffer s me (int b + 1) = Some (s1, me1, r)" "NBuffers s1 = NBuffers s"
    "me1 = me\<lparr>PrivateRefCount := (PrivateRefCount me)[b := PrivateRefCount me ! b - 1]\<rparr>" "pool_inv s1 (ps[j := me1]) ys"
    using release_inv [OF Suc(3,4,5)] Suc(6) pos by (auto simp: rets_def)
  have "rets (release_while s1 me1 (int b + 1)) (\<lambda>(s', me'). NBuffers s' = NBuffers s1 \<and>
    me' = me1\<lparr>PrivateRefCount := (PrivateRefCount me1)[b := 0]\<rparr> \<and> (\<exists>ys. pool_inv s' (ps[j := me1, j := me']) ys))"
    by (rule Suc(1) [OF _ R(4)]) (use Suc(2,4,5) R(2,3) len in auto)
  then show ?case using R pos len by (subst release_while.simps) (auto simp: rets_def)
qed

text \<open>The loop of \<open>ResetBufferPool\<close>, for a backend that is not inside a nested execution level.\<close>

lemma reset_pool_inv:
  assumes inv: "pool_inv s ps xs" and j: "j < length ps" and last: "\<forall>b<NBuffers s. LastRefCount (ps ! j) ! b = 0"
  shows "rets (ResetBufferPool s (ps ! j)) (\<lambda>(s', me). NBuffers s' = NBuffers s \<and> (\<exists>ys. pool_inv s' (ps[j := me]) ys) \<and>
    (\<forall>b<NBuffers s. \<not> held me b))"
proof -
  define n where "n = NBuffers s"
  define I where "I = (\<lambda>i (s', me). NBuffers s' = n \<and> (\<exists>ys. pool_inv s' (ps[j := me]) ys) \<and>
    (\<forall>b<n. LastRefCount me ! b = 0) \<and> (\<forall>b<i - 1. PrivateRefCount me ! b = 0))"
  have "rets (for_loop 1 (n + 1) reset_buffer (s, ps ! j)) (I (n + 1))"
  proof (rule rets_for_loop)
    show "I 1 (s, ps ! j)" using assms by (auto simp: I_def n_def)
  next
    fix i c assume i: "1 \<le> i" "i < n + 1" and Ic: "I i c"
    obtain s1 me b where c: "c = (s1, me)" and b: "i = Suc b" "b < n" using i by (cases c; cases i) auto
    obtain ys where ys: "pool_inv s1 (ps[j := me]) ys" and I: "NBuffers s1 = n" "\<forall>b<n. LastRefCount me ! b = 0"
      "\<forall>k<b. PrivateRefCount me ! k = 0" using Ic by (auto simp: I_def c b)
    have bo: "backend_ok n me" using pool_inv_backend [OF ys, of j] j I by simp
    have len: "b < length (PrivateRefCount me)" "b < length (LastRefCount me)" using bo b by (simp_all add: backend_ok_def)
    have same: "me'\<lparr>LastRefCount := (LastRefCount me')[b := 0]\<rparr> = me'" if "LastRefCount me' = LastRefCount me" for me'
      using that I(2) b by (simp add: list_update_same_conv len)
    have W: "rets (if PrivateRefCount me ! b > 0 then release_while s1 me (int b + 1) else Some (s1, me)) (\<lambda>(s', me'). NBuffers s' = n \<and>
      me' = me\<lparr>PrivateRefCount := (PrivateRefCount me)[b := 0]\<rparr> \<and> (\<exists>ys. pool_inv s' (ps[j := me']) ys))"
    proof (cases "PrivateRefCount me ! b > 0")
      case True
      then show ?thesis using release_while_inv [OF ys, of j b me] j b I(1) by (auto simp: rets_def)
    next
      case False
      then have "PrivateRefCount me ! b = 0" using bo b by (simp add: backend_ok_def order_antisym)
      then show ?thesis using ys I(1) len False by (auto simp: private_same)
    qed
    have v: "BufferIsValid s1 me (int i) = Some (PrivateRefCount me ! b > 0)"
      using shared_number [of b s1] b I(1) len by (simp add: BufferIsValid_def ac_simps)
    have ib: "int i = int b + 1" using b by simp
    define me2 where "me2 = me\<lparr>PrivateRefCount := (PrivateRefCount me)[b := 0]\<rparr>"
    from W obtain x where x: "(if PrivateRefCount me ! b > 0 then release_while s1 me (int i) else Some (s1, me)) = Some x"
      "case x of (s', me') \<Rightarrow> NBuffers s' = n \<and> me' = me2 \<and> (\<exists>ys. pool_inv s' (ps[j := me']) ys)"
      unfolding ib me2_def by (rule retsE)
    obtain s2 where s2: "x = (s2, me2)" "NBuffers s2 = n" "\<exists>ys. pool_inv s2 (ps[j := me2]) ys"
      using x(2) by (cases x) auto
    have m2: "LastRefCount me2 = LastRefCount me" "\<forall>k<Suc b. PrivateRefCount me2 ! k = 0"
      using I(3) len by (auto simp: me2_def nth_list_update less_Suc_eq)
    have "reset_buffer i c = Some (s2, me2\<lparr>LastRefCount := (LastRefCount me2)[b := 0]\<rparr>)"
      unfolding reset_buffer_def c prod.case v bind.simps x(1) s2(1) using m2(1) len(2) b(1) by simp
    then show "rets (reset_buffer i c) (I (Suc i))"
      using same [OF m2(1)] s2 m2 b(1) I(2) by (simp add: I_def)
  qed (simp add: n_def)
  then show ?thesis
  proof (elim retsE)
    fix c assume F: "for_loop 1 (n + 1) reset_buffer (s, ps ! j) = Some c" and Ic: "I (n + 1) c"
    obtain s1 me where c: "c = (s1, me)" by (cases c)
    obtain ys where ys: "pool_inv s1 (ps[j := me]) ys" "NBuffers s1 = n" "\<forall>b<n. LastRefCount me ! b = 0" "\<forall>b<n. PrivateRefCount me ! b = 0"
      using Ic by (auto simp: I_def c)
    have "backend_ok n me" using pool_inv_backend [OF ys(1), of j] j ys(2) by simp
    then have "pool_inv s1 ((ps[j := me])[j := ResetLocalBufferPool me]) ys"
      by (intro backend_only_inv [OF ys(1)]) (use j ys(2) in \<open>auto simp: backend_ok_def held_def ResetLocalBufferPool_def\<close>)
    then show ?thesis using F c ys by (auto simp: ResetBufferPool_def n_def held_def ResetLocalBufferPool_def)
  qed
qed

subsection \<open>Steps of the system\<close>

text \<open>A process before its arrays are allocated.\<close>

definition backend0 :: backend where
  "backend0 = \<lparr>PrivateRefCount = [], LastRefCount = [], NLocBuffer = 0, LocalRefCount = [], LocalBufferDescriptors = [], nextFreeLocalBuf = 0\<rparr>"

text \<open>
  One operation of one backend at a time: the code holds \<open>BufMgrLock\<close> around each of them. The steps are all the routines that change
  a count or the free list, and their guards are the contracts of their callers. A backend releases a buffer only while its own count is positive,
  as the assertions demand, and counts up only a buffer it holds: the assertion in \<open>IncrBufferRefCount\<close> asks for less and
  \<open>IncrBufferRefCount_unpinned\<close> shows that it is not enough. \<open>ResetBufferPool\<close> runs outside every nested execution level;
  \<open>ResetBufferPool_leaks\<close> is the other case. The counts that \<open>BufferRefCountRestore\<close> brings back are at most those set aside, and a buffer pinned
  inside the level is given up there or was already held outside.
\<close>

inductive pool_step :: "pool \<times> backend list \<Rightarrow> pool \<times> backend list \<Rightarrow> bool" where
  pin: "\<lbrakk>j < length ps; b < NBuffers s; PinBuffer s (ps ! j) (int b) = Some (s', me)\<rbrakk> \<Longrightarrow> pool_step (s, ps) (s', ps[j := me])"
| unpin: "\<lbrakk>j < length ps; b < NBuffers s; PrivateRefCount (ps ! j) ! b > 0; UnpinBuffer s (ps ! j) (int b) = Some (s', me)\<rbrakk>
    \<Longrightarrow> pool_step (s, ps) (s', ps[j := me])"
| release: "\<lbrakk>j < length ps; b < NBuffers s; PrivateRefCount (ps ! j) ! b > 0; ReleaseBuffer s (ps ! j) (int b + 1) = Some (s', me, r)\<rbrakk>
    \<Longrightarrow> pool_step (s, ps) (s', ps[j := me])"
| incr: "\<lbrakk>j < length ps; b < NBuffers s; held (ps ! j) b; IncrBufferRefCount s (ps ! j) (int b + 1) = Some me\<rbrakk>
    \<Longrightarrow> pool_step (s, ps) (s, ps[j := me])"
| claim: "\<lbrakk>j < length ps; claim_buffer s (ps ! j) = Some (s', me, r)\<rbrakk> \<Longrightarrow> pool_step (s, ps) (s', ps[j := me])"
| nest: "\<lbrakk>j < length ps; BufferRefCountReset (ps ! j) = (me, saved)\<rbrakk> \<Longrightarrow> pool_step (s, ps) (s, ps[j := me])"
| restore: "\<lbrakk>j < length ps; length saved = NBuffers s;
      \<forall>b<NBuffers s. 0 \<le> saved ! b \<and> saved ! b \<le> LastRefCount (ps ! j) ! b \<and> (PrivateRefCount (ps ! j) ! b > 0 \<longrightarrow> LastRefCount (ps ! j) ! b > 0)\<rbrakk>
    \<Longrightarrow> pool_step (s, ps) (s, ps[j := BufferRefCountRestore (ps ! j) saved])"
| reset: "\<lbrakk>j < length ps; \<forall>b<NBuffers s. LastRefCount (ps ! j) ! b = 0; ResetBufferPool s (ps ! j) = Some (s', me)\<rbrakk> \<Longrightarrow> pool_step (s, ps) (s', ps[j := me])"

lemma pool_step_inv:
  assumes "pool_step (s, ps) (s', ps')" and inv: "pool_inv s ps xs"
  shows "\<exists>ys. pool_inv s' ps' ys \<and> NBuffers s' = NBuffers s"
  using assms(1)
proof (cases rule: pool_step.cases)
  case (pin j b me) then show ?thesis using pin_inv [OF inv, of j b] by auto
next
  case (unpin j b me)
  then show ?thesis using release_inv [OF inv, of j b] unpin_release [OF inv, of j b] by (auto simp: rets_def)
next
  case (release j b me r) then show ?thesis using release_inv [OF inv, of j b] by auto
next
  case (incr j b me) then show ?thesis using incr_inv [OF inv, of j b] by auto
next
  case (claim j me r)
  show ?thesis
  proof (cases xs)
    case Nil then show ?thesis using claim claim_none inv by auto
  next
    case (Cons k ys)
    have "0 \<le> k" using linked_range [of s xs k] inv Cons by (simp add: pool_inv_def)
    then show ?thesis using claim_inv [of s ps "nat k" ys j] claim inv Cons by auto
  qed
next
  case (nest j me saved) then show ?thesis using reset_counts_inv [OF inv, of j] inv by auto
next
  case (restore j saved) then show ?thesis using restore_counts_inv [OF inv, of j saved] by auto
next
  case (reset j me) then show ?thesis using reset_pool_inv [OF inv, of j] by auto
qed

lemma pool_steps_inv:
  assumes "pool_step\<^sup>*\<^sup>* c c'" and "pool_inv (fst c) (snd c) xs"
  shows "\<exists>ys. pool_inv (fst c') (snd c') ys \<and> NBuffers (fst c') = NBuffers (fst c)"
  using assms
proof (induction rule: rtranclp_induct)
  case (step c' c'')
  then obtain ys where ys: "pool_inv (fst c') (snd c') ys" "NBuffers (fst c') = NBuffers (fst c)" by blast
  show ?case using pool_step_inv [of "fst c'" "snd c'" "fst c''" "snd c''" ys] step(2) ys by auto
qed auto

lemma init_inv:
  assumes "length mem = Suc n" and "0 < n" and "m < 2 ^ 32"
    and "InitBufferPool n base mem False me = Some (s, me')"
  shows "pool_inv s (replicate m me') (map int [1..<n] @ [0])" and "NBuffers s = n"
proof -
  have L: "NBuffers s = n" "linked s (map int [1..<n] @ [0])" "\<forall>k<n. refcount (D s (int k)) = 0"
    "me' = me\<lparr>PrivateRefCount := replicate n 0, LastRefCount := replicate n 0\<rparr>"
    using InitBufferPool_linked [OF assms(1,2), of base me] assms(4) by (auto simp: rets_def)
  have "holders (replicate m me') b = 0" if "b < n" for b using that L(4) by (simp add: holders_def held_def)
  moreover have "int b \<in> set (map int [1..<n] @ [0])" if "b < n" for b using that by (cases "b = 0") (auto simp: image_iff)
  moreover have "backend_ok n me'" using L(4) by (simp add: backend_ok_def)
  ultimately show "pool_inv s (replicate m me') (map int [1..<n] @ [0])" using L assms(3) by (auto simp: pool_inv_def)
  show "NBuffers s = n" by (rule L(1))
qed


subsection \<open>Properties\<close>

text \<open>
  C8: after \<open>InitBufferPool\<close> and any sequence of steps of any backends (pinning, releasing, claiming, counting up a held buffer, entering and leaving
  a nested execution level, aborting outside such a level), every buffer is
  either pinned or on the free list and never both: the buffers on the list, which its links
  give in both directions, are those with a zero count, and the count of every buffer is the
  number of backends that hold it.
\<close>

theorem pool_invariant:
  assumes "length mem = Suc n" and "0 < n" and "m < 2 ^ 32"
    and "InitBufferPool n base mem False me = Some (s0, me')"
    and "pool_step\<^sup>*\<^sup>* (s0, replicate m me') (s, ps)"
  shows "\<exists>xs. linked s xs \<and> distinct xs \<and>
    (\<forall>b<n. unat (refcount (BufferDescriptors s ! b)) = holders ps b \<and>
      (int b \<in> set xs \<longleftrightarrow> (\<forall>p\<in>set ps. \<not> held p b)) \<and> (int b \<in> set xs \<longleftrightarrow> has_flag BM_FREE (BufferDescriptors s ! b)))"
proof -
  note i = init_inv [OF assms(1-4)]
  obtain xs where xs: "pool_inv s ps xs" "NBuffers s = n" using pool_steps_inv [OF assms(5)] i by auto
  then have l: "linked s xs" by (simp add: pool_inv_def)
  have fl: "int b \<in> set xs \<longleftrightarrow> has_flag BM_FREE (D s (int b))" if "b < n" for b
    using linked_InQueue [OF l] linked_NotInQueue [OF l, of "int b"] that xs(2) by (auto simp: IsInQueue_def NotInQueue_def)
  have "holders ps b = 0 \<longleftrightarrow> (\<forall>p\<in>set ps. \<not> held p b)" for b by (simp add: holders_def filter_empty_conv)
  then have "\<forall>b<n. unat (refcount (D s (int b))) = holders ps b \<and> (int b \<in> set xs \<longleftrightarrow> (\<forall>p\<in>set ps. \<not> held p b)) \<and>
      (int b \<in> set xs \<longleftrightarrow> has_flag BM_FREE (D s (int b)))"
    using xs fl by (simp add: pool_inv_def)
  then show ?thesis using l linked_distinct [OF l] by (auto simp: D_def)
qed

theorem pool_invariant_witness:
  "\<exists>s0 me s me' xs. InitBufferPool 2 0 (replicate 3 zero_desc) False backend0 = Some (s0, me) \<and>
    claim_buffer s0 me = Some (s, me', Some 1) \<and> pool_step\<^sup>*\<^sup>* (s0, [me, me]) (s, [me', me]) \<and> linked s xs \<and>
    (\<forall>b<2. unat (refcount (BufferDescriptors s ! b)) = holders [me', me] b \<and>
      (int b \<in> set xs \<longleftrightarrow> (\<forall>p\<in>set [me', me]. \<not> held p b)) \<and> (int b \<in> set xs \<longleftrightarrow> has_flag BM_FREE (BufferDescriptors s ! b)))"
proof -
  obtain s0 me where I: "InitBufferPool 2 0 (replicate 3 zero_desc) False backend0 = Some (s0, me)"
    using InitBufferPool_linked [of "replicate 3 zero_desc" 2 0 backend0] by (auto simp: rets_def)
  have inv: "pool_inv s0 [me, me] [1, 0]"
    using init_inv(1) [OF _ _ _ I, of 2] by (simp add: upt_rec) (simp add: numeral_2_eq_2)
  obtain s me' where c: "claim_buffer s0 me = Some (s, me', Some 1)"
    using claim_inv [of s0 "[me, me]" 1 "[0]" 0] inv by (auto simp: rets_def)
  have st: "pool_step (s0, [me, me]) (s, [me', me])"
    using pool_step.claim [of 0 "[me, me]" s0 s me' "Some 1"] c by simp
  then have "pool_step\<^sup>*\<^sup>* (s0, replicate 2 me) (s, [me', me])" by (simp add: numeral_2_eq_2)
  from pool_invariant [OF _ _ _ I this] show ?thesis using I c st by fastforce
qed

text \<open>
  C21: the free list is a first-in first-out queue of buffers. Claiming a buffer takes the one that
  has been on the list longest, and fails exactly when the list is empty; pinning a buffer
  takes it off the list wherever it is; the release of the last pin puts it at the end.
\<close>

theorem freelist_queue:
  assumes inv: "pool_inv s ps xs" and j: "j < length ps" and b: "b < NBuffers s"
  shows "rets (claim_buffer s (ps ! j)) (\<lambda>(s', me, r). pool_inv s' (ps[j := me]) (tl xs) \<and> r = (if xs = [] then None else Some (hd xs))) \<and>
    rets (PinBuffer s (ps ! j) (int b)) (\<lambda>(s', me). pool_inv s' (ps[j := me]) (remove1 (int b) xs)) \<and>
    (PrivateRefCount (ps ! j) ! b > 0 \<longrightarrow>
      rets (ReleaseBuffer s (ps ! j) (int b + 1)) (\<lambda>(s', me, r). pool_inv s' (ps[j := me]) (if holders (ps[j := me]) b = 0 then xs @ [int b] else xs)) \<and>
      rets (UnpinBuffer s (ps ! j) (int b)) (\<lambda>(s', me). pool_inv s' (ps[j := me]) (if holders (ps[j := me]) b = 0 then xs @ [int b] else xs)))"
proof (intro conjI impI)
  show "rets (claim_buffer s (ps ! j)) (\<lambda>(s', me, r). pool_inv s' (ps[j := me]) (tl xs) \<and> r = (if xs = [] then None else Some (hd xs)))"
  proof (cases xs)
    case (Cons k ys)
    have "0 \<le> k" using linked_range [of s xs k] inv Cons by (simp add: pool_inv_def)
    then show ?thesis using claim_inv [of s ps "nat k" ys j] j inv Cons by (auto elim!: rets_mono)
  qed (use claim_none inv j in auto)
  show "rets (PinBuffer s (ps ! j) (int b)) (\<lambda>(s', me). pool_inv s' (ps[j := me]) (remove1 (int b) xs))"
    using pin_inv [OF inv j b] by (auto elim!: rets_mono)
  assume pos: "PrivateRefCount (ps ! j) ! b > 0"
  show "rets (ReleaseBuffer s (ps ! j) (int b + 1)) (\<lambda>(s', me, r). pool_inv s' (ps[j := me]) (if holders (ps[j := me]) b = 0 then xs @ [int b] else xs))"
    using release_inv [OF inv j b pos] by (rule rets_mono) auto
  show "rets (UnpinBuffer s (ps ! j) (int b)) (\<lambda>(s', me). pool_inv s' (ps[j := me]) (if holders (ps[j := me]) b = 0 then xs @ [int b] else xs))"
    using release_inv [OF inv j b pos] unfolding unpin_release [OF inv j b pos] rets_map_option by (rule rets_mono) auto
qed

theorem freelist_queue_witness:
  "\<exists>s me. InitBufferPool 2 0 (replicate 3 zero_desc) False backend0 = Some (s, me) \<and>
    rets (claim_buffer s me) (\<lambda>(s', me', r). pool_inv s' [me'] [0] \<and> r = Some 1) \<and>
    rets (PinBuffer s me 0) (\<lambda>(s', me'). pool_inv s' [me'] [1])"
proof -
  obtain s me where I: "InitBufferPool 2 0 (replicate 3 zero_desc) False backend0 = Some (s, me)"
    using InitBufferPool_linked [of "replicate 3 zero_desc" 2 0 backend0] by (auto simp: rets_def)
  have inv: "pool_inv s [me] [1, 0]" "NBuffers s = 2"
    using init_inv [OF _ _ _ I, of 1] by (simp_all add: upt_rec)
  show ?thesis using freelist_queue [OF inv(1), of 0 0] I inv(2) by (simp add: case_prod_beta)
qed

text \<open>
  \<open>ResetBufferPool\<close> at the end of an aborted transaction gives up every pin of the backend,
  leaves the pins of the others alone and keeps the pool consistent, provided no counts are set
  aside in \<open>LastRefCount\<close>.
\<close>

theorem ResetBufferPool_correct:
  assumes "pool_inv s ps xs" and "j < length ps" and "\<forall>b<NBuffers s. LastRefCount (ps ! j) ! b = 0"
  shows "rets (ResetBufferPool s (ps ! j)) (\<lambda>(s', me). (\<exists>ys. pool_inv s' (ps[j := me]) ys) \<and> (\<forall>b<NBuffers s. \<not> held me b))"
  using reset_pool_inv [OF assms] by (rule rets_mono) auto

theorem ResetBufferPool_correct_witness:
  "\<exists>s me. InitBufferPool 2 0 (replicate 3 zero_desc) False backend0 = Some (s, me) \<and>
    rets (PinBuffer s me 0) (\<lambda>(s1, me1). rets (ResetBufferPool s1 me1) (\<lambda>(s', me'). (\<exists>ys. pool_inv s' [me'] ys) \<and> (\<forall>b<2. \<not> held me' b)))"
proof -
  obtain s me where I: "InitBufferPool 2 0 (replicate 3 zero_desc) False backend0 = Some (s, me)"
    "me = backend0\<lparr>PrivateRefCount := [0, 0], LastRefCount := [0, 0]\<rparr>"
    using InitBufferPool_linked [of "replicate 3 zero_desc" 2 0 backend0] by (auto simp: rets_def numeral_2_eq_2)
  have inv: "pool_inv s [me] [1, 0]" "NBuffers s = 2"
    using init_inv [OF _ _ _ I(1), of 1] by (simp_all add: upt_rec)
  obtain s1 me1 where P: "PinBuffer s me 0 = Some (s1, me1)" "pool_inv s1 [me1] [1]" "NBuffers s1 = 2" "LastRefCount me1 = [0, 0]"
    using pin_inv [OF inv(1), of 0 0] inv(2) I(2) by (auto simp: rets_def)
  show ?thesis using ResetBufferPool_correct [OF P(2), of 0] I(1) P by (auto simp: less_2_cases_iff)
qed



end
