(* ===== verification/ShmQueue.thy ===== *)
theory ShmQueue
  imports Ring
begin

text \<open>
  Queues in shared memory: \<open>storage/ipc/shmqueue.c\<close>. Cells are named by their offset from the start
  of the shared region, as the links in them are; a process reaches a cell at \<open>ShmemBase\<close> plus
  its offset. Pointers are unsigned 64-bit numbers. The store holds the cells that exist;
  \<open>None\<close> is a failed \<open>Assert\<close> (the code prints a message and goes on; the model does not follow such a run) or an access to a cell that does not.
\<close>

type_synonym SHMEM_OFFSET = "64 word"

definition INVALID_OFFSET :: SHMEM_OFFSET where "INVALID_OFFSET = -1"

record SHM_QUEUE =
  prev :: SHMEM_OFFSET
  next_off :: SHMEM_OFFSET

record shm =
  ShmemBase :: "64 word"
  cells :: "SHMEM_OFFSET \<rightharpoonup> SHM_QUEUE"

definition MAKE_PTR :: "shm \<Rightarrow> SHMEM_OFFSET \<Rightarrow> 64 word" where
  "MAKE_PTR s off = ShmemBase s + off"

definition MAKE_OFFSET :: "shm \<Rightarrow> 64 word \<Rightarrow> SHMEM_OFFSET" where
  "MAKE_OFFSET s ptr = ptr - ShmemBase s"

definition SHM_PTR_VALID :: "shm \<Rightarrow> 64 word \<Rightarrow> bool" where
  "SHM_PTR_VALID s ptr \<longleftrightarrow> ShmemBase s < ptr"

definition cell :: "shm \<Rightarrow> 64 word \<Rightarrow> SHM_QUEUE option" where
  "cell s ptr = cells s (MAKE_OFFSET s ptr)"

definition put_cell :: "shm \<Rightarrow> 64 word \<Rightarrow> (SHM_QUEUE \<Rightarrow> SHM_QUEUE) \<Rightarrow> shm option" where
  "put_cell s ptr f = map_option (\<lambda>c. s\<lparr>cells := (cells s)(MAKE_OFFSET s ptr \<mapsto> f c)\<rparr>) (cell s ptr)"

definition SHMQueueInit :: "shm \<Rightarrow> 64 word \<Rightarrow> shm option" where
  "SHMQueueInit s queue =
     (if SHM_PTR_VALID s queue
      then put_cell s queue (\<lambda>c. c\<lparr>next_off := MAKE_OFFSET s queue, prev := MAKE_OFFSET s queue\<rparr>) else None)"

definition SHMQueueIsDetached :: "shm \<Rightarrow> 64 word \<Rightarrow> bool option" where
  "SHMQueueIsDetached s queue =
     (if SHM_PTR_VALID s queue then map_option (\<lambda>c. prev c = INVALID_OFFSET) (cell s queue) else None)"

definition SHMQueueElemInit :: "shm \<Rightarrow> 64 word \<Rightarrow> shm option" where
  "SHMQueueElemInit s queue =
     (if SHM_PTR_VALID s queue
      then put_cell s queue (\<lambda>c. c\<lparr>next_off := INVALID_OFFSET, prev := INVALID_OFFSET\<rparr>) else None)"

definition SHMQueueDelete :: "shm \<Rightarrow> 64 word \<Rightarrow> shm option" where
  "SHMQueueDelete s queue = do {
     q \<leftarrow> cell s queue;
     let nextElem = MAKE_PTR s (next_off q); prevElem = MAKE_PTR s (prev q) in
     if \<not> (SHM_PTR_VALID s queue \<and> SHM_PTR_VALID s nextElem \<and> SHM_PTR_VALID s prevElem) then None
     else do {
       s \<leftarrow> put_cell s prevElem (\<lambda>c. c\<lparr>next_off := next_off q\<rparr>);
       q \<leftarrow> cell s queue;
       put_cell s nextElem (\<lambda>c. c\<lparr>prev := prev q\<rparr>)
     }
   }"

definition SHMQueueInsertHD :: "shm \<Rightarrow> 64 word \<Rightarrow> 64 word \<Rightarrow> shm option" where
  "SHMQueueInsertHD s queue elem = do {
     q \<leftarrow> cell s queue;
     let prevPtr = MAKE_PTR s (prev q); elemOffset = MAKE_OFFSET s elem in
     if \<not> (SHM_PTR_VALID s queue \<and> SHM_PTR_VALID s elem) then None
     else do {
       p \<leftarrow> cell s prevPtr;
       s \<leftarrow> put_cell s elem (\<lambda>c. c\<lparr>next_off := next_off p\<rparr>);
       q \<leftarrow> cell s queue;
       s \<leftarrow> put_cell s elem (\<lambda>c. c\<lparr>prev := prev q\<rparr>);
       s \<leftarrow> put_cell s queue (\<lambda>c. c\<lparr>prev := elemOffset\<rparr>);
       put_cell s prevPtr (\<lambda>c. c\<lparr>next_off := elemOffset\<rparr>)
     }
   }"

definition SHMQueueInsertTL :: "shm \<Rightarrow> 64 word \<Rightarrow> 64 word \<Rightarrow> shm option" where
  "SHMQueueInsertTL s queue elem = do {
     q \<leftarrow> cell s queue;
     let nextPtr = MAKE_PTR s (next_off q); elemOffset = MAKE_OFFSET s elem in
     if \<not> (SHM_PTR_VALID s queue \<and> SHM_PTR_VALID s elem) then None
     else do {
       n \<leftarrow> cell s nextPtr;
       s \<leftarrow> put_cell s elem (\<lambda>c. c\<lparr>prev := prev n\<rparr>);
       q \<leftarrow> cell s queue;
       s \<leftarrow> put_cell s elem (\<lambda>c. c\<lparr>next_off := next_off q\<rparr>);
       s \<leftarrow> put_cell s queue (\<lambda>c. c\<lparr>next_off := elemOffset\<rparr>);
       put_cell s nextPtr (\<lambda>c. c\<lparr>prev := elemOffset\<rparr>)
     }
   }"

text \<open>The new value of \<open>*nextPtrPtr\<close>, from its old value and the address of the link field in it.\<close>

definition SHMQueueFirst :: "shm \<Rightarrow> 64 word \<Rightarrow> 64 word \<Rightarrow> 64 word \<Rightarrow> 64 word option" where
  "SHMQueueFirst s queue nextPtr nextQueue = do {
     q \<leftarrow> cell s queue;
     if \<not> SHM_PTR_VALID s queue then None
     else Some (nextPtr + MAKE_PTR s (next_off q) - nextQueue)
   }"

text \<open>The condition of the second \<open>Assert\<close> is an assignment.\<close>

definition SHMQueueEmpty :: "shm \<Rightarrow> 64 word \<Rightarrow> (shm \<times> bool) option" where
  "SHMQueueEmpty s queue =
     (if \<not> SHM_PTR_VALID s queue then None
      else do {
        q \<leftarrow> cell s queue;
        if prev q = MAKE_OFFSET s queue then do {
          s \<leftarrow> put_cell s queue (\<lambda>c. c\<lparr>next_off := MAKE_OFFSET s queue\<rparr>);
          if MAKE_OFFSET s queue = 0 then None else Some (s, True)
        } else Some (s, False)
      })"

subsection \<open>The queue as a list\<close>

text \<open>A usable cell exists and does not wrap around or lie at the very start of the region.\<close>

definition usable :: "shm \<Rightarrow> SHMEM_OFFSET \<Rightarrow> bool" where
  "usable s k \<longleftrightarrow> (\<exists>c. cells s k = Some c) \<and> SHM_PTR_VALID s (MAKE_PTR s k)"

definition lnk :: "shm \<Rightarrow> SHMEM_OFFSET \<Rightarrow> SHM_QUEUE" where
  "lnk s k = the (cells s k)"

definition put :: "shm \<Rightarrow> SHMEM_OFFSET \<Rightarrow> (SHM_QUEUE \<Rightarrow> SHM_QUEUE) \<Rightarrow> shm" where
  "put s k f = s\<lparr>cells := (cells s)(k \<mapsto> f (lnk s k))\<rparr>"

lemma offset_ptr [simp]: "MAKE_OFFSET s (MAKE_PTR s k) = k"
  by (simp add: MAKE_OFFSET_def MAKE_PTR_def)

lemma lnk_put [simp]: "lnk (put s a f) k = (if k = a then f (lnk s a) else lnk s k)"
  by (simp add: lnk_def put_def)

lemma put_simps [simp]:
  "ShmemBase (put s a f) = ShmemBase s" "MAKE_PTR (put s a f) = MAKE_PTR s" "MAKE_OFFSET (put s a f) = MAKE_OFFSET s"
  "SHM_PTR_VALID (put s a f) = SHM_PTR_VALID s" "usable s a \<Longrightarrow> usable (put s a f) k = usable s k"
  by (auto simp: put_def MAKE_PTR_def MAKE_OFFSET_def SHM_PTR_VALID_def usable_def fun_eq_iff)

lemma usable_access:
  assumes "usable s k"
  shows "cell s (MAKE_PTR s k) = Some (lnk s k)" and "put_cell s (MAKE_PTR s k) f = Some (put s k f)" and "SHM_PTR_VALID s (MAKE_PTR s k)"
  using assms by (auto simp: usable_def cell_def put_cell_def lnk_def put_def)

interpretation sq: link_store "\<lambda>s k. next_off (lnk s k)" "\<lambda>s k. prev (lnk s k)"
  "\<lambda>s k v. put s k (\<lambda>c. c\<lparr>next_off := v\<rparr>)" "\<lambda>s k v. put s k (\<lambda>c. c\<lparr>prev := v\<rparr>)" usable
  by unfold_locales auto

lemma put_put [simp]: "put (put s a f) a g = put s a (\<lambda>c. g (f c))"
  by (simp add: put_def lnk_def)

lemma links_comm: "c\<lparr>next_off := v, prev := w\<rparr> = c\<lparr>prev := w, next_off := v\<rparr>" for c :: SHM_QUEUE
  by (cases c) simp

lemma put_comm: "put (put s a (\<lambda>c. c\<lparr>next_off := v\<rparr>)) b (\<lambda>c. c\<lparr>prev := w\<rparr>) = put (put s b (\<lambda>c. c\<lparr>prev := w\<rparr>)) a (\<lambda>c. c\<lparr>next_off := v\<rparr>)"
  by (cases "a = b") (simp_all add: put_def lnk_def fun_upd_twist links_comm)

lemma ring_cells:
  assumes "sq.ring s h xs"
  shows "usable s h" and "x \<in> set xs \<Longrightarrow> usable s x" and "usable s (next_off (lnk s h))" and "usable s (prev (lnk s h))"
proof -
  have v: "usable s x" if "x \<in> insert h (set xs)" for x using assms that by (auto simp: sq.ring_def)
  show "usable s h" "x \<in> set xs \<Longrightarrow> usable s x" using v by auto
  have "next_off (lnk s h) = hd (xs @ [h])" "prev (lnk s h) = last (h # xs)" using sq.ring_first [OF assms] by auto
  moreover have "hd (xs @ [h]) \<in> insert h (set xs)" "last (h # xs) \<in> insert h (set xs)" by (cases xs; auto)+
  ultimately show "usable s (next_off (lnk s h))" "usable s (prev (lnk s h))" using v by auto
qed

lemma init_ring:
  assumes "usable s h"
  shows "rets (SHMQueueInit s (MAKE_PTR s h)) (\<lambda>s'. sq.ring s' h [] \<and> (\<forall>k. usable s' k = usable s k) \<and> (\<forall>k. k \<noteq> h \<longrightarrow> lnk s' k = lnk s k))"
  using assms by (simp add: SHMQueueInit_def usable_access sq.ring_def sq.step_def)

lemma delete_ring:
  assumes r: "sq.ring s h (as @ x # bs)"
  shows "rets (SHMQueueDelete s (MAKE_PTR s x)) (\<lambda>s'. sq.ring s' h (as @ bs) \<and> (\<forall>k. usable s' k = usable s k))"
proof -
  define p n where "p = prev (lnk s x)" and "n = next_off (lnk s x)"
  have mem: "p \<in> set (h # as)" "n \<in> set (bs @ [h])"
    using sq.ring_neighbours [OF r] last_in_set [of "h # as"] hd_in_set [of "bs @ [h]"] by (simp_all add: p_def n_def)
  have u: "usable s x" "usable s p" "usable s n" and ne: "x \<noteq> p" "x \<noteq> n" using r mem by (auto simp: sq.ring_def)
  define s' where "s' = put (put s p (\<lambda>c. c\<lparr>next_off := n\<rparr>)) n (\<lambda>c. c\<lparr>prev := p\<rparr>)"
  have eq: "SHMQueueDelete s (MAKE_PTR s x) = Some s'"
    using u ne usable_access [of "put s p (\<lambda>c. c\<lparr>next_off := n\<rparr>)"]
    by (simp add: SHMQueueDelete_def usable_access s'_def flip: p_def n_def)
  have "sq.ring s' h (as @ bs)"
    by (rule sq.ring_unlink [OF r p_def n_def]) (use u r in \<open>auto simp: s'_def sq.ring_def\<close>)
  then show ?thesis using eq u by (simp add: s'_def)
qed

lemma insert_ring:
  assumes r: "sq.ring s h (as @ bs)" and x: "usable s x" "x \<noteq> h" "x \<notin> set (as @ bs)"
    and p: "p = last (h # as)" and n: "n = hd (bs @ [h])"
    and s': "s' = put (put (put s x (\<lambda>c. c\<lparr>next_off := n, prev := p\<rparr>)) n (\<lambda>c. c\<lparr>prev := x\<rparr>)) p (\<lambda>c. c\<lparr>next_off := x\<rparr>)"
  shows "sq.ring s' h (as @ x # bs) \<and> (\<forall>k. usable s' k = usable s k)"
proof -
  have "p \<in> set (h # as)" "n \<in> set (bs @ [h])" unfolding p n by (rule last_in_set hd_in_set, simp)+
  then have u: "usable s p" "usable s n" "p \<noteq> x" "n \<noteq> x" using r x by (auto simp: sq.ring_def)
  have "sq.ring s' h (as @ x # bs)"
    by (rule sq.ring_link [OF r x p n]) (use u x r in \<open>auto simp: s' sq.ring_def\<close>)
  then show ?thesis using u x by (simp add: s')
qed

lemma insertHD_ring:
  assumes r: "sq.ring s h xs" and x: "usable s x" "x \<noteq> h" "x \<notin> set xs"
  shows "rets (SHMQueueInsertHD s (MAKE_PTR s h) (MAKE_PTR s x)) (\<lambda>s'. sq.ring s' h (xs @ [x]) \<and> (\<forall>k. usable s' k = usable s k))"
proof -
  define p where "p = prev (lnk s h)"
  have p: "p = last (h # xs)" using sq.ring_first [OF r] by (simp add: p_def)
  have "p \<in> set (h # xs)" unfolding p by (rule last_in_set) simp
  then have u: "usable s h" "usable s p" "p \<noteq> x" using r x by (auto simp: sq.ring_def)
  have np: "next_off (lnk s p) = h"
  proof -
    have "successively (sq.step s) (h # xs @ [] @ [h])" using r by (simp add: sq.ring_def)
    then have "sq.step s (last (h # xs)) h" unfolding successively_split by simp
    then show ?thesis by (simp add: sq.step_def p)
  qed
  define s' where "s' = put (put (put s x (\<lambda>c. c\<lparr>next_off := h, prev := p\<rparr>)) h (\<lambda>c. c\<lparr>prev := x\<rparr>)) p (\<lambda>c. c\<lparr>next_off := x\<rparr>)"
  have "SHMQueueInsertHD s (MAKE_PTR s h) (MAKE_PTR s x) = Some s'"
    using u x np usable_access [of "put s x f" for f] usable_access [of "put (put s x f) h g" for f g]
    by (simp add: SHMQueueInsertHD_def usable_access s'_def flip: p_def)
  then show ?thesis using insert_ring [of s h xs "[]" x p h s'] r x p s'_def by simp
qed

lemma insertTL_ring:
  assumes r: "sq.ring s h xs" and x: "usable s x" "x \<noteq> h" "x \<notin> set xs"
  shows "rets (SHMQueueInsertTL s (MAKE_PTR s h) (MAKE_PTR s x)) (\<lambda>s'. sq.ring s' h (x # xs) \<and> (\<forall>k. usable s' k = usable s k))"
proof -
  define n where "n = next_off (lnk s h)"
  have n: "n = hd (xs @ [h])" using sq.ring_first [OF r] by (simp add: n_def)
  have "n \<in> set (xs @ [h])" unfolding n by (rule hd_in_set) simp
  then have u: "usable s h" "usable s n" "n \<noteq> x" using r x by (auto simp: sq.ring_def)
  have pn: "prev (lnk s n) = h"
  proof -
    have "successively (sq.step s) (h # xs @ [h])" using r by (simp add: sq.ring_def)
    then have "sq.step s h (hd (xs @ [h]))" unfolding successively_first by simp
    then show ?thesis by (simp add: sq.step_def n)
  qed
  define s' where "s' = put (put (put s x (\<lambda>c. c\<lparr>next_off := n, prev := h\<rparr>)) n (\<lambda>c. c\<lparr>prev := x\<rparr>)) h (\<lambda>c. c\<lparr>next_off := x\<rparr>)"
  have "SHMQueueInsertTL s (MAKE_PTR s h) (MAKE_PTR s x) = Some s'"
    using u x pn usable_access [of "put s x f" for f] usable_access [of "put (put s x f) h g" for f g]
    by (simp add: SHMQueueInsertTL_def usable_access s'_def put_comm links_comm flip: n_def)
  then show ?thesis using insert_ring [of s h "[]" xs x h n s'] r x n s'_def by simp
qed

lemma empty_ring:
  assumes r: "sq.ring s h xs" and "h \<noteq> 0"
  shows "SHMQueueEmpty s (MAKE_PTR s h) = Some (s, xs = [])"
proof -
  have u: "usable s h" using ring_cells [OF r] by simp
  have e: "(next_off (lnk s h) = h \<longleftrightarrow> xs = []) \<and> (prev (lnk s h) = h \<longleftrightarrow> xs = [])" by (rule sq.ring_empty_iff [OF r])
  have "put s h (\<lambda>c. c\<lparr>next_off := h\<rparr>) = s" if "xs = []"
    using e that u by (auto simp: put_def lnk_def usable_def fun_upd_idem)
  then show ?thesis using e u assms(2) usable_access [OF u] by (simp add: SHMQueueEmpty_def)
qed

subsection \<open>Properties\<close>

text \<open>
  C18: the operations on a queue in shared memory are those on a list. A fresh queue is empty,
  \<open>SHMQueueInsertHD\<close> puts an element at the end of the list that starts at the head's \<open>next\<close>,
  \<open>SHMQueueInsertTL\<close> at its beginning, \<open>SHMQueueDelete\<close> removes the element it is given wherever it
  is, \<open>SHMQueueEmpty\<close> tells whether the list is empty and changes nothing, and \<open>SHMQueueFirst\<close> yields
  the structure around the first element.
\<close>

theorem shmqueue_refines_list:
  assumes r: "sq.ring s h xs" and h: "h \<noteq> 0"
  shows "rets (SHMQueueInit s (MAKE_PTR s h)) (\<lambda>s'. sq.ring s' h []) \<and>
    (usable s x \<and> x \<noteq> h \<and> x \<notin> set xs \<longrightarrow>
      rets (SHMQueueInsertHD s (MAKE_PTR s h) (MAKE_PTR s x)) (\<lambda>s'. sq.ring s' h (xs @ [x])) \<and>
      rets (SHMQueueInsertTL s (MAKE_PTR s h) (MAKE_PTR s x)) (\<lambda>s'. sq.ring s' h (x # xs))) \<and>
    (x \<in> set xs \<longrightarrow> rets (SHMQueueDelete s (MAKE_PTR s x)) (\<lambda>s'. sq.ring s' h (remove1 x xs))) \<and>
    SHMQueueEmpty s (MAKE_PTR s h) = Some (s, xs = []) \<and>
    (xs \<noteq> [] \<longrightarrow> SHMQueueFirst s (MAKE_PTR s h) k (k + d) = Some (MAKE_PTR s (hd xs) - d))"
proof (intro conjI impI)
  note u = ring_cells [OF r]
  show "rets (SHMQueueInit s (MAKE_PTR s h)) (\<lambda>s'. sq.ring s' h [])"
    using init_ring [OF u(1)] by (rule rets_mono) simp
  show "SHMQueueEmpty s (MAKE_PTR s h) = Some (s, xs = [])" by (rule empty_ring [OF r h])
  show "rets (SHMQueueDelete s (MAKE_PTR s x)) (\<lambda>s'. sq.ring s' h (remove1 x xs))" if x: "x \<in> set xs"
  proof -
    obtain as bs where xs: "xs = as @ x # bs" "x \<notin> set as" using split_list_first [OF x] by blast
    show ?thesis using delete_ring [of s h as x bs] r by (auto simp: xs remove1_append elim!: rets_mono)
  qed
  show "SHMQueueFirst s (MAKE_PTR s h) k (k + d) = Some (MAKE_PTR s (hd xs) - d)" if "xs \<noteq> []"
    using sq.ring_first [OF r] that u(1) by (simp add: SHMQueueFirst_def usable_access)
next
  assume x: "usable s x \<and> x \<noteq> h \<and> x \<notin> set xs"
  show "rets (SHMQueueInsertHD s (MAKE_PTR s h) (MAKE_PTR s x)) (\<lambda>s'. sq.ring s' h (xs @ [x]))"
    using insertHD_ring [OF r, of x] x by (auto elim!: rets_mono)
  show "rets (SHMQueueInsertTL s (MAKE_PTR s h) (MAKE_PTR s x)) (\<lambda>s'. sq.ring s' h (x # xs))"
    using insertTL_ring [OF r, of x] x by (auto elim!: rets_mono)
qed

theorem shmqueue_refines_list_witness:
  "let c = \<lparr>prev = 16, next_off = 16\<rparr>; s = \<lparr>ShmemBase = 4096, cells = [16 \<mapsto> c, 48 \<mapsto> c]\<rparr> in
    rets (SHMQueueInsertHD s 4112 4144) (\<lambda>s'. sq.ring s' 16 [48]) \<and> SHMQueueEmpty s 4112 = Some (s, True)"
proof -
  define c s where c: "c = \<lparr>prev = 16, next_off = 16 :: SHMEM_OFFSET\<rparr>" and s: "s = \<lparr>ShmemBase = 4096, cells = [16 \<mapsto> c, 48 \<mapsto> c]\<rparr>"
  have c16: "lnk s 16 = c" "usable s 16" "usable s 48" "MAKE_PTR s 16 = 4112" "MAKE_PTR s 48 = 4144"
    by (simp_all add: s usable_def lnk_def MAKE_PTR_def SHM_PTR_VALID_def)
  have "sq.ring s 16 []" using c16 by (simp add: c sq.ring_def sq.step_def)
  then show ?thesis using shmqueue_refines_list [of s 16 "[]" 48] c16 unfolding Let_def c [symmetric] s [symmetric] by simp
qed

text \<open>
  the consistency check in \<open>SHMQueueEmpty\<close> cannot fail, because it assigns instead of comparing.
  On a head whose \<open>prev\<close> is itself, the routine answers that the queue is empty whatever \<open>next\<close>
  is, and overwrites \<open>next\<close>, which drops the elements that were reachable through it.
\<close>

theorem SHMQueueEmpty_overwrites:
  assumes "usable s h" and "h \<noteq> 0" and "prev (lnk s h) = h"
  shows "rets (SHMQueueEmpty s (MAKE_PTR s h)) (\<lambda>(s', r). r \<and> next_off (lnk s' h) = h \<and> sq.ring s' h [])"
  using assms usable_access [OF assms(1)] by (simp add: SHMQueueEmpty_def sq.ring_def sq.step_def)

theorem SHMQueueEmpty_overwrites_witness:
  "let s = \<lparr>ShmemBase = 4096, cells = [16 \<mapsto> \<lparr>prev = 16, next_off = 48\<rparr>, 48 \<mapsto> \<lparr>prev = 16, next_off = 16\<rparr>]\<rparr> in
    next_off (lnk s 16) = 48 \<and> rets (SHMQueueEmpty s 4112) (\<lambda>(s', r). r \<and> next_off (lnk s' 16) = 16)"
proof -
  define s :: shm where s: "s = \<lparr>ShmemBase = 4096, cells = [16 \<mapsto> \<lparr>prev = 16, next_off = 48\<rparr>, 48 \<mapsto> \<lparr>prev = 16, next_off = 16\<rparr>]\<rparr>"
  have "usable s 16" "prev (lnk s 16) = 16" "next_off (lnk s 16) = 48" "MAKE_PTR s 16 = 4112"
    by (simp_all add: s usable_def lnk_def MAKE_PTR_def SHM_PTR_VALID_def)
  then show ?thesis using SHMQueueEmpty_overwrites [of s 16] unfolding Let_def s [symmetric] by (auto elim!: rets_mono)
qed

end
