(* ===== verification/DynaHash.thy ===== *)
theory DynaHash
  imports Prelude
begin

text \<open>
  Dynamic hash tables: \<open>utils/hash/dynahash.c\<close> with \<open>hsearch.h\<close>, on the shared-memory allocator
  \<open>ShmemAlloc\<close> of \<open>storage/ipc/shmem.c\<close>. A table is a directory of segments, a segment an array of
  bucket chains, a chain a list of elements linked by their offset from \<open>segbase\<close>; offset 0
  ends a chain. Removed elements go to a free list of the table. The table grows by one bucket
  at a time: \<open>expand_table\<close> splits the bucket whose number differs from the new one in the top bit.

  Keys, data and the hash function are those of the user of the table. The outer \<open>None\<close> is a
  failed \<open>Assert\<close> (the code prints a message and goes on; the model does not follow such a run) or an access to memory the table does not own. The directory is kept
  apart from the segments and elements, and is taken to have \<open>dsize\<close> entries.
\<close>

subsection \<open>Data\<close>

record ('k, 'v) ELEMENT =
  nxt :: nat
  ekey :: 'k
  edata :: 'v

text \<open>
  The control block \<open>HHDR\<close>, the handle \<open>HTAB\<close> and the memory they live in. \<open>fresh\<close> is what memory
  holds, before the table first writes it, at the place of a key and its data.
\<close>

record ('k, 'v) HTAB =
  hash :: "'k \<Rightarrow> int"
  dsize :: nat
  ssize :: nat
  sshift :: nat
  max_bucket :: nat
  high_mask :: nat
  low_mask :: nat
  ffactor :: nat
  nkeys :: nat
  nsegs :: nat
  keysize :: nat
  datasize :: nat
  max_dsize :: int
  freeBucketIndex :: nat
  dir :: "nat \<rightharpoonup> nat list"
  elems :: "nat \<rightharpoonup> ('k, 'v) ELEMENT"
  fresh :: "nat \<Rightarrow> 'k \<times> 'v"
  ShmemFreeStart :: nat
  ShmemSize :: nat

definition INVALID_INDEX :: nat where "INVALID_INDEX = 0"
definition NO_MAX_DSIZE :: int where "NO_MAX_DSIZE = -1"
definition BUCKET_ALLOC_INCR :: nat where "BUCKET_ALLOC_INCR = 30"
definition DEF_SEGSIZE :: nat where "DEF_SEGSIZE = 256"
definition DEF_SEGSIZE_SHIFT :: nat where "DEF_SEGSIZE_SHIFT = 8"
definition DEF_DIRSIZE :: nat where "DEF_DIRSIZE = 256"
definition DEF_FFACTOR :: nat where "DEF_FFACTOR = 1"

datatype HASHACTION = HASH_FIND | HASH_ENTER | HASH_REMOVE | HASH_FIND_SAVE | HASH_REMOVE_SAVED

text \<open>A \<open>BUCKET_INDEX *\<close>: the slot of a bucket in a segment, or the \<open>next\<close> field of an element.\<close>

datatype link = Slot nat nat | NextOf nat

definition get_link :: "('k, 'v) HTAB \<Rightarrow> link \<Rightarrow> nat option" where
  "get_link h l = (case l of Slot s i \<Rightarrow> (do { seg \<leftarrow> dir h s; arr_get seg i }) | NextOf e \<Rightarrow> map_option nxt (elems h e))"

definition set_link :: "('k, 'v) HTAB \<Rightarrow> link \<Rightarrow> nat \<Rightarrow> ('k, 'v) HTAB option" where
  "set_link h l v = (case l of
     Slot s i \<Rightarrow> (do { seg \<leftarrow> dir h s; seg' \<leftarrow> arr_set seg i v; Some (h\<lparr>dir := (dir h)(s \<mapsto> seg')\<rparr>) })
   | NextOf x \<Rightarrow> map_option (\<lambda>e. h\<lparr>elems := (elems h)(x \<mapsto> e\<lparr>nxt := v\<rparr>)\<rparr>) (elems h x))"

subsection \<open>Allocation\<close>

text \<open>\<open>Some (h, None)\<close> is the null pointer, a block is given by its offset.\<close>

definition ShmemAlloc :: "('k, 'v) HTAB \<Rightarrow> nat \<Rightarrow> (('k, 'v) HTAB \<times> nat option) option" where
  "ShmemAlloc h sz =
     (let sz = (if sz mod 8 \<noteq> 0 then sz + (8 - sz mod 8) else sz) in
      if ShmemFreeStart h = 0 then None
      else if ShmemFreeStart h + sz \<le> ShmemSize h
      then Some (h\<lparr>ShmemFreeStart := ShmemFreeStart h + sz\<rparr>, Some (ShmemFreeStart h))
      else Some (h, None))"

text \<open>The new segment, all slots empty; \<open>None\<close> inside when memory is exhausted.\<close>

definition seg_alloc :: "('k, 'v) HTAB \<Rightarrow> (('k, 'v) HTAB \<times> nat list option) option" where
  "seg_alloc h = do {
     (h, p) \<leftarrow> ShmemAlloc h (8 * ssize h);
     Some (h, map_option (\<lambda>_. replicate (ssize h) INVALID_INDEX) p)
   }"

definition bucket_size :: "('k, 'v) HTAB \<Rightarrow> nat" where
  "bucket_size h = (let n = 8 + keysize h + datasize h in n + (8 - n mod 8))"

text \<open>
  \<open>n\<close> elements from offset \<open>i\<close> on, each linked to the one behind it and the last to \<open>lastIndex\<close>. The loop
  of \<open>bucket_alloc\<close> visits all elements but one, and the final assignment goes to the last element visited: the very last
  element of the block is never linked.
\<close>

primrec chunk :: "nat \<Rightarrow> nat \<Rightarrow> (nat \<Rightarrow> 'k \<times> 'v) \<Rightarrow> nat \<Rightarrow> nat \<Rightarrow> (nat \<rightharpoonup> ('k, 'v) ELEMENT) \<Rightarrow> (nat \<rightharpoonup> ('k, 'v) ELEMENT)" where
  "chunk bs lastIndex fr 0 i m = m"
| "chunk bs lastIndex fr (Suc n) i m =
     chunk bs lastIndex fr n (i + bs)
       (m(i \<mapsto> \<lparr>nxt = (if n = 0 then lastIndex else i + bs), ekey = fst (fr i), edata = snd (fr i)\<rparr>))"

definition bucket_alloc :: "('k, 'v) HTAB \<Rightarrow> (('k, 'v) HTAB \<times> bool) option" where
  "bucket_alloc h = do {
     (h, p) \<leftarrow> ShmemAlloc h (BUCKET_ALLOC_INCR * bucket_size h);
     case p of None \<Rightarrow> Some (h, False)
     | Some tmpIndex \<Rightarrow>
         Some (h\<lparr>freeBucketIndex := tmpIndex,
                 elems := chunk (bucket_size h) (freeBucketIndex h) (fresh h) (BUCKET_ALLOC_INCR - 1) tmpIndex (elems h)\<rparr>, True)
   }"

subsection \<open>Hashing a key to its bucket\<close>

definition call_hash :: "('k, 'v) HTAB \<Rightarrow> 'k \<Rightarrow> nat" where
  "call_hash h k =
     (let bucket = hash h k AND int (high_mask h);
          bucket = (if bucket > int (max_bucket h) then bucket AND int (low_mask h) else bucket)
      in nat bucket mod 2 ^ 32)"

definition bucket_slot :: "('k, 'v) HTAB \<Rightarrow> nat \<Rightarrow> link" where
  "bucket_slot h bucket = Slot (drop_bit (sshift h) bucket) (bucket AND (ssize h - 1))"

subsection \<open>Growing the table\<close>

text \<open>
  \<open>dir_realloc\<close> gives up on a table of fixed size. Otherwise it copies from and clears beyond the
  first segment instead of the directory, which leaves the memory of the table: no result.
\<close>

definition dir_realloc :: "('k, 'v) HTAB \<Rightarrow> (('k, 'v) HTAB \<times> bool) option" where
  "dir_realloc h = (if max_dsize h \<noteq> NO_MAX_DSIZE then Some (h, False) else None)"

text \<open>The loop that relocates the records of a split bucket; \<open>old\<close> and \<open>newbi\<close> are the links to write next.\<close>

partial_function (option) relocate :: "('k, 'v) HTAB \<Rightarrow> nat \<Rightarrow> link \<Rightarrow> link \<Rightarrow> nat \<Rightarrow> ('k, 'v) HTAB option" where
  "relocate h old_bucket old newbi chainIndex =
     (if chainIndex = INVALID_INDEX then Some h
      else do {
        chain \<leftarrow> elems h chainIndex;
        if call_hash h (ekey chain) = old_bucket then do {
          h \<leftarrow> set_link h old chainIndex;
          h \<leftarrow> set_link h (NextOf chainIndex) INVALID_INDEX;
          relocate h old_bucket (NextOf chainIndex) newbi (nxt chain)
        } else do {
          h \<leftarrow> set_link h newbi chainIndex;
          h \<leftarrow> set_link h (NextOf chainIndex) INVALID_INDEX;
          relocate h old_bucket old (NextOf chainIndex) (nxt chain)
        }
      })"

text \<open>The segment of the new bucket, allocated if it is missing; \<open>False\<close> when memory is exhausted.\<close>

definition new_segment :: "('k, 'v) HTAB \<Rightarrow> nat \<Rightarrow> (('k, 'v) HTAB \<times> bool) option" where
  "new_segment h new_segnum =
     (if new_segnum \<ge> nsegs h then do {
        (h, _) \<leftarrow> (if new_segnum \<ge> dsize h then dir_realloc h else Some (h, True));
        (h, seg) \<leftarrow> seg_alloc h;
        if new_segnum \<ge> dsize h then None
        else (case seg of None \<Rightarrow> Some (h\<lparr>dir := (dir h)(new_segnum := None)\<rparr>, False)
              | Some seg \<Rightarrow> Some (h\<lparr>dir := (dir h)(new_segnum \<mapsto> seg), nsegs := nsegs h + 1\<rparr>, True))
      } else Some (h, True))"

text \<open>Starting a new doubling.\<close>

definition adjust_masks :: "('k, 'v) HTAB \<Rightarrow> nat \<Rightarrow> ('k, 'v) HTAB" where
  "adjust_masks h new_bucket =
     (if new_bucket > high_mask h then h\<lparr>low_mask := high_mask h, high_mask := new_bucket OR high_mask h\<rparr> else h)"

definition expand_table :: "('k, 'v) HTAB \<Rightarrow> (('k, 'v) HTAB \<times> bool) option" where
  "expand_table h = do {
     h \<leftarrow> Some (h\<lparr>max_bucket := max_bucket h + 1\<rparr>);
     new_bucket \<leftarrow> Some (max_bucket h);
     old_bucket \<leftarrow> Some (max_bucket h AND low_mask h);
     (h, ok) \<leftarrow> new_segment h (drop_bit (sshift h) new_bucket);
     if \<not> ok then Some (h, False)
     else do {
       h \<leftarrow> Some (adjust_masks h new_bucket);
       c \<leftarrow> get_link h (bucket_slot h old_bucket);
       h \<leftarrow> relocate h old_bucket (bucket_slot h old_bucket) (bucket_slot h new_bucket) c;
       Some (h, True)
     }
   }"

subsection \<open>Searching\<close>

text \<open>Follow the collision chain: the link to the element found, or to the end of the chain, and the index there.\<close>

partial_function (option) find_chain :: "('k, 'v) HTAB \<Rightarrow> 'k \<Rightarrow> link \<Rightarrow> nat \<Rightarrow> (link \<times> nat) option" where
  "find_chain h key prevIndexPtr currIndex =
     (if currIndex = INVALID_INDEX then Some (prevIndexPtr, currIndex)
      else do {
        curr \<leftarrow> elems h currIndex;
        if ekey curr = key then Some (prevIndexPtr, currIndex)
        else find_chain h key (NextOf currIndex) (nxt curr)
      })"

text \<open>
  The pointer \<open>hash_search\<close> returns: null, the constant \<open>TRUE\<close>, or the key field of an element. The
  static \<open>saveState\<close> of the routine is passed along.
\<close>

datatype result = Null | True_Ptr | KeyOf nat

type_synonym save_state = "(nat \<times> link) option"

definition hash_remove :: "('k, 'v) HTAB \<Rightarrow> link \<Rightarrow> nat \<Rightarrow> ('k, 'v) HTAB option" where
  "hash_remove h prevIndexPtr currIndex =
     (if nkeys h = 0 then None
      else do {
        h \<leftarrow> Some (h\<lparr>nkeys := nkeys h - 1\<rparr>);
        curr \<leftarrow> elems h currIndex;
        h \<leftarrow> set_link h prevIndexPtr (nxt curr);
        h \<leftarrow> set_link h (NextOf currIndex) (freeBucketIndex h);
        Some (h\<lparr>freeBucketIndex := currIndex\<rparr>)
      })"

definition hash_enter :: "('k, 'v) HTAB \<Rightarrow> 'k \<Rightarrow> link \<Rightarrow> (('k, 'v) HTAB \<times> result) option" where
  "hash_enter h key prevIndexPtr = do {
     (h, ok) \<leftarrow> (if freeBucketIndex h = INVALID_INDEX then bucket_alloc h else Some (h, True));
     if \<not> ok then Some (h, Null)
     else if freeBucketIndex h = INVALID_INDEX then None
     else do {
       currIndex \<leftarrow> Some (freeBucketIndex h);
       curr \<leftarrow> elems h currIndex;
       h \<leftarrow> Some (h\<lparr>freeBucketIndex := nxt curr\<rparr>);
       h \<leftarrow> set_link h prevIndexPtr currIndex;
       curr \<leftarrow> elems h currIndex;
       h \<leftarrow> Some (h\<lparr>elems := (elems h)(currIndex \<mapsto> curr\<lparr>ekey := key, nxt := INVALID_INDEX\<rparr>), nkeys := nkeys h + 1\<rparr>);
       (h, ok) \<leftarrow> (if nkeys h div (max_bucket h + 1) > ffactor h then expand_table h else Some (h, True));
       Some (h, if ok then KeyOf currIndex else Null)
     }
   }"

definition hash_search ::
    "('k, 'v) HTAB \<Rightarrow> 'k \<Rightarrow> HASHACTION \<Rightarrow> save_state \<Rightarrow> (('k, 'v) HTAB \<times> result \<times> bool \<times> save_state) option" where
  "hash_search h key action saved = do {
     (prevIndexPtr, currIndex, saved) \<leftarrow>
       (if action = HASH_REMOVE_SAVED then
          (case saved of None \<Rightarrow> None | Some (i, l) \<Rightarrow> Some (l, i, None))
        else do {
          slot \<leftarrow> Some (bucket_slot h (call_hash h key));
          c \<leftarrow> get_link h slot;
          (l, i) \<leftarrow> find_chain h key slot c;
          Some (l, i, saved)
        });
     found \<leftarrow> Some (currIndex \<noteq> INVALID_INDEX);
     case action of
       HASH_ENTER \<Rightarrow>
         if found then Some (h, KeyOf currIndex, found, saved)
         else do { (h, r) \<leftarrow> hash_enter h key prevIndexPtr; Some (h, r, found, saved) }
     | HASH_FIND \<Rightarrow> Some (h, if found then KeyOf currIndex else True_Ptr, found, saved)
     | HASH_FIND_SAVE \<Rightarrow>
         if found then Some (h, KeyOf currIndex, found, Some (currIndex, prevIndexPtr)) else Some (h, True_Ptr, found, saved)
     | _ \<Rightarrow>
         if found then do { h \<leftarrow> hash_remove h prevIndexPtr currIndex; Some (h, KeyOf currIndex, found, saved) }
         else Some (h, True_Ptr, found, saved)
   }"

text \<open>Reading and setting the data behind the key a search returned.\<close>

definition elem_data :: "('k, 'v) HTAB \<Rightarrow> nat \<Rightarrow> 'v option" where
  "elem_data h i = map_option edata (elems h i)"

definition set_data :: "('k, 'v) HTAB \<Rightarrow> nat \<Rightarrow> 'v \<Rightarrow> ('k, 'v) HTAB option" where
  "set_data h i v = map_option (\<lambda>e. h\<lparr>elems := (elems h)(i \<mapsto> e\<lparr>edata := v\<rparr>)\<rparr>) (elems h i)"

subsection \<open>Creation\<close>

text \<open>The loop of \<open>my_log2\<close>; the \<open>int\<close> variable \<open>limit\<close> does not overflow for arguments up to \<open>2^30\<close>.\<close>

function my_log2_from :: "nat \<Rightarrow> nat \<Rightarrow> nat \<Rightarrow> nat" where
  "my_log2_from num limit i = (if 0 < limit \<and> limit < num then my_log2_from num (2 * limit) (i + 1) else i)"
  by pat_completeness auto
termination by (relation "measure (\<lambda>(num, limit, i). num - limit)") auto

declare my_log2_from.simps [simp del]

definition my_log2 :: "nat \<Rightarrow> nat" where
  "my_log2 num = my_log2_from num 1 0"

definition hdefault :: "('k, 'v) HTAB \<Rightarrow> ('k, 'v) HTAB" where
  "hdefault h = h\<lparr>ssize := DEF_SEGSIZE, sshift := DEF_SEGSIZE_SHIFT, dsize := DEF_DIRSIZE, ffactor := DEF_FFACTOR,
     nkeys := 0, nsegs := 0, keysize := 8, datasize := 8, max_dsize := NO_MAX_DSIZE, freeBucketIndex := INVALID_INDEX,
     max_bucket := 0, high_mask := 0, low_mask := 0\<rparr>"

text \<open>\<open>segp\<close> runs along the directory while segments are missing. A failure ends in \<open>hash_destroy\<close>, which cannot destroy a shared table.\<close>

primrec init_segs :: "nat \<Rightarrow> nat \<Rightarrow> ('k, 'v) HTAB \<Rightarrow> ('k, 'v) HTAB option" where
  "init_segs 0 segp h = Some h"
| "init_segs (Suc n) segp h = do {
     (h, seg) \<leftarrow> seg_alloc h;
     case seg of None \<Rightarrow> None
     | Some seg \<Rightarrow> init_segs n (segp + 1) (h\<lparr>dir := (dir h)(segp \<mapsto> seg), nsegs := nsegs h + 1\<rparr>)
   }"

definition init_htab :: "('k, 'v) HTAB \<Rightarrow> nat \<Rightarrow> ('k, 'v) HTAB option" where
  "init_htab h nelem = do {
     nelem \<leftarrow> Some ((nelem - 1) div ffactor h + 1);
     nbuckets \<leftarrow> Some (2 ^ my_log2 nelem);
     h \<leftarrow> Some (h\<lparr>max_bucket := nbuckets - 1, low_mask := nbuckets - 1, high_mask := 2 * nbuckets - 1\<rparr>);
     n \<leftarrow> Some ((nbuckets - 1) div ssize h + 1);
     n \<leftarrow> Some (2 ^ my_log2 n);
     h \<leftarrow> Some (if n > dsize h then h\<lparr>dsize := n\<rparr> else h);
     init_segs (n - nsegs h) 0 h
   }"

text \<open>
  The parameters of \<open>hash_create\<close>: a field is \<open>None\<close> when its flag is not set. Tables in shared memory
  only (\<open>HASH_SHARED_MEM\<close>), which is how \<open>ShmemInitHash\<close> calls it: the control block and the directory
  are preallocated, and a table that exists already is attached to as it is.
\<close>

record 'k HASHCTL =
  HASH_FUNCTION :: "('k \<Rightarrow> int) option"
  HASH_SEGMENT :: "nat option"
  HASH_FFACTOR :: "nat option"
  HASH_DIRSIZE :: "(nat \<times> nat) option"
  HASH_ELEM :: "(nat \<times> nat) option"
  HASH_ATTACH :: bool

definition hash_create :: "('k, 'v) HTAB \<Rightarrow> nat \<Rightarrow> 'k HASHCTL \<Rightarrow> ('k \<Rightarrow> int) \<Rightarrow> ('k, 'v) HTAB option" where
  "hash_create h nelem info string_hash =
     (let h = h\<lparr>hash := (case HASH_FUNCTION info of Some f \<Rightarrow> f | None \<Rightarrow> string_hash)\<rparr> in
      if HASH_ATTACH info then Some h
      else
        let h = hdefault h;
            h = (case HASH_SEGMENT info of Some n \<Rightarrow> h\<lparr>ssize := n, sshift := my_log2 n\<rparr> | None \<Rightarrow> h);
            h = (case HASH_FFACTOR info of Some n \<Rightarrow> h\<lparr>ffactor := n\<rparr> | None \<Rightarrow> h);
            h = (case HASH_DIRSIZE info of Some (m, d) \<Rightarrow> h\<lparr>max_dsize := int (my_log2 m), dsize := my_log2 d\<rparr> | None \<Rightarrow> h);
            h = (case HASH_ELEM info of Some (k, d) \<Rightarrow> h\<lparr>keysize := k, datasize := d\<rparr> | None \<Rightarrow> h)
        in init_htab h nelem)"

subsection \<open>Sequential scan\<close>

text \<open>The static variables of \<open>hash_seq\<close> are passed along; a call with a null pointer resets them to zero.\<close>

partial_function (option) hash_seq :: "('k, 'v) HTAB \<Rightarrow> nat \<Rightarrow> nat \<Rightarrow> (result \<times> nat \<times> nat) option" where
  "hash_seq h curBucket curIndex =
     (if curBucket \<le> max_bucket h then
        if curIndex \<noteq> INVALID_INDEX then do {
          e \<leftarrow> elems h curIndex;
          Some (KeyOf curIndex, if nxt e = INVALID_INDEX then curBucket + 1 else curBucket, nxt e)
        } else do {
          c \<leftarrow> get_link h (bucket_slot h curBucket);
          hash_seq h (if c = INVALID_INDEX then curBucket + 1 else curBucket) c
        }
      else Some (True_Ptr, curBucket, curIndex))"

declare relocate.simps [code] find_chain.simps [code] hash_seq.simps [code]

end
