(* ===== verification/DynaHash_Inv.thy ===== *)
theory DynaHash_Inv
  imports DynaHash
begin

text \<open>
  Hash tables as finite maps. Chains are described by the list of their elements, the table by
  one list per bucket and one for the free list. Under the invariant every search returns,
  and finding, entering and removing act on the map from keys to data the table stands for.
\<close>

subsection \<open>Links and what a write to one changes\<close>

lemma set_link_SomeD:
  assumes "set_link h l v = Some h'"
  shows "get_link h' l' = (if l' = l then Some v else get_link h l')"
    and "\<exists>d e. h' = h\<lparr>dir := d, elems := e\<rparr> \<and> (\<forall>i. map_option (\<lambda>x. (ekey x, edata x)) (e i) = map_option (\<lambda>x. (ekey x, edata x)) (elems h i))"
    and "map_option length (dir h' s) = map_option length (dir h s)"
  using assms
  by (auto simp: set_link_def get_link_def arr_get_def arr_set_def split: link.splits if_splits bind_splits option.splits
      intro!: exI [of _ "dir h'"] exI [of _ "elems h'"] HTAB.equality)

lemma set_link_returns: "get_link h l = Some w \<Longrightarrow> \<exists>h'. set_link h l v = Some h'"
  by (auto simp: set_link_def get_link_def arr_get_def arr_set_def split: link.splits if_splits bind_splits)

definition key_at :: "('k, 'v) HTAB \<Rightarrow> nat \<Rightarrow> 'k" where "key_at h i = ekey (the (elems h i))"
definition data_at :: "('k, 'v) HTAB \<Rightarrow> nat \<Rightarrow> 'v" where "data_at h i = edata (the (elems h i))"

text \<open>Two tables with the same control block and the same keys and data; only links differ.\<close>

definition relinked :: "('k, 'v) HTAB \<Rightarrow> ('k, 'v) HTAB \<Rightarrow> bool" where
  "relinked h h' \<longleftrightarrow> h' = h\<lparr>dir := dir h', elems := elems h'\<rparr> \<and> key_at h' = key_at h \<and> data_at h' = data_at h \<and> dom (elems h') = dom (elems h)
     \<and> (\<forall>s. map_option length (dir h' s) = map_option length (dir h s))"

lemma set_link_relinked: "set_link h l v = Some h' \<Longrightarrow> relinked h h'"
proof -
  assume s: "set_link h l v = Some h'"
  obtain d e where h': "h' = h\<lparr>dir := d, elems := e\<rparr>"
    and e: "\<And>i. map_option (\<lambda>x. (ekey x, edata x)) (e i) = map_option (\<lambda>x. (ekey x, edata x)) (elems h i)"
    using set_link_SomeD(2) [OF s] by blast
  have "(e i = None) = (elems h i = None) \<and> ekey (the (e i)) = ekey (the (elems h i)) \<and> edata (the (e i)) = edata (the (elems h i))" for i
    using e [of i] by (cases "e i"; cases "elems h i") auto
  then show ?thesis
    using h' set_link_SomeD(3) [OF s] by (auto simp: relinked_def key_at_def data_at_def fun_eq_iff dom_def)
qed

lemma relinked_refl: "relinked h h"
  unfolding relinked_def by (intro conjI) auto

lemma relinked_free:
  assumes "relinked h h'"
  shows "relinked (h\<lparr>freeBucketIndex := f\<rparr>) (h'\<lparr>freeBucketIndex := f\<rparr>)"
proof -
  obtain d e where h': "h' = h\<lparr>dir := d, elems := e\<rparr>" using assms unfolding relinked_def by blast
  show ?thesis using assms unfolding relinked_def h' key_at_def data_at_def by (cases h) (simp add: fun_eq_iff)
qed

lemma relinked_trans:
  assumes "relinked h h'" and "relinked h' h''"
  shows "relinked h h''"
proof -
  have "h'' = h\<lparr>dir := dir h', elems := elems h', dir := dir h'', elems := elems h''\<rparr>"
    using assms unfolding relinked_def by metis
  then have "h'' = h\<lparr>dir := dir h'', elems := elems h''\<rparr>" by (cases h) auto
  then show ?thesis using assms unfolding relinked_def by auto
qed

lemma relinked_simps:
  assumes "relinked h h'"
  shows "call_hash h' = call_hash h" and "bucket_slot h' = bucket_slot h" and "key_at h' = key_at h" and "data_at h' = data_at h"
    and "max_bucket h' = max_bucket h" and "nkeys h' = nkeys h" and "freeBucketIndex h' = freeBucketIndex h"
    and "ffactor h' = ffactor h" and "dom (elems h') = dom (elems h)" and "ShmemFreeStart h' = ShmemFreeStart h"
    and "ssize h' = ssize h" "sshift h' = sshift h" "low_mask h' = low_mask h" "high_mask h' = high_mask h" "nsegs h' = nsegs h"
    and "hash h' = hash h" "dsize h' = dsize h" "ShmemSize h' = ShmemSize h" "keysize h' = keysize h" "datasize h' = datasize h"
    and "map_option length (dir h' s) = map_option length (dir h s)"
proof -
  obtain d e where h: "h' = h\<lparr>dir := d, elems := e\<rparr>" using assms unfolding relinked_def by blast
  show "call_hash h' = call_hash h" "bucket_slot h' = bucket_slot h" by (simp_all add: h fun_eq_iff call_hash_def bucket_slot_def Let_def)
  show "key_at h' = key_at h" "data_at h' = data_at h" "dom (elems h') = dom (elems h)"
    "map_option length (dir h' s) = map_option length (dir h s)" using assms by (simp_all add: relinked_def)
  show "max_bucket h' = max_bucket h" "nkeys h' = nkeys h" "freeBucketIndex h' = freeBucketIndex h"
    "ffactor h' = ffactor h" "ShmemFreeStart h' = ShmemFreeStart h"
    "ssize h' = ssize h" "sshift h' = sshift h" "low_mask h' = low_mask h" "high_mask h' = high_mask h" "nsegs h' = nsegs h"
    "hash h' = hash h" "dsize h' = dsize h" "ShmemSize h' = ShmemSize h" "keysize h' = keysize h" "datasize h' = datasize h"
    by (simp_all add: h)
qed

subsection \<open>Chains\<close>

primrec chain :: "(link \<Rightarrow> nat option) \<Rightarrow> link \<Rightarrow> nat list \<Rightarrow> bool" where
  "chain L p [] = (L p = Some 0)"
| "chain L p (x # xs) = (L p = Some x \<and> x \<noteq> 0 \<and> chain L (NextOf x) xs)"

definition chain_from :: "(link \<Rightarrow> nat option) \<Rightarrow> nat \<Rightarrow> nat list \<Rightarrow> bool" where
  "chain_from L v xs \<longleftrightarrow> (case xs of [] \<Rightarrow> v = 0 | x # ys \<Rightarrow> v = x \<and> x \<noteq> 0 \<and> chain L (NextOf x) ys)"

definition link_after :: "link \<Rightarrow> nat list \<Rightarrow> link" where
  "link_after p as = (if as = [] then p else NextOf (last as))"

definition first_or_0 :: "nat list \<Rightarrow> nat" where
  "first_or_0 xs = (case xs of [] \<Rightarrow> 0 | x # _ \<Rightarrow> x)"

lemma link_after_Cons [simp]: "link_after p (x # xs) = link_after (NextOf x) xs"
  by (simp add: link_after_def)

lemma link_after_Nil [simp]: "link_after p [] = p"
  by (simp add: link_after_def)

lemma link_after_mem: "link_after p as \<in> insert p (NextOf ` set as)"
  by (simp add: link_after_def)

lemma chain_iff_from: "chain L p xs \<longleftrightarrow> (\<exists>v. L p = Some v \<and> chain_from L v xs)"
  by (cases xs) (auto simp: chain_from_def)

lemma chain_head: "chain L p xs \<Longrightarrow> L p = Some (first_or_0 xs)"
  by (cases xs) (auto simp: first_or_0_def)

lemma chain_from_head: "chain_from L v xs \<Longrightarrow> v = first_or_0 xs"
  by (cases xs) (auto simp: chain_from_def first_or_0_def)

lemma chain_append: "chain L p (as @ bs) \<Longrightarrow> chain L (link_after p as) bs"
  by (induction as arbitrary: p) auto

lemma chain_nonzero: "chain L p xs \<Longrightarrow> 0 \<notin> set xs"
  by (induction xs arbitrary: p) auto

lemma chain_frame:
  assumes "chain L p xs" and "\<And>q. q \<in> insert p (NextOf ` set xs) \<Longrightarrow> L' q = L q"
  shows "chain L' p xs"
  using assms by (induction xs arbitrary: p) auto

lemma chain_from_frame:
  assumes "chain_from L v xs" and "\<And>q. q \<in> NextOf ` set xs \<Longrightarrow> L' q = L q"
  shows "chain_from L' v xs"
  using assms chain_frame [of L _ _ L'] by (cases xs) (auto simp: chain_from_def)

text \<open>One write behind \<open>as\<close> replaces the rest of the chain.\<close>

lemma chain_write:
  assumes "chain L p (as @ bs)" and "distinct as" and "p \<notin> NextOf ` set as"
    and L': "\<And>q. q \<in> insert p (NextOf ` set as) \<Longrightarrow> L' q = (if q = link_after p as then Some v else L q)"
    and "chain_from L' v cs"
  shows "chain L' p (as @ cs)"
  using assms
proof (induction as arbitrary: p)
  case Nil
  then show ?case by (auto simp: chain_iff_from)
next
  case (Cons a as)
  have "link_after (NextOf a) as \<noteq> p" using link_after_mem [of "NextOf a" as] Cons.prems(3) by auto
  then have "L' p = L p" using Cons.prems(4) [of p] by simp
  moreover have "chain L' (NextOf a) (as @ cs)"
    by (rule Cons.IH) (use Cons.prems in auto)
  ultimately show ?case using Cons.prems(1) by simp
qed

lemma find_chain_eq:
  assumes "chain (get_link h) p xs"
  shows "find_chain h key p (first_or_0 xs) =
    Some (link_after p (takeWhile (\<lambda>i. key_at h i \<noteq> key) xs), first_or_0 (dropWhile (\<lambda>i. key_at h i \<noteq> key) xs))"
  using assms
proof (induction xs arbitrary: p)
  case Nil
  then show ?case by (subst find_chain.simps) (simp add: first_or_0_def INVALID_INDEX_def)
next
  case (Cons x xs)
  then have "get_link h (NextOf x) = Some (first_or_0 xs)" by (simp add: chain_head)
  then obtain e where e: "elems h x = Some e" "nxt e = first_or_0 xs" by (auto simp: get_link_def)
  then show ?case
    using Cons by (subst find_chain.simps) (simp add: first_or_0_def INVALID_INDEX_def key_at_def)
qed

subsection \<open>The shape of a table\<close>

text \<open>The masks are those of linear hashing, segments have a power of two slots, and unused slots are empty.\<close>

definition geometry :: "('k, 'v) HTAB \<Rightarrow> bool" where
  "geometry h \<longleftrightarrow> (\<exists>k. low_mask h = 2 ^ k - 1 \<and> high_mask h = 2 ^ (k + 1) - 1 \<and> low_mask h \<le> max_bucket h \<and> max_bucket h \<le> high_mask h) \<and>
     high_mask h < 2 ^ 32 \<and> ssize h = 2 ^ sshift h"

lemma slot_eq: "geometry h \<Longrightarrow> bucket_slot h b = Slot (b div ssize h) (b mod ssize h)"
  using take_bit_eq_mask [of "sshift h" b] mask_eq_exp_minus_1 [of "sshift h", where 'a = nat]
  by (simp add: bucket_slot_def geometry_def drop_bit_eq_div take_bit_eq_mod)

lemma slot_inj: "geometry h \<Longrightarrow> bucket_slot h b = bucket_slot h c \<longleftrightarrow> b = c"
  by (metis slot_eq link.inject(1) div_mult_mod_eq)

lemma and_mask_int: "x AND int (2 ^ k - 1) = x mod 2 ^ k"
  by (simp add: of_nat_diff take_bit_eq_mod flip: take_bit_eq_mask mask_eq_exp_minus_1)

text \<open>\<open>call_hash\<close> in arithmetic: modulo the larger power of two if that bucket exists, else modulo the smaller.\<close>

lemma call_hash_eq:
  assumes "geometry h" and "low_mask h = 2 ^ k - 1" and "high_mask h = 2 ^ (k + 1) - 1"
  shows "call_hash h x = (if nat (hash h x mod 2 ^ (k + 1)) > max_bucket h then nat (hash h x mod 2 ^ k) else nat (hash h x mod 2 ^ (k + 1)))"
proof -
  have m: "hash h x mod 2 ^ (k + 1) mod 2 ^ k = hash h x mod 2 ^ k"
    by (rule mod_mod_cancel) (simp add: le_imp_power_dvd)
  have "2 ^ (k + 1) - 1 < (2 :: nat) ^ 32" using assms by (simp add: geometry_def)
  then have "2 ^ (k + 1) \<le> (2 :: nat) ^ 32" by linarith
  then have k: "k + 1 \<le> 32" by (rule power_le_imp_le_exp [rotated]) simp
  have b: "nat (hash h x mod 2 ^ j) < 2 ^ 32" if "j \<le> 32" for j
  proof -
    have "hash h x mod 2 ^ j < 2 ^ j" by simp
    also have "\<dots> \<le> 2 ^ 32" using that by (rule power_increasing) simp
    finally show ?thesis by (simp add: nat_less_iff)
  qed
  show ?thesis
    unfolding call_hash_def Let_def assms and_mask_int using m b [of k] b [of "k + 1"] k
    by (simp add: zless_nat_eq_int_zless)
qed

lemma call_hash_le: "geometry h \<Longrightarrow> call_hash h x \<le> max_bucket h"
proof -
  assume g: "geometry h"
  then obtain k where k: "low_mask h = 2 ^ k - 1" "high_mask h = 2 ^ (k + 1) - 1" "low_mask h \<le> max_bucket h" by (auto simp: geometry_def)
  have "nat (hash h x mod 2 ^ k) < 2 ^ k" by (simp add: nat_less_iff)
  then have "nat (hash h x mod 2 ^ k) \<le> max_bucket h" using k(1,3) by linarith
  then show ?thesis using call_hash_eq [OF g k(1,2), of x] by auto
qed

definition hash_inv :: "('k, 'v) HTAB \<Rightarrow> (nat \<Rightarrow> nat list) \<Rightarrow> nat list \<Rightarrow> bool" where
  "hash_inv h C F \<longleftrightarrow> geometry h \<and>
     (\<forall>b\<le>max_bucket h. chain (get_link h) (bucket_slot h b) (C b) \<and> distinct (C b) \<and> distinct (map (key_at h) (C b)) \<and>
       (\<forall>x\<in>set (C b). call_hash h (key_at h x) = b) \<and> set (C b) \<inter> set F = {}) \<and>
     chain_from (get_link h) (freeBucketIndex h) F \<and> distinct F \<and>
     (\<forall>b\<le>max_bucket h. \<forall>c\<le>max_bucket h. b \<noteq> c \<longrightarrow> set (C b) \<inter> set (C c) = {}) \<and>
     nkeys h = (\<Sum>b\<le>max_bucket h. length (C b)) \<and>
     0 < ShmemFreeStart h \<and> (\<forall>i\<in>dom (elems h). i < ShmemFreeStart h) \<and>
     (\<forall>b>max_bucket h. get_link h (bucket_slot h b) \<in> {None, Some 0}) \<and>
     (\<forall>s. map_option length (dir h s) = (if s < nsegs h then Some (ssize h) else None))"

text \<open>The map a table stands for.\<close>

definition table :: "('k, 'v) HTAB \<Rightarrow> (nat \<Rightarrow> nat list) \<Rightarrow> 'k \<rightharpoonup> 'v" where
  "table h C k = map_of (map (\<lambda>i. (key_at h i, data_at h i)) (C (call_hash h k))) k"

lemma table_None: "table h C k = None \<longleftrightarrow> (\<forall>i\<in>set (C (call_hash h k)). key_at h i \<noteq> k)"
  by (auto simp: table_def map_of_eq_None_iff image_image)

text \<open>Reading the invariant.\<close>

lemma hash_invD:
  assumes "hash_inv h C F"
  shows "geometry h" and "chain_from (get_link h) (freeBucketIndex h) F" and "distinct F"
    and "nkeys h = (\<Sum>b\<le>max_bucket h. length (C b))" and "0 < ShmemFreeStart h" and "i \<in> dom (elems h) \<Longrightarrow> i < ShmemFreeStart h"
    and "\<lbrakk>b \<le> max_bucket h; c \<le> max_bucket h; b \<noteq> c\<rbrakk> \<Longrightarrow> set (C b) \<inter> set (C c) = {}"
    and "max_bucket h < b \<Longrightarrow> get_link h (bucket_slot h b) \<in> {None, Some 0}" and "map_option length (dir h s) = (if s < nsegs h then Some (ssize h) else None)"
  using assms by (auto simp: hash_inv_def)

lemma hash_inv_bucket:
  assumes "hash_inv h C F" and "b \<le> max_bucket h"
  shows "chain (get_link h) (bucket_slot h b) (C b)" and "distinct (C b)" and "distinct (map (key_at h) (C b))"
    and "x \<in> set (C b) \<Longrightarrow> call_hash h (key_at h x) = b" and "set (C b) \<inter> set F = {}"
  using assms by (auto simp: hash_inv_def)

lemma hash_inv_call: "hash_inv h C F \<Longrightarrow> call_hash h k \<le> max_bucket h"
  by (rule call_hash_le [OF hash_invD(1)])

lemma chain_elems: "chain (get_link h) p xs \<Longrightarrow> x \<in> set xs \<Longrightarrow> x \<in> dom (elems h)"
proof (induction xs arbitrary: p)
  case (Cons y xs)
  then have "get_link h (NextOf y) = Some (first_or_0 xs)" by (simp add: chain_head)
  then have "y \<in> dom (elems h)" by (auto simp: get_link_def)
  then show ?case using Cons by auto
qed simp

lemma hash_inv_elems: "hash_inv h C F \<Longrightarrow> x \<in> set (C b) \<Longrightarrow> b \<le> max_bucket h \<Longrightarrow> x \<in> dom (elems h)"
  by (rule chain_elems [OF hash_inv_bucket(1)])

lemma table_Some:
  assumes "hash_inv h C F" and "i \<in> set (C (call_hash h k))" and "key_at h i = k"
  shows "table h C k = Some (data_at h i)"
proof -
  have "distinct (map (key_at h) (C (call_hash h k)))"
    by (rule hash_inv_bucket(3) [OF assms(1) hash_inv_call [OF assms(1)]])
  then have "distinct (map fst (map (\<lambda>i. (key_at h i, data_at h i)) (C (call_hash h k))))" by (simp add: comp_def)
  then show ?thesis unfolding table_def using assms(2,3) by (intro map_of_is_SomeI) auto
qed

subsection \<open>Finding\<close>

text \<open>The search for a key splits the chain of its bucket.\<close>

lemma search_split:
  assumes inv: "hash_inv h C F" and b: "b = call_hash h k"
  obtains as bs where "C b = as @ bs" and "\<forall>i\<in>set as. key_at h i \<noteq> k" and "bs = [] \<or> key_at h (hd bs) = k"
    and "get_link h (bucket_slot h b) = Some (first_or_0 (C b))"
    and "find_chain h k (bucket_slot h b) (first_or_0 (C b)) = Some (link_after (bucket_slot h b) as, first_or_0 bs)"
proof -
  have c: "chain (get_link h) (bucket_slot h b) (C b)" using hash_inv_bucket(1) [OF inv] hash_inv_call [OF inv, of k] b by simp
  let ?as = "takeWhile (\<lambda>i. key_at h i \<noteq> k) (C b)" and ?bs = "dropWhile (\<lambda>i. key_at h i \<noteq> k) (C b)"
  show thesis
  proof (rule that [of ?as ?bs])
    show "\<forall>i\<in>set ?as. key_at h i \<noteq> k" by (auto dest: set_takeWhileD)
    show "?bs = [] \<or> key_at h (hd ?bs) = k" using hd_dropWhile [of "\<lambda>i. key_at h i \<noteq> k" "C b"] by blast
  qed (use chain_head [OF c] find_chain_eq [OF c] in simp_all)
qed

lemma find_ok:
  assumes inv: "hash_inv h C F"
  shows "rets (hash_search h k HASH_FIND sv) (\<lambda>(h', r, found, sv'). h' = h \<and> sv' = sv \<and> found = (table h C k \<noteq> None) \<and>
    (if found then \<exists>i. r = KeyOf i \<and> elem_data h i = table h C k else r = True_Ptr))"
proof -
  define b where "b = call_hash h k"
  obtain as bs where s: "C b = as @ bs" "\<forall>i\<in>set as. key_at h i \<noteq> k" "bs = [] \<or> key_at h (hd bs) = k"
    "get_link h (bucket_slot h b) = Some (first_or_0 (C b))"
    "find_chain h k (bucket_slot h b) (first_or_0 (C b)) = Some (link_after (bucket_slot h b) as, first_or_0 bs)"
    using search_split [OF inv b_def] by blast
  have eq: "hash_search h k HASH_FIND sv = Some (h, if first_or_0 bs \<noteq> 0 then KeyOf (first_or_0 bs) else True_Ptr, first_or_0 bs \<noteq> 0, sv)"
    using s(4,5) by (simp add: hash_search_def INVALID_INDEX_def flip: b_def)
  have c: "chain (get_link h) (bucket_slot h b) (as @ bs)" using hash_inv_bucket(1) [OF inv, of b] hash_inv_call [OF inv, of k] s(1) by (simp add: b_def)
  show ?thesis
  proof (cases bs)
    case Nil
    then have "table h C k = None" using s(1,2) by (simp add: table_None flip: b_def)
    then show ?thesis using eq Nil by (simp add: first_or_0_def)
  next
    case (Cons i cs)
    have "i \<noteq> 0" using chain_nonzero [OF c] Cons by auto
    have "table h C k = Some (data_at h i)" by (rule table_Some [OF inv]) (use s Cons in \<open>auto simp: b_def\<close>)
    moreover have "\<exists>e. elems h i = Some e"
      using chain_append [OF c] Cons by (cases cs) (auto simp: get_link_def)
    ultimately show ?thesis using eq Cons \<open>i \<noteq> 0\<close> by (auto simp: first_or_0_def elem_data_def data_at_def)
  qed
qed

subsection \<open>Changing one bucket\<close>

lemma ctl_simps [simp]:
  "get_link (h\<lparr>nkeys := n\<rparr>) = get_link h" "get_link (h\<lparr>freeBucketIndex := f\<rparr>) = get_link h"
  "key_at (h\<lparr>nkeys := n\<rparr>) = key_at h" "key_at (h\<lparr>freeBucketIndex := f\<rparr>) = key_at h"
  "data_at (h\<lparr>nkeys := n\<rparr>) = data_at h" "data_at (h\<lparr>freeBucketIndex := f\<rparr>) = data_at h"
  "call_hash (h\<lparr>nkeys := n\<rparr>) = call_hash h" "call_hash (h\<lparr>freeBucketIndex := f\<rparr>) = call_hash h" "call_hash (h\<lparr>elems := e\<rparr>) = call_hash h"
  "bucket_slot (h\<lparr>nkeys := n\<rparr>) = bucket_slot h" "bucket_slot (h\<lparr>freeBucketIndex := f\<rparr>) = bucket_slot h" "bucket_slot (h\<lparr>elems := e\<rparr>) = bucket_slot h"
  "geometry (h\<lparr>nkeys := n\<rparr>) = geometry h" "geometry (h\<lparr>freeBucketIndex := f\<rparr>) = geometry h" "geometry (h\<lparr>elems := e\<rparr>) = geometry h"
  by (auto simp: get_link_def key_at_def data_at_def call_hash_def bucket_slot_def geometry_def fun_eq_iff Let_def split: link.splits)

lemma relinked_geometry: "relinked h h' \<Longrightarrow> geometry h' = geometry h"
  by (simp add: geometry_def relinked_simps)

lemma hash_inv_change:
  assumes inv: "hash_inv h C F" and b: "b \<le> max_bucket h"
    and same: "geometry h'" "max_bucket h' = max_bucket h" "call_hash h' = call_hash h" "bucket_slot h' = bucket_slot h"
    and key: "\<And>c x. \<lbrakk>c \<le> max_bucket h; c \<noteq> b; x \<in> set (C c)\<rbrakk> \<Longrightarrow> key_at h' x = key_at h x"
    and link: "\<And>c q. \<lbrakk>c \<le> max_bucket h; c \<noteq> b; q \<in> insert (bucket_slot h c) (NextOf ` set (C c))\<rbrakk> \<Longrightarrow> get_link h' q = get_link h q"
    and xs: "chain (get_link h') (bucket_slot h b) xs" "distinct xs" "distinct (map (key_at h') xs)" "\<And>x. x \<in> set xs \<Longrightarrow> call_hash h (key_at h' x) = b"
    and F': "chain_from (get_link h') (freeBucketIndex h') F'" "distinct F'" "set xs \<inter> set F' = {}"
    and disj: "\<And>c. \<lbrakk>c \<le> max_bucket h; c \<noteq> b\<rbrakk> \<Longrightarrow> set (C c) \<inter> (set xs \<union> set F') = {}"
    and n: "nkeys h' + length (C b) = nkeys h + length xs"
    and mem: "0 < ShmemFreeStart h'" "\<And>i. i \<in> dom (elems h') \<Longrightarrow> i < ShmemFreeStart h'"
    and slots: "\<And>c. max_bucket h < c \<Longrightarrow> get_link h' (bucket_slot h c) = get_link h (bucket_slot h c)"
    and segs: "nsegs h' = nsegs h" "ssize h' = ssize h" "\<And>s. map_option length (dir h' s) = map_option length (dir h s)"
  shows "hash_inv h' (C(b := xs)) F'"
proof -
  have chains: "chain (get_link h') (bucket_slot h c) (C c)" "map (key_at h') (C c) = map (key_at h) (C c)" if "c \<le> max_bucket h" "c \<noteq> b" for c
    using chain_frame [OF hash_inv_bucket(1) [OF inv that(1)] link [OF that]] key [OF that] by auto
  have dk: "distinct (map (key_at h') (C c))" if "c \<le> max_bucket h" "c \<noteq> b" for c
    unfolding chains(2) [OF that] by (rule hash_inv_bucket(3) [OF inv that(1)])
  have "chain (get_link h') (bucket_slot h' c) ((C(b := xs)) c) \<and> distinct ((C(b := xs)) c) \<and> distinct (map (key_at h') ((C(b := xs)) c)) \<and>
       (\<forall>x\<in>set ((C(b := xs)) c). call_hash h' (key_at h' x) = c) \<and> set ((C(b := xs)) c) \<inter> set F' = {}" if c: "c \<le> max_bucket h" for c
    using chains(1) [OF c] dk [OF c] hash_inv_bucket [OF inv c] xs F'(3) disj [OF c] key [OF c] same by (cases "c = b") auto
  moreover have "set ((C(b := xs)) c) \<inter> set ((C(b := xs)) d) = {}" if "c \<le> max_bucket h" "d \<le> max_bucket h" "c \<noteq> d" for c d
    using hash_invD(7) [OF inv that] disj [OF that(1)] disj [OF that(2)] that(3) by auto
  moreover have "nkeys h' = (\<Sum>c\<le>max_bucket h. length ((C(b := xs)) c))"
  proof -
    have "(\<Sum>c\<le>max_bucket h. length ((C(b := xs)) c)) = length xs + (\<Sum>c\<in>{..max_bucket h} - {b}. length (C c))"
      using b by (subst sum.remove [of _ b]) auto
    moreover have "nkeys h = length (C b) + (\<Sum>c\<in>{..max_bucket h} - {b}. length (C c))"
      using hash_invD(4) [OF inv] b by (subst (asm) sum.remove [of _ b]) auto
    ultimately show ?thesis using n by linarith
  qed
  moreover have "get_link h' (bucket_slot h' c) \<in> {None, Some 0}" if "max_bucket h' < c" for c
    using hash_invD(8) [OF inv, of c] slots [of c] that same by simp
  ultimately show ?thesis using same F' mem segs hash_invD(9) [OF inv] unfolding hash_inv_def by simp
qed

text \<open>The map changes at one key only.\<close>

lemma table_change:
  assumes "call_hash h' = call_hash h" and "b = call_hash h k" and "geometry h"
    and other: "\<And>c x. c \<le> max_bucket h \<Longrightarrow> c \<noteq> b \<Longrightarrow> x \<in> set (C c) \<Longrightarrow> key_at h' x = key_at h x \<and> data_at h' x = data_at h x"
    and same: "\<And>j. j \<noteq> k \<Longrightarrow> map_of (map (\<lambda>i. (key_at h' i, data_at h' i)) xs) j = map_of (map (\<lambda>i. (key_at h i, data_at h i)) (C b)) j"
    and at_k: "map_of (map (\<lambda>i. (key_at h' i, data_at h' i)) xs) k = v"
  shows "table h' (C(b := xs)) = (table h C)(k := v)"
proof
  fix j
  have m: "map (\<lambda>i. (key_at h' i, data_at h' i)) (C c) = map (\<lambda>i. (key_at h i, data_at h i)) (C c)" if "c \<noteq> b" "c \<le> max_bucket h" for c
    using other [OF that(2,1)] by auto
  have "map_of (map (\<lambda>i. (key_at h' i, data_at h' i)) (C (call_hash h j))) j = map_of (map (\<lambda>i. (key_at h i, data_at h i)) (C (call_hash h j))) j"
    if "call_hash h j \<noteq> b" by (simp only: m [OF that call_hash_le [OF assms(3)]])
  then show "table h' (C(b := xs)) j = ((table h C)(k := v)) j"
    using assms by (cases "j = k"; cases "call_hash h j = b") (auto simp: table_def)
qed

subsection \<open>Removing\<close>

lemma remove_links:
  assumes inv: "hash_inv h C F" and b: "b \<le> max_bucket h" and C: "C b = as @ i # cs"
  obtains h' where "hash_remove h (link_after (bucket_slot h b) as) i = Some h'"
    and "\<And>q. get_link h' q = (if q = NextOf i then Some (freeBucketIndex h) else if q = link_after (bucket_slot h b) as then Some (first_or_0 cs) else get_link h q)"
    and "freeBucketIndex h' = i" and "nkeys h' + 1 = nkeys h"
    and "relinked (h\<lparr>nkeys := nkeys h', freeBucketIndex := i\<rparr>) h'"
proof -
  let ?p = "link_after (bucket_slot h b) as"
  have ch: "chain (get_link h) (bucket_slot h b) (as @ i # cs)" using hash_inv_bucket(1) [OF inv b] C by simp
  then have l: "get_link h ?p = Some i" "get_link h (NextOf i) = Some (first_or_0 cs)"
    using chain_append [OF ch] chain_head by auto
  then obtain e where e: "elems h i = Some e" "nxt e = first_or_0 cs" by (auto simp: get_link_def)
  have "i \<notin> set as" using hash_inv_bucket(2) [OF inv b] C by simp
  then have ne: "?p \<noteq> NextOf i" using link_after_mem [of "bucket_slot h b" as] by (auto simp: bucket_slot_def)
  have "length (C b) \<le> (\<Sum>c\<le>max_bucket h. length (C c))" using b by (intro member_le_sum) auto
  then have nk: "0 < nkeys h" using hash_invD(4) [OF inv] C by simp
  let ?h = "h\<lparr>nkeys := nkeys h - 1\<rparr>"
  obtain h1 where h1: "set_link ?h ?p (first_or_0 cs) = Some h1"
    using set_link_returns [of ?h ?p i] l(1) by auto
  obtain h2 where h2: "set_link h1 (NextOf i) (freeBucketIndex h1) = Some h2"
    using set_link_returns [of h1 "NextOf i"] set_link_SomeD(1) [OF h1, of "NextOf i"] l(2) ne by auto
  have f1: "freeBucketIndex h1 = freeBucketIndex h" using relinked_simps(7) [OF set_link_relinked [OF h1]] by simp
  have r: "relinked ?h h2" using set_link_relinked [OF h1] set_link_relinked [OF h2] by (rule relinked_trans)
  show thesis
  proof (rule that [of "h2\<lparr>freeBucketIndex := i\<rparr>"])
    show "hash_remove h ?p i = Some (h2\<lparr>freeBucketIndex := i\<rparr>)"
      using nk e h1 h2 by (simp add: hash_remove_def)
    show "get_link (h2\<lparr>freeBucketIndex := i\<rparr>) q = (if q = NextOf i then Some (freeBucketIndex h) else if q = ?p then Some (first_or_0 cs) else get_link h q)" for q
      using set_link_SomeD(1) [OF h1, of q] set_link_SomeD(1) [OF h2, of q] f1 by simp
    show "nkeys (h2\<lparr>freeBucketIndex := i\<rparr>) + 1 = nkeys h" using relinked_simps(6) [OF r] nk by simp
    have "nkeys h2 = nkeys h - 1" using relinked_simps(6) [OF r] by simp
    then show "relinked (h\<lparr>nkeys := nkeys (h2\<lparr>freeBucketIndex := i\<rparr>), freeBucketIndex := i\<rparr>) (h2\<lparr>freeBucketIndex := i\<rparr>)"
      using relinked_free [OF r, of i] by simp
  qed simp
qed

lemma remove_inv:
  assumes inv: "hash_inv h C F" and k: "key_at h i = k" and b: "b = call_hash h k" and C: "C b = as @ i # cs"
  shows "rets (hash_remove h (link_after (bucket_slot h b) as) i) (\<lambda>h'. hash_inv h' (C(b := as @ cs)) (i # F) \<and>
    table h' (C(b := as @ cs)) = (table h C)(k := None) \<and> nkeys h' + 1 = nkeys h \<and> max_bucket h' = max_bucket h \<and> ffactor h' = ffactor h \<and>
    elem_data h' i = table h C k)"
proof -
  let ?p = "link_after (bucket_slot h b) as"
  have bm: "b \<le> max_bucket h" using hash_inv_call [OF inv] b by simp
  note bk = hash_inv_bucket [OF inv bm]
  obtain h' where h': "hash_remove h ?p i = Some h'"
    and L: "\<And>q. get_link h' q = (if q = NextOf i then Some (freeBucketIndex h) else if q = ?p then Some (first_or_0 cs) else get_link h q)"
    and f: "freeBucketIndex h' = i" and n: "nkeys h' + 1 = nkeys h" and r: "relinked (h\<lparr>nkeys := nkeys h', freeBucketIndex := i\<rparr>) h'"
    using remove_links [OF inv bm C] by blast
  note rs = relinked_simps [OF r, simplified]
  have ch: "chain (get_link h) (bucket_slot h b) (as @ i # cs)" and d: "distinct (as @ i # cs)" using bk(1,2) C by simp_all
  have p: "?p \<in> insert (bucket_slot h b) (NextOf ` set as)" by (rule link_after_mem)
  have i0: "i \<noteq> 0" using chain_nonzero [OF ch] by auto
  have tail: "chain (get_link h) (NextOf i) cs" using chain_append [OF ch] by simp
  have cs: "chain_from (get_link h') (first_or_0 cs) cs"
  proof (rule chain_from_frame)
    show "chain_from (get_link h) (first_or_0 cs) cs" using tail chain_iff_from [of "get_link h" "NextOf i" cs] chain_from_head by force
  qed (use L p d in \<open>auto simp: bucket_slot_def\<close>)
  have new: "chain (get_link h') (bucket_slot h b) (as @ cs)"
    by (rule chain_write [OF ch _ _ _ cs]) (use d L in \<open>auto simp: bucket_slot_def\<close>)
  have inv': "hash_inv h' (C(b := as @ cs)) (i # F)"
  proof (rule hash_inv_change [OF inv bm])
    show "geometry h'" using relinked_geometry [OF r] hash_invD(1) [OF inv] by simp
    show "get_link h' q = get_link h q" if "c \<le> max_bucket h" "c \<noteq> b" "q \<in> insert (bucket_slot h c) (NextOf ` set (C c))" for c q
      using that L p hash_invD(7) [OF inv that(1) bm that(2)] C slot_inj [OF hash_invD(1) [OF inv], of c b] by (auto simp: bucket_slot_def)
    have "chain_from (get_link h') (freeBucketIndex h) F"
      by (rule chain_from_frame [OF hash_invD(2) [OF inv]]) (use L p bk(5) C in \<open>auto simp: bucket_slot_def\<close>)
    then show "chain_from (get_link h') (freeBucketIndex h') (i # F)"
      using L f i0 by (simp add: chain_from_def [of _ _ "i # F"] chain_iff_from)
    show "distinct (i # F)" "set (as @ cs) \<inter> set (i # F) = {}" using hash_invD(3) [OF inv] bk(5) d C by auto
    show "set (C c) \<inter> (set (as @ cs) \<union> set (i # F)) = {}" if "c \<le> max_bucket h" "c \<noteq> b" for c
      using hash_invD(7) [OF inv that(1) bm that(2)] hash_inv_bucket(5) [OF inv that(1)] C by auto
    show "distinct (map (key_at h') (as @ cs))" using bk(3) C rs(3) by simp
    show "get_link h' (bucket_slot h c) = get_link h (bucket_slot h c)" if "max_bucket h < c" for c
      using that L p bm slot_inj [OF hash_invD(1) [OF inv], of c b] by (auto simp: bucket_slot_def)
    show "0 < ShmemFreeStart h'" "\<And>j. j \<in> dom (elems h') \<Longrightarrow> j < ShmemFreeStart h'" using hash_invD(5,6) [OF inv] rs by auto
  qed (use rs n C new bk(4) d in auto)
  have "table h' (C(b := as @ cs)) = (table h C)(k := None)"
  proof (rule table_change)
    have nk: "key_at h j \<noteq> k" if "j \<in> set (as @ cs)" for j using bk(3) C k that by (auto simp: rev_image_eqI)
    then show "map_of (map (\<lambda>i. (key_at h' i, data_at h' i)) (as @ cs)) k = None" using rs(3) by (force simp: map_of_eq_None_iff)
    show "map_of (map (\<lambda>i. (key_at h' i, data_at h' i)) (as @ cs)) j = map_of (map (\<lambda>i. (key_at h i, data_at h i)) (C b)) j" if "j \<noteq> k" for j
      using that rs k by (simp add: C map_add_def split: option.split)
  qed (use rs b hash_invD(1) [OF inv] in auto)
  moreover have "elem_data h' i = table h C k"
  proof -
    have "table h C k = Some (data_at h i)" by (rule table_Some [OF inv _ k]) (use C b in auto)
    moreover have "i \<in> dom (elems h)" using chain_append [OF ch] by (cases cs) (auto simp: get_link_def)
    then have "i \<in> dom (elems h')" using rs by simp
    ultimately show ?thesis using fun_cong [OF rs(4), of i] by (auto simp: elem_data_def data_at_def)
  qed
  ultimately show ?thesis using h' inv' n rs by simp
qed

subsection \<open>Fresh elements\<close>

primrec offsets :: "nat \<Rightarrow> nat \<Rightarrow> nat \<Rightarrow> nat list" where
  "offsets bs i 0 = []"
| "offsets bs i (Suc n) = i # offsets bs (i + bs) n"

lemma offsets_range: "x \<in> set (offsets bs i n) \<Longrightarrow> i \<le> x \<and> x < i + n * bs \<or> bs = 0"
  by (induction n arbitrary: i) fastforce+

lemma offsets_distinct: "0 < bs \<Longrightarrow> distinct (offsets bs i n)"
  using offsets_range by (induction n arbitrary: i) fastforce+

lemma chunk_outside: "0 < bs \<Longrightarrow> x \<notin> set (offsets bs i n) \<Longrightarrow> chunk bs l fr n i m x = m x"
  by (induction n arbitrary: i m) auto

lemma chunk_chain:
  assumes "0 < bs" and "0 < i" and "0 < n" and "\<And>x. x \<in> set (offsets bs i n) \<Longrightarrow> L (NextOf x) = map_option nxt (chunk bs 0 fr n i m x)"
  shows "chain_from L i (offsets bs i n)"
  using assms(2-4)
proof (induction n arbitrary: i m)
  case (Suc n)
  let ?m = "m(i \<mapsto> \<lparr>nxt = (if n = 0 then 0 else i + bs), ekey = fst (fr i), edata = snd (fr i)\<rparr>)"
  have "i \<notin> set (offsets bs (i + bs) n)" using offsets_range [of i bs "i + bs" n] assms(1) by auto
  then have "L (NextOf i) = Some (if n = 0 then 0 else i + bs)"
    using Suc.prems(3) [of i] chunk_outside [OF assms(1), of i "i + bs" n 0 fr ?m] by simp
  moreover have "chain_from L (i + bs) (offsets bs (i + bs) n)" if "0 < n"
    by (rule Suc.IH [of _ ?m]) (use that Suc.prems in \<open>simp_all add: fun_upd_def\<close>)
  ultimately show ?case
    using Suc.prems(1) by (cases n) (auto simp: chain_from_def chain_iff_from)
qed simp

lemma bucket_size_pos: "0 < bucket_size h" and bucket_size_aligned: "bucket_size h mod 8 = 0"
  unfolding bucket_size_def Let_def by presburger+

lemma bucket_alloc_inv:
  assumes inv: "hash_inv h C []"
  shows "rets (bucket_alloc h) (\<lambda>(h', ok). if ok then (\<exists>F. F \<noteq> [] \<and> hash_inv h' C F) \<and> table h' C = table h C \<and> nkeys h' = nkeys h \<and>
      max_bucket h' = max_bucket h \<and> ffactor h' = ffactor h \<and> call_hash h' = call_hash h \<and> bucket_slot h' = bucket_slot h \<and>
      (\<forall>i\<in>dom (elems h). elems h' i = elems h i) \<and> dir h' = dir h
    else h' = h \<and> ShmemSize h < ShmemFreeStart h + BUCKET_ALLOC_INCR * bucket_size h)"
proof -
  define bs st where "bs = bucket_size h" and "st = ShmemFreeStart h"
  have bs: "0 < bs" "(30 * bs) mod 8 = 0" using bucket_size_pos [of h] bucket_size_aligned [of h] unfolding bs_def by auto
  have st: "0 < st" using hash_invD(5) [OF inv] by (simp add: st_def)
  have f0: "freeBucketIndex h = 0" using hash_invD(2) [OF inv] by (simp add: chain_from_def)
  show ?thesis
  proof (cases "st + 30 * bs \<le> ShmemSize h")
    case False
    then have "bucket_alloc h = Some (h, False)" using bs st by (simp add: bucket_alloc_def ShmemAlloc_def BUCKET_ALLOC_INCR_def flip: bs_def st_def)
    then show ?thesis using False by (simp add: BUCKET_ALLOC_INCR_def bs_def st_def)
  next
    case True
    define e where "e = chunk bs 0 (fresh h) 29 st (elems h)"
    define h' where "h' = h\<lparr>ShmemFreeStart := st + 30 * bs, freeBucketIndex := st, elems := e\<rparr>"
    have "bucket_size (h\<lparr>ShmemFreeStart := st + 30 * bs\<rparr>) = bs" by (simp add: bucket_size_def bs_def)
    then have eq: "bucket_alloc h = Some (h', True)"
      using True bs st f0 by (simp add: bucket_alloc_def ShmemAlloc_def BUCKET_ALLOC_INCR_def h'_def e_def flip: bs_def st_def)
    let ?F = "offsets bs st 29"
    have R: "st \<le> x \<and> x < st + 30 * bs" if "x \<in> set ?F" for x using offsets_range [OF that] bs(1) by auto
    have out: "e x = elems h x" if "x \<notin> set ?F" for x using chunk_outside [OF bs(1) that] by (simp add: e_def)
    have old: "e x = elems h x \<and> x \<notin> set ?F" if "x \<in> dom (elems h)" for x
      using out [of x] R [of x] hash_invD(6) [OF inv that] by (auto simp: st_def)
    have dom_e: "x \<in> dom (elems h) \<or> x \<in> set ?F" if "x \<in> dom e" for x using out [of x] that by (metis domIff)
    have ctl: "call_hash h' = call_hash h" "bucket_slot h' = bucket_slot h" "geometry h' = geometry h" "max_bucket h' = max_bucket h" "nkeys h' = nkeys h"
      by (auto simp: h'_def call_hash_def bucket_slot_def geometry_def fun_eq_iff Let_def)
    note inC = hash_inv_elems [OF inv]
    have kd: "key_at h' x = key_at h x" "data_at h' x = data_at h x" if "x \<in> dom (elems h)" for x
      using old [OF that] by (simp_all add: key_at_def data_at_def h'_def)
    have L: "get_link h' q = get_link h q" if "q \<in> insert (bucket_slot h b) (NextOf ` set (C b))" "b \<le> max_bucket h" for q b
      using that old [OF inC [OF _ that(2)]] by (auto simp: get_link_def h'_def bucket_slot_def)
    have "hash_inv h' (C(0 := C 0)) ?F"
    proof (rule hash_inv_change [OF inv])
      show "chain (get_link h') (bucket_slot h 0) (C 0)"
        by (rule chain_frame [OF hash_inv_bucket(1) [OF inv] L]) auto
      show "chain_from (get_link h') (freeBucketIndex h') ?F"
        using chunk_chain [OF bs(1) st, of 29 "get_link h'" "fresh h" "elems h"] by (simp add: h'_def get_link_def e_def)
      show "distinct (map (key_at h') (C 0))" "\<And>x. x \<in> set (C 0) \<Longrightarrow> call_hash h (key_at h' x) = 0"
        using hash_inv_bucket(3,4) [OF inv, of 0] kd(1) [OF inC] by (auto simp: distinct_map inj_on_def)
      show "0 < ShmemFreeStart h'" using st by (simp add: h'_def)
      show "get_link h' (bucket_slot h c) = get_link h (bucket_slot h c)" for c by (simp add: get_link_def h'_def bucket_slot_def)
      show "nsegs h' = nsegs h" "ssize h' = ssize h" "map_option length (dir h' s) = map_option length (dir h s)" for s by (simp_all add: h'_def)
      show "i < ShmemFreeStart h'" if "i \<in> dom (elems h')" for i
      proof -
        have "i \<in> dom e" using that by (simp add: h'_def)
        then show ?thesis using dom_e [of i] R [of i] hash_invD(6) [OF inv, of i] by (fastforce simp: h'_def st_def)
      qed
      show "set (C 0) \<inter> set ?F = {}" "\<And>c. c \<le> max_bucket h \<Longrightarrow> c \<noteq> 0 \<Longrightarrow> set (C c) \<inter> (set (C 0) \<union> set ?F) = {}"
        using old [OF inC] hash_invD(7) [OF inv, of _ 0] by auto
    qed (use ctl hash_invD(1) [OF inv] hash_inv_bucket(2) [OF inv, of 0] L kd inC offsets_distinct [OF bs(1)] in auto)
    then have inv': "hash_inv h' C ?F" by simp
    have "table h' C = table h C"
    proof
      fix k
      have "map (\<lambda>i. (key_at h' i, data_at h' i)) (C (call_hash h k)) = map (\<lambda>i. (key_at h i, data_at h i)) (C (call_hash h k))"
        using kd inC hash_inv_call [OF inv, of k] by auto
      then show "table h' C k = table h C k" unfolding table_def ctl(1) by (simp only:)
    qed
    moreover have "?F \<noteq> []" by (simp add: numeral_eq_Suc)
    ultimately show ?thesis using eq inv' ctl old by (auto simp: h'_def)
  qed
qed

subsection \<open>Entering\<close>

text \<open>The table after the first free element was taken, before a possible expansion.\<close>

definition linked_in :: "('k, 'v) HTAB \<Rightarrow> 'k \<Rightarrow> link \<Rightarrow> ('k, 'v) HTAB option" where
  "linked_in h key p = do {
     currIndex \<leftarrow> Some (freeBucketIndex h);
     curr \<leftarrow> elems h currIndex;
     h \<leftarrow> Some (h\<lparr>freeBucketIndex := nxt curr\<rparr>);
     h \<leftarrow> set_link h p currIndex;
     curr \<leftarrow> elems h currIndex;
     Some (h\<lparr>elems := (elems h)(currIndex \<mapsto> curr\<lparr>ekey := key, nxt := INVALID_INDEX\<rparr>), nkeys := nkeys h + 1\<rparr>)
   }"

lemma linked_in_links:
  assumes inv: "hash_inv h C (i # F)" and bm: "b \<le> max_bucket h"
  obtains h' where "linked_in h k (link_after (bucket_slot h b) (C b)) = Some h'"
    and "\<And>q. get_link h' q = (if q = NextOf i then Some 0 else if q = link_after (bucket_slot h b) (C b) then Some i else get_link h q)"
    and "freeBucketIndex h' = first_or_0 F" and "nkeys h' = nkeys h + 1"
    and "key_at h' = (key_at h)(i := k)" and "data_at h' = data_at h" and "dom (elems h') = dom (elems h)"
    and "call_hash h' = call_hash h" and "bucket_slot h' = bucket_slot h" and "geometry h' = geometry h" and "max_bucket h' = max_bucket h"
    and "ffactor h' = ffactor h" and "ShmemFreeStart h' = ShmemFreeStart h" and "nsegs h' = nsegs h" and "ssize h' = ssize h"
    and "\<And>s. map_option length (dir h' s) = map_option length (dir h s)"
proof -
  let ?p = "link_after (bucket_slot h b) (C b)"
  have fr: "freeBucketIndex h = i" "i \<noteq> 0" "chain (get_link h) (NextOf i) F"
    using hash_invD(2) [OF inv] by (simp_all add: chain_from_def)
  then have "get_link h (NextOf i) = Some (first_or_0 F)" by (simp add: chain_head)
  then obtain e where e: "elems h i = Some e" "nxt e = first_or_0 F" by (auto simp: get_link_def)
  let ?h = "h\<lparr>freeBucketIndex := first_or_0 F\<rparr>"
  have "get_link h ?p = Some 0" using chain_append [of "get_link h" "bucket_slot h b" "C b" "[]"] hash_inv_bucket(1) [OF inv bm] by simp
  then obtain h1 where h1: "set_link ?h ?p i = Some h1" using set_link_returns [of ?h ?p 0] by auto
  note r = relinked_simps [OF set_link_relinked [OF h1], simplified]
  have "i \<in> dom (elems h1)" using r(9) e by auto
  then obtain e1 where e1: "elems h1 i = Some e1" by auto
  define h' where "h' = h1\<lparr>elems := (elems h1)(i \<mapsto> e1\<lparr>ekey := k, nxt := 0\<rparr>), nkeys := nkeys h1 + 1\<rparr>"
  have eq: "linked_in h k ?p = Some h'"
    using fr(1) e h1 e1 by (simp add: linked_in_def h'_def INVALID_INDEX_def)
  have L: "get_link h' q = (if q = NextOf i then Some 0 else get_link h1 q)" for q
    by (cases q) (auto simp: h'_def get_link_def)
  have K: "key_at h' x = ((key_at h)(i := k)) x" "data_at h' x = data_at h x" for x
    using fun_cong [OF r(3), of x] fun_cong [OF r(4), of x] e1 by (auto simp: h'_def key_at_def data_at_def)
  show thesis
  proof (rule that [OF eq])
    show "get_link h' q = (if q = NextOf i then Some 0 else if q = ?p then Some i else get_link h q)" for q
      using L [of q] set_link_SomeD(1) [OF h1, of q] by simp
    show "key_at h' = (key_at h)(i := k)" "data_at h' = data_at h" using K by auto
    show "dom (elems h') = dom (elems h)" using r(9) e1 by (auto simp: h'_def)
    show "geometry h' = geometry h" using relinked_geometry [OF set_link_relinked [OF h1]] by (simp add: h'_def geometry_def)
  qed (use r in \<open>simp_all add: h'_def\<close>)
qed

lemma linked_in_inv:
  assumes inv: "hash_inv h C (i # F)" and b: "b = call_hash h k" and new: "table h C k = None"
  shows "rets (linked_in h k (link_after (bucket_slot h b) (C b))) (\<lambda>h'. hash_inv h' (C(b := C b @ [i])) F \<and>
    table h' (C(b := C b @ [i])) = (table h C)(k \<mapsto> data_at h' i) \<and> nkeys h' = nkeys h + 1 \<and> max_bucket h' = max_bucket h \<and> ffactor h' = ffactor h \<and>
    i \<in> dom (elems h') \<and> key_at h' i = k)"
proof -
  let ?p = "link_after (bucket_slot h b) (C b)"
  have bm: "b \<le> max_bucket h" using hash_inv_call [OF inv] b by simp
  note bk = hash_inv_bucket [OF inv bm]
  obtain h' where h': "linked_in h k ?p = Some h'"
    and L: "\<And>q. get_link h' q = (if q = NextOf i then Some 0 else if q = ?p then Some i else get_link h q)"
    and s: "freeBucketIndex h' = first_or_0 F" "nkeys h' = nkeys h + 1"
      "key_at h' = (key_at h)(i := k)" "data_at h' = data_at h" "dom (elems h') = dom (elems h)"
      "call_hash h' = call_hash h" "bucket_slot h' = bucket_slot h" "geometry h' = geometry h" "max_bucket h' = max_bucket h"
      "ffactor h' = ffactor h" "ShmemFreeStart h' = ShmemFreeStart h" "nsegs h' = nsegs h" "ssize h' = ssize h"
      "\<And>s. map_option length (dir h' s) = map_option length (dir h s)"
    by (rule linked_in_links [OF inv bm, of k]) blast
  have fr: "i \<noteq> 0" "chain (get_link h) (NextOf i) F" using hash_invD(2) [OF inv] by (simp_all add: chain_from_def)
  have iC: "i \<notin> set (C c)" if "c \<le> max_bucket h" for c using hash_inv_bucket(5) [OF inv that] by auto
  have p: "?p \<in> insert (bucket_slot h b) (NextOf ` set (C b))" by (rule link_after_mem)
  have nk: "key_at h x \<noteq> k" if "x \<in> set (C b)" for x using new that b by (simp add: table_None)
  have "hash_inv h' (C(b := C b @ [i])) F"
  proof (rule hash_inv_change [OF inv bm])
    show "get_link h' q = get_link h q" if "c \<le> max_bucket h" "c \<noteq> b" "q \<in> insert (bucket_slot h c) (NextOf ` set (C c))" for c q
      using that L p hash_invD(7) [OF inv that(1) bm that(2)] iC [OF that(1)] slot_inj [OF hash_invD(1) [OF inv], of c b] by (auto simp: bucket_slot_def)
    show "key_at h' x = key_at h x" if "c \<le> max_bucket h" "c \<noteq> b" "x \<in> set (C c)" for c x using that s(3) iC by auto
    have cf: "chain_from (get_link h') i [i]" using L fr(1) by (simp add: chain_from_def)
    have ch: "chain (get_link h) (bucket_slot h b) (C b @ [])" using bk(1) by simp
    show "chain (get_link h') (bucket_slot h b) (C b @ [i])"
      by (rule chain_write [OF ch bk(2) _ _ cf]) (use L iC [OF bm] in \<open>auto simp: bucket_slot_def\<close>)
    have "chain_from (get_link h) (first_or_0 F) F" using fr(2) chain_iff_from [of "get_link h" "NextOf i" F] chain_from_head by force
    then show "chain_from (get_link h') (freeBucketIndex h') F"
      unfolding s(1) by (rule chain_from_frame) (use L p bk(5) hash_invD(3) [OF inv] in \<open>auto simp: bucket_slot_def\<close>)
    show "distinct (map (key_at h') (C b @ [i]))"
      using bk(3) s(3) nk iC [OF bm] by (auto simp: distinct_map inj_on_def)
    show "call_hash h (key_at h' x) = b" if "x \<in> set (C b @ [i])" for x using that s(3) bk(4) b iC [OF bm] by auto
    show "set (C c) \<inter> (set (C b @ [i]) \<union> set F) = {}" if "c \<le> max_bucket h" "c \<noteq> b" for c
      using hash_invD(7) [OF inv that(1) bm that(2)] hash_inv_bucket(5) [OF inv that(1)] iC [OF that(1)] by auto
    show "geometry h'" using s(8) hash_invD(1) [OF inv] by simp
    show "get_link h' (bucket_slot h c) = get_link h (bucket_slot h c)" if "max_bucket h < c" for c
      using that L p bm slot_inj [OF hash_invD(1) [OF inv], of c b] by (auto simp: bucket_slot_def)
    show "distinct (C b @ [i])" "set (C b @ [i]) \<inter> set F = {}" "distinct F" using bk(2,5) iC [OF bm] hash_invD(3) [OF inv] by auto
    show "0 < ShmemFreeStart h'" "\<And>j. j \<in> dom (elems h') \<Longrightarrow> j < ShmemFreeStart h'" using hash_invD(5,6) [OF inv] s by auto
  qed (use s in auto)
  moreover have "table h' (C(b := C b @ [i])) = (table h C)(k \<mapsto> data_at h' i)"
  proof (rule table_change)
    have m: "map (\<lambda>x. (key_at h' x, data_at h' x)) (C b) = map (\<lambda>x. (key_at h x, data_at h x)) (C b)" using s(3,4) iC [OF bm] by auto
    have k0: "map_of (map (\<lambda>x. (key_at h x, data_at h x)) (C b)) k = None" using new b by (simp add: table_def)
    show "map_of (map (\<lambda>x. (key_at h' x, data_at h' x)) (C b @ [i])) k = Some (data_at h' i)"
      unfolding map_append m using k0 s(3) by (simp add: map_add_def)
    show "map_of (map (\<lambda>x. (key_at h' x, data_at h' x)) (C b @ [i])) j = map_of (map (\<lambda>x. (key_at h x, data_at h x)) (C b)) j" if "j \<noteq> k" for j
      unfolding map_append m using that s(3) by (simp add: map_add_def split: option.split)
    show "key_at h' x = key_at h x \<and> data_at h' x = data_at h x" if "c \<le> max_bucket h" "c \<noteq> b" "x \<in> set (C c)" for c x
      using that s(3,4) iC [OF that(1)] by auto
  qed (use s b hash_invD(1) [OF inv] in auto)
  moreover have "i \<in> dom (elems h')" using chain_head [OF fr(2)] s(5) by (auto simp: get_link_def)
  ultimately show ?thesis using h' s by simp
qed

end
