(* ===== verification/DynaHash_Expand.thy ===== *)
theory DynaHash_Expand
  imports DynaHash_Inv
begin

text \<open>
  Splitting a bucket: what \<open>relocate\<close> does to the two chains, which keys change their bucket when
  the table grows by one, and when the split keeps the map.
\<close>

subsection \<open>The relocation loop\<close>

lemma relocate_split:
  assumes "distinct (as @ bs @ zs)" and "slO \<noteq> slN" and "slO \<notin> range NextOf" and "slN \<notin> range NextOf"
    and "as \<noteq> [] \<Longrightarrow> chain (get_link h) slO as" and "get_link h slO \<noteq> None" and "chain (get_link h) slN bs"
    and "chain_from (get_link h) (first_or_0 zs) zs"
  shows "rets (relocate h ob (link_after slO as) (link_after slN bs) (first_or_0 zs)) (\<lambda>h'. relinked h h' \<and>
    (if as @ filter (\<lambda>i. call_hash h (key_at h i) = ob) zs = [] then get_link h' slO = get_link h slO
     else chain (get_link h') slO (as @ filter (\<lambda>i. call_hash h (key_at h i) = ob) zs)) \<and>
    chain (get_link h') slN (bs @ filter (\<lambda>i. call_hash h (key_at h i) \<noteq> ob) zs) \<and>
    (\<forall>q. q \<notin> {slO, slN} \<union> NextOf ` (set as \<union> set bs \<union> set zs) \<longrightarrow> get_link h' q = get_link h q))"
  using assms
proof (induction zs arbitrary: h as bs)
  case Nil
  then show ?case by (subst relocate.simps) (auto simp: first_or_0_def INVALID_INDEX_def relinked_refl)
next
  case (Cons x zs)
  have x: "x \<noteq> 0" and tl: "chain (get_link h) (NextOf x) zs" using Cons.prems(8) by (simp_all add: chain_from_def)
  then have "get_link h (NextOf x) = Some (first_or_0 zs)" by (simp add: chain_head)
  then obtain e where e: "elems h x = Some e" "nxt e = first_or_0 zs" by (auto simp: get_link_def)
  have key: "ekey e = key_at h x" using e by (simp add: key_at_def)
  have zs: "chain_from (get_link h) (first_or_0 zs) zs" using tl chain_iff_from [of "get_link h" "NextOf x" zs] chain_from_head by force
  define stay where "stay \<longleftrightarrow> call_hash h (key_at h x) = ob"
  define p where "p = (if stay then link_after slO as else link_after slN bs)"
  have pm: "p \<in> {slO, slN} \<union> NextOf ` (set as \<union> set bs)"
    using link_after_mem [of slO as] link_after_mem [of slN bs] by (auto simp: p_def)
  have px: "p \<noteq> NextOf x" using pm Cons.prems(1,3,4) by auto
  have "get_link h p \<noteq> None"
    using Cons.prems(5,6,7) chain_append [of "get_link h" slO as "[]"] chain_append [of "get_link h" slN bs "[]"]
    by (cases "as = []") (auto simp: p_def)
  then obtain h1 where h1: "set_link h p x = Some h1" using set_link_returns by blast
  have "get_link h1 (NextOf x) \<noteq> None" using set_link_SomeD(1) [OF h1, of "NextOf x"] e px by (auto simp: get_link_def)
  then obtain h2 where h2: "set_link h1 (NextOf x) 0 = Some h2" using set_link_returns by blast
  have r: "relinked h h2" by (rule relinked_trans [OF set_link_relinked [OF h1] set_link_relinked [OF h2]])
  note rs = relinked_simps(1,3) [OF r]
  have L: "get_link h2 q = (if q = NextOf x then Some 0 else if q = p then Some x else get_link h q)" for q
    using set_link_SomeD(1) [OF h1, of q] set_link_SomeD(1) [OF h2, of q] by simp
  have step: "relocate h ob (link_after slO as) (link_after slN bs) (first_or_0 (x # zs)) =
      (if stay then relocate h2 ob (NextOf x) (link_after slN bs) (first_or_0 zs) else relocate h2 ob (link_after slO as) (NextOf x) (first_or_0 zs))"
    using x e h1 h2 key unfolding stay_def p_def
    by (subst relocate.simps) (auto simp: first_or_0_def INVALID_INDEX_def split: if_splits)
  have z2: "chain_from (get_link h2) (first_or_0 zs) zs"
    by (rule chain_from_frame [OF zs]) (use L pm Cons.prems(1,3,4) in auto)
  have x1: "chain_from (get_link h2) x [x]" using L x by (simp add: chain_from_def)
  show ?case
  proof (cases stay)
    case True
    have bs2: "chain (get_link h2) slN bs"
      by (rule chain_frame [OF Cons.prems(7)]) (use L pm True link_after_mem [of slO as] Cons.prems(1-4) in \<open>auto simp: p_def\<close>)
    have as2: "chain (get_link h2) slO (as @ [x])"
    proof (cases "as = []")
      case True then show ?thesis using L x Cons.prems(3) \<open>stay\<close> by (auto simp: p_def)
    next
      case False
      then have "chain (get_link h) slO (as @ [])" using Cons.prems(5) by simp
      then show ?thesis by (rule chain_write [OF _ _ _ _ x1]) (use L Cons.prems(1,3) \<open>stay\<close> in \<open>auto simp: p_def\<close>)
    qed
    have "get_link h2 slO \<noteq> None" using as2 chain_head by force
    note IH = Cons.IH [of "as @ [x]" bs h2, OF _ Cons.prems(2-4) as2 this bs2 z2]
    show ?thesis
      unfolding step
      using IH Cons.prems(1) True stay_def rs L pm r relinked_trans [OF r]
      by (auto simp: link_after_def elim!: rets_mono)
  next
    case False
    have as2: "chain (get_link h2) slO as" if "as \<noteq> []"
      by (rule chain_frame [OF Cons.prems(5) [OF that]]) (use L False link_after_mem [of slN bs] Cons.prems(1-4) in \<open>auto simp: p_def\<close>)
    have sO: "get_link h2 slO = get_link h slO" using L Cons.prems(2,3) link_after_mem [of slN bs] False by (auto simp: p_def)
    have "chain (get_link h) slN (bs @ [])" using Cons.prems(7) by simp
    then have bs2: "chain (get_link h2) slN (bs @ [x])"
      by (rule chain_write [OF _ _ _ _ x1]) (use L Cons.prems(1,4) False in \<open>auto simp: p_def\<close>)
    note IH = Cons.IH [of as "bs @ [x]" h2, OF _ Cons.prems(2-4) as2 _ bs2 z2]
    show ?thesis
      unfolding step
      using IH Cons.prems(1,6) False stay_def rs L pm r sO relinked_trans [OF r]
      by (auto simp: link_after_def elim!: rets_mono)
  qed
qed

subsection \<open>Which keys move\<close>

text \<open>Taking the next doubling into account ahead of the split changes no bucket.\<close>

definition doubled :: "('k, 'v) HTAB \<Rightarrow> ('k, 'v) HTAB" where
  "doubled h = (if max_bucket h = high_mask h then h\<lparr>low_mask := high_mask h, high_mask := (max_bucket h + 1) OR high_mask h\<rparr> else h)"

lemma or_mask_nat: "2 ^ k OR (2 ^ k - 1) = (2 ^ Suc k - 1 :: nat)"
  using mask_Suc_exp [of k, where 'a = nat] by (simp add: mask_eq_exp_minus_1)

lemma doubled_geometry:
  assumes g: "geometry h" and top: "2 * high_mask h + 1 < 2 ^ 32"
  obtains k where "low_mask (doubled h) = 2 ^ k - 1" and "high_mask (doubled h) = 2 ^ (k + 1) - 1"
    and "2 ^ k \<le> max_bucket h + 1" and "max_bucket h + 1 < 2 ^ (k + 1)" and "geometry (doubled h)" and "call_hash (doubled h) = call_hash h"
    and "(max_bucket h + 1) AND low_mask h = max_bucket h + 1 - 2 ^ k"
proof -
  obtain k where k: "low_mask h = 2 ^ k - 1" "high_mask h = 2 ^ (k + 1) - 1" "low_mask h \<le> max_bucket h" "max_bucket h \<le> high_mask h"
    using g by (auto simp: geometry_def)
  have am: "m AND (2 ^ k - 1) = m mod 2 ^ k" for m :: nat
    using take_bit_eq_mask [of k m] mask_eq_exp_minus_1 [of k, where 'a = nat] by (simp add: take_bit_eq_mod)
  have p2: "(2 :: nat) ^ k \<ge> 1" by simp
  show thesis
  proof (cases "max_bucket h = high_mask h")
    case False
    have "2 ^ k \<le> max_bucket h + 1" "max_bucket h + 1 < 2 ^ (k + 1)" using k False p2 by auto
    moreover from this have "(max_bucket h + 1) AND low_mask h = max_bucket h + 1 - 2 ^ k"
      unfolding k(1) am by (simp add: le_mod_geq)
    ultimately show thesis using that [of k] k False g by (simp add: doubled_def)
  next
    case True
    have mb: "max_bucket h + 1 = 2 ^ (k + 1)" using True k(2) by simp
    have d: "doubled h = h\<lparr>low_mask := 2 ^ (k + 1) - 1, high_mask := 2 ^ (k + 2) - 1\<rparr>"
      using True or_mask_nat [of "k + 1"] unfolding doubled_def mb unfolding k(2) by simp
    have g': "geometry (doubled h)"
      using g top k True mb unfolding geometry_def d by (intro conjI exI [of _ "k + 1"]) auto
    have "call_hash (doubled h) x = call_hash h x" for x
    proof -
      have "nat (hash h x mod 2 ^ (k + 1)) < 2 ^ (k + 1)" by (simp add: nat_less_iff)
      then have "\<not> nat (hash h x mod 2 ^ (k + 1)) > max_bucket h" using mb by linarith
      then have "call_hash h x = nat (hash h x mod 2 ^ (k + 1))" using call_hash_eq [OF g k(1,2), of x] by simp
      moreover have "call_hash (doubled h) x =
        (if nat (hash h x mod 2 ^ (k + 2)) > max_bucket h then nat (hash h x mod 2 ^ (k + 1)) else nat (hash h x mod 2 ^ (k + 2)))"
        using call_hash_eq [OF g', of "k + 1" x] by (simp add: d)
      moreover have "hash h x mod 2 ^ (k + 2) = hash h x mod 2 ^ (k + 1)" if "\<not> nat (hash h x mod 2 ^ (k + 2)) > max_bucket h"
      proof -
        have "int (max_bucket h + 1) = 2 ^ (k + 1)" unfolding mb by simp
        then have "hash h x mod 2 ^ (k + 2) < 2 ^ (k + 1)" using that by (simp only: not_less nat_le_iff)
        then have "hash h x mod 2 ^ (k + 2) mod 2 ^ (k + 1) = hash h x mod 2 ^ (k + 2)" by (simp add: mod_pos_pos_trivial)
        then show ?thesis by (simp add: mod_mod_cancel le_imp_power_dvd)
      qed
      ultimately show ?thesis by auto
    qed
    moreover have "(max_bucket h + 1) AND low_mask h = 0" unfolding k(1) am mb by simp
    ultimately show thesis using that [of "k + 1"] g' mb by (simp add: d fun_eq_iff)
  qed
qed

lemma grow_hash:
  assumes g: "geometry h1" and k: "low_mask h1 = 2 ^ k - 1" "high_mask h1 = 2 ^ (k + 1) - 1"
    and mb: "2 ^ k \<le> max_bucket h1 + 1" "max_bucket h1 + 1 < 2 ^ (k + 1)"
    and h2: "h2 = h1\<lparr>max_bucket := max_bucket h1 + 1\<rparr>"
  shows "geometry h2" and "call_hash h2 x = call_hash h1 x \<or> call_hash h1 x = max_bucket h1 + 1 - 2 ^ k \<and> call_hash h2 x = max_bucket h1 + 1"
proof -
  show g2: "geometry h2" using g k mb unfolding geometry_def h2 by (intro conjI exI [of _ k]) auto
  let ?u = "nat (hash h1 x mod 2 ^ (k + 1))"
  have e1: "call_hash h1 x = (if ?u > max_bucket h1 then nat (hash h1 x mod 2 ^ k) else ?u)" by (rule call_hash_eq [OF g k])
  have e2: "call_hash h2 x = (if ?u > max_bucket h1 + 1 then nat (hash h1 x mod 2 ^ k) else ?u)"
    using call_hash_eq [OF g2, of k x] k by (simp add: h2)
  have "nat (hash h1 x mod 2 ^ k) = max_bucket h1 + 1 - 2 ^ k" if "?u = max_bucket h1 + 1"
  proof -
    have u: "hash h1 x mod 2 ^ (k + 1) = int (max_bucket h1) + 1" using that by linarith
    have "hash h1 x mod 2 ^ k = (hash h1 x mod 2 ^ (k + 1)) mod 2 ^ k" by (simp add: mod_mod_cancel le_imp_power_dvd)
    also have "\<dots> = (int (max_bucket h1) + 1 - 2 ^ k) mod 2 ^ k" unfolding u by (metis mod_add_self2 diff_add_cancel)
    also have "\<dots> = int (max_bucket h1 + 1 - 2 ^ k)"
    proof -
      have "int (2 ^ k) \<le> int (max_bucket h1 + 1)" "int (max_bucket h1 + 1) < int (2 ^ (k + 1))"
        using mb by (simp_all only: of_nat_le_iff of_nat_less_iff)
      then have "(2 :: int) ^ k \<le> int (max_bucket h1) + 1" "int (max_bucket h1) + 1 < 2 * 2 ^ k" by simp_all
      then have "(int (max_bucket h1) + 1 - 2 ^ k) mod 2 ^ k = int (max_bucket h1) + 1 - 2 ^ k" by (intro mod_pos_pos_trivial) auto
      then show ?thesis using mb(1) by (simp only: of_nat_diff) simp
    qed
    finally show ?thesis by simp
  qed
  then show "call_hash h2 x = call_hash h1 x \<or> call_hash h1 x = max_bucket h1 + 1 - 2 ^ k \<and> call_hash h2 x = max_bucket h1 + 1"
    using e1 e2 by (auto split: if_splits)
qed

subsection \<open>The split\<close>

text \<open>There is a segment for the new bucket, or memory and a directory entry for one.\<close>

definition has_room :: "('k, 'v) HTAB \<Rightarrow> bool" where
  "has_room h \<longleftrightarrow> (max_bucket h + 1) div ssize h < nsegs h \<or>
     ((max_bucket h + 1) div ssize h = nsegs h \<and> nsegs h < dsize h \<and> ShmemFreeStart h + 8 * ssize h \<le> ShmemSize h)"

definition split_bucket :: "('k, 'v) HTAB \<Rightarrow> nat" where
  "split_bucket h = (max_bucket h + 1) AND low_mask h"

lemma expand_prepare:
  assumes inv: "hash_inv h C F" and room: "has_room h" and top: "2 * high_mask h + 1 < 2 ^ 32"
  obtains h2 where "expand_table h =
      (do { c \<leftarrow> get_link h2 (bucket_slot h2 (split_bucket h));
            h' \<leftarrow> relocate h2 (split_bucket h) (bucket_slot h2 (split_bucket h)) (bucket_slot h2 (max_bucket h + 1)) c; Some (h', True) })"
    and "max_bucket h2 = max_bucket h + 1" and "bucket_slot h2 = bucket_slot h" and "elems h2 = elems h"
    and "call_hash h2 = call_hash ((doubled h)\<lparr>max_bucket := max_bucket h + 1\<rparr>)" and "geometry h2 = geometry ((doubled h)\<lparr>max_bucket := max_bucket h + 1\<rparr>)"
    and "\<And>b. b \<le> max_bucket h \<Longrightarrow> get_link h2 (bucket_slot h b) = get_link h (bucket_slot h b)"
    and "get_link h2 (bucket_slot h (max_bucket h + 1)) = Some 0"
    and "\<And>b. b > max_bucket h \<Longrightarrow> get_link h2 (bucket_slot h b) \<in> {None, Some 0}"
    and "\<And>s. map_option length (dir h2 s) = (if s < nsegs h2 then Some (ssize h2) else None)"
    and "freeBucketIndex h2 = freeBucketIndex h" and "nkeys h2 = nkeys h" and "ShmemFreeStart h \<le> ShmemFreeStart h2"
proof -
  let ?n = "max_bucket h + 1"
  have g: "geometry h" by (rule hash_invD(1) [OF inv])
  have sz: "ssize h = 2 ^ sshift h" using g by (simp add: geometry_def)
  have dv: "drop_bit (sshift h) b = b div ssize h" for b :: nat by (simp add: sz drop_bit_eq_div)
  have se: "bucket_slot h b = Slot (b div ssize h) (b mod ssize h)" for b by (rule slot_eq [OF g])
  define d where "d = doubled h"
  have D: "doubled h = h\<lparr>low_mask := low_mask d, high_mask := high_mask d\<rparr>" by (simp add: d_def doubled_def)
  have dbl: "adjust_masks h' ?n = h'\<lparr>low_mask := low_mask d, high_mask := high_mask d\<rparr>"
    if "high_mask h' = high_mask h" "low_mask h' = low_mask h" for h' :: "('a, 'b) HTAB"
  proof -
    have "max_bucket h \<le> high_mask h" using g by (auto simp: geometry_def)
    then have "?n > high_mask h \<longleftrightarrow> max_bucket h = high_mask h" by auto
    then show ?thesis unfolding d_def doubled_def adjust_masks_def by (simp flip: that)
  qed
  show thesis
  proof (cases "?n div ssize h < nsegs h")
    case True
    define h2 where "h2 = h\<lparr>max_bucket := ?n, low_mask := low_mask d, high_mask := high_mask d\<rparr>"
    have ctl: "bucket_slot h2 = bucket_slot h" "get_link h2 = get_link h"
      by (auto simp: h2_def bucket_slot_def get_link_def fun_eq_iff split: link.splits)
    obtain seg where seg: "dir h (?n div ssize h) = Some seg" "length seg = ssize h" using hash_invD(9) [OF inv, of "?n div ssize h"] True by auto
    have "?n mod ssize h < ssize h" using sz by simp
    then have "get_link h (bucket_slot h ?n) = Some 0"
      using hash_invD(8) [OF inv, of ?n] seg by (auto simp: se get_link_def)
    then have sl: "get_link h2 (bucket_slot h ?n) = Some 0" unfolding ctl .
    have eq: "expand_table h = (do { c \<leftarrow> get_link h2 (bucket_slot h2 (split_bucket h));
            h' \<leftarrow> relocate h2 (split_bucket h) (bucket_slot h2 (split_bucket h)) (bucket_slot h2 ?n) c; Some (h', True) })"
      using True dbl [of "h\<lparr>max_bucket := ?n\<rparr>"] by (simp add: expand_table_def new_segment_def dv split_bucket_def h2_def)
    show thesis
    proof (rule that [OF eq])
      show "map_option length (dir h2 s) = (if s < nsegs h2 then Some (ssize h2) else None)" for s
        using hash_invD(9) [OF inv, of s] by (simp add: h2_def)
      show "get_link h2 (bucket_slot h b) \<in> {None, Some 0}" if "b > max_bucket h" for b
        unfolding ctl by (rule hash_invD(8) [OF inv that])
    qed (use sl ctl in \<open>simp_all add: h2_def D call_hash_def geometry_def Let_def fun_eq_iff\<close>)
  next
    case False
    then have r: "?n div ssize h = nsegs h" "nsegs h < dsize h" "ShmemFreeStart h + 8 * ssize h \<le> ShmemSize h" using room by (auto simp: has_room_def)
    define h2 where "h2 = h\<lparr>max_bucket := ?n, ShmemFreeStart := ShmemFreeStart h + 8 * ssize h, dir := (dir h)(nsegs h \<mapsto> replicate (ssize h) 0), nsegs := nsegs h + 1,
      low_mask := low_mask d, high_mask := high_mask d\<rparr>"
    have ss: "seg_alloc (h\<lparr>max_bucket := ?n\<rparr>) = Some (h\<lparr>max_bucket := ?n, ShmemFreeStart := ShmemFreeStart h + 8 * ssize h\<rparr>, Some (replicate (ssize h) 0))"
      using r(3) hash_invD(5) [OF inv] by (simp add: seg_alloc_def ShmemAlloc_def INVALID_INDEX_def)
    have bs: "bucket_slot h2 = bucket_slot h" by (auto simp: h2_def bucket_slot_def fun_eq_iff)
    have gl: "get_link h2 (bucket_slot h b) = (if b div ssize h = nsegs h then Some 0 else get_link h (bucket_slot h b))" for b
      using sz by (simp add: h2_def se get_link_def arr_get_def)
    have lo: "b div ssize h \<noteq> nsegs h" if "b \<le> max_bucket h" for b
    proof
      assume "b div ssize h = nsegs h"
      then have "get_link h (bucket_slot h b) = None" using hash_invD(9) [OF inv, of "nsegs h"] by (simp add: se get_link_def)
      then show False using chain_head [OF hash_inv_bucket(1) [OF inv that]] by simp
    qed
    have eq: "expand_table h = (do { c \<leftarrow> get_link h2 (bucket_slot h2 (split_bucket h));
            h' \<leftarrow> relocate h2 (split_bucket h) (bucket_slot h2 (split_bucket h)) (bucket_slot h2 ?n) c; Some (h', True) })"
      using r ss dbl [of "h\<lparr>max_bucket := ?n, ShmemFreeStart := ShmemFreeStart h + 8 * ssize h, dir := (dir h)(nsegs h \<mapsto> replicate (ssize h) 0), nsegs := nsegs h + 1\<rparr>"]
      by (simp add: expand_table_def new_segment_def dv split_bucket_def h2_def)
    show thesis
    proof (rule that [OF eq])
      show "map_option length (dir h2 s) = (if s < nsegs h2 then Some (ssize h2) else None)" for s
        using hash_invD(9) [OF inv, of s] by (auto simp: h2_def)
      show "get_link h2 (bucket_slot h b) \<in> {None, Some 0}" if "b > max_bucket h" for b
        using gl [of b] hash_invD(8) [OF inv that] by simp
    qed (use gl lo r(1) bs in \<open>simp_all add: h2_def D call_hash_def geometry_def Let_def fun_eq_iff\<close>)
  qed
qed

text \<open>The table grown by one bucket, and the two halves of the chain that is split.\<close>

definition grown :: "('k, 'v) HTAB \<Rightarrow> ('k, 'v) HTAB" where
  "grown h = (doubled h)\<lparr>max_bucket := max_bucket h + 1\<rparr>"

definition staying :: "('k, 'v) HTAB \<Rightarrow> nat list \<Rightarrow> nat list" where
  "staying h xs = filter (\<lambda>i. call_hash (grown h) (key_at h i) = split_bucket h) xs"

definition moving :: "('k, 'v) HTAB \<Rightarrow> nat list \<Rightarrow> nat list" where
  "moving h xs = filter (\<lambda>i. call_hash (grown h) (key_at h i) \<noteq> split_bucket h) xs"

lemma map_of_filter_key:
  "map_of (map (\<lambda>i. (f i, g i)) (filter (\<lambda>i. Q (f i)) xs)) k = (if Q k then map_of (map (\<lambda>i. (f i, g i)) xs) k else None)"
  by (induction xs) auto

lemma grown_hash:
  assumes "geometry h" and "2 * high_mask h + 1 < 2 ^ 32"
  shows "geometry (grown h)" and "split_bucket h \<le> max_bucket h"
    and "call_hash (grown h) x = call_hash h x \<or> call_hash h x = split_bucket h \<and> call_hash (grown h) x = max_bucket h + 1"
proof -
  obtain k where k: "low_mask (doubled h) = 2 ^ k - 1" "high_mask (doubled h) = 2 ^ (k + 1) - 1"
    "2 ^ k \<le> max_bucket h + 1" "max_bucket h + 1 < 2 ^ (k + 1)" "geometry (doubled h)" "call_hash (doubled h) = call_hash h"
    "(max_bucket h + 1) AND low_mask h = max_bucket h + 1 - 2 ^ k"
    using doubled_geometry [OF assms] by blast
  have m: "max_bucket (doubled h) = max_bucket h" by (simp add: doubled_def)
  have h2: "grown h = (doubled h)\<lparr>max_bucket := max_bucket (doubled h) + 1\<rparr>" by (simp add: grown_def m)
  note gr = grow_hash [OF k(5,1,2) _ _ h2, unfolded m, OF k(3,4)]
  show "geometry (grown h)" by (rule gr(1))
  show "call_hash (grown h) x = call_hash h x \<or> call_hash h x = split_bucket h \<and> call_hash (grown h) x = max_bucket h + 1"
    using gr(2) [of x] unfolding k(6) split_bucket_def k(7) .
  have "(2 :: nat) ^ k \<ge> 1" by simp
  then show "split_bucket h \<le> max_bucket h" unfolding split_bucket_def k(7) by linarith
qed

text \<open>
  The links after the split, before the bucket that was split is looked at: the chains as \<open>relocate\<close> leaves them. When no element
  stays, the slot of the old bucket is not written.
\<close>

lemma expand_links:
  assumes inv: "hash_inv h C F" and room: "has_room h" and top: "2 * high_mask h + 1 < 2 ^ 32"
    and ob: "ob = split_bucket h" and n: "n = max_bucket h + 1"
  obtains h2 h' where "expand_table h = Some (h', True)" and "relinked h2 h'"
    and "max_bucket h2 = n" and "bucket_slot h2 = bucket_slot h" and "elems h2 = elems h" and "call_hash h2 = call_hash (grown h)"
    and "geometry h2 = geometry (grown h)"
    and "\<And>s. map_option length (dir h2 s) = (if s < nsegs h2 then Some (ssize h2) else None)"
    and "freeBucketIndex h2 = freeBucketIndex h" and "nkeys h2 = nkeys h" and "ShmemFreeStart h \<le> ShmemFreeStart h2"
    and "\<And>b. b > max_bucket h \<Longrightarrow> get_link h2 (bucket_slot h b) \<in> {None, Some 0}"
    and "\<And>b. b \<le> max_bucket h \<Longrightarrow> chain (get_link h2) (bucket_slot h b) (C b)"
    and "if staying h (C ob) = [] then get_link h' (bucket_slot h ob) = Some (first_or_0 (C ob)) else chain (get_link h') (bucket_slot h ob) (staying h (C ob))"
    and "chain (get_link h') (bucket_slot h n) (moving h (C ob))"
    and "\<And>q. q \<notin> {bucket_slot h ob, bucket_slot h n} \<union> NextOf ` set (C ob) \<Longrightarrow> get_link h' q = get_link h2 q"
proof -
  note g = hash_invD(1) [OF inv]
  note gh = grown_hash [OF g top, folded ob n]
  note ib = hash_inv_bucket [OF inv]
  obtain h2 where ex: "expand_table h = (do { c \<leftarrow> get_link h2 (bucket_slot h2 ob);
            h' \<leftarrow> relocate h2 ob (bucket_slot h2 ob) (bucket_slot h2 n) c; Some (h', True) })"
    and s2: "max_bucket h2 = n" "bucket_slot h2 = bucket_slot h" "elems h2 = elems h" "call_hash h2 = call_hash (grown h)" "geometry h2 = geometry (grown h)"
    and L2: "\<And>b. b \<le> max_bucket h \<Longrightarrow> get_link h2 (bucket_slot h b) = get_link h (bucket_slot h b)" "get_link h2 (bucket_slot h n) = Some 0"
      "\<And>b. b > max_bucket h \<Longrightarrow> get_link h2 (bucket_slot h b) \<in> {None, Some 0}"
    and t2: "\<And>s. map_option length (dir h2 s) = (if s < nsegs h2 then Some (ssize h2) else None)"
      "freeBucketIndex h2 = freeBucketIndex h" "nkeys h2 = nkeys h" "ShmemFreeStart h \<le> ShmemFreeStart h2"
    unfolding ob n grown_def by (rule expand_prepare [OF inv room top]) blast
  have kd: "key_at h2 = key_at h" using s2(3) by (auto simp: key_at_def)
  have N2: "get_link h2 (NextOf x) = get_link h (NextOf x)" for x using s2(3) by (simp add: get_link_def)
  have obn: "ob \<le> max_bucket h" "ob \<noteq> n" using gh(2) by (auto simp: n)
  have ch2: "chain (get_link h2) (bucket_slot h b) (C b)" if "b \<le> max_bucket h" for b
    by (rule chain_frame [OF ib(1) [OF that]]) (use L2(1) [OF that] N2 in auto)
  have so: "get_link h2 (bucket_slot h ob) = Some (first_or_0 (C ob))" using chain_head [OF ch2 [OF obn(1)]] .
  have neq: "bucket_slot h b \<noteq> NextOf x" "NextOf x \<noteq> bucket_slot h b" for b x by (simp_all add: bucket_slot_def)
  have cf: "chain_from (get_link h2) (first_or_0 (C ob)) (C ob)"
    using ch2 [OF obn(1)] so chain_iff_from [of "get_link h2" "bucket_slot h ob" "C ob"] by simp
  have "rets (relocate h2 ob (link_after (bucket_slot h ob) []) (link_after (bucket_slot h n) []) (first_or_0 (C ob))) (\<lambda>h'. relinked h2 h' \<and>
    (if [] @ filter (\<lambda>i. call_hash h2 (key_at h2 i) = ob) (C ob) = [] then get_link h' (bucket_slot h ob) = get_link h2 (bucket_slot h ob)
     else chain (get_link h') (bucket_slot h ob) ([] @ filter (\<lambda>i. call_hash h2 (key_at h2 i) = ob) (C ob))) \<and>
    chain (get_link h') (bucket_slot h n) ([] @ filter (\<lambda>i. call_hash h2 (key_at h2 i) \<noteq> ob) (C ob)) \<and>
    (\<forall>q. q \<notin> {bucket_slot h ob, bucket_slot h n} \<union> NextOf ` (set [] \<union> set [] \<union> set (C ob)) \<longrightarrow> get_link h' q = get_link h2 q))"
    by (rule relocate_split) (use ib(2) [OF obn(1)] slot_inj [OF g, of ob n] obn neq so L2(2) cf in \<open>auto simp: image_iff\<close>)
  moreover have st: "filter (\<lambda>i. call_hash h2 (key_at h2 i) = ob) xs = staying h xs" and mv: "filter (\<lambda>i. call_hash h2 (key_at h2 i) \<noteq> ob) xs = moving h xs" for xs
    by (simp_all add: staying_def moving_def kd s2(4) ob)
  ultimately obtain h' where rel: "relocate h2 ob (bucket_slot h ob) (bucket_slot h n) (first_or_0 (C ob)) = Some h'" and r: "relinked h2 h'"
    and lo: "if staying h (C ob) = [] then get_link h' (bucket_slot h ob) = get_link h2 (bucket_slot h ob) else chain (get_link h') (bucket_slot h ob) (staying h (C ob))"
    and ln: "chain (get_link h') (bucket_slot h n) (moving h (C ob))"
    and fr: "\<And>q. q \<notin> {bucket_slot h ob, bucket_slot h n} \<union> NextOf ` set (C ob) \<Longrightarrow> get_link h' q = get_link h2 q"
    unfolding st mv append_Nil link_after_Nil by (elim retsE) auto
  have "expand_table h = Some (h', True)" unfolding ex using so rel s2(2) by simp
  from that [OF this r s2 t2 L2(3) ch2 lo [unfolded so] ln fr] show thesis .
qed

lemma expand_inv:
  assumes inv: "hash_inv h C F" and room: "has_room h" and top: "2 * high_mask h + 1 < 2 ^ 32"
    and good: "C (split_bucket h) = [] \<or> staying h (C (split_bucket h)) \<noteq> []"
    and C': "C' = C(split_bucket h := staying h (C (split_bucket h)), max_bucket h + 1 := moving h (C (split_bucket h)))"
  shows "rets (expand_table h) (\<lambda>(h', ok). ok \<and> hash_inv h' C' F \<and> table h' C' = table h C \<and> nkeys h' = nkeys h \<and>
    max_bucket h' = max_bucket h + 1 \<and> key_at h' = key_at h \<and> data_at h' = data_at h)"
proof -
  define ob n where "ob = split_bucket h" and "n = max_bucket h + 1"
  note g = hash_invD(1) [OF inv]
  note gh = grown_hash [OF g top, folded ob_def n_def]
  note ib = hash_inv_bucket [OF inv]
  obtain h2 h' where ex': "expand_table h = Some (h', True)" and r: "relinked h2 h'"
    and s2: "max_bucket h2 = n" "bucket_slot h2 = bucket_slot h" "elems h2 = elems h" "call_hash h2 = call_hash (grown h)" "geometry h2 = geometry (grown h)"
    and t2: "\<And>s. map_option length (dir h2 s) = (if s < nsegs h2 then Some (ssize h2) else None)"
      "freeBucketIndex h2 = freeBucketIndex h" "nkeys h2 = nkeys h" "ShmemFreeStart h \<le> ShmemFreeStart h2"
    and L2: "\<And>b. b > max_bucket h \<Longrightarrow> get_link h2 (bucket_slot h b) \<in> {None, Some 0}"
    and ch2: "\<And>b. b \<le> max_bucket h \<Longrightarrow> chain (get_link h2) (bucket_slot h b) (C b)"
    and lo: "if staying h (C ob) = [] then get_link h' (bucket_slot h ob) = Some (first_or_0 (C ob)) else chain (get_link h') (bucket_slot h ob) (staying h (C ob))"
    and ln: "chain (get_link h') (bucket_slot h n) (moving h (C ob))"
    and fr: "\<And>q. q \<notin> {bucket_slot h ob, bucket_slot h n} \<union> NextOf ` set (C ob) \<Longrightarrow> get_link h' q = get_link h2 q"
    by (rule expand_links [OF inv room top ob_def n_def]) blast
  have kd: "key_at h2 = key_at h" "data_at h2 = data_at h" using s2(3) by (auto simp: key_at_def data_at_def)
  have N2: "get_link h2 (NextOf x) = get_link h (NextOf x)" for x using s2(3) by (simp add: get_link_def)
  have obn: "ob \<le> max_bucket h" "ob \<noteq> n" "ob \<le> n" using gh(2) by (auto simp: n_def)
  have neq: "bucket_slot h b \<noteq> NextOf x" "NextOf x \<noteq> bucket_slot h b" for b x by (simp_all add: bucket_slot_def)
  note rs = relinked_simps [OF r]
  have stay: "chain (get_link h') (bucket_slot h ob) (staying h (C ob))"
  proof (cases "staying h (C ob) = []")
    case True
    then have "C ob = []" using good by (simp add: ob_def)
    then show ?thesis using True lo by (simp add: first_or_0_def staying_def)
  qed (use lo in simp)
  have other: "chain (get_link h') (bucket_slot h b) (C b)" if b: "b \<le> max_bucket h" "b \<noteq> ob" for b
  proof (rule chain_frame [OF ch2 [OF b(1)]])
    fix q assume "q \<in> insert (bucket_slot h b) (NextOf ` set (C b))"
    moreover have "bucket_slot h b \<noteq> bucket_slot h ob" "bucket_slot h b \<noteq> bucket_slot h n" using slot_inj [OF g] b by (auto simp: n_def)
    ultimately show "get_link h' q = get_link h2 q" using hash_invD(7) [OF inv b(1) obn(1) b(2)] neq by (intro fr) (auto simp: image_iff)
  qed
  have C'e: "C' b = (if b = n then moving h (C ob) else if b = ob then staying h (C ob) else C b)" for b
    by (simp add: C' ob_def n_def)
  have sm: "staying h xs = filter (\<lambda>i. call_hash (grown h) (key_at h i) = ob) xs" "moving h xs = filter (\<lambda>i. call_hash (grown h) (key_at h i) \<noteq> ob) xs" for xs
    by (simp_all add: staying_def moving_def ob_def)
  have fil: "\<exists>Q. C' b = filter Q (C (if b = n then ob else b))" for b
    unfolding C'e sm by (auto intro: exI [of _ "\<lambda>_. True"])
  have sub: "set (C' b) \<subseteq> set (C (if b = n then ob else b))" for b by (auto simp: C'e sm)
  have inv': "hash_inv h' C' F"
    unfolding hash_inv_def rs(1,2,3,5,6,7,9,10,11,15) s2(1) s2(2) t2(2,3) kd(1) s2(3)
  proof (intro conjI allI impI ballI)
    show "geometry h'" using relinked_geometry [OF r] s2(5) gh(1) by simp
    fix b assume b: "b \<le> n"
    let ?c = "if b = n then ob else b"
    have c: "?c \<le> max_bucket h" using b obn(1) by (auto simp: n_def)
    show "chain (get_link h') (bucket_slot h b) (C' b)" using stay ln other b by (auto simp: C'e n_def)
    obtain Q where Q: "C' b = filter Q (C ?c)" using fil by blast
    show "distinct (C' b)" using ib(2) [OF c] by (simp add: Q)
    show "distinct (map (key_at h) (C' b))" using ib(3) [OF c] by (simp only: Q distinct_map_filter)
    show "set (C' b) \<inter> set F = {}" using sub [of b] ib(5) [OF c] by blast
    show "call_hash h2 (key_at h x) = b" if "x \<in> set (C' b)" for x
    proof -
      have x: "x \<in> set (C ?c)" using that sub by blast
      have "call_hash h (key_at h x) = ?c" using ib(4) [OF c x] by simp
      then show ?thesis using that gh(3) [of "key_at h x"] obn unfolding s2(4) C'e sm by (auto split: if_splits)
    qed
    show "set (C' b) \<inter> set (C' d) = {}" if d: "d \<le> n" "b \<noteq> d" for d
    proof (cases "{b, d} = {ob, n}")
      case True then show ?thesis using d obn by (auto simp: C'e sm doubleton_eq_iff)
    next
      case False
      let ?d = "if d = n then ob else d"
      have "?c \<noteq> ?d" "?d \<le> max_bucket h" using False d obn(1) by (auto simp: n_def)
      then show ?thesis using sub [of b] sub [of d] hash_invD(7) [OF inv c] by blast
    qed
  next
    show "chain_from (get_link h') (freeBucketIndex h) F"
    proof (rule chain_from_frame [OF hash_invD(2) [OF inv]])
      fix q assume "q \<in> NextOf ` set F"
      then obtain x where x: "x \<in> set F" "q = NextOf x" by blast
      then have "x \<notin> set (C ob)" using ib(5) [OF obn(1)] by blast
      then have "get_link h' (NextOf x) = get_link h2 (NextOf x)" using neq by (intro fr) auto
      then show "get_link h' q = get_link h q" using N2 x by simp
    qed
    show "distinct F" by (rule hash_invD(3) [OF inv])
    have "(\<Sum>b\<le>n. length (C' b)) = (\<Sum>b\<le>max_bucket h. length (C' b)) + length (C' n)" by (simp add: n_def)
    also have "(\<Sum>b\<le>max_bucket h. length (C' b)) = length (C' ob) + (\<Sum>b\<in>{..max_bucket h} - {ob}. length (C' b))"
      using obn(1) by (subst sum.remove [of _ ob]) auto
    also have "(\<Sum>b\<in>{..max_bucket h} - {ob}. length (C' b)) = (\<Sum>b\<in>{..max_bucket h} - {ob}. length (C b))"
      by (rule sum.cong) (auto simp: C'e n_def)
    finally have "(\<Sum>b\<le>n. length (C' b)) = length (C ob) + (\<Sum>b\<in>{..max_bucket h} - {ob}. length (C b))"
      using sum_length_filter_compl [of "\<lambda>i. call_hash (grown h) (key_at h i) = ob" "C ob"] obn(2) by (simp add: C'e sm)
    then show "nkeys h = (\<Sum>b\<le>n. length (C' b))"
      using hash_invD(4) [OF inv] obn(1) sum.remove [of "{..max_bucket h}" ob "\<lambda>b. length (C b)"] by simp
    show "0 < ShmemFreeStart h2" using hash_invD(5) [OF inv] t2(4) by simp
    show "i < ShmemFreeStart h2" if "i \<in> dom (elems h)" for i using hash_invD(6) [OF inv that] t2(4) by simp
    show "get_link h' (bucket_slot h b) \<in> {None, Some 0}" if "n < b" for b
      using L2 [of b] that fr [of "bucket_slot h b"] slot_inj [OF g] obn neq by (auto simp: n_def image_iff)
    show "map_option length (dir h' s) = (if s < nsegs h2 then Some (ssize h2) else None)" for s
      using rs(21) [of s] t2(1) by simp
  qed
  have "table h' C' k = table h C k" for k
    using gh(3) [of k] obn map_of_filter_key [of "key_at h" "data_at h" "\<lambda>x. call_hash (grown h) x = ob" "C ob" k]
      map_of_filter_key [of "key_at h" "data_at h" "\<lambda>x. call_hash (grown h) x \<noteq> ob" "C ob" k] hash_inv_call [OF inv, of k]
    by (auto simp: table_def rs s2 kd C'e sm n_def split: if_splits)
  then show ?thesis using ex' inv' rs t2 kd s2(1) by (auto simp: n_def)
qed

text \<open>
  When every element of a bucket that is not empty moves, its slot and the slot of the new bucket both point to the first of them. No
  chains describe such a table.
\<close>

lemma expand_shares:
  assumes inv: "hash_inv h C F" and room: "has_room h" and top: "2 * high_mask h + 1 < 2 ^ 32"
    and bad: "C (split_bucket h) \<noteq> []" "staying h (C (split_bucket h)) = []"
  shows "rets (expand_table h) (\<lambda>(h', ok). ok \<and> max_bucket h' = max_bucket h + 1 \<and> call_hash h' = call_hash (grown h) \<and>
    (\<exists>x. x \<noteq> 0 \<and> get_link h' (bucket_slot h' (split_bucket h)) = Some x \<and> get_link h' (bucket_slot h' (max_bucket h')) = Some x \<and>
      call_hash h' (key_at h' x) = max_bucket h') \<and> \<not> (\<exists>C' F'. hash_inv h' C' F'))"
proof -
  define ob n where "ob = split_bucket h" and "n = max_bucket h + 1"
  note gh = grown_hash [OF hash_invD(1) [OF inv] top, folded ob_def n_def]
  obtain h2 h' where ex: "expand_table h = Some (h', True)" and r: "relinked h2 h'"
    and s2: "max_bucket h2 = n" "bucket_slot h2 = bucket_slot h" "elems h2 = elems h" "call_hash h2 = call_hash (grown h)"
    and lo: "if staying h (C ob) = [] then get_link h' (bucket_slot h ob) = Some (first_or_0 (C ob)) else chain (get_link h') (bucket_slot h ob) (staying h (C ob))"
    and ln: "chain (get_link h') (bucket_slot h n) (moving h (C ob))"
    by (rule expand_links [OF inv room top ob_def n_def]) blast
  note rs = relinked_simps [OF r]
  have mv: "moving h (C ob) = C ob" using bad(2) by (simp add: moving_def staying_def ob_def filter_id_conv filter_empty_conv)
  obtain x xs where x: "C ob = x # xs" using bad(1) by (cases "C ob") (auto simp: ob_def)
  have le: "ob \<le> max_bucket h" "ob \<le> n" "ob \<noteq> n" using gh(2) by (auto simp: n_def)
  have ln': "get_link h' (bucket_slot h n) = Some x" using chain_head [OF ln] unfolding mv by (simp add: x first_or_0_def)
  have lo': "get_link h' (bucket_slot h ob) = Some x" using lo bad(2) x by (simp add: first_or_0_def ob_def)
  have x0: "x \<noteq> 0" using hash_inv_bucket(1) [OF inv le(1)] by (auto simp: x)
  have kx: "key_at h' x = key_at h x" using rs s2(3) by (simp add: key_at_def)
  have "call_hash h (key_at h x) = ob" using hash_inv_bucket(4) [OF inv le(1), of x] x by simp
  moreover have "call_hash (grown h) (key_at h x) \<noteq> ob" using bad(2) x by (auto simp: staying_def ob_def split: if_splits)
  ultimately have hx: "call_hash (grown h) (key_at h x) = n" using gh(3) [of "key_at h x"] by auto
  have eqs: "max_bucket h' = n" "bucket_slot h' = bucket_slot h" "call_hash h' = call_hash (grown h)" using rs s2 by (auto simp: fun_eq_iff)
  have "\<not> hash_inv h' C' F'" for C' F'
  proof
    assume i: "hash_inv h' C' F'"
    have "first_or_0 (C' ob) = x" "first_or_0 (C' n) = x"
      using chain_head [OF hash_inv_bucket(1) [OF i, of ob]] chain_head [OF hash_inv_bucket(1) [OF i, of n]] lo' ln' le(2) by (simp_all add: eqs)
    then have "x \<in> set (C' ob) \<inter> set (C' n)" using x0 by (cases "C' ob"; cases "C' n") (auto simp: first_or_0_def)
    moreover have "set (C' ob) \<inter> set (C' n) = {}" using hash_invD(7) [OF i, of ob n] le by (simp add: eqs)
    ultimately show False by blast
  qed
  then show ?thesis using ex eqs lo' ln' x0 kx hx by (auto simp: ob_def n_def)
qed

end
