(* ===== verification/DynaHash_Map.thy ===== *)
theory DynaHash_Map
  imports DynaHash_Expand
begin

text \<open>
  The table as a finite map: \<open>hash_table h m\<close> says that \<open>h\<close> is a well-formed table whose entries are
  those of \<open>m\<close>, and every action of \<open>hash_search\<close> is followed on \<open>m\<close>.
\<close>

definition hash_table :: "('k, 'v) HTAB \<Rightarrow> ('k \<rightharpoonup> 'v) \<Rightarrow> bool" where
  "hash_table h m \<longleftrightarrow> (\<exists>C F. hash_inv h C F \<and> table h C = m)"

lemma hash_tableI: "hash_inv h C F \<Longrightarrow> table h C = m \<Longrightarrow> hash_table h m"
  by (auto simp: hash_table_def)

lemma find_map:
  assumes "hash_table h m"
  shows "rets (hash_search h k HASH_FIND sv) (\<lambda>(h', r, found, sv'). h' = h \<and> sv' = sv \<and> found = (m k \<noteq> None) \<and>
    (if found then \<exists>i. r = KeyOf i \<and> elem_data h i = m k else r = True_Ptr))"
  using assms find_ok unfolding hash_table_def by fastforce

subsection \<open>Removing\<close>

lemma find_remove:
  assumes "hash_table h m"
  shows "rets (hash_search h k HASH_REMOVE sv) (\<lambda>(h', r, found, sv'). sv' = sv \<and> found = (m k \<noteq> None) \<and> hash_table h' (m(k := None)) \<and>
      (if found then \<exists>i. r = KeyOf i \<and> elem_data h' i = m k else r = True_Ptr \<and> h' = h))"
    and "rets (hash_search h k HASH_FIND_SAVE sv) (\<lambda>(h', r, found, sv'). h' = h \<and> found = (m k \<noteq> None) \<and>
      (if found then \<exists>i. r = KeyOf i \<and> elem_data h i = m k else r = True_Ptr \<and> sv' = sv) \<and>
      (found \<longrightarrow> (\<forall>key. hash_search h key HASH_REMOVE_SAVED sv' = map_option (\<lambda>(h', r, found, _). (h', r, found, None)) (hash_search h k HASH_REMOVE sv))))"
proof -
  define b where "b = call_hash h k"
  obtain C F where inv: "hash_inv h C F" and m: "table h C = m" using assms by (auto simp: hash_table_def)
  obtain as bs where s: "C b = as @ bs" "\<forall>i\<in>set as. key_at h i \<noteq> k" "bs = [] \<or> key_at h (hd bs) = k"
    "get_link h (bucket_slot h b) = Some (first_or_0 (C b))"
    "find_chain h k (bucket_slot h b) (first_or_0 (C b)) = Some (link_after (bucket_slot h b) as, first_or_0 bs)"
    using search_split [OF inv b_def] by blast
  show "rets (hash_search h k HASH_REMOVE sv) (\<lambda>(h', r, found, sv'). sv' = sv \<and> found = (m k \<noteq> None) \<and> hash_table h' (m(k := None)) \<and>
      (if found then \<exists>i. r = KeyOf i \<and> elem_data h' i = m k else r = True_Ptr \<and> h' = h))" (is ?r)
    and "rets (hash_search h k HASH_FIND_SAVE sv) (\<lambda>(h', r, found, sv'). h' = h \<and> found = (m k \<noteq> None) \<and>
      (if found then \<exists>i. r = KeyOf i \<and> elem_data h i = m k else r = True_Ptr \<and> sv' = sv) \<and>
      (found \<longrightarrow> (\<forall>key. hash_search h key HASH_REMOVE_SAVED sv' = map_option (\<lambda>(h', r, found, _). (h', r, found, None)) (hash_search h k HASH_REMOVE sv))))" (is ?s)
  proof (atomize (full), cases bs)
    case Nil
    then have "m k = None" using s(1,2) m by (auto simp: table_None simp flip: b_def)
    moreover have "m(k := None) = m" using calculation by auto
    ultimately show "?r \<and> ?s" using s(4,5) Nil hash_tableI [OF inv m] by (simp add: hash_search_def first_or_0_def INVALID_INDEX_def flip: b_def)
  next
    case (Cons i cs)
    have c: "chain (get_link h) (bucket_slot h b) (C b)" using hash_inv_bucket(1) [OF inv, of b] hash_inv_call [OF inv, of k] by (simp add: b_def)
    have i0: "first_or_0 bs = i" "i \<noteq> 0" using chain_nonzero [OF c] Cons s(1) by (auto simp: first_or_0_def)
    have k: "key_at h i = k" using s(3) Cons by simp
    have mk: "m k = Some (data_at h i)" unfolding m [symmetric] by (rule table_Some [OF inv]) (use s Cons k in \<open>auto simp: b_def\<close>)
    have Cb: "C b = as @ i # cs" using s(1) Cons by simp
    obtain h' where h': "hash_remove h (link_after (bucket_slot h b) as) i = Some h'" "hash_table h' (m(k := None))" "elem_data h' i = m k"
      using remove_inv [OF inv k b_def Cb] m by (elim retsE) (auto intro: hash_tableI)
    have "i \<in> dom (elems h)" using hash_inv_elems [OF inv, of i b] hash_inv_call [OF inv, of k] Cb by (simp add: b_def)
    then have "elem_data h i = m k" using mk by (auto simp: elem_data_def data_at_def)
    then show "?r \<and> ?s" using s(4,5) i0 h' mk by (simp add: hash_search_def INVALID_INDEX_def flip: b_def)
  qed
qed

subsection \<open>Setting the data of an entry\<close>

lemma set_data_inv:
  assumes inv: "hash_inv h C F" and i: "i \<in> set (C (call_hash h k))" and k: "key_at h i = k"
  shows "rets (set_data h i v) (\<lambda>h'. hash_inv h' C F \<and> table h' C = (table h C)(k \<mapsto> v))"
proof -
  let ?b = "call_hash h k"
  have b: "?b \<le> max_bucket h" by (rule hash_inv_call [OF inv])
  obtain e where e: "elems h i = Some e" using hash_inv_elems [OF inv i b] by auto
  define h' where "h' = h\<lparr>elems := (elems h)(i \<mapsto> e\<lparr>edata := v\<rparr>)\<rparr>"
  have eq: "set_data h i v = Some h'" by (simp add: set_data_def e h'_def)
  have L: "get_link h' = get_link h" and K: "key_at h' = key_at h" and D: "data_at h' = (data_at h)(i := v)"
    using e by (auto simp: h'_def get_link_def key_at_def data_at_def fun_eq_iff split: link.splits)
  have ctl: "call_hash h' = call_hash h" "bucket_slot h' = bucket_slot h" "geometry h' = geometry h" "dom (elems h') = dom (elems h)"
    using e by (auto simp: h'_def)
  have "hash_inv h' C F" using inv unfolding hash_inv_def L K ctl by (simp add: h'_def)
  moreover have "table h' C j = ((table h C)(k \<mapsto> v)) j" for j
  proof (cases "j = k")
    case True
    then show ?thesis using table_Some [OF calculation, of i k] i k K ctl D by simp
  next
    case False
    have "map_of (map (\<lambda>x. (key_at h x, ((data_at h)(i := v)) x)) xs) j = map_of (map (\<lambda>x. (key_at h x, data_at h x)) xs) j" for xs
      using False k by (induction xs) auto
    then show ?thesis using False by (simp add: table_def K D ctl)
  qed
  ultimately show ?thesis using eq by auto
qed

subsection \<open>Entering\<close>

text \<open>
  What \<open>hash_search\<close> may do to a table when it enters a key: take memory for elements, and one for a
  segment. A split is harmless when the bucket that is split is empty or keeps one of its keys.
\<close>

definition split_ok :: "('k, 'v) HTAB \<Rightarrow> 'k set \<Rightarrow> bool" where
  "split_ok h K \<longleftrightarrow> (\<exists>k\<in>K. call_hash (grown h) k = split_bucket h) \<or> (\<forall>k\<in>K. call_hash h k \<noteq> split_bucket h)"

definition must_grow :: "('k, 'v) HTAB \<Rightarrow> bool" where
  "must_grow h \<longleftrightarrow> (nkeys h + 1) div (max_bucket h + 1) > ffactor h"

definition can_grow :: "('k, 'v) HTAB \<Rightarrow> bool" where
  "can_grow h \<longleftrightarrow> 2 * high_mask h + 1 < 2 ^ 32 \<and> ((max_bucket h + 1) div ssize h < nsegs h \<or>
     ((max_bucket h + 1) div ssize h = nsegs h \<and> nsegs h < dsize h \<and>
      ShmemFreeStart h + 8 * ssize h + BUCKET_ALLOC_INCR * bucket_size h \<le> ShmemSize h))"

definition has_element :: "('k, 'v) HTAB \<Rightarrow> bool" where
  "has_element h \<longleftrightarrow> freeBucketIndex h \<noteq> INVALID_INDEX \<or> ShmemFreeStart h + BUCKET_ALLOC_INCR * bucket_size h \<le> ShmemSize h"

text \<open>The control block fields that linking an element in and allocating elements leave alone.\<close>

definition same_shape :: "('k, 'v) HTAB \<Rightarrow> ('k, 'v) HTAB \<Rightarrow> bool" where
  "same_shape h h' \<longleftrightarrow> hash h' = hash h \<and> max_bucket h' = max_bucket h \<and> low_mask h' = low_mask h \<and> high_mask h' = high_mask h \<and>
     ssize h' = ssize h \<and> sshift h' = sshift h \<and> nsegs h' = nsegs h \<and> dsize h' = dsize h \<and> ffactor h' = ffactor h \<and>
     ShmemSize h' = ShmemSize h"

lemma same_shape_trans: "same_shape h h' \<Longrightarrow> same_shape h' h'' \<Longrightarrow> same_shape h h''"
  by (simp add: same_shape_def)

lemma same_shape_hash:
  assumes "same_shape h h'"
  shows "call_hash h' = call_hash h" and "call_hash (grown h') = call_hash (grown h)" and "split_bucket h' = split_bucket h"
    and "bucket_slot h' = bucket_slot h"
  using assms by (auto simp: same_shape_def call_hash_def grown_def doubled_def split_bucket_def bucket_slot_def fun_eq_iff Let_def)

lemma linked_in_shape: "linked_in h k p = Some h' \<Longrightarrow> same_shape h h' \<and> ShmemFreeStart h' = ShmemFreeStart h"
  by (auto simp: linked_in_def same_shape_def set_link_def split: Option.bind_splits link.splits)

lemma bucket_alloc_shape:
  assumes "bucket_alloc h = Some (h', ok)"
  shows "same_shape h h'" and "ShmemFreeStart h' \<le> ShmemFreeStart h + BUCKET_ALLOC_INCR * bucket_size h"
proof -
  have "BUCKET_ALLOC_INCR * bucket_size h mod 8 = 0" using bucket_size_aligned [of h] by (metis mod_mult_right_eq mult_0_right mod_0)
  then show "same_shape h h'" and "ShmemFreeStart h' \<le> ShmemFreeStart h + BUCKET_ALLOC_INCR * bucket_size h"
    using assms by (auto simp: bucket_alloc_def ShmemAlloc_def same_shape_def Let_def split: Option.bind_splits option.splits if_splits)
qed

text \<open>An element is at hand, from the free list or from memory.\<close>

lemma element_ready:
  assumes inv: "hash_inv h C F" and has: "has_element h"
  obtains h1 i F1 where "(if freeBucketIndex h = INVALID_INDEX then bucket_alloc h else Some (h, True)) = Some (h1, True)"
    and "hash_inv h1 C (i # F1)" and "table h1 C = table h C" and "same_shape h h1" and "nkeys h1 = nkeys h"
    and "freeBucketIndex h1 = i" and "i \<noteq> 0" and "ShmemFreeStart h1 \<le> ShmemFreeStart h + BUCKET_ALLOC_INCR * bucket_size h"
proof (cases "freeBucketIndex h = INVALID_INDEX")
  case True
  have "F = []" using hash_invD(2) [OF inv] True by (cases F) (auto simp: chain_from_def INVALID_INDEX_def)
  then have "hash_inv h C []" using inv by simp
  from bucket_alloc_inv [OF this] obtain h1 where b: "bucket_alloc h = Some (h1, True)"
    and r: "\<exists>F. F \<noteq> [] \<and> hash_inv h1 C F" "table h1 C = table h C" "nkeys h1 = nkeys h"
    using has True unfolding has_element_def rets_def by (auto split: if_splits)
  obtain i F1 where F1: "hash_inv h1 C (i # F1)" using r(1) by (metis neq_Nil_conv)
  have "freeBucketIndex h1 = i" "i \<noteq> 0" using hash_invD(2) [OF F1] by (simp_all add: chain_from_def)
  then show thesis using that [OF _ F1] b r True bucket_alloc_shape [OF b] by simp
next
  case False
  then obtain i F1 where "F = i # F1" using hash_invD(2) [OF inv] by (cases F) (auto simp: chain_from_def INVALID_INDEX_def)
  then show thesis using that [of h i F1] inv False hash_invD(2) [OF inv] by (simp add: same_shape_def chain_from_def)
qed


text \<open>The condition on a split, read off the chains.\<close>

lemma split_ok_chains:
  assumes inv: "hash_inv h C F" and ok: "split_ok h (dom (table h C))" and top: "2 * high_mask h + 1 < 2 ^ 32"
  shows "C (split_bucket h) = [] \<or> staying h (C (split_bucket h)) \<noteq> []"
proof (cases "C (split_bucket h)")
  case (Cons x xs)
  let ?s = "split_bucket h"
  note gh = grown_hash [OF hash_invD(1) [OF inv] top]
  have x: "x \<in> set (C ?s)" using Cons by simp
  have hx: "call_hash h (key_at h x) = ?s" by (rule hash_inv_bucket(4) [OF inv gh(2) x])
  have "table h C (key_at h x) = Some (data_at h x)" by (rule table_Some [OF inv]) (use x hx in auto)
  then have "key_at h x \<in> dom (table h C)" by blast
  then obtain k where k: "k \<in> dom (table h C)" "call_hash (grown h) k = ?s" using ok hx by (auto simp: split_ok_def)
  then have "call_hash h k = ?s" using gh(2) gh(3) [of k] by auto
  moreover obtain y where "y \<in> set (C (call_hash h k))" "key_at h y = k"
    using k(1) by (metis domIff table_None)
  ultimately show ?thesis using k(2) by (auto simp: staying_def filter_empty_conv)
qed simp

text \<open>The other case: no key of the bucket stays.\<close>

lemma split_bad_chains:
  assumes inv: "hash_inv h C F" and bad: "\<not> split_ok h (dom (table h C))"
  shows "C (split_bucket h) \<noteq> []" and "staying h (C (split_bucket h)) = []"
proof -
  let ?s = "split_bucket h"
  obtain k where k: "k \<in> dom (table h C)" "call_hash h k = ?s" and none: "\<forall>k\<in>dom (table h C). call_hash (grown h) k \<noteq> ?s"
    using bad by (auto simp: split_ok_def)
  obtain y where y: "y \<in> set (C ?s)" using k by (metis domIff table_None)
  then show "C ?s \<noteq> []" by auto
  have le: "?s \<le> max_bucket h" using hash_inv_call [OF inv, of k] k(2) by simp
  have "call_hash (grown h) (key_at h x) \<noteq> ?s" if x: "x \<in> set (C ?s)" for x
  proof -
    have "call_hash h (key_at h x) = ?s" by (rule hash_inv_bucket(4) [OF inv le x])
    then have "table h C (key_at h x) = Some (data_at h x)" by (intro table_Some [OF inv]) (use x in auto)
    then show ?thesis using none by blast
  qed
  then show "staying h (C ?s) = []" by (simp add: staying_def filter_empty_conv)
qed

lemma entry_set:
  assumes inv: "hash_inv h C F" and c: "i \<in> set (C c)" "c \<le> max_bucket h" and k: "key_at h i = k" and m: "table h C = m(k \<mapsto> d)"
  shows "rets (set_data h i v) (\<lambda>h'. hash_table h' (m(k \<mapsto> v)))"
proof -
  have "i \<in> set (C (call_hash h k))" using hash_inv_bucket(4) [OF inv c(2,1)] c k by simp
  from set_data_inv [OF inv this k, of v] show ?thesis by (rule rets_mono) (auto simp: m intro: hash_tableI)
qed

text \<open>The last part of \<open>hash_search\<close>: the table grows when it is filled beyond its fill factor.\<close>

lemma grow_after_enter:
  assumes inv: "hash_inv h C F" and i: "i \<in> set (C c)" "c \<le> max_bucket h" and k: "key_at h i = k" and m: "table h C = m(k \<mapsto> d)"
    and grow: "g \<Longrightarrow> has_room h \<and> 2 * high_mask h + 1 < 2 ^ 32 \<and> split_ok h (insert k (dom m))"
  shows "rets (if g then expand_table h else Some (h, True)) (\<lambda>(h', ok). ok \<and> hash_table h' (m(k \<mapsto> d)) \<and>
    nkeys h' = nkeys h \<and> max_bucket h' = max_bucket h + of_bool g \<and> (\<forall>v. rets (set_data h' i v) (\<lambda>h''. hash_table h'' (m(k \<mapsto> v)))))"
proof (cases g)
  case False
  then show ?thesis using hash_tableI [OF inv m] entry_set [OF inv i k m] by simp
next
  case True
  note g = grow [OF this, THEN conjunct1] grow [OF this, THEN conjunct2, THEN conjunct1] grow [OF this, THEN conjunct2, THEN conjunct2]
  let ?s = "split_bucket h"
  define C' where C': "C' = C(?s := staying h (C ?s), max_bucket h + 1 := moving h (C ?s))"
  have "dom (table h C) = insert k (dom m)" by (auto simp: m)
  then have "split_ok h (dom (table h C))" using g(3) by simp
  from split_ok_chains [OF inv this g(2)] have ok: "C ?s = [] \<or> staying h (C ?s) \<noteq> []" .
  obtain h' where h': "expand_table h = Some (h', True)" "hash_inv h' C' F" "table h' C' = m(k \<mapsto> d)" "nkeys h' = nkeys h"
    "max_bucket h' = max_bucket h + 1" "key_at h' = key_at h"
    using expand_inv [OF inv g(1,2) ok C'] m by (elim retsE) auto
  have "?s \<le> max_bucket h" by (rule grown_hash(2) [OF hash_invD(1) [OF inv] g(2)])
  then have "i \<in> set (C' c) \<or> i \<in> set (C' (max_bucket h + 1))"
    using i by (auto simp: C' staying_def moving_def)
  then obtain c' where "i \<in> set (C' c')" "c' \<le> max_bucket h'" using h'(5) i(2) by (metis Suc_eq_plus1 le_SucI order_refl)
  from entry_set [OF h'(2) this _ h'(3)] show ?thesis using h' k True hash_tableI [OF h'(2,3)] by simp
qed

lemma enter_new:
  assumes inv: "hash_inv h C F" and new: "table h C k = None" and has: "has_element h"
    and grow: "must_grow h \<Longrightarrow> can_grow h \<and> split_ok h (insert k (dom (table h C)))"
  shows "rets (hash_search h k HASH_ENTER sv) (\<lambda>(h', r, found, sv'). \<not> found \<and> sv' = sv \<and> nkeys h' = nkeys h + 1 \<and>
    max_bucket h' = max_bucket h + of_bool (must_grow h) \<and>
    (\<exists>i d. r = KeyOf i \<and> hash_table h' ((table h C)(k \<mapsto> d)) \<and> (\<forall>v. rets (set_data h' i v) (\<lambda>h''. hash_table h'' ((table h C)(k \<mapsto> v))))))"
proof -
  define b where "b = call_hash h k"
  obtain as bs where s: "C b = as @ bs" "\<forall>i\<in>set as. key_at h i \<noteq> k" "bs = [] \<or> key_at h (hd bs) = k"
    "get_link h (bucket_slot h b) = Some (first_or_0 (C b))"
    "find_chain h k (bucket_slot h b) (first_or_0 (C b)) = Some (link_after (bucket_slot h b) as, first_or_0 bs)"
    using search_split [OF inv b_def] by blast
  have "bs = []" using new s(1,3) by (cases bs) (auto simp: table_None simp flip: b_def)
  then have search: "hash_search h k HASH_ENTER sv = do { (h, r) \<leftarrow> hash_enter h k (link_after (bucket_slot h b) (C b)); Some (h, r, False, sv) }"
    using s by (simp add: hash_search_def first_or_0_def INVALID_INDEX_def flip: b_def)
  obtain h1 i F1 where h1: "(if freeBucketIndex h = INVALID_INDEX then bucket_alloc h else Some (h, True)) = Some (h1, True)"
    "hash_inv h1 C (i # F1)" "table h1 C = table h C" "same_shape h h1" "nkeys h1 = nkeys h" "freeBucketIndex h1 = i" "i \<noteq> 0"
    "ShmemFreeStart h1 \<le> ShmemFreeStart h + BUCKET_ALLOC_INCR * bucket_size h"
    by (rule element_ready [OF inv has]) blast
  note s1 = same_shape_hash [OF h1(4)]
  have b1: "b = call_hash h1 k" and new1: "table h1 C k = None" using s1(1) h1(3) new by (simp_all add: b_def)
  from linked_in_inv [OF h1(2) b1 new1] obtain h2 where h2: "linked_in h1 k (link_after (bucket_slot h1 b) (C b)) = Some h2"
    "hash_inv h2 (C(b := C b @ [i])) F1" "table h2 (C(b := C b @ [i])) = (table h C)(k \<mapsto> data_at h2 i)" "nkeys h2 = nkeys h + 1" "key_at h2 i = k"
    by (elim retsE) (auto simp: h1)
  have sh: "same_shape h h2" "ShmemFreeStart h2 = ShmemFreeStart h1" using linked_in_shape [OF h2(1)] same_shape_trans [OF h1(4)] by auto
  define g where "g \<longleftrightarrow> nkeys h2 div (max_bucket h2 + 1) > ffactor h2"
  have g: "g = must_grow h" using sh(1) h2(4) by (simp add: g_def must_grow_def same_shape_def)
  have bm: "b \<le> max_bucket h2" using hash_inv_call [OF inv, of k] sh(1) by (simp add: b_def same_shape_def)
  have room: "has_room h2 \<and> 2 * high_mask h2 + 1 < 2 ^ 32 \<and> split_ok h2 (insert k (dom (table h C)))" if g
    using grow that sh h1(8) same_shape_hash [OF sh(1)] by (auto simp: g can_grow_def has_room_def same_shape_def split_ok_def)
  have "hash_enter h k (link_after (bucket_slot h b) (C b)) =
      do { (h', ok) \<leftarrow> (if g then expand_table h2 else Some (h2, True)); Some (h', if ok then KeyOf i else Null) }"
    using h1(1,6,7) h2(1) s1(4) by (auto simp: hash_enter_def linked_in_def g_def INVALID_INDEX_def split: Option.bind_splits)
  then have enter: "hash_search h k HASH_ENTER sv = do { (h', ok) \<leftarrow> (if g then expand_table h2 else Some (h2, True)); Some (h', if ok then KeyOf i else Null, False, sv) }"
    unfolding search by (auto split: Option.bind_splits)
  have mem: "i \<in> set ((C(b := C b @ [i])) b)" by simp
  have mb: "max_bucket h2 = max_bucket h" using sh(1) by (simp add: same_shape_def)
  show ?thesis unfolding enter g [symmetric]
    by (rule rets_bind [OF grow_after_enter [OF h2(2) mem bm h2(5,3) room]]) (auto simp: h2(4) mb)
qed

lemma enter_old:
  assumes inv: "hash_inv h C F" and old: "table h C k = Some d"
  shows "rets (hash_search h k HASH_ENTER sv) (\<lambda>(h', r, found, sv'). h' = h \<and> found \<and> sv' = sv \<and> (\<exists>i. r = KeyOf i \<and> elem_data h i = Some d \<and>
     (\<forall>v. rets (set_data h i v) (\<lambda>h''. hash_table h'' ((table h C)(k \<mapsto> v))))))"
proof -
  define b where "b = call_hash h k"
  have bm: "b \<le> max_bucket h" using hash_inv_call [OF inv] by (simp add: b_def)
  obtain as bs where s: "C b = as @ bs" "\<forall>i\<in>set as. key_at h i \<noteq> k" "bs = [] \<or> key_at h (hd bs) = k"
    "get_link h (bucket_slot h b) = Some (first_or_0 (C b))"
    "find_chain h k (bucket_slot h b) (first_or_0 (C b)) = Some (link_after (bucket_slot h b) as, first_or_0 bs)"
    using search_split [OF inv b_def] by blast
  have "bs \<noteq> []"
  proof
    assume "bs = []"
    then have "table h C k = None" using s(1,2) by (simp add: table_None flip: b_def)
    then show False using old by simp
  qed
  then obtain i cs where bs: "bs = i # cs" by (cases bs) auto
  have i: "i \<in> set (C b)" "key_at h i = k" using s bs by auto
  have "i \<noteq> 0" using chain_nonzero [OF hash_inv_bucket(1) [OF inv bm]] i(1) by metis
  then have "hash_search h k HASH_ENTER sv = Some (h, KeyOf i, True, sv)"
    using s bs by (simp add: hash_search_def first_or_0_def INVALID_INDEX_def flip: b_def)
  moreover have "table h C k = Some (data_at h i)" by (rule table_Some [OF inv]) (use i in \<open>auto simp: b_def\<close>)
  then have "elem_data h i = Some d" using old hash_inv_elems [OF inv i(1) bm] by (auto simp: elem_data_def data_at_def)
  moreover have "table h C = (table h C)(k \<mapsto> d)" using old by auto
  note entry_set [OF inv i(1) bm i(2) this]
  ultimately show ?thesis by simp
qed

text \<open>Without memory for elements nothing is entered.\<close>

lemma enter_full:
  assumes inv: "hash_inv h C F" and new: "table h C k = None" and has: "\<not> has_element h"
  shows "hash_search h k HASH_ENTER sv = Some (h, Null, False, sv)"
proof -
  define b where "b = call_hash h k"
  obtain as bs where s: "C b = as @ bs" "\<forall>i\<in>set as. key_at h i \<noteq> k" "bs = [] \<or> key_at h (hd bs) = k"
    "get_link h (bucket_slot h b) = Some (first_or_0 (C b))"
    "find_chain h k (bucket_slot h b) (first_or_0 (C b)) = Some (link_after (bucket_slot h b) as, first_or_0 bs)"
    using search_split [OF inv b_def] by blast
  have "bs = []" using new s(1,3) by (cases bs) (auto simp: table_None simp flip: b_def)
  moreover have "BUCKET_ALLOC_INCR * bucket_size h mod 8 = 0" using bucket_size_aligned [of h] by (metis mod_mult_right_eq mult_0_right mod_0)
  then have "bucket_alloc h = Some (h, False)" using has hash_invD(5) [OF inv] by (simp add: has_element_def bucket_alloc_def ShmemAlloc_def)
  then have "hash_enter h k p = Some (h, Null)" for p using has by (simp add: hash_enter_def has_element_def)
  ultimately show ?thesis using s(4,5) by (simp add: hash_search_def first_or_0_def INVALID_INDEX_def flip: b_def)
qed

subsection \<open>What a search without growth leaves alone\<close>

lemma set_link_shape: "set_link h l v = Some h' \<Longrightarrow> same_shape h h' \<and> nkeys h' = nkeys h"
  by (auto simp: set_link_def same_shape_def split: link.splits Option.bind_splits)

lemma hash_remove_shape: "hash_remove h l i = Some h' \<Longrightarrow> same_shape h h'"
  by (auto simp: hash_remove_def same_shape_def dest!: set_link_shape split: if_splits Option.bind_splits)

lemma bucket_alloc_nkeys: "bucket_alloc h = Some (h', ok) \<Longrightarrow> nkeys h' = nkeys h"
  by (auto simp: bucket_alloc_def ShmemAlloc_def Let_def split: Option.bind_splits option.splits if_splits)

lemma hash_enter_shape:
  assumes "hash_enter h k p = Some (h', r)" and grow: "\<not> must_grow h"
  shows "same_shape h h'"
proof -
  obtain h1 ok where h1: "(if freeBucketIndex h = INVALID_INDEX then bucket_alloc h else Some (h, True)) = Some (h1, ok)"
    using assms(1) by (auto simp: hash_enter_def split: Option.bind_splits)
  have s1: "same_shape h h1" "nkeys h1 = nkeys h"
    using h1 bucket_alloc_shape(1) [of h h1 ok] bucket_alloc_nkeys [of h h1 ok] by (auto simp: same_shape_def split: if_splits)
  show ?thesis
  proof (cases ok)
    case True
    obtain e h2 e2 where e: "elems h1 (freeBucketIndex h1) = Some e" "set_link (h1\<lparr>freeBucketIndex := nxt e\<rparr>) p (freeBucketIndex h1) = Some h2"
      "elems h2 (freeBucketIndex h1) = Some e2"
      using assms(1) h1 True unfolding hash_enter_def by (auto split: Option.bind_splits if_splits)
    define h3 where "h3 = h2\<lparr>elems := (elems h2)(freeBucketIndex h1 \<mapsto> e2\<lparr>ekey := k, nxt := INVALID_INDEX\<rparr>), nkeys := nkeys h2 + 1\<rparr>"
    have s3: "same_shape h h3" "nkeys h3 = nkeys h + 1" using s1 set_link_shape [OF e(2)] by (auto simp: h3_def same_shape_def)
    then have "\<not> nkeys h3 div (max_bucket h3 + 1) > ffactor h3" using grow by (auto simp: must_grow_def same_shape_def)
    then have "h' = h3" using assms(1) h1 True e unfolding hash_enter_def by (auto simp: h3_def split: if_splits)
    then show ?thesis using s3 by simp
  next
    case False
    then show ?thesis using assms(1) h1 s1 unfolding hash_enter_def by auto
  qed
qed

lemma search_shape:
  assumes "hash_search h k a sv = Some (h', r, found, sv')" and "a = HASH_ENTER \<Longrightarrow> \<not> must_grow h"
  shows "same_shape h h'"
proof -
  have refl: "same_shape h h" by (simp add: same_shape_def)
  show ?thesis using assms refl hash_remove_shape [of h _ _ h'] hash_enter_shape [of h k _ h']
    by (cases a) (auto simp: hash_search_def split: Option.bind_splits if_splits option.splits)
qed

lemma set_data_shape: "set_data h i v = Some h' \<Longrightarrow> same_shape h h' \<and> nkeys h' = nkeys h"
  by (auto simp: set_data_def same_shape_def)

end
