(* ===== verification/DynaHash_Create.thy ===== *)
theory DynaHash_Create
  imports DynaHash_Map
begin

text \<open>
  Creation of a table (\<open>hash_create\<close>, \<open>init_htab\<close>) and the sequential scan (\<open>hash_seq\<close>).
\<close>

subsection \<open>The logarithm\<close>

lemma my_log2_from:
  assumes "limit = 2 ^ i" and "\<forall>j<i. 2 ^ j < num"
  shows "num \<le> 2 ^ my_log2_from num limit i \<and> (\<forall>j<my_log2_from num limit i. 2 ^ j < num)"
  using assms
proof (induction num limit i rule: my_log2_from.induct)
  case (1 num limit i)
  show ?case
  proof (cases "limit < num")
    case True
    have pos: "0 < limit" using "1.prems"(1) by simp
    have all: "\<forall>j<i + 1. 2 ^ j < num" using "1.prems" True by (auto simp: less_Suc_eq)
    have "num \<le> 2 ^ my_log2_from num (2 * limit) (i + 1) \<and> (\<forall>j<my_log2_from num (2 * limit) (i + 1). 2 ^ j < num)"
      by (rule "1.IH") (use pos True all "1.prems"(1) in auto)
    then show ?thesis by (subst (1 2) my_log2_from.simps) (use pos True in simp)
  next
    case False
    then show ?thesis using "1.prems" by (subst (1 2) my_log2_from.simps) simp
  qed
qed

lemma my_log2_spec: "num \<le> 2 ^ my_log2 num" and my_log2_least: "num \<le> 2 ^ j \<Longrightarrow> my_log2 num \<le> j"
proof -
  have s: "num \<le> 2 ^ my_log2 num \<and> (\<forall>j<my_log2 num. 2 ^ j < num)"
    unfolding my_log2_def by (rule my_log2_from) auto
  then show "num \<le> 2 ^ my_log2 num" ..
  show "my_log2 num \<le> j" if "num \<le> 2 ^ j" using s that by (meson leD leI)
qed

lemma my_log2_power: "my_log2 (2 ^ j) = j"
  using my_log2_spec [of "2 ^ j"] my_log2_least [of "2 ^ j" j] power_le_imp_le_exp [of "2::nat" j "my_log2 (2 ^ j)"] by auto

subsection \<open>Initial segments\<close>

definition with_segs :: "('k, 'v) HTAB \<Rightarrow> nat \<Rightarrow> nat \<Rightarrow> ('k, 'v) HTAB" where
  "with_segs h p n = h\<lparr>dir := (\<lambda>s. if p \<le> s \<and> s < p + n then Some (replicate (ssize h) 0) else dir h s),
     nsegs := nsegs h + n, ShmemFreeStart := ShmemFreeStart h + n * (8 * ssize h)\<rparr>"

lemma init_segs_eq:
  assumes "0 < ShmemFreeStart h" and "ShmemFreeStart h + n * (8 * ssize h) \<le> ShmemSize h"
  shows "init_segs n p h = Some (with_segs h p n)"
  using assms
proof (induction n arbitrary: p h)
  case 0
  have "(\<lambda>s. if p \<le> s \<and> s < p then Some (replicate (ssize h) 0) else dir h s) = dir h" by (rule ext) (meson leD)
  then show ?case by (simp add: with_segs_def)
next
  case (Suc n)
  let ?h1 = "h\<lparr>ShmemFreeStart := ShmemFreeStart h + 8 * ssize h, dir := (dir h)(p \<mapsto> replicate (ssize h) 0), nsegs := nsegs h + 1\<rparr>"
  have "seg_alloc h = Some (h\<lparr>ShmemFreeStart := ShmemFreeStart h + 8 * ssize h\<rparr>, Some (replicate (ssize h) 0))"
    using Suc.prems by (simp add: seg_alloc_def ShmemAlloc_def INVALID_INDEX_def)
  then have "init_segs (Suc n) p h = init_segs n (p + 1) ?h1" by simp
  also have "\<dots> = Some (with_segs ?h1 (p + 1) n)" by (rule Suc.IH) (use Suc.prems in auto)
  also have "with_segs ?h1 (p + 1) n = with_segs h p (Suc n)"
  proof -
    have "(\<lambda>s. if p + 1 \<le> s \<and> s < p + 1 + n then Some (replicate (ssize h) 0) else ((dir h)(p \<mapsto> replicate (ssize h) 0)) s) =
        (\<lambda>s. if p \<le> s \<and> s < p + Suc n then Some (replicate (ssize h) 0) else dir h s)" by (auto simp: fun_eq_iff)
    then show ?thesis by (simp add: with_segs_def algebra_simps cong: if_cong)
  qed
  finally show ?case .
qed

text \<open>The number of buckets for \<open>nelem\<close> elements, and of segments for that many buckets.\<close>

definition init_buckets :: "('k, 'v) HTAB \<Rightarrow> nat \<Rightarrow> nat" where
  "init_buckets h nelem = 2 ^ my_log2 ((nelem - 1) div ffactor h + 1)"

definition init_nsegs :: "('k, 'v) HTAB \<Rightarrow> nat \<Rightarrow> nat" where
  "init_nsegs h nelem = 2 ^ my_log2 ((init_buckets h nelem - 1) div ssize h + 1)"

lemma init_buckets_le: "1 \<le> nelem \<Longrightarrow> nelem \<le> 2 ^ j \<Longrightarrow> init_buckets h nelem \<le> 2 ^ j"
proof -
  assume n: "1 \<le> nelem" "nelem \<le> 2 ^ j"
  have "(nelem - 1) div ffactor h \<le> nelem - 1" by (rule div_le_dividend)
  then have "(nelem - 1) div ffactor h + 1 \<le> 2 ^ j" using n by linarith
  then show ?thesis unfolding init_buckets_def by (intro power_increasing my_log2_least) auto
qed

lemma init_buckets_bounds:
  assumes "1 \<le> nelem"
  shows "init_buckets h nelem \<le> 2 * nelem" and "0 < ffactor h \<Longrightarrow> nelem \<le> init_buckets h nelem * ffactor h"
proof -
  define q where "q = (nelem - 1) div ffactor h + 1"
  have "(nelem - 1) div ffactor h \<le> nelem - 1" by (rule div_le_dividend)
  then have q: "q \<le> nelem" "1 \<le> q" using assms unfolding q_def by linarith+
  show "init_buckets h nelem \<le> 2 * nelem"
  proof (cases "my_log2 q")
    case 0
    then show ?thesis using assms unfolding init_buckets_def q_def [symmetric] by simp
  next
    case (Suc j)
    then have "\<not> q \<le> 2 ^ j" using my_log2_least [of q j] by auto
    then show ?thesis using q(1) Suc unfolding init_buckets_def q_def [symmetric] by simp
  qed
  assume f: "0 < ffactor h"
  then have "nelem - 1 < q * ffactor h" unfolding q_def by (simp add: dividend_less_div_times)
  also have "\<dots> \<le> init_buckets h nelem * ffactor h" unfolding init_buckets_def q_def [symmetric] by (intro mult_right_mono my_log2_spec) simp
  finally show "nelem \<le> init_buckets h nelem * ffactor h" by linarith
qed

lemma init_nsegs_le:
  assumes "ssize h = 2 ^ sshift h"
  shows "init_nsegs h nelem * ssize h \<le> max (ssize h) (init_buckets h nelem)" and "init_buckets h nelem \<le> init_nsegs h nelem * ssize h"
proof -
  obtain l where l: "init_buckets h nelem = 2 ^ l" by (simp add: init_buckets_def)
  let ?q = "(2 ^ l - 1) div ssize h + 1"
  show "init_nsegs h nelem * ssize h \<le> max (ssize h) (init_buckets h nelem)"
  proof (cases "sshift h \<le> l")
    case True
    then have p: "(2 :: nat) ^ l = 2 ^ (l - sshift h) * ssize h" using assms by (simp flip: power_add)
    have "2 ^ l - 1 < (2 :: nat) ^ l" by simp
    then have "(2 ^ l - 1) div ssize h < 2 ^ (l - sshift h)" unfolding p using assms by (simp add: less_mult_imp_div_less)
    then have "?q \<le> 2 ^ (l - sshift h)" by simp
    then have "my_log2 ?q \<le> l - sshift h" by (rule my_log2_least)
    then have "(2 :: nat) ^ my_log2 ?q \<le> 2 ^ (l - sshift h)" by (rule power_increasing) simp
    then have "2 ^ my_log2 ?q * ssize h \<le> 2 ^ (l - sshift h) * ssize h" by (rule mult_right_mono) simp
    then show ?thesis unfolding init_nsegs_def l by (simp flip: p)
  next
    case False
    then have "(2 :: nat) ^ l \<le> ssize h" using assms by (simp add: power_increasing)
    moreover have "2 ^ l - 1 < (2 :: nat) ^ l" by simp
    ultimately have "(2 ^ l - 1) div ssize h = 0" by (intro div_less) linarith
    then have "init_nsegs h nelem = 1" unfolding init_nsegs_def l using my_log2_power [of 0] by simp
    then show ?thesis by simp
  qed
  have "2 ^ l - 1 < ?q * ssize h" using assms by (simp add: dividend_less_div_times)
  also have "\<dots> \<le> init_nsegs h nelem * ssize h" unfolding init_nsegs_def l by (intro mult_right_mono my_log2_spec) simp
  finally show "init_buckets h nelem \<le> init_nsegs h nelem * ssize h" unfolding l by linarith
qed

lemma init_htab_inv:
  assumes g: "ssize h = 2 ^ sshift h" and n: "1 \<le> nelem" "nelem \<le> 2 ^ 31" and e: "dir h = Map.empty" "nsegs h = 0" "nkeys h = 0" "freeBucketIndex h = 0"
    and mem: "0 < ShmemFreeStart h" "ShmemFreeStart h + 8 * max (ssize h) (init_buckets h nelem) \<le> ShmemSize h"
    and el: "\<forall>i\<in>dom (elems h). i < ShmemFreeStart h"
  shows "rets (init_htab h nelem) (\<lambda>h'. hash_inv h' (\<lambda>_. []) [] \<and> hash h' = hash h \<and> ffactor h' = ffactor h \<and> max_bucket h' + 1 = init_buckets h nelem)"
proof -
  let ?nb = "init_buckets h nelem" and ?ns = "init_nsegs h nelem"
  obtain l where l: "?nb = 2 ^ l" by (simp add: init_buckets_def)
  have "?nb \<le> 2 ^ 31" by (rule init_buckets_le [OF n])
  define h1 where "h1 = h\<lparr>max_bucket := ?nb - 1, low_mask := ?nb - 1, high_mask := 2 * ?nb - 1, dsize := max (dsize h) ?ns\<rparr>"
  note le = init_nsegs_le [OF g, of nelem]
  have segs: "init_segs ?ns 0 h1 = Some (with_segs h1 0 ?ns)"
    by (rule init_segs_eq) (use mem le(1) in \<open>auto simp: h1_def algebra_simps\<close>)
  let ?h' = "with_segs h1 0 ?ns"
  have "init_htab h nelem = init_segs ?ns 0 h1"
    unfolding init_htab_def h1_def init_nsegs_def init_buckets_def using e(2) by (simp add: max_def)
  then have eq: "init_htab h nelem = Some ?h'" unfolding segs .
  have geo: "geometry ?h'"
    unfolding geometry_def using \<open>?nb \<le> 2 ^ 31\<close> g l by (auto simp: with_segs_def h1_def intro: exI [of _ l])
  have dir: "dir ?h' s = (if s < ?ns then Some (replicate (ssize h) 0) else None)" for s by (simp add: with_segs_def h1_def e)
  have sz: "ssize ?h' = ssize h" by (simp add: with_segs_def h1_def)
  have slot: "get_link ?h' (bucket_slot ?h' b) = (if b div ssize h < ?ns then Some 0 else None)" for b
    unfolding slot_eq [OF geo] sz using g by (simp add: get_link_def dir)
  have used: "b div ssize h < ?ns" if "b \<le> ?nb - 1" for b
  proof -
    have "b < ?ns * ssize h" 
    proof -
      have "0 < ?nb" using l by simp
      then show ?thesis using that le(2) by linarith
    qed
    then show ?thesis by (simp add: less_mult_imp_div_less)
  qed
  have fields: "max_bucket ?h' = ?nb - 1" "nkeys ?h' = 0" "freeBucketIndex ?h' = 0" "elems ?h' = elems h" "nsegs ?h' = ?ns"
      "ShmemFreeStart ?h' = ShmemFreeStart h + ?ns * (8 * ssize h)" "hash ?h' = hash h" "ffactor ?h' = ffactor h"
    by (simp_all add: with_segs_def h1_def e)
  have "hash_inv ?h' (\<lambda>_. []) []"
    unfolding hash_inv_def fields dir sz using geo used mem(1) bspec [OF el] by (auto simp: chain_from_def slot intro: trans_less_add1)
  then show ?thesis using eq l fields by simp
qed

lemma raw_create:
  assumes "\<not> HASH_ATTACH info" and "case HASH_SEGMENT info of None \<Rightarrow> sz = 256 | Some n \<Rightarrow> n = sz \<and> sz = 2 ^ my_log2 sz"
    and f: "case HASH_FFACTOR info of None \<Rightarrow> f = 1 | Some n \<Rightarrow> n = f"
    and n: "1 \<le> nelem" "nelem \<le> 2 ^ 29" and e: "dir h = Map.empty" "\<forall>i\<in>dom (elems h). i < ShmemFreeStart h"
    and mem: "0 < ShmemFreeStart h" "ShmemFreeStart h + 8 * max sz (2 * nelem) \<le> ShmemSize h" and pos: "0 < f"
  shows "rets (hash_create h nelem info string_hash) (\<lambda>h'. hash_inv h' (\<lambda>_. []) [] \<and>
    hash h' = (case HASH_FUNCTION info of Some fn \<Rightarrow> fn | None \<Rightarrow> string_hash) \<and> ffactor h' = f \<and> nelem \<le> (max_bucket h' + 1) * f)"
proof -
  define fn where "fn = (case HASH_FUNCTION info of Some fn \<Rightarrow> fn | None \<Rightarrow> string_hash)"
  obtain h1 where eq: "hash_create h nelem info string_hash = init_htab h1 nelem" and
    h1: "ssize h1 = sz" "ssize h1 = 2 ^ sshift h1" "dir h1 = dir h" "elems h1 = elems h" "nsegs h1 = 0" "nkeys h1 = 0" "freeBucketIndex h1 = 0"
      "ShmemFreeStart h1 = ShmemFreeStart h" "ShmemSize h1 = ShmemSize h" "ffactor h1 = f" "hash h1 = fn"
  proof
    let ?h1 = "hdefault (h\<lparr>hash := fn\<rparr>)"
    let ?h2 = "case HASH_SEGMENT info of Some n \<Rightarrow> ?h1\<lparr>ssize := n, sshift := my_log2 n\<rparr> | None \<Rightarrow> ?h1"
    let ?h3 = "case HASH_FFACTOR info of Some n \<Rightarrow> ?h2\<lparr>ffactor := n\<rparr> | None \<Rightarrow> ?h2"
    let ?h4 = "case HASH_DIRSIZE info of Some (m, d) \<Rightarrow> ?h3\<lparr>max_dsize := int (my_log2 m), dsize := my_log2 d\<rparr> | None \<Rightarrow> ?h3"
    let ?h5 = "case HASH_ELEM info of Some (k, d) \<Rightarrow> ?h4\<lparr>keysize := k, datasize := d\<rparr> | None \<Rightarrow> ?h4"
    show "hash_create h nelem info string_hash = init_htab ?h5 nelem" by (simp only: assms(1) if_False hash_create_def fn_def Let_def)
  qed (use assms(2) f in \<open>auto simp: hdefault_def DEF_SEGSIZE_def DEF_SEGSIZE_SHIFT_def DEF_FFACTOR_def INVALID_INDEX_def split: option.splits\<close>)
  note ib = init_buckets_bounds [OF n(1), of h1]
  have "rets (init_htab h1 nelem) (\<lambda>h'. hash_inv h' (\<lambda>_. []) [] \<and> hash h' = hash h1 \<and> ffactor h' = ffactor h1 \<and> max_bucket h' + 1 = init_buckets h1 nelem)"
  proof (rule init_htab_inv)
    have "max sz (init_buckets h1 nelem) \<le> max sz (2 * nelem)" using ib(1) by (rule max.mono [OF order_refl])
    then show "ShmemFreeStart h1 + 8 * max (ssize h1) (init_buckets h1 nelem) \<le> ShmemSize h1" using mem(2) h1 by simp
  qed (use h1 n e mem in auto)
  then show ?thesis unfolding eq fn_def [symmetric] by (rule rets_mono) (use h1 ib(2) pos in auto)
qed

lemma empty_table: "table h (\<lambda>_. []) = Map.empty"
  by (auto simp: table_def)

subsection \<open>The sequential scan\<close>

text \<open>The elements a scan has still to return when its static variables are \<open>b\<close> and \<open>i\<close>.\<close>

definition tail_from :: "('k, 'v) HTAB \<Rightarrow> (nat \<Rightarrow> nat list) \<Rightarrow> nat \<Rightarrow> nat list" where
  "tail_from h C b = concat (map C [b..<max_bucket h + 1])"

definition seq_at :: "('k, 'v) HTAB \<Rightarrow> (nat \<Rightarrow> nat list) \<Rightarrow> nat \<Rightarrow> nat \<Rightarrow> nat list \<Rightarrow> bool" where
  "seq_at h C b i xs \<longleftrightarrow> i = 0 \<and> xs = tail_from h C b \<or>
     (b \<le> max_bucket h \<and> (\<exists>as bs. C b = as @ i # bs \<and> xs = i # bs @ tail_from h C (b + 1)))"

lemma tail_from_step: "b \<le> max_bucket h \<Longrightarrow> tail_from h C b = C b @ tail_from h C (b + 1)"
  by (simp add: tail_from_def upt_conv_Cons del: upt_Suc)

lemma hash_seq_at_element:
  assumes inv: "hash_inv h C F" and b: "b \<le> max_bucket h" and C: "C b = as @ i # bs"
  shows "\<exists>b' i'. hash_seq h b i = Some (KeyOf i, b', i') \<and> seq_at h C b' i' (bs @ tail_from h C (b + 1))"
proof -
  have ch: "chain (get_link h) (bucket_slot h b) (as @ i # bs)" using hash_inv_bucket(1) [OF inv b] C by simp
  have i0: "i \<noteq> 0" using chain_nonzero [OF ch] by auto
  have nx: "get_link h (NextOf i) = Some (first_or_0 bs)" using chain_append [OF ch] by (simp add: chain_head)
  then obtain e where e: "elems h i = Some e" "nxt e = first_or_0 bs" by (auto simp: get_link_def)
  have eq: "hash_seq h b i = Some (KeyOf i, if first_or_0 bs = 0 then b + 1 else b, first_or_0 bs)"
    using b i0 e by (subst hash_seq.simps) (simp add: INVALID_INDEX_def)
  show ?thesis
  proof (cases bs)
    case Nil
    then show ?thesis using eq by (simp add: first_or_0_def seq_at_def)
  next
    case (Cons j cs)
    have "j \<noteq> 0" using chain_nonzero [OF ch] Cons by auto
    moreover have "C b = (as @ [i]) @ j # cs" using C Cons by simp
    ultimately show ?thesis using eq Cons b by (auto simp: first_or_0_def seq_at_def simp del: append_assoc)
  qed
qed

lemma hash_seq_step:
  assumes inv: "hash_inv h C F" and at: "seq_at h C b i xs"
  shows "rets (hash_seq h b i) (\<lambda>(r, b', i'). case xs of [] \<Rightarrow> r = True_Ptr | x # ys \<Rightarrow> r = KeyOf x \<and> seq_at h C b' i' ys)"
  using at
proof (induction "max_bucket h + 1 - b" arbitrary: b i)
  case 0
  then have b: "\<not> b \<le> max_bucket h" by simp
  then have "xs = []" using 0(2) by (auto simp: seq_at_def tail_from_def)
  then show ?case using b by (subst hash_seq.simps) simp
next
  case (Suc n)
  then have b: "b \<le> max_bucket h" by simp
  show ?case
  proof (cases "i = 0")
    case False
    then obtain as bs where "C b = as @ i # bs" "xs = i # bs @ tail_from h C (b + 1)" using Suc(3) by (auto simp: seq_at_def)
    then show ?thesis using hash_seq_at_element [OF inv b] by (auto simp: rets_def)
  next
    case True
    have ch: "chain (get_link h) (bucket_slot h b) (C b)" by (rule hash_inv_bucket(1) [OF inv b])
    have nz: "0 \<notin> set (C b)" by (rule chain_nonzero [OF ch])
    have xs: "xs = C b @ tail_from h C (b + 1)" using Suc(3) True nz tail_from_step [OF b] by (auto simp: seq_at_def)
    have go: "hash_seq h b i = hash_seq h (if first_or_0 (C b) = 0 then b + 1 else b) (first_or_0 (C b))"
      using b True chain_head [OF ch] by (subst hash_seq.simps) (simp add: INVALID_INDEX_def)
    show ?thesis
    proof (cases "C b")
      case Nil
      have "rets (hash_seq h (b + 1) 0) (\<lambda>(r, b', i'). case xs of [] \<Rightarrow> r = True_Ptr | x # ys \<Rightarrow> r = KeyOf x \<and> seq_at h C b' i' ys)"
        by (rule Suc.hyps(1)) (use Suc(2) xs Nil in \<open>auto simp: seq_at_def\<close>)
      then show ?thesis unfolding go using Nil by (simp add: first_or_0_def)
    next
      case (Cons j cs)
      have "j \<noteq> 0" using nz Cons by auto
      then have "hash_seq h b i = hash_seq h b j" unfolding go using Cons by (simp add: first_or_0_def)
      then show ?thesis using hash_seq_at_element [OF inv b, of "[]" j cs] Cons xs by (auto simp: rets_def)
    qed
  qed
qed

text \<open>A whole scan: call until the constant \<open>TRUE\<close> is returned, at most \<open>n\<close> times.\<close>

primrec hash_scan :: "nat \<Rightarrow> ('k, 'v) HTAB \<Rightarrow> nat \<Rightarrow> nat \<Rightarrow> nat list option" where
  "hash_scan 0 h b i = None"
| "hash_scan (Suc n) h b i = do {
     (r, b, i) \<leftarrow> hash_seq h b i;
     case r of KeyOf e \<Rightarrow> map_option (Cons e) (hash_scan n h b i) | True_Ptr \<Rightarrow> Some [] | Null \<Rightarrow> None
   }"

lemma hash_scan_eq:
  assumes inv: "hash_inv h C F" and "seq_at h C b i xs" and "length xs < n"
  shows "hash_scan n h b i = Some xs"
  using assms(2,3)
proof (induction n arbitrary: b i xs)
  case (Suc n)
  show ?case
  proof (cases xs)
    case Nil
    then show ?thesis using hash_seq_step [OF inv Suc.prems(1)] by (auto simp: rets_def)
  next
    case (Cons x ys)
    then obtain b' i' where "hash_seq h b i = Some (KeyOf x, b', i')" "seq_at h C b' i' ys"
      using hash_seq_step [OF inv Suc.prems(1)] by (auto simp: rets_def)
    then show ?thesis using Suc Cons by simp
  qed
qed simp

lemma tail_from_entries:
  assumes inv: "hash_inv h C F"
  shows "length (tail_from h C 0) = nkeys h" and "distinct (map (key_at h) (tail_from h C 0))" and "set (map (key_at h) (tail_from h C 0)) = dom (table h C)"
proof -
  let ?xs = "tail_from h C 0"
  have set: "set ?xs = (\<Union>b\<le>max_bucket h. set (C b))" by (simp add: tail_from_def atLeast0LessThan lessThan_Suc_atMost del: upt_Suc)
  have "length ?xs = (\<Sum>b\<leftarrow>[0..<max_bucket h + 1]. length (C b))" by (simp add: tail_from_def length_concat comp_def del: upt_Suc)
  also have "\<dots> = (\<Sum>b\<le>max_bucket h. length (C b))" by (simp add: interv_sum_list_conv_sum_set_nat atLeast0_lessThan_Suc lessThan_Suc_atMost [symmetric] atLeast0LessThan del: upt_Suc lessThan_Suc)
  finally show "length ?xs = nkeys h" using hash_invD(4) [OF inv] by simp
  have "distinct (concat (map (\<lambda>b. map (key_at h) (C b)) [0..<n]))" if "n \<le> max_bucket h + 1" for n
    using that
  proof (induction n)
    case (Suc n)
    have "key_at h x \<noteq> key_at h y" if "b < n" "x \<in> set (C b)" "y \<in> set (C n)" for b x y
      using hash_inv_bucket(4) [OF inv, of b x] hash_inv_bucket(4) [OF inv, of n y] that Suc.prems by fastforce
    then have "set (concat (map (\<lambda>b. map (key_at h) (C b)) [0..<n])) \<inter> set (map (key_at h) (C n)) = {}" by fastforce
    moreover have "distinct (map (key_at h) (C n))" using hash_inv_bucket(3) [OF inv] Suc.prems by simp
    moreover have "distinct (concat (map (\<lambda>b. map (key_at h) (C b)) [0..<n]))" using Suc by simp
    ultimately show ?case by simp
  qed simp
  then show "distinct (map (key_at h) ?xs)" by (simp add: tail_from_def map_concat comp_def del: upt_Suc)
  show "set (map (key_at h) ?xs) = dom (table h C)"
  proof (rule set_eqI)
    fix k
    have "k \<in> dom (table h C) \<longleftrightarrow> (\<exists>i\<in>set (C (call_hash h k)). key_at h i = k)" by (metis domIff table_None)
    also have "\<dots> \<longleftrightarrow> (\<exists>b\<le>max_bucket h. \<exists>i\<in>set (C b). key_at h i = k)"
      using hash_inv_call [OF inv, of k] hash_inv_bucket(4) [OF inv] by metis
    finally show "k \<in> set (map (key_at h) ?xs) \<longleftrightarrow> k \<in> dom (table h C)" using set by auto
  qed
qed

end
