(* ===== verification/Hash_Props.thy ===== *)
theory Hash_Props
  imports DynaHash_Create "HOL-Library.Code_Target_Nat"
begin

text \<open>
  The dynamic hash table as a finite map: creation gives the empty map, lookups, insertions, removals
  and scans follow the map, and the one way in which growing the table breaks it.
\<close>

subsection \<open>Concrete tables\<close>

text \<open>Shared memory with 60000 free bytes, and a table for one element made in it; keys hash to themselves.\<close>

definition raw_memory :: "(int, nat) HTAB" where
  "raw_memory = \<lparr>hash = \<lambda>_. 0, dsize = 0, ssize = 0, sshift = 0, max_bucket = 0, high_mask = 0, low_mask = 0, ffactor = 0, nkeys = 0,
     nsegs = 0, keysize = 0, datasize = 0, max_dsize = 0, freeBucketIndex = 0, dir = Map.empty, elems = Map.empty,
     fresh = \<lambda>_. (-1, 0), ShmemFreeStart = 4096, ShmemSize = 65536\<rparr>"

definition int_info :: "int HASHCTL" where
  "int_info = \<lparr>HASH_FUNCTION = Some (\<lambda>k. k), HASH_SEGMENT = None, HASH_FFACTOR = None, HASH_DIRSIZE = Some (256, 256),
     HASH_ELEM = Some (4, 8), HASH_ATTACH = False\<rparr>"

text \<open>A sequence of searches, with the value of \<open>foundPtr\<close> after each.\<close>

primrec hash_run :: "('k, 'v) HTAB \<Rightarrow> (HASHACTION \<times> 'k) list \<Rightarrow> (('k, 'v) HTAB \<times> bool list) option" where
  "hash_run h [] = Some (h, [])"
| "hash_run h (a # as) = do {
     (h, _, found, _) \<leftarrow> hash_search h (snd a) (fst a) None;
     (h, fs) \<leftarrow> hash_run h as;
     Some (h, found # fs)
   }"

text \<open>
  Creating a table. \<open>hash_create\<close> with any fill factor and any power of two as segment size (256
  and 1 by default) makes, in memory that has room for the segments, a well-formed empty table with
  the hash function it was asked for (\<open>string_hash\<close> by default). The table can hold the announced number of
  elements before its fill factor makes it grow.
\<close>

theorem hash_create_empty:
  assumes "\<not> HASH_ATTACH info" and "case HASH_SEGMENT info of None \<Rightarrow> sz = 256 | Some n \<Rightarrow> n = sz \<and> sz = 2 ^ my_log2 sz"
    and "case HASH_FFACTOR info of None \<Rightarrow> f = 1 | Some n \<Rightarrow> n = f"
    and "1 \<le> nelem" and "nelem \<le> 2 ^ 29" and "dir h = Map.empty" and "\<forall>i\<in>dom (elems h). i < ShmemFreeStart h"
    and "0 < ShmemFreeStart h" and "ShmemFreeStart h + 8 * max sz (2 * nelem) \<le> ShmemSize h" and "0 < f"
  shows "rets (hash_create h nelem info string_hash) (\<lambda>h'. hash_table h' Map.empty \<and>
    hash h' = (case HASH_FUNCTION info of Some fn \<Rightarrow> fn | None \<Rightarrow> string_hash) \<and> nelem \<le> (max_bucket h' + 1) * f)"
  by (rule rets_mono [OF raw_create [OF assms]]) (auto intro: hash_tableI empty_table)

theorem hash_create_empty_witness:
  "rets (hash_create raw_memory 5 int_info (\<lambda>_. 0)) (\<lambda>h'. hash_table h' Map.empty \<and> hash h' = (\<lambda>k. k) \<and> 5 \<le> max_bucket h' + 1)"
  using hash_create_empty [of int_info 256 1 5 raw_memory "\<lambda>_. 0"] by (simp add: int_info_def raw_memory_def)

text \<open>Tables with one entry, made by the code.\<close>

lemma entered:
  fixes h :: "(int, nat) HTAB"
  assumes "hash_create raw_memory n int_info (\<lambda>_. 0) = Some h" and "1 \<le> n" and "n \<le> 128" and "has_element h" and "\<not> must_grow h"
  shows "\<exists>h'. do { (h', r, _, _) \<leftarrow> hash_search h k HASH_ENTER None; case r of KeyOf i \<Rightarrow> set_data h' i v | _ \<Rightarrow> None } = Some h' \<and> hash_table h' [k \<mapsto> v]"
proof -
  let ?c = "hash_create raw_memory n int_info (\<lambda>_. 0)"
  have "rets ?c (\<lambda>h'. hash_inv h' (\<lambda>_. []) [] \<and> hash h' = (case HASH_FUNCTION int_info of Some fn \<Rightarrow> fn | None \<Rightarrow> (\<lambda>_. 0)) \<and> ffactor h' = 1 \<and> n \<le> (max_bucket h' + 1) * 1)"
    by (rule raw_create [of _ 256]) (use assms(2,3) in \<open>simp_all add: int_info_def raw_memory_def\<close>)
  then have h: "hash_inv h (\<lambda>_. []) []" using assms(1) by simp
  have "rets (hash_search h k HASH_ENTER None) (\<lambda>(h', r, found, sv'). \<exists>i. r = KeyOf i \<and> rets (set_data h' i v) (\<lambda>h''. hash_table h'' [k \<mapsto> v]))"
    using assms(4,5) by (intro rets_mono [OF enter_new [OF h, of k None]]) (auto simp: empty_table)
  then show ?thesis by (auto simp: rets_def)
qed

lemma one_entry: "\<exists>h :: (int, nat) HTAB. hash_table h [5 \<mapsto> 7] \<and> has_element h \<and> \<not> must_grow h"
proof -
  let ?c = "hash_create raw_memory 2 int_info (\<lambda>_. 0)"
  let ?e = "\<lambda>h. do { (h', r, _, _) \<leftarrow> hash_search h 5 HASH_ENTER None; case r of KeyOf i \<Rightarrow> set_data h' i 7 | _ \<Rightarrow> None }"
  have run: "?c \<noteq> None \<and> has_element (the ?c) \<and> \<not> must_grow (the ?c) \<and> has_element (the (?e (the ?c))) \<and> \<not> must_grow (the (?e (the ?c)))"
    by code_simp
  then obtain h' where "?e (the ?c) = Some h'" "hash_table h' [5 \<mapsto> 7]" using entered [of 2 "the ?c" 5 7] by auto
  then show ?thesis using run by auto
qed

lemma single_entry: "\<exists>h :: (int, nat) HTAB. hash_table h [1 \<mapsto> 7] \<and> has_room h \<and> 2 * high_mask h + 1 < 2 ^ 32 \<and> max_bucket h = 0 \<and>
  split_bucket h = 0 \<and> call_hash h 1 = 0 \<and> call_hash (grown h) 1 = 1"
proof -
  let ?c = "hash_create raw_memory 1 int_info (\<lambda>_. 0)"
  let ?e = "\<lambda>h. do { (h', r, _, _) \<leftarrow> hash_search h 1 HASH_ENTER None; case r of KeyOf i \<Rightarrow> set_data h' i 7 | _ \<Rightarrow> None }"
  let ?h = "the (?e (the ?c))"
  have run: "?c \<noteq> None \<and> has_element (the ?c) \<and> \<not> must_grow (the ?c) \<and> has_room ?h \<and> 2 * high_mask ?h + 1 < 2 ^ 32 \<and> max_bucket ?h = 0 \<and>
    split_bucket ?h = 0 \<and> call_hash ?h 1 = 0 \<and> call_hash (grown ?h) 1 = 1" by code_simp
  then obtain h' where "?e (the ?c) = Some h'" "hash_table h' [1 \<mapsto> 7]" using entered [of 1 "the ?c" 1 7] by auto
  then show ?thesis using run by (intro exI [of _ h']) simp
qed

text \<open>
  C7: Looking up and removing. On a well-formed table \<open>hash_search\<close> with \<open>HASH_FIND\<close> returns the entry of the map and
  leaves the table alone; \<open>HASH_REMOVE\<close> removes the key from the map and returns the element with its old
  data, or returns \<open>TRUE\<close> and changes nothing if the key is not there. After a successful
  \<open>HASH_FIND_SAVE\<close>, \<open>HASH_REMOVE_SAVED\<close> removes that very element whatever key it is given.
\<close>

theorem hash_search_refines_map:
  assumes "hash_table h m"
  shows "rets (hash_search h k HASH_FIND sv) (\<lambda>(h', r, found, sv'). h' = h \<and> sv' = sv \<and> found = (m k \<noteq> None) \<and>
      (if found then \<exists>i. r = KeyOf i \<and> elem_data h i = m k else r = True_Ptr)) \<and>
    rets (hash_search h k HASH_REMOVE sv) (\<lambda>(h', r, found, sv'). sv' = sv \<and> found = (m k \<noteq> None) \<and> hash_table h' (m(k := None)) \<and>
      (if found then \<exists>i. r = KeyOf i \<and> elem_data h' i = m k else r = True_Ptr \<and> h' = h)) \<and>
    rets (hash_search h k HASH_FIND_SAVE sv) (\<lambda>(h', r, found, sv'). h' = h \<and> found = (m k \<noteq> None) \<and>
      (if found then \<exists>i. r = KeyOf i \<and> elem_data h i = m k else r = True_Ptr \<and> sv' = sv) \<and>
      (found \<longrightarrow> (\<forall>key. hash_search h key HASH_REMOVE_SAVED sv' = map_option (\<lambda>(h', r, found, _). (h', r, found, None)) (hash_search h k HASH_REMOVE sv))))"
  by (intro conjI find_map [OF assms] find_remove [OF assms])

theorem hash_search_refines_map_witness:
  "\<exists>h :: (int, nat) HTAB. hash_table h [5 \<mapsto> 7] \<and> rets (hash_search h 5 HASH_REMOVE None) (\<lambda>(h', r, found, _). found \<and> hash_table h' Map.empty)"
proof -
  obtain h :: "(int, nat) HTAB" where h: "hash_table h [5 \<mapsto> 7]" using one_entry by blast
  have "rets (hash_search h 5 HASH_REMOVE None) (\<lambda>(h', r, found, _). found \<and> hash_table h' Map.empty)"
    by (rule rets_mono [OF hash_search_refines_map [OF h, of 5 None, THEN conjunct2, THEN conjunct1]]) auto
  then show ?thesis using h by blast
qed

text \<open>
  C12: Entering. \<open>HASH_ENTER\<close> returns the entry if the key is there. Otherwise, when an element is free or
  can be allocated, it adds the key to the map with whatever data the element held, and storing the data
  behind the returned pointer gives the map updated at the key. This includes the growth of
  the table by one bucket, provided there is room for the bucket and the bucket that is split is empty
  or keeps one of its keys. When memory is exhausted it returns the null pointer and the table is unchanged.
\<close>

theorem hash_enter_refines_map:
  assumes "hash_table h m" and "must_grow h \<Longrightarrow> can_grow h \<and> split_ok h (insert k (dom m))"
  shows "rets (hash_search h k HASH_ENTER sv) (\<lambda>(h', r, found, sv'). sv' = sv \<and> found = (m k \<noteq> None) \<and>
    (case m k of
       Some d \<Rightarrow> h' = h \<and> (\<exists>i. r = KeyOf i \<and> elem_data h i = Some d \<and> (\<forall>v. rets (set_data h i v) (\<lambda>h''. hash_table h'' (m(k \<mapsto> v)))))
     | None \<Rightarrow>
         if has_element h
         then nkeys h' = nkeys h + 1 \<and> max_bucket h' = max_bucket h + of_bool (must_grow h) \<and>
           (\<exists>i d. r = KeyOf i \<and> hash_table h' (m(k \<mapsto> d)) \<and> (\<forall>v. rets (set_data h' i v) (\<lambda>h''. hash_table h'' (m(k \<mapsto> v)))))
         else r = Null \<and> h' = h))"
proof -
  obtain C F where inv: "hash_inv h C F" and m: "table h C = m" using assms(1) by (auto simp: hash_table_def)
  consider d where "m k = Some d" | "m k = None" "has_element h" | "m k = None" "\<not> has_element h" by (cases "m k") auto
  then show ?thesis
  proof cases
    case 1 then show ?thesis using enter_old [OF inv, of k d sv] m by (auto simp: rets_def)
  next
    case 2 then show ?thesis using enter_new [OF inv, of k sv] m assms(2) by (auto simp: rets_def)
  next
    case 3 then show ?thesis using enter_full [OF inv, of k sv] m by (simp add: 3)
  qed
qed

theorem hash_enter_refines_map_witness:
  "\<exists>h :: (int, nat) HTAB. hash_table h [5 \<mapsto> 7] \<and> rets (hash_search h 6 HASH_ENTER None) (\<lambda>(h', r, found, _). \<not> found \<and>
     (\<exists>i. r = KeyOf i \<and> rets (set_data h' i 8) (\<lambda>h''. hash_table h'' [5 \<mapsto> 7, 6 \<mapsto> 8])))"
proof -
  obtain h :: "(int, nat) HTAB" where h: "hash_table h [5 \<mapsto> 7]" "has_element h" "\<not> must_grow h" using one_entry by blast
  have "rets (hash_search h 6 HASH_ENTER None) (\<lambda>(h', r, found, _). \<not> found \<and>
     (\<exists>i. r = KeyOf i \<and> rets (set_data h' i 8) (\<lambda>h''. hash_table h'' [5 \<mapsto> 7, 6 \<mapsto> 8])))"
    by (rule rets_mono [OF hash_enter_refines_map [OF h(1), of 6 None]]) (use h(2,3) in auto)
  then show ?thesis using h(1) by blast
qed

text \<open>
  C29: The sequential scan. Calling \<open>hash_seq\<close> from its reset state until it returns \<open>TRUE\<close> ends, and returns every key
  of the table exactly once.
\<close>

theorem hash_seq_enumerates:
  assumes "hash_table h m"
  shows "rets (hash_scan (nkeys h + 1) h 0 INVALID_INDEX) (\<lambda>es. length es = nkeys h \<and> distinct (map (key_at h) es) \<and> set (map (key_at h) es) = dom m)"
proof -
  obtain C F where inv: "hash_inv h C F" and m: "table h C = m" using assms by (auto simp: hash_table_def)
  note t = tail_from_entries [OF inv]
  have "hash_scan (nkeys h + 1) h 0 0 = Some (tail_from h C 0)"
    by (rule hash_scan_eq [OF inv]) (simp_all add: seq_at_def t)
  then show ?thesis using t m by (simp add: INVALID_INDEX_def)
qed

theorem hash_seq_enumerates_witness:
  "\<exists>h :: (int, nat) HTAB. hash_table h [5 \<mapsto> 7] \<and> rets (hash_scan (nkeys h + 1) h 0 INVALID_INDEX) (\<lambda>es. set (map (key_at h) es) = {5})"
proof -
  obtain h :: "(int, nat) HTAB" where h: "hash_table h [5 \<mapsto> 7]" using one_entry by blast
  show ?thesis using hash_seq_enumerates [OF h] h by (auto simp: rets_def)
qed

text \<open>
  C30: The split that C12 excludes breaks the table. When there is room for a new bucket, the bucket that is split is not empty and none of its keys
  stays, \<open>expand_table\<close> reports success, but leaves the slot of the old bucket pointing to the same element as the slot of the new one, an element whose
  key belongs to the new bucket, and the result no longer represents any map.
\<close>

theorem expand_table_loses_entry:
  assumes "hash_table h m" and "has_room h" and "2 * high_mask h + 1 < 2 ^ 32" and "\<not> split_ok h (dom m)"
  shows "rets (expand_table h) (\<lambda>(h', ok). ok \<and> max_bucket h' = max_bucket h + 1 \<and>
    (\<exists>x. x \<noteq> 0 \<and> get_link h' (bucket_slot h' (split_bucket h)) = Some x \<and> get_link h' (bucket_slot h' (max_bucket h')) = Some x \<and>
      call_hash h' (key_at h' x) = max_bucket h') \<and> \<not> (\<exists>m'. hash_table h' m'))"
proof -
  obtain C F where inv: "hash_inv h C F" and m: "table h C = m" using assms(1) by (auto simp: hash_table_def)
  note bad = split_bad_chains [OF inv, unfolded m, OF assms(4)]
  show ?thesis using expand_shares [OF inv assms(2,3) bad] by (rule rets_mono) (auto simp: hash_table_def)
qed

text \<open>The witness is a fresh table for one element with the key 1, which moves to bucket 1.\<close>

theorem expand_table_loses_entry_witness:
  "\<exists>h :: (int, nat) HTAB. hash_table h [1 \<mapsto> 7] \<and> max_bucket h = 0 \<and> rets (expand_table h) (\<lambda>(h', ok). ok \<and> max_bucket h' = 1 \<and>
    (\<exists>x. x \<noteq> 0 \<and> get_link h' (bucket_slot h' 0) = Some x \<and> get_link h' (bucket_slot h' 1) = Some x) \<and> \<not> (\<exists>m'. hash_table h' m'))"
proof -
  obtain h :: "(int, nat) HTAB" where h: "hash_table h [1 \<mapsto> 7]" "has_room h" "2 * high_mask h + 1 < 2 ^ 32" "max_bucket h = 0" "split_bucket h = 0"
    "call_hash h 1 = 0" "call_hash (grown h) 1 = 1" using single_entry by blast
  have "\<not> split_ok h (dom [1 \<mapsto> 7 :: nat])" using h(5-7) by (simp add: split_ok_def)
  from expand_table_loses_entry [OF h(1-3) this] show ?thesis using h(1,4,5) by (intro exI [of _ h]) (auto elim!: rets_mono)
qed

text \<open>
  What a client sees of it. In a fresh table for one element: enter the keys 1 and 3 (the table grows and both move), remove 3, enter 0,
  remove 1; then key 0 is not found although it was entered and never removed.
\<close>

lemma lost_entry_run:
  "map_option snd (do { h \<leftarrow> hash_create raw_memory 1 int_info (\<lambda>_. 0);
       hash_run h [(HASH_ENTER, 1), (HASH_ENTER, 3), (HASH_REMOVE, 3), (HASH_ENTER, 0), (HASH_REMOVE, 1), (HASH_FIND, 0)] })
   = Some [False, False, True, False, True, False]"
  by code_simp

end
