(* ===== verification/HashFn.thy ===== *)
theory HashFn
  imports Bytes "HOL-Library.Signed_Division"
begin

text \<open>
  The hash functions of \<open>utils/hash/hashfn.c\<close> on keys as blocks of bytes. \<open>int\<close> and \<open>long\<close> are words of 32 and
  64 bits with wrap-around, \<open>char\<close> is signed, integers are little-endian; \<open>None\<close> is a read beyond the
  memory of the key. The unrolled code is related to the simple loops it stands for.
\<close>

definition PRIME1 :: nat where "PRIME1 = 37"
definition PRIME2 :: int where "PRIME2 = 1048583"

subsection \<open>\<open>string_hash\<close>\<close>

text \<open>The loop over the bytes before the terminating null.\<close>

fun string_loop :: "uint32 \<Rightarrow> byte list \<Rightarrow> uint32 option" where
  "string_loop h [] = None"
| "string_loop h (k # ks) = (if k = 0 then Some h else string_loop ((h * of_nat PRIME1) XOR (ucast k - 32)) ks)"

definition string_hash :: "byte list \<Rightarrow> int option" where
  "string_hash key = map_option (\<lambda>h. sint h smod PRIME2) (string_loop 0 key)"

subsection \<open>\<open>tag_hash\<close>\<close>

text \<open>One step on an \<open>int\<close> of the key and one on a \<open>char\<close>: the hash value and the rest of the key.\<close>

definition hash_int :: "64 word \<times> byte list \<Rightarrow> (64 word \<times> byte list) option" where
  "hash_int s = (case s of (h, key) \<Rightarrow>
     if length key < 4 then None else Some ((h * of_nat PRIME1) XOR signed (le_word (take 4 key) :: uint32), drop 4 key))"

definition hash_char :: "64 word \<times> byte list \<Rightarrow> (64 word \<times> byte list) option" where
  "hash_char s = (case s of (h, key) \<Rightarrow>
     case key of [] \<Rightarrow> None | c # cs \<Rightarrow> Some ((h * of_nat PRIME1) XOR signed c, cs))"

text \<open>The cases of the jump table, each falling through to the next.\<close>

definition case1 :: "64 word \<times> byte list \<Rightarrow> (64 word \<times> byte list) option" where "case1 s = hash_int s"
definition case2 :: "64 word \<times> byte list \<Rightarrow> (64 word \<times> byte list) option" where "case2 s = hash_int s \<bind> case1"
definition case3 :: "64 word \<times> byte list \<Rightarrow> (64 word \<times> byte list) option" where "case3 s = hash_int s \<bind> case2"
definition case4 :: "64 word \<times> byte list \<Rightarrow> (64 word \<times> byte list) option" where "case4 s = hash_int s \<bind> case3"
definition case5 :: "64 word \<times> byte list \<Rightarrow> (64 word \<times> byte list) option" where "case5 s = hash_int s \<bind> case4"
definition case6 :: "64 word \<times> byte list \<Rightarrow> (64 word \<times> byte list) option" where "case6 s = hash_int s \<bind> case5"

text \<open>The default case: a loop over whole integers, then the last one to three bytes.\<close>

fun tag_loop :: "nat \<Rightarrow> 64 word \<times> byte list \<Rightarrow> (nat \<times> 64 word \<times> byte list) option" where
  "tag_loop keysize s = (if keysize > 3 then hash_int s \<bind> tag_loop (keysize - 4) else Some (keysize, s))"

declare tag_loop.simps [simp del]

definition tag_rest :: "nat \<Rightarrow> 64 word \<times> byte list \<Rightarrow> (64 word \<times> byte list) option" where
  "tag_rest keysize s =
     (if keysize = 3 then hash_char s \<bind> (\<lambda>s. hash_char s \<bind> hash_char)
      else if keysize = 2 then hash_char s \<bind> hash_char
      else if keysize = 1 then hash_char s
      else Some s)"

definition tag_hash :: "byte list \<Rightarrow> nat \<Rightarrow> int option" where
  "tag_hash key keysize = do {
     (h, _) \<leftarrow>
       (if keysize = 24 then case6 (0, key)
        else if keysize = 20 then case5 (0, key)
        else if keysize = 16 then case4 (0, key)
        else if keysize = 12 then case3 (0, key)
        else if keysize = 8 then case2 (0, key)
        else if keysize = 4 then case1 (0, key)
        else do { (keysize, s) \<leftarrow> tag_loop keysize (0, key); if keysize \<noteq> 0 then tag_rest keysize s else Some s });
     Some (sint h smod PRIME2)
   }"

subsection \<open>\<open>disk_hash\<close>\<close>

definition HASHC :: "uint32 \<times> byte list \<Rightarrow> (uint32 \<times> byte list) option" where
  "HASHC s = (case s of (n, str) \<Rightarrow> case str of [] \<Rightarrow> None | c # cs \<Rightarrow> Some (signed c + 65599 * n, cs))"

text \<open>From the label \<open>case k\<close> to the end of the loop body there are \<open>k\<close> steps, from \<open>case 0\<close> eight.\<close>

primrec hashc_from :: "nat \<Rightarrow> uint32 \<times> byte list \<Rightarrow> (uint32 \<times> byte list) option" where
  "hashc_from 0 s = Some s"
| "hashc_from (Suc k) s = HASHC s \<bind> hashc_from k"

fun duff :: "nat \<Rightarrow> nat \<Rightarrow> uint32 \<times> byte list \<Rightarrow> (uint32 \<times> byte list) option" where
  "duff 0 label s = None"
| "duff (Suc loop) label s = do {
     s \<leftarrow> hashc_from (if label = 0 then 8 else label) s;
     if loop = 0 then Some s else duff loop 0 s
   }"

fun strlen :: "byte list \<Rightarrow> nat option" where
  "strlen [] = None"
| "strlen (c # cs) = (if c = 0 then Some 0 else map_option Suc (strlen cs))"

definition disk_hash :: "byte list \<Rightarrow> int option" where
  "disk_hash key = do {
     len \<leftarrow> strlen key;
     (n, _) \<leftarrow> (if len > 0 then duff (drop_bit 3 (len + 8 - 1)) (len AND (8 - 1)) (0, key) else Some (0, key));
     Some (sint n)
   }"

subsection \<open>The loops they stand for\<close>

definition mix :: "64 word \<Rightarrow> 64 word \<Rightarrow> 64 word" where
  "mix h x = (h * 37) XOR x"

fun tag_items :: "byte list \<Rightarrow> 64 word list" where
  "tag_items (a # b # c # d # key) = signed (le_word [a, b, c, d] :: uint32) # tag_items key"
| "tag_items key = map signed key"

lemma tag_items_step: "4 \<le> length key \<Longrightarrow> tag_items key = signed (le_word (take 4 key) :: uint32) # tag_items (drop 4 key)"
  by (cases key rule: tag_items.cases) (auto simp: numeral_eq_Suc)

lemma hash_int_mix: "4 \<le> length key \<Longrightarrow> hash_int (h, key) = Some (mix h (signed (le_word (take 4 key) :: uint32)), drop 4 key)"
  by (simp add: hash_int_def mix_def PRIME1_def)

lemma tag_default:
  assumes "n \<le> length key"
  shows "tag_loop n (h, key) \<bind> (\<lambda>(k, s). if k \<noteq> 0 then tag_rest k s else Some s) = Some (foldl mix h (tag_items (take n key)), drop n key)"
  using assms
proof (induction n arbitrary: h key rule: less_induct)
  case (less n)
  show ?case
  proof (cases "3 < n")
    case True
    then have k: "4 \<le> length key" "n - 4 \<le> length (drop 4 key)" using less.prems by auto
    have "tag_items (take n key) = signed (le_word (take 4 key) :: uint32) # tag_items (take (n - 4) (drop 4 key))"
      using True less.prems tag_items_step [of "take n key"] by (simp add: drop_take)
    moreover have "drop (n - 4) (drop 4 key) = drop n key" using True by simp
    ultimately show ?thesis using True less.IH [OF _ k(2), of "mix h (signed (le_word (take 4 key) :: uint32))"] k
      by (subst tag_loop.simps) (simp add: hash_int_mix)
  next
    case False
    then have "n = 0 \<or> n = 1 \<or> n = 2 \<or> n = 3" by auto
    then show ?thesis using less.prems
      by (elim disjE; cases key rule: tag_items.cases)
        (simp_all add: tag_loop.simps tag_rest_def hash_char_def mix_def PRIME1_def numeral_eq_Suc)
  qed
qed

lemma tag_cases:
  shows "tag_loop 4 s = map_option (Pair 0) (case1 s)" and "tag_loop 8 s = map_option (Pair 0) (case2 s)"
    and "tag_loop 12 s = map_option (Pair 0) (case3 s)" and "tag_loop 16 s = map_option (Pair 0) (case4 s)"
    and "tag_loop 20 s = map_option (Pair 0) (case5 s)" and "tag_loop 24 s = map_option (Pair 0) (case6 s)"
  by (simp_all add: tag_loop.simps case1_def case2_def case3_def case4_def case5_def case6_def map_option_bind map_conv_bind_option comp_def
      split: Option.bind_splits)

lemma smod_bounds: "\<bar>x smod PRIME2\<bar> < PRIME2"
  by (simp add: smod_int_alt_def PRIME2_def abs_mult abs_sgn_eq)

text \<open>
  C31: The jump table of \<open>tag_hash\<close>. For a key of any size the result is that of the plain loop over the integers and remaining
  bytes of the key, whether or not the size has a case of its own, and its absolute value is below \<open>PRIME2\<close>.
\<close>

theorem tag_hash_unrolled:
  assumes "keysize \<le> length key"
  shows "tag_hash key keysize = Some (sint (foldl mix 0 (tag_items (take keysize key))) smod PRIME2) \<and>
    \<bar>sint (foldl mix 0 (tag_items (take keysize key))) smod PRIME2\<bar> < PRIME2"
proof -
  note d = tag_default [OF assms, of 0]
  have m: "map_option (Pair 0) x \<bind> (\<lambda>(k :: nat, s). if 0 < k then tag_rest k s else Some s) = x" for x by (cases x) auto
  have "tag_hash key keysize = (tag_loop keysize (0, key) \<bind> (\<lambda>(k, s). if k \<noteq> 0 then tag_rest k s else Some s)) \<bind> (\<lambda>(h, _). Some (sint h smod PRIME2))"
    unfolding tag_hash_def
    by (cases "keysize \<in> {4, 8, 12, 16, 20, 24}") (auto simp: tag_cases m simp del: Option.bind_assoc bind_map_option)
  then show ?thesis unfolding d by (simp add: smod_bounds)
qed

theorem tag_hash_unrolled_witness:
  "tag_hash [1, 0, 0, 0, 2, 0, 0, 0, 255] 8 = Some (sint (foldl mix 0 (tag_items [1, 0, 0, 0, 2, 0, 0, 0])) smod PRIME2) \<and> tag_hash [1, 0, 0, 0, 2, 0, 0, 0, 255] 8 = Some 39"
proof -
  have "tag_hash [1, 0, 0, 0, 2, 0, 0, 0, 255] 8 = Some 39" by code_simp
  then show ?thesis using tag_hash_unrolled [of 8 "[1, 0, 0, 0, 2, 0, 0, 0, 255]"] by simp
qed

lemma strlen_le: "strlen key = Some len \<Longrightarrow> len < length key"
  by (induction key arbitrary: len) (auto split: if_splits)

definition hashc_step :: "uint32 \<Rightarrow> byte \<Rightarrow> uint32" where
  "hashc_step n c = signed c + 65599 * n"

lemma hashc_from_eq: "k \<le> length str \<Longrightarrow> hashc_from k (n, str) = Some (foldl hashc_step n (take k str), drop k str)"
proof (induction k arbitrary: n str)
  case (Suc k)
  then show ?case by (cases str) (auto simp: HASHC_def hashc_step_def)
qed simp

lemma duff_eq:
  assumes "(if label = 0 then 8 else label) + 8 * loop \<le> length str"
  shows "duff (Suc loop) label (n, str) = Some (foldl hashc_step n (take ((if label = 0 then 8 else label) + 8 * loop) str), drop ((if label = 0 then 8 else label) + 8 * loop) str)"
  using assms
proof (induction loop arbitrary: label n str)
  case 0
  then show ?case by (simp add: hashc_from_eq)
next
  case (Suc loop)
  let ?k = "if label = 0 then 8 else label"
  have k: "?k \<le> length str" "8 + 8 * loop \<le> length (drop ?k str)" using Suc.prems by auto
  have "duff (Suc (Suc loop)) label (n, str) = duff (Suc loop) 0 (foldl hashc_step n (take ?k str), drop ?k str)"
    unfolding duff.simps(2) [of "Suc loop" label] hashc_from_eq [OF k(1)] by simp
  also have "\<dots> = Some (foldl hashc_step (foldl hashc_step n (take ?k str)) (take (8 + 8 * loop) (drop ?k str)), drop (8 + 8 * loop) (drop ?k str))"
    using Suc.IH [of 0 "drop ?k str"] k(2) by simp
  also have "foldl hashc_step (foldl hashc_step n (take ?k str)) (take (8 + 8 * loop) (drop ?k str)) = foldl hashc_step n (take (?k + 8 * Suc loop) str)"
    by (simp only: foldl_append [symmetric] take_add [symmetric]) (simp add: add.assoc)
  finally show ?case by (simp add: add.commute add.left_commute)
qed

lemma duff_count: "0 < len \<Longrightarrow> (if len AND 7 = 0 then 8 else len AND 7) + 8 * (drop_bit 3 (len + 7) - 1) = (len :: nat)" "0 < len \<Longrightarrow> 0 < drop_bit 3 (len + 7 :: nat)"
proof -
  assume p: "0 < len"
  have a: "len AND 7 = len mod 8" using take_bit_eq_mask [of 3 len] by (simp add: take_bit_eq_mod mask_eq_exp_minus_1)
  have d: "drop_bit 3 (len + 7) = (len + 7) div 8" by (simp add: drop_bit_eq_div)
  define q r where "q = len div 8" and "r = len mod 8"
  have l: "len = 8 * q + r" "r < 8" by (simp_all add: q_def r_def)
  have e: "(len + 7) div 8 = (if r = 0 then q else q + 1)" "len mod 8 = r" using l by (auto simp: div_nat_eqI)
  show "(if len AND 7 = 0 then 8 else len AND 7) + 8 * (drop_bit 3 (len + 7) - 1) = len" "0 < drop_bit 3 (len + 7)"
    unfolding a d e using p l by (auto split: if_splits)
qed

text \<open>
  The unrolled loop of \<open>disk_hash\<close>, entered in the middle of its body, computes the same as one step
  per character of the string, for every length.
\<close>

theorem disk_hash_unrolled:
  assumes "strlen key = Some len"
  shows "disk_hash key = Some (sint (foldl hashc_step 0 (take len key)))"
proof (cases "len = 0")
  case True
  then show ?thesis using assms by (simp add: disk_hash_def)
next
  case False
  define loop where "loop = drop_bit 3 (len + 7) - 1"
  have c: "(if len AND 7 = 0 then 8 else len AND 7) + 8 * loop = len" "drop_bit 3 (len + 8 - 1) = Suc loop"
    using duff_count [of len] False by (simp_all add: loop_def add.commute [of len])
  have "duff (Suc loop) (len AND 7) (0, key) = Some (foldl hashc_step 0 (take len key), drop len key)"
    using duff_eq [of "len AND 7" loop key 0] strlen_le [OF assms] unfolding c(1) by simp
  then show ?thesis using assms False c(2) by (simp add: disk_hash_def)
qed

theorem disk_hash_unrolled_witness:
  "disk_hash [97, 98, 99, 100, 101, 102, 103, 104, 105, 0] = Some (sint (foldl hashc_step 0 [97, 98, 99, 100, 101, 102, 103, 104, 105]))"
  using disk_hash_unrolled [of "[97, 98, 99, 100, 101, 102, 103, 104, 105, 0]" 9] by simp

end
