(* ===== verification/BufTable.thy ===== *)
theory BufTable
  imports Pins_Inv DynaHash_Create HashFn
begin

text \<open>
  The lookup table of the buffer pool, \<open>storage/buffer/buf_table.c\<close>: a dynamic hash table from buffer tags to
  buffer ids, keyed by \<open>tag_hash\<close>. The table relies on the hash table as a finite map (locale
  \<open>finite_table\<close>, interpreted on \<open>hash_search\<close>); its own contract is that it maps exactly
  the tags of the buffers that are not \<open>BM_DELETED\<close>.
\<close>

subsection \<open>The operations\<close>

type_synonym buf_hash = "(BufferTag, int) HTAB"

definition P_NEW :: uint32 where "P_NEW = InvalidBlockNumber"

text \<open>The bytes of a tag in memory: relation, database and block number, without padding.\<close>

definition tag_bytes :: "BufferTag \<Rightarrow> byte list" where
  "tag_bytes t = le_bytes 4 (relId t) @ le_bytes 4 (dbId t) @ le_bytes 4 (blockNum t)"

definition buf_info :: "bool \<Rightarrow> BufferTag HASHCTL" where
  "buf_info attach = \<lparr>HASH_FUNCTION = Some (\<lambda>t. the (tag_hash (tag_bytes t) 12)), HASH_SEGMENT = None, HASH_FFACTOR = None,
     HASH_DIRSIZE = None, HASH_ELEM = Some (12, 4), HASH_ATTACH = attach\<rparr>"

text \<open>
  \<open>ShmemInitHash\<close> looks the name up in the binding table and attaches to the table if it \<open>found\<close> it there;
  \<open>None\<close> is also the exit of \<open>InitBufTable\<close> when no table can be made.
\<close>

definition InitBufTable :: "buf_hash \<Rightarrow> nat \<Rightarrow> bool \<Rightarrow> buf_hash option" where
  "InitBufTable h nbuffers found = hash_create h nbuffers (buf_info found) (\<lambda>_. 0)"

text \<open>The result is the index of the descriptor, the inner \<open>None\<close> the null pointer.\<close>

definition BufTableLookup :: "buf_hash \<Rightarrow> BufferTag \<Rightarrow> int option option" where
  "BufTableLookup h t =
     (if blockNum t = P_NEW then Some None
      else do {
        (_, result, found, _) \<leftarrow> hash_search h t HASH_FIND None;
        if result = Null \<or> \<not> found then Some None
        else (case result of KeyOf i \<Rightarrow> map_option Some (elem_data h i) | _ \<Rightarrow> None)
      })"

definition BufTableDelete :: "pool \<Rightarrow> buf_hash \<Rightarrow> int \<Rightarrow> (pool \<times> buf_hash \<times> bool) option" where
  "BufTableDelete s h buf = do {
     d \<leftarrow> desc_at s buf;
     if has_flag BM_DELETED d then Some (s, h, True)
     else do {
       s \<leftarrow> desc_upd s buf (set_flag BM_DELETED);
       (h, result, found, _) \<leftarrow> hash_search h (tag d) HASH_REMOVE None;
       Some (s, h, result \<noteq> Null \<and> found)
     }
   }"

definition BufTableInsert :: "pool \<Rightarrow> buf_hash \<Rightarrow> int \<Rightarrow> (pool \<times> buf_hash \<times> bool) option" where
  "BufTableInsert s h buf = do {
     d \<leftarrow> desc_at s buf;
     if \<not> has_flag BM_DELETED d then None
     else do {
       s \<leftarrow> desc_upd s buf (clear_flag BM_DELETED);
       (h, result, found, _) \<leftarrow> hash_search h (tag d) HASH_ENTER None;
       case result of
         KeyOf i \<Rightarrow> if found then None else do { h \<leftarrow> set_data h i (buf_id d); Some (s, h, True) }
       | _ \<Rightarrow> None
     }
   }"

subsection \<open>The interface of the hash table\<close>

locale finite_table =
  fixes R :: "'t \<Rightarrow> ('k \<rightharpoonup> 'v) \<Rightarrow> bool"
    and find :: "'t \<Rightarrow> 'k \<Rightarrow> 'v option option"
    and remove :: "'t \<Rightarrow> 'k \<Rightarrow> ('t \<times> bool) option"
    and enter :: "'t \<Rightarrow> 'k \<Rightarrow> 'v \<Rightarrow> 't option"
    and room :: "'t \<Rightarrow> bool"
  assumes find_law: "R t m \<Longrightarrow> find t k = Some (m k)"
    and remove_law: "R t m \<Longrightarrow> rets (remove t k) (\<lambda>(t', found). R t' (m(k := None)) \<and> found = (m k \<noteq> None))"
    and enter_law: "R t m \<Longrightarrow> m k = None \<Longrightarrow> room t \<Longrightarrow> rets (enter t k v) (\<lambda>t'. R t' (m(k \<mapsto> v)))"
begin

text \<open>A table of owners: \<open>own v\<close> is the key under which \<open>v\<close> is registered.\<close>

definition registry :: "'t \<Rightarrow> ('v \<rightharpoonup> 'k) \<Rightarrow> bool" where
  "registry t own \<longleftrightarrow> (\<exists>m. R t m \<and> (\<forall>k v. m k = Some v \<longleftrightarrow> own v = Some k))"

lemma registry_find: "registry t own \<Longrightarrow> \<exists>r. find t k = Some r \<and> (\<forall>v. r = Some v \<longleftrightarrow> own v = Some k)"
  unfolding registry_def using find_law by metis

lemma registry_remove:
  assumes "registry t own" and "own v = Some k"
  shows "rets (remove t k) (\<lambda>(t', found). registry t' (own(v := None)) \<and> found)"
proof -
  obtain m where m: "R t m" "\<And>k v. m k = Some v \<longleftrightarrow> own v = Some k" using assms(1) by (auto simp: registry_def)
  have mk: "m k = Some v" using m(2) assms(2) by simp
  have "(m(k := None)) k' = Some v' \<longleftrightarrow> (own(v := None)) v' = Some k'" for k' v'
    using m(2) [of k v'] m(2) [of k' v'] mk assms(2) by auto
  then have "registry t' (own(v := None))" if "R t' (m(k := None))" for t' using that unfolding registry_def by blast
  then show ?thesis using remove_law [OF m(1), of k] mk by (auto elim!: rets_mono)
qed

lemma registry_enter:
  assumes "registry t own" and "own v = None" and "k \<notin> ran own" and "room t"
  shows "rets (enter t k v) (\<lambda>t'. registry t' (own(v \<mapsto> k)))"
proof -
  obtain m where m: "R t m" "\<And>k v. m k = Some v \<longleftrightarrow> own v = Some k" using assms(1) by (auto simp: registry_def)
  have mk: "m k = None" using m(2) [of k] assms(3) by (cases "m k") (auto simp: ran_def)
  have "(m(k \<mapsto> v)) k' = Some v' \<longleftrightarrow> (own(v \<mapsto> k)) v' = Some k'" for k' v'
    using m(2) [of k' v'] m(2) [of k v'] m(2) [of k' v] mk assms(2) by auto
  then have "registry t' (own(v \<mapsto> k))" if "R t' (m(k \<mapsto> v))" for t' using that unfolding registry_def by blast
  then show ?thesis using enter_law [OF m(1) mk assms(4), of v] by (auto elim!: rets_mono)
qed

end

text \<open>The contract on \<open>hash_search\<close>: lookup, removal and entry followed by storing the data, in a table that need not grow.\<close>

definition hash_find :: "('k, 'v) HTAB \<Rightarrow> 'k \<Rightarrow> 'v option option" where
  "hash_find h k = do {
     (_, r, found, _) \<leftarrow> hash_search h k HASH_FIND None;
     if r = Null \<or> \<not> found then Some None else (case r of KeyOf i \<Rightarrow> map_option Some (elem_data h i) | _ \<Rightarrow> None)
   }"

definition hash_drop :: "('k, 'v) HTAB \<Rightarrow> 'k \<Rightarrow> (('k, 'v) HTAB \<times> bool) option" where
  "hash_drop h k = do { (h, r, found, _) \<leftarrow> hash_search h k HASH_REMOVE None; Some (h, r \<noteq> Null \<and> found) }"

definition hash_put :: "('k, 'v) HTAB \<Rightarrow> 'k \<Rightarrow> 'v \<Rightarrow> ('k, 'v) HTAB option" where
  "hash_put h k v = do {
     (h, r, found, _) \<leftarrow> hash_search h k HASH_ENTER None;
     case r of KeyOf i \<Rightarrow> if found then None else set_data h i v | _ \<Rightarrow> None
   }"

definition hash_room :: "('k, 'v) HTAB \<Rightarrow> bool" where
  "hash_room h \<longleftrightarrow> has_element h \<and> \<not> must_grow h"

interpretation ht: finite_table hash_table hash_find hash_drop hash_put hash_room
proof
  fix t :: "('k, 'v) HTAB" and m k v
  assume t: "hash_table t m"
  show "hash_find t k = Some (m k)"
    using find_map [OF t, of k None] by (elim retsE) (auto simp: hash_find_def split: if_splits)
  show "rets (hash_drop t k) (\<lambda>(t', found). hash_table t' (m(k := None)) \<and> found = (m k \<noteq> None))"
    unfolding hash_drop_def by (rule rets_bind [OF find_remove(1) [OF t]]) (auto split: if_splits)
  show "rets (hash_put t k v) (\<lambda>t'. hash_table t' (m(k \<mapsto> v)))" if new: "m k = None" and room: "hash_room t"
  proof -
    obtain C F where inv: "hash_inv t C F" and m: "table t C = m" using t by (auto simp: hash_table_def)
    show ?thesis unfolding hash_put_def
      by (rule rets_bind [OF enter_new [OF inv, of k None]]) (use new room m in \<open>auto simp: hash_room_def\<close>)
  qed
qed

subsection \<open>The invariant\<close>

text \<open>The tag under which a buffer is registered, and the table that registers all buffers of the pool.\<close>

definition owner :: "pool \<Rightarrow> int \<rightharpoonup> BufferTag" where
  "owner s b = (if 0 \<le> b \<and> b < int (NBuffers s) \<and> \<not> has_flag BM_DELETED (D s b) then Some (tag (D s b)) else None)"

definition pool_shape :: "pool \<Rightarrow> bool" where
  "pool_shape s \<longleftrightarrow> NBuffers s \<le> length (BufferDescriptors s) \<and> (\<forall>b. 0 \<le> b \<and> b < int (NBuffers s) \<longrightarrow> buf_id (D s b) = b)"

definition wide_enough :: "pool \<Rightarrow> ('k, 'v) HTAB \<Rightarrow> bool" where
  "wide_enough s h \<longleftrightarrow> NBuffers s \<le> max_bucket h + 1 \<and> ffactor h = 1"

definition buf_table :: "pool \<Rightarrow> buf_hash \<Rightarrow> bool" where
  "buf_table s h \<longleftrightarrow> (\<exists>m. hash_table h m \<and> (\<forall>t b. m t = Some b \<longleftrightarrow> owner s b = Some t)) \<and> pool_shape s \<and> wide_enough s h"

lemma buf_table_registry: "buf_table s h \<longleftrightarrow> ht.registry h (owner s) \<and> pool_shape s \<and> wide_enough s h"
  by (simp add: buf_table_def ht.registry_def)

lemma wide_enough_shape: "wide_enough s h \<Longrightarrow> same_shape h h' \<Longrightarrow> NBuffers s' = NBuffers s \<Longrightarrow> wide_enough s' h'"
  by (simp add: wide_enough_def same_shape_def)

lemma flag_deleted [simp]: "has_flag BM_DELETED (set_flag BM_DELETED d)" "\<not> has_flag BM_DELETED (clear_flag BM_DELETED d)"
  "tag (set_flag m d) = tag d" "tag (clear_flag m d) = tag d"
proof -
  show "has_flag BM_DELETED (set_flag BM_DELETED d)"
    by (simp add: has_flag_def set_flag_def BM_DELETED_def bit_eq_iff bit_simps) (auto simp: bit_eq_iff bit_simps intro!: exI [of _ 3])
  show "\<not> has_flag BM_DELETED (clear_flag BM_DELETED d)"
    by (auto simp: has_flag_def clear_flag_def bit_eq_iff bit_simps)
qed (simp_all add: set_flag_def clear_flag_def)

lemma pool_shape_ok: "pool_shape s \<Longrightarrow> 0 \<le> b \<Longrightarrow> b < int (NBuffers s) \<Longrightarrow> desc_ok s b \<and> buf_id (D s b) = b"
  by (auto simp: pool_shape_def desc_ok_def)

lemma owner_put:
  assumes "pool_shape s" and "0 \<le> b" and "b < int (NBuffers s)"
  shows "owner (put_desc s b f) = (owner s)(b := if has_flag BM_DELETED (f (D s b)) then None else Some (tag (f (D s b))))"
proof
  fix x
  show "owner (put_desc s b f) x = ((owner s)(b := if has_flag BM_DELETED (f (D s b)) then None else Some (tag (f (D s b))))) x"
    using pool_shape_ok [OF assms] pool_shape_ok [OF assms(1), of x] assms(2,3) by (cases "x = b") (auto simp: owner_def)
qed

lemma pool_shape_put: "pool_shape s \<Longrightarrow> 0 \<le> b \<Longrightarrow> b < int (NBuffers s) \<Longrightarrow> buf_id (f (D s b)) = buf_id (D s b) \<Longrightarrow> pool_shape (put_desc s b f)"
  using pool_shape_ok [of s] by (auto simp: pool_shape_def)

text \<open>A table that registers the buffers of a pool, one of which is not registered, need not grow.\<close>

lemma no_growth:
  assumes "buf_table s h" and "0 \<le> b" "b < int (NBuffers s)" and "owner s b = None"
  shows "\<not> must_grow h"
proof -
  obtain m where m: "hash_table h m" "\<And>t b. m t = Some b \<longleftrightarrow> owner s b = Some t" and w: "wide_enough s h"
    using assms(1) by (auto simp: buf_table_def)
  obtain C F where "hash_inv h C F" "table h C = m" using m(1) by (auto simp: hash_table_def)
  then have n: "nkeys h = card (dom m)" using tail_from_entries [of h C F] by (metis distinct_card length_map)
  let ?B = "{0..<int (NBuffers s)} - {b}"
  have sub: "dom (owner s) \<subseteq> ?B" using assms(4) by (auto simp: owner_def split: if_splits)
  have "dom m \<subseteq> (\<lambda>b. the (owner s b)) ` ?B"
  proof
    fix t assume "t \<in> dom m"
    then obtain v where "owner s v = Some t" using m(2) by auto
    then show "t \<in> (\<lambda>b. the (owner s b)) ` ?B" using sub by force
  qed
  then have "card (dom m) \<le> card ?B" by (meson card_image_le card_mono finite_Diff finite_atLeastLessThan_int finite_imageI order_trans)
  also have "\<dots> = NBuffers s - 1" using assms(2,3) by simp
  finally have "nkeys h + 1 \<le> max_bucket h + 1" using n assms(2,3) w unfolding wide_enough_def by linarith
  then have "(nkeys h + 1) div (max_bucket h + 1) \<le> 1" by (metis div_le_mono div_self zero_eq_add_iff_both_eq_0 zero_neq_one)
  then show ?thesis using w by (simp add: must_grow_def wide_enough_def)
qed

subsection \<open>The operations keep it\<close>

lemma lookup_eq: "BufTableLookup h t = (if blockNum t = P_NEW then Some None else hash_find h t)"
  by (simp add: BufTableLookup_def hash_find_def)

lemma lookup_table:
  assumes "buf_table s h"
  shows "\<exists>r. BufTableLookup h t = Some r \<and> (\<forall>b. r = Some b \<longleftrightarrow> owner s b = Some t \<and> blockNum t \<noteq> P_NEW)"
  using ht.registry_find [of h "owner s" t] assms by (auto simp: buf_table_registry lookup_eq)

lemma delete_table:
  assumes inv: "buf_table s h" and b: "0 \<le> b" "b < int (NBuffers s)"
  shows "rets (BufTableDelete s h b) (\<lambda>(s', h', ok). ok \<and> buf_table s' h' \<and> owner s' = (owner s)(b := None) \<and> NBuffers s' = NBuffers s \<and>
    s' = (if has_flag BM_DELETED (D s b) then s else put_desc s b (set_flag BM_DELETED)))"
proof -
  have sh: "pool_shape s" and reg: "ht.registry h (owner s)" and w: "wide_enough s h" using inv by (auto simp: buf_table_registry)
  note ok = pool_shape_ok [OF sh b]
  show ?thesis
  proof (cases "has_flag BM_DELETED (D s b)")
    case True
    then have "owner s b = None" by (simp add: owner_def)
    then have "(owner s)(b := None) = owner s" by (simp add: fun_upd_idem)
    then show ?thesis using True inv ok by (simp add: BufTableDelete_def)
  next
    case False
    let ?s = "put_desc s b (set_flag BM_DELETED)"
    have own: "owner s b = Some (tag (D s b))" using False b by (simp add: owner_def)
    obtain h' where h': "hash_drop h (tag (D s b)) = Some (h', True)" "ht.registry h' ((owner s)(b := None))"
      using ht.registry_remove [OF reg own] by (elim retsE) auto
    have "same_shape h h'" using h'(1) search_shape [of h "tag (D s b)" HASH_REMOVE None] by (auto simp: hash_drop_def split: Option.bind_splits)
    then have "wide_enough ?s h'" using wide_enough_shape [OF w] by simp
    moreover have "owner ?s = (owner s)(b := None)" using owner_put [OF sh b, of "set_flag BM_DELETED"] by simp
    moreover have "pool_shape ?s" by (rule pool_shape_put [OF sh b]) simp
    moreover have "BufTableDelete s h b = Some (?s, h', True)"
      using ok False h'(1) by (auto simp: BufTableDelete_def hash_drop_def split: Option.bind_splits)
    ultimately show ?thesis using h'(2) False by (simp add: buf_table_registry)
  qed
qed

lemma insert_table:
  assumes inv: "buf_table s h" and b: "0 \<le> b" "b < int (NBuffers s)" and del: "has_flag BM_DELETED (D s b)"
    and new: "tag (D s b) \<notin> ran (owner s)" and mem: "has_element h"
  shows "rets (BufTableInsert s h b) (\<lambda>(s', h', ok). ok \<and> buf_table s' h' \<and> owner s' = (owner s)(b \<mapsto> tag (D s b)) \<and>
    s' = put_desc s b (clear_flag BM_DELETED) \<and> max_bucket h' = max_bucket h)"
proof -
  have sh: "pool_shape s" and reg: "ht.registry h (owner s)" and w: "wide_enough s h" using inv by (auto simp: buf_table_registry)
  note ok = pool_shape_ok [OF sh b]
  let ?s = "put_desc s b (clear_flag BM_DELETED)"
  have own: "owner s b = None" using del by (simp add: owner_def)
  have ng: "\<not> must_grow h" by (rule no_growth [OF inv b own])
  then have "hash_room h" using mem by (simp add: hash_room_def)
  from ht.registry_enter [OF reg own new this] obtain h' where h': "hash_put h (tag (D s b)) b = Some h'" "ht.registry h' ((owner s)(b \<mapsto> tag (D s b)))"
    by (elim retsE) auto
  have sh': "same_shape h h'"
    using h'(1) search_shape [of h "tag (D s b)" HASH_ENTER None] ng
    by (auto simp: hash_put_def split: Option.bind_splits result.splits if_splits dest!: set_data_shape intro: same_shape_trans)
  then have "wide_enough ?s h'" using wide_enough_shape [OF w] by simp
  moreover have "owner ?s = (owner s)(b \<mapsto> tag (D s b))" using owner_put [OF sh b, of "clear_flag BM_DELETED"] by simp
  moreover have "pool_shape ?s" by (rule pool_shape_put [OF sh b]) simp
  moreover have "BufTableInsert s h b = Some (?s, h', True)"
    using ok del h'(1) by (auto simp: BufTableInsert_def hash_put_def split: Option.bind_splits result.splits if_splits)
  ultimately show ?thesis using h'(2) sh' by (simp add: buf_table_registry same_shape_def)
qed

end
