(* ===== verification/BufTable_Props.thy ===== *)
theory BufTable_Props
  imports BufTable Pool_Props Hash_Props
begin

text \<open>
  The lookup table of the buffer pool from its creation on: it maps the tags of exactly the registered
  buffers, and lookup, deletion and insertion keep it so.
\<close>

lemma init_buf_table:
  assumes "length mem = Suc n" and "1 \<le> n" "n \<le> 2 ^ 29" and "dir h = Map.empty" and "\<forall>i\<in>dom (elems h). i < ShmemFreeStart h"
    and "0 < ShmemFreeStart h" and "ShmemFreeStart h + 8 * max 256 (2 * n) \<le> ShmemSize h"
  shows "rets (InitBufferPool n base mem False me) (\<lambda>(s, _). rets (InitBufTable h n False) (\<lambda>h'. buf_table s h' \<and> owner s = Map.empty))"
proof -
  have n0: "0 < n" using assms(2) by simp
  obtain s me' where s: "InitBufferPool n base mem False me = Some (s, me')" "NBuffers s = n" "linked s (map int [1..<n] @ [0])"
    "\<And>k. k < n \<Longrightarrow> has_flag BM_DELETED (D s (int k))"
    using InitBufferPool_linked [OF assms(1) n0, of base me] by (elim retsE) auto
  have own: "owner s = Map.empty" 
  proof
    show "owner s x = None" for x using s(2) s(4) [of "nat x"] by (auto simp: owner_def)
  qed
  have len: "length (BufferDescriptors s) = Suc n" using s(2,3) by (simp add: linked_def)
  then have sh: "pool_shape s" using s(2) linked_buf_id [OF s(3)] by (auto simp: pool_shape_def desc_ok_def)
  have "rets (InitBufTable h n False) (\<lambda>h'. hash_inv h' (\<lambda>_. []) [] \<and> ffactor h' = 1 \<and> n \<le> max_bucket h' + 1)"
    unfolding InitBufTable_def
    by (rule rets_mono [OF raw_create [of "buf_info False" 256 1 n h]]) (use assms in \<open>auto simp: buf_info_def\<close>)
  then have "rets (InitBufTable h n False) (\<lambda>h'. buf_table s h' \<and> owner s = Map.empty)"
  proof (rule rets_mono)
    fix h' :: buf_hash assume h': "hash_inv h' (\<lambda>_. []) [] \<and> ffactor h' = 1 \<and> n \<le> max_bucket h' + 1"
    then have "hash_table h' Map.empty" using hash_tableI [OF _ empty_table] by blast
    then show "buf_table s h' \<and> owner s = Map.empty" using h' own sh s(2) by (auto simp: buf_table_def wide_enough_def)
  qed
  then show ?thesis using s(1) by simp
qed

text \<open>Memory for a table of buffer tags.\<close>

definition tag_memory :: buf_hash where
  "tag_memory = \<lparr>hash = \<lambda>_. 0, dsize = 0, ssize = 0, sshift = 0, max_bucket = 0, high_mask = 0, low_mask = 0, ffactor = 0, nkeys = 0,
     nsegs = 0, keysize = 0, datasize = 0, max_dsize = 0, freeBucketIndex = 0, dir = Map.empty, elems = Map.empty,
     fresh = \<lambda>_. (CLEAR_BUFFERTAG, 0), ShmemFreeStart = 4096, ShmemSize = 65536\<rparr>"

text \<open>
  Creation. After \<open>InitBufferPool\<close> and \<open>InitBufTable\<close> on fresh shared memory the lookup table registers
  exactly the buffers of the pool that are in use, namely none, and has a bucket for every buffer.
\<close>

theorem InitBufTable_registers:
  assumes "length mem = Suc n" and "1 \<le> n" and "n \<le> 2 ^ 29" and "dir h = Map.empty" and "\<forall>i\<in>dom (elems h). i < ShmemFreeStart h"
    and "0 < ShmemFreeStart h" and "ShmemFreeStart h + 8 * max 256 (2 * n) \<le> ShmemSize h"
  shows "rets (InitBufferPool n base mem False me) (\<lambda>(s, _). rets (InitBufTable h n False) (\<lambda>h'. buf_table s h' \<and> owner s = Map.empty))"
  using assms by (rule init_buf_table)

theorem InitBufTable_registers_witness:
  "rets (InitBufferPool 2 0 (replicate 3 zero_desc) False backend0) (\<lambda>(s, _). rets (InitBufTable tag_memory 2 False) (\<lambda>h'. buf_table s h' \<and> owner s = Map.empty))"
  by (rule InitBufTable_registers) (simp_all add: tag_memory_def)

text \<open>
  C11: The lookup table follows the pool. When the table registers exactly the buffers of the pool that are
  not \<open>BM_DELETED\<close>, each under its tag: \<open>BufTableLookup\<close> returns the buffer with the tag, or the null pointer if there is none or the
  block is \<open>P_NEW\<close>; \<open>BufTableDelete\<close> succeeds, takes the buffer out, and does nothing the second time;
  \<open>BufTableInsert\<close> of a deleted buffer whose tag no other buffer has succeeds if a table element is free or can be
  allocated, without ever growing the table. All keep the correspondence.
\<close>

theorem BufTable_registers:
  assumes "buf_table s h" and "0 \<le> b" and "b < int (NBuffers s)"
  shows "(\<exists>r. BufTableLookup h t = Some r \<and> (\<forall>i. r = Some i \<longleftrightarrow> owner s i = Some t \<and> blockNum t \<noteq> P_NEW)) \<and>
    rets (BufTableDelete s h b) (\<lambda>(s', h', ok). ok \<and> buf_table s' h' \<and> owner s' = (owner s)(b := None) \<and> BufTableDelete s' h' b = Some (s', h', True)) \<and>
    (has_flag BM_DELETED (D s b) \<and> tag (D s b) \<notin> ran (owner s) \<and> has_element h \<longrightarrow>
      rets (BufTableInsert s h b) (\<lambda>(s', h', ok). ok \<and> buf_table s' h' \<and> owner s' = (owner s)(b \<mapsto> tag (D s b)) \<and> max_bucket h' = max_bucket h))"
proof (intro conjI impI)
  show "\<exists>r. BufTableLookup h t = Some r \<and> (\<forall>i. r = Some i \<longleftrightarrow> owner s i = Some t \<and> blockNum t \<noteq> P_NEW)"
    by (rule lookup_table [OF assms(1)])
  have ok: "desc_ok s b" using pool_shape_ok [of s b] assms by (simp add: buf_table_def)
  show "rets (BufTableDelete s h b) (\<lambda>(s', h', ok). ok \<and> buf_table s' h' \<and> owner s' = (owner s)(b := None) \<and> BufTableDelete s' h' b = Some (s', h', True))"
    by (rule rets_mono [OF delete_table [OF assms]]) (use ok in \<open>auto simp: BufTableDelete_def\<close>)
  assume "has_flag BM_DELETED (D s b) \<and> tag (D s b) \<notin> ran (owner s) \<and> has_element h"
  then show "rets (BufTableInsert s h b) (\<lambda>(s', h', ok). ok \<and> buf_table s' h' \<and> owner s' = (owner s)(b \<mapsto> tag (D s b)) \<and> max_bucket h' = max_bucket h)"
    by (intro rets_mono [OF insert_table [OF assms]]) auto
qed

theorem BufTable_registers_witness:
  "rets (InitBufferPool 2 0 (replicate 3 zero_desc) False backend0) (\<lambda>(s, _). rets (InitBufTable tag_memory 2 False) (\<lambda>h. buf_table s h \<and> has_element h \<and>
     rets (BufTableInsert s h 1) (\<lambda>(s', h', ok). ok \<and> buf_table s' h' \<and> owner s' = [1 \<mapsto> tag (D s 1)])))"
proof -
  have "rets (InitBufferPool 2 0 (replicate 3 zero_desc) False backend0) (\<lambda>(s, _). rets (InitBufTable tag_memory 2 False) (\<lambda>h'. buf_table s h' \<and> owner s = Map.empty))"
    by (rule init_buf_table) (simp_all add: tag_memory_def)
  then obtain s me h where s: "InitBufferPool 2 0 (replicate 3 zero_desc) False backend0 = Some (s, me)" "InitBufTable tag_memory 2 False = Some h"
    "buf_table s h" "owner s = Map.empty" by (elim retsE) (auto elim!: retsE)
  have "has_element (the (InitBufTable tag_memory 2 False))" by code_simp
  then have e: "has_element h" using s(2) by simp
  have N: "NBuffers s = 2" using InitBufferPool_linked [of "replicate 3 zero_desc" 2 0 backend0] s(1) by (auto simp: rets_def)
  then have "has_flag BM_DELETED (D s 1)" using fun_cong [OF s(4), of 1] by (simp add: owner_def split: if_splits)
  then have "rets (BufTableInsert s h 1) (\<lambda>(s', h', ok). ok \<and> buf_table s' h' \<and> owner s' = [1 \<mapsto> tag (D s 1)])"
    using BufTable_registers [OF s(3), of 1 CLEAR_BUFFERTAG, THEN conjunct2, THEN conjunct2] N e s(4) by (auto simp: rets_def)
  then show ?thesis using s e by simp
qed

end
