(* ===== verification/ItemPtr.thy ===== *)
theory ItemPtr
  imports Page FreeList
begin

text \<open>
  Block identifiers and item pointers: the macros of \<open>block.h\<close> and \<open>itemptr.h\<close>, and \<open>ItemPointerEquals\<close> of
  \<open>storage/page/itemptr.c\<close>. A pointer that may be null is an option. The accessor macros test the pointer
  with \<open>AssertMacro\<close>; when the test fails \<open>ExceptionalCondition\<close> prints a message and returns 0, so the macros take their else branch.
\<close>

record BlockIdData =
  bi_hi :: uint16
  bi_lo :: uint16

definition BlockNumberIsValid :: "uint32 \<Rightarrow> bool" where
  "BlockNumberIsValid blockNumber \<longleftrightarrow> blockNumber \<noteq> InvalidBlockNumber"

definition BlockIdSet :: "uint32 \<Rightarrow> BlockIdData" where
  "BlockIdSet blockNumber = \<lparr>bi_hi = ucast (drop_bit 16 blockNumber), bi_lo = ucast (blockNumber AND 0xFFFF)\<rparr>"

definition BlockIdEquals :: "BlockIdData \<Rightarrow> BlockIdData \<Rightarrow> bool" where
  "BlockIdEquals a b \<longleftrightarrow> bi_hi a = bi_hi b \<and> bi_lo a = bi_lo b"

definition BlockIdGetBlockNumber :: "BlockIdData \<Rightarrow> uint32" where
  "BlockIdGetBlockNumber b = push_bit 16 (ucast (bi_hi b)) OR ucast (bi_lo b)"

record ItemPointerData =
  ip_blkid :: BlockIdData
  ip_posid :: OffsetNumber

definition ItemPointerIsValid :: "ItemPointerData option \<Rightarrow> bool" where
  "ItemPointerIsValid p = (case p of None \<Rightarrow> False | Some p \<Rightarrow> ip_posid p \<noteq> 0)"

definition ItemPointerGetBlockNumber :: "ItemPointerData \<Rightarrow> uint32" where
  "ItemPointerGetBlockNumber p = (if ItemPointerIsValid (Some p) then BlockIdGetBlockNumber (ip_blkid p) else 0)"

definition ItemPointerGetOffsetNumber :: "ItemPointerData \<Rightarrow> OffsetNumber" where
  "ItemPointerGetOffsetNumber p = (if ItemPointerIsValid (Some p) then ip_posid p else InvalidOffsetNumber)"

definition ItemPointerSet :: "uint32 \<Rightarrow> OffsetNumber \<Rightarrow> ItemPointerData" where
  "ItemPointerSet blockNumber offNum = \<lparr>ip_blkid = BlockIdSet blockNumber, ip_posid = offNum\<rparr>"

definition ItemPointerSetBlockNumber :: "ItemPointerData \<Rightarrow> uint32 \<Rightarrow> ItemPointerData" where
  "ItemPointerSetBlockNumber p blockNumber = p\<lparr>ip_blkid := BlockIdSet blockNumber\<rparr>"

definition ItemPointerSetOffsetNumber :: "ItemPointerData \<Rightarrow> OffsetNumber \<Rightarrow> ItemPointerData" where
  "ItemPointerSetOffsetNumber p offNum = p\<lparr>ip_posid := offNum\<rparr>"

definition ItemPointerSetInvalid :: ItemPointerData where
  "ItemPointerSetInvalid = \<lparr>ip_blkid = BlockIdSet InvalidBlockNumber, ip_posid = InvalidOffsetNumber\<rparr>"

definition ItemPointerEquals :: "ItemPointerData \<Rightarrow> ItemPointerData \<Rightarrow> bool" where
  "ItemPointerEquals p q \<longleftrightarrow> ItemPointerGetBlockNumber p = ItemPointerGetBlockNumber q \<and>
     ItemPointerGetOffsetNumber p = ItemPointerGetOffsetNumber q"

lemma low_half: "(w :: uint32) AND 0xFFFF = take_bit 16 w"
  by (simp add: take_bit_eq_mask mask_eq_exp_minus_1)

lemma block_number_of_id: "BlockIdGetBlockNumber (BlockIdSet n) = n"
  unfolding BlockIdGetBlockNumber_def BlockIdSet_def low_half by (rule bit_word_eqI) (auto simp: bit_simps not_le)

lemma id_of_block_number: "BlockIdSet (BlockIdGetBlockNumber b) = b"
proof -
  have "ucast (drop_bit 16 (push_bit 16 (ucast hi) OR ucast lo :: uint32)) = hi" for hi lo :: uint16
    by (rule bit_word_eqI) (auto simp: bit_simps dest: bit_imp_le_length)
  moreover have "ucast (take_bit 16 (push_bit 16 (ucast hi) OR ucast lo :: uint32)) = lo" for hi lo :: uint16
    by (rule bit_word_eqI) (auto simp: bit_simps)
  ultimately show ?thesis by (cases b) (simp add: BlockIdGetBlockNumber_def BlockIdSet_def low_half)
qed

text \<open>
  C33: Item pointers are faithful. A block number stored as two halves is read back unchanged, and the
  halves of an identifier are recovered from its number, so that comparing identifiers is comparing block numbers. A pointer
  that was set to a valid offset returns its block and offset; one set to offset 0 is invalid and returns block 0 and offset 0 whatever its
  block. \<open>ItemPointerEquals\<close> is equality of the two pointers when either is valid, and holds between any two invalid pointers.
\<close>

theorem item_pointer_roundtrip:
  "BlockIdGetBlockNumber (BlockIdSet n) = n \<and> BlockIdSet (BlockIdGetBlockNumber b) = b \<and>
   BlockIdEquals a b = (BlockIdGetBlockNumber a = BlockIdGetBlockNumber b) \<and>
   ItemPointerGetBlockNumber (ItemPointerSet n off) = (if off = 0 then 0 else n) \<and>
   ItemPointerGetOffsetNumber (ItemPointerSet n off) = off \<and>
   \<not> ItemPointerIsValid (Some ItemPointerSetInvalid) \<and>
   ItemPointerEquals p q = (if ItemPointerIsValid (Some p) \<or> ItemPointerIsValid (Some q) then p = q else True)"
proof -
  have inj: "BlockIdGetBlockNumber x = BlockIdGetBlockNumber y \<longleftrightarrow> x = y" for x y by (metis id_of_block_number)
  have "ItemPointerEquals p q = (if ItemPointerIsValid (Some p) \<or> ItemPointerIsValid (Some q) then p = q else True)"
    by (cases p; cases q)
      (auto simp: ItemPointerEquals_def ItemPointerGetBlockNumber_def ItemPointerGetOffsetNumber_def inj ItemPointerIsValid_def InvalidOffsetNumber_def)
  moreover have "BlockIdEquals a b = (BlockIdGetBlockNumber a = BlockIdGetBlockNumber b)"
    unfolding inj by (cases a; cases b) (simp add: BlockIdEquals_def)
  ultimately show ?thesis
    by (simp add: block_number_of_id id_of_block_number ItemPointerGetBlockNumber_def ItemPointerGetOffsetNumber_def ItemPointerSet_def
        ItemPointerIsValid_def ItemPointerSetInvalid_def InvalidOffsetNumber_def)
qed

end
