(* ===== verification/SInval.thy ===== *)
theory SInval
  imports ItemPtr
begin

text \<open>
  The shared cache invalidation queue: \<open>storage/ipc/sinvaladt.c\<close> and \<open>sinval.c\<close>. A segment of shared memory holds a fixed
  number of message entries, linked by byte offsets into a chain of messages and a chain of free
  entries, and for every backend the number of messages it has read. An entry is addressed
  by its byte offset from the start of the segment; \<open>None\<close> as a pointer is null, and \<open>None\<close> as
  the result of an operation is \<open>elog(FATAL)\<close>, which ends the process, a failed \<open>Assert\<close> (the code prints a message and goes on; the model does not follow such a run), or an access outside
  the segment. The callbacks a reader passes in are reported as the list of messages it was called for.
\<close>

subsection \<open>Data\<close>

definition MaxBackendId :: nat where "MaxBackendId = 32"
definition MAXNUMMESSAGES :: nat where "MAXNUMMESSAGES = 1000"
definition InvalidOffset :: int where "InvalidOffset = 1000000000"
definition InvalidBackendTag :: int where "InvalidBackendTag = -1"

record ProcState =
  limit :: int
  resetState :: bool
  ptag :: int

record SharedInvalidData =
  cacheId :: int
  hashIndex :: uint32
  pointerData :: ItemPointerData

record SISegEntry =
  entryData :: SharedInvalidData
  isfree :: bool
  entry_next :: int

record SISeg =
  startEntrySection :: int
  endEntrySection :: int
  startFreeSpace :: int
  startEntryChain :: int
  endEntryChain :: int
  numEntries :: int
  maxNumEntries :: int
  procState :: "ProcState list"
  entries :: "SISegEntry list"

text \<open>The sizes of the structures in bytes.\<close>

definition SizeSISeg :: int where "SizeSISeg = 420"
definition SizeOfOneSISegEntry :: int where "SizeOfOneSISegEntry = 24"

definition SIComputeSize :: "int \<times> int \<times> int" where
  "SIComputeSize = (let A = 0; a = SizeSISeg; b = SizeOfOneSISegEntry * int MAXNUMMESSAGES; B = A + a + b in (A, a, B - A))"

text \<open>Reading and writing the entry at a byte offset, and the state of a process.\<close>

definition entry_index :: "SISeg \<Rightarrow> int \<Rightarrow> nat option" where
  "entry_index seg p =
     (let d = p - SizeSISeg in
      if 0 \<le> d \<and> d mod SizeOfOneSISegEntry = 0 \<and> d div SizeOfOneSISegEntry < int (length (entries seg))
      then Some (nat (d div SizeOfOneSISegEntry)) else None)"

definition entry_at :: "SISeg \<Rightarrow> int \<Rightarrow> SISegEntry option" where
  "entry_at seg p = map_option (\<lambda>i. entries seg ! i) (entry_index seg p)"

definition entry_upd :: "SISeg \<Rightarrow> int \<Rightarrow> (SISegEntry \<Rightarrow> SISegEntry) \<Rightarrow> SISeg option" where
  "entry_upd seg p f = map_option (\<lambda>i. seg\<lparr>entries := (entries seg)[i := f (entries seg ! i)]\<rparr>) (entry_index seg p)"

definition proc_at :: "SISeg \<Rightarrow> nat \<Rightarrow> ProcState option" where
  "proc_at seg i = arr_get (procState seg) i"

definition proc_upd :: "SISeg \<Rightarrow> nat \<Rightarrow> (ProcState \<Rightarrow> ProcState) \<Rightarrow> SISeg option" where
  "proc_upd seg i f = do { s \<leftarrow> proc_at seg i; v \<leftarrow> arr_set (procState seg) i (f s); Some (seg\<lparr>procState := v\<rparr>) }"

subsection \<open>Registering backends\<close>

text \<open>\<open>backendId - 1\<close> is the index of the process state.\<close>

definition SIGetNumEntries :: "SISeg \<Rightarrow> int" where
  "SIGetNumEntries seg = numEntries seg"

definition SISetActiveProcess :: "SISeg \<Rightarrow> nat \<Rightarrow> SISeg option" where
  "SISetActiveProcess seg backendId = proc_upd seg (backendId - 1) (\<lambda>s. s\<lparr>resetState := False, limit := SIGetNumEntries seg\<rparr>)"

text \<open>
  The search loop of \<open>SIAssignBackendId\<close>: the index at which it stops and the candidate then; \<open>stateP\<close> is
  the candidate so far.
\<close>

fun assign_scan :: "ProcState list \<Rightarrow> int \<Rightarrow> nat \<Rightarrow> nat option \<Rightarrow> nat \<Rightarrow> (nat \<times> nat option) option" where
  "assign_scan ps backendTag index stateP 0 = Some (index, stateP)"
| "assign_scan ps backendTag index stateP (Suc n) = do {
     p \<leftarrow> arr_get ps index;
     if ptag p = InvalidBackendTag \<or> ptag p = backendTag then Some (index, Some index)
     else do {
       better \<leftarrow> (case stateP of None \<Rightarrow> Some True
                  | Some j \<Rightarrow> do {
                      q \<leftarrow> arr_get ps j;
                      Some ((resetState p \<and> (\<not> resetState q \<or> ptag q < backendTag)) \<or>
                            (\<not> resetState q \<and> (limit p < limit q \<or> ptag q < backendTag)))
                    });
       assign_scan ps backendTag (index + 1) (if better then Some index else stateP) n
     }
   }"

text \<open>The result is the backend id, or \<open>InvalidBackendTag\<close> when every state belongs to another backend.\<close>

definition SIAssignBackendId :: "SISeg \<Rightarrow> int \<Rightarrow> (SISeg \<times> int) option" where
  "SIAssignBackendId seg backendTag = do {
     (index, stateP) \<leftarrow> assign_scan (procState seg) backendTag 0 None MaxBackendId;
     if \<exists>i\<in>set [index + 1..<MaxBackendId]. map_option ptag (proc_at seg i) = Some backendTag then None
     else do {
       j \<leftarrow> stateP;
       s \<leftarrow> proc_at seg j;
       if ptag s \<noteq> InvalidBackendTag \<and> ptag s \<noteq> backendTag then Some (seg, InvalidBackendTag)
       else do {
         seg \<leftarrow> proc_upd seg j (\<lambda>s. s\<lparr>ptag := backendTag\<rparr>);
         Some (seg, 1 + int j)
       }
     }
   }"

text \<open>The new backend id, and whether the backend could be registered.\<close>

definition SIBackendInit :: "SISeg \<Rightarrow> int \<Rightarrow> (SISeg \<times> int \<times> bool) option" where
  "SIBackendInit seg MyBackendTag =
     (if \<not> MyBackendTag > 0 then None
      else do {
        (seg, MyBackendId) \<leftarrow> SIAssignBackendId seg MyBackendTag;
        if MyBackendId = InvalidBackendTag then Some (seg, MyBackendId, False)
        else do {
          seg \<leftarrow> SISetActiveProcess seg (nat MyBackendId);
          Some (seg, MyBackendId, True)
        }
      })"

definition SISetDeadProcess :: "SISeg \<Rightarrow> nat \<Rightarrow> SISeg option" where
  "SISetDeadProcess seg backendId = proc_upd seg (backendId - 1) (\<lambda>s. s\<lparr>resetState := False, limit := -1, ptag := InvalidBackendTag\<rparr>)"

definition CleanupInvalidationState :: "SISeg \<Rightarrow> nat \<Rightarrow> SISeg option" where
  "CleanupInvalidationState seg MyBackendId = SISetDeadProcess seg MyBackendId"

subsection \<open>Fields of the segment\<close>

definition SISetNumEntries :: "SISeg \<Rightarrow> int \<Rightarrow> SISeg \<times> bool" where
  "SISetNumEntries seg num = (if num \<le> int MAXNUMMESSAGES then (seg\<lparr>numEntries := num\<rparr>, True) else (seg, False))"

definition SISetMaxNumEntries :: "SISeg \<Rightarrow> int \<Rightarrow> SISeg \<times> bool" where
  "SISetMaxNumEntries seg num = (if num \<le> int MAXNUMMESSAGES then (seg\<lparr>maxNumEntries := num\<rparr>, True) else (seg, False))"

definition SIIncNumEntries :: "SISeg \<Rightarrow> int \<Rightarrow> SISeg \<times> bool" where
  "SIIncNumEntries seg num =
     (if numEntries seg + num \<le> int MAXNUMMESSAGES then (seg\<lparr>numEntries := numEntries seg + num\<rparr>, True) else (seg, False))"

definition SIDecNumEntries :: "SISeg \<Rightarrow> int \<Rightarrow> SISeg \<times> bool" where
  "SIDecNumEntries seg num = (if numEntries seg - num \<ge> 0 then (seg\<lparr>numEntries := numEntries seg - num\<rparr>, True) else (seg, False))"

definition SIGetProcStateLimit :: "SISeg \<Rightarrow> nat \<Rightarrow> int option" where
  "SIGetProcStateLimit seg i = map_option limit (proc_at seg i)"

definition SIGetNextDataEntry :: "SISeg \<Rightarrow> int \<Rightarrow> int option" where
  "SIGetNextDataEntry seg off = (if off = InvalidOffset then None else Some (startEntrySection seg + off))"

definition SIGetFirstDataEntry :: "SISeg \<Rightarrow> int option" where
  "SIGetFirstDataEntry seg = (if startEntryChain seg = InvalidOffset then None else Some (startEntrySection seg + startEntryChain seg))"

definition SIGetLastDataEntry :: "SISeg \<Rightarrow> int option" where
  "SIGetLastDataEntry seg = (if endEntryChain seg = InvalidOffset then None else Some (startEntrySection seg + endEntryChain seg))"

definition SIEntryOffset :: "SISeg \<Rightarrow> int \<Rightarrow> int" where
  "SIEntryOffset seg p = p - startEntrySection seg"

text \<open>The loop that skips \<open>n\<close> entries; a null pointer is not followed.\<close>

primrec skip_entries :: "SISeg \<Rightarrow> nat \<Rightarrow> int option \<Rightarrow> int option option" where
  "skip_entries seg 0 eP = Some eP"
| "skip_entries seg (Suc n) eP = do { p \<leftarrow> eP; e \<leftarrow> entry_at seg p; skip_entries seg n (SIGetNextDataEntry seg (entry_next e)) }"

definition SIGetNthDataEntry :: "SISeg \<Rightarrow> int \<Rightarrow> int option option" where
  "SIGetNthDataEntry seg n = (if n \<le> 0 then Some None else skip_entries seg (nat n - 1) (SIGetFirstDataEntry seg))"

subsection \<open>Messages\<close>

definition SISetDataEntry :: "SISeg \<Rightarrow> SharedInvalidData \<Rightarrow> (SISeg \<times> bool) option" where
  "SISetDataEntry seg msg = do {
     (seg, ok) \<leftarrow> Some (SIIncNumEntries seg 1);
     if \<not> ok then Some (seg, False)
     else do {
       eP \<leftarrow> SIGetNextDataEntry seg (startFreeSpace seg);
       e \<leftarrow> entry_at seg eP;
       seg \<leftarrow> Some (seg\<lparr>startFreeSpace := entry_next e\<rparr>);
       seg \<leftarrow> entry_upd seg eP (\<lambda>e. e\<lparr>entryData := msg, isfree := False, entry_next := InvalidOffset\<rparr>);
       seg \<leftarrow> (case SIGetLastDataEntry seg of
                 None \<Rightarrow> Some (seg\<lparr>startEntryChain := SIEntryOffset seg eP\<rparr>)
               | Some lastP \<Rightarrow> entry_upd seg lastP (\<lambda>e. e\<lparr>entry_next := SIEntryOffset seg eP\<rparr>));
       Some (seg\<lparr>endEntryChain := SIEntryOffset seg eP\<rparr>, True)
     }
   }"

text \<open>\<open>SIDecProcLimit\<close> visits all process states alike.\<close>

definition dec_limit :: "int \<Rightarrow> ProcState \<Rightarrow> ProcState" where
  "dec_limit num s = (if limit s > 0 then if limit s - num < 0 then s\<lparr>limit := 0\<rparr> else s\<lparr>limit := limit s - num\<rparr> else s)"

definition SIDecProcLimit :: "SISeg \<Rightarrow> int \<Rightarrow> SISeg option" where
  "SIDecProcLimit seg num = for_loop 0 MaxBackendId (\<lambda>i seg. proc_upd seg i (dec_limit num)) seg"

definition SIDelDataEntry :: "SISeg \<Rightarrow> (SISeg \<times> bool) option" where
  "SIDelDataEntry seg = do {
     (seg, ok) \<leftarrow> Some (SIDecNumEntries seg 1);
     if \<not> ok then Some (seg, False)
     else do {
       e1P \<leftarrow> SIGetFirstDataEntry seg;
       e1 \<leftarrow> entry_at seg e1P;
       seg \<leftarrow> Some (seg\<lparr>startEntryChain := entry_next e1\<rparr>);
       seg \<leftarrow> Some (if startEntryChain seg = InvalidOffset then seg\<lparr>endEntryChain := InvalidOffset\<rparr> else seg);
       seg \<leftarrow> entry_upd seg e1P (\<lambda>e. e\<lparr>isfree := True, entry_next := startFreeSpace seg\<rparr>);
       seg \<leftarrow> Some (seg\<lparr>startFreeSpace := SIEntryOffset seg e1P\<rparr>);
       seg \<leftarrow> SIDecProcLimit seg 1;
       Some (seg, True)
     }
   }"

definition SISetProcStateInvalid :: "SISeg \<Rightarrow> SISeg option" where
  "SISetProcStateInvalid seg =
     for_loop 0 MaxBackendId (\<lambda>i seg. proc_upd seg i (\<lambda>s. if limit s = 0 then s\<lparr>resetState := True\<rparr> else s)) seg"

text \<open>The reading loop: the messages the callback is called for, in order.\<close>

partial_function (option) read_loop :: "SISeg \<Rightarrow> nat \<Rightarrow> int option \<Rightarrow> (SISeg \<times> SharedInvalidData list) option" where
  "read_loop seg i p = (case p of
     None \<Rightarrow> Some (seg, [])
   | Some p \<Rightarrow> do {
       seg \<leftarrow> proc_upd seg i (\<lambda>s. s\<lparr>limit := limit s + 1\<rparr>);
       e \<leftarrow> entry_at seg p;
       (seg, ms) \<leftarrow> read_loop seg i (SIGetNextDataEntry seg (entry_next e));
       Some (seg, entryData e # ms)
     })"

declare read_loop.simps [code]

text \<open>The messages passed to \<open>invalFunction\<close>, and whether \<open>resetFunction\<close> was called.\<close>

definition SIReadEntryData :: "SISeg \<Rightarrow> nat \<Rightarrow> int \<Rightarrow> (SISeg \<times> SharedInvalidData list \<times> bool) option" where
  "SIReadEntryData seg backendId MyBackendTag = do {
     s \<leftarrow> proc_at seg (backendId - 1);
     if ptag s \<noteq> MyBackendTag then None
     else do {
       (seg, ms, reset) \<leftarrow>
         (if \<not> resetState s then do {
            p \<leftarrow> SIGetNthDataEntry seg (limit s + 1);
            (seg, ms) \<leftarrow> read_loop seg (backendId - 1) p;
            Some (seg, ms, False)
          } else do {
            seg \<leftarrow> proc_upd seg (backendId - 1) (\<lambda>s. s\<lparr>resetState := False, limit := SIGetNumEntries seg\<rparr>);
            Some (seg, [], True)
          });
       if length ms > MAXNUMMESSAGES then None else Some (seg, ms, reset)
     }
   }"

text \<open>The smallest number of messages read by an active backend, 9999999 if there is none.\<close>

definition min_limit :: "SISeg \<Rightarrow> int option" where
  "min_limit seg = for_loop 0 MaxBackendId (\<lambda>i m. do { h \<leftarrow> SIGetProcStateLimit seg i; Some (if h \<ge> 0 \<and> h < m then h else m) }) 9999999"

definition SIDelExpiredDataEntries :: "SISeg \<Rightarrow> SISeg option" where
  "SIDelExpiredDataEntries seg = do {
     m \<leftarrow> min_limit seg;
     if m \<noteq> 9999999
     then for_loop 1 (nat m + 1) (\<lambda>_ seg. do { (seg, ok) \<leftarrow> SIDelDataEntry seg; if \<not> ok then None else Some seg }) seg
     else Some seg
   }"

subsection \<open>The segment\<close>

text \<open>\<open>seg\<close> is what the memory of a new segment holds.\<close>

definition SISegInit :: "SISeg \<Rightarrow> SISeg option" where
  "SISegInit seg = (case SIComputeSize of (startSegment, offsetToFirstEntry, offsetToEndOfSegment) \<Rightarrow> do {
     seg \<leftarrow> Some (seg\<lparr>startEntrySection := offsetToFirstEntry, endEntrySection := offsetToEndOfSegment, startFreeSpace := 0,
                    startEntryChain := InvalidOffset, endEntryChain := InvalidOffset\<rparr>);
     seg \<leftarrow> Some (fst (SISetNumEntries seg 0));
     seg \<leftarrow> Some (fst (SISetMaxNumEntries seg (int MAXNUMMESSAGES)));
     seg \<leftarrow> for_loop 0 MaxBackendId (\<lambda>i seg. proc_upd seg i (\<lambda>s. s\<lparr>limit := -1, resetState := False, ptag := InvalidBackendTag\<rparr>)) seg;
     seg \<leftarrow> for_loop 1 MAXNUMMESSAGES
              (\<lambda>i seg. entry_upd seg (startEntrySection seg + (int i - 1) * SizeOfOneSISegEntry)
                         (\<lambda>e. e\<lparr>isfree := True, entry_next := int i * SizeOfOneSISegEntry\<rparr>)) seg;
     entry_upd seg (startEntrySection seg + (int MAXNUMMESSAGES - 1) * SizeOfOneSISegEntry) (\<lambda>e. e\<lparr>isfree := True, entry_next := InvalidOffset\<rparr>)
   })"

subsection \<open>The interface: \<open>sinval.c\<close>\<close>

definition RegisterSharedInvalid :: "SISeg \<Rightarrow> int \<Rightarrow> uint32 \<Rightarrow> ItemPointerData option \<Rightarrow> SISeg option" where
  "RegisterSharedInvalid seg cache hashI pointer = do {
     newInvalid \<leftarrow> Some \<lparr>cacheId = cache, hashIndex = hashI,
                     pointerData = (if ItemPointerIsValid pointer then the pointer else ItemPointerSetInvalid)\<rparr>;
     (seg, ok) \<leftarrow> SISetDataEntry seg newInvalid;
     if ok then Some seg
     else do {
       seg \<leftarrow> SISetProcStateInvalid seg;
       (seg, ok) \<leftarrow> SIDelDataEntry seg;
       if \<not> ok then None else map_option fst (SISetDataEntry seg newInvalid)
     }
   }"

definition InvalidateSharedInvalid :: "SISeg \<Rightarrow> nat \<Rightarrow> int \<Rightarrow> (SISeg \<times> SharedInvalidData list \<times> bool) option" where
  "InvalidateSharedInvalid seg MyBackendId MyBackendTag = do {
     (seg, ms, reset) \<leftarrow> SIReadEntryData seg MyBackendId MyBackendTag;
     seg \<leftarrow> SIDelExpiredDataEntries seg;
     Some (seg, ms, reset)
   }"

definition InitSharedInvalidationState :: "SISeg \<Rightarrow> int \<Rightarrow> (SISeg \<times> int) option" where
  "InitSharedInvalidationState seg MyBackendTag = do {
     (seg, MyBackendId, ok) \<leftarrow> SIBackendInit seg MyBackendTag;
     if \<not> ok then None else Some (seg, MyBackendId)
   }"

end
