(* ===== verification/SInval_Inv.thy ===== *)
theory SInval_Inv
  imports SInval
begin

text \<open>
  The segment as a queue: the two chains as lists of entry numbers, and what every operation does to the list of messages
  and to the process states.
\<close>

subsection \<open>Entries and chains\<close>

definition off_of :: "nat \<Rightarrow> int" where
  "off_of x = int x * SizeOfOneSISegEntry"

primrec echain :: "SISegEntry list \<Rightarrow> int \<Rightarrow> nat list \<Rightarrow> bool" where
  "echain es v [] \<longleftrightarrow> v = InvalidOffset"
| "echain es v (x # xs) \<longleftrightarrow> v = off_of x \<and> x < length es \<and> echain es (entry_next (es ! x)) xs"

lemma off_valid: "x < MAXNUMMESSAGES \<Longrightarrow> off_of x \<noteq> InvalidOffset"
  by (simp add: off_of_def SizeOfOneSISegEntry_def InvalidOffset_def MAXNUMMESSAGES_def)

lemma entry_index_off: "x < length (entries seg) \<Longrightarrow> entry_index seg (SizeSISeg + off_of x) = Some x"
  by (simp add: entry_index_def off_of_def SizeOfOneSISegEntry_def)

lemma entry_index_fields [simp]:
  "entry_index (seg\<lparr>numEntries := n\<rparr>) = entry_index seg" "entry_index (seg\<lparr>startFreeSpace := v\<rparr>) = entry_index seg"
  "entry_index (seg\<lparr>startEntryChain := v\<rparr>) = entry_index seg" "entry_index (seg\<lparr>endEntryChain := v\<rparr>) = entry_index seg"
  "entry_index (seg\<lparr>procState := ps\<rparr>) = entry_index seg"
  "length es = length (entries seg) \<Longrightarrow> entry_index (seg\<lparr>entries := es\<rparr>) = entry_index seg"
  by (simp_all add: entry_index_def fun_eq_iff Let_def)

lemma echain_frame: "y \<notin> set xs \<Longrightarrow> echain (es[y := e]) v xs = echain es v xs"
  by (induction xs arbitrary: v) auto

lemma echain_bound: "echain es v xs \<Longrightarrow> x \<in> set xs \<Longrightarrow> x < length es"
  by (induction xs arbitrary: v) auto

lemma echain_snoc:
  assumes "echain es v (xs @ [y])" and "distinct (xs @ [y])" and "x < length es" "x \<notin> set (xs @ [y])" and "entry_next (es ! x) = InvalidOffset"
  shows "echain (es[y := (es ! y)\<lparr>entry_next := off_of x\<rparr>]) v (xs @ [y, x])"
  using assms
proof (induction xs arbitrary: v)
  case (Cons z xs)
  then show ?case by auto
qed auto

definition first_off :: "nat list \<Rightarrow> int" where
  "first_off xs = (case xs of [] \<Rightarrow> InvalidOffset | x # _ \<Rightarrow> off_of x)"

lemma echain_first: "echain es v xs \<Longrightarrow> v = first_off xs"
  by (cases xs) (auto simp: first_off_def)

lemma echain_suffix: "echain es v (as @ y # bs) \<Longrightarrow> entry_next (es ! y) = first_off bs"
  by (induction as arbitrary: v) (auto dest: echain_first)

subsection \<open>The invariant\<close>

definition si_inv :: "SISeg \<Rightarrow> nat list \<Rightarrow> nat list \<Rightarrow> bool" where
  "si_inv seg xs fs \<longleftrightarrow> startEntrySection seg = SizeSISeg \<and> length (entries seg) = MAXNUMMESSAGES \<and> length (procState seg) = MaxBackendId \<and>
     echain (entries seg) (startEntryChain seg) xs \<and> echain (entries seg) (startFreeSpace seg) fs \<and>
     distinct (xs @ fs) \<and> set (xs @ fs) = {..<MAXNUMMESSAGES} \<and>
     endEntryChain seg = (if xs = [] then InvalidOffset else off_of (last xs)) \<and> numEntries seg = int (length xs) \<and>
     (\<forall>x\<in>set xs. \<not> isfree (entries seg ! x)) \<and> (\<forall>x\<in>set fs. isfree (entries seg ! x)) \<and>
     (\<forall>s\<in>set (procState seg). - 1 \<le> limit s \<and> limit s \<le> int (length xs) \<and> (limit s = -1 \<longleftrightarrow> ptag s = InvalidBackendTag))"

definition msgs :: "SISeg \<Rightarrow> nat list \<Rightarrow> SharedInvalidData list" where
  "msgs seg xs = map (\<lambda>x. entryData (entries seg ! x)) xs"

lemma si_invD:
  assumes "si_inv seg xs fs"
  shows "startEntrySection seg = SizeSISeg" and "length (entries seg) = MAXNUMMESSAGES" and "length (procState seg) = MaxBackendId"
    and "echain (entries seg) (startEntryChain seg) xs" and "echain (entries seg) (startFreeSpace seg) fs"
    and "distinct xs" "distinct fs" "set xs \<inter> set fs = {}" and "set xs \<union> set fs = {..<MAXNUMMESSAGES}"
    and "endEntryChain seg = (if xs = [] then InvalidOffset else off_of (last xs))" and "numEntries seg = int (length xs)"
    and "x \<in> set xs \<Longrightarrow> \<not> isfree (entries seg ! x)" and "x \<in> set fs \<Longrightarrow> isfree (entries seg ! x)"
    and "s \<in> set (procState seg) \<Longrightarrow> - 1 \<le> limit s \<and> limit s \<le> int (length xs) \<and> (limit s = -1 \<longleftrightarrow> ptag s = InvalidBackendTag)"
    and "length xs + length fs = MAXNUMMESSAGES"
proof -
  show "length xs + length fs = MAXNUMMESSAGES"
    using assms distinct_card [of "xs @ fs"] by (simp add: si_inv_def)
qed (use assms in \<open>auto simp: si_inv_def\<close>)

lemma si_inv_entry:
  assumes "si_inv seg xs fs" and "x \<in> set xs \<union> set fs"
  shows "x < MAXNUMMESSAGES" and "entry_index seg (SizeSISeg + off_of x) = Some x" and "entry_at seg (SizeSISeg + off_of x) = Some (entries seg ! x)"
    and "SIGetNextDataEntry seg (off_of x) = Some (SizeSISeg + off_of x)"
proof -
  show x: "x < MAXNUMMESSAGES" using assms si_invD(9) [OF assms(1)] by auto
  then show i: "entry_index seg (SizeSISeg + off_of x) = Some x" using si_invD(2) [OF assms(1)] by (simp add: entry_index_off)
  then show "entry_at seg (SizeSISeg + off_of x) = Some (entries seg ! x)" by (simp add: entry_at_def)
  show "SIGetNextDataEntry seg (off_of x) = Some (SizeSISeg + off_of x)" using off_valid [OF x] si_invD(1) [OF assms(1)] by (simp add: SIGetNextDataEntry_def)
qed

subsection \<open>Adding a message\<close>

lemma set_entry_full: "si_inv seg xs fs \<Longrightarrow> length xs = MAXNUMMESSAGES \<Longrightarrow> SISetDataEntry seg m = Some (seg, False)"
  by (simp add: SISetDataEntry_def SIIncNumEntries_def si_invD(11))

lemma set_entry_inv:
  assumes inv: "si_inv seg xs fs" and room: "length xs < MAXNUMMESSAGES"
  shows "rets (SISetDataEntry seg m) (\<lambda>(seg', ok). ok \<and> (\<exists>x. si_inv seg' (xs @ [x]) (tl fs) \<and> msgs seg' (xs @ [x]) = msgs seg xs @ [m]) \<and> procState seg' = procState seg)"
proof -
  note d = si_invD [OF inv]
  obtain x fs' where fs: "fs = x # fs'" using room d(15) by (cases fs) auto
  note x = si_inv_entry [OF inv, of x, unfolded fs, simplified]
  let ?new = "(entries seg ! x)\<lparr>entryData := m, isfree := False, entry_next := InvalidOffset\<rparr>"
  have f: "startFreeSpace seg = off_of x" "echain (entries seg) (entry_next (entries seg ! x)) fs'" using d(5) fs by auto
  have nx: "x \<notin> set xs" "x \<notin> set fs'" using d(7,8) fs by auto
  have ofx: "SizeSISeg + off_of x - SizeSISeg = off_of x" by simp
  define es where "es = (entries seg)[x := ?new]"
  define es' where "es' = (if xs = [] then es else es[last xs := (es ! last xs)\<lparr>entry_next := off_of x\<rparr>])"
  define seg' where "seg' = seg\<lparr>numEntries := int (length xs) + 1, startFreeSpace := entry_next (entries seg ! x), entries := es',
      startEntryChain := (if xs = [] then off_of x else startEntryChain seg), endEntryChain := off_of x\<rparr>"
  have len: "length es = MAXNUMMESSAGES" "length es' = MAXNUMMESSAGES" using d(2) by (simp_all add: es_def es'_def)
  have eq: "SISetDataEntry seg m = Some (seg', True)"
  proof (cases "xs = []")
    case True
    then show ?thesis using d(1,2,10,11) f x off_valid [OF x(1)]
      by (simp add: SISetDataEntry_def SIIncNumEntries_def MAXNUMMESSAGES_def SIGetNextDataEntry_def entry_at_def entry_upd_def
          SIGetLastDataEntry_def SIEntryOffset_def seg'_def es'_def es_def)
  next
    case False
    note l = si_inv_entry [OF inv, of "last xs", simplified, OF disjI1 [OF last_in_set [OF False]]]
    show ?thesis using False len d(1,2,10,11) f x l off_valid [OF x(1)] off_valid [OF l(1)] room
      by (simp add: SISetDataEntry_def SIIncNumEntries_def SIGetNextDataEntry_def entry_at_def entry_upd_def
          SIGetLastDataEntry_def SIEntryOffset_def seg'_def es'_def flip: es_def)
  qed
  have at: "es' ! y = (if y = x then ?new else if xs \<noteq> [] \<and> y = last xs then (entries seg ! y)\<lparr>entry_next := off_of x\<rparr> else entries seg ! y)"
    if "y < MAXNUMMESSAGES" for y
    using that x(1) nx(1) d(2) last_in_set [of xs] by (auto simp: es'_def es_def nth_list_update)
  have ch: "echain es' (startEntryChain seg') (xs @ [x])"
  proof (cases xs rule: rev_cases)
    case Nil
    then show ?thesis using x(1) len d(2) by (simp add: seg'_def es'_def es_def)
  next
    case (snoc ys y)
    have "echain es (startEntryChain seg) (ys @ [y])" using d(4) snoc nx(1) by (simp add: es_def echain_frame)
    moreover have "entry_next (es ! x) = InvalidOffset" using x(1) d(2) by (simp add: es_def)
    ultimately have "echain (es[y := (es ! y)\<lparr>entry_next := off_of x\<rparr>]) (startEntryChain seg) (ys @ [y, x])"
      using d(6) snoc nx(1) x(1) len by (intro echain_snoc) auto
    then show ?thesis using snoc by (simp add: seg'_def es'_def)
  qed
  have fr: "echain es' (entry_next (entries seg ! x)) fs'"
  proof -
    have "last xs \<notin> set fs'" if "xs \<noteq> []" using d(8) fs last_in_set [OF that] by auto
    then show ?thesis using f(2) nx(2) by (simp add: es'_def es_def echain_frame)
  qed
  have st: "set xs \<union> set fs = insert x (set xs \<union> set fs')" using fs by auto
  have "isfree (es' ! y) \<longleftrightarrow> y \<in> set fs'" if "y \<in> set (xs @ [x]) \<union> set fs'" for y
  proof -
    have "y < MAXNUMMESSAGES" using that d(9) fs by auto
    then have "isfree (es' ! y) \<longleftrightarrow> y \<noteq> x \<and> isfree (entries seg ! y)" using at [of y] by simp
    then show ?thesis using that d(8,12,13) nx fs by auto
  qed
  then have fl: "\<forall>y\<in>set (xs @ [x]). \<not> isfree (es' ! y)" "\<forall>y\<in>set fs'. isfree (es' ! y)" using d(8) fs nx by auto
  have pl: "limit s \<le> 1 + int (length xs)" if "s \<in> set (procState seg)" for s using d(14) [OF that] by linarith
  have "si_inv seg' (xs @ [x]) fs'"
    unfolding si_inv_def
  proof (intro conjI)
    show "distinct ((xs @ [x]) @ fs')" "set ((xs @ [x]) @ fs') = {..<MAXNUMMESSAGES}" using d(6,7,8,9) nx fs by auto
    show "\<forall>s\<in>set (procState seg'). - 1 \<le> limit s \<and> limit s \<le> int (length (xs @ [x])) \<and> (limit s = - 1) = (ptag s = InvalidBackendTag)"
      using d(14) pl by (simp add: seg'_def)
  qed (use d(1,3) ch fr len fl in \<open>simp_all add: seg'_def\<close>)
  moreover have ed: "entryData (es' ! y) = (if y = x then m else entryData (entries seg ! y))" if "y < MAXNUMMESSAGES" for y using at [OF that] by simp
  have "entryData (es' ! y) = entryData (entries seg ! y)" if "y \<in> set xs" for y
    using ed [of y] that si_inv_entry(1) [OF inv, of y] nx(1) by auto
  then have "msgs seg' (xs @ [x]) = msgs seg xs @ [m]" using ed [OF x(1)] by (simp add: msgs_def seg'_def)
  ultimately show ?thesis using eq fs by (auto simp: seg'_def)
qed

subsection \<open>Process states\<close>

lemma proc_loop:
  assumes "length (procState seg) = MaxBackendId"
  shows "for_loop 0 MaxBackendId (\<lambda>i seg. proc_upd seg i f) seg = Some (seg\<lparr>procState := map f (procState seg)\<rparr>)"
proof -
  let ?ps = "procState seg"
  have "rets (for_loop 0 MaxBackendId (\<lambda>i seg. proc_upd seg i f) seg) (\<lambda>s. s = seg\<lparr>procState := map f (take MaxBackendId ?ps) @ drop MaxBackendId ?ps\<rparr>)"
  proof (rule rets_for_loop [where I = "\<lambda>i s. s = seg\<lparr>procState := map f (take i ?ps) @ drop i ?ps\<rparr>"])
    fix i s
    assume i: "i < MaxBackendId" and s: "s = seg\<lparr>procState := map f (take i ?ps) @ drop i ?ps\<rparr>"
    have l: "i < length ?ps" using i assms by simp
    have "(map f (take i ?ps) @ drop i ?ps)[i := f (?ps ! i)] = map f (take (Suc i) ?ps) @ drop (Suc i) ?ps"
      using l by (simp add: list_update_append take_Suc_conv_app_nth flip: Cons_nth_drop_Suc)
    then show "rets (proc_upd s i f) (\<lambda>s. s = seg\<lparr>procState := map f (take (Suc i) ?ps) @ drop (Suc i) ?ps\<rparr>)"
      using l by (simp add: s proc_upd_def proc_at_def nth_append)
  qed simp_all
  then show ?thesis using assms by (simp add: rets_def)
qed

lemma si_inv_procs:
  assumes "si_inv seg xs fs" and "length ps = MaxBackendId"
    and "\<And>s. s \<in> set ps \<Longrightarrow> - 1 \<le> limit s \<and> limit s \<le> int (length xs) \<and> (limit s = -1 \<longleftrightarrow> ptag s = InvalidBackendTag)"
  shows "si_inv (seg\<lparr>procState := ps\<rparr>) xs fs" and "msgs (seg\<lparr>procState := ps\<rparr>) xs = msgs seg xs"
  using assms by (auto simp: si_inv_def msgs_def)

text \<open>One process state changed.\<close>

lemma proc_upd_inv:
  assumes inv: "si_inv seg xs fs" and i: "i < MaxBackendId"
    and f: "- 1 \<le> limit (f (procState seg ! i)) \<and> limit (f (procState seg ! i)) \<le> int (length xs) \<and>
      (limit (f (procState seg ! i)) = -1 \<longleftrightarrow> ptag (f (procState seg ! i)) = InvalidBackendTag)"
  shows "rets (proc_upd seg i f) (\<lambda>seg'. si_inv seg' xs fs \<and> msgs seg' xs = msgs seg xs \<and> procState seg' = (procState seg)[i := f (procState seg ! i)])"
proof -
  note d = si_invD [OF inv]
  let ?ps = "(procState seg)[i := f (procState seg ! i)]"
  have "proc_upd seg i f = Some (seg\<lparr>procState := ?ps\<rparr>)" using i d(3) by (simp add: proc_upd_def proc_at_def)
  moreover have "- 1 \<le> limit s \<and> limit s \<le> int (length xs) \<and> (limit s = -1 \<longleftrightarrow> ptag s = InvalidBackendTag)" if "s \<in> set ?ps" for s
    using that f d(14) [of s] set_update_subset_insert [of "procState seg" i "f (procState seg ! i)"] by blast
  ultimately show ?thesis using si_inv_procs [OF inv, of ?ps] d(3) by simp
qed

subsection \<open>Deleting the oldest message\<close>

lemma del_entry_empty: "si_inv seg [] fs \<Longrightarrow> SIDelDataEntry seg = Some (seg, False)"
  by (simp add: SIDelDataEntry_def SIDecNumEntries_def si_invD(11))

lemma del_entry_inv:
  assumes inv: "si_inv seg (x # xs) fs"
  shows "rets (SIDelDataEntry seg) (\<lambda>(seg', ok). ok \<and> si_inv seg' xs (x # fs) \<and> msgs seg' xs = tl (msgs seg (x # xs)) \<and>
    procState seg' = map (dec_limit 1) (procState seg))"
proof -
  note d = si_invD [OF inv]
  note x = si_inv_entry [OF inv, of x, simplified]
  let ?new = "(entries seg ! x)\<lparr>isfree := True, entry_next := startFreeSpace seg\<rparr>"
  have nx: "x \<notin> set xs" "x \<notin> set fs" using d(6,8) by auto
  have st: "startEntryChain seg = off_of x" "echain (entries seg) (entry_next (entries seg ! x)) xs" using d(4) by auto
  define es where "es = (entries seg)[x := ?new]"
  have at: "es ! y = (if y = x then ?new else entries seg ! y)" if "y < MAXNUMMESSAGES" for y using that d(2) by (simp add: es_def nth_list_update)
  define seg' where "seg' = seg\<lparr>numEntries := int (length xs), startEntryChain := entry_next (entries seg ! x),
      entries := es, startFreeSpace := off_of x\<rparr>"
  define seg2 where "seg2 = (if xs = [] then seg\<lparr>numEntries := int (length xs), startEntryChain := entry_next (entries seg ! x),
      endEntryChain := InvalidOffset, entries := es, startFreeSpace := off_of x\<rparr> else seg')"
  have emp: "entry_next (entries seg ! x) = InvalidOffset \<longleftrightarrow> xs = []"
    using echain_first [OF st(2)] si_inv_entry(1) [OF inv] off_valid by (cases xs) (auto simp: first_off_def)
  have ps: "length (procState seg2) = MaxBackendId" "procState seg2 = procState seg" using d(3) by (simp_all add: seg2_def seg'_def)
  have "SIDelDataEntry seg = SIDecProcLimit seg2 1 \<bind> (\<lambda>seg. Some (seg, True))"
    using d(1,2,10,11) x st off_valid [OF x(1)] emp
    by (cases "xs = []") (simp_all add: SIDelDataEntry_def SIDecNumEntries_def SIGetFirstDataEntry_def entry_upd_def SIEntryOffset_def entry_at_def seg2_def seg'_def es_def)
  then have eq: "SIDelDataEntry seg = Some (seg2\<lparr>procState := map (dec_limit 1) (procState seg)\<rparr>, True)"
    using proc_loop [OF ps(1)] by (simp add: SIDecProcLimit_def ps(2))
  have ch: "echain es (entry_next (entries seg ! x)) xs" "echain es (startFreeSpace seg) fs"
    using st(2) d(5) nx by (simp_all add: es_def echain_frame)
  have "entry_next (es ! x) = startFreeSpace seg" "x < length es" using at [OF x(1)] x(1) d(2) by (simp_all add: es_def)
  then have fr: "echain es (off_of x) (x # fs)" using ch(2) by simp
  have fl: "\<forall>y\<in>set xs. \<not> isfree (es ! y)" "\<forall>y\<in>set (x # fs). isfree (es ! y)"
    using at si_inv_entry(1) [OF inv] d(12,13) nx by auto
  have pr: "- 1 \<le> limit s \<and> limit s \<le> int (length xs) \<and> (limit s = -1 \<longleftrightarrow> ptag s = InvalidBackendTag)" if s: "s \<in> set (map (dec_limit 1) (procState seg))" for s
  proof -
    obtain s0 where s0: "s0 \<in> set (procState seg)" "s = dec_limit 1 s0" using s by auto
    show ?thesis using d(14) [OF s0(1)] s0(2) by (auto simp: dec_limit_def)
  qed
  have len: "length es = MAXNUMMESSAGES" using d(2) by (simp add: es_def)
  have "si_inv (seg2\<lparr>procState := map (dec_limit 1) (procState seg)\<rparr>) xs (x # fs)"
    unfolding si_inv_def using d(1,3,6,7,8,9,10) ch(1) fr len fl pr nx by (auto simp: seg2_def seg'_def)
  moreover have "msgs (seg2\<lparr>procState := map (dec_limit 1) (procState seg)\<rparr>) xs = tl (msgs seg (x # xs))"
    using at si_inv_entry(1) [OF inv] nx(1) by (auto simp: msgs_def seg2_def seg'_def)
  ultimately show ?thesis using eq by simp
qed

subsection \<open>Reading\<close>

text \<open>A pointer to the first of the entries \<open>ys\<close>.\<close>

definition ptr_to :: "nat list \<Rightarrow> int option" where
  "ptr_to ys = (case ys of [] \<Rightarrow> None | y # _ \<Rightarrow> Some (SizeSISeg + off_of y))"

lemma next_ptr:
  assumes "si_inv seg xs fs" and "set ys \<subseteq> set xs"
  shows "SIGetNextDataEntry seg (first_off ys) = ptr_to ys"
  using si_inv_entry(4) [OF assms(1)] assms(2) by (cases ys) (auto simp: first_off_def ptr_to_def SIGetNextDataEntry_def)

lemma skip_entries_eq:
  assumes inv: "si_inv seg (as @ bs @ cs) fs"
  shows "skip_entries seg (length bs) (ptr_to (bs @ cs)) = Some (ptr_to cs)"
  using assms
proof (induction bs arbitrary: as)
  case (Cons b bs)
  note e = si_inv_entry [OF Cons.prems, of b, simplified]
  have "entry_next (entries seg ! b) = first_off (bs @ cs)"
    using echain_suffix [of "entries seg" "startEntryChain seg" as b "bs @ cs"] si_invD(4) [OF Cons.prems] by simp
  moreover have "SIGetNextDataEntry seg (first_off (bs @ cs)) = ptr_to (bs @ cs)" by (rule next_ptr [OF Cons.prems]) auto
  moreover have "skip_entries seg (length bs) (ptr_to (bs @ cs)) = Some (ptr_to cs)" using Cons.IH [of "as @ [b]"] Cons.prems by simp
  ultimately show ?case using e(3) by (simp add: ptr_to_def [of "b # bs @ cs"])
qed simp

lemma nth_entry_eq:
  assumes inv: "si_inv seg xs fs" and n: "0 \<le> n" "n \<le> int (length xs)"
  shows "SIGetNthDataEntry seg (n + 1) = Some (ptr_to (drop (nat n) xs))"
proof -
  have "SIGetFirstDataEntry seg = SIGetNextDataEntry seg (startEntryChain seg)"
    by (simp add: SIGetFirstDataEntry_def SIGetNextDataEntry_def)
  also have "\<dots> = ptr_to xs" using echain_first [OF si_invD(4) [OF inv]] next_ptr [OF inv] by simp
  finally have f: "SIGetFirstDataEntry seg = ptr_to (take (nat n) xs @ drop (nat n) xs)" by simp
  have "skip_entries seg (length (take (nat n) xs)) (ptr_to (take (nat n) xs @ drop (nat n) xs)) = Some (ptr_to (drop (nat n) xs))"
    by (rule skip_entries_eq [of _ "[]" _ _ fs]) (simp add: inv)
  moreover have "length (take (nat n) xs) = nat n" using n by simp
  moreover have "nat (n + 1) - 1 = nat n" using n by simp
  ultimately show ?thesis using n unfolding SIGetNthDataEntry_def f by simp
qed

lemma proc_upd_twice: "(ps[i := a])[i := b] = ps[i := b]"
  by simp

lemma read_loop_eq:
  assumes inv: "si_inv seg (as @ ys) fs" and i: "i < MaxBackendId"
  shows "read_loop (seg\<lparr>procState := (procState seg)[i := s]\<rparr>) i (ptr_to ys) =
    Some (seg\<lparr>procState := (procState seg)[i := s\<lparr>limit := limit s + int (length ys)\<rparr>]\<rparr>, msgs seg ys)"
  using inv
proof (induction ys arbitrary: as s)
  case Nil
  have "s\<lparr>limit := limit s\<rparr> = s" by simp
  then show ?case by (subst read_loop.simps) (simp add: ptr_to_def msgs_def)
next
  case (Cons y ys)
  let ?s = "s\<lparr>limit := limit s + 1\<rparr>"
  let ?seg = "seg\<lparr>procState := (procState seg)[i := ?s]\<rparr>"
  have l: "i < length (procState seg)" using i si_invD(3) [OF Cons.prems] by simp
  have up: "proc_upd (seg\<lparr>procState := (procState seg)[i := s]\<rparr>) i (\<lambda>s. s\<lparr>limit := limit s + 1\<rparr>) = Some ?seg"
    using l by (simp add: proc_upd_def proc_at_def)
  have e: "entry_at ?seg (SizeSISeg + off_of y) = Some (entries seg ! y)"
    using si_inv_entry(2) [OF Cons.prems, of y] by (simp add: entry_at_def)
  have nx: "entry_next (entries seg ! y) = first_off ys" by (rule echain_suffix [OF si_invD(4) [OF Cons.prems]])
  have "SIGetNextDataEntry ?seg (first_off ys) = ptr_to ys"
  proof -
    have "SIGetNextDataEntry seg (first_off ys) = ptr_to ys" by (rule next_ptr [OF Cons.prems]) auto
    then show ?thesis by (simp add: SIGetNextDataEntry_def split: if_splits)
  qed
  moreover have "read_loop ?seg i (ptr_to ys) = Some (seg\<lparr>procState := (procState seg)[i := ?s\<lparr>limit := limit ?s + int (length ys)\<rparr>]\<rparr>, msgs seg ys)"
    using Cons.IH [of "as @ [y]" ?s] Cons.prems by simp
  ultimately show ?case using up e nx
    by (subst read_loop.simps) (simp add: ptr_to_def [of "y # ys"] msgs_def algebra_simps)
qed

lemma read_entries_inv:
  assumes inv: "si_inv seg xs fs" and i: "i < MaxBackendId" and s: "s = procState seg ! i" and t: "ptag s = t" "t \<noteq> InvalidBackendTag"
  shows "rets (SIReadEntryData seg (i + 1) t) (\<lambda>(seg', ms, reset). reset = resetState s \<and> si_inv seg' xs fs \<and> msgs seg' xs = msgs seg xs \<and>
    ms = (if reset then [] else drop (nat (limit s)) (msgs seg xs)) \<and>
    procState seg' = (procState seg)[i := s\<lparr>resetState := False, limit := int (length xs)\<rparr>])"
proof -
  note d = si_invD [OF inv]
  have sm: "s \<in> set (procState seg)" using i d(3) s by simp
  have l: "0 \<le> limit s" "limit s \<le> int (length xs)" using d(14) [OF sm] t by auto
  have p: "proc_at seg (i + 1 - 1) = Some s" using i d(3) s by (simp add: proc_at_def)
  let ?s = "s\<lparr>resetState := False, limit := int (length xs)\<rparr>"
  let ?seg = "seg\<lparr>procState := (procState seg)[i := ?s]\<rparr>"
  have "- 1 \<le> limit r \<and> limit r \<le> int (length xs) \<and> (limit r = -1 \<longleftrightarrow> ptag r = InvalidBackendTag)" if "r \<in> set ((procState seg)[i := ?s])" for r
    using that d(14) [of r] t set_update_subset_insert [of "procState seg" i ?s] by auto
  then have inv': "si_inv ?seg xs fs" "msgs ?seg xs = msgs seg xs" using si_inv_procs [OF inv, of "(procState seg)[i := ?s]"] d(3) by auto
  have lx: "length xs \<le> MAXNUMMESSAGES" using d(15) by simp
  show ?thesis
  proof (cases "resetState s")
    case True
    have "proc_upd seg i (\<lambda>s. s\<lparr>resetState := False, limit := SIGetNumEntries seg\<rparr>) = Some ?seg"
      using i d(3,11) s by (simp add: proc_upd_def proc_at_def SIGetNumEntries_def)
    then show ?thesis using p t True inv' by (simp add: SIReadEntryData_def)
  next
    case False
    let ?ys = "drop (nat (limit s)) xs"
    have n: "SIGetNthDataEntry seg (limit s + 1) = Some (ptr_to ?ys)" by (rule nth_entry_eq [OF inv l])
    have inv2: "si_inv seg (take (nat (limit s)) xs @ ?ys) fs" using inv by simp
    have same: "seg\<lparr>procState := (procState seg)[i := s]\<rparr> = seg" using s by simp
    have "limit s + int (length ?ys) = int (length xs)" using l by simp
    then have "read_loop seg i (ptr_to ?ys) = Some (seg\<lparr>procState := (procState seg)[i := s\<lparr>limit := int (length xs)\<rparr>]\<rparr>, msgs seg ?ys)"
      using read_loop_eq [OF inv2 i, of s] same by simp
    moreover have "s\<lparr>limit := int (length xs)\<rparr> = ?s" using False by (cases s) simp
    moreover have "length (msgs seg ?ys) \<le> MAXNUMMESSAGES" using lx by (simp add: msgs_def)
    moreover have "msgs seg ?ys = drop (nat (limit s)) (msgs seg xs)" by (simp add: msgs_def drop_map)
    ultimately show ?thesis using p t False inv' n by (simp add: SIReadEntryData_def)
  qed
qed

end
