(* ===== verification/SInval_Props.thy ===== *)
theory SInval_Props
  imports SInval_Inv
begin

text \<open>
  Delivery of invalidation messages: whatever the interleaving of backends that register messages, join, read and leave,
  a backend is given exactly the messages registered since it last looked, in order, or is told to reset its
  whole cache, and the latter only when it has fallen behind by more messages than the segment holds.
\<close>

subsection \<open>Removing what everyone has read\<close>

lemma min_limit_spec:
  assumes "length (procState seg) = MaxBackendId"
  shows "rets (min_limit seg) (\<lambda>m. (\<forall>s\<in>set (procState seg). 0 \<le> limit s \<longrightarrow> m \<le> limit s) \<and>
    (m = 9999999 \<or> (\<exists>s\<in>set (procState seg). 0 \<le> limit s \<and> m = limit s)))"
proof -
  let ?ps = "procState seg"
  let ?I = "\<lambda>i m. (\<forall>s\<in>set (take i ?ps). 0 \<le> limit s \<longrightarrow> m \<le> limit s) \<and> (m = 9999999 \<or> (\<exists>s\<in>set (take i ?ps). 0 \<le> limit s \<and> m = limit s))"
  have "rets (min_limit seg) (?I MaxBackendId)"
    unfolding min_limit_def
  proof (rule rets_for_loop [where I = ?I])
    fix i m
    assume i: "i < MaxBackendId" and I: "?I i m"
    have l: "i < length ?ps" using i assms by simp
    let ?h = "limit (?ps ! i)"
    have t: "set (take (Suc i) ?ps) = insert (?ps ! i) (set (take i ?ps))" using l by (simp add: take_Suc_conv_app_nth)
    have "?I (Suc i) (if ?h \<ge> 0 \<and> ?h < m then ?h else m)"
      unfolding t using I by auto
    then show "rets (do { h \<leftarrow> SIGetProcStateLimit seg i; Some (if h \<ge> 0 \<and> h < m then h else m) }) (?I (Suc i))"
      using l by (simp add: SIGetProcStateLimit_def proc_at_def)
  qed simp_all
  then show ?thesis using assms by simp
qed

text \<open>Deleting \<open>k\<close> messages that every active backend has read.\<close>

definition lower_by :: "nat \<Rightarrow> ProcState \<Rightarrow> ProcState" where
  "lower_by k s = (if 0 < limit s then s\<lparr>limit := limit s - int k\<rparr> else s)"

lemma lower_by_Suc:
  assumes "0 \<le> limit s \<longrightarrow> int (Suc k) \<le> limit s"
  shows "dec_limit 1 (lower_by k s) = lower_by (Suc k) s"
  using assms by (auto simp: dec_limit_def lower_by_def)

lemma delete_read:
  assumes inv: "si_inv seg xs fs" and k: "k \<le> length xs" and read: "\<And>s. s \<in> set (procState seg) \<Longrightarrow> 0 \<le> limit s \<Longrightarrow> int k \<le> limit s"
  shows "rets (for_loop 1 (k + 1) (\<lambda>_ seg. do { (seg, ok) \<leftarrow> SIDelDataEntry seg; if \<not> ok then None else Some seg }) seg)
    (\<lambda>seg'. \<exists>fs'. si_inv seg' (drop k xs) fs' \<and> msgs seg' (drop k xs) = drop k (msgs seg xs) \<and> procState seg' = map (lower_by k) (procState seg))"
proof -
  let ?I = "\<lambda>i s. \<exists>fs'. si_inv s (drop (i - 1) xs) fs' \<and> msgs s (drop (i - 1) xs) = drop (i - 1) (msgs seg xs) \<and> procState s = map (lower_by (i - 1)) (procState seg)"
  have "rets (for_loop 1 (k + 1) (\<lambda>_ seg. do { (seg, ok) \<leftarrow> SIDelDataEntry seg; if \<not> ok then None else Some seg }) seg) (?I (k + 1))"
  proof (rule rets_for_loop [where I = ?I])
    have "map (lower_by 0) (procState seg) = procState seg" by (rule map_idI) (simp add: lower_by_def)
    then show "?I 1 seg" using inv by auto
    fix i s
    assume i: "1 \<le> i" "i < k + 1" and I: "?I i s"
    then obtain fs' where s: "si_inv s (drop (i - 1) xs) fs'" "msgs s (drop (i - 1) xs) = drop (i - 1) (msgs seg xs)"
      "procState s = map (lower_by (i - 1)) (procState seg)" by blast
    have "i - 1 < length xs" using i k by simp
    then have d: "drop (i - 1) xs = xs ! (i - 1) # drop i xs" using i(1) Cons_nth_drop_Suc [of "i - 1" xs] by simp
    have "int i \<le> limit p" if "p \<in> set (procState seg)" "0 \<le> limit p" for p using read [OF that] i by simp
    then have "dec_limit 1 (lower_by (i - 1) p) = lower_by i p" if "p \<in> set (procState seg)" for p using lower_by_Suc [of p "i - 1"] i that by simp
    then have pm: "map (dec_limit 1) (procState s) = map (lower_by i) (procState seg)" using s(3) by simp
    have tl: "tl (msgs s (drop (i - 1) xs)) = drop i (msgs seg xs)" using s(2) i(1) by (simp add: tl_drop drop_Suc [symmetric] flip: drop_Suc)
    show "rets (do { (seg, ok) \<leftarrow> SIDelDataEntry s; if \<not> ok then None else Some seg }) (?I (Suc i))"
      by (rule rets_bind [OF del_entry_inv [OF s(1) [unfolded d]]]) (use pm tl d in auto)
  qed simp
  then show ?thesis by simp
qed

lemma del_expired_inv:
  assumes inv: "si_inv seg xs fs"
  shows "rets (SIDelExpiredDataEntries seg) (\<lambda>seg'. \<exists>k fs'. k \<le> length xs \<and> si_inv seg' (drop k xs) fs' \<and> msgs seg' (drop k xs) = drop k (msgs seg xs) \<and>
    procState seg' = map (lower_by k) (procState seg) \<and> (\<forall>s\<in>set (procState seg). 0 \<le> limit s \<longrightarrow> int k \<le> limit s))"
proof -
  note d = si_invD [OF inv]
  obtain m where m: "min_limit seg = Some m" "\<And>s. s \<in> set (procState seg) \<Longrightarrow> 0 \<le> limit s \<Longrightarrow> m \<le> limit s"
    and ex: "m = 9999999 \<or> (\<exists>s\<in>set (procState seg). 0 \<le> limit s \<and> m = limit s)"
    using min_limit_spec [OF d(3)] by (auto simp: rets_def)
  show ?thesis
  proof (cases "m = 9999999")
    case True
    have "map (lower_by 0) (procState seg) = procState seg" by (rule map_idI) (simp add: lower_by_def)
    then show ?thesis using m(1) True inv by (auto simp: SIDelExpiredDataEntries_def intro!: exI [of _ 0])
  next
    case False
    then obtain s where s: "s \<in> set (procState seg)" "0 \<le> m" "m = limit s" using ex by auto
    have k: "nat m \<le> length xs" using d(14) [OF s(1)] s by (simp add: nat_le_iff)
    have r: "int (nat m) \<le> limit p" if "p \<in> set (procState seg)" "0 \<le> limit p" for p using m(2) [OF that] s(2) by simp
    have eq: "SIDelExpiredDataEntries seg = for_loop 1 (nat m + 1) (\<lambda>_ seg. do { (seg, ok) \<leftarrow> SIDelDataEntry seg; if \<not> ok then None else Some seg }) seg"
      using m(1) False by (simp add: SIDelExpiredDataEntries_def)
    show ?thesis unfolding eq by (rule rets_mono [OF delete_read [OF inv k r]]) (use k r in blast)+
  qed
qed

subsection \<open>Registering a message\<close>

definition inval_msg :: "int \<Rightarrow> uint32 \<Rightarrow> ItemPointerData option \<Rightarrow> SharedInvalidData" where
  "inval_msg c h p = \<lparr>cacheId = c, hashIndex = h, pointerData = (if ItemPointerIsValid p then the p else ItemPointerSetInvalid)\<rparr>"

definition mark_unread :: "ProcState \<Rightarrow> ProcState" where
  "mark_unread s = (if limit s = 0 then s\<lparr>resetState := True\<rparr> else s)"

lemma length_msgs [simp]: "length (msgs seg xs) = length xs"
  by (simp add: msgs_def)

lemma register_inv:
  assumes inv: "si_inv seg xs fs"
  shows "rets (RegisterSharedInvalid seg c h p) (\<lambda>seg'. \<exists>xs' fs'. si_inv seg' xs' fs' \<and>
    msgs seg' xs' = (if length xs < MAXNUMMESSAGES then msgs seg xs else tl (msgs seg xs)) @ [inval_msg c h p] \<and>
    procState seg' = (if length xs < MAXNUMMESSAGES then procState seg else map (\<lambda>s. dec_limit 1 (mark_unread s)) (procState seg)))"
proof (cases "length xs < MAXNUMMESSAGES")
  case True
  show ?thesis unfolding RegisterSharedInvalid_def inval_msg_def [symmetric] bind.bind_lunit
    by (rule rets_bind [OF set_entry_inv [OF inv True]]) (use True in fastforce)
next
  case False
  note d = si_invD [OF inv]
  have len: "length xs = MAXNUMMESSAGES" using False d(15) by simp
  then obtain x ys where xs: "xs = x # ys" by (cases xs) (auto simp: MAXNUMMESSAGES_def)
  let ?seg = "seg\<lparr>procState := map mark_unread (procState seg)\<rparr>"
  have m: "SISetProcStateInvalid seg = Some ?seg"
    using proc_loop [OF d(3)] by (simp add: SISetProcStateInvalid_def mark_unread_def [abs_def])
  have inv1: "si_inv ?seg xs fs" "msgs ?seg xs = msgs seg xs"
    using si_inv_procs [OF inv, of "map mark_unread (procState seg)"] d(3,14) by (force simp: mark_unread_def)+
  from del_entry_inv [OF inv1(1) [unfolded xs]] obtain seg2 where s2: "SIDelDataEntry ?seg = Some (seg2, True)" "si_inv seg2 ys (x # fs)"
    "msgs seg2 ys = tl (msgs seg xs)" "procState seg2 = map (\<lambda>s. dec_limit 1 (mark_unread s)) (procState seg)"
    using inv1(2) xs by (elim retsE) auto
  have "length ys < MAXNUMMESSAGES" using len xs by simp
  from set_entry_inv [OF s2(2) this, of "inval_msg c h p"] obtain seg3 y where "SISetDataEntry seg2 (inval_msg c h p) = Some (seg3, True)"
    "si_inv seg3 (ys @ [y]) fs" "msgs seg3 (ys @ [y]) = tl (msgs seg xs) @ [inval_msg c h p]" "procState seg3 = procState seg2"
    using s2(3) by (elim retsE) auto
  then show ?thesis using m s2 set_entry_full [OF inv len] False
    by (auto simp: RegisterSharedInvalid_def simp flip: inval_msg_def)
qed

subsection \<open>Joining and leaving\<close>

lemma join_inv:
  assumes inv: "si_inv seg xs fs" and join: "InitSharedInvalidationState seg t = Some (seg', b)"
  shows "\<exists>i<MaxBackendId. b = int i + 1 \<and> si_inv seg' xs fs \<and> msgs seg' xs = msgs seg xs \<and>
    procState seg' = (procState seg)[i := (procState seg ! i)\<lparr>ptag := t, resetState := False, limit := int (length xs)\<rparr>]"
proof -
  note d = si_invD [OF inv]
  obtain s1 where t: "0 < t" and a: "SIAssignBackendId seg t = Some (s1, b)" "b \<noteq> InvalidBackendTag" "SISetActiveProcess s1 (nat b) = Some seg'"
    using join by (auto simp: InitSharedInvalidationState_def SIBackendInit_def split: if_splits Option.bind_splits)
  then obtain j where j: "proc_upd seg j (\<lambda>s. s\<lparr>ptag := t\<rparr>) = Some s1" "b = 1 + int j"
    by (auto simp: SIAssignBackendId_def split: if_splits Option.bind_splits)
  then have l: "j < length (procState seg)" and s1: "s1 = seg\<lparr>procState := (procState seg)[j := (procState seg ! j)\<lparr>ptag := t\<rparr>]\<rparr>"
    by (auto simp: proc_upd_def proc_at_def arr_get_def arr_set_def split: Option.bind_splits if_splits)
  let ?s = "(procState seg ! j)\<lparr>ptag := t, resetState := False, limit := int (length xs)\<rparr>"
  have "seg' = seg\<lparr>procState := (procState seg)[j := ?s]\<rparr>"
  proof -
    have "nat b - 1 = j" using j(2) by simp
    then show ?thesis using a(3) l d(11) by (simp add: SISetActiveProcess_def proc_upd_def proc_at_def SIGetNumEntries_def s1)
  qed
  moreover have "- 1 \<le> limit r \<and> limit r \<le> int (length xs) \<and> (limit r = -1 \<longleftrightarrow> ptag r = InvalidBackendTag)" if "r \<in> set ((procState seg)[j := ?s])" for r
    using that t d(14) [of r] set_update_subset_insert [of "procState seg" j ?s] by (auto simp: InvalidBackendTag_def)
  ultimately show ?thesis using si_inv_procs [OF inv, of "(procState seg)[j := ?s]"] d(3) l j(2) by auto
qed

lemma leave_inv:
  assumes inv: "si_inv seg xs fs" and leave: "CleanupInvalidationState seg b = Some seg'"
  shows "b - 1 < MaxBackendId \<and> si_inv seg' xs fs \<and> msgs seg' xs = msgs seg xs \<and>
    procState seg' = (procState seg)[b - 1 := (procState seg ! (b - 1))\<lparr>resetState := False, limit := -1, ptag := InvalidBackendTag\<rparr>]"
proof -
  have l: "b - 1 < length (procState seg)"
    using leave by (auto simp: CleanupInvalidationState_def SISetDeadProcess_def proc_upd_def proc_at_def arr_get_def split: Option.bind_splits if_splits)
  then show ?thesis using proc_upd_inv [OF inv, of "b - 1" "\<lambda>s. s\<lparr>resetState := False, limit := -1, ptag := InvalidBackendTag\<rparr>"] leave si_invD(3) [OF inv]
    by (auto simp: CleanupInvalidationState_def SISetDeadProcess_def rets_def)
qed

subsection \<open>A fresh segment\<close>

lemma init_entries:
  assumes "length (entries seg) = MAXNUMMESSAGES" and "startEntrySection seg = SizeSISeg" and "n \<le> MAXNUMMESSAGES"
  shows "rets (for_loop 1 (n + 1) (\<lambda>i seg. entry_upd seg (startEntrySection seg + (int i - 1) * SizeOfOneSISegEntry) (\<lambda>e. e\<lparr>isfree := True, entry_next := int i * SizeOfOneSISegEntry\<rparr>)) seg)
    (\<lambda>s. \<exists>es. s = seg\<lparr>entries := es\<rparr> \<and> length es = MAXNUMMESSAGES \<and> (\<forall>j<n. isfree (es ! j) \<and> entry_next (es ! j) = off_of (j + 1)))"
proof -
  let ?I = "\<lambda>i s. \<exists>es. s = seg\<lparr>entries := es\<rparr> \<and> length es = MAXNUMMESSAGES \<and> (\<forall>j<i - 1. isfree (es ! j) \<and> entry_next (es ! j) = off_of (j + 1))"
  have "rets (for_loop 1 (n + 1) (\<lambda>i seg. entry_upd seg (startEntrySection seg + (int i - 1) * SizeOfOneSISegEntry) (\<lambda>e. e\<lparr>isfree := True, entry_next := int i * SizeOfOneSISegEntry\<rparr>)) seg)
    (?I (n + 1))"
  proof (rule rets_for_loop [where I = ?I])
    show "?I 1 seg" using assms(1) by (auto intro!: exI [of _ "entries seg"])
    fix i s
    assume i: "1 \<le> i" "i < n + 1" and "?I i s"
    then obtain es where s: "s = seg\<lparr>entries := es\<rparr>" and es: "length es = MAXNUMMESSAGES" "\<forall>j<i - 1. isfree (es ! j) \<and> entry_next (es ! j) = off_of (j + 1)" by blast
    have l: "i - 1 < length (entries s)" using i assms(3) es(1) s by simp
    have o: "(int i - 1) * SizeOfOneSISegEntry = off_of (i - 1)" using i(1) by (simp add: off_of_def of_nat_diff)
    have "entry_index s (startEntrySection s + (int i - 1) * SizeOfOneSISegEntry) = Some (i - 1)"
      using entry_index_off [OF l] o s assms(2) by simp
    then show "rets (entry_upd s (startEntrySection s + (int i - 1) * SizeOfOneSISegEntry) (\<lambda>e. e\<lparr>isfree := True, entry_next := int i * SizeOfOneSISegEntry\<rparr>)) (?I (Suc i))"
      using es i l s by (auto simp: entry_upd_def nth_list_update off_of_def less_Suc_eq intro!: exI [of _ "es[i - 1 := (es ! (i - 1))\<lparr>isfree := True, entry_next := int i * SizeOfOneSISegEntry\<rparr>]"])
  qed simp
  then show ?thesis by simp
qed

lemma seg_init_inv:
  assumes "length (entries mem) = MAXNUMMESSAGES" and "length (procState mem) = MaxBackendId"
  shows "rets (SISegInit mem) (\<lambda>seg. si_inv seg [] [0..<MAXNUMMESSAGES] \<and> (\<forall>s\<in>set (procState seg). limit s = -1))"
proof -
  let ?f = "\<lambda>s. s\<lparr>limit := -1, resetState := False, ptag := InvalidBackendTag\<rparr> :: ProcState"
  define s0 where "s0 = mem\<lparr>startEntrySection := SizeSISeg, endEntrySection := SizeSISeg + SizeOfOneSISegEntry * int MAXNUMMESSAGES, startFreeSpace := 0,
    startEntryChain := InvalidOffset, endEntryChain := InvalidOffset, numEntries := 0, maxNumEntries := int MAXNUMMESSAGES, procState := map ?f (procState mem)\<rparr>"
  have "rets (for_loop 1 (MAXNUMMESSAGES - 1 + 1) (\<lambda>i seg. entry_upd seg (startEntrySection seg + (int i - 1) * SizeOfOneSISegEntry) (\<lambda>e. e\<lparr>isfree := True, entry_next := int i * SizeOfOneSISegEntry\<rparr>)) s0)
    (\<lambda>s. \<exists>es. s = s0\<lparr>entries := es\<rparr> \<and> length es = MAXNUMMESSAGES \<and> (\<forall>j<MAXNUMMESSAGES - 1. isfree (es ! j) \<and> entry_next (es ! j) = off_of (j + 1)))"
    by (rule init_entries) (use assms in \<open>auto simp: s0_def\<close>)
  moreover have "MAXNUMMESSAGES - 1 + 1 = MAXNUMMESSAGES" by (simp add: MAXNUMMESSAGES_def)
  ultimately obtain es where lp: "for_loop 1 MAXNUMMESSAGES (\<lambda>i seg. entry_upd seg (startEntrySection seg + (int i - 1) * SizeOfOneSISegEntry) (\<lambda>e. e\<lparr>isfree := True, entry_next := int i * SizeOfOneSISegEntry\<rparr>)) s0 = Some (s0\<lparr>entries := es\<rparr>)"
    and es: "length es = MAXNUMMESSAGES" "\<And>j. j < MAXNUMMESSAGES - 1 \<Longrightarrow> isfree (es ! j) \<and> entry_next (es ! j) = off_of (j + 1)"
    by (auto simp: rets_def)
  define es' where "es' = es[MAXNUMMESSAGES - 1 := (es ! (MAXNUMMESSAGES - 1))\<lparr>isfree := True, entry_next := InvalidOffset\<rparr>]"
  have l: "MAXNUMMESSAGES - 1 < length (entries (s0\<lparr>entries := es\<rparr>))" using es(1) by (simp add: MAXNUMMESSAGES_def)
  have o: "SizeSISeg + (int MAXNUMMESSAGES - 1) * SizeOfOneSISegEntry = SizeSISeg + off_of (MAXNUMMESSAGES - 1)" by (simp add: off_of_def MAXNUMMESSAGES_def)
  have ps: "length (procState (mem\<lparr>startEntrySection := v1, endEntrySection := v2, startFreeSpace := v3, startEntryChain := v4, endEntryChain := v5, numEntries := v6, maxNumEntries := v7\<rparr>)) = MaxBackendId" for v1 v2 v3 v4 v5 v6 v7
    using assms(2) by simp
  have seg: "SISegInit mem = Some (s0\<lparr>entries := es'\<rparr>)"
    using lp entry_index_off [OF l] o es(1) proc_loop [OF ps, of ?f]
    by (simp add: SISegInit_def SIComputeSize_def SISetNumEntries_def SISetMaxNumEntries_def entry_upd_def es'_def s0_def Let_def)
  have ne: "isfree (es' ! j) \<and> entry_next (es' ! j) = (if j + 1 = MAXNUMMESSAGES then InvalidOffset else off_of (j + 1))" if "j < MAXNUMMESSAGES" for j
    using es(2) [of j] es(1) that by (auto simp: es'_def nth_list_update)
  have "echain es' (first_off [j..<MAXNUMMESSAGES]) [j..<MAXNUMMESSAGES]" if "j \<le> MAXNUMMESSAGES" for j
    using that
  proof (induction "MAXNUMMESSAGES - j" arbitrary: j)
    case 0 then show ?case by (simp add: first_off_def)
  next
    case (Suc n)
    then have j: "j < MAXNUMMESSAGES" by simp
    have "entry_next (es' ! j) = first_off [Suc j..<MAXNUMMESSAGES]" using ne [OF j] j by (auto simp: first_off_def upt_conv_Cons)
    then show ?case using Suc(1) [of "Suc j"] Suc(2) j es(1) by (simp add: upt_conv_Cons first_off_def es'_def)
  qed
  moreover have "0 < MAXNUMMESSAGES" by (simp add: MAXNUMMESSAGES_def)
  then have "first_off [0..<MAXNUMMESSAGES] = 0" by (simp add: first_off_def off_of_def upt_conv_Cons)
  ultimately have "echain es' 0 [0..<MAXNUMMESSAGES]" by (metis zero_le)
  then have "si_inv (s0\<lparr>entries := es'\<rparr>) [] [0..<MAXNUMMESSAGES]"
    using es(1) ne assms(2) by (auto simp: si_inv_def s0_def es'_def)
  then show ?thesis using seg by (auto simp: s0_def)
qed

subsection \<open>Delivery\<close>

text \<open>
  A history of the segment: \<open>hist\<close> are all messages registered so far, \<open>seen i\<close> is the length the history had when the backend in
  slot \<open>i\<close> last joined or read. \<open>read_state\<close> relates the slot to the history, \<open>base\<close> being the number of messages
  that are no longer in the segment.
\<close>

definition read_state :: "nat \<Rightarrow> nat \<Rightarrow> ProcState \<Rightarrow> nat \<Rightarrow> bool" where
  "read_state len base s k \<longleftrightarrow> (0 \<le> limit s \<longrightarrow> k \<le> len \<and> (if resetState s then MAXNUMMESSAGES < len - k else int k = int base + limit s))"

definition delivers :: "SISeg \<Rightarrow> SharedInvalidData list \<Rightarrow> (nat \<Rightarrow> nat) \<Rightarrow> bool" where
  "delivers seg hist seen \<longleftrightarrow> (\<exists>xs fs. si_inv seg xs fs \<and> length xs \<le> length hist \<and> msgs seg xs = drop (length hist - length xs) hist \<and>
     (\<forall>i<MaxBackendId. read_state (length hist) (length hist - length xs) (procState seg ! i) (seen i)))"

inductive si_step :: "SISeg \<times> SharedInvalidData list \<times> (nat \<Rightarrow> nat) \<Rightarrow> SISeg \<times> SharedInvalidData list \<times> (nat \<Rightarrow> nat) \<Rightarrow> bool" where
  register: "RegisterSharedInvalid seg c h p = Some seg' \<Longrightarrow> si_step (seg, hist, seen) (seg', hist @ [inval_msg c h p], seen)"
| join: "InitSharedInvalidationState seg t = Some (seg', b) \<Longrightarrow> si_step (seg, hist, seen) (seg', hist, seen(nat b - 1 := length hist))"
| leave: "CleanupInvalidationState seg b = Some seg' \<Longrightarrow> si_step (seg, hist, seen) (seg', hist, seen)"
| read: "0 < b \<Longrightarrow> 0 < t \<Longrightarrow> InvalidateSharedInvalid seg b t = Some (seg', ms, reset) \<Longrightarrow> si_step (seg, hist, seen) (seg', hist, seen(b - 1 := length hist))"

inductive_cases si_stepE: "si_step (seg, hist, seen) st"

lemma read_state_deliver:
  assumes inv: "si_inv seg xs fs" and m: "length xs \<le> length hist" "msgs seg xs = drop (length hist - length xs) hist"
    and r: "read_state (length hist) (length hist - length xs) s k" and l: "0 \<le> limit s" and nr: "\<not> resetState s"
  shows "drop (nat (limit s)) (msgs seg xs) = drop k hist"
proof -
  have "int k = int (length hist - length xs) + limit s" using r l nr by (simp add: read_state_def)
  then have "k = nat (limit s) + (length hist - length xs)" using l by linarith
  then show ?thesis using m(2) by simp
qed

lemma lower_by_fields: "resetState (lower_by k s) = resetState s" "ptag (lower_by k s) = ptag s" "limit (lower_by k s) = (if 0 < limit s then limit s - int k else limit s)"
  by (simp_all add: lower_by_def)

lemma read_step:
  assumes del: "delivers seg hist seen" and i: "i < MaxBackendId" and t: "ptag (procState seg ! i) = t" "0 < t"
  shows "rets (InvalidateSharedInvalid seg (i + 1) t) (\<lambda>(seg', ms, reset). delivers seg' hist (seen(i := length hist)) \<and>
    (if reset then ms = [] \<and> MAXNUMMESSAGES < length hist - seen i else ms = drop (seen i) hist))"
proof -
  obtain xs fs where inv: "si_inv seg xs fs" and m: "length xs \<le> length hist" "msgs seg xs = drop (length hist - length xs) hist"
    and r: "\<And>j. j < MaxBackendId \<Longrightarrow> read_state (length hist) (length hist - length xs) (procState seg ! j) (seen j)"
    using del by (auto simp: delivers_def)
  define s where "s = procState seg ! i"
  have tn: "t \<noteq> InvalidBackendTag" using t(2) by (simp add: InvalidBackendTag_def)
  have ls: "length (procState seg) = MaxBackendId" by (rule si_invD(3) [OF inv])
  have "s \<in> set (procState seg)" using i ls by (simp add: s_def)
  then have l: "0 \<le> limit s" using si_invD(14) [OF inv, of s] t tn by (auto simp: s_def)
  have ts: "ptag s = t" using t(1) by (simp add: s_def)
  let ?s = "s\<lparr>resetState := False, limit := int (length xs)\<rparr>"
  from read_entries_inv [OF inv i s_def ts tn] obtain seg1 ms where s1: "SIReadEntryData seg (i + 1) t = Some (seg1, ms, resetState s)"
    "si_inv seg1 xs fs" "msgs seg1 xs = msgs seg xs" "ms = (if resetState s then [] else drop (nat (limit s)) (msgs seg xs))"
    "procState seg1 = (procState seg)[i := ?s]" by (elim retsE) auto
  from del_expired_inv [OF s1(2)] obtain seg2 k fs' where s2: "SIDelExpiredDataEntries seg1 = Some seg2" "k \<le> length xs"
    "si_inv seg2 (drop k xs) fs'" "msgs seg2 (drop k xs) = drop k (msgs seg1 xs)" "procState seg2 = map (lower_by k) (procState seg1)"
    and k: "\<And>s. s \<in> set (procState seg1) \<Longrightarrow> 0 \<le> limit s \<Longrightarrow> int k \<le> limit s" by (elim retsE) auto
  have base: "length hist - length (drop k xs) = length hist - length xs + k" using m(1) s2(2) by simp
  have "read_state (length hist) (length hist - length (drop k xs)) (procState seg2 ! j) ((seen(i := length hist)) j)" if j: "j < MaxBackendId" for j
  proof -
    have p: "procState seg2 ! j = lower_by k (procState seg1 ! j)" "procState seg1 ! j = (if j = i then ?s else procState seg ! j)" "procState seg1 ! j \<in> set (procState seg1)"
      using s2(5) s1(5) j ls by (auto simp: nth_list_update)
    have kl: "int k \<le> limit (procState seg1 ! j)" if "0 \<le> limit (procState seg1 ! j)" by (rule k [OF p(3) that])
    show ?thesis
      using r [OF j] p(2) kl m(1) unfolding base p(1) by (auto simp: read_state_def lower_by_fields split: if_splits)
  qed
  moreover have "msgs seg2 (drop k xs) = drop (length hist - length (drop k xs)) hist" unfolding base s2(4) s1(3) m(2) by (simp add: add.commute)
  ultimately have "delivers seg2 hist (seen(i := length hist))" unfolding delivers_def using s2(3) m(1) by (intro exI [of _ "drop k xs"] exI [of _ fs']) simp
  moreover have "if resetState s then ms = [] \<and> MAXNUMMESSAGES < length hist - seen i else ms = drop (seen i) hist"
    using s1(4) read_state_deliver [OF inv m r [OF i, folded s_def] l] r [OF i, folded s_def] l by (auto simp: read_state_def split: if_splits)
  ultimately show ?thesis using s1(1) s2(1) by (simp add: InvalidateSharedInvalid_def)
qed

lemma register_step:
  assumes del: "delivers seg hist seen"
  shows "rets (RegisterSharedInvalid seg c h p) (\<lambda>seg'. delivers seg' (hist @ [inval_msg c h p]) seen)"
proof -
  obtain xs fs where inv: "si_inv seg xs fs" and m: "length xs \<le> length hist" "msgs seg xs = drop (length hist - length xs) hist"
    and r: "\<And>j. j < MaxBackendId \<Longrightarrow> read_state (length hist) (length hist - length xs) (procState seg ! j) (seen j)"
    using del by (auto simp: delivers_def)
  let ?m = "inval_msg c h p"
  have lp: "length (procState seg) = MaxBackendId" and lx: "length xs \<le> MAXNUMMESSAGES" using si_invD(3,15) [OF inv] by auto
  show ?thesis
  proof (rule rets_mono [OF register_inv [OF inv]], elim exE conjE)
    fix seg' xs' fs'
    assume inv': "si_inv seg' xs' fs'" and m': "msgs seg' xs' = (if length xs < MAXNUMMESSAGES then msgs seg xs else tl (msgs seg xs)) @ [?m]"
      and p': "procState seg' = (if length xs < MAXNUMMESSAGES then procState seg else map (\<lambda>s. dec_limit 1 (mark_unread s)) (procState seg))"
    show "delivers seg' (hist @ [?m]) seen"
    proof (cases "length xs < MAXNUMMESSAGES")
      case True
      have l: "length xs' = length xs + 1" using arg_cong [OF m', of length] True by simp
      have "msgs seg' xs' = drop (length (hist @ [?m]) - length xs') (hist @ [?m])" using m' True m l by simp
      moreover have "read_state (length (hist @ [?m])) (length (hist @ [?m]) - length xs') (procState seg' ! j) (seen j)" if j: "j < MaxBackendId" for j
        using r [OF j] p' True l by (auto simp: read_state_def split: if_splits)
      ultimately show ?thesis unfolding delivers_def using inv' l m(1) by (intro exI [of _ xs'] exI [of _ fs']) simp
    next
      case False
      then have lx': "length xs = MAXNUMMESSAGES" using lx by simp
      have pos: "0 < length xs" using lx' by (simp add: MAXNUMMESSAGES_def)
      have l: "length xs' = length xs" using arg_cong [OF m', of length] False pos by simp
      have b: "length (hist @ [?m]) - length xs' = Suc (length hist - length xs)" using l m(1) by simp
      have "msgs seg' xs' = drop (Suc (length hist - length xs)) hist @ [?m]" using m' False m(2) by (simp add: drop_Suc tl_drop)
      also have "\<dots> = drop (Suc (length hist - length xs)) (hist @ [?m])"
      proof -
        have "Suc (length hist - length xs) \<le> length hist" using m(1) pos by linarith
        then show ?thesis by simp
      qed
      finally have ms: "msgs seg' xs' = drop (length (hist @ [?m]) - length xs') (hist @ [?m])" unfolding b .
      have "read_state (length (hist @ [?m])) (length (hist @ [?m]) - length xs') (procState seg' ! j) (seen j)" if j: "j < MaxBackendId" for j
      proof -
        have "procState seg' ! j = dec_limit 1 (mark_unread (procState seg ! j))" using p' False j lp by simp
        then show ?thesis unfolding b using r [OF j] m(1) lx' by (auto simp: read_state_def dec_limit_def mark_unread_def split: if_splits)
      qed
      then show ?thesis unfolding delivers_def using inv' ms l m(1) by (intro exI [of _ xs'] exI [of _ fs']) simp
    qed
  qed
qed

lemma delivers_procs:
  assumes "si_inv seg' xs fs" and "msgs seg' xs = msgs seg xs" and "procState seg' = (procState seg)[i := s]" and "length (procState seg) = MaxBackendId"
    and "length xs \<le> length hist" "msgs seg xs = drop (length hist - length xs) hist"
    and "\<And>j. j < MaxBackendId \<Longrightarrow> read_state (length hist) (length hist - length xs) (procState seg ! j) (seen j)"
    and "\<And>j. j \<noteq> i \<Longrightarrow> seen' j = seen j" and "read_state (length hist) (length hist - length xs) s (seen' i)"
  shows "delivers seg' hist seen'"
  unfolding delivers_def
proof (intro exI conjI allI impI)
  show "si_inv seg' xs fs" "length xs \<le> length hist" "msgs seg' xs = drop (length hist - length xs) hist" using assms(1,2,5,6) by simp_all
  fix j
  assume "j < MaxBackendId"
  then show "read_state (length hist) (length hist - length xs) (procState seg' ! j) (seen' j)"
    using assms(3,4,7,8,9) by (cases "j = i") simp_all
qed

lemma delivers_step: "si_step (seg, hist, seen) (seg', hist', seen') \<Longrightarrow> delivers seg hist seen \<Longrightarrow> delivers seg' hist' seen'"
proof (elim si_stepE, goal_cases)
  case (1 c h p s)
  then show ?case using register_step [of seg hist seen c h p] by (auto simp: rets_def)
next
  case (2 t s b)
  obtain xs fs where inv: "si_inv seg xs fs" and m: "length xs \<le> length hist" "msgs seg xs = drop (length hist - length xs) hist"
    and r: "\<And>j. j < MaxBackendId \<Longrightarrow> read_state (length hist) (length hist - length xs) (procState seg ! j) (seen j)"
    using 2 by (auto simp: delivers_def)
  have "InitSharedInvalidationState seg t = Some (seg', b)" using 2 by simp
  from join_inv [OF inv this] obtain i where i: "b = int i + 1" "si_inv seg' xs fs" "msgs seg' xs = msgs seg xs"
    "procState seg' = (procState seg)[i := (procState seg ! i)\<lparr>ptag := t, resetState := False, limit := int (length xs)\<rparr>]" by blast
  have "delivers seg' hist (seen(i := length hist))"
    by (rule delivers_procs [OF i(2-4) si_invD(3) [OF inv] m r]) (use m(1) in \<open>auto simp: read_state_def\<close>)
  moreover have "nat b - 1 = i" using i(1) by simp
  ultimately show ?case using 2 by simp
next
  case (3 b s)
  obtain xs fs where inv: "si_inv seg xs fs" and m: "length xs \<le> length hist" "msgs seg xs = drop (length hist - length xs) hist"
    and r: "\<And>j. j < MaxBackendId \<Longrightarrow> read_state (length hist) (length hist - length xs) (procState seg ! j) (seen j)"
    using 3 by (auto simp: delivers_def)
  have "CleanupInvalidationState seg b = Some seg'" using 3 by simp
  note lv = leave_inv [OF inv this]
  have "delivers seg' hist seen"
    by (rule delivers_procs [OF _ _ _ si_invD(3) [OF inv] m r]) (use lv in \<open>auto simp: read_state_def\<close>)
  then show ?case using 3 by simp
next
  case (4 b t s ms reset)
  have l: "b - 1 < MaxBackendId" and p: "ptag (procState seg ! (b - 1)) = t"
    using 4 by (auto simp: delivers_def si_inv_def InvalidateSharedInvalid_def SIReadEntryData_def proc_at_def arr_get_def split: Option.bind_splits if_splits)
  have b: "b - 1 + 1 = b" using 4 by simp
  show ?case using read_step [OF _ l p, of hist seen] 4 unfolding b by (auto simp: rets_def)
qed

lemma delivers_init:
  assumes "length (entries mem) = MAXNUMMESSAGES" and "length (procState mem) = MaxBackendId"
  shows "rets (SISegInit mem) (\<lambda>seg. delivers seg [] (\<lambda>_. 0))"
proof (rule rets_mono [OF seg_init_inv [OF assms]], elim conjE)
  fix seg
  assume inv: "si_inv seg [] [0..<MAXNUMMESSAGES]" and l: "\<forall>s\<in>set (procState seg). limit s = -1"
  have "limit (procState seg ! i) = -1" if "i < MaxBackendId" for i using l si_invD(3) [OF inv] that by simp
  then show "delivers seg [] (\<lambda>_. 0)" unfolding delivers_def using inv
    by (intro exI [of _ "[]"] exI [of _ "[0..<MAXNUMMESSAGES]"]) (simp add: msgs_def read_state_def)
qed

lemma delivers_reachable:
  assumes "si_step\<^sup>*\<^sup>* (seg0, [], \<lambda>_. 0) (seg, hist, seen)" and "delivers seg0 [] (\<lambda>_. 0)"
  shows "delivers seg hist seen"
proof -
  have "case st of (seg, hist, seen) \<Rightarrow> delivers seg hist seen" if "si_step\<^sup>*\<^sup>* (seg0, [], \<lambda>_. 0) st" for st
    using that
  proof (induction rule: rtranclp_induct)
    case base then show ?case using assms(2) by simp
  next
    case (step y z)
    then show ?case by (cases y; cases z) (auto intro: delivers_step)
  qed
  then show ?thesis using assms(1) by force
qed

text \<open>
  C10: Start from a freshly initialised segment and let any backends register messages, join, read and leave in any order. Registering a
  message never fails. A registered backend that reads is passed exactly the messages registered since it last
  read or joined, in order and each once, or is told to reset its cache, and the latter only if more than
  \<open>MAXNUMMESSAGES\<close> messages were registered in the meantime.
\<close>

theorem sinval_exactly_once:
  assumes "SISegInit mem = Some seg0" and "length (entries mem) = MAXNUMMESSAGES" and "length (procState mem) = MaxBackendId"
    and "si_step\<^sup>*\<^sup>* (seg0, [], \<lambda>_. 0) (seg, hist, seen)"
    and "i < MaxBackendId" and "ptag (procState seg ! i) = t" and "0 < t"
  shows "rets (InvalidateSharedInvalid seg (i + 1) t)
      (\<lambda>(_, ms, reset). if reset then ms = [] \<and> MAXNUMMESSAGES < length hist - seen i else ms = drop (seen i) hist) \<and>
    rets (RegisterSharedInvalid seg c h p) (\<lambda>_. True)"
proof -
  have "delivers seg0 [] (\<lambda>_. 0)" using delivers_init [OF assms(2,3)] assms(1) by simp
  note d = delivers_reachable [OF assms(4) this]
  show ?thesis
    by (rule conjI; rule rets_mono [OF read_step [OF d assms(5-7)]] rets_mono [OF register_step [OF d]]) auto
qed

definition sample_mem :: SISeg where
  "sample_mem = \<lparr>startEntrySection = 0, endEntrySection = 0, startFreeSpace = 0, startEntryChain = 0, endEntryChain = 0, numEntries = 0, maxNumEntries = 0,
     procState = replicate MaxBackendId \<lparr>limit = 0, resetState = False, ptag = 0\<rparr>,
     entries = replicate MAXNUMMESSAGES \<lparr>entryData = inval_msg 0 0 None, isfree = False, entry_next = 0\<rparr>\<rparr>"

lemma join_first:
  assumes inv: "si_inv seg [] fs" and l: "\<forall>s\<in>set (procState seg). limit s = -1"
  shows "\<exists>seg'. InitSharedInvalidationState seg 7 = Some (seg', 1)"
proof -
  have lp: "length (procState seg) = MaxBackendId" by (rule si_invD(3) [OF inv])
  have free: "ptag (procState seg ! i) = InvalidBackendTag" if "i < MaxBackendId" for i
    using si_invD(14) [OF inv, of "procState seg ! i"] l lp that by simp
  have M: "MaxBackendId = Suc 31" by (simp add: MaxBackendId_def)
  have "assign_scan (procState seg) 7 0 None (Suc n) = Some (0, Some 0)" for n using free [of 0] lp by (simp add: arr_get_def MaxBackendId_def)
  then have "assign_scan (procState seg) 7 0 None MaxBackendId = Some (0, Some 0)" unfolding M .
  then show ?thesis
    using free lp by (auto simp: InitSharedInvalidationState_def SIBackendInit_def SIAssignBackendId_def proc_at_def proc_upd_def arr_get_def arr_set_def
        SISetActiveProcess_def InvalidBackendTag_def MaxBackendId_def)
qed

theorem sinval_exactly_once_witness:
  "\<exists>seg0 seg1 seg2. SISegInit sample_mem = Some seg0 \<and> InitSharedInvalidationState seg0 7 = Some (seg1, 1) \<and>
     RegisterSharedInvalid seg1 5 9 None = Some seg2 \<and> rets (InvalidateSharedInvalid seg2 1 7) (\<lambda>(_, ms, reset). \<not> reset \<and> ms = [inval_msg 5 9 None])"
proof -
  have len: "length (entries sample_mem) = MAXNUMMESSAGES" "length (procState sample_mem) = MaxBackendId" by (simp_all add: sample_mem_def)
  from seg_init_inv [OF len] delivers_init [OF len] obtain seg0 where s0: "SISegInit sample_mem = Some seg0" "delivers seg0 [] (\<lambda>_. 0)"
    and inv: "si_inv seg0 [] [0..<MAXNUMMESSAGES]" and l: "\<forall>s\<in>set (procState seg0). limit s = -1" by (auto simp: rets_def)
  have lp: "length (procState seg0) = MaxBackendId" by (rule si_invD(3) [OF inv])
  obtain seg1 where s1: "InitSharedInvalidationState seg0 7 = Some (seg1, 1)" using join_first [OF inv l] by blast
  have p1: "ptag (procState seg1 ! 0) = 7" using join_inv [OF inv s1] lp by (auto simp: MaxBackendId_def)
  have st1: "si_step (seg0, [], \<lambda>_. 0) (seg1, [], \<lambda>_. 0)" using si_step.join [OF s1, of "[]" "\<lambda>_. 0"] by (simp add: fun_upd_idem)
  from st1 s0(2) have d1: "delivers seg1 [] (\<lambda>_. 0)" by (rule delivers_step)
  then obtain xs fs where inv1: "si_inv seg1 xs fs" "xs = []" by (auto simp: delivers_def)
  from register_inv [OF inv1(1), of 5 9 None] obtain seg2 where s2: "RegisterSharedInvalid seg1 5 9 None = Some seg2" "procState seg2 = procState seg1"
    using inv1(2) by (auto simp: rets_def MAXNUMMESSAGES_def)
  have "si_step\<^sup>*\<^sup>* (seg0, [], \<lambda>_. 0) (seg2, [inval_msg 5 9 None], \<lambda>_. 0)"
    using st1 si_step.register [OF s2(1), of "[]" "\<lambda>_. 0"] by simp
  from sinval_exactly_once [OF s0(1) len this, of 0 7 0 0 None] s2(2) p1
  have "rets (InvalidateSharedInvalid seg2 1 7) (\<lambda>(_, ms, reset). \<not> reset \<and> ms = [inval_msg 5 9 None])"
    by (auto simp: MaxBackendId_def MAXNUMMESSAGES_def elim: rets_mono split: if_splits)
  then show ?thesis using s0(1) s1 s2(1) by blast
qed

subsection \<open>Who may join\<close>

lemma assign_scan_spec:
  assumes "index + n \<le> length ps" and "\<And>j. stateP = Some j \<Longrightarrow> j < index"
  shows "rets (assign_scan ps t index stateP n) (\<lambda>(k, r). index \<le> k \<and> k \<le> index + n \<and>
    (\<forall>j. index \<le> j \<and> j < k \<longrightarrow> ptag (ps ! j) \<noteq> InvalidBackendTag \<and> ptag (ps ! j) \<noteq> t) \<and>
    (if k < index + n then r = Some k \<and> (ptag (ps ! k) = InvalidBackendTag \<or> ptag (ps ! k) = t)
     else (\<forall>j. r = Some j \<longrightarrow> j < k) \<and> (stateP \<noteq> None \<or> 0 < n \<longrightarrow> r \<noteq> None)))"
  using assms
proof (induction n arbitrary: index stateP)
  case 0
  then show ?case by simp
next
  case (Suc n)
  have g: "arr_get ps index = Some (ps ! index)" using Suc.prems(1) by (simp add: arr_get_def)
  show ?case
  proof (cases "ptag (ps ! index) = InvalidBackendTag \<or> ptag (ps ! index) = t")
    case True
    then show ?thesis using g by auto
  next
    case False
    obtain st where st: "assign_scan ps t index stateP (Suc n) = assign_scan ps t (index + 1) (Some st) n" "st < index + 1"
    proof (cases stateP)
      case None
      then show thesis using that [of index] g False by simp
    next
      case (Some q)
      then have "q < index" using Suc.prems(2) by simp
      moreover from this have q: "arr_get ps q = Some (ps ! q)" using Suc.prems(1) by (simp add: arr_get_def)
      define b where "b = ((resetState (ps ! index) \<and> (\<not> resetState (ps ! q) \<or> ptag (ps ! q) < t)) \<or>
        (\<not> resetState (ps ! q) \<and> (limit (ps ! index) < limit (ps ! q) \<or> ptag (ps ! q) < t)))"
      have "assign_scan ps t index stateP (Suc n) = assign_scan ps t (index + 1) (Some (if b then index else q)) n"
        using g q False Some by (auto simp: b_def)
      ultimately show thesis using that [of "if b then index else q"] by simp
    qed
    have "rets (assign_scan ps t (index + 1) (Some st) n) (\<lambda>(k, r). index + 1 \<le> k \<and> k \<le> index + 1 + n \<and>
      (\<forall>j. index + 1 \<le> j \<and> j < k \<longrightarrow> ptag (ps ! j) \<noteq> InvalidBackendTag \<and> ptag (ps ! j) \<noteq> t) \<and>
      (if k < index + 1 + n then r = Some k \<and> (ptag (ps ! k) = InvalidBackendTag \<or> ptag (ps ! k) = t)
       else (\<forall>j. r = Some j \<longrightarrow> j < k) \<and> (Some st \<noteq> None \<or> 0 < n \<longrightarrow> r \<noteq> None)))"
      by (rule Suc.IH) (use Suc.prems(1) st(2) in auto)
    then show ?thesis unfolding st(1)
      by (rule rets_mono) (use False in \<open>auto simp: Suc_le_eq le_less split: if_splits\<close>)
  qed
qed

text \<open>Registering in a state table without the tag of the new backend.\<close>

lemma join_unused:
  assumes "length (procState seg) = MaxBackendId" and "0 < t" and "\<And>i. i < MaxBackendId \<Longrightarrow> ptag (procState seg ! i) \<noteq> t"
  shows "rets (SIBackendInit seg t) (\<lambda>(seg', b, ok). ok = (\<exists>i<MaxBackendId. ptag (procState seg ! i) = InvalidBackendTag) \<and> (\<not> ok \<longrightarrow> seg' = seg) \<and>
    (ok \<longrightarrow> 1 \<le> b \<and> b \<le> int MaxBackendId \<and> ptag (procState seg ! (nat b - 1)) = InvalidBackendTag))"
proof -
  have l: "0 + MaxBackendId \<le> length (procState seg)" using assms(1) by simp
  from assign_scan_spec [OF l, of None t] obtain k r where k: "assign_scan (procState seg) t 0 None MaxBackendId = Some (k, r)" "k \<le> MaxBackendId"
    "\<And>j. j < k \<Longrightarrow> ptag (procState seg ! j) \<noteq> InvalidBackendTag"
    and r: "if k < MaxBackendId then r = Some k \<and> (ptag (procState seg ! k) = InvalidBackendTag \<or> ptag (procState seg ! k) = t)
      else (\<forall>j. r = Some j \<longrightarrow> j < k) \<and> r \<noteq> None"
    by (auto simp: rets_def MaxBackendId_def split: if_splits)
  have nd: "\<not> (\<exists>i\<in>set [k + 1..<MaxBackendId]. map_option ptag (proc_at seg i) = Some t)"
    using assms(1,3) by (auto simp: proc_at_def arr_get_def)
  show ?thesis
  proof (cases "k < MaxBackendId")
    case True
    then have rk: "r = Some k" and f: "ptag (procState seg ! k) = InvalidBackendTag" using r assms(3) [of k] by auto
    have "proc_at seg k = Some (procState seg ! k)" using True assms(1) by (simp add: proc_at_def arr_get_def)
    moreover have "nat (1 + int k) - Suc 0 = k" by simp
    ultimately show ?thesis using k(1) nd rk f True assms(1,2)
      by (auto simp: SIBackendInit_def SIAssignBackendId_def SISetActiveProcess_def proc_upd_def proc_at_def arr_get_def arr_set_def InvalidBackendTag_def)
  next
    case False
    then have "k = MaxBackendId" using k(2) by simp
    moreover obtain j where "r = Some j" "j < MaxBackendId" using r False k(2) by (cases r) auto
    ultimately show ?thesis using k nd assms
      by (auto simp: SIBackendInit_def SIAssignBackendId_def proc_at_def arr_get_def)
  qed
qed

text \<open>
  C32: A backend whose tag is not in use can register exactly when one of the \<open>MaxBackendId\<close> process states is free: it is given the
  id of a free state, and otherwise the segment is left as it is and initialisation fails.
\<close>

theorem sinval_join_iff_free:
  assumes "length (procState seg) = MaxBackendId" and "0 < t" and "\<And>i. i < MaxBackendId \<Longrightarrow> ptag (procState seg ! i) \<noteq> t"
  shows "(\<exists>seg' b. InitSharedInvalidationState seg t = Some (seg', b) \<and> 1 \<le> b \<and> b \<le> int MaxBackendId \<and> ptag (procState seg ! (nat b - 1)) = InvalidBackendTag)
      = (\<exists>i<MaxBackendId. ptag (procState seg ! i) = InvalidBackendTag) \<and>
    rets (SIBackendInit seg t) (\<lambda>(seg', _, ok). ok = (\<exists>i<MaxBackendId. ptag (procState seg ! i) = InvalidBackendTag) \<and> (\<not> ok \<longrightarrow> seg' = seg))"
proof -
  from join_unused [OF assms] obtain seg' b ok where r: "SIBackendInit seg t = Some (seg', b, ok)"
    "ok = (\<exists>i<MaxBackendId. ptag (procState seg ! i) = InvalidBackendTag)" "\<not> ok \<longrightarrow> seg' = seg"
    "ok \<longrightarrow> 1 \<le> b \<and> b \<le> int MaxBackendId \<and> ptag (procState seg ! (nat b - 1)) = InvalidBackendTag" by (auto simp: rets_def)
  have "InitSharedInvalidationState seg t = (if ok then Some (seg', b) else None)" using r(1) by (simp add: InitSharedInvalidationState_def)
  then show ?thesis using r by (cases ok) auto
qed

theorem sinval_join_iff_free_witness:
  "\<exists>seg0. SISegInit sample_mem = Some seg0 \<and> (\<exists>seg' b. InitSharedInvalidationState seg0 7 = Some (seg', b))"
proof -
  have len: "length (entries sample_mem) = MAXNUMMESSAGES" "length (procState sample_mem) = MaxBackendId" by (simp_all add: sample_mem_def)
  from seg_init_inv [OF len] obtain seg0 where s0: "SISegInit sample_mem = Some seg0" and inv: "si_inv seg0 [] [0..<MAXNUMMESSAGES]"
    and l: "\<forall>s\<in>set (procState seg0). limit s = -1" by (auto simp: rets_def)
  have lp: "length (procState seg0) = MaxBackendId" by (rule si_invD(3) [OF inv])
  have free: "ptag (procState seg0 ! i) = InvalidBackendTag" if "i < MaxBackendId" for i
    using si_invD(14) [OF inv, of "procState seg0 ! i"] l lp that by simp
  have "ptag (procState seg0 ! i) \<noteq> 7" if "i < MaxBackendId" for i using free [OF that] by (simp add: InvalidBackendTag_def)
  moreover have "\<exists>i<MaxBackendId. ptag (procState seg0 ! i) = InvalidBackendTag" using free [of 0] by (intro exI [of _ 0]) (simp add: MaxBackendId_def)
  ultimately show ?thesis using sinval_join_iff_free [OF lp, of 7] s0 by auto
qed

text \<open>Tags are distinct among the registered backends, whatever the history.\<close>

definition tags_distinct :: "ProcState list \<Rightarrow> bool" where
  "tags_distinct ps \<longleftrightarrow> (\<forall>i j. i < j \<and> j < length ps \<and> ptag (ps ! i) = ptag (ps ! j) \<longrightarrow> ptag (ps ! i) = InvalidBackendTag)"

lemma tags_distinct_cong: "map ptag ps = map ptag qs \<Longrightarrow> tags_distinct ps \<longleftrightarrow> tags_distinct qs"
proof -
  assume eq: "map ptag ps = map ptag qs"
  then have "length ps = length qs" by (rule map_eq_imp_length_eq)
  moreover from this have "ptag (ps ! i) = ptag (qs ! i)" if "i < length qs" for i using arg_cong [OF eq, of "\<lambda>l. l ! i"] that by simp
  ultimately show ?thesis unfolding tags_distinct_def by (metis less_trans)
qed

lemma tags_distinct_upd:
  assumes "tags_distinct ps" and "ptag s = InvalidBackendTag \<or> (\<forall>i<length ps. i \<noteq> j \<longrightarrow> ptag (ps ! i) \<noteq> ptag s)"
  shows "tags_distinct (ps[j := s])"
  unfolding tags_distinct_def
proof (intro allI impI)
  fix a b
  assume "a < b \<and> b < length (ps[j := s]) \<and> ptag (ps[j := s] ! a) = ptag (ps[j := s] ! b)"
  then show "ptag (ps[j := s] ! a) = InvalidBackendTag"
    using assms by (cases "a = j"; cases "b = j") (auto simp: tags_distinct_def)
qed

lemma join_tags:
  assumes len: "length (procState seg) = MaxBackendId" and join: "InitSharedInvalidationState seg t = Some (seg', b)"
  shows "\<forall>i<MaxBackendId. i \<noteq> nat b - 1 \<longrightarrow> ptag (procState seg ! i) \<noteq> t"
proof -
  obtain k r j where a: "assign_scan (procState seg) t 0 None MaxBackendId = Some (k, r)" "b = 1 + int j" "r = Some j"
    and d: "\<not> (\<exists>i\<in>set [k + 1..<MaxBackendId]. map_option ptag (proc_at seg i) = Some t)"
    and m: "j < MaxBackendId" "ptag (procState seg ! j) = InvalidBackendTag \<or> ptag (procState seg ! j) = t"
    using join len by (auto simp: InitSharedInvalidationState_def SIBackendInit_def SIAssignBackendId_def proc_at_def arr_get_def split: if_splits Option.bind_splits)
  have l: "0 + MaxBackendId \<le> length (procState seg)" using len by simp
  have k: "\<forall>i<k. ptag (procState seg ! i) \<noteq> t \<and> ptag (procState seg ! i) \<noteq> InvalidBackendTag" "k < MaxBackendId \<longrightarrow> j = k" "k \<le> MaxBackendId"
    using assign_scan_spec [OF l, of None t] a(1,3) by (auto split: if_splits)
  have "j = k" using k m by (cases "k < MaxBackendId") auto
  moreover have "ptag (procState seg ! i) \<noteq> t" if "k < i" "i < MaxBackendId" for i using d len that by (auto simp: proc_at_def arr_get_def)
  moreover have "nat b - 1 = j" using a(2) by simp
  ultimately show ?thesis using k(1) by (auto simp: neq_iff)
qed

lemma tags_step:
  assumes step: "si_step (seg, hist, seen) (seg', hist', seen')" and del: "delivers seg hist seen" and td: "tags_distinct (procState seg)"
  shows "tags_distinct (procState seg')"
proof -
  obtain xs fs where inv: "si_inv seg xs fs" using del by (auto simp: delivers_def)
  note len = si_invD(3) [OF inv]
  show ?thesis using step
  proof (elim si_stepE, goal_cases)
    case (1 c h p s)
    then have "map ptag (procState seg') = map ptag (procState seg)"
      using register_inv [OF inv, of c h p] by (auto simp: rets_def dec_limit_def mark_unread_def split: if_splits)
    then show ?case using td tags_distinct_cong by blast
  next
    case (2 t s b)
    then have j: "InitSharedInvalidationState seg t = Some (seg', b)" by simp
    from join_inv [OF inv j] obtain i where i: "b = int i + 1"
      "procState seg' = (procState seg)[i := (procState seg ! i)\<lparr>ptag := t, resetState := False, limit := int (length xs)\<rparr>]" by blast
    have "nat b - 1 = i" using i(1) by simp
    then show ?case using join_tags [OF len j] i(2) td len by (auto intro!: tags_distinct_upd)
  next
    case (3 b s)
    then show ?case using leave_inv [OF inv, of b seg'] td by (auto intro!: tags_distinct_upd)
  next
    case (4 b t s ms reset)
    then have r: "InvalidateSharedInvalid seg b t = Some (seg', ms, reset)" and t: "0 < b" "t \<noteq> InvalidBackendTag" by (simp_all add: InvalidBackendTag_def)
    have l: "b - 1 < MaxBackendId" and p: "ptag (procState seg ! (b - 1)) = t"
      using r len by (auto simp: InvalidateSharedInvalid_def SIReadEntryData_def proc_at_def arr_get_def split: Option.bind_splits if_splits)
    have b: "b - 1 + 1 = b" using t by simp
    from read_entries_inv [OF inv l refl p t(2)] obtain seg1 ms' where s1: "SIReadEntryData seg b t = Some (seg1, ms', resetState (procState seg ! (b - 1)))"
      "si_inv seg1 xs fs" "procState seg1 = (procState seg)[b - 1 := (procState seg ! (b - 1))\<lparr>resetState := False, limit := int (length xs)\<rparr>]"
      unfolding b by (elim retsE) auto
    from del_expired_inv [OF s1(2)] obtain seg2 k where s2: "SIDelExpiredDataEntries seg1 = Some seg2" "procState seg2 = map (lower_by k) (procState seg1)" by (elim retsE) auto
    have "seg2 = seg'" using r s1(1) s2(1) by (simp add: InvalidateSharedInvalid_def)
    moreover have "map ptag (procState seg2) = map ptag (procState seg)"
      using s2(2) s1(3) len l by (auto simp: lower_by_fields intro!: nth_equalityI simp: nth_list_update)
    ultimately show ?case using td tags_distinct_cong by blast
  qed
qed

text \<open>
  However backends join, read, leave and register messages after a segment is initialised, no two process states
  ever belong to the same backend tag.
\<close>

theorem sinval_tags_distinct:
  assumes "SISegInit mem = Some seg0" and "length (entries mem) = MAXNUMMESSAGES" and "length (procState mem) = MaxBackendId"
    and "si_step\<^sup>*\<^sup>* (seg0, [], \<lambda>_. 0) (seg, hist, seen)"
    and "i < j" and "j < MaxBackendId" and "ptag (procState seg ! i) = ptag (procState seg ! j)"
  shows "ptag (procState seg ! i) = InvalidBackendTag"
proof -
  have d0: "delivers seg0 [] (\<lambda>_. 0)" using delivers_init [OF assms(2,3)] assms(1) by simp
  have inv0: "si_inv seg0 [] [0..<MAXNUMMESSAGES]" "\<forall>s\<in>set (procState seg0). limit s = -1" using seg_init_inv [OF assms(2,3)] assms(1) by auto
  then have t0: "tags_distinct (procState seg0)" using si_invD(14) [OF inv0(1)] by (auto simp: tags_distinct_def)
  have "delivers (fst st) (fst (snd st)) (snd (snd st)) \<and> tags_distinct (procState (fst st))" if "si_step\<^sup>*\<^sup>* (seg0, [], \<lambda>_. 0) st" for st
    using that by (induction rule: rtranclp_induct) (use d0 t0 in \<open>auto intro: delivers_step tags_step\<close>)
  from this [OF assms(4)] show ?thesis using assms(5-7) by (auto simp: tags_distinct_def delivers_def si_inv_def)
qed

theorem sinval_tags_distinct_witness:
  "\<exists>seg0 seg1. SISegInit sample_mem = Some seg0 \<and> InitSharedInvalidationState seg0 7 = Some (seg1, 1) \<and> ptag (procState seg1 ! 1) \<noteq> 7"
proof -
  have len: "length (entries sample_mem) = MAXNUMMESSAGES" "length (procState sample_mem) = MaxBackendId" by (simp_all add: sample_mem_def)
  from seg_init_inv [OF len] obtain seg0 where s0: "SISegInit sample_mem = Some seg0" and inv: "si_inv seg0 [] [0..<MAXNUMMESSAGES]"
    and l: "\<forall>s\<in>set (procState seg0). limit s = -1" by (auto simp: rets_def)
  obtain seg1 where s1: "InitSharedInvalidationState seg0 7 = Some (seg1, 1)" using join_first [OF inv l] by blast
  have p1: "ptag (procState seg1 ! 0) = 7" using join_inv [OF inv s1] si_invD(3) [OF inv] by (auto simp: MaxBackendId_def)
  have "si_step\<^sup>*\<^sup>* (seg0, [], \<lambda>_. 0) (seg1, [], \<lambda>_. 0)" using si_step.join [OF s1, of "[]" "\<lambda>_. 0"] by (simp add: fun_upd_idem)
  from sinval_tags_distinct [OF s0 len this, of 0 1] p1 have "ptag (procState seg1 ! 1) \<noteq> 7" by (auto simp: InvalidBackendTag_def MaxBackendId_def)
  then show ?thesis using s0 s1 by blast
qed

end
