(* ===== verification/Posix.thy ===== *)
theory Posix
  imports Bytes
begin

text \<open>
  The system calls on files that the storage layer uses, as POSIX describes them: a directory from paths to
  inodes, the bytes of every inode, and the process's table of open files, each with its inode and position. The length of
  the table is the limit on open descriptors, \<open>disk_room\<close> the number of bytes by which files can still grow (what
  truncation gives back is not added to it). \<open>write\<close> stores as many bytes as there is room for and returns their number. A call returns -1 on error.
\<close>

record os =
  inodes :: "byte list list"
  names :: "string \<rightharpoonup> nat"
  ofiles :: "(nat \<times> int) option list"
  disk_room :: nat

definition O_RDWR :: uint32 where "O_RDWR = 2"
definition O_CREAT :: uint32 where "O_CREAT = 0x40"
definition O_EXCL :: uint32 where "O_EXCL = 0x80"
definition O_TRUNC :: uint32 where "O_TRUNC = 0x200"

datatype whence = SEEK_SET | SEEK_CUR | SEEK_END

definition sint32 :: "int \<Rightarrow> int" where "sint32 i = sint (of_int i :: 32 word)"
definition sint16 :: "int \<Rightarrow> int" where "sint16 i = sint (of_int i :: 16 word)"

definition free_descriptor :: "os \<Rightarrow> nat option" where
  "free_descriptor u = find (\<lambda>i. ofiles u ! i = None) [0..<length (ofiles u)]"

definition ofile :: "os \<Rightarrow> int \<Rightarrow> (nat \<times> int) option" where
  "ofile u fd = (if 0 \<le> fd \<and> fd < int (length (ofiles u)) then ofiles u ! nat fd else None)"

definition set_ofile :: "os \<Rightarrow> int \<Rightarrow> (nat \<times> int) option \<Rightarrow> os" where
  "set_ofile u fd e = u\<lparr>ofiles := (ofiles u)[nat fd := e]\<rparr>"

definition c_open :: "os \<Rightarrow> string \<Rightarrow> uint32 \<Rightarrow> os \<times> int" where
  "c_open u path fl = (case free_descriptor u of
     None \<Rightarrow> (u, -1)
   | Some d \<Rightarrow> (case names u path of
       Some i \<Rightarrow>
         if fl AND O_CREAT \<noteq> 0 \<and> fl AND O_EXCL \<noteq> 0 then (u, -1)
         else (set_ofile (if fl AND O_TRUNC \<noteq> 0 then u\<lparr>inodes := (inodes u)[i := []]\<rparr> else u) (int d) (Some (i, 0)), int d)
     | None \<Rightarrow>
         if fl AND O_CREAT \<noteq> 0
         then (set_ofile (u\<lparr>inodes := inodes u @ [[]], names := (names u)(path \<mapsto> length (inodes u))\<rparr>) (int d) (Some (length (inodes u), 0)), int d)
         else (u, -1)))"

definition c_close :: "os \<Rightarrow> int \<Rightarrow> os \<times> int" where
  "c_close u fd = (if ofile u fd = None then (u, -1) else (set_ofile u fd None, 0))"

definition c_lseek :: "os \<Rightarrow> int \<Rightarrow> int \<Rightarrow> whence \<Rightarrow> os \<times> int" where
  "c_lseek u fd off w = (case ofile u fd of
     None \<Rightarrow> (u, -1)
   | Some (i, pos) \<Rightarrow>
       let p = off + (case w of SEEK_SET \<Rightarrow> 0 | SEEK_CUR \<Rightarrow> pos | SEEK_END \<Rightarrow> int (length (inodes u ! i)))
       in if p < 0 then (u, -1) else (set_ofile u fd (Some (i, p)), p))"

definition c_read :: "os \<Rightarrow> int \<Rightarrow> nat \<Rightarrow> os \<times> int \<times> byte list" where
  "c_read u fd n = (case ofile u fd of
     None \<Rightarrow> (u, -1, [])
   | Some (i, pos) \<Rightarrow>
       let bs = rd (inodes u ! i) (nat pos) n in (set_ofile u fd (Some (i, pos + int (length bs))), int (length bs), bs))"

text \<open>The bytes of a file after a write at a position, which may lie behind its end.\<close>

definition file_put :: "byte list \<Rightarrow> nat \<Rightarrow> byte list \<Rightarrow> byte list" where
  "file_put c pos bs = take pos (c @ replicate (pos - length c) 0) @ bs @ drop (pos + length bs) c"

text \<open>How many of \<open>n\<close> bytes go into a file of length \<open>len\<close> at a position: as many as there is room for.\<close>

definition writable :: "nat \<Rightarrow> nat \<Rightarrow> nat \<Rightarrow> nat \<Rightarrow> nat" where
  "writable room len pos n = min n (len + room - pos)"

definition c_write :: "os \<Rightarrow> int \<Rightarrow> byte list \<Rightarrow> os \<times> int" where
  "c_write u fd bs = (case ofile u fd of
     None \<Rightarrow> (u, -1)
   | Some (i, pos) \<Rightarrow>
       let c = inodes u ! i; n = writable (disk_room u) (length c) (nat pos) (length bs)
       in if bs = [] then (u, 0)
          else if n = 0 then (u, -1)
          else (set_ofile (u\<lparr>inodes := (inodes u)[i := file_put c (nat pos) (take n bs)], disk_room := disk_room u - (nat pos + n - length c)\<rparr>) fd (Some (i, pos + int n)),
                int n))"

definition c_fsync :: "os \<Rightarrow> int \<Rightarrow> int" where
  "c_fsync u fd = (if ofile u fd = None then -1 else 0)"

definition c_ftruncate :: "os \<Rightarrow> int \<Rightarrow> int \<Rightarrow> os \<times> int" where
  "c_ftruncate u fd n = (case ofile u fd of
     None \<Rightarrow> (u, -1)
   | Some (i, pos) \<Rightarrow>
       if n < 0 then (u, -1)
       else let c = inodes u ! i in (u\<lparr>inodes := (inodes u)[i := take (nat n) (c @ replicate (nat n - length c) 0)]\<rparr>, 0))"

definition c_unlink :: "os \<Rightarrow> string \<Rightarrow> os \<times> int" where
  "c_unlink u path = (if names u path = None then (u, -1) else (u\<lparr>names := (names u)(path := None)\<rparr>, 0))"

subsection \<open>Facts\<close>

lemma sint32_id: "- (2 ^ 31) \<le> i \<Longrightarrow> i < 2 ^ 31 \<Longrightarrow> sint32 i = i"
proof -
  assume a: "- (2 ^ 31) \<le> i" "i < 2 ^ 31"
  have "sint32 i = signed_take_bit 31 i" unfolding sint32_def by transfer simp
  also have "\<dots> = i" using a by (intro signed_take_bit_int_eq_self) simp_all
  finally show ?thesis .
qed

lemma sint16_id: "- (2 ^ 15) \<le> i \<Longrightarrow> i < 2 ^ 15 \<Longrightarrow> sint16 i = i"
proof -
  assume a: "- (2 ^ 15) \<le> i" "i < 2 ^ 15"
  have "sint16 i = signed_take_bit 15 i" unfolding sint16_def by transfer simp
  also have "\<dots> = i" using a by (intro signed_take_bit_int_eq_self) simp_all
  finally show ?thesis .
qed

lemma sint32_wrap: "sint32 (2 ^ 31) = - (2 ^ 31)"
  by (simp add: sint32_def)

lemma free_descriptor_Some:
  assumes "free_descriptor u = Some d"
  shows "d < length (ofiles u)" and "ofiles u ! d = None"
  using assms by (auto simp: free_descriptor_def find_Some_iff)

lemma free_descriptor_None: "free_descriptor u = None \<longleftrightarrow> (\<forall>d<length (ofiles u). ofiles u ! d \<noteq> None)"
  by (auto simp: free_descriptor_def find_None_iff)

lemma set_ofile_simps [simp]:
  "inodes (set_ofile u fd e) = inodes u" "names (set_ofile u fd e) = names u" "disk_room (set_ofile u fd e) = disk_room u"
  "length (ofiles (set_ofile u fd e)) = length (ofiles u)"
  by (simp_all add: set_ofile_def)

lemma ofile_set_ofile: "0 \<le> fd \<Longrightarrow> fd < int (length (ofiles u)) \<Longrightarrow> ofile (set_ofile u fd e) k = (if k = fd then e else ofile u k)"
  by (auto simp: ofile_def set_ofile_def nth_list_update)

lemma ofile_inodes [simp]: "ofile (u\<lparr>inodes := v\<rparr>) k = ofile u k" "ofile (u\<lparr>names := w\<rparr>) k = ofile u k" "ofile (u\<lparr>disk_room := n\<rparr>) k = ofile u k"
  by (simp_all add: ofile_def)

lemma ofile_Some: "ofile u fd = Some e \<Longrightarrow> 0 \<le> fd \<and> fd < int (length (ofiles u))"
  by (simp add: ofile_def split: if_splits)

lemma set_ofile_same: "ofile u fd = Some e \<Longrightarrow> set_ofile u fd (Some e) = u"
proof -
  assume "ofile u fd = Some e"
  then have "ofiles u ! nat fd = Some e" by (simp add: ofile_def split: if_splits)
  then have "(ofiles u)[nat fd := Some e] = ofiles u" by (metis list_update_id)
  then show ?thesis by (simp add: set_ofile_def)
qed

lemma length_file_put: "length (file_put c p bs) = max (length c) (p + length bs)"
  by (simp add: file_put_def)

lemma file_put_inside: "p + length bs \<le> length c \<Longrightarrow> file_put c p bs = wr c p bs"
  by (simp add: file_put_def wr_def)

lemma file_put_end: "p = length c \<Longrightarrow> file_put c p bs = c @ bs"
  by (simp add: file_put_def)

lemma writable_all: "pos + n \<le> len + room \<Longrightarrow> writable room len pos n = n"
  by (simp add: writable_def)

lemma writable_end: "writable room len len n = min n room"
  by (simp add: writable_def)

end
