(* ===== verification/Fd.thy ===== *)
theory Fd
  imports Posix Ring
begin

text \<open>
  Virtual file descriptors, \<open>storage/file/fd.c\<close>: more files than the process may have open at a time. Every
  virtual file keeps its path, its flags and its position; the files that are open are linked in a ring, the least
  recently used one first, which is closed when a descriptor is needed and reopened on its next use. Element zero of
  \<open>VfdCache\<close> is the head of the ring and of the list of free elements; the length of the list is \<open>SizeVfdCache\<close>.

  \<open>None\<close> is a failed \<open>Assert\<close> (the code prints a message and goes on; the model does not follow such a run), \<open>elog(FATAL)\<close>, or an access outside the array. The static variables are fields of
  the state \<open>vfds\<close>, which holds the state of the operating system too; \<open>no_files\<close> is what \<open>sysconf\<close> reports.
\<close>

subsection \<open>Data\<close>

definition VFD_CLOSED :: int where "VFD_CLOSED = -1"
definition FD_DIRTY :: uint16 where "FD_DIRTY = 1"
definition RESERVE_FOR_LD :: int where "RESERVE_FOR_LD = 10"
definition FD_MINFREE :: int where "FD_MINFREE = 10"
definition Nulldev :: string where "Nulldev = ''/dev/null''"
definition Sep_char :: char where "Sep_char = CHR ''/''"

record Vfd =
  fd :: int
  fdstate :: uint16
  nextFree :: int
  lruMoreRecently :: int
  lruLessRecently :: int
  seekPos :: int
  fileName :: string
  fileFlags :: uint32
  fileMode :: int

record vfds =
  VfdCache :: "Vfd list"
  FreeFd :: int
  nfile :: int
  osRanOut :: bool
  allocatedFiles :: int
  no_files :: int
  fsyncOff :: bool
  DataDir :: string
  DatabaseName :: string
  sys :: os

definition zero_vfd :: Vfd where
  "zero_vfd = \<lparr>fd = 0, fdstate = 0, nextFree = 0, lruMoreRecently = 0, lruLessRecently = 0, seekPos = 0, fileName = [], fileFlags = 0, fileMode = 0\<rparr>"

text \<open>\<open>VfdCache[i]\<close>, read and written.\<close>

definition vfd_ok :: "vfds \<Rightarrow> int \<Rightarrow> bool" where
  "vfd_ok s i \<longleftrightarrow> 0 \<le> i \<and> i < int (length (VfdCache s))"

definition vfd_at :: "vfds \<Rightarrow> int \<Rightarrow> Vfd option" where
  "vfd_at s i = (if vfd_ok s i then Some (VfdCache s ! nat i) else None)"

definition put_vfd :: "vfds \<Rightarrow> int \<Rightarrow> (Vfd \<Rightarrow> Vfd) \<Rightarrow> vfds" where
  "put_vfd s i f = s\<lparr>VfdCache := (VfdCache s)[nat i := f (VfdCache s ! nat i)]\<rparr>"

definition vfd_upd :: "vfds \<Rightarrow> int \<Rightarrow> (Vfd \<Rightarrow> Vfd) \<Rightarrow> vfds option" where
  "vfd_upd s i f = (if vfd_ok s i then Some (put_vfd s i f) else None)"

definition pg_fsync :: "vfds \<Rightarrow> int \<Rightarrow> int" where
  "pg_fsync s d = (if fsyncOff s then 0 else c_fsync (sys s) d)"

definition pg_nofile :: "vfds \<Rightarrow> int option" where
  "pg_nofile s = (if no_files s - RESERVE_FOR_LD < FD_MINFREE then None else Some (no_files s - RESERVE_FOR_LD))"

definition FileIsNotOpen :: "vfds \<Rightarrow> int \<Rightarrow> bool option" where
  "FileIsNotOpen s file = map_option (\<lambda>p. fd p = VFD_CLOSED) (vfd_at s file)"

subsection \<open>The ring of open files\<close>

definition Delete :: "vfds \<Rightarrow> int \<Rightarrow> vfds option" where
  "Delete s file =
     (if file = 0 then None
      else do {
        p \<leftarrow> vfd_at s file;
        s \<leftarrow> vfd_upd s (lruLessRecently p) (\<lambda>x. x\<lparr>lruMoreRecently := lruMoreRecently p\<rparr>);
        p \<leftarrow> vfd_at s file;
        vfd_upd s (lruMoreRecently p) (\<lambda>x. x\<lparr>lruLessRecently := lruLessRecently p\<rparr>)
      })"

text \<open>Syncing a file that was written to; \<open>LruDelete\<close>, \<open>FileClose\<close> and \<open>FileUnlink\<close> have the same statements.\<close>

definition sync_dirty :: "vfds \<Rightarrow> int \<Rightarrow> vfds option" where
  "sync_dirty s file = do {
     p \<leftarrow> vfd_at s file;
     if fdstate p AND FD_DIRTY \<noteq> 0
     then if pg_fsync s (fd p) = -1 then None else vfd_upd s file (\<lambda>x. x\<lparr>fdstate := fdstate x AND NOT FD_DIRTY\<rparr>)
     else Some s
   }"

definition LruDelete :: "vfds \<Rightarrow> int \<Rightarrow> vfds option" where
  "LruDelete s file =
     (if file = 0 then None
      else do {
        s \<leftarrow> Delete s file;
        p \<leftarrow> vfd_at s file;
        (u, pos) \<leftarrow> Some (c_lseek (sys s) (fd p) 0 SEEK_CUR);
        s \<leftarrow> vfd_upd (s\<lparr>sys := u\<rparr>) file (\<lambda>x. x\<lparr>seekPos := pos\<rparr>);
        if pos = -1 then None
        else do {
          s \<leftarrow> sync_dirty s file;
          p \<leftarrow> vfd_at s file;
          (u, r) \<leftarrow> Some (c_close (sys s) (fd p));
          if r = -1 then None
          else do {
            s \<leftarrow> Some (s\<lparr>sys := u, nfile := nfile s - 1\<rparr>);
            s \<leftarrow> vfd_upd s file (\<lambda>x. x\<lparr>fd := VFD_CLOSED\<rparr>);
            Some (s\<lparr>FreeFd := FreeFd s + 1\<rparr>)
          }
        }
      })"

definition Insert :: "vfds \<Rightarrow> int \<Rightarrow> vfds option" where
  "Insert s file = do {
     s \<leftarrow> vfd_upd s file (\<lambda>x. x\<lparr>lruMoreRecently := 0\<rparr>);
     h \<leftarrow> vfd_at s 0;
     s \<leftarrow> vfd_upd s file (\<lambda>x. x\<lparr>lruLessRecently := lruLessRecently h\<rparr>);
     s \<leftarrow> vfd_upd s 0 (\<lambda>x. x\<lparr>lruLessRecently := file\<rparr>);
     p \<leftarrow> vfd_at s file;
     vfd_upd s (lruLessRecently p) (\<lambda>x. x\<lparr>lruMoreRecently := file\<rparr>)
   }"

definition AssertLruRoom :: "vfds \<Rightarrow> vfds option" where
  "AssertLruRoom s = do {
     full \<leftarrow> (if FreeFd s \<le> 0 then Some True else map_option (\<lambda>n. nfile s \<ge> n) (pg_nofile s));
     if full then do {
       h \<leftarrow> vfd_at s 0;
       if lruMoreRecently h = 0 then None else LruDelete s (lruMoreRecently h)
     } else Some s
   }"

text \<open>
  The loop at the label \<open>tryAgain\<close>: files are closed until the null device can be opened. \<open>fileNameOpenFile\<close> also
  remembers that the system ran out of descriptors.
\<close>

partial_function (option) try_again :: "bool \<Rightarrow> vfds \<Rightarrow> vfds option" where
  "try_again mark s = (case c_open (sys s) Nulldev (O_CREAT OR O_RDWR) of (u, tmpfd) \<Rightarrow>
     if tmpfd < 0 then do {
       s \<leftarrow> Some (s\<lparr>sys := u, FreeFd := 0\<rparr>);
       s \<leftarrow> Some (if mark then s\<lparr>osRanOut := True\<rparr> else s);
       s \<leftarrow> AssertLruRoom s;
       try_again mark s
     } else Some (s\<lparr>sys := fst (c_close u tmpfd)\<rparr>))"

declare try_again.simps [code]

definition LruInsert :: "vfds \<Rightarrow> int \<Rightarrow> (vfds \<times> int) option" where
  "LruInsert s file = do {
     closed \<leftarrow> FileIsNotOpen s file;
     (s, r) \<leftarrow>
       (if closed then do {
          s \<leftarrow> try_again False s;
          p \<leftarrow> vfd_at s file;
          (u, d) \<leftarrow> Some (c_open (sys s) (fileName p) (fileFlags p));
          s \<leftarrow> vfd_upd (s\<lparr>sys := u\<rparr>) file (\<lambda>x. x\<lparr>fd := sint16 d\<rparr>);
          p \<leftarrow> vfd_at s file;
          if fd p < 0 then Some (s, fd p)
          else do {
            s \<leftarrow> Some (s\<lparr>nfile := nfile s + 1\<rparr>);
            s \<leftarrow> (if seekPos p \<noteq> 0
                  then case c_lseek (sys s) (fd p) (seekPos p) SEEK_SET of (u, r) \<Rightarrow>
                    if sint32 r = -1 then None else Some (s\<lparr>sys := u\<rparr>)
                  else Some s);
            s \<leftarrow> vfd_upd s file (\<lambda>x. x\<lparr>fdstate := 0\<rparr>);
            Some (if FreeFd s > 0 then s\<lparr>FreeFd := FreeFd s - 1\<rparr> else s, 0)
          }
        } else Some (s, 0));
     if r < 0 then Some (s, r)
     else do {
       s \<leftarrow> Insert s file;
       Some (s, 0)
     }
   }"

subsection \<open>The elements of the array\<close>

text \<open>Element zero is not cleared when the array is made; the fields that are not set here are never used.\<close>

definition AllocateVfd :: "vfds \<Rightarrow> (vfds \<times> int) option" where
  "AllocateVfd s = do {
     s \<leftarrow> Some (if VfdCache s = [] then s\<lparr>VfdCache := [zero_vfd\<lparr>nextFree := 0, lruMoreRecently := 0, lruLessRecently := 0, fd := VFD_CLOSED, fdstate := 0\<rparr>]\<rparr>
                else s);
     h \<leftarrow> vfd_at s 0;
     s \<leftarrow> (if nextFree h = 0 then do {
             n \<leftarrow> Some (length (VfdCache s));
             s \<leftarrow> Some (s\<lparr>VfdCache := VfdCache s @ map (\<lambda>i. zero_vfd\<lparr>nextFree := int i + 1, fd := VFD_CLOSED\<rparr>) [n..<2 * n]\<rparr>);
             s \<leftarrow> vfd_upd s 0 (\<lambda>x. x\<lparr>nextFree := int n\<rparr>);
             vfd_upd s (2 * int n - 1) (\<lambda>x. x\<lparr>nextFree := 0\<rparr>)
           } else Some s);
     h \<leftarrow> vfd_at s 0;
     p \<leftarrow> vfd_at s (nextFree h);
     file \<leftarrow> Some (nextFree h);
     s \<leftarrow> vfd_upd s 0 (\<lambda>x. x\<lparr>nextFree := nextFree p\<rparr>);
     Some (s, file)
   }"

definition FreeVfd :: "vfds \<Rightarrow> int \<Rightarrow> vfds option" where
  "FreeVfd s file = do {
     h \<leftarrow> vfd_at s 0;
     s \<leftarrow> vfd_upd s file (\<lambda>x. x\<lparr>nextFree := nextFree h\<rparr>);
     vfd_upd s 0 (\<lambda>x. x\<lparr>nextFree := file\<rparr>)
   }"

definition filepath :: "vfds \<Rightarrow> string \<Rightarrow> string" where
  "filepath s filename =
     (if filename = [] \<or> hd filename \<noteq> Sep_char
      then DataDir s @ [Sep_char] @ ''base'' @ [Sep_char] @ DatabaseName s @ [Sep_char] @ filename
      else filename)"

definition FileAccess :: "vfds \<Rightarrow> int \<Rightarrow> (vfds \<times> int) option" where
  "FileAccess s file = do {
     closed \<leftarrow> FileIsNotOpen s file;
     if closed then do {
       s \<leftarrow> AssertLruRoom s;
       LruInsert s file
     } else do {
       s \<leftarrow> Delete s file;
       s \<leftarrow> Insert s file;
       Some (s, 0)
     }
   }"

definition FileInvalidate :: "vfds \<Rightarrow> int \<Rightarrow> vfds option" where
  "FileInvalidate s file =
     (if \<not> file > 0 then None
      else do {
        closed \<leftarrow> FileIsNotOpen s file;
        if \<not> closed then LruDelete s file else Some s
      })"

subsection \<open>Operations on files\<close>

definition fileNameOpenFile :: "vfds \<Rightarrow> string \<Rightarrow> uint32 \<Rightarrow> int \<Rightarrow> (vfds \<times> int) option" where
  "fileNameOpenFile s name fl mode = do {
     (s, file) \<leftarrow> AllocateVfd s;
     n \<leftarrow> pg_nofile s;
     s \<leftarrow> (if nfile s \<ge> n \<or> (FreeFd s = 0 \<and> osRanOut s) then AssertLruRoom s else Some s);
     s \<leftarrow> try_again True s;
     (u, d) \<leftarrow> Some (c_open (sys s) name fl);
     s \<leftarrow> vfd_upd (s\<lparr>sys := u\<rparr>) file (\<lambda>x. x\<lparr>fd := sint16 d, fdstate := 0\<rparr>);
     p \<leftarrow> vfd_at s file;
     if fd p < 0 then do {
       s \<leftarrow> FreeVfd s file;
       Some (s, -1)
     } else do {
       s \<leftarrow> Some (s\<lparr>nfile := nfile s + 1\<rparr>);
       (s, _) \<leftarrow> LruInsert s file;
       s \<leftarrow> vfd_upd s file (\<lambda>x. x\<lparr>fileName := name, fileFlags := fl AND NOT (O_TRUNC OR O_EXCL), fileMode := mode, seekPos := 0\<rparr>);
       Some (s, file)
     }
   }"

definition FileNameOpenFile :: "vfds \<Rightarrow> string \<Rightarrow> uint32 \<Rightarrow> int \<Rightarrow> (vfds \<times> int) option" where
  "FileNameOpenFile s name fl mode = fileNameOpenFile s (filepath s name) fl mode"

definition PathNameOpenFile :: "vfds \<Rightarrow> string \<Rightarrow> uint32 \<Rightarrow> int \<Rightarrow> (vfds \<times> int) option" where
  "PathNameOpenFile s name fl mode = fileNameOpenFile s name fl mode"

text \<open>The statements \<open>FileClose\<close> and \<open>FileUnlink\<close> begin with: the file is taken off the ring and closed, its element freed.\<close>

definition close_vfd :: "vfds \<Rightarrow> int \<Rightarrow> vfds option" where
  "close_vfd s file = do {
     closed \<leftarrow> FileIsNotOpen s file;
     s \<leftarrow> (if \<not> closed then do {
             s \<leftarrow> Delete s file;
             s \<leftarrow> Some (s\<lparr>FreeFd := FreeFd s + 1\<rparr>);
             s \<leftarrow> sync_dirty s file;
             p \<leftarrow> vfd_at s file;
             (u, r) \<leftarrow> Some (c_close (sys s) (fd p));
             if r = -1 then None
             else vfd_upd (s\<lparr>sys := u, nfile := nfile s - 1\<rparr>) file (\<lambda>x. x\<lparr>fd := VFD_CLOSED\<rparr>)
           } else Some s);
     FreeVfd s file
   }"

definition FileClose :: "vfds \<Rightarrow> int \<Rightarrow> vfds option" where
  "FileClose s file = close_vfd s file"

definition FileUnlink :: "vfds \<Rightarrow> int \<Rightarrow> vfds option" where
  "FileUnlink s file = do {
     s \<leftarrow> close_vfd s file;
     p \<leftarrow> vfd_at s file;
     Some (s\<lparr>sys := fst (c_unlink (sys s) (fileName p))\<rparr>)
   }"

text \<open>Reading returns the return code of \<open>read\<close> and the bytes it stores; what \<open>FileAccess\<close> returns is ignored by the code.\<close>

definition FileRead :: "vfds \<Rightarrow> int \<Rightarrow> nat \<Rightarrow> (vfds \<times> int \<times> byte list) option" where
  "FileRead s file amount = do {
     (s, _) \<leftarrow> FileAccess s file;
     p \<leftarrow> vfd_at s file;
     (u, returnCode, bs) \<leftarrow> Some (c_read (sys s) (fd p) amount);
     s \<leftarrow> Some (s\<lparr>sys := u\<rparr>);
     s \<leftarrow> (if returnCode > 0 then vfd_upd s file (\<lambda>x. x\<lparr>seekPos := seekPos x + returnCode\<rparr>) else Some s);
     Some (s, returnCode, bs)
   }"

definition FileWrite :: "vfds \<Rightarrow> int \<Rightarrow> byte list \<Rightarrow> (vfds \<times> int) option" where
  "FileWrite s file buffer = do {
     (s, _) \<leftarrow> FileAccess s file;
     p \<leftarrow> vfd_at s file;
     (u, returnCode) \<leftarrow> Some (c_write (sys s) (fd p) buffer);
     s \<leftarrow> Some (s\<lparr>sys := u\<rparr>);
     s \<leftarrow> (if returnCode > 0 then vfd_upd s file (\<lambda>x. x\<lparr>seekPos := seekPos x + returnCode\<rparr>) else Some s);
     s \<leftarrow> vfd_upd s file (\<lambda>x. x\<lparr>fdstate := fdstate x OR FD_DIRTY\<rparr>);
     Some (s, returnCode)
   }"

text \<open>\<open>lseek\<close> on the open file; the result passes through an \<open>int\<close>, the stored position does not.\<close>

definition seek_open :: "vfds \<Rightarrow> int \<Rightarrow> int \<Rightarrow> whence \<Rightarrow> (vfds \<times> int) option" where
  "seek_open s file offset w = do {
     p \<leftarrow> vfd_at s file;
     (u, pos) \<leftarrow> Some (c_lseek (sys s) (fd p) offset w);
     s \<leftarrow> vfd_upd (s\<lparr>sys := u\<rparr>) file (\<lambda>x. x\<lparr>seekPos := pos\<rparr>);
     Some (s, sint32 pos)
   }"

definition FileSeek :: "vfds \<Rightarrow> int \<Rightarrow> int \<Rightarrow> whence \<Rightarrow> (vfds \<times> int) option" where
  "FileSeek s file offset w = do {
     closed \<leftarrow> FileIsNotOpen s file;
     if closed then
       (case w of
          SEEK_SET \<Rightarrow> do {
            s \<leftarrow> vfd_upd s file (\<lambda>x. x\<lparr>seekPos := offset\<rparr>);
            Some (s, offset)
          }
        | SEEK_CUR \<Rightarrow> do {
            s \<leftarrow> vfd_upd s file (\<lambda>x. x\<lparr>seekPos := seekPos x + offset\<rparr>);
            p \<leftarrow> vfd_at s file;
            Some (s, seekPos p)
          }
        | SEEK_END \<Rightarrow> do {
            (s, _) \<leftarrow> FileAccess s file;
            seek_open s file offset w
          })
     else seek_open s file offset w
   }"

definition FileTell :: "vfds \<Rightarrow> int \<Rightarrow> int option" where
  "FileTell s file = map_option seekPos (vfd_at s file)"

definition FileSync :: "vfds \<Rightarrow> int \<Rightarrow> (vfds \<times> int) option" where
  "FileSync s file = do {
     p \<leftarrow> vfd_at s file;
     if fd p < 0 \<or> fdstate p AND FD_DIRTY = 0 then Some (s, 0)
     else do {
       s' \<leftarrow> vfd_upd s file (\<lambda>x. x\<lparr>fdstate := fdstate x AND NOT FD_DIRTY\<rparr>);
       Some (s', pg_fsync s (fd p))
     }
   }"

definition FileTruncate :: "vfds \<Rightarrow> int \<Rightarrow> int \<Rightarrow> (vfds \<times> int) option" where
  "FileTruncate s file offset = do {
     (s, _) \<leftarrow> FileSync s file;
     (s, _) \<leftarrow> FileAccess s file;
     p \<leftarrow> vfd_at s file;
     (u, r) \<leftarrow> Some (c_ftruncate (sys s) (fd p) offset);
     Some (s\<lparr>sys := u\<rparr>, r)
   }"

definition FileNameUnlink :: "vfds \<Rightarrow> string \<Rightarrow> vfds \<times> int" where
  "FileNameUnlink s filename = (case c_unlink (sys s) (filepath s filename) of (u, r) \<Rightarrow> (s\<lparr>sys := u\<rparr>, r))"

text \<open>
  The loop of \<open>AllocateFile\<close>. \<open>errno\<close> is \<open>EMFILE\<close> when no descriptor is free; any other error is reported and the call tried again.
\<close>

partial_function (option) allocate_loop :: "vfds \<Rightarrow> vfds option" where
  "allocate_loop s = (case c_open (sys s) Nulldev 1 of (u, d) \<Rightarrow>
     if d < 0 then
       if free_descriptor (sys s) = None then do {
         s \<leftarrow> AssertLruRoom (s\<lparr>sys := u, FreeFd := 0\<rparr>);
         allocate_loop s
       } else allocate_loop (s\<lparr>sys := u\<rparr>)
     else Some (s\<lparr>sys := fst (c_close u d)\<rparr>))"

declare allocate_loop.simps [code]

definition AllocateFile :: "vfds \<Rightarrow> vfds option" where
  "AllocateFile s = do {
     s \<leftarrow> allocate_loop s;
     s \<leftarrow> Some (s\<lparr>allocatedFiles := allocatedFiles s + 1\<rparr>);
     _ \<leftarrow> pg_nofile s;
     Some s
   }"

definition FreeFile :: "vfds \<Rightarrow> vfds option" where
  "FreeFile s =
     (if allocatedFiles s > 0 then Some (s\<lparr>FreeFd := FreeFd s + 1, nfile := nfile s + 1, allocatedFiles := allocatedFiles s - 1\<rparr>) else None)"

definition closeAllVfds :: "vfds \<Rightarrow> vfds option" where
  "closeAllVfds s = do {
     closed \<leftarrow> FileIsNotOpen s 0;
     if \<not> closed then None
     else for_loop 1 (length (VfdCache s)) (\<lambda>i s. do {
       closed \<leftarrow> FileIsNotOpen s (int i);
       if \<not> closed then LruDelete s (int i) else Some s
     }) s
   }"

definition closeOneVfd :: "vfds \<Rightarrow> vfds option" where
  "closeOneVfd s = (case c_open (sys s) Nulldev (O_CREAT OR O_RDWR) of (u, tmpfd) \<Rightarrow>
     if tmpfd < 0 then do {
       s \<leftarrow> AssertLruRoom (s\<lparr>sys := u, FreeFd := 0\<rparr>);
       Some (s\<lparr>FreeFd := 0\<rparr>)
     } else Some (s\<lparr>sys := fst (c_close u tmpfd)\<rparr>))"

end
