(* ===== verification/Fd_Inv.thy ===== *)
theory Fd_Inv
  imports Fd
begin

text \<open>
  The invariant of the virtual files: the ring holds exactly the files that are open in the operating system, each at the position
  the element records, the free elements form a chain, and every other element names an existing file, so that it can be
  reopened. Closing the least recently used file and reopening it later leave what the elements stand for unchanged.
\<close>

definition V :: "vfds \<Rightarrow> int \<Rightarrow> Vfd" where
  "V s k = VfdCache s ! nat k"

lemma V_put [simp]: "vfd_ok s a \<Longrightarrow> vfd_ok s k \<Longrightarrow> V (put_vfd s a f) k = (if k = a then f (V s a) else V s k)"
  by (auto simp: V_def put_vfd_def vfd_ok_def nth_list_update)

lemma put_vfd_simps [simp]:
  "vfd_ok (put_vfd s a f) k = vfd_ok s k" "length (VfdCache (put_vfd s a f)) = length (VfdCache s)"
  "FreeFd (put_vfd s a f) = FreeFd s" "nfile (put_vfd s a f) = nfile s" "no_files (put_vfd s a f) = no_files s" "sys (put_vfd s a f) = sys s"
  "fsyncOff (put_vfd s a f) = fsyncOff s" "osRanOut (put_vfd s a f) = osRanOut s" "DataDir (put_vfd s a f) = DataDir s" "DatabaseName (put_vfd s a f) = DatabaseName s"
  by (simp_all add: put_vfd_def vfd_ok_def)

lemma put_vfd_comm:
  "put_vfd s a f\<lparr>sys := u\<rparr> = put_vfd (s\<lparr>sys := u\<rparr>) a f" "put_vfd s a f\<lparr>nfile := n\<rparr> = put_vfd (s\<lparr>nfile := n\<rparr>) a f" "put_vfd s a f\<lparr>FreeFd := n\<rparr> = put_vfd (s\<lparr>FreeFd := n\<rparr>) a f"
  by (simp_all add: put_vfd_def)

lemma put_vfd_twice: "vfd_ok s a \<Longrightarrow> put_vfd (put_vfd s a f) a g = put_vfd s a (\<lambda>q. g (f q))"
  by (simp add: put_vfd_def vfd_ok_def nat_less_iff)

lemma V_fields [simp]:
  "V (s\<lparr>sys := u\<rparr>) k = V s k" "V (s\<lparr>nfile := n\<rparr>) k = V s k" "V (s\<lparr>FreeFd := n\<rparr>) k = V s k" "V (s\<lparr>osRanOut := b\<rparr>) k = V s k"
  "vfd_ok (s\<lparr>sys := u\<rparr>) k = vfd_ok s k" "vfd_ok (s\<lparr>nfile := n\<rparr>) k = vfd_ok s k" "vfd_ok (s\<lparr>FreeFd := n\<rparr>) k = vfd_ok s k" "vfd_ok (s\<lparr>osRanOut := b\<rparr>) k = vfd_ok s k"
  by (simp_all add: V_def vfd_ok_def)

lemma vfd_at_ok [simp]: "vfd_ok s k \<Longrightarrow> vfd_at s k = Some (V s k)"
  by (simp add: vfd_at_def V_def)

lemma vfd_upd_ok [simp]: "vfd_ok s k \<Longrightarrow> vfd_upd s k f = Some (put_vfd s k f)"
  by (simp add: vfd_upd_def)

interpretation lru: link_store "\<lambda>s k. lruMoreRecently (V s k)" "\<lambda>s k. lruLessRecently (V s k)"
  "\<lambda>s k v. put_vfd s k (\<lambda>x. x\<lparr>lruMoreRecently := v\<rparr>)" "\<lambda>s k v. put_vfd s k (\<lambda>x. x\<lparr>lruLessRecently := v\<rparr>)" vfd_ok
  by unfold_locales auto

subsection \<open>What the files stand for\<close>

text \<open>\<open>same_files\<close>: the two states have the same files, whichever of them are open.\<close>

definition file_part :: "Vfd \<Rightarrow> int \<times> int \<times> string \<times> uint32 \<times> int" where
  "file_part p = (nextFree p, seekPos p, fileName p, fileFlags p, fileMode p)"

definition same_files :: "vfds \<Rightarrow> vfds \<Rightarrow> bool" where
  "same_files s t \<longleftrightarrow> length (VfdCache t) = length (VfdCache s) \<and> (\<forall>i. vfd_ok s i \<longrightarrow> file_part (V t i) = file_part (V s i)) \<and>
     names (sys t) = names (sys s) \<and> inodes (sys t) = inodes (sys s) \<and> disk_room (sys t) = disk_room (sys s) \<and>
     length (ofiles (sys t)) = length (ofiles (sys s)) \<and>
     no_files t = no_files s \<and> fsyncOff t = fsyncOff s \<and> DataDir t = DataDir s \<and> DatabaseName t = DatabaseName s"

lemma same_files_refl [simp]: "same_files s s"
  by (simp add: same_files_def)

lemma same_files_trans [trans]: "same_files s t \<Longrightarrow> same_files t u \<Longrightarrow> same_files s u"
  by (simp add: same_files_def vfd_ok_def)

lemma same_files_ok: "same_files s t \<Longrightarrow> vfd_ok t i = vfd_ok s i"
  by (simp add: same_files_def vfd_ok_def)

lemma same_files_part:
  assumes "same_files s t" and "vfd_ok s i"
  shows "nextFree (V t i) = nextFree (V s i)" "seekPos (V t i) = seekPos (V s i)" "fileName (V t i) = fileName (V s i)" "fileFlags (V t i) = fileFlags (V s i)"
  using assms by (auto simp: same_files_def file_part_def)

text \<open>The links of the ring are of no concern to the rest.\<close>

definition vcore :: "Vfd \<Rightarrow> Vfd" where
  "vcore p = p\<lparr>lruMoreRecently := 0, lruLessRecently := 0\<rparr>"

lemma vcore_simps [simp]: "vcore (p\<lparr>lruMoreRecently := v\<rparr>) = vcore p" "vcore (p\<lparr>lruLessRecently := v\<rparr>) = vcore p"
  by (simp_all add: vcore_def)

lemma vcore_fields:
  assumes "vcore p = vcore q"
  shows "fd p = fd q" "fdstate p = fdstate q" "file_part p = file_part q" "seekPos p = seekPos q" "fileName p = fileName q" "fileFlags p = fileFlags q" "nextFree p = nextFree q" "fileMode p = fileMode q"
  using assms by (cases p; cases q; simp add: vcore_def file_part_def)+

subsection \<open>The invariant\<close>

primrec free_chain :: "vfds \<Rightarrow> int \<Rightarrow> int list \<Rightarrow> bool" where
  "free_chain s i [] \<longleftrightarrow> nextFree (V s i) = 0"
| "free_chain s i (x # fs) \<longleftrightarrow> nextFree (V s i) = x \<and> free_chain s x fs"

definition os_ok :: "os \<Rightarrow> bool" where
  "os_ok u \<longleftrightarrow> length (ofiles u) \<le> 32768 \<and> names u Nulldev \<noteq> None \<and> (\<forall>path i. names u path = Some i \<longrightarrow> i < length (inodes u))"

definition vfile_ok :: "os \<Rightarrow> Vfd \<Rightarrow> bool" where
  "vfile_ok u p \<longleftrightarrow> 0 \<le> seekPos p \<and> seekPos p \<le> 2 ^ 31 \<and> fileFlags p AND O_EXCL = 0 \<and> fileFlags p AND O_TRUNC = 0 \<and>
     (\<exists>ino. names u (fileName p) = Some ino \<and> (fd p = -1 \<or> 0 \<le> fd p \<and> ofile u (fd p) = Some (ino, seekPos p)))"

text \<open>\<open>xs\<close> are the open files, least recently used first, \<open>fs\<close> the elements that are no files; those that are free are chained from element zero.\<close>

definition fd_inv :: "vfds \<Rightarrow> int list \<Rightarrow> int list \<Rightarrow> bool" where
  "fd_inv s xs fs \<longleftrightarrow> vfd_ok s 0 \<and> lru.ring s 0 xs \<and> distinct (0 # fs) \<and> (\<forall>i\<in>set fs. vfd_ok s i \<and> i \<notin> set xs) \<and>
     (\<forall>i. vfd_ok s i \<and> i \<noteq> 0 \<and> i \<notin> set fs \<longrightarrow> vfile_ok (sys s) (V s i)) \<and>
     (\<forall>i. vfd_ok s i \<longrightarrow> (fd (V s i) = -1 \<longleftrightarrow> i \<notin> set xs)) \<and> inj_on (\<lambda>i. fd (V s i)) (set xs) \<and>
     nfile s = int (length xs) \<and> nfile s \<le> no_files s - 10 \<and> 20 \<le> no_files s \<and> os_ok (sys s) \<and> 0 \<le> FreeFd s"

lemma fd_invD:
  assumes "fd_inv s xs fs"
  shows "vfd_ok s 0" and "lru.ring s 0 xs" and "distinct (0 # fs)" and "\<And>i. i \<in> set fs \<Longrightarrow> vfd_ok s i \<and> i \<notin> set xs" and "\<And>i. i \<in> set fs \<Longrightarrow> i \<noteq> 0"
    and "\<And>i. vfd_ok s i \<Longrightarrow> i \<noteq> 0 \<Longrightarrow> i \<notin> set fs \<Longrightarrow> vfile_ok (sys s) (V s i)"
    and "\<And>i. vfd_ok s i \<Longrightarrow> fd (V s i) = -1 \<longleftrightarrow> i \<notin> set xs" and "inj_on (\<lambda>i. fd (V s i)) (set xs)"
    and "nfile s = int (length xs)" and "nfile s \<le> no_files s - 10" and "20 \<le> no_files s" and "os_ok (sys s)"
    and "\<And>i. i \<in> set xs \<Longrightarrow> vfd_ok s i \<and> i \<noteq> 0 \<and> i \<notin> set fs" and "distinct xs" and "0 \<le> FreeFd s"
  using assms by (auto simp: fd_inv_def lru.ring_def)

lemma free_chain_cong:
  assumes "free_chain s i fs" and "\<And>k. k \<in> set (i # fs) \<Longrightarrow> nextFree (V t k) = nextFree (V s k)"
  shows "free_chain t i fs"
  using assms by (induction fs arbitrary: i) auto

lemma free_chain_same:
  assumes "free_chain s i fs" and "same_files s t" and "\<And>k. k \<in> set (i # fs) \<Longrightarrow> vfd_ok s k"
  shows "free_chain t i fs"
  using free_chain_cong [OF assms(1), of t] same_files_part(1) [OF assms(2) assms(3)] by auto

lemma open_file:
  assumes inv: "fd_inv s xs fs" and x: "x \<in> set xs"
  shows "vfd_ok s x" and "x \<noteq> 0" and "0 \<le> fd (V s x)"
    and "\<exists>ino. names (sys s) (fileName (V s x)) = Some ino \<and> ofile (sys s) (fd (V s x)) = Some (ino, seekPos (V s x))"
  using fd_invD(13) [OF inv x] fd_invD(6) [OF inv, of x] fd_invD(7) [OF inv, of x] x by (auto simp: vfile_ok_def)

subsection \<open>Unlinking and linking\<close>

definition relinked :: "vfds \<Rightarrow> vfds \<Rightarrow> bool" where
  "relinked s t \<longleftrightarrow> t = s\<lparr>VfdCache := VfdCache t\<rparr> \<and> length (VfdCache t) = length (VfdCache s) \<and> (\<forall>i. vfd_ok s i \<longrightarrow> vcore (V t i) = vcore (V s i))"

lemma relinked_put:
  assumes "relinked s t" and "vfd_ok s a" and "\<And>p. vcore (f p) = vcore p"
  shows "relinked s (put_vfd t a f)"
proof -
  obtain v where v: "t = s\<lparr>VfdCache := v\<rparr>" using assms(1) by (auto simp: relinked_def)
  then show ?thesis using assms by (auto simp: relinked_def put_vfd_def V_def vfd_ok_def nth_list_update)
qed

lemma vfd_relinked_refl [simp]: "relinked s s"
  by (simp add: relinked_def)

lemma relinked_ok: "relinked s t \<Longrightarrow> vfd_ok t i = vfd_ok s i"
  by (simp add: relinked_def vfd_ok_def)

lemma relinked_fields:
  assumes "relinked s t"
  shows "sys t = sys s" "nfile t = nfile s" "FreeFd t = FreeFd s" "no_files t = no_files s" "fsyncOff t = fsyncOff s" "osRanOut t = osRanOut s" "DataDir t = DataDir s" "DatabaseName t = DatabaseName s"
proof -
  obtain v where "t = s\<lparr>VfdCache := v\<rparr>" using assms by (auto simp: relinked_def)
  then show "sys t = sys s" "nfile t = nfile s" "FreeFd t = FreeFd s" "no_files t = no_files s" "fsyncOff t = fsyncOff s" "osRanOut t = osRanOut s" "DataDir t = DataDir s" "DatabaseName t = DatabaseName s"
    by simp_all
qed

lemma relinked_same: "relinked s t \<Longrightarrow> same_files s t"
  using relinked_fields [of s t] by (auto simp: same_files_def relinked_def dest: vcore_fields(3))

lemma relinked_V:
  assumes "relinked s t" and "vfd_ok s i"
  shows "fd (V t i) = fd (V s i)" "fdstate (V t i) = fdstate (V s i)" "seekPos (V t i) = seekPos (V s i)" "fileName (V t i) = fileName (V s i)"
    "fileFlags (V t i) = fileFlags (V s i)" "nextFree (V t i) = nextFree (V s i)" "fileMode (V t i) = fileMode (V s i)"
  using assms by (auto simp: relinked_def dest: vcore_fields)

lemma lru_delete_ring:
  assumes "lru.ring s 0 (as @ x # bs)"
  shows "rets (Delete s x) (\<lambda>t. lru.ring t 0 (as @ bs) \<and> relinked s t)"
proof -
  let ?l = "lruLessRecently (V s x)" and ?m = "lruMoreRecently (V s x)"
  have nb: "?l = last (0 # as)" "?m = hd (bs @ [0])" using lru.ring_neighbours [OF assms] by simp_all
  have d: "distinct (0 # as @ x # bs)" using assms by (auto simp: lru.ring_def)
  have mem: "?l \<in> set (0 # as)" "?m \<in> set (bs @ [0])" unfolding nb by (rule last_in_set hd_in_set, simp)+
  have ok: "vfd_ok s ?l" "vfd_ok s ?m" "vfd_ok s x" using lru.ring_valid [OF assms] mem by auto
  have ne: "?l \<noteq> x" "?m \<noteq> x" "x \<noteq> 0" using d mem by auto
  let ?t1 = "put_vfd s ?l (\<lambda>p. p\<lparr>lruMoreRecently := ?m\<rparr>)"
  let ?t = "put_vfd ?t1 ?m (\<lambda>p. p\<lparr>lruLessRecently := ?l\<rparr>)"
  have "Delete s x = Some ?t" using ok ne by (simp add: Delete_def)
  moreover have "lru.ring ?t 0 (as @ bs)"
    by (rule lru.ring_unlink [OF assms refl refl]) (use lru.ring_valid [OF assms] ok in \<open>auto split: if_splits\<close>)
  moreover have "relinked s ?t" using ok by (intro relinked_put) simp_all
  ultimately show ?thesis by simp
qed

lemma lru_insert_ring:
  assumes r: "lru.ring s 0 xs" and x: "vfd_ok s x" "x \<noteq> 0" "x \<notin> set xs"
  shows "rets (Insert s x) (\<lambda>t. lru.ring t 0 (xs @ [x]) \<and> relinked s t)"
proof -
  let ?l = "lruLessRecently (V s 0)"
  have l: "?l = last (0 # xs)" using lru.ring_first [OF r] by simp
  have mem: "?l \<in> set (0 # xs)" unfolding l by (rule last_in_set) simp
  have ok: "vfd_ok s ?l" "vfd_ok s 0" using lru.ring_valid [OF r] mem by auto
  have ne: "?l \<noteq> x" using mem x by auto
  let ?t1 = "put_vfd (put_vfd s x (\<lambda>p. p\<lparr>lruMoreRecently := 0\<rparr>)) x (\<lambda>p. p\<lparr>lruLessRecently := ?l\<rparr>)"
  let ?t2 = "put_vfd ?t1 0 (\<lambda>p. p\<lparr>lruLessRecently := x\<rparr>)"
  let ?t = "put_vfd ?t2 ?l (\<lambda>p. p\<lparr>lruMoreRecently := x\<rparr>)"
  have "Insert s x = Some ?t" using ok x ne by (simp add: Insert_def)
  moreover have "lru.ring ?t 0 (xs @ [x])"
    by (rule lru.ring_link [where s = s and bs = "[]" and p = ?l and n = 0]) (use r x l ok ne lru.ring_valid [OF r] in auto)
  moreover have "relinked s ?t" using ok x by (intro relinked_put) simp_all
  ultimately show ?thesis by simp
qed

subsection \<open>Closing a file to make room\<close>

text \<open>Changing one element and the table of open files.\<close>

lemma fd_inv_frame:
  assumes inv: "fd_inv s xs fs" and same: "same_files s t" and r: "lru.ring t 0 ys"
    and ys: "set ys \<subseteq> {i. vfd_ok s i \<and> i \<noteq> 0 \<and> i \<notin> set fs}"
    and fdv: "\<And>i. vfd_ok s i \<Longrightarrow> fd (V t i) = -1 \<longleftrightarrow> i \<notin> set ys" and inj: "inj_on (\<lambda>i. fd (V t i)) (set ys)"
    and ofs: "\<And>i. i \<in> set ys \<Longrightarrow> 0 \<le> fd (V t i) \<and> ofile (sys t) (fd (V t i)) = Some (the (names (sys s) (fileName (V s i))), seekPos (V s i))"
    and n: "nfile t = int (length ys)" "nfile t \<le> no_files s - 10" "0 \<le> FreeFd t"
  shows "fd_inv t ys fs"
proof -
  note d = fd_invD [OF inv]
  note ok = same_files_ok [OF same] and part = same_files_part [OF same]
  have "vfile_ok (sys t) (V t i)" if "vfd_ok s i" "i \<noteq> 0" "i \<notin> set fs" for i
    using d(6) [OF that] part [OF that(1)] fdv [OF that(1)] ofs [of i] same by (auto simp: vfile_ok_def same_files_def)
  moreover have "os_ok (sys t)" using d(12) same by (simp add: os_ok_def same_files_def)
  ultimately show ?thesis using d r inj n fdv ok ys same by (auto simp: fd_inv_def same_files_def)
qed

text \<open>A file is closed: off the ring, its descriptor given back, all else as it was.\<close>

definition closed_file :: "vfds \<Rightarrow> int \<Rightarrow> vfds \<Rightarrow> vfds \<Rightarrow> bool" where
  "closed_file s x t0 t \<longleftrightarrow> length (VfdCache t) = length (VfdCache s) \<and>
     (\<forall>i. vfd_ok s i \<longrightarrow> fd (V t i) = (if i = x then -1 else fd (V s i)) \<and> file_part (V t i) = file_part (V s i) \<and>
        lruMoreRecently (V t i) = lruMoreRecently (V t0 i) \<and> lruLessRecently (V t i) = lruLessRecently (V t0 i)) \<and>
     sys t = set_ofile (sys s) (fd (V s x)) None \<and> nfile t = nfile s - 1 \<and> FreeFd t = FreeFd s + 1 \<and> osRanOut t = osRanOut s \<and> no_files t = no_files s \<and>
     fsyncOff t = fsyncOff s \<and> DataDir t = DataDir s \<and> DatabaseName t = DatabaseName s"

lemma closed_file_inv:
  assumes inv: "fd_inv s (as @ x # bs) fs" and t0: "lru.ring t0 0 (as @ bs)" "relinked s t0" and t: "closed_file s x t0 t"
  shows "fd_inv t (as @ bs) fs" and "same_files s t" and "ofile (sys t) (fd (V s x)) = None" and "fd (V s x) < int (length (ofiles (sys t)))"
proof -
  note d = fd_invD [OF inv]
  have dist: "distinct (as @ x # bs)" by (rule d(14))
  have x: "0 \<le> fd (V s x)" "fd (V s x) < int (length (ofiles (sys s)))" using open_file [OF inv, of x] ofile_Some by auto
  have tV: "fd (V t i) = (if i = x then -1 else fd (V s i))" "lruMoreRecently (V t i) = lruMoreRecently (V t0 i)" "lruLessRecently (V t i) = lruLessRecently (V t0 i)"
    if "vfd_ok s i" for i using t that by (simp_all add: closed_file_def)
  have sys: "sys t = set_ofile (sys s) (fd (V s x)) None" using t by (simp add: closed_file_def)
  show same: "same_files s t" using t by (simp add: same_files_def closed_file_def)
  show "ofile (sys t) (fd (V s x)) = None" "fd (V s x) < int (length (ofiles (sys t)))" using x sys by (simp_all add: ofile_set_ofile)
  show "fd_inv t (as @ bs) fs"
  proof (rule fd_inv_frame [OF inv same])
    have "lru.ring t 0 (as @ bs) = lru.ring t0 0 (as @ bs)"
      by (rule lru.ring_cong) (use tV d(1,13) same_files_ok [OF same] relinked_ok [OF t0(2)] in auto)
    then show "lru.ring t 0 (as @ bs)" using t0(1) by simp
    show "set (as @ bs) \<subseteq> {i. vfd_ok s i \<and> i \<noteq> 0 \<and> i \<notin> set fs}" using d(13) by auto
    show "fd (V t i) = -1 \<longleftrightarrow> i \<notin> set (as @ bs)" if "vfd_ok s i" for i using tV(1) [OF that] d(7) [OF that] dist by auto
    show "inj_on (\<lambda>i. fd (V t i)) (set (as @ bs))" using d(8,13) tV(1) dist by (auto simp: inj_on_def)
    show "0 \<le> fd (V t i) \<and> ofile (sys t) (fd (V t i)) = Some (the (names (sys s) (fileName (V s i))), seekPos (V s i))" if "i \<in> set (as @ bs)" for i
    proof -
      have i: "i \<in> set (as @ x # bs)" "i \<noteq> x" using that dist by auto
      have "fd (V s i) \<noteq> fd (V s x)" using d(8) i by (auto simp: inj_on_def)
      then show ?thesis using open_file [OF inv i(1)] tV(1) i(2) x sys by (auto simp: ofile_set_ofile)
    qed
    show "nfile t = int (length (as @ bs))" "nfile t \<le> no_files s - 10" "0 \<le> FreeFd t" using d(9,10,15) t by (simp_all add: closed_file_def)
  qed
qed

lemma sync_dirty_eq:
  assumes "vfd_ok s x" and "ofile (sys s) (fd (V s x)) \<noteq> None"
  shows "sync_dirty s x = Some (if fdstate (V s x) AND FD_DIRTY \<noteq> 0 then put_vfd s x (\<lambda>p. p\<lparr>fdstate := fdstate p AND NOT FD_DIRTY\<rparr>) else s)"
  using assms by (auto simp: sync_dirty_def pg_fsync_def c_fsync_def)

lemma lru_delete_inv:
  assumes inv: "fd_inv s (as @ x # bs) fs"
  shows "rets (LruDelete s x) (\<lambda>t. fd_inv t (as @ bs) fs \<and> same_files s t \<and> FreeFd t = FreeFd s + 1 \<and> osRanOut t = osRanOut s \<and>
    ofile (sys t) (fd (V s x)) = None \<and> fd (V s x) < int (length (ofiles (sys t))))"
proof -
  note d = fd_invD [OF inv]
  obtain ino where x: "vfd_ok s x" "x \<noteq> 0" "0 \<le> fd (V s x)" "ofile (sys s) (fd (V s x)) = Some (ino, seekPos (V s x))" using open_file [OF inv, of x] by auto
  have pos: "0 \<le> seekPos (V s x)" using d(6) [of x] x d(13) [of x] by (auto simp: vfile_ok_def)
  obtain t0 where t0: "Delete s x = Some t0" "lru.ring t0 0 (as @ bs)" "relinked s t0" using lru_delete_ring [OF d(2)] by (elim retsE) auto
  note rl = relinked_ok [OF t0(3)] relinked_fields [OF t0(3)] relinked_V [OF t0(3)]
  have sk: "c_lseek (sys t0) (fd (V t0 x)) 0 SEEK_CUR = (sys s, seekPos (V s x))" using rl x pos by (simp add: c_lseek_def set_ofile_same)
  let ?t1 = "put_vfd t0 x (\<lambda>p. p\<lparr>seekPos := seekPos (V s x)\<rparr>)"
  have t0s: "t0\<lparr>sys := sys s\<rparr> = t0" using rl(2) by simp
  obtain t2 where t2: "sync_dirty ?t1 x = Some t2" "t2 = (if fdstate (V s x) AND FD_DIRTY \<noteq> 0 then put_vfd ?t1 x (\<lambda>p. p\<lparr>fdstate := fdstate p AND NOT FD_DIRTY\<rparr>) else ?t1)"
    using sync_dirty_eq [of ?t1 x] rl x by simp
  have cl: "c_close (sys t2) (fd (V t2 x)) = (set_ofile (sys s) (fd (V s x)) None, 0)" "vfd_ok t2 i = vfd_ok s i" "FreeFd t2 = FreeFd s" for i
    using t2(2) rl x by (auto simp: c_close_def)
  let ?t = "put_vfd (t2\<lparr>sys := set_ofile (sys s) (fd (V s x)) None, nfile := nfile t2 - 1\<rparr>) x (\<lambda>p. p\<lparr>fd := VFD_CLOSED\<rparr>)\<lparr>FreeFd := FreeFd s + 1\<rparr>"
  have eq: "LruDelete s x = Some ?t"
    using x(1,2) t0(1) rl(1,4) sk t2(1) cl t0s pos by (simp add: LruDelete_def)
  have "closed_file s x t0 ?t"
    unfolding closed_file_def using t2(2) rl x(1) t0(3) by (simp add: relinked_def file_part_def VFD_CLOSED_def)
  from closed_file_inv [OF inv t0(2,3) this] show ?thesis using eq t2(2) rl by simp
qed

lemma nofile_inv: "fd_inv s xs fs \<Longrightarrow> pg_nofile s = Some (no_files s - 10)"
  using fd_invD(11) [of s xs fs] by (simp add: pg_nofile_def RESERVE_FOR_LD_def FD_MINFREE_def)

lemma first_open:
  assumes "fd_inv s xs fs"
  shows "lruMoreRecently (V s 0) = hd (xs @ [0])" and "lruMoreRecently (V s 0) = 0 \<longleftrightarrow> xs = []"
  using lru.ring_first [OF fd_invD(2) [OF assms]] lru.ring_empty_iff [OF fd_invD(2) [OF assms]] by auto

lemma free_descriptor_ofile: "ofile u k = None \<Longrightarrow> 0 \<le> k \<Longrightarrow> k < int (length (ofiles u)) \<Longrightarrow> free_descriptor u \<noteq> None"
  by (auto simp: free_descriptor_None ofile_def intro!: exI [of _ "nat k"])

lemma assert_room_inv:
  assumes inv: "fd_inv s xs fs" and av: "xs \<noteq> [] \<or> 0 < FreeFd s"
  shows "rets (AssertLruRoom s) (\<lambda>t. \<exists>ys. fd_inv t ys fs \<and> same_files s t \<and> osRanOut t = osRanOut s \<and> nfile t < no_files s - 10 \<and>
    (t = s \<and> ys = xs \<and> 0 < FreeFd s \<or> xs = hd xs # ys \<and> free_descriptor (sys t) \<noteq> None \<and> FreeFd t = FreeFd s + 1))"
proof (cases "FreeFd s \<le> 0 \<or> nfile s \<ge> no_files s - 10")
  case False
  then show ?thesis using nofile_inv [OF inv] inv by (auto simp: AssertLruRoom_def)
next
  case True
  note d = fd_invD [OF inv]
  have "xs \<noteq> []" using av True d(9-11) by auto
  then obtain x ys where xs: "xs = x # ys" by (cases xs) auto
  then have h: "lruMoreRecently (V s 0) = x" "lruMoreRecently (V s 0) \<noteq> 0" using first_open [OF inv] by auto
  have eq: "AssertLruRoom s = LruDelete s x" using True h d(1) nofile_inv [OF inv] by (auto simp: AssertLruRoom_def)
  have pos: "0 \<le> fd (V s x)" using open_file [OF inv, of x] xs by simp
  have "rets (LruDelete s x) (\<lambda>t. fd_inv t ys fs \<and> same_files s t \<and> FreeFd t = FreeFd s + 1 \<and> osRanOut t = osRanOut s \<and>
    ofile (sys t) (fd (V s x)) = None \<and> fd (V s x) < int (length (ofiles (sys t))))" using lru_delete_inv [of s "[]" x ys fs] inv xs by simp
  then show ?thesis unfolding eq
  proof (rule rets_mono, elim conjE)
    fix t assume t: "fd_inv t ys fs" "same_files s t" "FreeFd t = FreeFd s + 1" "osRanOut t = osRanOut s" "ofile (sys t) (fd (V s x)) = None" "fd (V s x) < int (length (ofiles (sys t)))"
    have "nfile t < no_files s - 10" using fd_invD(9) [OF t(1)] d(9,10) xs by simp
    then show "\<exists>ys. fd_inv t ys fs \<and> same_files s t \<and> osRanOut t = osRanOut s \<and> nfile t < no_files s - 10 \<and>
      (t = s \<and> ys = xs \<and> 0 < FreeFd s \<or> xs = hd xs # ys \<and> free_descriptor (sys t) \<noteq> None \<and> FreeFd t = FreeFd s + 1)"
      using t xs pos free_descriptor_ofile [OF t(5)] by auto
  qed
qed

lemma probe_null:
  assumes "os_ok u"
  shows "c_open u Nulldev (O_CREAT OR O_RDWR) =
    (case free_descriptor u of None \<Rightarrow> (u, -1) | Some k \<Rightarrow> (set_ofile u (int k) (Some (the (names u Nulldev), 0)), int k))"
    and "free_descriptor u = Some k \<Longrightarrow> fst (c_close (set_ofile u (int k) (Some e)) (int k)) = u"
proof -
  have "(O_CREAT OR O_RDWR) AND O_EXCL = 0" "(O_CREAT OR O_RDWR) AND O_TRUNC = 0" by (simp_all add: O_CREAT_def O_RDWR_def O_EXCL_def O_TRUNC_def)
  then show "c_open u Nulldev (O_CREAT OR O_RDWR) =
    (case free_descriptor u of None \<Rightarrow> (u, -1) | Some k \<Rightarrow> (set_ofile u (int k) (Some (the (names u Nulldev), 0)), int k))"
    using assms by (auto simp: c_open_def os_ok_def split: option.splits)
  assume k: "free_descriptor u = Some k"
  note f = free_descriptor_Some [OF k]
  have "(ofiles u)[k := None] = ofiles u" using f(2) by (metis list_update_id)
  then show "fst (c_close (set_ofile u (int k) (Some e)) (int k)) = u"
    using f by (simp add: c_close_def ofile_set_ofile) (simp add: set_ofile_def)
qed

lemma fd_inv_FreeFd: "fd_inv s xs fs \<Longrightarrow> 0 \<le> n \<Longrightarrow> fd_inv (s\<lparr>FreeFd := n\<rparr>) xs fs" "fd_inv s xs fs \<Longrightarrow> fd_inv (s\<lparr>osRanOut := b\<rparr>) xs fs"
proof -
  have r: "lru.ring (s\<lparr>FreeFd := n\<rparr>) 0 xs = lru.ring s 0 xs" "lru.ring (s\<lparr>osRanOut := b\<rparr>) 0 xs = lru.ring s 0 xs" by (rule lru.ring_cong, simp)+
  show "fd_inv s xs fs \<Longrightarrow> 0 \<le> n \<Longrightarrow> fd_inv (s\<lparr>FreeFd := n\<rparr>) xs fs" "fd_inv s xs fs \<Longrightarrow> fd_inv (s\<lparr>osRanOut := b\<rparr>) xs fs"
    unfolding fd_inv_def r by simp_all
qed

lemma same_files_FreeFd [simp]: "same_files s (t\<lparr>FreeFd := n\<rparr>) = same_files s t" "same_files s (t\<lparr>osRanOut := b\<rparr>) = same_files s t"
  "same_files (s\<lparr>FreeFd := n\<rparr>) t = same_files s t" "same_files (s\<lparr>osRanOut := b\<rparr>) t = same_files s t"
  by (simp_all add: same_files_def)

lemma try_again_free:
  assumes "os_ok (sys s)" and "free_descriptor (sys s) \<noteq> None"
  shows "try_again m s = Some s"
  using assms probe_null [OF assms(1)] by (subst try_again.simps) (auto split: option.splits)

lemma try_again_inv:
  assumes inv: "fd_inv s xs fs" and av: "xs \<noteq> [] \<or> free_descriptor (sys s) \<noteq> None"
  shows "rets (try_again m s) (\<lambda>t. \<exists>ys. fd_inv t ys fs \<and> same_files s t \<and> free_descriptor (sys t) \<noteq> None \<and> (t = s \<and> ys = xs \<or> xs = hd xs # ys \<and> FreeFd t = 1))"
proof (cases "free_descriptor (sys s)")
  case (Some k)
  then show ?thesis using try_again_free [OF fd_invD(12) [OF inv], of m] inv by auto
next
  case None
  define s1 where "s1 = (if m then s\<lparr>FreeFd := 0, osRanOut := True\<rparr> else s\<lparr>FreeFd := 0\<rparr>)"
  have ss: "s\<lparr>sys := sys s, FreeFd := 0\<rparr> = s\<lparr>FreeFd := 0\<rparr>" by simp
  have eq: "try_again m s = (AssertLruRoom s1 \<bind> try_again m)"
    using None probe_null(1) [OF fd_invD(12) [OF inv]] ss by (subst try_again.simps) (simp add: s1_def cong: if_cong)
  have inv': "fd_inv s1 xs fs" "same_files s s1" "FreeFd s1 = 0" using inv fd_inv_FreeFd by (auto simp: s1_def)
  have "rets (AssertLruRoom s1) (\<lambda>t. \<exists>ys. fd_inv t ys fs \<and> same_files s1 t \<and> xs = hd xs # ys \<and> free_descriptor (sys t) \<noteq> None \<and> FreeFd t = 1)"
    by (rule rets_mono [OF assert_room_inv [OF inv'(1)]]) (use av None inv'(3) in auto)
  then show ?thesis unfolding eq
  proof (rule rets_bind, elim exE conjE)
    fix t ys
    assume t: "fd_inv t ys fs" "same_files s1 t" "xs = hd xs # ys" "free_descriptor (sys t) \<noteq> None" "FreeFd t = 1"
    show "rets (try_again m t) (\<lambda>t. \<exists>ys. fd_inv t ys fs \<and> same_files s t \<and> free_descriptor (sys t) \<noteq> None \<and> (t = s \<and> ys = xs \<or> xs = hd xs # ys \<and> FreeFd t = 1))"
      using try_again_free [OF fd_invD(12) [OF t(1)] t(4), of m] t same_files_trans [OF inv'(2) t(2)] by auto
  qed
qed

subsection \<open>Reopening a file\<close>

definition is_file :: "vfds \<Rightarrow> int list \<Rightarrow> int \<Rightarrow> bool" where
  "is_file s fs x \<longleftrightarrow> vfd_ok s x \<and> x \<noteq> 0 \<and> x \<notin> set fs"

lemma is_file_same: "same_files s t \<Longrightarrow> is_file t fs x = is_file s fs x"
  by (simp add: is_file_def same_files_ok)

lemma descriptor_unused:
  assumes "fd_inv s xs fs" and "free_descriptor (sys s) = Some k" and "i \<in> set xs"
  shows "fd (V s i) \<noteq> int k"
  using open_file(4) [OF assms(1,3)] free_descriptor_Some [OF assms(2)] by (auto simp: ofile_def split: if_splits)

text \<open>The file \<open>x\<close> gets the descriptor \<open>k\<close> at its position and joins the ring.\<close>

lemma opened_inv:
  assumes inv: "fd_inv s xs fs" and x: "is_file s fs x" "x \<notin> set xs" and k: "free_descriptor (sys s) = Some k" and n: "nfile s < no_files s - 10"
    and same: "same_files s t" and r: "lru.ring t 0 (xs @ [x])"
    and V: "\<And>i. vfd_ok s i \<Longrightarrow> fd (V t i) = (if i = x then int k else fd (V s i))"
    and sys: "sys t = set_ofile (sys s) (int k) (Some (the (names (sys s) (fileName (V s x))), seekPos (V s x)))" and nf: "nfile t = nfile s + 1" "0 \<le> FreeFd t"
  shows "fd_inv t (xs @ [x]) fs"
proof (rule fd_inv_frame [OF inv same r])
  note d = fd_invD [OF inv]
  have ok: "vfd_ok s x" "x \<noteq> 0" "x \<notin> set fs" using x(1) by (auto simp: is_file_def)
  note kl = free_descriptor_Some [OF k] and ku = descriptor_unused [OF inv k]
  show "set (xs @ [x]) \<subseteq> {i. vfd_ok s i \<and> i \<noteq> 0 \<and> i \<notin> set fs}" using d(13) ok by auto
  show "fd (V t i) = -1 \<longleftrightarrow> i \<notin> set (xs @ [x])" if "vfd_ok s i" for i using V [OF that] d(7) [OF that] by auto
  have "inj_on (\<lambda>i. fd (V t i)) (set xs)" using d(8,13) V x(2) by (auto simp: inj_on_def)
  moreover have "fd (V t i) \<noteq> fd (V t x)" if "i \<in> set xs" for i using V [of i] V [of x] d(13) [OF that] ku [OF that] ok x(2) that by auto
  ultimately show "inj_on (\<lambda>i. fd (V t i)) (set (xs @ [x]))" by force
  show "0 \<le> fd (V t i) \<and> ofile (sys t) (fd (V t i)) = Some (the (names (sys s) (fileName (V s i))), seekPos (V s i))" if i: "i \<in> set (xs @ [x])" for i
  proof (cases "i = x")
    case True
    then show ?thesis using V ok kl sys by (simp add: ofile_set_ofile)
  next
    case False
    then have "i \<in> set xs" using i by auto
    then show ?thesis using open_file [OF inv, of i] V False ku kl sys by (auto simp: ofile_set_ofile)
  qed
  show "nfile t = int (length (xs @ [x]))" "nfile t \<le> no_files s - 10" "0 \<le> FreeFd t" using d(9) n nf by simp_all
qed

lemma reopen_call:
  assumes "os_ok u" and "vfile_ok u p" and "free_descriptor u = Some k"
  shows "c_open u (fileName p) (fileFlags p) = (set_ofile u (int k) (Some (the (names u (fileName p)), 0)), int k)" and "sint16 (int k) = int k"
proof -
  have "k < 32768" using assms(1) free_descriptor_Some(1) [OF assms(3)] by (simp add: os_ok_def)
  then show "sint16 (int k) = int k" by (intro sint16_id) simp_all
  show "c_open u (fileName p) (fileFlags p) = (set_ofile u (int k) (Some (the (names u (fileName p)), 0)), int k)"
    using assms by (auto simp: c_open_def vfile_ok_def)
qed

lemma set_ofile_twice: "set_ofile (set_ofile u k e) k e' = set_ofile u k e'"
  by (simp add: set_ofile_def)

lemma lru_insert_free:
  assumes inv: "fd_inv s xs fs" and x: "is_file s fs x" "x \<notin> set xs" and k: "free_descriptor (sys s) = Some k" and n: "nfile s < no_files s - 10"
  shows "rets (LruInsert s x) (\<lambda>(t, r). r = 0 \<and> fd_inv t (xs @ [x]) fs \<and> same_files s t)"
proof -
  note d = fd_invD [OF inv]
  have ok: "vfd_ok s x" "x \<noteq> 0" "x \<notin> set fs" and vf: "vfile_ok (sys s) (V s x)" using x(1) d(6) by (auto simp: is_file_def)
  have pos: "0 \<le> seekPos (V s x)" "seekPos (V s x) \<le> 2 ^ 31" using vf by (auto simp: vfile_ok_def)
  have cl: "fd (V s x) = -1" using d(7) [OF ok(1)] x(2) by simp
  note op = reopen_call [OF d(12) vf k] and kl = free_descriptor_Some [OF k]
  let ?ino = "the (names (sys s) (fileName (V s x)))"
  have s32: "sint32 (seekPos (V s x)) \<noteq> -1"
    using pos sint32_id [of "seekPos (V s x)"] sint32_wrap by (cases "seekPos (V s x) = 2 ^ 31") auto
  have sk: "(if seekPos (V s x) \<noteq> 0 then snd (c_lseek (set_ofile (sys s) (int k) (Some (?ino, 0))) (int k) (seekPos (V s x)) SEEK_SET) = seekPos (V s x) \<and>
      fst (c_lseek (set_ofile (sys s) (int k) (Some (?ino, 0))) (int k) (seekPos (V s x)) SEEK_SET) = set_ofile (sys s) (int k) (Some (?ino, seekPos (V s x)))
    else True)"
    using kl pos by (simp add: c_lseek_def ofile_set_ofile set_ofile_twice Let_def)
  let ?u = "set_ofile (sys s) (int k) (Some (?ino, seekPos (V s x)))"
  define t0 where "t0 = put_vfd (put_vfd (s\<lparr>sys := ?u, nfile := nfile s + 1\<rparr>) x (\<lambda>p. p\<lparr>fd := int k\<rparr>)) x (\<lambda>p. p\<lparr>fdstate := 0\<rparr>)"
  define t1 where "t1 = (if FreeFd s > 0 then t0\<lparr>FreeFd := FreeFd s - 1\<rparr> else t0)"
  have eq: "LruInsert s x = map_option (\<lambda>t. (t, 0)) (Insert t1 x)"
  proof -
    have ta: "try_again False s = Some s" using try_again_free [OF d(12)] k by simp
    show ?thesis
    proof (cases "seekPos (V s x) = 0")
      case True
      then show ?thesis using ok cl ta op
        by (simp add: LruInsert_def FileIsNotOpen_def VFD_CLOSED_def t1_def t0_def put_vfd_comm map_conv_bind_option comp_def cong: if_cong)
    next
      case False
      have comm: "s\<lparr>nfile := n, sys := u\<rparr> = s\<lparr>sys := u, nfile := n\<rparr>" for n u by simp
      show ?thesis using False ok cl ta op sk s32
        by (simp add: LruInsert_def FileIsNotOpen_def VFD_CLOSED_def t1_def t0_def put_vfd_comm map_conv_bind_option comp_def case_prod_unfold comm cong: if_cong)
    qed
  qed
  have ok1: "vfd_ok t1 i = vfd_ok s i" for i by (simp add: t1_def t0_def)
  have V1: "file_part (V t1 i) = file_part (V s i)" "fd (V t1 i) = (if i = x then int k else fd (V s i))"
    "lruMoreRecently (V t1 i) = lruMoreRecently (V s i)" "lruLessRecently (V t1 i) = lruLessRecently (V s i)" if "vfd_ok s i" for i
    using that ok by (auto simp: t1_def t0_def file_part_def)
  have same: "same_files s t1" using V1(1) by (auto simp: same_files_def t1_def t0_def)
  have "lru.ring t1 0 xs = lru.ring s 0 xs" by (rule lru.ring_cong) (use V1 d(1,13) ok1 in auto)
  then have r1: "lru.ring t1 0 xs" using d(2) by simp
  have "vfd_ok t1 x" using ok ok1 by simp
  from lru_insert_ring [OF r1 this ok(2) x(2)] obtain t where t: "Insert t1 x = Some t" "lru.ring t 0 (xs @ [x])" "relinked t1 t" by (elim retsE) auto
  note rl = relinked_fields [OF t(3)] relinked_V [OF t(3)] relinked_same [OF t(3)]
  have st: "same_files s t" by (rule same_files_trans [OF same rl(16)])
  have "fd_inv t (xs @ [x]) fs"
    by (rule opened_inv [OF inv x k n st t(2)]) (use rl V1(2) ok1 d(15) in \<open>auto simp: t1_def t0_def\<close>)
  then show ?thesis using eq t(1) st by simp
qed

lemma lru_insert_inv:
  assumes inv: "fd_inv s xs fs" and x: "is_file s fs x" "x \<notin> set xs" and av: "xs \<noteq> [] \<or> free_descriptor (sys s) \<noteq> None" and n: "nfile s < no_files s - 10"
  shows "rets (LruInsert s x) (\<lambda>(t, r). r = 0 \<and> (\<exists>ys. fd_inv t (ys @ [x]) fs) \<and> same_files s t)"
proof -
  from try_again_inv [OF inv av, of False] obtain s1 ys where s1: "try_again False s = Some s1" "fd_inv s1 ys fs" "same_files s s1" "free_descriptor (sys s1) \<noteq> None"
    and ys: "s1 = s \<and> ys = xs \<or> xs = hd xs # ys" by (elim retsE) blast
  have sub: "set ys \<subseteq> set xs" "length ys \<le> length xs" using ys by (metis order_refl set_subset_Cons, metis impossible_Cons nle_le)
  have again: "try_again False s1 = Some s1" by (rule try_again_free [OF fd_invD(12) [OF s1(2)] s1(4)])
  have ok: "vfd_ok s x" "vfd_ok s1 x" using x(1) same_files_ok [OF s1(3)] by (auto simp: is_file_def)
  have cl: "fd (V s x) = -1" "fd (V s1 x) = -1" using fd_invD(7) [OF inv ok(1)] fd_invD(7) [OF s1(2) ok(2)] x(2) sub(1) by auto
  have eq: "LruInsert s x = LruInsert s1 x" using ok cl s1(1) again by (simp add: LruInsert_def FileIsNotOpen_def VFD_CLOSED_def)
  obtain k where k: "free_descriptor (sys s1) = Some k" using s1(4) by auto
  have "nfile s1 < no_files s1 - 10" using fd_invD(9) [OF inv] fd_invD(9) [OF s1(2)] sub(2) n s1(3) by (simp add: same_files_def)
  then have "rets (LruInsert s1 x) (\<lambda>(t, r). r = 0 \<and> fd_inv t (ys @ [x]) fs \<and> same_files s1 t)"
    using lru_insert_free [OF s1(2) _ _ k, of x] x is_file_same [OF s1(3)] sub(1) by auto
  then show ?thesis unfolding eq by (rule rets_mono) (use same_files_trans [OF s1(3)] in auto)
qed

text \<open>There is room for a file that has to be reopened.\<close>

definition avail :: "vfds \<Rightarrow> int list \<Rightarrow> bool" where
  "avail s xs \<longleftrightarrow> xs \<noteq> [] \<or> (0 < FreeFd s \<and> free_descriptor (sys s) \<noteq> None)"

lemma access_inv:
  assumes inv: "fd_inv s xs fs" and x: "is_file s fs x" and av: "avail s xs"
  shows "rets (FileAccess s x) (\<lambda>(t, r). r = 0 \<and> (\<exists>ys. fd_inv t (ys @ [x]) fs) \<and> same_files s t)"
proof (cases "x \<in> set xs")
  case True
  then obtain as bs where xs: "xs = as @ x # bs" by (meson split_list)
  note d = fd_invD [OF inv] and op = open_file [OF inv True]
  obtain t0 where t0: "Delete s x = Some t0" "lru.ring t0 0 (as @ bs)" "relinked s t0" using lru_delete_ring [OF d(2) [unfolded xs]] by (elim retsE) auto
  have nx: "x \<notin> set (as @ bs)" using d(14) xs by simp
  have "vfd_ok t0 x" using op(1) relinked_ok [OF t0(3)] by simp
  from lru_insert_ring [OF t0(2) this op(2) nx] obtain t where t: "Insert t0 x = Some t" "lru.ring t 0 ((as @ bs) @ [x])" "relinked t0 t" by (elim retsE) auto
  have same: "same_files s t" using relinked_same [OF t0(3)] relinked_same [OF t(3)] by (rule same_files_trans)
  note rl = relinked_fields [OF t0(3)] relinked_fields [OF t(3)]
  have V: "fd (V t i) = fd (V s i)" if "vfd_ok s i" for i using relinked_V(1) [OF t0(3) that] relinked_V(1) [OF t(3), of i] relinked_ok [OF t0(3)] that by simp
  have st: "set ((as @ bs) @ [x]) = set xs" using xs by auto
  have "fd_inv t ((as @ bs) @ [x]) fs"
  proof (rule fd_inv_frame [OF inv same t(2)])
    show "inj_on (\<lambda>i. fd (V t i)) (set ((as @ bs) @ [x]))" unfolding st using d(8,13) V by (auto simp: inj_on_def)
    show "0 \<le> fd (V t i) \<and> ofile (sys t) (fd (V t i)) = Some (the (names (sys s) (fileName (V s i))), seekPos (V s i))" if "i \<in> set ((as @ bs) @ [x])" for i
      using open_file [OF inv, of i] that V rl unfolding st by auto
    show "set ((as @ bs) @ [x]) \<subseteq> {i. vfd_ok s i \<and> i \<noteq> 0 \<and> i \<notin> set fs}" unfolding st using d(13) by auto
    show "fd (V t i) = -1 \<longleftrightarrow> i \<notin> set ((as @ bs) @ [x])" if "vfd_ok s i" for i unfolding st using V [OF that] d(7) [OF that] by simp
    show "nfile t = int (length ((as @ bs) @ [x]))" "nfile t \<le> no_files s - 10" "0 \<le> FreeFd t" using rl(2,3,10,11) d(9,10,15) xs by simp_all
  qed
  then have "\<exists>ys. fd_inv t (ys @ [x]) fs" by blast
  moreover have "FileIsNotOpen s x = Some False" using op(1,3) by (simp add: FileIsNotOpen_def VFD_CLOSED_def)
  ultimately show ?thesis using t0(1) t(1) same by (auto simp: FileAccess_def)
next
  case False
  have ok: "vfd_ok s x" using x by (simp add: is_file_def)
  then have "FileIsNotOpen s x = Some True" using fd_invD(7) [OF inv ok] False by (simp add: FileIsNotOpen_def VFD_CLOSED_def)
  then have eq: "FileAccess s x = (AssertLruRoom s \<bind> (\<lambda>s. LruInsert s x))" by (simp add: FileAccess_def)
  show ?thesis unfolding eq
  proof (rule rets_bind [OF assert_room_inv [OF inv]], goal_cases)
    case 1 then show ?case using av by (auto simp: avail_def)
  next
    case (2 s1)
    then obtain ys where ys: "fd_inv s1 ys fs" "same_files s s1" "nfile s1 < no_files s - 10" "s1 = s \<and> ys = xs \<or> xs = hd xs # ys \<and> free_descriptor (sys s1) \<noteq> None" by blast
    have nx: "x \<notin> set ys" using ys(4) False by (metis list.set_intros(2))
    have a: "ys \<noteq> [] \<or> free_descriptor (sys s1) \<noteq> None" using ys(4) av by (auto simp: avail_def)
    have "nfile s1 < no_files s1 - 10" using ys(2,3) by (simp add: same_files_def)
    from lru_insert_inv [OF ys(1) _ nx a this] x is_file_same [OF ys(2)] show ?case
      by (auto elim!: rets_mono intro: same_files_trans [OF ys(2)])
  qed
qed

end
