(* ===== verification/Fd_Ops.thy ===== *)
theory Fd_Ops
  imports Fd_Inv
begin

text \<open>
  The virtual files as seen by their users: a finite map from file numbers to an inode and a position (\<open>files\<close>). Reading,
  writing, seeking, opening and closing act on this map and on the contents of the inodes as if every file were open all the time.
\<close>

subsection \<open>Moving the position of a file\<close>

lemma pos_inv:
  assumes inv: "fd_inv s xs fs" and f: "is_file s fs f" and p: "0 \<le> p" "p \<le> 2 ^ 31"
    and g: "\<And>q. fd (g q) = fd q" "\<And>q. nextFree (g q) = nextFree q" "\<And>q. fileName (g q) = fileName q" "\<And>q. fileFlags (g q) = fileFlags q"
      "\<And>q. lruMoreRecently (g q) = lruMoreRecently q" "\<And>q. lruLessRecently (g q) = lruLessRecently q" "seekPos (g (V s f)) = p"
    and u: "names u = names (sys s)" "length (inodes u) = length (inodes (sys s))" "length (ofiles u) = length (ofiles (sys s))"
    and ofs: "\<And>i. i \<in> set xs \<Longrightarrow> ofile u (fd (V s i)) = Some (the (names (sys s) (fileName (V s i))), if i = f then p else seekPos (V s i))"
  shows "fd_inv (put_vfd (s\<lparr>sys := u\<rparr>) f g) xs fs"
proof -
  let ?t = "put_vfd (s\<lparr>sys := u\<rparr>) f g"
  note d = fd_invD [OF inv]
  have fo: "vfd_ok s f" using f by (simp add: is_file_def)
  have V: "fd (V ?t i) = fd (V s i)" "nextFree (V ?t i) = nextFree (V s i)" "fileName (V ?t i) = fileName (V s i)" "fileFlags (V ?t i) = fileFlags (V s i)"
    "lruMoreRecently (V ?t i) = lruMoreRecently (V s i)" "lruLessRecently (V ?t i) = lruLessRecently (V s i)" "seekPos (V ?t i) = (if i = f then p else seekPos (V s i))"
    if "vfd_ok s i" for i using that fo g by simp_all
  have "lru.ring ?t 0 xs = lru.ring s 0 xs" by (rule lru.ring_cong) (use V d(1,13) in auto)
  then have r: "lru.ring ?t 0 xs" using d(2) by simp
  have o: "os_ok u" using d(12) u by (simp add: os_ok_def)
  have vf: "vfile_ok u (V ?t i)" if "vfd_ok s i" "i \<noteq> 0" "i \<notin> set fs" for i
    using d(6) [OF that] V [OF that(1)] d(7) [OF that(1)] ofs [of i] u p by (auto simp: vfile_ok_def)
  have inj: "inj_on (\<lambda>i. fd (V ?t i)) (set xs)" using d(8,13) V(1) by (auto simp: inj_on_def)
  have fdv: "fd (V ?t i) = -1 \<longleftrightarrow> i \<notin> set xs" if "vfd_ok s i" for i using V(1) [OF that] d(7) [OF that] by simp
  show ?thesis unfolding fd_inv_def using d(1,3,4,9-11,15) r o vf inj fdv by simp
qed

subsection \<open>The abstraction\<close>

definition view :: "vfds \<Rightarrow> int list \<Rightarrow> int \<rightharpoonup> nat \<times> int" where
  "view s fs i = (if is_file s fs i then Some (the (names (sys s) (fileName (V s i))), seekPos (V s i)) else None)"

definition files :: "vfds \<Rightarrow> (int \<rightharpoonup> nat \<times> int) \<Rightarrow> bool" where
  "files s A \<longleftrightarrow> (\<exists>xs fs. fd_inv s xs fs \<and> free_chain s 0 fs \<and> (A \<noteq> (\<lambda>_. None) \<longrightarrow> avail s xs) \<and>
     (xs = [] \<longrightarrow> free_descriptor (sys s) \<noteq> None \<and> (0 < FreeFd s \<or> \<not> osRanOut s)) \<and> A = view s fs)"

lemma view_same: "same_files s t \<Longrightarrow> view t fs = view s fs"
  using is_file_same [of s t fs] same_files_part [of s t] by (auto simp: view_def fun_eq_iff is_file_def same_files_def)

lemma avail_snoc [simp]: "avail s (ys @ [x])"
  by (simp add: avail_def)

text \<open>What the operations on one file leave alone.\<close>

definition same_config :: "vfds \<Rightarrow> vfds \<Rightarrow> bool" where
  "same_config s t \<longleftrightarrow> names (sys t) = names (sys s) \<and> no_files t = no_files s \<and> DataDir t = DataDir s \<and> DatabaseName t = DatabaseName s"

lemma same_files_config: "same_files s t \<Longrightarrow> same_config s t"
  by (simp add: same_files_def same_config_def)

lemma files_access:
  assumes "files s A" and "A f = Some (ino, pos)"
  shows "rets (FileAccess s f) (\<lambda>(t, r). \<exists>ys fs. r = 0 \<and> fd_inv t (ys @ [f]) fs \<and> free_chain t 0 fs \<and> same_files s t \<and> is_file t fs f \<and> view t fs = A \<and>
    names (sys t) (fileName (V t f)) = Some ino \<and> ofile (sys t) (fd (V t f)) = Some (ino, pos) \<and> 0 \<le> pos \<and> vfd_ok t f)"
proof -
  obtain xs fs where inv: "fd_inv s xs fs" and ch: "free_chain s 0 fs" and A: "A = view s fs" and av: "avail s xs" using assms by (auto simp: files_def)
  have f: "is_file s fs f" using assms(2) A by (simp add: view_def split: if_splits)
  show ?thesis
  proof (rule rets_mono [OF access_inv [OF inv f av]], clarsimp)
    fix t ys assume t: "fd_inv t (ys @ [f]) fs" "same_files s t"
    have ft: "is_file t fs f" "view t fs = A" using f is_file_same [OF t(2)] view_same [OF t(2)] A by simp_all
    then have "the (names (sys t) (fileName (V t f))) = ino" "seekPos (V t f) = pos" using assms(2) by (auto simp: view_def)
    moreover have "vfd_ok t f" "vfile_ok (sys t) (V t f)" using ft(1) fd_invD(6) [OF t(1)] by (auto simp: is_file_def)
    moreover have "free_chain t 0 fs" by (rule free_chain_same [OF ch t(2)]) (use fd_invD(1,4) [OF inv] in auto)
    ultimately show "\<exists>ys fs. fd_inv t (ys @ [f]) fs \<and> free_chain t 0 fs \<and> is_file t fs f \<and> view t fs = A \<and> names (sys t) (fileName (V t f)) = Some ino \<and>
        ofile (sys t) (fd (V t f)) = Some (ino, pos) \<and> 0 \<le> pos \<and> vfd_ok t f"
      using t(1) ft open_file(4) [OF t(1), of f] by (intro exI [of _ ys] exI [of _ fs]) (auto simp: vfile_ok_def)
  qed
qed

text \<open>An operation on the open file \<open>f\<close> that moves its position.\<close>

lemma files_pos:
  assumes inv: "fd_inv t xs fs" and ch: "free_chain t 0 fs" and fx: "f \<in> set xs" and f: "is_file t fs f" and A: "view t fs = A" "A f = Some (ino, pos)" and p: "0 \<le> p" "p \<le> 2 ^ 31"
    and g: "\<And>q. fd (g q) = fd q" "\<And>q. nextFree (g q) = nextFree q" "\<And>q. fileName (g q) = fileName q" "\<And>q. fileFlags (g q) = fileFlags q"
      "\<And>q. lruMoreRecently (g q) = lruMoreRecently q" "\<And>q. lruLessRecently (g q) = lruLessRecently q" "seekPos (g (V t f)) = p"
    and u: "names u = names (sys t)" "length (inodes u) = length (inodes (sys t))" "length (ofiles u) = length (ofiles (sys t))"
    and ofs: "\<And>k. ofile u k = (if k = fd (V t f) then Some (ino, p) else ofile (sys t) k)"
  shows "files (put_vfd (t\<lparr>sys := u\<rparr>) f g) (A(f \<mapsto> (ino, p)))"
proof -
  let ?t = "put_vfd (t\<lparr>sys := u\<rparr>) f g"
  have fo: "vfd_ok t f" using f by (simp add: is_file_def)
  have ino: "the (names (sys t) (fileName (V t f))) = ino" using A f by (auto simp: view_def)
  have "fd_inv ?t xs fs"
  proof (rule pos_inv [OF inv f p g u])
    fix i assume i: "i \<in> set xs"
    have "fd (V t i) = fd (V t f) \<longleftrightarrow> i = f" using fd_invD(8) [OF inv] i fx by (auto simp: inj_on_def)
    then show "ofile u (fd (V t i)) = Some (the (names (sys t) (fileName (V t i))), if i = f then p else seekPos (V t i))"
      using open_file(4) [OF inv i] ofs ino by auto
  qed
  moreover have "view ?t fs = A(f \<mapsto> (ino, p))"
    unfolding A(1) [symmetric] using fo f g u(1) ino by (auto simp: view_def fun_eq_iff is_file_def)
  moreover have "free_chain ?t 0 fs" by (rule free_chain_cong [OF ch]) (use fd_invD(1,4) [OF inv] fo g(2) in auto)
  moreover have "avail ?t xs" using fx by (auto simp: avail_def)
  ultimately show ?thesis unfolding files_def using fx by (intro exI [of _ xs] exI [of _ fs]) auto
qed

subsection \<open>Reading, writing and seeking\<close>

lemma same_config_sys: "same_config s t \<Longrightarrow> names u = names (sys t) \<Longrightarrow> same_config s (put_vfd (t\<lparr>sys := u\<rparr>) f g)"
  by (simp add: same_config_def)

lemma FileRead_files:
  assumes A: "files s A" "A f = Some (ino, pos)" and bs: "bs = rd (inodes (sys s) ! ino) (nat pos) n" and p: "pos + int (length bs) \<le> 2 ^ 31"
  shows "rets (FileRead s f n) (\<lambda>(t, r, bs'). bs' = bs \<and> r = int (length bs) \<and> files t (A(f \<mapsto> (ino, pos + int (length bs)))) \<and>
    same_config s t \<and> inodes (sys t) = inodes (sys s) \<and> disk_room (sys t) = disk_room (sys s))"
proof -
  from files_access [OF A] obtain t ys fs where t: "FileAccess s f = Some (t, 0)" "fd_inv t (ys @ [f]) fs" and ch: "free_chain t 0 fs" and t': "same_files s t" "is_file t fs f" "view t fs = A"
    "ofile (sys t) (fd (V t f)) = Some (ino, pos)" "0 \<le> pos" "vfd_ok t f" by (elim retsE) auto
  note t = t t'
  let ?u = "set_ofile (sys t) (fd (V t f)) (Some (ino, pos + int (length bs)))"
  have io: "inodes (sys t) = inodes (sys s)" "disk_room (sys t) = disk_room (sys s)" using t(3) by (simp_all add: same_files_def)
  have rd: "c_read (sys t) (fd (V t f)) n = (?u, int (length bs), bs)" using t(6) io bs by (simp add: c_read_def Let_def)
  have lt: "0 \<le> fd (V t f)" "fd (V t f) < int (length (ofiles (sys t)))" using ofile_Some [OF t(6)] by simp_all
  have sp: "seekPos (V t f) = pos" using t(4,5) A(2) by (auto simp: view_def)
  let ?g = "\<lambda>q. q\<lparr>seekPos := seekPos q + int (length bs)\<rparr>"
  have id: "put_vfd (t\<lparr>sys := ?u\<rparr>) f ?g = t\<lparr>sys := ?u\<rparr>" if "bs = []" using that t(8) by (simp add: put_vfd_def)
  have "FileRead s f n = Some (put_vfd (t\<lparr>sys := ?u\<rparr>) f ?g, int (length bs), bs)"
    using t(1,8) rd id by (cases "bs = []") (simp_all add: FileRead_def)
  moreover have "files (put_vfd (t\<lparr>sys := ?u\<rparr>) f ?g) (A(f \<mapsto> (ino, pos + int (length bs))))"
    by (rule files_pos [OF t(2) ch _ t(4,5) A(2)]) (use t(7) p sp lt in \<open>auto simp: ofile_set_ofile\<close>)
  ultimately show ?thesis using same_files_config [OF t(3)] io by (simp add: same_config_sys)
qed

lemma FileWrite_files:
  assumes A: "files s A" "A f = Some (ino, pos)" and bs: "bs \<noteq> []" and p: "pos + int (length bs) \<le> 2 ^ 31"
    and c: "c = inodes (sys s) ! ino" "ino < length (inodes (sys s))" and n: "n = writable (disk_room (sys s)) (length c) (nat pos) (length bs)"
  shows "rets (FileWrite s f bs) (\<lambda>(t, r). same_config s t \<and>
    (if n = 0 then r = -1 \<and> files t A \<and> inodes (sys t) = inodes (sys s) \<and> disk_room (sys t) = disk_room (sys s)
     else r = int n \<and> files t (A(f \<mapsto> (ino, pos + int n))) \<and> inodes (sys t) = (inodes (sys s))[ino := file_put c (nat pos) (take n bs)] \<and>
       disk_room (sys t) = disk_room (sys s) - (nat pos + n - length c)))"
proof -
  from files_access [OF A] obtain t ys fs where t: "FileAccess s f = Some (t, 0)" "fd_inv t (ys @ [f]) fs" and ch: "free_chain t 0 fs" and t': "same_files s t" "is_file t fs f" "view t fs = A"
    "ofile (sys t) (fd (V t f)) = Some (ino, pos)" "0 \<le> pos" "vfd_ok t f" by (elim retsE) auto
  note t = t t'
  have io: "inodes (sys t) = inodes (sys s)" "disk_room (sys t) = disk_room (sys s)" using t(3) by (simp_all add: same_files_def)
  have lt: "0 \<le> fd (V t f)" "fd (V t f) < int (length (ofiles (sys t)))" using ofile_Some [OF t(6)] by simp_all
  have sp: "seekPos (V t f) = pos" using t(4,5) A(2) by (auto simp: view_def)
  note cfg = same_files_config [OF t(3)]
  show ?thesis
  proof (cases "n = 0")
    case False
    have le: "pos + int n \<le> 2 ^ 31" using p by (simp add: n writable_def)
    define u where "u = set_ofile (sys t\<lparr>inodes := (inodes (sys s))[ino := file_put c (nat pos) (take n bs)], disk_room := disk_room (sys s) - (nat pos + n - length c)\<rparr>)
      (fd (V t f)) (Some (ino, pos + int n))"
    let ?g = "\<lambda>q. q\<lparr>seekPos := seekPos q + int n, fdstate := fdstate q OR FD_DIRTY\<rparr>"
    have w: "c_write (sys t) (fd (V t f)) bs = (u, int n)" using t(6) io bs c(1) False n by (simp add: c_write_def u_def Let_def)
    have pp: "put_vfd (put_vfd (t\<lparr>sys := u\<rparr>) f (\<lambda>q. q\<lparr>seekPos := seekPos q + int n\<rparr>)) f (\<lambda>q. q\<lparr>fdstate := fdstate q OR FD_DIRTY\<rparr>) = put_vfd (t\<lparr>sys := u\<rparr>) f ?g"
      using t(8) by (simp add: put_vfd_twice)
    have "FileWrite s f bs = Some (put_vfd (t\<lparr>sys := u\<rparr>) f ?g, int n)" using t(1,8) w False pp by (simp add: FileWrite_def)
    moreover have "files (put_vfd (t\<lparr>sys := u\<rparr>) f ?g) (A(f \<mapsto> (ino, pos + int n)))"
      by (rule files_pos [OF t(2) ch _ t(4,5) A(2)]) (use t(7) le sp lt io in \<open>auto simp: ofile_set_ofile u_def\<close>)
    ultimately show ?thesis using False cfg by (simp add: same_config_sys u_def)
  next
    case True
    let ?g = "\<lambda>q. q\<lparr>fdstate := fdstate q OR FD_DIRTY\<rparr>"
    have w: "c_write (sys t) (fd (V t f)) bs = (sys t, -1)" using t(6) io bs c(1) True n by (simp add: c_write_def Let_def)
    have ts: "t\<lparr>sys := sys t\<rparr> = t" by simp
    have "FileWrite s f bs = Some (put_vfd (t\<lparr>sys := sys t\<rparr>) f ?g, -1)" using t(1,8) w by (simp add: FileWrite_def)
    moreover have "files (put_vfd (t\<lparr>sys := sys t\<rparr>) f ?g) (A(f \<mapsto> (ino, pos)))"
      by (rule files_pos [OF t(2) ch _ t(4,5) A(2)]) (use t(6,7) p sp in auto)
    moreover have "A(f \<mapsto> (ino, pos)) = A" using A(2) by (simp add: fun_upd_idem)
    ultimately show ?thesis using True cfg io by (simp add: same_config_def)
  qed
qed

lemma seek_open_files:
  assumes inv: "fd_inv t xs fs" and ch: "free_chain t 0 fs" and fx: "f \<in> set xs" and f: "is_file t fs f" and A: "view t fs = A" "A f = Some (ino, pos)"
    and p: "p = offset + (case w of SEEK_SET \<Rightarrow> 0 | SEEK_CUR \<Rightarrow> pos | SEEK_END \<Rightarrow> int (length (inodes (sys t) ! ino)))" "0 \<le> p" "p \<le> 2 ^ 31"
  shows "rets (seek_open t f offset w) (\<lambda>(t', r). r = sint32 p \<and> files t' (A(f \<mapsto> (ino, p))) \<and> same_config t t' \<and> inodes (sys t') = inodes (sys t) \<and> disk_room (sys t') = disk_room (sys t))"
proof -
  have fo: "vfd_ok t f" using f by (simp add: is_file_def)
  have V: "the (names (sys t) (fileName (V t f))) = ino" "seekPos (V t f) = pos" using A f by (auto simp: view_def)
  then have of: "ofile (sys t) (fd (V t f)) = Some (ino, pos)" using open_file(4) [OF inv fx] by auto
  let ?u = "set_ofile (sys t) (fd (V t f)) (Some (ino, p))"
  have "c_lseek (sys t) (fd (V t f)) offset w = (?u, p)" using of p by (cases w) (simp_all add: c_lseek_def Let_def)
  then have "seek_open t f offset w = Some (put_vfd (t\<lparr>sys := ?u\<rparr>) f (\<lambda>q. q\<lparr>seekPos := p\<rparr>), sint32 p)" using fo by (simp add: seek_open_def)
  moreover have "files (put_vfd (t\<lparr>sys := ?u\<rparr>) f (\<lambda>q. q\<lparr>seekPos := p\<rparr>)) (A(f \<mapsto> (ino, p)))"
    by (rule files_pos [OF inv ch fx f A p(2,3)]) (use ofile_Some [OF of] in \<open>auto simp: ofile_set_ofile\<close>)
  ultimately show ?thesis by (simp add: same_config_def)
qed

lemma FileSeek_files:
  assumes A: "files s A" "A f = Some (ino, pos)"
    and p: "p = offset + (case w of SEEK_SET \<Rightarrow> 0 | SEEK_CUR \<Rightarrow> pos | SEEK_END \<Rightarrow> int (length (inodes (sys s) ! ino)))" "0 \<le> p" "p \<le> 2 ^ 31"
  shows "rets (FileSeek s f offset w) (\<lambda>(t, r). (p < 2 ^ 31 \<longrightarrow> r = p) \<and> (w = SEEK_END \<longrightarrow> r = sint32 p) \<and> files t (A(f \<mapsto> (ino, p))) \<and>
    same_config s t \<and> inodes (sys t) = inodes (sys s) \<and> disk_room (sys t) = disk_room (sys s))"
proof -
  obtain xs fs where inv: "fd_inv s xs fs" and ch: "free_chain s 0 fs" and V: "view s fs = A" and av: "avail s xs"
    and rm: "xs = [] \<Longrightarrow> free_descriptor (sys s) \<noteq> None \<and> (0 < FreeFd s \<or> \<not> osRanOut s)" using A by (auto simp: files_def)
  have f: "is_file s fs f" using A(2) V by (auto simp: view_def split: if_splits)
  then have fo: "vfd_ok s f" by (simp add: is_file_def)
  have s32: "sint32 p = p" if "p < 2 ^ 31" using sint32_id [of p] that p(2) by simp
  show ?thesis
  proof (cases "f \<in> set xs")
    case True
    have "FileIsNotOpen s f = Some False" using fd_invD(7) [OF inv fo] fo True by (simp add: FileIsNotOpen_def VFD_CLOSED_def)
    then have "FileSeek s f offset w = seek_open s f offset w" by (simp add: FileSeek_def)
    then show ?thesis using seek_open_files [OF inv ch True f V A(2) p] s32 by (auto elim!: rets_mono)
  next
    case False
    then have cl: "FileIsNotOpen s f = Some True" using fd_invD(7) [OF inv fo] fo by (simp add: FileIsNotOpen_def VFD_CLOSED_def)
    show ?thesis
    proof (cases "w = SEEK_END")
      case True
      from files_access [OF A] obtain t ys fs' where t: "FileAccess s f = Some (t, 0)" "fd_inv t (ys @ [f]) fs'" "same_files s t" "is_file t fs' f" "view t fs' = A"
        and ch': "free_chain t 0 fs'" by (elim retsE) auto
      have io: "inodes (sys t) = inodes (sys s)" "disk_room (sys t) = disk_room (sys s)" using t(3) by (simp_all add: same_files_def)
      have eq: "FileSeek s f offset w = seek_open t f offset w" using cl t(1) True by (simp add: FileSeek_def)
      show ?thesis unfolding eq
        by (rule rets_mono [OF seek_open_files [OF t(2) ch' _ t(4,5) A(2) p(1) [folded io(1)] p(2,3)]])
          (use s32 io same_files_config [OF t(3)] in \<open>auto simp: same_config_def\<close>)
    next
      case False
      let ?t = "put_vfd (s\<lparr>sys := sys s\<rparr>) f (\<lambda>q. q\<lparr>seekPos := p\<rparr>)"
      have sp: "seekPos (V s f) = pos" "the (names (sys s) (fileName (V s f))) = ino" using V f A(2) by (auto simp: view_def)
      have of: "ofile (sys s) (fd (V s i)) = Some (the (names (sys s) (fileName (V s i))), seekPos (V s i))" if "i \<in> set xs" for i using open_file(4) [OF inv that] by auto
      have "fd_inv ?t xs fs" by (rule pos_inv [OF inv f p(2,3)]) (use of \<open>f \<notin> set xs\<close> in auto)
      moreover have "free_chain ?t 0 fs" by (rule free_chain_cong [OF ch]) (use fd_invD(1,4) [OF inv] fo in auto)
      moreover have "view ?t fs = A(f \<mapsto> (ino, p))"
        unfolding V [symmetric] using fo f sp(2) by (auto simp: view_def fun_eq_iff is_file_def)
      moreover have "avail ?t xs" using av by (simp add: avail_def)
      ultimately have fl: "files ?t (A(f \<mapsto> (ino, p)))" unfolding files_def using rm by (intro exI [of _ xs] exI [of _ fs]) auto
      have upd: "put_vfd s f (\<lambda>q. q\<lparr>seekPos := seekPos q + offset\<rparr>) = put_vfd s f (\<lambda>q. q\<lparr>seekPos := p\<rparr>)" if "w = SEEK_CUR"
        using that p(1) sp(1) by (simp add: put_vfd_def V_def add.commute)
      have "FileSeek s f offset w = Some (?t, p)" using False cl fo p(1) upd by (cases w) (simp_all add: FileSeek_def)
      then show ?thesis using fl False by (simp add: same_config_def)
    qed
  qed
qed

subsection \<open>Syncing and truncating\<close>

lemma FileSync_files:
  assumes "files s A" and "A f \<noteq> None"
  shows "rets (FileSync s f) (\<lambda>(t, r). r = 0 \<and> files t A \<and> same_config s t \<and> inodes (sys t) = inodes (sys s) \<and> disk_room (sys t) = disk_room (sys s))"
proof -
  obtain xs fs where inv: "fd_inv s xs fs" and ch: "free_chain s 0 fs" and V: "view s fs = A" and av: "avail s xs"
    and rm: "xs = [] \<Longrightarrow> free_descriptor (sys s) \<noteq> None \<and> (0 < FreeFd s \<or> \<not> osRanOut s)" using assms by (auto simp: files_def)
  have f: "is_file s fs f" using assms(2) V by (auto simp: view_def split: if_splits)
  then have fo: "vfd_ok s f" by (simp add: is_file_def)
  show ?thesis
  proof (cases "fd (V s f) < 0 \<or> fdstate (V s f) AND FD_DIRTY = 0")
    case True
    then show ?thesis using fo assms(1) by (simp add: FileSync_def same_config_def)
  next
    case False
    let ?g = "\<lambda>x. x\<lparr>fdstate := fdstate x AND NOT FD_DIRTY\<rparr>"
    let ?t = "put_vfd (s\<lparr>sys := sys s\<rparr>) f ?g"
    have fx: "f \<in> set xs" using False fd_invD(7) [OF inv fo] by auto
    have "pg_fsync s (fd (V s f)) = 0" using open_file(4) [OF inv fx] by (auto simp: pg_fsync_def c_fsync_def)
    then have eq: "FileSync s f = Some (?t, 0)" using False fo by (simp add: FileSync_def)
    have p: "0 \<le> seekPos (V s f)" "seekPos (V s f) \<le> 2 ^ 31" using fd_invD(6) [OF inv fo] f by (auto simp: is_file_def vfile_ok_def)
    have of: "ofile (sys s) (fd (V s i)) = Some (the (names (sys s) (fileName (V s i))), seekPos (V s i))" if "i \<in> set xs" for i using open_file(4) [OF inv that] by auto
    have "fd_inv ?t xs fs" by (rule pos_inv [OF inv f p]) (use of in auto)
    moreover have "free_chain ?t 0 fs" by (rule free_chain_cong [OF ch]) (use fd_invD(1,4) [OF inv] fo in auto)
    moreover have "view ?t fs = A" unfolding V [symmetric] using fo f by (auto simp: view_def fun_eq_iff is_file_def)
    moreover have "avail ?t xs" using av by (simp add: avail_def)
    ultimately have "files ?t A" unfolding files_def using rm by (intro exI [of _ xs] exI [of _ fs]) auto
    then show ?thesis using eq by (simp add: same_config_def)
  qed
qed

lemma FileTruncate_files:
  assumes A: "files s A" "A f = Some (ino, pos)" and off: "0 \<le> off" and c: "c = inodes (sys s) ! ino"
  shows "rets (FileTruncate s f off) (\<lambda>(t, r). r = 0 \<and> files t A \<and> same_config s t \<and> disk_room (sys t) = disk_room (sys s) \<and>
    inodes (sys t) = (inodes (sys s))[ino := take (nat off) (c @ replicate (nat off - length c) 0)])"
proof -
  have nn: "A f \<noteq> None" using A(2) by simp
  from FileSync_files [OF A(1) nn] obtain s1 where s1: "FileSync s f = Some (s1, 0)" "files s1 A" "same_config s s1" "inodes (sys s1) = inodes (sys s)" "disk_room (sys s1) = disk_room (sys s)"
    by (elim retsE) auto
  from files_access [OF s1(2) A(2)] obtain t ys fs where t: "FileAccess s1 f = Some (t, 0)" "fd_inv t (ys @ [f]) fs" and ch: "free_chain t 0 fs" and t': "same_files s1 t" "is_file t fs f" "view t fs = A"
    "ofile (sys t) (fd (V t f)) = Some (ino, pos)" "0 \<le> pos" "vfd_ok t f" by (elim retsE) auto
  note t = t t'
  have io: "inodes (sys t) = inodes (sys s)" "disk_room (sys t) = disk_room (sys s)" using t(3) s1(4,5) by (simp_all add: same_files_def)
  have sp: "seekPos (V t f) = pos" using t(4,5) A(2) by (auto simp: view_def)
  have le: "pos \<le> 2 ^ 31" using fd_invD(6) [OF t(2), of f] t(4) sp by (auto simp: is_file_def vfile_ok_def)
  define u where "u = sys t\<lparr>inodes := (inodes (sys s))[ino := take (nat off) (c @ replicate (nat off - length c) 0)]\<rparr>"
  have id: "put_vfd (t\<lparr>sys := u\<rparr>) f (\<lambda>q. q) = t\<lparr>sys := u\<rparr>" using t(8) by (simp add: put_vfd_def)
  have "FileTruncate s f off = Some (t\<lparr>sys := u\<rparr>, 0)" using s1(1) t(1,6,8) off c io by (simp add: FileTruncate_def c_ftruncate_def u_def Let_def)
  moreover have "files (put_vfd (t\<lparr>sys := u\<rparr>) f (\<lambda>q. q)) (A(f \<mapsto> (ino, pos)))"
    by (rule files_pos [OF t(2) ch _ t(4,5) A(2)]) (use t(6,7) le sp io in \<open>auto simp: u_def\<close>)
  moreover have "A(f \<mapsto> (ino, pos)) = A" using A(2) by (simp add: fun_upd_idem)
  moreover have "same_config s t" using s1(3) same_files_config [OF t(3)] by (simp add: same_config_def)
  ultimately show ?thesis using io id by (simp add: same_config_def) (simp add: u_def)
qed

end
