(* ===== verification/Fd_Open.thy ===== *)
theory Fd_Open
  imports Fd_Ops
begin

text \<open>
  Opening and closing virtual files: allocation of an element, growing the array when none is free, making room for
  one more open file, and giving elements back.
\<close>

subsection \<open>Allocating an element\<close>

lemma fd_inv_nextFree:
  assumes "fd_inv s xs fs" and "vfd_ok s a"
  shows "fd_inv (put_vfd s a (\<lambda>p. p\<lparr>nextFree := v\<rparr>)) xs fs"
proof -
  let ?t = "put_vfd s a (\<lambda>p. p\<lparr>nextFree := v\<rparr>)"
  note d = fd_invD [OF assms(1)]
  have "lru.ring ?t 0 xs = lru.ring s 0 xs" by (rule lru.ring_cong) (use d(1,13) assms(2) in auto)
  then have r: "lru.ring ?t 0 xs" using d(2) by simp
  have fdV: "fd (V ?t i) = fd (V s i)" if "vfd_ok s i" for i using that assms(2) by simp
  have vf: "vfile_ok (sys s) (V ?t i)" if "vfd_ok s i" "i \<noteq> 0" "i \<notin> set fs" for i using d(6) [OF that] that(1) assms(2) by (auto simp: vfile_ok_def)
  have fdv: "fd (V ?t i) = -1 \<longleftrightarrow> i \<notin> set xs" if "vfd_ok s i" for i using fdV [OF that] d(7) [OF that] by simp
  have inj: "inj_on (\<lambda>i. fd (V ?t i)) (set xs)" using d(8,13) fdV by (auto simp: inj_on_def)
  show ?thesis unfolding fd_inv_def using d(1,3,4,9-12,15) r vf fdv inj by simp
qed

lemma view_nextFree: "vfd_ok s a \<Longrightarrow> view (put_vfd s a (\<lambda>p. p\<lparr>nextFree := v\<rparr>)) fs = view s fs"
  by (auto simp: view_def fun_eq_iff is_file_def)

definition grown :: "vfds \<Rightarrow> vfds" where
  "grown s = s\<lparr>VfdCache := VfdCache s @ map (\<lambda>i. zero_vfd\<lparr>nextFree := int i + 1, fd := VFD_CLOSED\<rparr>) [length (VfdCache s)..<2 * length (VfdCache s)]\<rparr>"

lemma grown_V:
  "vfd_ok (grown s) i \<longleftrightarrow> 0 \<le> i \<and> i < 2 * int (length (VfdCache s))" "vfd_ok s i \<Longrightarrow> V (grown s) i = V s i" "vfd_ok s i \<Longrightarrow> vfd_ok (grown s) i"
  "int (length (VfdCache s)) \<le> i \<Longrightarrow> i < 2 * int (length (VfdCache s)) \<Longrightarrow> V (grown s) i = zero_vfd\<lparr>nextFree := i + 1, fd := VFD_CLOSED\<rparr>"
  "sys (grown s) = sys s" "nfile (grown s) = nfile s" "FreeFd (grown s) = FreeFd s" "no_files (grown s) = no_files s" "osRanOut (grown s) = osRanOut s"
  "DataDir (grown s) = DataDir s" "DatabaseName (grown s) = DatabaseName s"
  by (auto simp: grown_def V_def vfd_ok_def nth_append nat_less_iff le_nat_iff)

lemma grown_inv:
  assumes inv: "fd_inv s xs []"
  shows "fd_inv (grown s) xs (map int [length (VfdCache s)..<2 * length (VfdCache s)])" and "view (grown s) (map int [length (VfdCache s)..<2 * length (VfdCache s)]) = view s []"
proof -
  note d = fd_invD [OF inv]
  let ?n = "length (VfdCache s)" and ?fs = "map int [length (VfdCache s)..<2 * length (VfdCache s)]"
  have n: "0 < ?n" using d(1) by (simp add: vfd_ok_def)
  have mem: "i \<in> set ?fs \<longleftrightarrow> int ?n \<le> i \<and> i < 2 * int ?n" for i by (auto simp: image_iff intro!: bexI [of _ "nat i"])
  have old: "vfd_ok (grown s) i \<and> i \<notin> set ?fs \<longleftrightarrow> vfd_ok s i" for i
  proof -
    have "vfd_ok s i \<longleftrightarrow> 0 \<le> i \<and> i < int ?n" by (simp add: vfd_ok_def)
    then show ?thesis unfolding grown_V(1) mem by auto
  qed
  have new: "fd (V (grown s) i) = -1" if "i \<in> set ?fs" for i using that mem grown_V(4) by (simp add: VFD_CLOSED_def)
  have xs: "i \<notin> set ?fs" if "i \<in> set xs" for i using d(13) [OF that] mem by (auto simp: vfd_ok_def)
  have "lru.ring (grown s) 0 xs = lru.ring s 0 xs" by (rule lru.ring_cong) (use d(1,13) grown_V(2,3) in auto)
  then have r: "lru.ring (grown s) 0 xs" using d(2) by simp
  have z: "0 \<notin> set ?fs" using n mem by simp
  have fdv: "fd (V (grown s) i) = -1 \<longleftrightarrow> i \<notin> set xs" if "vfd_ok (grown s) i" for i
    using that old [of i] d(7) [of i] grown_V(2) [of s i] new [of i] xs [of i] by (cases "i \<in> set ?fs") auto
  have inj: "inj_on (\<lambda>i. fd (V (grown s) i)) (set xs)" using d(8,13) grown_V(2) by (auto simp: inj_on_def)
  have vf: "vfile_ok (sys s) (V (grown s) i)" if "vfd_ok (grown s) i" "i \<noteq> 0" "i \<notin> set ?fs" for i using that old [of i] d(6) [of i] grown_V(2) [of s i] by auto
  have di: "distinct (0 # ?fs)" using z by (simp add: distinct_map)
  have fsok: "vfd_ok (grown s) i \<and> i \<notin> set xs" if "i \<in> set ?fs" for i using that mem xs [of i] by (auto simp: grown_V(1))
  show "fd_inv (grown s) xs ?fs" unfolding fd_inv_def using d(9-12,15) grown_V(3) [OF d(1)] r di fsok vf fdv inj by (simp add: grown_V(5-8))
  show "view (grown s) ?fs = view s []"
    using old grown_V(2) [of s] by (auto simp: view_def fun_eq_iff is_file_def grown_V(5))
qed

lemma allocate_inv:
  assumes inv: "fd_inv s xs fs" and ch: "free_chain s 0 fs"
  shows "rets (AllocateVfd s) (\<lambda>(t, x). \<exists>fs'. fd_inv t xs (x # fs') \<and> free_chain t 0 fs' \<and> view t (x # fs') = view s fs \<and> sys t = sys s \<and>
    nfile t = nfile s \<and> FreeFd t = FreeFd s \<and> osRanOut t = osRanOut s \<and> no_files t = no_files s \<and> DataDir t = DataDir s \<and> DatabaseName t = DatabaseName s)"
proof -
  note d = fd_invD [OF inv]
  have ne: "VfdCache s \<noteq> []" using d(1) by (auto simp: vfd_ok_def)
  show ?thesis
  proof (cases fs)
    case (Cons x fs')
    have x: "vfd_ok s x" "x \<noteq> 0" "nextFree (V s 0) = x" "x \<notin> set fs'" using Cons d(3,4) ch by auto
    let ?t = "put_vfd s 0 (\<lambda>p. p\<lparr>nextFree := nextFree (V s x)\<rparr>)"
    have "AllocateVfd s = Some (?t, x)" using ne d(1) x by (simp add: AllocateVfd_def)
    moreover have "fd_inv ?t xs (x # fs')" using fd_inv_nextFree [OF inv d(1)] Cons by simp
    moreover have "view ?t (x # fs') = view s fs" using view_nextFree [OF d(1)] Cons by simp
    moreover have "free_chain ?t 0 fs'"
    proof -
      have "free_chain s x fs'" using ch Cons by simp
      show ?thesis
      proof (cases fs')
        case Nil
        then show ?thesis using \<open>free_chain s x fs'\<close> d(1) by simp
      next
        case (Cons y gs)
        have "free_chain s y gs" using \<open>free_chain s x fs'\<close> Cons by simp
        then have "free_chain ?t y gs" by (rule free_chain_cong [where t = ?t]) (use d(1,3,4) \<open>fs = x # fs'\<close> Cons in auto)
        then show ?thesis using \<open>free_chain s x fs'\<close> Cons d(1) by simp
      qed
    qed
    ultimately show ?thesis by (auto intro!: exI [of _ fs'])
  next
    case Nil
    let ?n = "length (VfdCache s)"
    let ?fs = "map int [?n..<2 * ?n]"
    have n: "0 < ?n" using ne by simp
    have h0: "nextFree (V s 0) = 0" using ch Nil by simp
    note g = grown_inv [OF inv [unfolded Nil]]
    have ok: "vfd_ok (grown s) 0" "vfd_ok (grown s) (2 * int ?n - 1)" "vfd_ok (grown s) (int ?n)" using n by (simp_all add: grown_V(1))
    let ?t1 = "put_vfd (grown s) 0 (\<lambda>p. p\<lparr>nextFree := int ?n\<rparr>)"
    let ?t2 = "put_vfd ?t1 (2 * int ?n - 1) (\<lambda>p. p\<lparr>nextFree := 0\<rparr>)"
    let ?t = "put_vfd ?t2 0 (\<lambda>p. p\<lparr>nextFree := nextFree (V ?t2 (int ?n))\<rparr>)"
    have eq: "AllocateVfd s = Some (?t, int ?n)"
      using ne d(1) h0 ok n by (simp add: AllocateVfd_def flip: grown_def) presburger
    have fs: "?fs = int ?n # map int [?n + 1..<2 * ?n]" using n by (simp add: upt_conv_Cons)
    have i: "fd_inv ?t xs ?fs" by (intro fd_inv_nextFree g(1)) (use ok in simp_all)
    have v: "view ?t ?fs = view s []" using ok g(2) by (simp add: view_nextFree)
    have nf: "nextFree (V ?t2 (int k)) = (if Suc k = 2 * ?n then 0 else int k + 1)" if "?n \<le> k" "k < 2 * ?n" for k
    proof -
      have "vfd_ok (grown s) (int k)" using that by (simp add: grown_V(1))
      then show ?thesis using that ok n grown_V(4) [of s "int k"] by auto
    qed
    have c2: "free_chain ?t2 (int k) (map int [Suc k..<2 * ?n])" if "?n \<le> k" "k < 2 * ?n" for k
      using that
    proof (induction "2 * ?n - k" arbitrary: k)
      case (Suc m)
      have "free_chain ?t2 (int (Suc k)) (map int [Suc (Suc k)..<2 * ?n])" if "Suc k \<noteq> 2 * ?n" by (rule Suc(1)) (use Suc(2-4) that in auto)
      then show ?case using nf [of k] Suc(3,4) by (cases "Suc k = 2 * ?n") (auto simp: upt_conv_Cons add.commute)
    qed simp
    have "free_chain ?t 0 (map int [?n + 1..<2 * ?n])"
    proof (cases "Suc ?n = 2 * ?n")
      case True
      then show ?thesis using nf [of ?n] n ok by (auto simp: upt_conv_Nil)
    next
      case False
      then have lt: "?n + 1 < 2 * ?n" using n by linarith
      then have e: "[?n + 1..<2 * ?n] = (?n + 1) # [Suc (?n + 1)..<2 * ?n]" by (simp add: upt_conv_Cons)
      have "free_chain ?t2 (int (?n + 1)) (map int [Suc (?n + 1)..<2 * ?n])" using c2 [of "?n + 1"] False n by simp
      then have "free_chain ?t (int (?n + 1)) (map int [Suc (?n + 1)..<2 * ?n])" 
      proof (rule free_chain_cong)
        fix k assume "k \<in> set (int (?n + 1) # map int [Suc (?n + 1)..<2 * ?n])"
        then have "vfd_ok (grown s) k" "k \<noteq> 0" using lt by (auto simp: grown_V(1))
        then show "nextFree (V ?t k) = nextFree (V ?t2 k)" using ok by simp
      qed
      moreover have "nextFree (V ?t 0) = int (?n + 1)" using nf [of ?n] ok False n by simp
      ultimately show ?thesis unfolding e by simp
    qed
    then show ?thesis using eq i v unfolding fs Nil by (auto simp: grown_V intro!: exI [of _ "map int [?n + 1..<2 * ?n]"])
  qed
qed

subsection \<open>Opening\<close>

text \<open>What opening a path does to the file system: the inode it leads to, if it succeeds.\<close>

definition open_path :: "os \<Rightarrow> string \<Rightarrow> uint32 \<Rightarrow> (os \<times> nat) option" where
  "open_path u path fl = (case names u path of
     Some i \<Rightarrow> if fl AND O_CREAT \<noteq> 0 \<and> fl AND O_EXCL \<noteq> 0 then None
               else Some (if fl AND O_TRUNC \<noteq> 0 then u\<lparr>inodes := (inodes u)[i := []]\<rparr> else u, i)
   | None \<Rightarrow> if fl AND O_CREAT \<noteq> 0
             then Some (u\<lparr>inodes := inodes u @ [[]], names := (names u)(path \<mapsto> length (inodes u))\<rparr>, length (inodes u)) else None)"

lemma c_open_path:
  "c_open u path fl = (case free_descriptor u of None \<Rightarrow> (u, -1) | Some k \<Rightarrow>
     (case open_path u path fl of None \<Rightarrow> (u, -1) | Some (u', i) \<Rightarrow> (set_ofile u' (int k) (Some (i, 0)), int k)))"
  by (simp add: c_open_def open_path_def split: option.splits)

lemma open_path_Some:
  assumes "open_path u path fl = Some (u', i)" and "os_ok u"
  shows "names u' path = Some i" and "\<And>q j. names u q = Some j \<Longrightarrow> names u' q = Some j" and "ofiles u' = ofiles u" and "os_ok u'" and "disk_room u' = disk_room u"
  using assms by (auto simp: open_path_def os_ok_def less_Suc_eq split: option.splits if_splits)

lemma new_flags: "(fl AND NOT (O_TRUNC OR O_EXCL)) AND O_EXCL = 0" "(fl AND NOT (O_TRUNC OR O_EXCL)) AND O_TRUNC = 0"
  by (auto simp: bit_eq_iff bit_simps)

lemma new_file_inv:
  assumes inv: "fd_inv s zs (x # fs)" and k: "free_descriptor (sys s) = Some k" and n: "nfile s < no_files s - 10"
    and op: "open_path (sys s) name fl = Some (u', i)" and r: "lru.ring t 0 (zs @ [x])" and len: "length (VfdCache t) = length (VfdCache s)"
    and V: "\<And>j. vfd_ok s j \<Longrightarrow> j \<noteq> x \<Longrightarrow> fd (V t j) = fd (V s j) \<and> file_part (V t j) = file_part (V s j)"
    and Vx: "fd (V t x) = int k" "fileName (V t x) = name" "fileFlags (V t x) = fl AND NOT (O_TRUNC OR O_EXCL)" "seekPos (V t x) = 0"
    and sys: "sys t = set_ofile u' (int k) (Some (i, 0))" and nf: "nfile t = nfile s + 1" "no_files t = no_files s" "FreeFd t = FreeFd s"
  shows "fd_inv t (zs @ [x]) fs" and "view t fs = (view s (x # fs))(x \<mapsto> (i, 0))"
proof -
  note d = fd_invD [OF inv] and kl = free_descriptor_Some [OF k] and ku = descriptor_unused [OF inv k]
  note o = open_path_Some [OF op d(12)]
  have ok: "vfd_ok t j = vfd_ok s j" for j using len by (simp add: vfd_ok_def)
  have x: "vfd_ok s x" "x \<noteq> 0" "x \<notin> set fs" "x \<notin> set zs" using d(3,4) by auto
  have kk: "0 \<le> int k" "int k < int (length (ofiles u'))" using kl(1) o(3) by simp_all
  have of: "ofile (sys t) j = (if j = int k then Some (i, 0) else ofile (sys s) j)" for j
    unfolding sys ofile_set_ofile [OF kk] using o(3) by (simp add: ofile_def)
  have nm: "names (sys t) = names u'" using sys by simp
  have vf: "vfile_ok (sys t) (V t j)" if "vfd_ok t j" "j \<noteq> 0" "j \<notin> set fs" for j
  proof (cases "j = x")
    case True
    then show ?thesis using Vx of o(1) nm new_flags by (simp add: vfile_ok_def)
  next
    case False
    have j: "vfile_ok (sys s) (V s j)" using d(6) [of j] that ok False by simp
    obtain ino where ino: "names (sys s) (fileName (V s j)) = Some ino" "fd (V s j) = -1 \<or> 0 \<le> fd (V s j) \<and> ofile (sys s) (fd (V s j)) = Some (ino, seekPos (V s j))"
      using j by (auto simp: vfile_ok_def)
    have "fd (V s j) \<noteq> int k" using ku [of j] d(7) [of j] that(1) ok by fastforce
    then show ?thesis using V [of j] that(1) ok False j ino of o(2) [OF ino(1)] nm by (auto simp: vfile_ok_def file_part_def)
  qed
  have fdV: "fd (V t j) = (if j = x then int k else fd (V s j))" if "vfd_ok s j" for j using V [OF that] Vx by auto
  have fdv: "fd (V t j) = -1 \<longleftrightarrow> j \<notin> set (zs @ [x])" if "vfd_ok t j" for j using fdV [of j] that ok d(7) [of j] by auto
  have "inj_on (\<lambda>j. fd (V t j)) (set zs)" using d(8,13) fdV x(4) by (auto simp: inj_on_def)
  moreover have "fd (V t j) \<noteq> fd (V t x)" if "j \<in> set zs" for j using fdV [of j] fdV [of x] d(13) [OF that] ku [OF that] x that by auto
  ultimately have inj: "inj_on (\<lambda>j. fd (V t j)) (set (zs @ [x]))" by force
  have oo: "os_ok (sys t)" using o(4) unfolding sys by (simp add: os_ok_def)
  show "fd_inv t (zs @ [x]) fs"
    unfolding fd_inv_def using d(1,3,4,9,11,15) ok r vf fdv inj oo nf n by auto
  have "names u' (fileName (V s j)) = names (sys s) (fileName (V s j))" if "is_file s (x # fs) j" for j
    using d(6) [of j] that o(2) by (auto simp: is_file_def vfile_ok_def)
  then show "view t fs = (view s (x # fs))(x \<mapsto> (i, 0))"
    using x ok V Vx o(1) nm by (auto simp: view_def fun_eq_iff is_file_def file_part_def)
qed

lemma files_fresh_view: "fd_inv s xs fs \<Longrightarrow> i \<in> insert 0 (set fs) \<Longrightarrow> view s fs i = None"
  by (auto simp: view_def is_file_def)

lemma make_room:
  assumes inv: "fd_inv s xs fs" and rm: "xs = [] \<longrightarrow> free_descriptor (sys s) \<noteq> None \<and> (0 < FreeFd s \<or> \<not> osRanOut s)"
  shows "rets (do { n \<leftarrow> pg_nofile s; s \<leftarrow> (if nfile s \<ge> n \<or> (FreeFd s = 0 \<and> osRanOut s) then AssertLruRoom s else Some s); try_again True s })
    (\<lambda>t. \<exists>zs. fd_inv t zs fs \<and> same_files s t \<and> nfile t < no_files s - 10 \<and> free_descriptor (sys t) \<noteq> None \<and>
      (zs = [] \<longrightarrow> 0 < FreeFd t \<or> xs = [] \<and> t = s))"
proof -
  let ?c = "nfile s \<ge> no_files s - 10 \<or> (FreeFd s = 0 \<and> osRanOut s)"
  have nf: "pg_nofile s = Some (no_files s - 10)" by (rule nofile_inv [OF inv])
  have ne: "xs \<noteq> []" if ?c using that rm fd_invD(9-11) [OF inv] by auto
  have "rets (if ?c then AssertLruRoom s else Some s) (\<lambda>t. \<exists>ys. fd_inv t ys fs \<and> same_files s t \<and> nfile t < no_files s - 10 \<and>
    (ys \<noteq> [] \<or> free_descriptor (sys t) \<noteq> None) \<and> (ys = [] \<longrightarrow> 0 < FreeFd t \<or> xs = [] \<and> t = s))"
  proof (cases ?c)
    case True
    show ?thesis unfolding if_P [OF True]
      by (rule rets_mono [OF assert_room_inv [OF inv]]) (use ne [OF True] fd_invD(15) [OF inv] in auto)
  next
    case False
    then show ?thesis using inv rm by auto
  qed
  then have "rets ((if ?c then AssertLruRoom s else Some s) \<bind> try_again True) (\<lambda>t. \<exists>zs. fd_inv t zs fs \<and> same_files s t \<and> nfile t < no_files s - 10 \<and>
    free_descriptor (sys t) \<noteq> None \<and> (zs = [] \<longrightarrow> 0 < FreeFd t \<or> xs = [] \<and> t = s))"
  proof (rule rets_bind, elim exE conjE)
    fix t ys
    assume t: "fd_inv t ys fs" "same_files s t" "nfile t < no_files s - 10" "ys \<noteq> [] \<or> free_descriptor (sys t) \<noteq> None" "ys = [] \<longrightarrow> 0 < FreeFd t \<or> xs = [] \<and> t = s"
    show "rets (try_again True t) (\<lambda>t. \<exists>zs. fd_inv t zs fs \<and> same_files s t \<and> nfile t < no_files s - 10 \<and> free_descriptor (sys t) \<noteq> None \<and> (zs = [] \<longrightarrow> 0 < FreeFd t \<or> xs = [] \<and> t = s))"
    proof (rule rets_mono [OF try_again_inv [OF t(1,4)]], elim exE conjE)
      fix t' zs
      assume t': "fd_inv t' zs fs" "same_files t t'" "free_descriptor (sys t') \<noteq> None" "t' = t \<and> zs = ys \<or> ys = hd ys # zs \<and> FreeFd t' = 1"
      have "length zs \<le> length ys" using t'(4) by (metis impossible_Cons nle_le)
      then have "nfile t' < no_files s - 10" using fd_invD(9) [OF t(1)] fd_invD(9) [OF t'(1)] t(3) by simp
      then show "\<exists>zs. fd_inv t' zs fs \<and> same_files s t' \<and> nfile t' < no_files s - 10 \<and> free_descriptor (sys t') \<noteq> None \<and> (zs = [] \<longrightarrow> 0 < FreeFd t' \<or> xs = [] \<and> t' = s)"
        using t' t(5) same_files_trans [OF t(2) t'(2)] by auto
    qed
  qed
  then show ?thesis using nf by simp
qed

lemma fd_inv_put_free:
  assumes inv: "fd_inv s xs (x # fs)" and g: "\<And>p. lruMoreRecently (g p) = lruMoreRecently p" "\<And>p. lruLessRecently (g p) = lruLessRecently p" "fd (g (V s x)) = -1"
  shows "fd_inv (put_vfd s x g) xs (x # fs)" and "view (put_vfd s x g) (x # fs) = view s (x # fs)"
proof -
  let ?t = "put_vfd s x g"
  note d = fd_invD [OF inv]
  have x: "vfd_ok s x" "x \<noteq> 0" "x \<notin> set xs" using d(3,4) by auto
  have "lru.ring ?t 0 xs = lru.ring s 0 xs" by (rule lru.ring_cong) (use d(1,13) x g in auto)
  then have r: "lru.ring ?t 0 xs" using d(2) by simp
  have V: "V ?t i = (if i = x then g (V s x) else V s i)" if "vfd_ok s i" for i using that x by simp
  have fdv: "fd (V ?t i) = -1 \<longleftrightarrow> i \<notin> set xs" if "vfd_ok s i" for i using V [OF that] d(7) [OF that] g(3) x by auto
  have inj: "inj_on (\<lambda>i. fd (V ?t i)) (set xs)" using d(8,13) V x by (auto simp: inj_on_def)
  have vf: "vfile_ok (sys s) (V ?t i)" if "vfd_ok s i" "i \<noteq> 0" "i \<notin> set (x # fs)" for i using d(6) [OF that] V that by simp
  show "fd_inv ?t xs (x # fs)" unfolding fd_inv_def using d(1,3,4,9-12,15) r vf fdv inj by simp
  show "view ?t (x # fs) = view s (x # fs)" using V by (auto simp: view_def fun_eq_iff is_file_def)
qed

lemma free_inv:
  assumes inv: "fd_inv s xs (x # fs)" and ch: "free_chain s 0 fs"
  shows "rets (FreeVfd s x) (\<lambda>t. fd_inv t xs (x # fs) \<and> free_chain t 0 (x # fs) \<and> view t (x # fs) = view s (x # fs) \<and> sys t = sys s \<and>
    nfile t = nfile s \<and> FreeFd t = FreeFd s \<and> osRanOut t = osRanOut s \<and> no_files t = no_files s \<and> DataDir t = DataDir s \<and> DatabaseName t = DatabaseName s)"
proof -
  note d = fd_invD [OF inv]
  have x: "vfd_ok s x" "x \<noteq> 0" "x \<notin> set fs" using d(3,4) by auto
  let ?t1 = "put_vfd s x (\<lambda>p. p\<lparr>nextFree := nextFree (V s 0)\<rparr>)"
  let ?t = "put_vfd ?t1 0 (\<lambda>p. p\<lparr>nextFree := x\<rparr>)"
  have "FreeVfd s x = Some ?t" using d(1) x by (simp add: FreeVfd_def)
  moreover have "fd_inv ?t xs (x # fs)" by (intro fd_inv_nextFree inv) (use d(1) x in simp_all)
  moreover have "view ?t (x # fs) = view s (x # fs)" using d(1) x by (simp add: view_nextFree)
  moreover have "free_chain ?t 0 (x # fs)"
  proof (cases fs)
    case Nil then show ?thesis using ch d(1) x by simp
  next
    case (Cons y gs)
    then have "free_chain s y gs" using ch by simp
    then have "free_chain ?t y gs" by (rule free_chain_cong [where t = ?t]) (use d(1,3,4) x Cons in auto)
    then show ?thesis using ch d(1) x Cons by simp
  qed
  ultimately show ?thesis by simp
qed

text \<open>
  Opening a path: the new file is at position zero of the inode the path leads to; when the path cannot be opened,
  the files stay as they are and the result is -1.
\<close>

lemma same_files_sys: "same_files s t \<Longrightarrow> names (sys t) = names (sys s) \<and> inodes (sys t) = inodes (sys s) \<and> disk_room (sys t) = disk_room (sys s)"
  by (simp add: same_files_def)

lemma open_path_cong:
  assumes "names u = names v" and "inodes u = inodes v"
  shows "(case open_path u path fl of None \<Rightarrow> open_path v path fl = None | Some (u', i) \<Rightarrow>
    (\<exists>v'. open_path v path fl = Some (v', i) \<and> names u' = names v' \<and> inodes u' = inodes v'))"
  using assms by (auto simp: open_path_def split: option.splits)

definition opened :: "vfds \<Rightarrow> (int \<rightharpoonup> nat \<times> int) \<Rightarrow> string \<Rightarrow> uint32 \<Rightarrow> vfds \<Rightarrow> int \<Rightarrow> bool" where
  "opened s A path fl t x \<longleftrightarrow> no_files t = no_files s \<and> DataDir t = DataDir s \<and> DatabaseName t = DatabaseName s \<and> disk_room (sys t) = disk_room (sys s) \<and>
     (case open_path (sys s) path fl of
        None \<Rightarrow> x = -1 \<and> files t A \<and> names (sys t) = names (sys s) \<and> inodes (sys t) = inodes (sys s)
      | Some (u, i) \<Rightarrow> 0 < x \<and> A x = None \<and> files t (A(x \<mapsto> (i, 0))) \<and> names (sys t) = names u \<and> inodes (sys t) = inodes u)"

lemma finish_open_fail:
  assumes s3: "fd_inv s3 zs (x # fs')" "free_chain s3 0 fs'" "view s3 (x # fs') = A" and fr: "free_descriptor (sys s3) = Some k"
    and z: "zs = [] \<longrightarrow> 0 < FreeFd s3 \<or> A = (\<lambda>_. None) \<and> \<not> osRanOut s3"
  shows "rets (FreeVfd (put_vfd s3 x (\<lambda>p. p\<lparr>fd := -1, fdstate := 0\<rparr>)) x) (\<lambda>t. files t A \<and> sys t = sys s3 \<and> no_files t = no_files s3 \<and> DataDir t = DataDir s3 \<and> DatabaseName t = DatabaseName s3)"
proof -
  let ?s = "put_vfd s3 x (\<lambda>p. p\<lparr>fd := -1, fdstate := 0\<rparr>)"
  have p: "fd_inv ?s zs (x # fs')" "view ?s (x # fs') = A" using fd_inv_put_free [OF s3(1), of "\<lambda>p. p\<lparr>fd := -1, fdstate := 0\<rparr>"] s3(3) by simp_all
  have "free_chain ?s 0 fs'" by (rule free_chain_cong [OF s3(2)]) (use fd_invD(1,3,4) [OF s3(1)] in auto)
  from free_inv [OF p(1) this] show ?thesis
  proof (rule rets_mono, elim conjE)
    fix t assume t: "fd_inv t zs (x # fs')" "free_chain t 0 (x # fs')" "view t (x # fs') = view ?s (x # fs')" "sys t = sys ?s" "FreeFd t = FreeFd ?s" "osRanOut t = osRanOut ?s"
      "no_files t = no_files ?s" "DataDir t = DataDir ?s" "DatabaseName t = DatabaseName ?s"
    have "files t A" unfolding files_def
      by (intro exI [of _ zs] exI [of _ "x # fs'"]) (use t p(2) fr z in \<open>auto simp: avail_def\<close>)
    then show "files t A \<and> sys t = sys s3 \<and> no_files t = no_files s3 \<and> DataDir t = DataDir s3 \<and> DatabaseName t = DatabaseName s3" using t by simp
  qed
qed

lemma finish_open:
  assumes s3: "fd_inv s3 zs (x # fs')" "free_chain s3 0 fs'" "view s3 (x # fs') = A" and fr: "free_descriptor (sys s3) = Some k" and n: "nfile s3 < no_files s3 - 10"
    and op: "open_path (sys s3) name fl = Some (u', i)"
    and s5: "s5 = put_vfd (s3\<lparr>sys := set_ofile u' (int k) (Some (i, 0)), nfile := nfile s3 + 1\<rparr>) x (\<lambda>p. p\<lparr>fd := int k, fdstate := 0\<rparr>)"
  shows "rets (do { (s, _) \<leftarrow> LruInsert s5 x; vfd_upd s x (\<lambda>p. p\<lparr>fileName := name, fileFlags := fl AND NOT (O_TRUNC OR O_EXCL), fileMode := mode, seekPos := 0\<rparr>) })
    (\<lambda>t. files t (A(x \<mapsto> (i, 0))) \<and> sys t = set_ofile u' (int k) (Some (i, 0)) \<and> no_files t = no_files s3 \<and> DataDir t = DataDir s3 \<and> DatabaseName t = DatabaseName s3)"
proof -
  note d = fd_invD [OF s3(1)]
  have x: "vfd_ok s3 x" "x \<noteq> 0" "x \<notin> set zs" "x \<notin> set fs'" using d(3,4) by auto
  have V5: "V s5 j = (if j = x then (V s3 x)\<lparr>fd := int k, fdstate := 0\<rparr> else V s3 j)" "vfd_ok s5 j = vfd_ok s3 j" if "vfd_ok s3 j" for j using that x by (simp_all add: s5)
  have ok5: "vfd_ok s5 x" "fd (V s5 x) = int k" using x by (simp_all add: s5)
  have "lru.ring s5 0 zs = lru.ring s3 0 zs" by (rule lru.ring_cong) (use d(1,13) x in \<open>auto simp: s5\<close>)
  then have r: "lru.ring s5 0 zs" using d(2) by simp
  from lru_insert_ring [OF r ok5(1) x(2,3)] obtain s6 where s6: "Insert s5 x = Some s6" "lru.ring s6 0 (zs @ [x])" "relinked s5 s6" by (elim retsE) auto
  have li: "LruInsert s5 x = Some (s6, 0)" using ok5 s6(1) by (simp add: LruInsert_def FileIsNotOpen_def VFD_CLOSED_def)
  let ?g = "\<lambda>p. p\<lparr>fileName := name, fileFlags := fl AND NOT (O_TRUNC OR O_EXCL), fileMode := mode, seekPos := 0\<rparr>"
  let ?t = "put_vfd s6 x ?g"
  have ok6: "vfd_ok s6 j = vfd_ok s3 j" for j using relinked_ok [OF s6(3)] by (simp add: s5)
  note rl = relinked_fields [OF s6(3)] relinked_V [OF s6(3)]
  have Vt: "V ?t j = (if j = x then ?g (V s6 x) else V s6 j)" if "vfd_ok s3 j" for j using that x(1) ok6 by simp
  have "lru.ring ?t 0 (zs @ [x]) = lru.ring s6 0 (zs @ [x])" by (rule lru.ring_cong) (use d(1,13) x(1) ok6 in auto)
  then have rt: "lru.ring ?t 0 (zs @ [x])" using s6(2) by simp
  have len: "length (VfdCache ?t) = length (VfdCache s3)" using s6(3) by (simp add: relinked_def s5)
  have part: "fd (V ?t j) = fd (V s3 j) \<and> file_part (V ?t j) = file_part (V s3 j)" if "vfd_ok s3 j" "j \<noteq> x" for j
    using Vt [OF that(1)] V5 [OF that(1)] rl(9-15) [of j] that by (simp add: file_part_def)
  have Vx: "fd (V ?t x) = int k" "fileName (V ?t x) = name" "fileFlags (V ?t x) = fl AND NOT (O_TRUNC OR O_EXCL)" "seekPos (V ?t x) = 0"
    using Vt [OF x(1)] ok5 rl(9) [OF ok5(1)] by simp_all
  have fld: "sys ?t = set_ofile u' (int k) (Some (i, 0))" "nfile ?t = nfile s3 + 1" "no_files ?t = no_files s3" "FreeFd ?t = FreeFd s3" "DataDir ?t = DataDir s3" "DatabaseName ?t = DatabaseName s3"
    using rl by (simp_all add: s5)
  note new = new_file_inv [OF s3(1) fr n op rt len part Vx fld(1-4)]
  have "free_chain ?t 0 fs'"
    by (rule free_chain_cong [OF s3(2)]) (use part d(1,4) x in \<open>auto simp: file_part_def\<close>)
  then have "files ?t (A(x \<mapsto> (i, 0)))" unfolding files_def
    by (intro exI [of _ "zs @ [x]"] exI [of _ fs']) (use new s3(3) in auto)
  then show ?thesis using li x(1) ok6 fld by simp
qed

lemma files_open:
  assumes A: "files s A"
  shows "rets (fileNameOpenFile s path fl mode) (\<lambda>(t, x). opened s A path fl t x)"
proof -
  obtain xs fs where inv: "fd_inv s xs fs" and ch: "free_chain s 0 fs" and av: "A \<noteq> (\<lambda>_. None) \<longrightarrow> avail s xs"
    and rm: "xs = [] \<longrightarrow> free_descriptor (sys s) \<noteq> None \<and> (0 < FreeFd s \<or> \<not> osRanOut s)" and V: "A = view s fs" using A by (auto simp: files_def)
  from allocate_inv [OF inv ch] obtain s1 x fs' where s1: "AllocateVfd s = Some (s1, x)" "fd_inv s1 xs (x # fs')" "free_chain s1 0 fs'" "view s1 (x # fs') = A" "sys s1 = sys s"
    "FreeFd s1 = FreeFd s" "osRanOut s1 = osRanOut s" "no_files s1 = no_files s" "DataDir s1 = DataDir s" "DatabaseName s1 = DatabaseName s" using V by (elim retsE) auto
  have rm1: "xs = [] \<longrightarrow> free_descriptor (sys s1) \<noteq> None \<and> (0 < FreeFd s1 \<or> \<not> osRanOut s1)" using rm s1(5-7) by simp
  from make_room [OF s1(2) rm1] obtain s3 zs where mr: "do { n \<leftarrow> pg_nofile s1; s \<leftarrow> (if nfile s1 \<ge> n \<or> (FreeFd s1 = 0 \<and> osRanOut s1) then AssertLruRoom s1 else Some s1); try_again True s } = Some s3"
    and s3: "fd_inv s3 zs (x # fs')" "same_files s1 s3" "nfile s3 < no_files s1 - 10" "free_descriptor (sys s3) \<noteq> None" "zs = [] \<longrightarrow> 0 < FreeFd s3 \<or> xs = [] \<and> s3 = s1" by (elim retsE) blast
  have eq: "fileNameOpenFile s path fl mode = do {
     (u, d) \<leftarrow> Some (c_open (sys s3) path fl);
     s \<leftarrow> vfd_upd (s3\<lparr>sys := u\<rparr>) x (\<lambda>x. x\<lparr>fd := sint16 d, fdstate := 0\<rparr>);
     p \<leftarrow> vfd_at s x;
     if fd p < 0 then do { s \<leftarrow> FreeVfd s x; Some (s, -1) }
     else do {
       s \<leftarrow> Some (s\<lparr>nfile := nfile s + 1\<rparr>);
       (s, _) \<leftarrow> LruInsert s x;
       s \<leftarrow> vfd_upd s x (\<lambda>x. x\<lparr>fileName := path, fileFlags := fl AND NOT (O_TRUNC OR O_EXCL), fileMode := mode, seekPos := 0\<rparr>);
       Some (s, x)
     }
   }"
    unfolding fileNameOpenFile_def s1(1) using mr by (auto split: Option.bind_splits)
  obtain k where k: "free_descriptor (sys s3) = Some k" using s3(4) by auto
  have ch3: "free_chain s3 0 fs'" by (rule free_chain_same [OF s1(3) s3(2)]) (use fd_invD(1,4) [OF s1(2)] in auto)
  have v3: "view s3 (x # fs') = A" using view_same [OF s3(2)] s1(4) by simp
  have sy: "names (sys s3) = names (sys s)" "inodes (sys s3) = inodes (sys s)" "disk_room (sys s3) = disk_room (sys s)" using same_files_sys [OF s3(2)] s1(5) by simp_all
  have cf: "no_files s3 = no_files s" "DataDir s3 = DataDir s" "DatabaseName s3 = DatabaseName s" using s3(2) s1(8-10) by (simp_all add: same_files_def)
  have x: "vfd_ok s3 x" "0 < x" using fd_invD(3,4) [OF s3(1)] by (auto simp: vfd_ok_def order_le_less)
  note cong = open_path_cong [OF sy(1,2), of path fl]
  show ?thesis
  proof (cases "open_path (sys s3) path fl")
    case None
    have "c_open (sys s3) path fl = (sys s3, -1)" using None k by (simp add: c_open_path)
    moreover have "sint16 (-1) = -1" by (rule sint16_id) simp_all
    moreover have "s3\<lparr>sys := sys s3\<rparr> = s3" by simp
    ultimately have eq': "fileNameOpenFile s path fl mode = do { s \<leftarrow> FreeVfd (put_vfd s3 x (\<lambda>p. p\<lparr>fd := -1, fdstate := 0\<rparr>)) x; Some (s, -1) }"
      unfolding eq using x(1) by simp
    have z: "zs = [] \<longrightarrow> 0 < FreeFd s3 \<or> A = (\<lambda>_. None) \<and> \<not> osRanOut s3" using s3(5) av rm s1(6,7) by (auto simp: avail_def)
    have "open_path (sys s) path fl = None" using cong None by (simp split: option.splits)
    then show ?thesis unfolding eq'
      by (intro rets_bind [OF finish_open_fail [OF s3(1) ch3 v3 k z]]) (use cf sy in \<open>auto simp: opened_def\<close>)
  next
    case (Some ui)
    obtain u' i where ui: "ui = (u', i)" by (cases ui)
    have kl: "k < 32768" using fd_invD(12) [OF s3(1)] free_descriptor_Some(1) [OF k] by (simp add: os_ok_def)
    have s16: "sint16 (int k) = int k" by (rule sint16_id) (use kl in simp_all)
    have co: "c_open (sys s3) path fl = (set_ofile u' (int k) (Some (i, 0)), int k)" using Some ui k by (simp add: c_open_path)
    define s5 where "s5 = put_vfd (s3\<lparr>sys := set_ofile u' (int k) (Some (i, 0)), nfile := nfile s3 + 1\<rparr>) x (\<lambda>p. p\<lparr>fd := int k, fdstate := 0\<rparr>)"
    have eq': "fileNameOpenFile s path fl mode = do { t \<leftarrow> do { (s, _) \<leftarrow> LruInsert s5 x; vfd_upd s x (\<lambda>p. p\<lparr>fileName := path, fileFlags := fl AND NOT (O_TRUNC OR O_EXCL), fileMode := mode, seekPos := 0\<rparr>) }; Some (t, x) }"
      unfolding eq using x(1) co s16 by (auto simp: s5_def put_vfd_comm split: Option.bind_splits)
    have n3: "nfile s3 < no_files s3 - 10" using s3(3) s1(8) cf by simp
    obtain v' where v': "open_path (sys s) path fl = Some (v', i)" "names u' = names v'" "inodes u' = inodes v'" using cong Some ui by auto
    have ur: "disk_room u' = disk_room (sys s)" using open_path_Some(5) [OF Some [unfolded ui] fd_invD(12) [OF s3(1)]] sy by simp
    have "view s3 (x # fs') x = None" by (simp add: view_def is_file_def)
    then have ax: "A x = None" unfolding v3 .
    show ?thesis unfolding eq'
      by (rule rets_bind [OF finish_open [OF s3(1) ch3 v3 k n3 Some [unfolded ui] s5_def]])
        (use x v' ur ax cf in \<open>auto simp: opened_def\<close>)
  qed
qed

subsection \<open>Closing\<close>

lemma reserve_inv:
  assumes inv: "fd_inv s xs fs" and f: "is_file s fs f" "f \<notin> set xs"
  shows "fd_inv s xs (f # fs)" and "view s (f # fs) = (view s fs)(f := None)"
  using inv f by (auto simp: fd_inv_def is_file_def view_def fun_eq_iff)

lemma close_open_inv:
  assumes inv: "fd_inv s (as @ f # bs) fs"
  shows "rets (close_vfd s f) (\<lambda>t. \<exists>s'. fd_inv s' (as @ bs) fs \<and> same_files s s' \<and> FreeFd s' = FreeFd s + 1 \<and> free_descriptor (sys s') \<noteq> None \<and> FreeVfd s' f = Some t)"
proof -
  note d = fd_invD [OF inv]
  obtain ino where x: "vfd_ok s f" "f \<noteq> 0" "0 \<le> fd (V s f)" "ofile (sys s) (fd (V s f)) = Some (ino, seekPos (V s f))" using open_file [OF inv, of f] by auto
  obtain t0 where t0: "Delete s f = Some t0" "lru.ring t0 0 (as @ bs)" "relinked s t0" using lru_delete_ring [OF d(2)] by (elim retsE) auto
  note rl = relinked_ok [OF t0(3)] relinked_fields [OF t0(3)] relinked_V [OF t0(3)]
  let ?t1 = "t0\<lparr>FreeFd := FreeFd t0 + 1\<rparr>"
  obtain t2 where t2: "sync_dirty ?t1 f = Some t2" "t2 = (if fdstate (V s f) AND FD_DIRTY \<noteq> 0 then put_vfd ?t1 f (\<lambda>p. p\<lparr>fdstate := fdstate p AND NOT FD_DIRTY\<rparr>) else ?t1)"
    using sync_dirty_eq [of ?t1 f] rl x by simp
  have cl: "c_close (sys t2) (fd (V t2 f)) = (set_ofile (sys s) (fd (V s f)) None, 0)" "vfd_ok t2 i = vfd_ok s i" for i
    using t2(2) rl x by (auto simp: c_close_def)
  let ?t = "put_vfd (t2\<lparr>sys := set_ofile (sys s) (fd (V s f)) None, nfile := nfile t2 - 1\<rparr>) f (\<lambda>p. p\<lparr>fd := VFD_CLOSED\<rparr>)"
  have eq: "close_vfd s f = FreeVfd ?t f"
    using x t0(1) rl(1) t2(1) cl by (simp add: close_vfd_def FileIsNotOpen_def VFD_CLOSED_def)
  have cf: "closed_file s f t0 ?t"
    unfolding closed_file_def using t2(2) rl x(1) t0(3) by (simp add: relinked_def file_part_def VFD_CLOSED_def)
  note c = closed_file_inv [OF inv t0(2,3) cf]
  have ok: "vfd_ok ?t 0" "vfd_ok ?t f" using fd_invD(1) [OF c(1)] x(1) same_files_ok [OF c(2)] by simp_all
  then obtain t where "FreeVfd ?t f = Some t" by (simp add: FreeVfd_def)
  moreover have "free_descriptor (sys ?t) \<noteq> None" using free_descriptor_ofile [OF c(3) x(3) c(4)] .
  ultimately show ?thesis unfolding eq using c cf by (auto simp: closed_file_def)
qed

lemma FileClose_files:
  assumes A: "files s A" "A f = Some e"
  shows "rets (FileClose s f) (\<lambda>t. files t (A(f := None)) \<and> same_config s t \<and> inodes (sys t) = inodes (sys s) \<and> disk_room (sys t) = disk_room (sys s))"
proof -
  obtain xs fs where inv: "fd_inv s xs fs" and ch: "free_chain s 0 fs" and V: "A = view s fs" and av: "avail s xs"
    and rm: "xs = [] \<longrightarrow> free_descriptor (sys s) \<noteq> None \<and> (0 < FreeFd s \<or> \<not> osRanOut s)" using A by (auto simp: files_def)
  have f: "is_file s fs f" using A(2) V by (simp add: view_def split: if_splits)
  then have fo: "vfd_ok s f" by (simp add: is_file_def)
  have fin: "rets (FreeVfd s' f) (\<lambda>t. files t (A(f := None)) \<and> same_config s t \<and> inodes (sys t) = inodes (sys s) \<and> disk_room (sys t) = disk_room (sys s))"
    if s': "fd_inv s' ys fs" "same_files s s'" "f \<notin> set ys" "ys \<noteq> [] \<or> 0 < FreeFd s' \<and> free_descriptor (sys s') \<noteq> None" for s' ys
  proof -
    have f': "is_file s' fs f" using f is_file_same [OF s'(2)] by simp
    note r = reserve_inv [OF s'(1) f' s'(3)]
    have ch': "free_chain s' 0 fs" by (rule free_chain_same [OF ch s'(2)]) (use fd_invD(1,4) [OF inv] in auto)
    have v: "view s' (f # fs) = A(f := None)" using r(2) view_same [OF s'(2)] V by simp
    have cfg: "same_config s s'" "inodes (sys s') = inodes (sys s)" "disk_room (sys s') = disk_room (sys s)" using same_files_config [OF s'(2)] same_files_sys [OF s'(2)] by simp_all
    show ?thesis
    proof (rule rets_mono [OF free_inv [OF r(1) ch']], elim conjE)
      fix t assume t: "fd_inv t ys (f # fs)" "free_chain t 0 (f # fs)" "view t (f # fs) = view s' (f # fs)" "sys t = sys s'" "FreeFd t = FreeFd s'" "osRanOut t = osRanOut s'"
        "no_files t = no_files s'" "DataDir t = DataDir s'" "DatabaseName t = DatabaseName s'"
      have "files t (A(f := None))" unfolding files_def
        by (intro exI [of _ ys] exI [of _ "f # fs"]) (use t v s'(4) in \<open>auto simp: avail_def\<close>)
      then show "files t (A(f := None)) \<and> same_config s t \<and> inodes (sys t) = inodes (sys s) \<and> disk_room (sys t) = disk_room (sys s)" using t cfg by (simp add: same_config_def)
    qed
  qed
  show ?thesis
  proof (cases "f \<in> set xs")
    case True
    then obtain as bs where xs: "xs = as @ f # bs" by (meson split_list)
    have nf: "f \<notin> set (as @ bs)" using fd_invD(14) [OF inv] xs by simp
    from close_open_inv [OF inv [unfolded xs]] obtain s' t where "close_vfd s f = Some t" "FreeVfd s' f = Some t" "fd_inv s' (as @ bs) fs" "same_files s s'" "FreeFd s' = FreeFd s + 1" "free_descriptor (sys s') \<noteq> None"
      by (elim retsE) auto
    then show ?thesis using fin [of s' "as @ bs"] nf fd_invD(15) [OF inv] by (simp add: FileClose_def)
  next
    case False
    then have "close_vfd s f = FreeVfd s f" using fd_invD(7) [OF inv fo] fo by (simp add: close_vfd_def FileIsNotOpen_def VFD_CLOSED_def)
    then show ?thesis using fin [of s xs] inv False av by (auto simp: FileClose_def avail_def)
  qed
qed

lemma FileInvalidate_files:
  assumes A: "files s A" "A f = Some e"
  shows "rets (FileInvalidate s f) (\<lambda>t. files t A \<and> same_config s t \<and> inodes (sys t) = inodes (sys s) \<and> disk_room (sys t) = disk_room (sys s) \<and> length (VfdCache t) = length (VfdCache s))"
proof -
  obtain xs fs where inv: "fd_inv s xs fs" and ch: "free_chain s 0 fs" and V: "A = view s fs" using A by (auto simp: files_def)
  have f: "is_file s fs f" using A(2) V by (simp add: view_def split: if_splits)
  then have fo: "vfd_ok s f" "0 < f" by (auto simp: is_file_def vfd_ok_def)
  show ?thesis
  proof (cases "f \<in> set xs")
    case True
    then obtain as bs where xs: "xs = as @ f # bs" by (meson split_list)
    have eq: "FileInvalidate s f = LruDelete s f" using fo fd_invD(7) [OF inv fo(1)] True by (simp add: FileInvalidate_def FileIsNotOpen_def VFD_CLOSED_def)
    show ?thesis unfolding eq
    proof (rule rets_mono [OF lru_delete_inv [OF inv [unfolded xs]]], elim conjE)
      fix t assume t: "fd_inv t (as @ bs) fs" "same_files s t" "FreeFd t = FreeFd s + 1" "ofile (sys t) (fd (V s f)) = None" "fd (V s f) < int (length (ofiles (sys t)))"
      have fr: "free_descriptor (sys t) \<noteq> None" using free_descriptor_ofile [OF t(4) _ t(5)] open_file(3) [OF inv True] by simp
      have "free_chain t 0 fs" by (rule free_chain_same [OF ch t(2)]) (use fd_invD(1,4) [OF inv] in auto)
      then have "files t A" unfolding files_def
        by (intro exI [of _ "as @ bs"] exI [of _ fs]) (use t fr fd_invD(15) [OF inv] V view_same [OF t(2)] in \<open>auto simp: avail_def\<close>)
      then show "files t A \<and> same_config s t \<and> inodes (sys t) = inodes (sys s) \<and> disk_room (sys t) = disk_room (sys s) \<and> length (VfdCache t) = length (VfdCache s)"
        using same_files_config [OF t(2)] same_files_sys [OF t(2)] t(2) by (simp add: same_files_def)
    qed
  next
    case False
    then have "FileInvalidate s f = Some s" using fo fd_invD(7) [OF inv fo(1)] by (simp add: FileInvalidate_def FileIsNotOpen_def VFD_CLOSED_def)
    then show ?thesis using A(1) by (simp add: same_config_def)
  qed
qed

subsection \<open>Closing all files, and making room for another\<close>

lemma closed_element:
  assumes "files s A" and "vfd_ok s f" and "A f = None"
  shows "FileIsNotOpen s f = Some True"
proof -
  obtain xs fs where inv: "fd_inv s xs fs" and V: "A = view s fs" using assms(1) by (auto simp: files_def)
  have "f \<notin> set xs" using assms(2,3) V fd_invD(13) [OF inv, of f] by (auto simp: view_def is_file_def split: if_splits)
  then show ?thesis using fd_invD(7) [OF inv assms(2)] assms(2) by (simp add: FileIsNotOpen_def VFD_CLOSED_def)
qed

lemma files_head: "files s A \<Longrightarrow> vfd_ok s 0 \<and> A 0 = None"
  using fd_invD(1) by (auto simp: files_def view_def is_file_def)

lemma closeAllVfds_files:
  assumes A: "files s A"
  shows "rets (closeAllVfds s) (\<lambda>t. files t A \<and> same_config s t \<and> inodes (sys t) = inodes (sys s) \<and> disk_room (sys t) = disk_room (sys s))"
proof -
  let ?I = "\<lambda>_ t. files t A \<and> same_config s t \<and> inodes (sys t) = inodes (sys s) \<and> disk_room (sys t) = disk_room (sys s) \<and> length (VfdCache t) = length (VfdCache s)"
  let ?body = "\<lambda>i s. do { closed \<leftarrow> FileIsNotOpen s (int i); if \<not> closed then LruDelete s (int i) else Some s }"
  have step: "rets (?body i t) (?I (Suc i))" if i: "1 \<le> i" "i < length (VfdCache s)" and t: "?I i t" for i t
  proof (cases "A (int i)")
    case None
    then have "FileIsNotOpen t (int i) = Some True" using closed_element [of t A "int i"] t i by (simp add: vfd_ok_def)
    then show ?thesis using t by simp
  next
    case (Some e)
    have "?body i t = FileInvalidate t (int i)" using i(1) by (simp add: FileInvalidate_def)
    then show ?thesis using FileInvalidate_files [of t A "int i", OF _ Some] t by (auto simp: rets_def same_config_def)
  qed
  have "FileIsNotOpen s 0 = Some True" using closed_element [OF A] files_head [OF A] by blast
  moreover have "rets (for_loop 1 (length (VfdCache s)) ?body s) (?I (length (VfdCache s)))"
  proof (rule rets_for_loop [where I = ?I])
    show "1 \<le> length (VfdCache s)" using files_head [OF A] by (simp add: vfd_ok_def Suc_le_eq)
    show "?I 1 s" using A by (simp add: same_config_def)
  qed (rule step)
  ultimately show ?thesis by (auto simp: closeAllVfds_def elim!: rets_mono)
qed

lemma probe_null_write: "os_ok u \<Longrightarrow> c_open u Nulldev 1 = c_open u Nulldev (O_CREAT OR O_RDWR)"
  by (auto simp: os_ok_def c_open_def O_CREAT_def O_RDWR_def O_EXCL_def O_TRUNC_def split: option.splits)

lemma allocate_free:
  assumes "os_ok (sys s)" and "free_descriptor (sys s) \<noteq> None"
  shows "allocate_loop s = Some s"
  using assms probe_null [OF assms(1)] unfolding probe_null_write [OF assms(1), symmetric] by (subst allocate_loop.simps) (auto split: option.splits)

lemma allocate_loop_inv:
  assumes inv: "fd_inv s xs fs" and av: "xs \<noteq> [] \<or> free_descriptor (sys s) \<noteq> None"
  shows "rets (allocate_loop s) (\<lambda>t. \<exists>ys. fd_inv t ys fs \<and> same_files s t \<and> free_descriptor (sys t) \<noteq> None \<and> (t = s \<and> ys = xs \<or> xs = hd xs # ys \<and> FreeFd t = 1))"
proof (cases "free_descriptor (sys s)")
  case (Some k)
  then show ?thesis using allocate_free [OF fd_invD(12) [OF inv]] inv by auto
next
  case None
  note os = fd_invD(12) [OF inv]
  have ss: "s\<lparr>sys := sys s, FreeFd := 0\<rparr> = s\<lparr>FreeFd := 0\<rparr>" by simp
  have eq: "allocate_loop s = (AssertLruRoom (s\<lparr>FreeFd := 0\<rparr>) \<bind> allocate_loop)"
    using None probe_null(1) [OF os] ss unfolding probe_null_write [OF os, symmetric] by (subst allocate_loop.simps) simp
  have inv': "fd_inv (s\<lparr>FreeFd := 0\<rparr>) xs fs" "same_files s (s\<lparr>FreeFd := 0\<rparr>)" using inv fd_inv_FreeFd by auto
  have "rets (AssertLruRoom (s\<lparr>FreeFd := 0\<rparr>)) (\<lambda>t. \<exists>ys. fd_inv t ys fs \<and> same_files (s\<lparr>FreeFd := 0\<rparr>) t \<and> xs = hd xs # ys \<and> free_descriptor (sys t) \<noteq> None \<and> FreeFd t = 1)"
    by (rule rets_mono [OF assert_room_inv [OF inv'(1)]]) (use av None in auto)
  then show ?thesis unfolding eq
  proof (rule rets_bind, elim exE conjE)
    fix t ys
    assume t: "fd_inv t ys fs" "same_files (s\<lparr>FreeFd := 0\<rparr>) t" "xs = hd xs # ys" "free_descriptor (sys t) \<noteq> None" "FreeFd t = 1"
    show "rets (allocate_loop t) (\<lambda>t. \<exists>ys. fd_inv t ys fs \<and> same_files s t \<and> free_descriptor (sys t) \<noteq> None \<and> (t = s \<and> ys = xs \<or> xs = hd xs # ys \<and> FreeFd t = 1))"
      using allocate_free [OF fd_invD(12) [OF t(1)] t(4)] t same_files_trans [OF inv'(2) t(2)] by auto
  qed
qed

lemma files_allocated: "files (s\<lparr>allocatedFiles := n\<rparr>) A = files s A"
proof -
  have V: "V (s\<lparr>allocatedFiles := n\<rparr>) i = V s i" "vfd_ok (s\<lparr>allocatedFiles := n\<rparr>) i = vfd_ok s i" for i by (simp_all add: V_def vfd_ok_def)
  have "lru.ring (s\<lparr>allocatedFiles := n\<rparr>) 0 xs = lru.ring s 0 xs" for xs by (simp add: lru.ring_def lru.step_def V)
  then have "fd_inv (s\<lparr>allocatedFiles := n\<rparr>) xs fs = fd_inv s xs fs" for xs fs by (simp add: fd_inv_def V)
  moreover have "free_chain (s\<lparr>allocatedFiles := n\<rparr>) i fs = free_chain s i fs" for i fs by (induction fs arbitrary: i) (simp_all add: V)
  moreover have "view (s\<lparr>allocatedFiles := n\<rparr>) fs = view s fs" for fs by (simp add: view_def is_file_def V fun_eq_iff)
  ultimately show ?thesis by (simp add: files_def avail_def)
qed

lemma AllocateFile_files:
  assumes A: "files s A"
  shows "rets (AllocateFile s) (\<lambda>t. files t A \<and> same_config s t \<and> inodes (sys t) = inodes (sys s) \<and> disk_room (sys t) = disk_room (sys s) \<and> free_descriptor (sys t) \<noteq> None)"
proof -
  obtain xs fs where inv: "fd_inv s xs fs" and ch: "free_chain s 0 fs" and V: "A = view s fs" and av: "A \<noteq> (\<lambda>_. None) \<longrightarrow> avail s xs"
    and rm: "xs = [] \<longrightarrow> free_descriptor (sys s) \<noteq> None \<and> (0 < FreeFd s \<or> \<not> osRanOut s)" using A by (auto simp: files_def)
  have "xs \<noteq> [] \<or> free_descriptor (sys s) \<noteq> None" using rm by blast
  from allocate_loop_inv [OF inv this] obtain t ys where t: "allocate_loop s = Some t" "fd_inv t ys fs" "same_files s t" "free_descriptor (sys t) \<noteq> None"
    and ys: "t = s \<and> ys = xs \<or> xs = hd xs # ys \<and> FreeFd t = 1" by (elim retsE) blast
  have "free_chain t 0 fs" by (rule free_chain_same [OF ch t(3)]) (use fd_invD(1,4) [OF inv] in auto)
  then have "files t A" unfolding files_def
    using t(2,4) ys av rm V view_same [OF t(3)] by (intro exI [of _ ys] exI [of _ fs]) (auto simp: avail_def)
  then have "files (t\<lparr>allocatedFiles := allocatedFiles t + 1\<rparr>) A" by (simp add: files_allocated)
  moreover have "pg_nofile t \<noteq> None" using fd_invD(11) [OF t(2)] by (simp add: pg_nofile_def RESERVE_FOR_LD_def FD_MINFREE_def)
  then have "AllocateFile s = Some (t\<lparr>allocatedFiles := allocatedFiles t + 1\<rparr>)" using t(1) by (auto simp: AllocateFile_def pg_nofile_def)
  ultimately show ?thesis using same_files_config [OF t(3)] same_files_sys [OF t(3)] t(4) by (simp add: same_config_def)
qed

end
