(* ===== verification/Fd_Props.thy ===== *)
theory Fd_Props
  imports Fd_Open
begin

text \<open>
  Virtual files are transparent: from a fresh state, however files are opened, closed, read, written, positioned, synced, truncated and invalidated, each
  behaves as a file that is open all the time, while the process never has more than its share of descriptors open.
\<close>

subsection \<open>The start\<close>

definition fresh :: "vfds \<Rightarrow> bool" where
  "fresh s \<longleftrightarrow> VfdCache s = [] \<and> nfile s = 0 \<and> FreeFd s = 0 \<and> \<not> osRanOut s \<and> 20 \<le> no_files s \<and> os_ok (sys s) \<and> free_descriptor (sys s) \<noteq> None"

definition with_head :: "vfds \<Rightarrow> vfds" where
  "with_head s = (if VfdCache s = [] then s\<lparr>VfdCache := [zero_vfd\<lparr>nextFree := 0, lruMoreRecently := 0, lruLessRecently := 0, fd := VFD_CLOSED, fdstate := 0\<rparr>]\<rparr> else s)"

lemma with_head_simps: "sys (with_head s) = sys s" "DataDir (with_head s) = DataDir s" "DatabaseName (with_head s) = DatabaseName s" "no_files (with_head s) = no_files s"
  "nfile (with_head s) = nfile s" "VfdCache (with_head s) \<noteq> []"
  by (simp_all add: with_head_def)

lemma open_with_head: "fileNameOpenFile (with_head s) path fl mode = fileNameOpenFile s path fl mode"
proof -
  have "AllocateVfd (with_head s) = AllocateVfd s" by (simp add: AllocateVfd_def with_head_def)
  then show ?thesis by (simp add: fileNameOpenFile_def)
qed

lemma fresh_files:
  assumes "fresh s"
  shows "files (with_head s) (\<lambda>_. None)"
proof -
  let ?s = "with_head s"
  have s: "?s = s\<lparr>VfdCache := [zero_vfd\<lparr>nextFree := 0, lruMoreRecently := 0, lruLessRecently := 0, fd := VFD_CLOSED, fdstate := 0\<rparr>]\<rparr>"
    using assms by (simp add: fresh_def with_head_def)
  have ok: "vfd_ok ?s i \<longleftrightarrow> i = 0" for i unfolding s vfd_ok_def by auto
  have V: "V ?s 0 = zero_vfd\<lparr>fd := -1\<rparr>" unfolding s by (simp add: V_def VFD_CLOSED_def zero_vfd_def)
  have "lru.ring ?s 0 []" using ok V by (simp add: lru.ring_def lru.step_def zero_vfd_def)
  then have "fd_inv ?s [] []" unfolding fd_inv_def using ok V assms by (simp add: s fresh_def)
  then show ?thesis unfolding files_def using ok V assms
    by (intro exI [of _ "[]"] exI [of _ "[]"]) (auto simp: s fresh_def view_def is_file_def fun_eq_iff zero_vfd_def)
qed

subsection \<open>Runs\<close>

text \<open>
  A state with the files in use, each with its inode and position. Positions stay within the 2 GB an \<open>int\<close> result can express. Four operations
  of \<open>fd.c\<close> are not steps: \<open>FreeFile\<close>, which breaks the count of open files (\<open>FreeFile_miscounts\<close> below); \<open>closeOneVfd\<close>, which leaves \<open>FreeFd\<close> at
  zero and so stops the next access when it has closed the last open file; and \<open>FileUnlink\<close> and \<open>FileNameUnlink\<close>, which take a name away that other
  virtual files may need to be opened again.
\<close>

inductive vfd_step :: "vfds \<times> (int \<rightharpoonup> nat \<times> int) \<Rightarrow> vfds \<times> (int \<rightharpoonup> nat \<times> int) \<Rightarrow> bool" where
  opens: "fileNameOpenFile s path fl mode = Some (t, x) \<Longrightarrow> open_path (sys s) path fl = Some (u, i) \<Longrightarrow> vfd_step (s, A) (t, A(x \<mapsto> (i, 0)))"
| open_fails: "fileNameOpenFile s path fl mode = Some (t, x) \<Longrightarrow> open_path (sys s) path fl = None \<Longrightarrow> vfd_step (s, A) (t, A)"
| closes: "FileClose s f = Some t \<Longrightarrow> A f \<noteq> None \<Longrightarrow> vfd_step (s, A) (t, A(f := None))"
| reads: "FileRead s f n = Some (t, r, bs) \<Longrightarrow> A f = Some (ino, pos) \<Longrightarrow> pos + int n \<le> 2 ^ 31 \<Longrightarrow> vfd_step (s, A) (t, A(f \<mapsto> (ino, pos + r)))"
| writes: "FileWrite s f bs = Some (t, r) \<Longrightarrow> A f = Some (ino, pos) \<Longrightarrow> bs \<noteq> [] \<Longrightarrow> pos + int (length bs) \<le> 2 ^ 31 \<Longrightarrow>
    vfd_step (s, A) (t, A(f \<mapsto> (ino, if r < 0 then pos else pos + r)))"
| seeks: "FileSeek s f offset w = Some (t, r) \<Longrightarrow> A f = Some (ino, pos) \<Longrightarrow>
    p = offset + (case w of SEEK_SET \<Rightarrow> 0 | SEEK_CUR \<Rightarrow> pos | SEEK_END \<Rightarrow> int (length (inodes (sys s) ! ino))) \<Longrightarrow> 0 \<le> p \<Longrightarrow> p \<le> 2 ^ 31 \<Longrightarrow>
    vfd_step (s, A) (t, A(f \<mapsto> (ino, p)))"
| invalidates: "FileInvalidate s f = Some t \<Longrightarrow> A f \<noteq> None \<Longrightarrow> vfd_step (s, A) (t, A)"
| syncs: "FileSync s f = Some (t, r) \<Longrightarrow> A f \<noteq> None \<Longrightarrow> vfd_step (s, A) (t, A)"
| truncates: "FileTruncate s f off = Some (t, r) \<Longrightarrow> A f = Some (ino, pos) \<Longrightarrow> 0 \<le> off \<Longrightarrow> vfd_step (s, A) (t, A)"
| closes_all: "closeAllVfds s = Some t \<Longrightarrow> vfd_step (s, A) (t, A)"
| allocates: "AllocateFile s = Some t \<Longrightarrow> vfd_step (s, A) (t, A)"

inductive_cases vfd_stepE: "vfd_step (s, A) st"

lemma files_ino: "files s A \<Longrightarrow> A f = Some (ino, pos) \<Longrightarrow> ino < length (inodes (sys s)) \<and> 0 \<le> pos \<and> pos \<le> 2 ^ 31"
proof -
  assume "files s A" "A f = Some (ino, pos)"
  then obtain xs fs where inv: "fd_inv s xs fs" and f: "is_file s fs f" "the (names (sys s) (fileName (V s f))) = ino" "seekPos (V s f) = pos"
    by (auto simp: files_def view_def split: if_splits)
  then show ?thesis using fd_invD(6) [OF inv, of f] fd_invD(12) [OF inv] by (auto simp: is_file_def vfile_ok_def os_ok_def)
qed

lemma files_limit: "files s A \<Longrightarrow> 0 \<le> nfile s \<and> nfile s \<le> no_files s - RESERVE_FOR_LD"
  using fd_invD(9,10) by (auto simp: files_def RESERVE_FOR_LD_def)


lemma rets_case_prod [simp]: "rets (case x of (a, b) \<Rightarrow> f a b) Q = (case x of (a, b) \<Rightarrow> rets (f a b) Q)"
  by (cases x) simp

lemma no_head_free:
  assumes "files (with_head s) A" and "VfdCache s = []"
  shows "os_ok (sys s)" and "free_descriptor (sys s) \<noteq> None"
proof -
  obtain xs fs where inv: "fd_inv (with_head s) xs fs" and rm: "xs = [] \<longrightarrow> free_descriptor (sys (with_head s)) \<noteq> None" using assms(1) by (auto simp: files_def)
  have "i = 0" if "vfd_ok (with_head s) i" for i using that assms(2) by (simp add: with_head_def vfd_ok_def)
  then have "xs = []" using fd_invD(13) [OF inv] by (cases xs) auto
  then show "free_descriptor (sys s) \<noteq> None" using rm by (simp add: with_head_simps)
  show "os_ok (sys s)" using fd_invD(12) [OF inv] by (simp add: with_head_simps)
qed

lemma vfd_step_files:
  assumes "vfd_step (s, A) (t, A')" and "files (with_head s) A"
  shows "files (with_head t) A'"
proof -
  have t: "files (with_head t) B" if "files t B" for B
  proof -
    have "with_head t = t" using that by (auto simp: files_def fd_inv_def vfd_ok_def with_head_def)
    then show ?thesis using that by simp
  qed
  have s: "with_head s = s" if "A f = Some e" for f e
  proof (rule ccontr)
    assume "with_head s \<noteq> s"
    then have "vfd_ok (with_head s) i \<Longrightarrow> i = 0" for i by (auto simp: with_head_def vfd_ok_def split: if_splits)
    then show False using that assms(2) by (auto simp: files_def view_def is_file_def split: if_splits)
  qed
  show ?thesis using assms(1)
  proof (cases rule: vfd_step.cases)
    case (opens path fl mode x u i)
    have "opened (with_head s) A path fl t x" using files_open [OF assms(2), of path fl mode] opens(2) by (simp add: open_with_head)
    then show ?thesis using opens t by (simp add: opened_def with_head_simps)
  next
    case (open_fails path fl mode x)
    have "opened (with_head s) A path fl t x" using files_open [OF assms(2), of path fl mode] open_fails(2) by (simp add: open_with_head)
    then show ?thesis using open_fails t by (simp add: opened_def with_head_simps)
  next
    case (closes f)
    then show ?thesis using FileClose_files [of s A f] assms(2) s t by auto
  next
    case (reads f n r bs ino pos)
    have fs: "files s A" using assms(2) s reads(3) by simp
    have le: "pos + int (length (rd (inodes (sys s) ! ino) (nat pos) n)) \<le> 2 ^ 31" using reads(4) by (simp add: rd_def)
    show ?thesis using FileRead_files [OF fs reads(3) refl le] reads t by auto
  next
    case (writes f bs r ino pos)
    have fs: "files s A" using assms(2) s writes(3) by simp
    show ?thesis using FileWrite_files [OF fs writes(3-5) refl _ refl] files_ino [OF fs writes(3)] writes t by (auto split: if_splits simp: fun_upd_idem)
  next
    case (seeks f offset w r ino pos p)
    have fs: "files s A" using assms(2) s seeks(3) by simp
    show ?thesis using FileSeek_files [OF fs seeks(3) seeks(4-6)] seeks t by auto
  next
    case (invalidates f)
    then show ?thesis using FileInvalidate_files [of s A f] assms(2) s t by auto
  next
    case (syncs f r)
    then show ?thesis using FileSync_files [of s A f] assms(2) s t by auto
  next
    case (truncates f off r ino pos)
    then show ?thesis using FileTruncate_files [of s A f ino pos off, OF _ _ _ refl] assms(2) s t by auto
  next
    case closes_all
    then have "VfdCache s \<noteq> []" by (auto simp: closeAllVfds_def FileIsNotOpen_def vfd_at_def vfd_ok_def bind_eq_Some_conv)
    then have "with_head s = s" by (simp add: with_head_def)
    then show ?thesis using closeAllVfds_files [of s A] assms(2) closes_all t by auto
  next
    case allocates
    show ?thesis
    proof (cases "VfdCache s = []")
      case True
      have "os_ok (sys s)" "free_descriptor (sys s) \<noteq> None" using no_head_free [OF assms(2) True] by simp_all
      then have "t = s\<lparr>allocatedFiles := allocatedFiles s + 1\<rparr>" using allocates(2) allocate_free by (auto simp: AllocateFile_def bind_eq_Some_conv)
      then have "with_head t = (with_head s)\<lparr>allocatedFiles := allocatedFiles s + 1\<rparr>" by (simp add: with_head_def)
      then show ?thesis using assms(2) allocates(1) by (simp add: files_allocated)
    next
      case False
      then have "with_head s = s" by (simp add: with_head_def)
      then show ?thesis using AllocateFile_files [of s A] assms(2) allocates t by auto
    qed
  qed
qed

lemma vfd_reachable:
  assumes "fresh s0" and "vfd_step\<^sup>*\<^sup>* (s0, \<lambda>_. None) (s, A)"
  shows "files (with_head s) A"
proof -
  have "files (with_head (fst st)) (snd st)" if "vfd_step\<^sup>*\<^sup>* (s0, \<lambda>_. None) st" for st
    using that
  proof (induction rule: rtranclp_induct)
    case base then show ?case using fresh_files [OF assms(1)] by simp
  next
    case (step y z) then show ?case by (cases y; cases z) (auto intro: vfd_step_files)
  qed
  from this [OF assms(2)] show ?thesis by simp
qed

lemma files_nfile:
  assumes "files s A"
  shows "nfile s = int (length (filter (\<lambda>p. fd p \<noteq> VFD_CLOSED) (VfdCache s)))"
proof -
  obtain xs fs where inv: "fd_inv s xs fs" using assms by (auto simp: files_def)
  note d = fd_invD [OF inv]
  let ?I = "{k. k < length (VfdCache s) \<and> fd (VfdCache s ! k) \<noteq> VFD_CLOSED}"
  have mem: "x \<in> int ` ?I \<longleftrightarrow> x \<in> set xs" for x
  proof
    assume "x \<in> set xs"
    then have "vfd_ok s x" "fd (V s x) \<noteq> -1" using d(13) [of x] d(7) [of x] by auto
    then show "x \<in> int ` ?I" by (auto simp: vfd_ok_def V_def VFD_CLOSED_def nat_less_iff image_iff intro!: exI [of _ "nat x"])
  next
    assume "x \<in> int ` ?I"
    then have "vfd_ok s x" "fd (V s x) \<noteq> -1" by (auto simp: vfd_ok_def V_def VFD_CLOSED_def)
    then show "x \<in> set xs" using d(7) [of x] by simp
  qed
  then have "int ` ?I = set xs" by blast
  then have "length xs = card (int ` ?I)" using distinct_card [OF d(14)] by simp
  also have "\<dots> = card ?I" by (rule card_image) simp
  finally show ?thesis using d(9) by (simp add: length_filter_conv_card)
qed

lemma vfd_descriptor_count:
  assumes "fresh s0" and "vfd_step\<^sup>*\<^sup>* (s0, \<lambda>_. None) (s, A)"
  shows "nfile s = int (length (filter (\<lambda>p. fd p \<noteq> VFD_CLOSED) (VfdCache s)))"
proof -
  have "filter (\<lambda>p. fd p \<noteq> VFD_CLOSED) (VfdCache (with_head s)) = filter (\<lambda>p. fd p \<noteq> VFD_CLOSED) (VfdCache s)" by (simp add: with_head_def)
  then show ?thesis using files_nfile [OF vfd_reachable [OF assms]] by (simp add: with_head_simps)
qed

subsection \<open>Properties\<close>


definition sample_vfds :: vfds where
  "sample_vfds = \<lparr>VfdCache = [], FreeFd = 0, nfile = 0, osRanOut = False, allocatedFiles = 0, no_files = 20, fsyncOff = False, DataDir = ''/data'', DatabaseName = ''db'',
     sys = \<lparr>inodes = [[], [1, 2, 3]], names = [''/dev/null'' \<mapsto> 0, ''/a'' \<mapsto> 1], ofiles = replicate 20 None, disk_room = 100\<rparr>\<rparr>"

lemma sample_fresh: "fresh sample_vfds"
proof -
  have "free_descriptor (sys sample_vfds) \<noteq> None" unfolding free_descriptor_None by (auto simp: sample_vfds_def intro!: exI [of _ 0])
  then show ?thesis by (auto simp: fresh_def sample_vfds_def os_ok_def Nulldev_def split: if_splits)
qed

lemma sample_open: "\<exists>t x. fileNameOpenFile sample_vfds ''/a'' O_RDWR 0 = Some (t, x) \<and> inodes (sys t) = [[], [1, 2, 3]] \<and> disk_room (sys t) = 100 \<and>
  vfd_step\<^sup>*\<^sup>* (sample_vfds, \<lambda>_. None) (t, [x \<mapsto> (1, 0)])"
proof -
  have op: "open_path (sys sample_vfds) ''/a'' O_RDWR = Some (sys sample_vfds, 1)"
    by (simp add: open_path_def sample_vfds_def O_RDWR_def O_CREAT_def O_TRUNC_def)
  have "rets (fileNameOpenFile sample_vfds ''/a'' O_RDWR 0) (\<lambda>(t, x). opened (with_head sample_vfds) (\<lambda>_. None) ''/a'' O_RDWR t x)"
    using files_open [OF fresh_files [OF sample_fresh], of "''/a''" O_RDWR 0] by (simp add: open_with_head)
  then obtain t x where t: "fileNameOpenFile sample_vfds ''/a'' O_RDWR 0 = Some (t, x)" "opened (with_head sample_vfds) (\<lambda>_. None) ''/a'' O_RDWR t x" by (elim retsE) auto
  have "inodes (sys t) = [[], [1, 2, 3]]" "disk_room (sys t) = 100" using t(2) op by (auto simp: opened_def with_head_simps) (simp_all add: sample_vfds_def)
  then show ?thesis using t(1) vfd_step.opens [OF t(1) op, of "\<lambda>_. None"] by blast
qed


text \<open>
  C34: In every such run, which has every operation on virtual files but \<open>FreeFile\<close>, \<open>closeOneVfd\<close> and the removal of files, the number of virtual files that
  are open is what the code counts in \<open>nfile\<close>, and it never exceeds the number of descriptors of the process less those reserved for dynamic loading.
\<close>

theorem vfd_descriptor_limit:
  assumes "fresh s0" and "vfd_step\<^sup>*\<^sup>* (s0, \<lambda>_. None) (s, A)"
  shows "nfile s = int (length (filter (\<lambda>p. fd p \<noteq> VFD_CLOSED) (VfdCache s))) \<and> nfile s \<le> no_files s - RESERVE_FOR_LD"
  using vfd_descriptor_count [OF assms] files_limit [OF vfd_reachable [OF assms]] by (simp add: with_head_simps)

theorem vfd_descriptor_limit_witness:
  "\<exists>t x. fileNameOpenFile sample_vfds ''/a'' O_RDWR 0 = Some (t, x) \<and> nfile t \<le> no_files t - RESERVE_FOR_LD"
proof -
  obtain t x where t: "fileNameOpenFile sample_vfds ''/a'' O_RDWR 0 = Some (t, x)" "vfd_step\<^sup>*\<^sup>* (sample_vfds, \<lambda>_. None) (t, [x \<mapsto> (1, 0)])" using sample_open by blast
  show ?thesis using vfd_descriptor_limit [OF sample_fresh t(2)] t(1) by blast
qed

text \<open>\<open>FreeFile\<close> counts the stream it frees as an open virtual file, so that after any such run \<open>nfile\<close> is one too many.\<close>

lemma FreeFile_miscounts:
  assumes "fresh s0" and "vfd_step\<^sup>*\<^sup>* (s0, \<lambda>_. None) (s, A)" and "0 < allocatedFiles s"
  shows "rets (FreeFile s) (\<lambda>t. VfdCache t = VfdCache s \<and> nfile t = int (length (filter (\<lambda>p. fd p \<noteq> VFD_CLOSED) (VfdCache t))) + 1)"
  using vfd_descriptor_count [OF assms(1,2)] assms(3) by (simp add: FreeFile_def)

end
