(* ===== verification/Rel.thy ===== *)
theory Rel
  imports FreeList Posix
begin

text \<open>
  Relation descriptors (\<open>utils/rel.h\<close>), the names of relations and the paths of their files
  (\<open>catalog/catalog.c\<close>, \<open>utils/adt/name.c\<close>), and the identifiers by which the buffer manager
  knows them (\<open>RelationGetLRelId\<close>, \<open>storage/lmgr/lmgr.c\<close>).

  The form \<open>rd_rel\<close> of a descriptor is kept in the same record. A \<open>NameData\<close> is the list of its characters before the
  first zero, at most \<open>NAMEDATALEN\<close> of them; one that fills the array has no terminator, and using it as a string is an
  access outside the array (\<open>cstr\<close>).
\<close>

definition NAMEDATALEN :: nat where "NAMEDATALEN = 32"

record RelationData =
  rd_fd :: int
  rd_nblocks :: int
  rd_refcnt :: uint16
  rd_islocal :: bool
  rd_isnailed :: bool
  rd_istemp :: bool
  rd_tmpunlinked :: bool
  rd_id :: uint32
  lockInfo :: "(uint32 \<times> uint32) option"
  relname :: string
  relsmgr :: int

definition zero_relation :: RelationData where
  "zero_relation = \<lparr>rd_fd = 0, rd_nblocks = 0, rd_refcnt = 0, rd_islocal = False, rd_isnailed = False, rd_istemp = False, rd_tmpunlinked = False,
     rd_id = 0, lockInfo = None, relname = [], relsmgr = 0\<rparr>"

definition namestrcpy :: "string \<Rightarrow> string" where
  "namestrcpy str = take NAMEDATALEN str"

definition cstr :: "string \<Rightarrow> string option" where
  "cstr name = (if length name < NAMEDATALEN then Some name else None)"

definition VariableRelationName :: string where "VariableRelationName = ''pg_variable''"

definition SharedSystemRelationNames :: "string list" where
  "SharedSystemRelationNames = [''pg_database'', ''pg_defaults'', ''pg_demon'', ''pg_group'', ''pg_hosts'', ''pg_log'', ''pg_magic'', ''pg_server'', ''pg_time'',
     ''pg_user'', VariableRelationName]"

definition IsSystemRelationName :: "string \<Rightarrow> bool" where
  "IsSystemRelationName name \<longleftrightarrow> 3 \<le> length name \<and> name ! 0 = CHR ''p'' \<and> name ! 1 = CHR ''g'' \<and> name ! 2 = CHR ''_''"

definition IsSharedSystemRelationName :: "string \<Rightarrow> bool" where
  "IsSharedSystemRelationName name \<longleftrightarrow> IsSystemRelationName name \<and> name \<in> set SharedSystemRelationNames"

text \<open>The directory \<open>DataDir\<close> is an argument.\<close>

definition relpath :: "string \<Rightarrow> string \<Rightarrow> string option" where
  "relpath dir name = do {
     nm \<leftarrow> cstr name;
     Some (if IsSharedSystemRelationName nm then dir @ ''/'' @ nm else nm)
   }"

subsection \<open>Identifiers\<close>

text \<open>
  The identifier is worked out on first use and kept in the descriptor. A descriptor without an object identifier fails
  the \<open>Assert\<close>. \<open>VariableRelationLRelId\<close> is a constant of \<open>lmgr.c\<close>; the transaction identifier that \<open>lockInfo\<close> also
  holds is used by the lock manager only.
\<close>

definition VariableRelationLRelId :: "uint32 \<times> uint32" where "VariableRelationLRelId = (0, 1264)"

definition RelationInitLockInfo :: "uint32 \<Rightarrow> RelationData \<Rightarrow> RelationData option" where
  "RelationInitLockInfo MyDatabaseId relation =
     (if rd_id relation = 0 then None
      else do {
        nm \<leftarrow> cstr (relname relation);
        if lockInfo relation \<noteq> None then Some relation
        else Some (relation\<lparr>lockInfo := Some (if IsSharedSystemRelationName nm then 0 else MyDatabaseId, rd_id relation)\<rparr>)
      })"

definition RelationGetLRelId :: "uint32 \<Rightarrow> RelationData \<Rightarrow> (RelationData \<times> uint32 \<times> uint32) option" where
  "RelationGetLRelId MyDatabaseId relation = do {
     relation \<leftarrow> (if lockInfo relation = None then RelationInitLockInfo MyDatabaseId relation else Some relation);
     nm \<leftarrow> cstr (relname relation);
     i \<leftarrow> lockInfo relation;
     Some (relation, if nm = VariableRelationName then VariableRelationLRelId else i)
   }"

text \<open>The tag of a block (\<open>INIT_BUFFERTAG\<close>).\<close>

definition INIT_BUFFERTAG :: "uint32 \<Rightarrow> RelationData \<Rightarrow> uint32 \<Rightarrow> (RelationData \<times> BufferTag) option" where
  "INIT_BUFFERTAG MyDatabaseId relation block = do {
     (relation, d, r) \<leftarrow> RelationGetLRelId MyDatabaseId relation;
     Some (relation, \<lparr>dbId = d, relId = r, blockNum = block\<rparr>)
   }"

end
