(* ===== verification/Md.thy ===== *)
theory Md
  imports Rel Fd "HOL-Library.Signed_Division"
begin

text \<open>
  The magnetic disk storage manager, \<open>storage/smgr/md.c\<close>, and the switch in front of it, \<open>smgr.c\<close>. A relation
  is a sequence of blocks of \<open>BLCKSZ\<close> bytes, kept in files of at most \<open>RELSEG_SIZE\<close> blocks each. \<open>Md_fdvec\<close> has an element per
  opened relation: the \<open>MdfdVec\<close> of its first segment, followed by those linked to it through \<open>mdfd_chain\<close>,
  here as a list. A \<open>MdfdVec *\<close> into the chain of a relation is the position in this list.

  \<open>None\<close> is a failed \<open>Assert\<close> (the code prints a message and goes on; the model does not follow such a run), \<open>elog(FATAL)\<close>, or an access outside an array or through a null pointer;
  \<open>elog(WARN)\<close> and \<open>elog(NOTICE)\<close> return. \<open>palloc\<close> does not return null.
\<close>

subsection \<open>Data\<close>

definition RELSEG_SIZE :: nat where "RELSEG_SIZE = 262144"
definition SM_FAIL :: int where "SM_FAIL = 0"
definition SM_SUCCESS :: int where "SM_SUCCESS = 1"
definition MDFD_DIRTY :: uint16 where "MDFD_DIRTY = 1"

record MdfdVec =
  mdfd_vfd :: int
  mdfd_flags :: uint16
  mdfd_lstbcnt :: int

record md =
  vfs :: vfds
  Nfds :: nat
  Md_fdvec :: "MdfdVec list list"
  CurFd :: nat
  bootstrap :: bool

definition zero_vec :: MdfdVec where
  "zero_vec = \<lparr>mdfd_vfd = 0, mdfd_flags = 0, mdfd_lstbcnt = 0\<rparr>"

text \<open>The chain of a relation, and an element of it, read and written.\<close>

definition chain_at :: "md \<Rightarrow> int \<Rightarrow> MdfdVec list option" where
  "chain_at s f = (if 0 \<le> f \<and> f < int (length (Md_fdvec s)) then Some (Md_fdvec s ! nat f) else None)"

definition put_chain :: "md \<Rightarrow> int \<Rightarrow> MdfdVec list \<Rightarrow> md" where
  "put_chain s f c = s\<lparr>Md_fdvec := (Md_fdvec s)[nat f := c]\<rparr>"

definition vec_at :: "md \<Rightarrow> int \<Rightarrow> nat \<Rightarrow> MdfdVec option" where
  "vec_at s f i = do {
     c \<leftarrow> chain_at s f;
     if i < length c then Some (c ! i) else None
   }"

definition vec_upd :: "md \<Rightarrow> int \<Rightarrow> nat \<Rightarrow> (MdfdVec \<Rightarrow> MdfdVec) \<Rightarrow> md option" where
  "vec_upd s f i g = do {
     c \<leftarrow> chain_at s f;
     if i < length c then Some (put_chain s f (c[i := g (c ! i)])) else None
   }"

text \<open>A number as \<open>sprintf\<close> prints it with \<open>%d\<close>.\<close>

fun decimal :: "nat \<Rightarrow> string" where
  "decimal n = (if n < 10 then [] else decimal (n div 10)) @ [char_of (48 + n mod 10)]"

definition seg_path :: "string \<Rightarrow> nat \<Rightarrow> string" where
  "seg_path path segno = (if segno > 0 then path @ ''.'' @ decimal segno else path)"

subsection \<open>Opening\<close>

definition mdinit :: "md \<Rightarrow> md \<times> int" where
  "mdinit s = (s\<lparr>Md_fdvec := replicate (Nfds s) [zero_vec]\<rparr>, SM_SUCCESS)"

definition fdvec_ext :: "md \<Rightarrow> md \<times> int" where
  "fdvec_ext s = (let s = s\<lparr>Nfds := Nfds s * 2\<rparr>
     in (s\<lparr>Md_fdvec := take (Nfds s div 2) (Md_fdvec s) @ replicate (Nfds s div 2) [zero_vec]\<rparr>, SM_SUCCESS))"

definition mdnblocks_file :: "md \<Rightarrow> int \<Rightarrow> (md \<times> int) option" where
  "mdnblocks_file s file = do {
     (v, r) \<leftarrow> FileSeek (vfs s) file 0 SEEK_END;
     len \<leftarrow> Some (r - 1);
     Some (s\<lparr>vfs := v\<rparr>, if len < 0 then 0 else 1 + len div int BLCKSZ)
   }"

text \<open>The statements that \<open>mdcreate\<close> and \<open>mdopen\<close> end with: an element of \<open>Md_fdvec\<close> is filled and its number returned.\<close>

definition fill_slot :: "md \<Rightarrow> int \<Rightarrow> int \<Rightarrow> (md \<times> int) option" where
  "fill_slot s file cnt = do {
     _ \<leftarrow> chain_at s (int (CurFd s));
     s' \<leftarrow> Some (put_chain s (int (CurFd s)) [\<lparr>mdfd_vfd = file, mdfd_flags = 0, mdfd_lstbcnt = cnt\<rparr>]);
     Some (s'\<lparr>CurFd := CurFd s + 1\<rparr>, int (CurFd s))
   }"

definition make_room :: "md \<Rightarrow> md" where
  "make_room s = (if CurFd s \<ge> Nfds s then fst (fdvec_ext s) else s)"

definition mdcreate :: "md \<Rightarrow> RelationData \<Rightarrow> (md \<times> int) option" where
  "mdcreate s reln = do {
     path \<leftarrow> relpath (DataDir (vfs s)) (relname reln);
     (v, file) \<leftarrow> FileNameOpenFile (vfs s) path (O_RDWR OR O_CREAT OR O_EXCL) 384;
     s \<leftarrow> Some (s\<lparr>vfs := v\<rparr>);
     (s, file, failed) \<leftarrow>
       (if file < 0 then do {
          (v, file) \<leftarrow> FileNameOpenFile (vfs s) path O_RDWR 384;
          s \<leftarrow> Some (s\<lparr>vfs := v\<rparr>);
          if file \<ge> 0 \<and> \<not> bootstrap s then do {
            (v, n, _) \<leftarrow> FileRead (vfs s) file 4;
            if n \<noteq> 0 then do {
              v \<leftarrow> FileClose v file;
              Some (s\<lparr>vfs := v\<rparr>, file, True)
            } else Some (s\<lparr>vfs := v\<rparr>, file, False)
          } else Some (s, file, False)
        } else Some (s, file, False));
     if failed then Some (s, -1) else fill_slot (make_room s) file 0
   }"

definition mdopen :: "md \<Rightarrow> RelationData \<Rightarrow> (md \<times> int) option" where
  "mdopen s reln = do {
     s \<leftarrow> Some (make_room s);
     path \<leftarrow> relpath (DataDir (vfs s)) (relname reln);
     (v, file) \<leftarrow> FileNameOpenFile (vfs s) path O_RDWR 384;
     (v, file) \<leftarrow> (if file < 0 then FileNameOpenFile v path (O_RDWR OR O_CREAT OR O_EXCL) 384 else Some (v, file));
     (s, cnt) \<leftarrow> mdnblocks_file (s\<lparr>vfs := v\<rparr>) file;
     fill_slot s file cnt
   }"

text \<open>
  Opening a segment returns the new element, or nothing when the file cannot be opened. Linking it to the end of a chain makes
  it the last element of the list.
\<close>

definition mdfd_openseg :: "md \<Rightarrow> RelationData \<Rightarrow> nat \<Rightarrow> uint32 \<Rightarrow> (md \<times> MdfdVec option) option" where
  "mdfd_openseg s reln segno oflags = do {
     path \<leftarrow> relpath (DataDir (vfs s)) (relname reln);
     (v, file) \<leftarrow> PathNameOpenFile (vfs s) (seg_path path segno) (O_RDWR OR oflags) 384;
     s \<leftarrow> Some (s\<lparr>vfs := v\<rparr>);
     if file < 0 then Some (s, None)
     else do {
       (s, cnt) \<leftarrow> mdnblocks_file s file;
       Some (s, Some \<lparr>mdfd_vfd = file, mdfd_flags = 0, mdfd_lstbcnt = cnt\<rparr>)
     }
   }"

text \<open>\<open>v->mdfd_chain\<close>, opened first when it is null. When that fails the null pointer is followed after the warning.\<close>

definition next_seg :: "md \<Rightarrow> RelationData \<Rightarrow> int \<Rightarrow> nat \<Rightarrow> uint32 \<Rightarrow> md option" where
  "next_seg s reln f i oflag = do {
     c \<leftarrow> chain_at s f;
     if i + 1 < length c then Some s
     else do {
       (s, v) \<leftarrow> mdfd_openseg s reln (i + 1) oflag;
       v \<leftarrow> v;
       Some (put_chain s f (c @ [v]))
     }
   }"

fun getseg_loop :: "md \<Rightarrow> RelationData \<Rightarrow> int \<Rightarrow> uint32 \<Rightarrow> nat \<Rightarrow> nat \<Rightarrow> (md \<times> nat) option" where
  "getseg_loop s reln f oflag i 0 = Some (s, i)"
| "getseg_loop s reln f oflag i (Suc segno) = do {
     s \<leftarrow> next_seg s reln f i oflag;
     getseg_loop s reln f oflag (i + 1) segno
   }"

text \<open>
  The block number arrives as an \<open>int\<close>, so one of at least \<open>2^31\<close> is negative and selects the first segment. The result is the position in the
  chain of the relation.
\<close>

definition mdfd_getseg :: "md \<Rightarrow> RelationData \<Rightarrow> int \<Rightarrow> uint32 \<Rightarrow> (md \<times> RelationData \<times> nat) option" where
  "mdfd_getseg s reln blkno oflag = do {
     (s, reln) \<leftarrow> (if rd_fd reln < 0 then do {
                    (s, f) \<leftarrow> mdopen s reln;
                    Some (s, reln\<lparr>rd_fd := f\<rparr>)
                  } else Some (s, reln));
     _ \<leftarrow> vec_at s (rd_fd reln) 0;
     (s, i) \<leftarrow> getseg_loop s reln (rd_fd reln) oflag 0 (nat (blkno div int RELSEG_SIZE));
     Some (s, reln, i)
   }"

subsection \<open>Blocks\<close>

definition dirty_vec :: "MdfdVec \<Rightarrow> MdfdVec" where "dirty_vec v = v\<lparr>mdfd_flags := mdfd_flags v OR MDFD_DIRTY\<rparr>"
definition clean_vec :: "MdfdVec \<Rightarrow> MdfdVec" where "clean_vec v = v\<lparr>mdfd_flags := mdfd_flags v AND NOT MDFD_DIRTY\<rparr>"

definition block_pos :: "uint32 \<Rightarrow> int" where
  "block_pos blocknum = int (BLCKSZ * (unat blocknum mod RELSEG_SIZE))"

text \<open>Counting; the count of a full segment is taken from the element, every other from the file.\<close>

partial_function (option) nblocks_loop :: "md \<Rightarrow> RelationData \<Rightarrow> int \<Rightarrow> nat \<Rightarrow> (md \<times> int) option" where
  "nblocks_loop s reln f segno = do {
     v \<leftarrow> vec_at s f segno;
     (s, n) \<leftarrow> (if mdfd_lstbcnt v = int RELSEG_SIZE then Some (s, int RELSEG_SIZE) else mdnblocks_file s (mdfd_vfd v));
     if n = int RELSEG_SIZE then do {
       s \<leftarrow> vec_upd s f segno (\<lambda>x. x\<lparr>mdfd_lstbcnt := int RELSEG_SIZE\<rparr>);
       s \<leftarrow> next_seg s reln f segno O_CREAT;
       nblocks_loop s reln f (segno + 1)
     } else Some (s, sint32 (int segno * int RELSEG_SIZE + n))
   }"

declare nblocks_loop.simps [code]

definition mdnblocks :: "md \<Rightarrow> RelationData \<Rightarrow> (md \<times> int) option" where
  "mdnblocks s reln = nblocks_loop s reln (rd_fd reln) 0"

definition extend_at :: "md \<Rightarrow> RelationData \<Rightarrow> int \<Rightarrow> byte list \<Rightarrow> (md \<times> RelationData \<times> int) option" where
  "extend_at s reln nblocks buffer = do {
     (s, reln, i) \<leftarrow> mdfd_getseg s reln nblocks O_CREAT;
     v \<leftarrow> vec_at s (rd_fd reln) i;
     (u, pos) \<leftarrow> FileSeek (vfs s) (mdfd_vfd v) 0 SEEK_END;
     s \<leftarrow> Some (s\<lparr>vfs := u\<rparr>);
     if pos < 0 then Some (s, reln, SM_FAIL)
     else do {
       (u, n) \<leftarrow> FileWrite (vfs s) (mdfd_vfd v) buffer;
       s \<leftarrow> Some (s\<lparr>vfs := u\<rparr>);
       if n \<noteq> int BLCKSZ then Some (s, reln, SM_FAIL)
       else do {
         s \<leftarrow> vec_upd s (rd_fd reln) i dirty_vec;
         r \<leftarrow> Some (sint32 (nblocks + 1) smod int RELSEG_SIZE);
         s \<leftarrow> vec_upd s (rd_fd reln) i (\<lambda>x. x\<lparr>mdfd_lstbcnt := if r = 0 then int RELSEG_SIZE else r\<rparr>);
         Some (s, reln, SM_SUCCESS)
       }
     }
   }"

text \<open>The block is written at the end of the segment the count leads to.\<close>

definition mdextend :: "md \<Rightarrow> RelationData \<Rightarrow> byte list \<Rightarrow> (md \<times> RelationData \<times> int) option" where
  "mdextend s reln buffer = do {
     (s, nblocks) \<leftarrow> mdnblocks s reln;
     extend_at s reln nblocks buffer
   }"

text \<open>A short read leaves the rest of the buffer as it was; at the end of the file the buffer is cleared.\<close>

definition mdread :: "md \<Rightarrow> RelationData \<Rightarrow> uint32 \<Rightarrow> byte list \<Rightarrow> (md \<times> RelationData \<times> int \<times> byte list) option" where
  "mdread s reln blocknum buffer = do {
     (s, reln, i) \<leftarrow> mdfd_getseg s reln (sint blocknum) 0;
     v \<leftarrow> vec_at s (rd_fd reln) i;
     (u, pos) \<leftarrow> FileSeek (vfs s) (mdfd_vfd v) (block_pos blocknum) SEEK_SET;
     s \<leftarrow> Some (s\<lparr>vfs := u\<rparr>);
     if pos \<noteq> block_pos blocknum then Some (s, reln, SM_FAIL, buffer)
     else do {
       (u, nbytes, bs) \<leftarrow> FileRead (vfs s) (mdfd_vfd v) BLCKSZ;
       s \<leftarrow> Some (s\<lparr>vfs := u\<rparr>);
       if nbytes \<noteq> int BLCKSZ then
         if nbytes = 0 then Some (s, reln, SM_SUCCESS, replicate BLCKSZ 0)
         else Some (s, reln, SM_FAIL, bs @ drop (length bs) buffer)
       else Some (s, reln, SM_SUCCESS, bs)
     }
   }"

definition mdwrite :: "md \<Rightarrow> RelationData \<Rightarrow> uint32 \<Rightarrow> byte list \<Rightarrow> (md \<times> RelationData \<times> int) option" where
  "mdwrite s reln blocknum buffer = do {
     (s, reln, i) \<leftarrow> mdfd_getseg s reln (sint blocknum) 0;
     v \<leftarrow> vec_at s (rd_fd reln) i;
     (u, pos) \<leftarrow> FileSeek (vfs s) (mdfd_vfd v) (block_pos blocknum) SEEK_SET;
     s \<leftarrow> Some (s\<lparr>vfs := u\<rparr>);
     if pos \<noteq> block_pos blocknum then Some (s, reln, SM_FAIL)
     else do {
       (u, n) \<leftarrow> FileWrite (vfs s) (mdfd_vfd v) buffer;
       s \<leftarrow> vec_upd (s\<lparr>vfs := u\<rparr>) (rd_fd reln) i dirty_vec;
       Some (s, reln, if n \<noteq> int BLCKSZ then SM_FAIL else SM_SUCCESS)
     }
   }"

definition mdflush :: "md \<Rightarrow> RelationData \<Rightarrow> uint32 \<Rightarrow> byte list \<Rightarrow> (md \<times> RelationData \<times> int) option" where
  "mdflush s reln blocknum buffer = do {
     (s, reln, i) \<leftarrow> mdfd_getseg s reln (sint blocknum) 0;
     v \<leftarrow> vec_at s (rd_fd reln) i;
     (u, pos) \<leftarrow> FileSeek (vfs s) (mdfd_vfd v) (block_pos blocknum) SEEK_SET;
     s \<leftarrow> Some (s\<lparr>vfs := u\<rparr>);
     if pos \<noteq> block_pos blocknum then Some (s, reln, SM_FAIL)
     else do {
       (u, n) \<leftarrow> FileWrite (vfs s) (mdfd_vfd v) buffer;
       (u, status) \<leftarrow> (if n \<noteq> int BLCKSZ then Some (u, SM_FAIL)
                       else do {
                         (u, r) \<leftarrow> FileSync u (mdfd_vfd v);
                         Some (u, if r < 0 then SM_FAIL else SM_SUCCESS)
                       });
       s \<leftarrow> vec_upd (s\<lparr>vfs := u\<rparr>) (rd_fd reln) i clean_vec;
       Some (s, reln, status)
     }
   }"

text \<open>The blind write opens the file itself, by its full path.\<close>

definition blind_path :: "md \<Rightarrow> string \<Rightarrow> string \<Rightarrow> uint32 \<Rightarrow> uint32 \<Rightarrow> string" where
  "blind_path s dbstr relstr dbid blkno = seg_path
     (if dbid = 0 then DataDir (vfs s) @ ''/'' @ take NAMEDATALEN relstr
      else DataDir (vfs s) @ ''/base/'' @ take NAMEDATALEN dbstr @ ''/'' @ take NAMEDATALEN relstr) (unat blkno div RELSEG_SIZE)"

definition mdblindwrt :: "md \<Rightarrow> string \<Rightarrow> string \<Rightarrow> uint32 \<Rightarrow> uint32 \<Rightarrow> byte list \<Rightarrow> md \<times> int" where
  "mdblindwrt s dbstr relstr dbid blkno buffer =
     (case c_open (sys (vfs s)) (blind_path s dbstr relstr dbid blkno) O_RDWR of (u, d) \<Rightarrow>
      if d < 0 then (s\<lparr>vfs := (vfs s)\<lparr>sys := u\<rparr>\<rparr>, SM_FAIL)
      else case c_lseek u d (block_pos blkno) SEEK_SET of (u, pos) \<Rightarrow>
        if pos \<noteq> block_pos blkno then (s\<lparr>vfs := (vfs s)\<lparr>sys := fst (c_close u d)\<rparr>\<rparr>, SM_FAIL)
        else case c_write u d buffer of (u, n) \<Rightarrow>
          let status = if n \<noteq> int BLCKSZ \<or> pg_fsync ((vfs s)\<lparr>sys := u\<rparr>) d < 0 then SM_FAIL else SM_SUCCESS
          in case c_close u d of (u, r) \<Rightarrow> (s\<lparr>vfs := (vfs s)\<lparr>sys := u\<rparr>\<rparr>, if r < 0 then SM_FAIL else status))"

definition mdtruncate :: "md \<Rightarrow> RelationData \<Rightarrow> int \<Rightarrow> (md \<times> int) option" where
  "mdtruncate s reln nblocks = do {
     (s, curnblk) \<leftarrow> mdnblocks s reln;
     if curnblk div int RELSEG_SIZE > 0 then Some (s, curnblk)
     else do {
       v \<leftarrow> vec_at s (rd_fd reln) 0;
       (u, r) \<leftarrow> FileTruncate (vfs s) (mdfd_vfd v) (sint32 (nblocks * int BLCKSZ));
       Some (s\<lparr>vfs := u\<rparr>, if r < 0 then -1 else nblocks)
     }
   }"

subsection \<open>Closing and transaction ends\<close>

partial_function (option) unlink_loop :: "vfds \<Rightarrow> string \<Rightarrow> nat \<Rightarrow> vfds option" where
  "unlink_loop v fname i = (case FileNameUnlink v (seg_path fname i) of (v, r) \<Rightarrow> if r < 0 then Some v else unlink_loop v fname (i + 1))"

declare unlink_loop.simps [code]

definition mdunlink :: "md \<Rightarrow> RelationData \<Rightarrow> (md \<times> int) option" where
  "mdunlink s reln = do {
     fname \<leftarrow> cstr (relname reln);
     (v, r) \<leftarrow> Some (FileNameUnlink (vfs s) fname);
     if r < 0 then Some (s\<lparr>vfs := v\<rparr>, SM_FAIL)
     else do {
       v \<leftarrow> unlink_loop v fname 1;
       s \<leftarrow> vec_upd (s\<lparr>vfs := v\<rparr>) (rd_fd reln) 0 (\<lambda>x. x\<lparr>mdfd_flags := 0\<rparr>);
       x \<leftarrow> vec_at s (rd_fd reln) 0;
       Some (put_chain s (rd_fd reln) [x], SM_SUCCESS)
     }
   }"

fun close_chain :: "vfds \<Rightarrow> MdfdVec list \<Rightarrow> (vfds \<times> MdfdVec list) option" where
  "close_chain v [] = Some (v, [])"
| "close_chain v (x # xs) =
     (if mdfd_vfd x < 0 then do {
        (v, xs) \<leftarrow> close_chain v xs;
        Some (v, x # xs)
      } else do {
        (v, _) \<leftarrow> FileSync v (mdfd_vfd x);
        v \<leftarrow> FileClose v (mdfd_vfd x);
        (v, xs) \<leftarrow> close_chain v xs;
        Some (v, clean_vec x # xs)
      })"

definition mdclose :: "md \<Rightarrow> RelationData \<Rightarrow> (md \<times> int) option" where
  "mdclose s reln = do {
     c \<leftarrow> chain_at s (rd_fd reln);
     (v, c) \<leftarrow> close_chain (vfs s) c;
     Some (put_chain (s\<lparr>vfs := v\<rparr>) (rd_fd reln) c, SM_SUCCESS)
   }"

text \<open>The loops of \<open>mdcommit\<close> over a chain and over the table; the flag tells whether every sync succeeded.\<close>

fun commit_chain :: "vfds \<Rightarrow> MdfdVec list \<Rightarrow> (vfds \<times> MdfdVec list \<times> bool) option" where
  "commit_chain v [] = Some (v, [], True)"
| "commit_chain v (x # xs) =
     (if mdfd_flags x AND MDFD_DIRTY \<noteq> 0 then do {
        (v, r) \<leftarrow> FileSync v (mdfd_vfd x);
        if r < 0 then Some (v, x # xs, False)
        else do {
          (v, xs, ok) \<leftarrow> commit_chain v xs;
          Some (v, clean_vec x # xs, ok)
        }
      } else do {
        (v, xs, ok) \<leftarrow> commit_chain v xs;
        Some (v, x # xs, ok)
      })"

fun commit_table :: "vfds \<Rightarrow> MdfdVec list list \<Rightarrow> (vfds \<times> MdfdVec list list \<times> bool) option" where
  "commit_table v [] = Some (v, [], True)"
| "commit_table v (c # cs) = do {
     (v, c, ok) \<leftarrow> commit_chain v c;
     if \<not> ok then Some (v, c # cs, False)
     else do {
       (v, cs, ok) \<leftarrow> commit_table v cs;
       Some (v, c # cs, ok)
     }
   }"

definition mdcommit :: "md \<Rightarrow> (md \<times> int) option" where
  "mdcommit s =
     (if CurFd s > length (Md_fdvec s) then None
      else do {
        (v, cs, ok) \<leftarrow> commit_table (vfs s) (take (CurFd s) (Md_fdvec s));
        Some (s\<lparr>vfs := v, Md_fdvec := cs @ drop (CurFd s) (Md_fdvec s)\<rparr>, if ok then SM_SUCCESS else SM_FAIL)
      })"

definition mdabort :: "md \<Rightarrow> (md \<times> int) option" where
  "mdabort s =
     (if CurFd s > length (Md_fdvec s) then None
      else Some (s\<lparr>Md_fdvec := map (map clean_vec) (take (CurFd s) (Md_fdvec s)) @ drop (CurFd s) (Md_fdvec s)\<rparr>, SM_SUCCESS))"

subsection \<open>The storage manager switch\<close>

text \<open>
  \<open>smgr.c\<close> calls the storage manager by its number. \<open>MAIN_MEMORY\<close> is not defined, so the table has the magnetic disk only. The warnings
  after a failure return, and so does the failure.
\<close>

definition NSmgr :: int where "NSmgr = 1"

definition smgrsw :: "int \<Rightarrow> 'a option \<Rightarrow> 'a option" where
  "smgrsw which m = (if 0 \<le> which \<and> which < NSmgr then m else None)"

definition smgrinit :: "md \<Rightarrow> (md \<times> int) option" where
  "smgrinit s = (case mdinit s of (s, r) \<Rightarrow> if r = SM_FAIL then None else Some (s, SM_SUCCESS))"

definition smgrcreate :: "int \<Rightarrow> md \<Rightarrow> RelationData \<Rightarrow> (md \<times> int) option" where
  "smgrcreate which s reln = smgrsw which (mdcreate s reln)"

definition smgrunlink :: "int \<Rightarrow> md \<Rightarrow> RelationData \<Rightarrow> (md \<times> int) option" where
  "smgrunlink which s reln = smgrsw which (mdunlink s reln)"

definition smgrextend :: "int \<Rightarrow> md \<Rightarrow> RelationData \<Rightarrow> byte list \<Rightarrow> (md \<times> RelationData \<times> int) option" where
  "smgrextend which s reln buffer = smgrsw which (mdextend s reln buffer)"

definition smgropen :: "int \<Rightarrow> md \<Rightarrow> RelationData \<Rightarrow> (md \<times> int) option" where
  "smgropen which s reln = smgrsw which (mdopen s reln)"

definition smgrclose :: "int \<Rightarrow> md \<Rightarrow> RelationData \<Rightarrow> (md \<times> int) option" where
  "smgrclose which s reln = map_option (\<lambda>(s, _). (s, SM_SUCCESS)) (smgrsw which (mdclose s reln))"

definition smgrread :: "int \<Rightarrow> md \<Rightarrow> RelationData \<Rightarrow> uint32 \<Rightarrow> byte list \<Rightarrow> (md \<times> RelationData \<times> int \<times> byte list) option" where
  "smgrread which s reln blocknum buffer = smgrsw which (mdread s reln blocknum buffer)"

definition smgrwrite :: "int \<Rightarrow> md \<Rightarrow> RelationData \<Rightarrow> uint32 \<Rightarrow> byte list \<Rightarrow> (md \<times> RelationData \<times> int) option" where
  "smgrwrite which s reln blocknum buffer = smgrsw which (mdwrite s reln blocknum buffer)"

definition smgrflush :: "int \<Rightarrow> md \<Rightarrow> RelationData \<Rightarrow> uint32 \<Rightarrow> byte list \<Rightarrow> (md \<times> RelationData \<times> int) option" where
  "smgrflush which s reln blocknum buffer = smgrsw which (mdflush s reln blocknum buffer)"

definition smgrblindwrt :: "int \<Rightarrow> md \<Rightarrow> string \<Rightarrow> string \<Rightarrow> uint32 \<Rightarrow> uint32 \<Rightarrow> byte list \<Rightarrow> (md \<times> int) option" where
  "smgrblindwrt which s dbname name dbid blkno buffer = smgrsw which (Some (mdblindwrt s dbname name dbid blkno buffer))"

definition smgrnblocks :: "int \<Rightarrow> md \<Rightarrow> RelationData \<Rightarrow> (md \<times> int) option" where
  "smgrnblocks which s reln = smgrsw which (mdnblocks s reln)"

definition smgrtruncate :: "int \<Rightarrow> md \<Rightarrow> RelationData \<Rightarrow> int \<Rightarrow> (md \<times> int) option" where
  "smgrtruncate which s reln nblocks = smgrsw which (mdtruncate s reln nblocks)"

text \<open>A failed commit or abort is \<open>elog(FATAL)\<close>.\<close>

definition smgrcommit :: "md \<Rightarrow> (md \<times> int) option" where
  "smgrcommit s = do {
     (s, r) \<leftarrow> mdcommit s;
     if r = SM_FAIL then None else Some (s, SM_SUCCESS)
   }"

definition smgrabort :: "md \<Rightarrow> (md \<times> int) option" where
  "smgrabort s = do {
     (s, r) \<leftarrow> mdabort s;
     if r = SM_FAIL then None else Some (s, SM_SUCCESS)
   }"

end
