(* ===== verification/Md_Files.thy ===== *)
theory Md_Files
  imports Fd_Props Md
begin

text \<open>
  What the storage manager relies on of the virtual files: the interface \<open>file_layer\<close>, which \<open>fd.c\<close> provides. As the storage manager
  positions a file before every transfer, what it knows of the open files is their inodes only (\<open>handles\<close>).
\<close>

subsection \<open>The interface\<close>

locale file_layer =
  fixes open_files :: "'s \<Rightarrow> (int \<rightharpoonup> nat \<times> int) \<Rightarrow> bool"
    and contents :: "'s \<Rightarrow> byte list list"
    and room :: "'s \<Rightarrow> nat"
    and frame :: "'s \<Rightarrow> 's \<Rightarrow> bool"
    and seek :: "'s \<Rightarrow> int \<Rightarrow> int \<Rightarrow> whence \<Rightarrow> ('s \<times> int) option"
    and get :: "'s \<Rightarrow> int \<Rightarrow> nat \<Rightarrow> ('s \<times> int \<times> byte list) option"
    and put :: "'s \<Rightarrow> int \<Rightarrow> byte list \<Rightarrow> ('s \<times> int) option"
    and sync :: "'s \<Rightarrow> int \<Rightarrow> ('s \<times> int) option"
  assumes valid: "open_files s A \<Longrightarrow> A f = Some (i, p) \<Longrightarrow> i < length (contents s) \<and> 0 \<le> p \<and> p \<le> 2 ^ 31"
    and seek: "open_files s A \<Longrightarrow> A f = Some (i, pos) \<Longrightarrow>
      p = offset + (case w of SEEK_SET \<Rightarrow> 0 | SEEK_CUR \<Rightarrow> pos | SEEK_END \<Rightarrow> int (length (contents s ! i))) \<Longrightarrow> 0 \<le> p \<Longrightarrow> p \<le> 2 ^ 31 \<Longrightarrow>
      rets (seek s f offset w) (\<lambda>(t, r). (p < 2 ^ 31 \<longrightarrow> r = p) \<and> (w = SEEK_END \<longrightarrow> r = sint32 p) \<and> open_files t (A(f \<mapsto> (i, p))) \<and>
        frame s t \<and> contents t = contents s \<and> room t = room s)"
    and get: "open_files s A \<Longrightarrow> A f = Some (i, pos) \<Longrightarrow> bs = rd (contents s ! i) (nat pos) n \<Longrightarrow> pos + int (length bs) \<le> 2 ^ 31 \<Longrightarrow>
      rets (get s f n) (\<lambda>(t, r, bs'). bs' = bs \<and> r = int (length bs) \<and> open_files t (A(f \<mapsto> (i, pos + int (length bs)))) \<and>
        frame s t \<and> contents t = contents s \<and> room t = room s)"
    and put: "open_files s A \<Longrightarrow> A f = Some (i, pos) \<Longrightarrow> bs \<noteq> [] \<Longrightarrow> pos + int (length bs) \<le> 2 ^ 31 \<Longrightarrow>
      c = contents s ! i \<Longrightarrow> i < length (contents s) \<Longrightarrow> n = writable (room s) (length c) (nat pos) (length bs) \<Longrightarrow>
      rets (put s f bs) (\<lambda>(t, r). frame s t \<and>
        (if n = 0 then r = -1 \<and> open_files t A \<and> contents t = contents s \<and> room t = room s
         else r = int n \<and> open_files t (A(f \<mapsto> (i, pos + int n))) \<and> contents t = (contents s)[i := file_put c (nat pos) (take n bs)] \<and>
           room t = room s - (nat pos + n - length c)))"
    and sync: "open_files s A \<Longrightarrow> A f \<noteq> None \<Longrightarrow>
      rets (sync s f) (\<lambda>(t, r). r = 0 \<and> open_files t A \<and> frame s t \<and> contents t = contents s \<and> room t = room s)"
begin

definition inode_of :: "(int \<rightharpoonup> nat \<times> int) \<Rightarrow> int \<rightharpoonup> nat" where
  "inode_of A f = map_option fst (A f)"

definition handles :: "'s \<Rightarrow> (int \<rightharpoonup> nat) \<Rightarrow> bool" where
  "handles s I \<longleftrightarrow> (\<exists>A. open_files s A \<and> I = inode_of A)"

definition positioned :: "'s \<Rightarrow> (int \<rightharpoonup> nat) \<Rightarrow> int \<Rightarrow> nat \<Rightarrow> bool" where
  "positioned s I f p \<longleftrightarrow> (\<exists>A i. open_files s A \<and> I = inode_of A \<and> A f = Some (i, int p))"

definition same :: "'s \<Rightarrow> 's \<Rightarrow> bool" where
  "same s t \<longleftrightarrow> frame s t \<and> contents t = contents s \<and> room t = room s"

lemma inode_of_upd: "A f = Some (i, p) \<Longrightarrow> inode_of (A(f \<mapsto> (i, q))) = inode_of A"
  by (auto simp: inode_of_def fun_eq_iff)

lemma handles_inode: "handles s I \<Longrightarrow> I f = Some i \<Longrightarrow> i < length (contents s)"
  using valid by (auto simp: handles_def inode_of_def)

lemma positioned_handles: "positioned s I f p \<Longrightarrow> handles s I"
  by (auto simp: positioned_def handles_def)

lemma seek_set:
  assumes "handles s I" and "I f \<noteq> None" and "p < 2 ^ 31"
  shows "rets (seek s f (int p) SEEK_SET) (\<lambda>(t, r). r = int p \<and> positioned t I f p \<and> same s t)"
proof -
  obtain A i q where A: "open_files s A" "I = inode_of A" "A f = Some (i, q)" using assms(1,2) by (auto simp: handles_def inode_of_def)
  have p: "int p = int p + (case SEEK_SET of SEEK_SET \<Rightarrow> 0 | SEEK_CUR \<Rightarrow> q | SEEK_END \<Rightarrow> int (length (contents s ! i)))" "0 \<le> int p" "int p < 2 ^ 31" "int p \<le> 2 ^ 31"
    using assms(3) by (simp_all add: of_nat_less_iff [of p "2 ^ 31", where 'a = int, symmetric] del: of_nat_less_iff)
  show ?thesis
    by (rule rets_mono [OF seek [where w = SEEK_SET and offset = "int p" and p = "int p", OF A(1,3) p(1,2,4)]])
      (use A p inode_of_upd [of A f, OF A(3)] in \<open>auto simp: positioned_def same_def\<close>)
qed

lemma seek_end:
  assumes "handles s I" and "I f = Some i" and "n = length (contents s ! i)" and "n \<le> 2 ^ 31"
  shows "rets (seek s f 0 SEEK_END) (\<lambda>(t, r). r = sint32 (int n) \<and> positioned t I f n \<and> same s t)"
proof -
  obtain A q where A: "open_files s A" "I = inode_of A" "A f = Some (i, q)" using assms(1,2) by (auto simp: handles_def inode_of_def)
  have p: "int n = 0 + (case SEEK_END of SEEK_SET \<Rightarrow> 0 | SEEK_CUR \<Rightarrow> q | SEEK_END \<Rightarrow> int (length (contents s ! i)))" "0 \<le> int n" "int n \<le> 2 ^ 31"
    using assms(3,4) by (simp_all add: of_nat_le_iff [of n "2 ^ 31", where 'a = int, symmetric] del: of_nat_le_iff)
  show ?thesis
    by (rule rets_mono [OF seek [where w = SEEK_END and offset = 0 and p = "int n", OF A(1,3) p]])
      (use A p inode_of_upd [of A f, OF A(3)] in \<open>auto simp: positioned_def same_def\<close>)
qed

lemma get_here:
  assumes "positioned s I f p" and "I f = Some i" and "p + n \<le> 2 ^ 31"
  shows "rets (get s f n) (\<lambda>(t, r, bs). bs = rd (contents s ! i) p n \<and> r = int (length bs) \<and> handles t I \<and> same s t)"
proof -
  obtain A where A: "open_files s A" "I = inode_of A" "A f = Some (i, int p)" using assms(1,2) by (auto simp: positioned_def inode_of_def)
  have "length (rd (contents s ! i) (nat (int p)) n) \<le> n" by (simp add: rd_def)
  then have le: "int p + int (length (rd (contents s ! i) (nat (int p)) n)) \<le> 2 ^ 31"
    using assms(3) by (simp add: of_nat_le_iff [of "p + n" "2 ^ 31", where 'a = int, symmetric] del: of_nat_le_iff)
  show ?thesis
    by (rule rets_mono [OF get [OF A(1,3) refl le]]) (use A inode_of_upd [of A f, OF A(3)] in \<open>auto simp: handles_def same_def\<close>)
qed

lemma put_here:
  assumes "positioned s I f p" and "I f = Some i" and "bs \<noteq> []" and "p + length bs \<le> 2 ^ 31" and "c = contents s ! i"
    and n: "n = writable (room s) (length c) p (length bs)"
  shows "rets (put s f bs) (\<lambda>(t, r). frame s t \<and> handles t I \<and>
    (if n = 0 then r = -1 \<and> contents t = contents s \<and> room t = room s
     else r = int n \<and> contents t = (contents s)[i := file_put c p (take n bs)] \<and> room t = room s - (p + n - length c)))"
proof -
  obtain A where A: "open_files s A" "I = inode_of A" "A f = Some (i, int p)" using assms(1,2) by (auto simp: positioned_def inode_of_def)
  have le: "int p + int (length bs) \<le> 2 ^ 31" using assms(4) by (simp add: of_nat_le_iff [of "p + length bs" "2 ^ 31", where 'a = int, symmetric] del: of_nat_le_iff)
  have i: "i < length (contents s)" using valid [OF A(1,3)] by simp
  show ?thesis
    by (rule rets_mono [OF put [OF A(1,3) assms(3) le assms(5) i refl]]) (use A n inode_of_upd [of A f, OF A(3)] in \<open>auto simp: handles_def split: if_splits\<close>)
qed

lemma sync_handles:
  assumes "handles s I" and "I f \<noteq> None"
  shows "rets (sync s f) (\<lambda>(t, r). r = 0 \<and> handles t I \<and> same s t)"
proof -
  obtain A where A: "open_files s A" "I = inode_of A" "A f \<noteq> None" using assms(1,2) by (auto simp: handles_def inode_of_def)
  show ?thesis by (rule rets_mono [OF sync [OF A(1,3)]]) (use A in \<open>auto simp: handles_def same_def\<close>)
qed

end

subsection \<open>Virtual files provide it\<close>

interpretation fdl: file_layer files "\<lambda>s. inodes (sys s)" "\<lambda>s. disk_room (sys s)" same_config FileSeek FileRead FileWrite FileSync
proof (unfold_locales, goal_cases)
  case 1 then show ?case using files_ino by blast
next
  case 2 then show ?case using FileSeek_files by blast
next
  case 3 then show ?case using FileRead_files by blast
next
  case 4 then show ?case using FileWrite_files by blast
next
  case 5 then show ?case by (rule FileSync_files)
qed

text \<open>Opening a file.\<close>

lemma open_handles:
  assumes "fdl.handles s I"
  shows "rets (fileNameOpenFile s path fl mode) (\<lambda>(t, x). DataDir t = DataDir s \<and> DatabaseName t = DatabaseName s \<and> disk_room (sys t) = disk_room (sys s) \<and>
    (case open_path (sys s) path fl of
       None \<Rightarrow> x = -1 \<and> fdl.handles t I \<and> names (sys t) = names (sys s) \<and> inodes (sys t) = inodes (sys s)
     | Some (u, i) \<Rightarrow> 0 < x \<and> I x = None \<and> fdl.handles t (I(x \<mapsto> i)) \<and> names (sys t) = names u \<and> inodes (sys t) = inodes u))"
proof -
  obtain A where A: "files s A" "I = fdl.inode_of A" using assms by (auto simp: fdl.handles_def)
  have I: "fdl.inode_of (A(x \<mapsto> (i, 0))) = I(x \<mapsto> i)" for x i using A(2) by (auto simp: fdl.inode_of_def fun_eq_iff)
  show ?thesis
  proof (rule rets_mono [OF files_open [OF A(1)]], clarify)
    fix t x assume o: "opened s A path fl t x"
    then have "case open_path (sys s) path fl of
       None \<Rightarrow> x = -1 \<and> fdl.handles t I \<and> names (sys t) = names (sys s) \<and> inodes (sys t) = inodes (sys s)
     | Some (u, i) \<Rightarrow> 0 < x \<and> I x = None \<and> fdl.handles t (I(x \<mapsto> i)) \<and> names (sys t) = names u \<and> inodes (sys t) = inodes u"
      using A(2) I by (auto simp: opened_def fdl.handles_def fdl.inode_of_def split: option.splits)
    then show "DataDir t = DataDir s \<and> DatabaseName t = DatabaseName s \<and> disk_room (sys t) = disk_room (sys s) \<and>
    (case open_path (sys s) path fl of
       None \<Rightarrow> x = -1 \<and> fdl.handles t I \<and> names (sys t) = names (sys s) \<and> inodes (sys t) = inodes (sys s)
     | Some (u, i) \<Rightarrow> 0 < x \<and> I x = None \<and> fdl.handles t (I(x \<mapsto> i)) \<and> names (sys t) = names u \<and> inodes (sys t) = inodes u)"
      using o by (auto simp: opened_def)
  qed
qed

lemma handles_head: "fdl.handles s I \<Longrightarrow> 20 \<le> no_files s"
  using fd_invD(11) by (auto simp: fdl.handles_def files_def)

end
