(* ===== verification/Md_Inv.thy ===== *)
theory Md_Inv
  imports Md_Files
begin

text \<open>
  A relation on disk is a list of blocks, cut into segments (\<open>on_disk\<close>); a chain of \<open>Md_fdvec\<close> gives access to it (\<open>rel_open\<close>), and
  its block counts tell which segments are full (\<open>hints\<close>). Each operation of \<open>md.c\<close> acts on the list.
\<close>

subsection \<open>Blocks in a sequence of bytes\<close>

lemmas sizes = BLCKSZ_def RELSEG_SIZE_def

definition blocks_ok :: "byte list list \<Rightarrow> bool" where
  "blocks_ok bs \<longleftrightarrow> (\<forall>b\<in>set bs. length b = BLCKSZ)"

lemma blocks_ok_simps [simp]:
  "blocks_ok []" "blocks_ok (b # bs) \<longleftrightarrow> length b = BLCKSZ \<and> blocks_ok bs" "blocks_ok (bs @ cs) \<longleftrightarrow> blocks_ok bs \<and> blocks_ok cs"
  by (auto simp: blocks_ok_def)

lemma blocks_ok_take: "blocks_ok bs \<Longrightarrow> blocks_ok (take n bs)" "blocks_ok bs \<Longrightarrow> blocks_ok (drop n bs)"
  by (auto simp: blocks_ok_def dest: in_set_takeD in_set_dropD)

lemma blocks_ok_nth: "blocks_ok bs \<Longrightarrow> k < length bs \<Longrightarrow> length (bs ! k) = BLCKSZ"
  by (auto simp: blocks_ok_def)

lemma blocks_ok_update: "blocks_ok bs \<Longrightarrow> length b = BLCKSZ \<Longrightarrow> blocks_ok (bs[k := b])"
  by (auto simp: blocks_ok_def dest: set_update_subset_insert [THEN subsetD])

lemma length_blocks: "blocks_ok bs \<Longrightarrow> length (concat bs) = length bs * BLCKSZ"
  by (induction bs) auto

lemma take_blocks: "blocks_ok bs \<Longrightarrow> take (k * BLCKSZ) (concat bs) = concat (take k bs)"
proof (induction bs arbitrary: k)
  case (Cons b bs) then show ?case by (cases k) auto
qed simp

lemma drop_blocks: "blocks_ok bs \<Longrightarrow> drop (k * BLCKSZ) (concat bs) = concat (drop k bs)"
proof (induction bs arbitrary: k)
  case (Cons b bs) then show ?case by (cases k) auto
qed simp

lemma read_block: "blocks_ok bs \<Longrightarrow> rd (concat bs) (k * BLCKSZ) BLCKSZ = (if k < length bs then bs ! k else [])"
  by (auto simp: rd_def drop_blocks blocks_ok_nth simp flip: Cons_nth_drop_Suc)

lemma write_block: "blocks_ok bs \<Longrightarrow> length b = BLCKSZ \<Longrightarrow> k < length bs \<Longrightarrow> file_put (concat bs) (k * BLCKSZ) b = concat (bs[k := b])"
proof -
  assume bs: "blocks_ok bs" "length b = BLCKSZ" "k < length bs"
  have le: "k * BLCKSZ + BLCKSZ \<le> length (concat bs)" using bs(3) mult_le_mono1 [of "Suc k" "length bs" BLCKSZ] by (simp add: length_blocks [OF bs(1)])
  have "drop (k * BLCKSZ + BLCKSZ) (concat bs) = concat (drop (Suc k) bs)" using drop_blocks [OF bs(1), of "Suc k"] by (simp add: add.commute)
  then show ?thesis using bs le by (simp add: file_put_def take_blocks upd_conv_take_nth_drop)
qed

lemma append_block: "blocks_ok bs \<Longrightarrow> file_put (concat bs) (length bs * BLCKSZ) b = concat (bs @ [b])"
  by (simp add: file_put_end length_blocks)

subsection \<open>Segments\<close>

definition seg_blocks :: "byte list list \<Rightarrow> nat \<Rightarrow> byte list list" where
  "seg_blocks bs j = take RELSEG_SIZE (drop (j * RELSEG_SIZE) bs)"

lemma RELSEG_pos [simp]: "0 < RELSEG_SIZE"
  by (simp add: RELSEG_SIZE_def)

lemma seg_blocks_ok: "blocks_ok bs \<Longrightarrow> blocks_ok (seg_blocks bs j)"
  by (simp add: seg_blocks_def blocks_ok_take)

lemma length_seg: "length (seg_blocks bs j) = min RELSEG_SIZE (length bs - j * RELSEG_SIZE)"
  by (simp add: seg_blocks_def min.commute)

lemma seg_before: "j < k div RELSEG_SIZE \<Longrightarrow> j * RELSEG_SIZE + RELSEG_SIZE \<le> k"
  using less_eq_div_iff_mult_less_eq [of RELSEG_SIZE "Suc j" k] by simp

lemma seg_after: "k div RELSEG_SIZE < j \<Longrightarrow> k < j * RELSEG_SIZE"
  by (simp add: div_less_iff_less_mult)

lemma nth_seg: "k < length bs \<Longrightarrow> k mod RELSEG_SIZE < length (seg_blocks bs (k div RELSEG_SIZE)) \<and> seg_blocks bs (k div RELSEG_SIZE) ! (k mod RELSEG_SIZE) = bs ! k"
proof -
  assume "k < length bs"
  moreover have k: "k div RELSEG_SIZE * RELSEG_SIZE + k mod RELSEG_SIZE = k" "k mod RELSEG_SIZE < RELSEG_SIZE" by simp_all
  ultimately have "k mod RELSEG_SIZE < length (drop (k div RELSEG_SIZE * RELSEG_SIZE) bs)" "drop (k div RELSEG_SIZE * RELSEG_SIZE) bs ! (k mod RELSEG_SIZE) = bs ! k"
    by (simp_all only: length_drop less_diff_conv2 nth_drop)
  then show ?thesis unfolding seg_blocks_def using k(2) by simp
qed

lemma seg_update:
  assumes "k < length bs"
  shows "seg_blocks (bs[k := b]) j = (if j = k div RELSEG_SIZE then (seg_blocks bs j)[k mod RELSEG_SIZE := b] else seg_blocks bs j)"
proof -
  let ?R = RELSEG_SIZE
  have k: "k div ?R * ?R + k mod ?R = k" "k mod ?R < ?R" by simp_all
  consider "j < k div ?R" | "j = k div ?R" | "k div ?R < j" by linarith
  then show ?thesis
  proof cases
    case 1
    from seg_before [OF this] have "j * ?R + ?R \<le> k" .
    then show ?thesis using 1 by (simp add: seg_blocks_def drop_update_swap take_update_cancel)
  next
    case 2
    then have "j * ?R \<le> k" "k - j * ?R = k mod ?R" by (simp_all add: minus_div_mult_eq_mod)
    then show ?thesis using 2 k(2) by (simp add: seg_blocks_def drop_update_swap take_update_swap)
  next
    case 3
    from seg_after [OF this] have "k < j * ?R" .
    then show ?thesis using 3 by (simp add: seg_blocks_def drop_update_cancel)
  qed
qed

lemma seg_append:
  "seg_blocks (bs @ [b]) j = (if j = length bs div RELSEG_SIZE then seg_blocks bs j @ [b] else seg_blocks bs j)"
proof -
  let ?R = RELSEG_SIZE and ?n = "length bs"
  have k: "?n div ?R * ?R + ?n mod ?R = ?n" "?n mod ?R < ?R" by simp_all
  consider "j < ?n div ?R" | "j = ?n div ?R" | "?n div ?R < j" by linarith
  then show ?thesis
  proof cases
    case 1
    from seg_before [OF this] have "j * ?R + ?R \<le> ?n" .
    then show ?thesis using 1 by (simp add: seg_blocks_def)
  next
    case 2
    then have "j * ?R \<le> ?n" "?n - j * ?R < ?R" using k(2) by (simp_all add: minus_div_mult_eq_mod)
    then show ?thesis using 2 by (simp add: seg_blocks_def)
  next
    case 3
    from seg_after [OF this] have "?n < j * ?R" .
    then show ?thesis using 3 by (simp add: seg_blocks_def)
  qed
qed

subsection \<open>Relations\<close>

definition rel_open :: "md \<Rightarrow> (int \<rightharpoonup> nat) \<Rightarrow> int \<Rightarrow> nat list \<Rightarrow> bool" where
  "rel_open s I f is \<longleftrightarrow> fdl.handles (vfs s) I \<and> (\<exists>c. chain_at s f = Some c \<and> map (\<lambda>v. I (mdfd_vfd v)) c = map Some is) \<and> is \<noteq> []"

definition on_disk :: "vfds \<Rightarrow> nat list \<Rightarrow> byte list list \<Rightarrow> bool" where
  "on_disk v is bs \<longleftrightarrow> distinct is \<and> blocks_ok bs \<and> (\<forall>j<length is. inodes (sys v) ! (is ! j) = concat (seg_blocks bs j)) \<and>
     (length is - 1) * RELSEG_SIZE \<le> length bs \<and> length bs \<le> length is * RELSEG_SIZE"

definition hints :: "md \<Rightarrow> int \<Rightarrow> byte list list \<Rightarrow> bool" where
  "hints s f bs \<longleftrightarrow> (\<forall>c. chain_at s f = Some c \<longrightarrow> (\<forall>j<length c. mdfd_lstbcnt (c ! j) = int RELSEG_SIZE \<longleftrightarrow> (j + 1) * RELSEG_SIZE \<le> length bs))"

lemma rel_openE:
  assumes "rel_open s I f is"
  obtains c where "chain_at s f = Some c" "length c = length is" "\<And>j. j < length is \<Longrightarrow> I (mdfd_vfd (c ! j)) = Some (is ! j)" "fdl.handles (vfs s) I" "0 < length is"
    "0 \<le> f" "c = Md_fdvec s ! nat f" "nat f < length (Md_fdvec s)"
proof -
  obtain c where c: "chain_at s f = Some c" "map (\<lambda>v. I (mdfd_vfd v)) c = map Some is" using assms by (auto simp: rel_open_def)
  then have l: "length c = length is" by (metis length_map)
  have "I (mdfd_vfd (c ! j)) = Some (is ! j)" if "j < length is" for j using arg_cong [OF c(2), of "\<lambda>l. l ! j"] that l by simp
  then show ?thesis using that c l assms by (auto simp: rel_open_def chain_at_def split: if_splits)
qed

lemma chain_vfs [simp]: "chain_at (s\<lparr>vfs := v\<rparr>) f = chain_at s f" "vec_at (s\<lparr>vfs := v\<rparr>) f i = vec_at s f i"
  by (simp_all add: chain_at_def vec_at_def)

lemma chain_put: "chain_at s f \<noteq> None \<Longrightarrow> chain_at (put_chain s f c) g = (if g = f then Some c else chain_at s g)"
  by (auto simp: chain_at_def put_chain_def nth_list_update split: if_splits)

lemma put_chain_simps [simp]: "vfs (put_chain s f c) = vfs s" "CurFd (put_chain s f c) = CurFd s" "Nfds (put_chain s f c) = Nfds s" "bootstrap (put_chain s f c) = bootstrap s"
  by (simp_all add: put_chain_def)

lemma put_chain_twice [simp]: "put_chain (put_chain s f c) f d = put_chain s f d"
  by (simp add: put_chain_def)

lemma vec_upd_eq: "chain_at s f = Some c \<Longrightarrow> i < length c \<Longrightarrow> vec_upd s f i g = Some (put_chain s f (c[i := g (c ! i)]))"
  by (simp add: vec_upd_def)

lemma vec_at_eq: "chain_at s f = Some c \<Longrightarrow> i < length c \<Longrightarrow> vec_at s f i = Some (c ! i)"
  by (simp add: vec_at_def)

lemma getseg_walk: "chain_at s f = Some c \<Longrightarrow> i + n < length c \<Longrightarrow> getseg_loop s reln f oflag i n = Some (s, i + n)"
  by (induction n arbitrary: i) (auto simp: next_seg_def)

lemma getseg_eq:
  assumes "rel_open s I (rd_fd reln) is" and "nat (b div int RELSEG_SIZE) < length is"
  shows "mdfd_getseg s reln b oflag = Some (s, reln, nat (b div int RELSEG_SIZE))"
proof -
  obtain c where c: "chain_at s (rd_fd reln) = Some c" "length c = length is" "0 \<le> rd_fd reln" "0 < length is" by (rule rel_openE [OF assms(1)]) auto
  then show ?thesis using getseg_walk [OF c(1), of 0 "nat (b div int RELSEG_SIZE)" reln oflag] assms(2) by (simp add: mdfd_getseg_def vec_at_eq [OF c(1)])
qed

lemma sint_block: "unat (b :: uint32) < 2 ^ 31 \<Longrightarrow> sint b = int (unat b)"
proof -
  assume "unat b < 2 ^ 31"
  then have "int (unat b) < int (2 ^ 31)" by (simp only: of_nat_less_iff)
  then have u: "int (unat b) < 2 ^ 31" by simp
  have "sint b = signed_take_bit 31 (int (unat b))" using sint_uint [of b] by simp
  also have "\<dots> = int (unat b)" using u by (intro signed_take_bit_int_eq_self) (simp_all add: order_trans [of _ 0])
  finally show ?thesis .
qed

text \<open>The place of a block.\<close>

lemma block_place:
  assumes "rel_open s I (rd_fd reln) is" and "unat b < 2 ^ 31" and "unat b div RELSEG_SIZE < length is" and "j = unat b div RELSEG_SIZE"
  obtains c where "mdfd_getseg s reln (sint b) oflag = Some (s, reln, j)" "chain_at s (rd_fd reln) = Some c" "j < length c" "vec_at s (rd_fd reln) j = Some (c ! j)"
    "I (mdfd_vfd (c ! j)) = Some (is ! j)" "fdl.handles (vfs s) I" "block_pos b = int (unat b mod RELSEG_SIZE * BLCKSZ)"
    "unat b mod RELSEG_SIZE * BLCKSZ + BLCKSZ \<le> 2 ^ 31" "unat b mod RELSEG_SIZE * BLCKSZ < 2 ^ 31"
proof -
  have j: "nat (sint b div int RELSEG_SIZE) = j" using sint_block [OF assms(2)] assms(4) by (simp add: nat_div_distrib del: of_nat_div)
  obtain c where c: "chain_at s (rd_fd reln) = Some c" "length c = length is" "\<And>j. j < length is \<Longrightarrow> I (mdfd_vfd (c ! j)) = Some (is ! j)" "fdl.handles (vfs s) I"
    using assms(1) by (elim rel_openE) blast
  have "unat b mod RELSEG_SIZE < RELSEG_SIZE" by simp
  then have le: "unat b mod RELSEG_SIZE * BLCKSZ + BLCKSZ \<le> 2 ^ 31" "unat b mod RELSEG_SIZE * BLCKSZ < 2 ^ 31" by (simp_all add: sizes)
  show ?thesis
    by (rule that) (use c assms(3,4) le getseg_eq [OF assms(1), of "sint b" oflag] j vec_at_eq [OF c(1), of j] in \<open>auto simp: block_pos_def mult.commute\<close>)
qed

subsection \<open>Reading and writing blocks\<close>

definition block_at :: "byte list list \<Rightarrow> uint32 \<Rightarrow> byte list" where
  "block_at bs b = (if unat b < length bs then bs ! unat b else replicate BLCKSZ 0)"

lemma mdread_blocks:
  assumes "rel_open s I (rd_fd reln) is" and "on_disk (vfs s) is bs" and "unat b < 2 ^ 31" and "unat b div RELSEG_SIZE < length is"
  shows "rets (mdread s reln b buffer) (\<lambda>(t, reln', st, data). reln' = reln \<and> st = SM_SUCCESS \<and> data = block_at bs b \<and>
    t = s\<lparr>vfs := vfs t\<rparr> \<and> fdl.handles (vfs t) I \<and> fdl.same (vfs s) (vfs t))"
proof -
  define j k where "j = unat b div RELSEG_SIZE" and "k = unat b mod RELSEG_SIZE"
  obtain c where c: "mdfd_getseg s reln (sint b) 0 = Some (s, reln, j)" "chain_at s (rd_fd reln) = Some c" "j < length c" "vec_at s (rd_fd reln) j = Some (c ! j)"
    "I (mdfd_vfd (c ! j)) = Some (is ! j)" "fdl.handles (vfs s) I" "block_pos b = int (k * BLCKSZ)" "k * BLCKSZ + BLCKSZ \<le> 2 ^ 31" "k * BLCKSZ < 2 ^ 31"
    using block_place [OF assms(1,3,4) j_def] unfolding k_def by blast
  have disk: "inodes (sys (vfs s)) ! (is ! j) = concat (seg_blocks bs j)" "blocks_ok (seg_blocks bs j)"
    using assms(2,4) by (auto simp: on_disk_def j_def seg_blocks_ok)
  have rd: "rd (concat (seg_blocks bs j)) (k * BLCKSZ) BLCKSZ = (if unat b < length bs then bs ! unat b else [])"
  proof (cases "unat b < length bs")
    case True then show ?thesis using nth_seg [OF True] read_block [OF disk(2), of k] by (simp add: j_def k_def)
  next
    case False
    have "unat b = j * RELSEG_SIZE + k" by (simp add: j_def k_def)
    then have "\<not> k < length (seg_blocks bs j)" using False by (auto simp: length_seg)
    then show ?thesis using False read_block [OF disk(2), of k] by simp
  qed
  have nn: "I (mdfd_vfd (c ! j)) \<noteq> None" using c(5) by simp
  from fdl.seek_set [OF c(6) nn c(9)] obtain v1 where v1: "FileSeek (vfs s) (mdfd_vfd (c ! j)) (int (k * BLCKSZ)) SEEK_SET = Some (v1, int (k * BLCKSZ))"
    "fdl.positioned v1 I (mdfd_vfd (c ! j)) (k * BLCKSZ)" "fdl.same (vfs s) v1" by (elim retsE) auto
  have io: "inodes (sys v1) = inodes (sys (vfs s))" using v1(3) by (simp add: fdl.same_def)
  from fdl.get_here [OF v1(2) c(5,8)] obtain v2 bs2 where v2: "FileRead v1 (mdfd_vfd (c ! j)) BLCKSZ = Some (v2, int (length bs2), bs2)" "fdl.handles v2 I" "fdl.same v1 v2"
    and bs2: "bs2 = (if unat b < length bs then bs ! unat b else [])" by (elim retsE) (auto simp: io disk(1) rd)
  have same: "fdl.same (vfs s) v2" using v1(3) v2(3) by (auto simp: fdl.same_def same_config_def)
  have len: "length (bs ! unat b) = BLCKSZ" if "unat b < length bs" using that assms(2) by (simp add: on_disk_def blocks_ok_nth)
  have B: "BLCKSZ \<noteq> 0" by (simp add: BLCKSZ_def)
  have "mdread s reln b buffer = Some (s\<lparr>vfs := v2\<rparr>, reln, SM_SUCCESS, block_at bs b)"
    using c v1(1) v2(1) bs2 len B by (simp add: mdread_def block_at_def cong: if_cong)
  then show ?thesis using v2(2) same by simp
qed

text \<open>What a write of block \<open>b\<close> leaves behind it.\<close>

definition wrote :: "vfds \<Rightarrow> nat list \<Rightarrow> uint32 \<Rightarrow> byte list \<Rightarrow> vfds \<Rightarrow> bool" where
  "wrote v is b buffer w \<longleftrightarrow> same_config v w \<and> disk_room (sys w) = disk_room (sys v) \<and>
     inodes (sys w) = (inodes (sys v))[is ! (unat b div RELSEG_SIZE) := file_put (inodes (sys v) ! (is ! (unat b div RELSEG_SIZE))) (unat b mod RELSEG_SIZE * BLCKSZ) buffer]"

lemma wrote_on_disk:
  assumes "wrote v is b buffer w" and "on_disk v is bs" and "unat b < length bs" and "length buffer = BLCKSZ" and "\<And>j. j < length is \<Longrightarrow> is ! j < length (inodes (sys v))"
  shows "on_disk w is (bs[unat b := buffer])"
proof -
  let ?j = "unat b div RELSEG_SIZE"
  have j: "?j < length is" using assms(2,3) by (simp add: on_disk_def div_less_iff_less_mult)
  have "inodes (sys w) ! (is ! i) = concat (seg_blocks (bs[unat b := buffer]) i)" if i: "i < length is" for i
  proof (cases "i = ?j")
    case True
    then show ?thesis using assms j nth_seg [OF assms(3)] seg_update [OF assms(3), of buffer ?j]
      write_block [of "seg_blocks bs ?j" buffer "unat b mod RELSEG_SIZE"] by (simp add: wrote_def on_disk_def seg_blocks_ok)
  next
    case False
    then have "is ! i \<noteq> is ! ?j" using assms(2) i j by (simp add: on_disk_def nth_eq_iff_index_eq)
    then show ?thesis using assms(1,2) i False seg_update [OF assms(3), of buffer i] by (simp add: wrote_def on_disk_def)
  qed
  then show ?thesis using assms(2,4) by (simp add: on_disk_def blocks_ok_update)
qed

lemma put_block:
  assumes "rel_open s I (rd_fd reln) is" and "on_disk (vfs s) is bs" and "unat b < 2 ^ 31" and "unat b < length bs" and "length buffer = BLCKSZ" and "j = unat b div RELSEG_SIZE"
  obtains c v w where "mdfd_getseg s reln (sint b) 0 = Some (s, reln, j)" "chain_at s (rd_fd reln) = Some c" "j < length c"
    "FileSeek (vfs s) (mdfd_vfd (c ! j)) (block_pos b) SEEK_SET = Some (v, block_pos b)" "FileWrite v (mdfd_vfd (c ! j)) buffer = Some (w, int BLCKSZ)"
    "fdl.handles w I" "I (mdfd_vfd (c ! j)) \<noteq> None" "wrote (vfs s) is b buffer w"
proof -
  define k where "k = unat b mod RELSEG_SIZE"
  have ji: "unat b div RELSEG_SIZE < length is" using assms(2,4) by (simp add: on_disk_def div_less_iff_less_mult)
  obtain c where c: "mdfd_getseg s reln (sint b) 0 = Some (s, reln, j)" "chain_at s (rd_fd reln) = Some c" "j < length c" "vec_at s (rd_fd reln) j = Some (c ! j)"
    "I (mdfd_vfd (c ! j)) = Some (is ! j)" "fdl.handles (vfs s) I" "block_pos b = int (k * BLCKSZ)" "k * BLCKSZ + BLCKSZ \<le> 2 ^ 31" "k * BLCKSZ < 2 ^ 31"
    using block_place [OF assms(1,3) ji assms(6)] unfolding k_def by blast
  have disk: "inodes (sys (vfs s)) ! (is ! j) = concat (seg_blocks bs j)" "blocks_ok (seg_blocks bs j)" "k < length (seg_blocks bs j)"
    using assms(2,6) ji nth_seg [OF assms(4)] by (auto simp: on_disk_def seg_blocks_ok k_def)
  have nn: "I (mdfd_vfd (c ! j)) \<noteq> None" using c(5) by simp
  from fdl.seek_set [OF c(6) nn c(9)] obtain v1 where v1: "FileSeek (vfs s) (mdfd_vfd (c ! j)) (int (k * BLCKSZ)) SEEK_SET = Some (v1, int (k * BLCKSZ))"
    "fdl.positioned v1 I (mdfd_vfd (c ! j)) (k * BLCKSZ)" "fdl.same (vfs s) v1" by (elim retsE) auto
  have io: "inodes (sys v1) = inodes (sys (vfs s))" using v1(3) by (simp add: fdl.same_def)
  have ne: "buffer \<noteq> []" "k * BLCKSZ + length buffer \<le> 2 ^ 31" using assms(5) c(8) by (auto simp: BLCKSZ_def)
  have "Suc k * BLCKSZ \<le> length (seg_blocks bs j) * BLCKSZ" using disk(3) by (intro mult_le_mono1) simp
  then have g: "BLCKSZ = writable (disk_room (sys v1)) (length (inodes (sys v1) ! (is ! j))) (k * BLCKSZ) (length buffer)"
    using assms(5) by (simp add: io disk(1) length_blocks [OF disk(2)] writable_all)
  have fit: "k * BLCKSZ + BLCKSZ - length (inodes (sys v1) ! (is ! j)) = 0" "BLCKSZ \<noteq> 0" "take BLCKSZ buffer = buffer"
    using \<open>Suc k * BLCKSZ \<le> _\<close> assms(5) by (simp_all add: io disk(1) length_blocks [OF disk(2)]) (simp add: BLCKSZ_def)
  from fdl.put_here [OF v1(2) c(5) ne refl g] obtain w where w: "FileWrite v1 (mdfd_vfd (c ! j)) buffer = Some (w, int BLCKSZ)" "fdl.handles w I"
    "same_config v1 w" "inodes (sys w) = (inodes (sys v1))[is ! j := file_put (inodes (sys v1) ! (is ! j)) (k * BLCKSZ) buffer]" "disk_room (sys w) = disk_room (sys v1)"
    by (elim retsE) (use fit in auto)
  have "wrote (vfs s) is b buffer w" using w(3-5) v1(3) assms(6) by (auto simp: wrote_def fdl.same_def same_config_def k_def)
  then show ?thesis using that [OF c(1-3) _ w(1,2)] v1(1) c(5,7) by simp
qed

lemma mdwrite_blocks:
  assumes "rel_open s I (rd_fd reln) is" and "on_disk (vfs s) is bs" and "unat b < 2 ^ 31" and "unat b < length bs" and "length buffer = BLCKSZ" and "chain_at s (rd_fd reln) = Some c" and "j = unat b div RELSEG_SIZE"
  shows "rets (mdwrite s reln b buffer) (\<lambda>(t, reln', st). reln' = reln \<and> st = SM_SUCCESS \<and> wrote (vfs s) is b buffer (vfs t) \<and> fdl.handles (vfs t) I \<and>
    t = put_chain (s\<lparr>vfs := vfs t\<rparr>) (rd_fd reln) (c[j := dirty_vec (c ! j)]))"
proof -
  obtain v w where p: "mdfd_getseg s reln (sint b) 0 = Some (s, reln, j)" "j < length c"
    "FileSeek (vfs s) (mdfd_vfd (c ! j)) (block_pos b) SEEK_SET = Some (v, block_pos b)" "FileWrite v (mdfd_vfd (c ! j)) buffer = Some (w, int BLCKSZ)"
    "fdl.handles w I" "wrote (vfs s) is b buffer w" using assms(6) by (rule_tac put_block [OF assms(1-5,7)]) auto
  have c: "chain_at (s\<lparr>vfs := w\<rparr>) (rd_fd reln) = Some c" using assms(6) by simp
  show ?thesis using p vec_upd_eq [OF c p(2)] vec_at_eq [OF assms(6) p(2)] by (simp add: mdwrite_def)
qed

lemma mdflush_blocks:
  assumes "rel_open s I (rd_fd reln) is" and "on_disk (vfs s) is bs" and "unat b < 2 ^ 31" and "unat b < length bs" and "length buffer = BLCKSZ" and "chain_at s (rd_fd reln) = Some c" and "j = unat b div RELSEG_SIZE"
  shows "rets (mdflush s reln b buffer) (\<lambda>(t, reln', st). reln' = reln \<and> st = SM_SUCCESS \<and> wrote (vfs s) is b buffer (vfs t) \<and> fdl.handles (vfs t) I \<and>
    t = put_chain (s\<lparr>vfs := vfs t\<rparr>) (rd_fd reln) (c[j := clean_vec (c ! j)]))"
proof -
  obtain v w where p: "mdfd_getseg s reln (sint b) 0 = Some (s, reln, j)" "j < length c"
    "FileSeek (vfs s) (mdfd_vfd (c ! j)) (block_pos b) SEEK_SET = Some (v, block_pos b)" "FileWrite v (mdfd_vfd (c ! j)) buffer = Some (w, int BLCKSZ)"
    "fdl.handles w I" "I (mdfd_vfd (c ! j)) \<noteq> None" "wrote (vfs s) is b buffer w" using assms(6) by (rule_tac put_block [OF assms(1-5,7)]) auto
  from fdl.sync_handles [OF p(5,6)] obtain x where x: "FileSync w (mdfd_vfd (c ! j)) = Some (x, 0)" "fdl.handles x I" "fdl.same w x" by (elim retsE) auto
  have "wrote (vfs s) is b buffer x" using p(7) x(3) by (auto simp: wrote_def fdl.same_def same_config_def)
  moreover have c: "chain_at (s\<lparr>vfs := x\<rparr>) (rd_fd reln) = Some c" using assms(6) by simp
  ultimately show ?thesis using p x vec_upd_eq [OF c p(2)] vec_at_eq [OF assms(6) p(2)] by (simp add: mdflush_def)
qed

end
