(* ===== verification/Md_Count.thy ===== *)
theory Md_Count
  imports Md_Inv
begin

text \<open>
  Counting the blocks of a relation, opening its next segment when the last one is full, and adding blocks to it.
\<close>

subsection \<open>Counting the blocks of a file\<close>

lemma sint32_bytes: "n \<le> RELSEG_SIZE \<Longrightarrow> sint32 (int (n * BLCKSZ)) = (if n = RELSEG_SIZE then - (2 ^ 31) else int (n * BLCKSZ))"
proof (cases "n = RELSEG_SIZE")
  case True
  have "int (RELSEG_SIZE * BLCKSZ) = 2 ^ 31" by (simp add: sizes)
  then show ?thesis using True sint32_wrap by simp
next
  case False
  assume "n \<le> RELSEG_SIZE"
  then have "n * BLCKSZ < 2 ^ 31" using False by (simp add: sizes)
  then have "int (n * BLCKSZ) < int (2 ^ 31)" by (simp only: of_nat_less_iff)
  then have "int (n * BLCKSZ) < 2 ^ 31" by simp
  moreover have "- (2 ^ 31) \<le> int (n * BLCKSZ)" by (rule order_trans [of _ 0]) simp_all
  ultimately show ?thesis using False sint32_id [of "int (n * BLCKSZ)"] by simp
qed

lemma round_up: "0 < n \<Longrightarrow> 1 + (int (n * BLCKSZ) - 1) div int BLCKSZ = int n"
proof -
  assume "0 < n"
  then obtain m where n: "n = Suc m" by (cases n) auto
  have e: "int (n * BLCKSZ) - 1 = int m * int BLCKSZ + (int BLCKSZ - 1)" by (simp add: n algebra_simps)
  have "(int m * int BLCKSZ + (int BLCKSZ - 1)) div int BLCKSZ = int m" by (simp add: BLCKSZ_def)
  then show ?thesis unfolding e using n by simp
qed

text \<open>The count of a full segment comes out as zero: its size, \<open>2^31\<close>, does not fit the \<open>int\<close> of \<open>FileSeek\<close>.\<close>

lemma count_file:
  assumes "fdl.handles (vfs s) I" and "I f = Some i" and "inodes (sys (vfs s)) ! i = concat cs" and "blocks_ok cs" and "length cs \<le> RELSEG_SIZE"
  shows "rets (mdnblocks_file s f) (\<lambda>(t, n). n = (if length cs = RELSEG_SIZE then 0 else int (length cs)) \<and> t = s\<lparr>vfs := vfs t\<rparr> \<and> fdl.handles (vfs t) I \<and> fdl.same (vfs s) (vfs t))"
proof -
  have len: "length cs * BLCKSZ = length (inodes (sys (vfs s)) ! i)" using assms(3,4) by (simp add: length_blocks)
  have le: "length cs * BLCKSZ \<le> 2 ^ 31" using assms(5) by (simp add: sizes)
  from fdl.seek_end [OF assms(1,2) len le] obtain v where v: "FileSeek (vfs s) f 0 SEEK_END = Some (v, sint32 (int (length cs * BLCKSZ)))"
    "fdl.handles v I" "fdl.same (vfs s) v" by (elim retsE) (auto dest: fdl.positioned_handles)
  have "mdnblocks_file s f = Some (s\<lparr>vfs := v\<rparr>, if length cs = RELSEG_SIZE then 0 else int (length cs))"
  proof (cases "length cs = RELSEG_SIZE \<or> cs = []")
    case True then show ?thesis using v(1) sint32_bytes [OF assms(5)] by (auto simp: mdnblocks_file_def)
  next
    case False
    then have "0 < length cs" by simp
    moreover have "0 < length cs * BLCKSZ" using False by (simp add: BLCKSZ_def)
    then have "1 \<le> int (length cs * BLCKSZ)" by linarith
    ultimately show ?thesis using v(1) sint32_bytes [OF assms(5)] False round_up [of "length cs"] by (simp add: mdnblocks_file_def)
  qed
  then show ?thesis using v by simp
qed

subsection \<open>Counting the blocks of a relation\<close>

lemma put_chain_same: "chain_at s f = Some c \<Longrightarrow> put_chain s f c = s"
  by (auto simp: chain_at_def put_chain_def split: if_splits)

lemma skip_full:
  assumes "chain_at s f = Some c" and "i + n < length c" and "\<And>j. j < i + n \<Longrightarrow> mdfd_lstbcnt (c ! j) = int RELSEG_SIZE"
  shows "nblocks_loop s reln f i = nblocks_loop s reln f (i + n)"
  using assms(2,3)
proof (induction n arbitrary: i)
  case (Suc n)
  have v: "(c ! i)\<lparr>mdfd_lstbcnt := int RELSEG_SIZE\<rparr> = c ! i" using Suc.prems(2) [of i] by simp
  have "nblocks_loop s reln f i = nblocks_loop s reln f (i + 1)"
    using Suc.prems assms(1) by (subst nblocks_loop.simps) (simp add: vec_at_def vec_upd_def next_seg_def v put_chain_same)
  also have "\<dots> = nblocks_loop s reln f (i + 1 + n)" by (rule Suc.IH) (use Suc.prems in auto)
  finally show ?case by simp
qed simp

lemma mdnblocks_blocks:
  assumes ro: "rel_open s I (rd_fd reln) is" and od: "on_disk (vfs s) is bs" and hi: "hints s (rd_fd reln) bs" and lt: "length bs < length is * RELSEG_SIZE" and small: "length bs < 2 ^ 31"
  shows "rets (mdnblocks s reln) (\<lambda>(t, n). n = int (length bs) \<and> t = s\<lparr>vfs := vfs t\<rparr> \<and> fdl.handles (vfs t) I \<and> fdl.same (vfs s) (vfs t))"
proof -
  obtain c where c: "chain_at s (rd_fd reln) = Some c" "length c = length is" "\<And>j. j < length is \<Longrightarrow> I (mdfd_vfd (c ! j)) = Some (is ! j)" "fdl.handles (vfs s) I" "0 < length is"
    using ro by (elim rel_openE) blast
  define m where "m = length is - 1"
  have m: "m < length c" "length is = Suc m" using c(2,5) by (simp_all add: m_def)
  have le: "m * RELSEG_SIZE \<le> length bs" using od by (simp add: on_disk_def m_def)
  have full: "mdfd_lstbcnt (c ! j) = int RELSEG_SIZE \<longleftrightarrow> (j + 1) * RELSEG_SIZE \<le> length bs" if "j < length c" for j using hi c(1) that by (auto simp: hints_def)
  have "mdfd_lstbcnt (c ! j) = int RELSEG_SIZE" if "j < m" for j using full [of j] that m mult_le_mono1 [of "j + 1" m RELSEG_SIZE] le by auto
  then have loop: "mdnblocks s reln = nblocks_loop s reln (rd_fd reln) m" using skip_full [OF c(1), of 0 m reln] m(1) by (simp add: mdnblocks_def)
  have last: "mdfd_lstbcnt (c ! m) \<noteq> int RELSEG_SIZE" using full [OF m(1)] lt m(2) by simp
  have len: "length (seg_blocks bs m) = length bs - m * RELSEG_SIZE" "length (seg_blocks bs m) < RELSEG_SIZE" using lt le m(2) by (simp_all add: length_seg less_diff_conv2)
  have "rets (mdnblocks_file s (mdfd_vfd (c ! m))) (\<lambda>(t, n). n = (if length (seg_blocks bs m) = RELSEG_SIZE then 0 else int (length (seg_blocks bs m))) \<and> t = s\<lparr>vfs := vfs t\<rparr> \<and> fdl.handles (vfs t) I \<and> fdl.same (vfs s) (vfs t))"
    by (rule count_file [OF c(4) c(3)]) (use od m len in \<open>auto simp: on_disk_def seg_blocks_ok\<close>)
  then obtain t where t: "mdnblocks_file s (mdfd_vfd (c ! m)) = Some (t, int (length bs) - int m * int RELSEG_SIZE)" "t = s\<lparr>vfs := vfs t\<rparr>" "fdl.handles (vfs t) I" "fdl.same (vfs s) (vfs t)"
    using len le by (elim retsE) (auto simp: of_nat_diff)
  have ne: "int (length bs) - int m * int RELSEG_SIZE \<noteq> int RELSEG_SIZE"
  proof -
    have "int (length bs) < int (Suc m * RELSEG_SIZE)" using lt m(2) by (simp only: of_nat_less_iff)
    then show ?thesis by (simp add: algebra_simps)
  qed
  have "int (length bs) < int (2 ^ 31)" using small by (simp only: of_nat_less_iff)
  then have "sint32 (int (length bs)) = int (length bs)" using sint32_id [of "int (length bs)"] by simp
  then have "mdnblocks s reln = Some (t, int (length bs))"
    unfolding loop by (subst nblocks_loop.simps) (use c(1) m(1) last t(1) ne in \<open>simp add: vec_at_def\<close>)
  then show ?thesis using t by simp
qed

subsection \<open>The next segment\<close>

definition relation :: "md \<Rightarrow> (int \<rightharpoonup> nat) \<Rightarrow> int \<Rightarrow> nat list \<Rightarrow> byte list list \<Rightarrow> bool" where
  "relation s I f is bs \<longleftrightarrow> rel_open s I f is \<and> on_disk (vfs s) is bs \<and> hints s f bs"

text \<open>A relation can grow when its last segment has room or the file of the next segment does not exist yet.\<close>

definition may_extend :: "md \<Rightarrow> RelationData \<Rightarrow> nat list \<Rightarrow> byte list list \<Rightarrow> bool" where
  "may_extend s reln is bs \<longleftrightarrow> length bs < length is * RELSEG_SIZE \<or>
     (\<exists>p. relpath (DataDir (vfs s)) (relname reln) = Some p \<and> names (sys (vfs s)) (seg_path p (length is)) = None)"

lemma create_flags: "(O_RDWR OR O_CREAT) AND O_CREAT \<noteq> 0"
  by (simp add: O_RDWR_def O_CREAT_def)

lemma handles_vfd_inode: "rel_open s I f is \<Longrightarrow> j < length is \<Longrightarrow> is ! j < length (inodes (sys (vfs s)))"
proof -
  assume "rel_open s I f is" "j < length is"
  then obtain v where "I v = Some (is ! j)" "fdl.handles (vfs s) I" by (elim rel_openE) blast
  then show ?thesis using fdl.handles_inode by blast
qed

lemma openseg_new:
  assumes h: "fdl.handles (vfs s) I" and p: "relpath (DataDir (vfs s)) (relname reln) = Some p" and n: "names (sys (vfs s)) (seg_path p k) = None"
  shows "rets (mdfd_openseg s reln k O_CREAT) (\<lambda>(t, v). \<exists>x. v = Some \<lparr>mdfd_vfd = x, mdfd_flags = 0, mdfd_lstbcnt = 0\<rparr> \<and> I x = None \<and> t = s\<lparr>vfs := vfs t\<rparr> \<and>
    fdl.handles (vfs t) (I(x \<mapsto> length (inodes (sys (vfs s))))) \<and> inodes (sys (vfs t)) = inodes (sys (vfs s)) @ [[]] \<and> disk_room (sys (vfs t)) = disk_room (sys (vfs s)))"
proof -
  let ?i = "length (inodes (sys (vfs s)))"
  obtain u where op: "open_path (sys (vfs s)) (seg_path p k) (O_RDWR OR O_CREAT) = Some (u, ?i)" "inodes u = inodes (sys (vfs s)) @ [[]]"
    using n create_flags by (simp add: open_path_def)
  from open_handles [OF h, of "seg_path p k" "O_RDWR OR O_CREAT" 384] op obtain v x where v: "fileNameOpenFile (vfs s) (seg_path p k) (O_RDWR OR O_CREAT) 384 = Some (v, x)"
    "0 < x" "I x = None" "fdl.handles v (I(x \<mapsto> ?i))" "inodes (sys v) = inodes (sys (vfs s)) @ [[]]" "disk_room (sys v) = disk_room (sys (vfs s))" by (elim retsE) auto
  have "rets (mdnblocks_file (s\<lparr>vfs := v\<rparr>) x) (\<lambda>(t, n). n = (if length ([] :: byte list list) = RELSEG_SIZE then 0 else int (length ([] :: byte list list))) \<and>
      t = s\<lparr>vfs := v\<rparr>\<lparr>vfs := vfs t\<rparr> \<and> fdl.handles (vfs t) (I(x \<mapsto> ?i)) \<and> fdl.same (vfs (s\<lparr>vfs := v\<rparr>)) (vfs t))"
  proof (rule count_file)
    show "inodes (sys (vfs (s\<lparr>vfs := v\<rparr>))) ! ?i = concat []" using v(5) by simp
  qed (use v in simp_all)
  then obtain t where t: "mdnblocks_file (s\<lparr>vfs := v\<rparr>) x = Some (t, 0)" "t = s\<lparr>vfs := vfs t\<rparr>" "fdl.handles (vfs t) (I(x \<mapsto> ?i))" "fdl.same v (vfs t)" by (elim retsE) auto
  have "mdfd_openseg s reln k O_CREAT = Some (t, Some \<lparr>mdfd_vfd = x, mdfd_flags = 0, mdfd_lstbcnt = 0\<rparr>)"
    using p v(1,2) t(1) by (simp add: mdfd_openseg_def PathNameOpenFile_def)
  then show ?thesis using t v by (auto simp: fdl.same_def)
qed

lemma next_segment:
  assumes R: "relation s I f is bs" and full: "length bs = length is * RELSEG_SIZE" and p: "relpath (DataDir (vfs s)) (relname reln) = Some p"
    and n: "names (sys (vfs s)) (seg_path p (length is)) = None"
  shows "rets (next_seg s reln f (length is - 1) O_CREAT) (\<lambda>t. \<exists>J i. relation t J f (is @ [i]) bs \<and> disk_room (sys (vfs t)) = disk_room (sys (vfs s)))"
proof -
  have ro: "rel_open s I f is" and od: "on_disk (vfs s) is bs" and hi: "hints s f bs" using R by (simp_all add: relation_def)
  obtain c where c: "chain_at s f = Some c" "length c = length is" "\<And>j. j < length is \<Longrightarrow> I (mdfd_vfd (c ! j)) = Some (is ! j)" "fdl.handles (vfs s) I" "0 < length is"
    using ro by (elim rel_openE) blast
  define i where "i = length (inodes (sys (vfs s)))"
  from openseg_new [OF c(4) p n] obtain t x where t: "mdfd_openseg s reln (length is) O_CREAT = Some (t, Some \<lparr>mdfd_vfd = x, mdfd_flags = 0, mdfd_lstbcnt = 0\<rparr>)" "I x = None" "t = s\<lparr>vfs := vfs t\<rparr>"
    "fdl.handles (vfs t) (I(x \<mapsto> i))" "inodes (sys (vfs t)) = inodes (sys (vfs s)) @ [[]]" "disk_room (sys (vfs t)) = disk_room (sys (vfs s))" by (elim retsE) (auto simp: i_def)
  let ?v = "\<lparr>mdfd_vfd = x, mdfd_flags = 0, mdfd_lstbcnt = 0\<rparr>"
  let ?t = "put_chain t f (c @ [?v])"
  have ch: "chain_at t f = Some c" using c(1) t(3) by (metis chain_vfs(1))
  have cht: "chain_at ?t f = Some (c @ [?v])" using chain_put [of t f] ch by simp
  have lt: "is ! j < i" if "j < length is" for j using handles_vfd_inode [OF ro that] by (simp add: i_def)
  have mp: "map (\<lambda>v. (I(x \<mapsto> i)) (mdfd_vfd v)) c = map Some is" using c(2,3) t(2) by (intro nth_equalityI) auto
  have "rel_open ?t (I(x \<mapsto> i)) f (is @ [i])" using t(4) cht mp by (simp add: rel_open_def)
  moreover have "on_disk (vfs ?t) (is @ [i]) bs"
  proof -
    have "i \<notin> set is" using lt by (auto simp: in_set_conv_nth)
    moreover have "inodes (sys (vfs t)) ! ((is @ [i]) ! j) = concat (seg_blocks bs j)" if "j < Suc (length is)" for j
    proof (cases "j = length is")
      case True
      then have "seg_blocks bs j = []" using full by (simp add: seg_blocks_def)
      then show ?thesis using True t(5) by (simp add: i_def)
    next
      case False
      then show ?thesis using that od t(5) lt [of j] by (simp add: on_disk_def nth_append i_def)
    qed
    ultimately show ?thesis using od full by (simp add: on_disk_def)
  qed
  moreover have "hints ?t f bs" unfolding hints_def cht using hi c(1,2) full by (auto simp: hints_def nth_append less_Suc_eq RELSEG_SIZE_def)
  moreover have "next_seg s reln f (length is - 1) O_CREAT = Some ?t" using c(1,2,5) t(1) by (simp add: next_seg_def)
  ultimately show ?thesis using t(6) by (auto simp: relation_def)
qed

text \<open>Counting opens the next segment of a relation that is full.\<close>

definition counted :: "md \<Rightarrow> int \<Rightarrow> byte list list \<Rightarrow> md \<Rightarrow> int \<Rightarrow> bool" where
  "counted s f bs t n \<longleftrightarrow> n = int (length bs) \<and> (\<exists>J js. relation t J f js bs \<and> length bs < length js * RELSEG_SIZE) \<and> disk_room (sys (vfs t)) = disk_room (sys (vfs s))"

lemma mdnblocks_counted:
  assumes R: "relation s I (rd_fd reln) is bs" and lt: "length bs < length is * RELSEG_SIZE" and small: "length bs < 2 ^ 31"
  shows "rets (mdnblocks s reln) (\<lambda>(t, n). counted s (rd_fd reln) bs t n)"
proof -
  have ro: "rel_open s I (rd_fd reln) is" and od: "on_disk (vfs s) is bs" and hi: "hints s (rd_fd reln) bs" using R by (simp_all add: relation_def)
  show ?thesis
  proof (rule rets_mono [OF mdnblocks_blocks [OF ro od hi lt small]], clarify)
    fix t assume t: "t = s\<lparr>vfs := vfs t\<rparr>" "fdl.handles (vfs t) I" "fdl.same (vfs s) (vfs t)"
    have ch: "chain_at t (rd_fd reln) = chain_at s (rd_fd reln)" using t(1) by (metis chain_vfs(1))
    have "relation t I (rd_fd reln) is bs" using ro od hi t(2,3) ch by (simp add: relation_def rel_open_def on_disk_def hints_def fdl.same_def)
    then show "counted s (rd_fd reln) bs t (int (length bs))" unfolding counted_def using lt t(3) by (intro conjI exI [of _ I] exI [of _ "is"]) (auto simp: fdl.same_def)
  qed
qed

lemma full_hints:
  assumes "hints s f bs" and "chain_at s f = Some c" and "j < k" and "k \<le> length c" and "k * RELSEG_SIZE \<le> length bs"
  shows "mdfd_lstbcnt (c ! j) = int RELSEG_SIZE"
  using assms mult_le_mono1 [of "j + 1" k RELSEG_SIZE] by (auto simp: hints_def)

lemma mdnblocks_relation:
  assumes R: "relation s I (rd_fd reln) is bs" and g: "may_extend s reln is bs" and small: "length bs < 2 ^ 31"
  shows "rets (mdnblocks s reln) (\<lambda>(t, n). counted s (rd_fd reln) bs t n)"
proof (cases "length bs < length is * RELSEG_SIZE")
  case True
  then show ?thesis by (rule mdnblocks_counted [OF R _ small])
next
  case False
  have ro: "rel_open s I (rd_fd reln) is" and hi: "hints s (rd_fd reln) bs" using R by (simp_all add: relation_def)
  have full: "length bs = length is * RELSEG_SIZE" using False R by (simp add: relation_def on_disk_def)
  obtain p where p: "relpath (DataDir (vfs s)) (relname reln) = Some p" "names (sys (vfs s)) (seg_path p (length is)) = None" using g False by (auto simp: may_extend_def)
  obtain c where c: "chain_at s (rd_fd reln) = Some c" "length c = length is" "0 < length is" using ro by (elim rel_openE) blast
  define m where "m = length is - 1"
  have m: "m < length c" "length is = Suc m" using c by (simp_all add: m_def)
  have cnt: "mdfd_lstbcnt (c ! j) = int RELSEG_SIZE" if "j < length c" for j using full_hints [OF hi c(1) that] c(2) full by simp
  have loop: "mdnblocks s reln = nblocks_loop s reln (rd_fd reln) m" using skip_full [OF c(1), of 0 m reln] m(1) cnt by (simp add: mdnblocks_def)
  from next_segment [OF R full p] obtain t J i where t: "next_seg s reln (rd_fd reln) m O_CREAT = Some t" "relation t J (rd_fd reln) (is @ [i]) bs" "disk_room (sys (vfs t)) = disk_room (sys (vfs s))"
    by (elim retsE) (auto simp: m_def)
  have v: "(c ! m)\<lparr>mdfd_lstbcnt := int RELSEG_SIZE\<rparr> = c ! m" using cnt [OF m(1)] by simp
  have "nblocks_loop s reln (rd_fd reln) m = nblocks_loop t reln (rd_fd reln) (Suc m)"
    using c(1) m(1) cnt [OF m(1)] t(1) by (subst nblocks_loop.simps) (simp add: vec_at_def vec_upd_def v put_chain_same)
  also have "\<dots> = mdnblocks t reln"
  proof -
    have tR: "rel_open t J (rd_fd reln) (is @ [i])" "hints t (rd_fd reln) bs" using t(2) by (simp_all add: relation_def)
    obtain d where d: "chain_at t (rd_fd reln) = Some d" "length d = length (is @ [i])" using tR(1) by (elim rel_openE) blast
    then have "mdfd_lstbcnt (d ! j) = int RELSEG_SIZE" if "j < length is" for j using full_hints [OF tR(2) d(1) that] full by simp
    then show ?thesis using skip_full [OF d(1), of 0 "Suc m" reln] d(2) m(2) by (simp add: mdnblocks_def)
  qed
  finally have eq: "mdnblocks s reln = mdnblocks t reln" using loop by simp
  have lt: "length bs < length (is @ [i]) * RELSEG_SIZE" using full by simp
  show ?thesis unfolding eq by (rule rets_mono [OF mdnblocks_counted [OF t(2) lt small]]) (use t(3) in \<open>auto simp: counted_def\<close>)
qed

subsection \<open>Adding a block\<close>

lemma append_on_disk:
  assumes od: "on_disk v is bs" and lt: "length bs < length is * RELSEG_SIZE" and j: "length is = Suc j"
    and w: "inodes (sys w) = (inodes (sys v))[is ! j := inodes (sys v) ! (is ! j) @ buffer]" and b: "length buffer = BLCKSZ" and ok: "\<And>i. i < length is \<Longrightarrow> is ! i < length (inodes (sys v))"
  shows "on_disk w is (bs @ [buffer])"
proof -
  have le: "j * RELSEG_SIZE \<le> length bs" using od j by (simp add: on_disk_def)
  have div: "length bs div RELSEG_SIZE = j" using le lt j by (intro div_nat_eqI) (simp_all add: mult.commute)
  have "inodes (sys w) ! (is ! i) = concat (seg_blocks (bs @ [buffer]) i)" if i: "i < length is" for i
  proof (cases "i = j")
    case True
    then show ?thesis using od j w ok [OF i] seg_append [of bs buffer j] div by (simp add: on_disk_def)
  next
    case False
    then have "is ! i \<noteq> is ! j" using od i j by (simp add: on_disk_def nth_eq_iff_index_eq)
    then show ?thesis using od w i False div seg_append [of bs buffer i] by (simp add: on_disk_def)
  qed
  then show ?thesis using od b lt by (simp add: on_disk_def)
qed

lemma new_hint:
  assumes "n = j * RELSEG_SIZE + k" and "k < RELSEG_SIZE" and "n < 2 ^ 31 - 1"
  shows "(if sint32 (int n + 1) smod int RELSEG_SIZE = 0 then int RELSEG_SIZE else sint32 (int n + 1) smod int RELSEG_SIZE) = int (k + 1)"
proof -
  have "int (n + 1) < int (2 ^ 31)" using assms(3) by (simp only: of_nat_less_iff)
  then have "sint32 (int n + 1) = int (n + 1)" using sint32_id [of "int n + 1"] by simp
  moreover have "int (n + 1) smod int RELSEG_SIZE = int ((n + 1) mod RELSEG_SIZE)" by (simp add: signed_modulo_int_def sgn_if zmod_int)
  moreover have "(n + 1) mod RELSEG_SIZE = (if k + 1 = RELSEG_SIZE then 0 else k + 1)" using assms(1,2) by (simp add: mod_Suc)
  ultimately show ?thesis by simp
qed

lemma extend_at_blocks:
  assumes ro: "rel_open s I (rd_fd reln) is" and od: "on_disk (vfs s) is bs" and lt: "length bs < length is * RELSEG_SIZE" and small: "length bs < 2 ^ 31 - 1"
    and b: "length buffer = BLCKSZ" and c: "chain_at s (rd_fd reln) = Some c" and j: "j = length is - 1"
  shows "rets (extend_at s reln (int (length bs)) buffer) (\<lambda>(t, reln', st). reln' = reln \<and> same_config (vfs s) (vfs t) \<and> fdl.handles (vfs t) I \<and>
    (if BLCKSZ \<le> disk_room (sys (vfs s))
     then st = SM_SUCCESS \<and> on_disk (vfs t) is (bs @ [buffer]) \<and> disk_room (sys (vfs t)) = disk_room (sys (vfs s)) - BLCKSZ \<and>
       inodes (sys (vfs t)) = (inodes (sys (vfs s)))[is ! j := inodes (sys (vfs s)) ! (is ! j) @ buffer] \<and>
       t = put_chain (s\<lparr>vfs := vfs t\<rparr>) (rd_fd reln) (c[j := (dirty_vec (c ! j))\<lparr>mdfd_lstbcnt := int (length (seg_blocks bs j) + 1)\<rparr>])
     else st = SM_FAIL \<and> t = s\<lparr>vfs := vfs t\<rparr> \<and> disk_room (sys (vfs t)) = 0 \<and>
       inodes (sys (vfs t)) = (inodes (sys (vfs s)))[is ! j := inodes (sys (vfs s)) ! (is ! j) @ take (disk_room (sys (vfs s))) buffer]))"
proof -
  obtain d where "chain_at s (rd_fd reln) = Some d" "length d = length is" "\<And>j. j < length is \<Longrightarrow> I (mdfd_vfd (d ! j)) = Some (is ! j)" "fdl.handles (vfs s) I" "0 < length is"
    using ro by (elim rel_openE) blast
  then have cc: "length c = length is" "I (mdfd_vfd (c ! j)) = Some (is ! j)" "fdl.handles (vfs s) I" and jl: "length is = Suc j" using c j by auto
  have le: "j * RELSEG_SIZE \<le> length bs" using od jl by (simp add: on_disk_def)
  have div: "length bs div RELSEG_SIZE = j" using le lt jl by (intro div_nat_eqI) (simp_all add: mult.commute)
  define k where "k = length (seg_blocks bs j)"
  have k: "k < RELSEG_SIZE" "length bs = j * RELSEG_SIZE + k" using lt le jl by (simp_all add: k_def length_seg less_diff_conv2)
  have gs: "mdfd_getseg s reln (int (length bs)) O_CREAT = Some (s, reln, j)" using getseg_eq [OF ro, of "int (length bs)" O_CREAT] div jl by (simp add: nat_div_distrib flip: of_nat_div)
  have disk: "inodes (sys (vfs s)) ! (is ! j) = concat (seg_blocks bs j)" "blocks_ok (seg_blocks bs j)" using od jl by (auto simp: on_disk_def seg_blocks_ok)
  have len: "k * BLCKSZ = length (inodes (sys (vfs s)) ! (is ! j))" "k * BLCKSZ \<le> 2 ^ 31" "k * BLCKSZ + BLCKSZ \<le> 2 ^ 31" using disk k(1) by (simp_all add: length_blocks k_def sizes)
  from fdl.seek_end [OF cc(3,2) len(1,2)] obtain v where v: "FileSeek (vfs s) (mdfd_vfd (c ! j)) 0 SEEK_END = Some (v, sint32 (int (k * BLCKSZ)))"
    "fdl.positioned v I (mdfd_vfd (c ! j)) (k * BLCKSZ)" "fdl.same (vfs s) v" by (elim retsE) auto
  have pos: "sint32 (int (k * BLCKSZ)) = int (k * BLCKSZ)" using sint32_bytes [of k] k(1) by simp
  have io: "inodes (sys v) = inodes (sys (vfs s))" "disk_room (sys v) = disk_room (sys (vfs s))" "same_config (vfs s) v" using v(3) by (simp_all add: fdl.same_def)
  have ne: "buffer \<noteq> []" "k * BLCKSZ + length buffer \<le> 2 ^ 31" using b len(3) by (auto simp: BLCKSZ_def)
  define m where "m = min BLCKSZ (disk_room (sys (vfs s)))"
  have m: "m = writable (disk_room (sys v)) (length (inodes (sys v) ! (is ! j))) (k * BLCKSZ) (length buffer)" "k * BLCKSZ + m - length (inodes (sys v) ! (is ! j)) = m"
    using len(1) b io by (simp_all add: writable_end m_def)
  from fdl.put_here [OF v(2) cc(2) ne refl m(1), unfolded m(2)] obtain w r where w: "FileWrite v (mdfd_vfd (c ! j)) buffer = Some (w, r)" "same_config v w" "fdl.handles w I"
    "if m = 0 then r = -1 \<and> inodes (sys w) = inodes (sys v) \<and> disk_room (sys w) = disk_room (sys v)
     else r = int m \<and> inodes (sys w) = (inodes (sys v))[is ! j := file_put (inodes (sys v) ! (is ! j)) (k * BLCKSZ) (take m buffer)] \<and> disk_room (sys w) = disk_room (sys v) - m" by (elim retsE) auto
  have w4: "inodes (sys w) = (inodes (sys (vfs s)))[is ! j := inodes (sys (vfs s)) ! (is ! j) @ take m buffer]" "disk_room (sys w) = disk_room (sys (vfs s)) - m"
    using w(4) io len(1) by (auto simp: file_put_end split: if_splits)
  have cfg: "same_config (vfs s) w" using io(3) w(2) by (auto simp: same_config_def)
  have vj: "vec_at s (rd_fd reln) j = Some (c ! j)" "j < length c" using vec_at_eq [OF c, of j] cc(1) jl by simp_all
  show ?thesis
  proof (cases "BLCKSZ \<le> disk_room (sys (vfs s))")
    case True
    then have "m = BLCKSZ" "m \<noteq> 0" by (simp_all add: m_def BLCKSZ_def)
    then have w': "r = int BLCKSZ" "inodes (sys w) = (inodes (sys (vfs s)))[is ! j := inodes (sys (vfs s)) ! (is ! j) @ buffer]" "disk_room (sys w) = disk_room (sys (vfs s)) - BLCKSZ"
      using w(4) w4 b by auto
    have od': "on_disk w is (bs @ [buffer])" by (rule append_on_disk [OF od lt jl w'(2) b]) (use handles_vfd_inode [OF ro] in blast)
    have c': "chain_at (s\<lparr>vfs := w\<rparr>) (rd_fd reln) = Some c" using c by simp
    have nonneg: "\<not> int k * int BLCKSZ < 0" by (simp add: not_less)
    have "chain_at (put_chain (s\<lparr>vfs := w\<rparr>) (rd_fd reln) (c[j := dirty_vec (c ! j)])) (rd_fd reln) = Some (c[j := dirty_vec (c ! j)])" using chain_put [of "s\<lparr>vfs := w\<rparr>" "rd_fd reln"] c' by simp
    then have "extend_at s reln (int (length bs)) buffer =
        Some (put_chain (s\<lparr>vfs := w\<rparr>) (rd_fd reln) (c[j := (dirty_vec (c ! j))\<lparr>mdfd_lstbcnt := int (k + 1)\<rparr>]), reln, SM_SUCCESS)"
      using gs vj v(1) pos w(1) w'(1) new_hint [OF k(2,1) small] vec_upd_eq [OF c' vj(2), of dirty_vec] vec_upd_eq [of "put_chain (s\<lparr>vfs := w\<rparr>) (rd_fd reln) (c[j := dirty_vec (c ! j)])" "rd_fd reln" "c[j := dirty_vec (c ! j)]" j]
      by (simp add: extend_at_def nonneg)
    then show ?thesis using True w'(2,3) od' w(3) cfg by (simp add: k_def)
  next
    case False
    then have m': "m = disk_room (sys (vfs s))" "m < BLCKSZ" by (simp_all add: m_def)
    then have "r \<noteq> int BLCKSZ" using w(4) by (auto split: if_splits)
    then have "extend_at s reln (int (length bs)) buffer = Some (s\<lparr>vfs := w\<rparr>, reln, SM_FAIL)" using gs vj v(1) pos w(1) by (simp add: extend_at_def BLCKSZ_def)
    then show ?thesis using False w(3) w4 m' cfg by simp
  qed
qed

subsection \<open>A torn block\<close>

text \<open>
  When the disk fills up in the middle of a block, the bytes that went in stay at the end of the last segment. Such a relation has its blocks and a rest shorter than a block.
\<close>

definition torn_disk :: "vfds \<Rightarrow> nat list \<Rightarrow> byte list list \<Rightarrow> byte list \<Rightarrow> bool" where
  "torn_disk v is bs rest \<longleftrightarrow> distinct is \<and> blocks_ok bs \<and> length rest < BLCKSZ \<and>
     (\<forall>j<length is. inodes (sys v) ! (is ! j) = concat (seg_blocks bs j) @ (if Suc j = length is then rest else [])) \<and>
     (length is - 1) * RELSEG_SIZE \<le> length bs \<and> length bs < length is * RELSEG_SIZE"

definition torn :: "md \<Rightarrow> (int \<rightharpoonup> nat) \<Rightarrow> int \<Rightarrow> nat list \<Rightarrow> byte list list \<Rightarrow> byte list \<Rightarrow> bool" where
  "torn s I f is bs rest \<longleftrightarrow> rel_open s I f is \<and> torn_disk (vfs s) is bs rest \<and> hints s f bs"

lemma torn_Nil: "torn s I f is bs [] \<longleftrightarrow> relation s I f is bs \<and> length bs < length is * RELSEG_SIZE"
  by (auto simp: torn_def torn_disk_def relation_def on_disk_def BLCKSZ_def)

lemma count_torn:
  assumes "fdl.handles (vfs s) I" and "I f = Some i" and "inodes (sys (vfs s)) ! i = concat cs @ rest" and "blocks_ok cs" and "length cs < RELSEG_SIZE"
    and "rest \<noteq> []" and "length rest < BLCKSZ"
  shows "rets (mdnblocks_file s f) (\<lambda>(t, n). n = int (length cs) + 1)"
proof -
  define n where "n = length cs * BLCKSZ + length rest"
  have n: "n = length (inodes (sys (vfs s)) ! i)" using assms(3,4) by (simp add: length_blocks n_def)
  have "Suc (length cs) * BLCKSZ \<le> RELSEG_SIZE * BLCKSZ" using assms(5) by (intro mult_le_mono1) simp
  then have lt: "n < 2 ^ 31" using assms(7) by (simp add: n_def sizes)
  then have "int n < int (2 ^ 31)" by (simp only: of_nat_less_iff)
  then have s32: "sint32 (int n) = int n" using sint32_id [of "int n"] by simp
  have "1 \<le> length rest" using assms(6) by (simp add: Suc_le_eq)
  then have e: "int n - 1 = int (length cs) * int BLCKSZ + int (length rest - 1)" by (simp add: n_def of_nat_diff)
  have "int (length rest - 1) < int BLCKSZ" using assms(7) by (simp only: of_nat_less_iff)
  then have q: "(int n - 1) div int BLCKSZ = int (length cs)" unfolding e by (simp add: BLCKSZ_def)
  have "\<not> int n - 1 < 0" unfolding e by (simp add: not_less)
  moreover from fdl.seek_end [OF assms(1,2) n less_imp_le [OF lt]] obtain v where "FileSeek (vfs s) f 0 SEEK_END = Some (v, int n)" using s32 by (elim retsE) auto
  ultimately show ?thesis using q by (simp add: mdnblocks_file_def)
qed

lemma mdnblocks_torn:
  assumes T: "torn s I (rd_fd reln) is bs rest" and rest: "rest \<noteq> []" and lt: "Suc (length bs) < length is * RELSEG_SIZE" and small: "length bs < 2 ^ 31 - 1"
  shows "rets (mdnblocks s reln) (\<lambda>(_, n). n = int (length bs) + 1)"
proof -
  have ro: "rel_open s I (rd_fd reln) is" and td: "torn_disk (vfs s) is bs rest" and hi: "hints s (rd_fd reln) bs" using T by (simp_all add: torn_def)
  obtain c where c: "chain_at s (rd_fd reln) = Some c" "length c = length is" "\<And>j. j < length is \<Longrightarrow> I (mdfd_vfd (c ! j)) = Some (is ! j)" "fdl.handles (vfs s) I" "0 < length is"
    using ro by (elim rel_openE) blast
  define m where "m = length is - 1"
  have m: "m < length c" "length is = Suc m" using c(2,5) by (simp_all add: m_def)
  have le: "m * RELSEG_SIZE \<le> length bs" using td by (simp add: torn_disk_def m_def)
  have "mdfd_lstbcnt (c ! j) = int RELSEG_SIZE" if "j < m" for j by (rule full_hints [OF hi c(1) that]) (use m le in auto)
  then have loop: "mdnblocks s reln = nblocks_loop s reln (rd_fd reln) m" using skip_full [OF c(1), of 0 m reln] m(1) by (simp add: mdnblocks_def)
  have last: "mdfd_lstbcnt (c ! m) \<noteq> int RELSEG_SIZE" using hi c(1) m lt by (auto simp: hints_def)
  have len: "length (seg_blocks bs m) = length bs - m * RELSEG_SIZE" "Suc (length (seg_blocks bs m)) < RELSEG_SIZE" using lt le m(2) by (simp_all add: length_seg less_diff_conv2)
  have "rets (mdnblocks_file s (mdfd_vfd (c ! m))) (\<lambda>(t, n). n = int (length (seg_blocks bs m)) + 1)"
    by (rule count_torn [OF c(4) c(3)]) (use td m len rest in \<open>auto simp: torn_disk_def seg_blocks_ok\<close>)
  then obtain t where t: "mdnblocks_file s (mdfd_vfd (c ! m)) = Some (t, int (length (seg_blocks bs m)) + 1)" by (elim retsE) auto
  have "int (length bs + 1) < int (2 ^ 31)" using small by (simp only: of_nat_less_iff)
  then have "sint32 (int (length bs) + 1) = int (length bs) + 1" using sint32_id [of "int (length bs) + 1"] by simp
  moreover have "int m * int RELSEG_SIZE + int (length (seg_blocks bs m)) = int (length bs)" using len(1) le by (simp add: of_nat_diff)
  moreover have "int (length (seg_blocks bs m)) + 1 \<noteq> int RELSEG_SIZE" using len(2) by linarith
  ultimately have "mdnblocks s reln = Some (t, int (length bs) + 1)"
    unfolding loop by (subst nblocks_loop.simps) (use c(1) m(1) last t in \<open>simp add: vec_at_def flip: add.assoc\<close>)
  then show ?thesis by simp
qed

lemma mdread_torn:
  assumes T: "torn s I (rd_fd reln) is bs rest" and rest: "rest \<noteq> []" and small: "length bs < 2 ^ 31" and b: "unat b = length bs"
  shows "rets (mdread s reln b old) (\<lambda>(_, _, st, _). st = SM_FAIL)"
proof -
  have ro: "rel_open s I (rd_fd reln) is" and td: "torn_disk (vfs s) is bs rest" using T by (simp_all add: torn_def)
  define j k where "j = unat b div RELSEG_SIZE" and "k = unat b mod RELSEG_SIZE"
  have lt: "length bs < length is * RELSEG_SIZE" "(length is - 1) * RELSEG_SIZE \<le> length bs" using td by (simp_all add: torn_disk_def)
  have ne: "length is \<noteq> 0" using lt(1) by (cases "length is") auto
  then have "j = length is - 1" unfolding j_def b using lt by (intro div_nat_eqI) (auto simp: mult.commute)
  then have ji: "j = length is - 1" "j < length is" using ne by simp_all
  have jl: "unat b div RELSEG_SIZE < length is" using ji(2) by (simp add: j_def)
  have bl: "unat b < 2 ^ 31" using small b by simp
  obtain c where c: "mdfd_getseg s reln (sint b) 0 = Some (s, reln, j)" "chain_at s (rd_fd reln) = Some c" "j < length c" "vec_at s (rd_fd reln) j = Some (c ! j)"
    "I (mdfd_vfd (c ! j)) = Some (is ! j)" "fdl.handles (vfs s) I" "block_pos b = int (k * BLCKSZ)" "k * BLCKSZ + BLCKSZ \<le> 2 ^ 31" "k * BLCKSZ < 2 ^ 31"
    using block_place [OF ro bl jl j_def] unfolding k_def by blast
  have k: "k = length (seg_blocks bs j)"
  proof -
    have "k = length bs - j * RELSEG_SIZE" by (simp add: k_def j_def b minus_div_mult_eq_mod)
    moreover have "k < RELSEG_SIZE" by (simp add: k_def)
    ultimately show ?thesis by (simp add: length_seg)
  qed
  have disk: "inodes (sys (vfs s)) ! (is ! j) = concat (seg_blocks bs j) @ rest" "blocks_ok (seg_blocks bs j)" "length rest < BLCKSZ"
    using td ji ne by (auto simp: torn_disk_def seg_blocks_ok)
  have rd: "rd (inodes (sys (vfs s)) ! (is ! j)) (k * BLCKSZ) BLCKSZ = rest" using disk by (simp add: rd_def k length_blocks [OF disk(2)])
  have nn: "I (mdfd_vfd (c ! j)) \<noteq> None" using c(5) by simp
  from fdl.seek_set [OF c(6) nn c(9)] obtain v1 where v1: "FileSeek (vfs s) (mdfd_vfd (c ! j)) (int (k * BLCKSZ)) SEEK_SET = Some (v1, int (k * BLCKSZ))"
    "fdl.positioned v1 I (mdfd_vfd (c ! j)) (k * BLCKSZ)" "fdl.same (vfs s) v1" by (elim retsE) auto
  have io: "inodes (sys v1) = inodes (sys (vfs s))" using v1(3) by (simp add: fdl.same_def)
  from fdl.get_here [OF v1(2) c(5,8)] obtain v2 where v2: "FileRead v1 (mdfd_vfd (c ! j)) BLCKSZ = Some (v2, int (length rest), rest)"
    by (elim retsE) (auto simp: io rd)
  show ?thesis using c v1(1) v2 disk(3) rest by (simp add: mdread_def)
qed

end
