(* ===== verification/Md_Props.thy ===== *)
theory Md_Props
  imports Md_Count
begin

text \<open>
  The storage manager as a list of blocks, from opening a relation on.
\<close>

subsection \<open>The operations keep the relation\<close>

lemma relation_vfs:
  assumes "relation s I f is bs" and "t = s\<lparr>vfs := vfs t\<rparr>" and "fdl.handles (vfs t) I" and "fdl.same (vfs s) (vfs t)"
  shows "relation t I f is bs"
proof -
  have "chain_at t f = chain_at s f" using assms(2) by (metis chain_vfs(1))
  then show ?thesis using assms by (simp add: relation_def rel_open_def on_disk_def hints_def fdl.same_def)
qed

lemma rel_open_put:
  assumes ro: "rel_open s I f is" and c: "chain_at s f = Some c" and h: "fdl.handles v I" and d: "map mdfd_vfd d = map mdfd_vfd c"
  shows "rel_open (put_chain (s\<lparr>vfs := v\<rparr>) f d) I f is"
proof -
  have "chain_at (put_chain (s\<lparr>vfs := v\<rparr>) f d) f = Some d" using chain_put [of "s\<lparr>vfs := v\<rparr>" f d f] c by simp
  moreover have "map (\<lambda>v. I (mdfd_vfd v)) d = map (\<lambda>v. I (mdfd_vfd v)) c" using arg_cong [OF d, of "map I"] by (simp add: comp_def)
  ultimately show ?thesis using ro c h by (auto simp: rel_open_def)
qed

lemma write_relation:
  assumes R: "relation s I f is bs" and c: "chain_at s f = Some c" and b: "unat b < length bs" "length buffer = BLCKSZ" and j: "j < length c"
    and w: "wrote (vfs s) is b buffer v" "fdl.handles v I" and g: "\<And>x. mdfd_vfd (g x) = mdfd_vfd x" "\<And>x. mdfd_lstbcnt (g x) = mdfd_lstbcnt x"
  shows "relation (put_chain (s\<lparr>vfs := v\<rparr>) f (c[j := g (c ! j)])) I f is (bs[unat b := buffer])"
proof -
  have ro: "rel_open s I f is" and od: "on_disk (vfs s) is bs" and hi: "hints s f bs" using R by (simp_all add: relation_def)
  let ?d = "c[j := g (c ! j)]"
  have d: "map mdfd_vfd ?d = map mdfd_vfd c" "\<And>i. i < length c \<Longrightarrow> mdfd_lstbcnt (?d ! i) = mdfd_lstbcnt (c ! i)" using g j by (auto simp: map_update list_update_same_conv nth_list_update)
  have "chain_at (put_chain (s\<lparr>vfs := v\<rparr>) f ?d) f = Some ?d" using chain_put [of "s\<lparr>vfs := v\<rparr>" f ?d f] c by simp
  then have "hints (put_chain (s\<lparr>vfs := v\<rparr>) f ?d) f (bs[unat b := buffer])" using hi c d(2) by (simp add: hints_def)
  moreover have "on_disk v is (bs[unat b := buffer])" by (rule wrote_on_disk [OF w(1) od b]) (use handles_vfd_inode [OF ro] in blast)
  ultimately show ?thesis using rel_open_put [OF ro c w(2) d(1)] by (simp add: relation_def)
qed

lemma relation_segments:
  assumes "relation s I f is bs" and "unat b < length bs"
  shows "unat b div RELSEG_SIZE < length is"
  using assms by (simp add: relation_def on_disk_def div_less_iff_less_mult)

lemma mdread_relation:
  assumes R: "relation s I (rd_fd reln) is bs" and b: "unat b < length bs" "unat b < 2 ^ 31"
  shows "rets (mdread s reln b buffer) (\<lambda>(t, reln', st, data). reln' = reln \<and> st = SM_SUCCESS \<and> data = bs ! unat b \<and> relation t I (rd_fd reln) is bs)"
proof -
  have ro: "rel_open s I (rd_fd reln) is" "on_disk (vfs s) is bs" using R by (simp_all add: relation_def)
  show ?thesis by (rule rets_mono [OF mdread_blocks [OF ro b(2) relation_segments [OF R b(1)]]]) (use relation_vfs [OF R] b(1) in \<open>auto simp: block_at_def\<close>)
qed

lemma mdwrite_relation:
  assumes R: "relation s I (rd_fd reln) is bs" and b: "unat b < length bs" "unat b < 2 ^ 31" "length buffer = BLCKSZ"
  shows "rets (mdwrite s reln b buffer) (\<lambda>(t, reln', st). reln' = reln \<and> st = SM_SUCCESS \<and> relation t I (rd_fd reln) is (bs[unat b := buffer]))"
    and "rets (mdflush s reln b buffer) (\<lambda>(t, reln', st). reln' = reln \<and> st = SM_SUCCESS \<and> relation t I (rd_fd reln) is (bs[unat b := buffer]))"
proof -
  have ro: "rel_open s I (rd_fd reln) is" "on_disk (vfs s) is bs" using R by (simp_all add: relation_def)
  obtain c where c: "chain_at s (rd_fd reln) = Some c" "length c = length is" using ro(1) by (elim rel_openE) blast
  define j where "j = unat b div RELSEG_SIZE"
  have j: "j < length c" using relation_segments [OF R b(1)] c(2) by (simp add: j_def)
  note w = write_relation [OF R c(1) b(1,3) j]
  show "rets (mdwrite s reln b buffer) (\<lambda>(t, reln', st). reln' = reln \<and> st = SM_SUCCESS \<and> relation t I (rd_fd reln) is (bs[unat b := buffer]))"
  proof (rule rets_mono [OF mdwrite_blocks [OF ro b(2,1,3) c(1) j_def]], clarify)
    fix t assume t: "wrote (vfs s) is b buffer (vfs t)" "fdl.handles (vfs t) I" "t = put_chain (s\<lparr>vfs := vfs t\<rparr>) (rd_fd reln) (c[j := dirty_vec (c ! j)])"
    show "reln = reln \<and> SM_SUCCESS = SM_SUCCESS \<and> relation t I (rd_fd reln) is (bs[unat b := buffer])"
      using w [OF t(1,2), of dirty_vec] by (subst t(3)) (simp add: dirty_vec_def)
  qed
  show "rets (mdflush s reln b buffer) (\<lambda>(t, reln', st). reln' = reln \<and> st = SM_SUCCESS \<and> relation t I (rd_fd reln) is (bs[unat b := buffer]))"
  proof (rule rets_mono [OF mdflush_blocks [OF ro b(2,1,3) c(1) j_def]], clarify)
    fix t assume t: "wrote (vfs s) is b buffer (vfs t)" "fdl.handles (vfs t) I" "t = put_chain (s\<lparr>vfs := vfs t\<rparr>) (rd_fd reln) (c[j := clean_vec (c ! j)])"
    show "reln = reln \<and> SM_SUCCESS = SM_SUCCESS \<and> relation t I (rd_fd reln) is (bs[unat b := buffer])"
      using w [OF t(1,2), of clean_vec] by (subst t(3)) (simp add: clean_vec_def)
  qed
qed

lemma torn_on_disk:
  assumes od: "on_disk v is bs" and lt: "length bs < length is * RELSEG_SIZE" and j: "length is = Suc j"
    and w: "inodes (sys w) = (inodes (sys v))[is ! j := inodes (sys v) ! (is ! j) @ rest]" and r: "length rest < BLCKSZ" and ok: "\<And>i. i < length is \<Longrightarrow> is ! i < length (inodes (sys v))"
  shows "torn_disk w is bs rest"
proof -
  have "inodes (sys w) ! (is ! i) = concat (seg_blocks bs i) @ (if Suc i = length is then rest else [])" if i: "i < length is" for i
  proof (cases "i = j")
    case True then show ?thesis using od j w ok [OF i] by (simp add: on_disk_def)
  next
    case False
    then have "is ! i \<noteq> is ! j" using od i j by (simp add: on_disk_def nth_eq_iff_index_eq)
    then show ?thesis using od w i False j by (simp add: on_disk_def)
  qed
  then show ?thesis using od r lt by (simp add: on_disk_def torn_disk_def)
qed

lemma extend_relation:
  assumes R: "relation s I (rd_fd reln) is bs" and lt: "length bs < length is * RELSEG_SIZE" and small: "length bs < 2 ^ 31 - 1" and b: "length buffer = BLCKSZ"
  shows "rets (extend_at s reln (int (length bs)) buffer) (\<lambda>(t, reln', st). reln' = reln \<and>
    (if BLCKSZ \<le> disk_room (sys (vfs s)) then st = SM_SUCCESS \<and> relation t I (rd_fd reln) is (bs @ [buffer])
     else st = SM_FAIL \<and> torn t I (rd_fd reln) is bs (take (disk_room (sys (vfs s))) buffer)))"
proof -
  have ro: "rel_open s I (rd_fd reln) is" and od: "on_disk (vfs s) is bs" and hi: "hints s (rd_fd reln) bs" using R by (simp_all add: relation_def)
  obtain c where c: "chain_at s (rd_fd reln) = Some c" "length c = length is" "0 < length is" using ro by (elim rel_openE) blast
  define j where "j = length is - 1"
  have j: "j < length c" "length is = Suc j" using c by (simp_all add: j_def)
  have le: "j * RELSEG_SIZE \<le> length bs" using od j by (simp add: on_disk_def)
  have k: "length (seg_blocks bs j) = length bs - j * RELSEG_SIZE" using lt le j by (simp add: length_seg less_diff_conv2)
  let ?d = "c[j := (dirty_vec (c ! j))\<lparr>mdfd_lstbcnt := int (length (seg_blocks bs j) + 1)\<rparr>]"
  have d: "map mdfd_vfd ?d = map mdfd_vfd c" using j(1) by (simp add: map_update list_update_same_conv dirty_vec_def)
  have hd: "mdfd_lstbcnt (?d ! i) = int RELSEG_SIZE \<longleftrightarrow> (i + 1) * RELSEG_SIZE \<le> length (bs @ [buffer])" if "i < length c" for i
  proof (cases "i = j")
    case True
    have "mdfd_lstbcnt (?d ! j) = int (length bs - j * RELSEG_SIZE + 1)" using j(1) k by simp
    then have "mdfd_lstbcnt (?d ! j) = int RELSEG_SIZE \<longleftrightarrow> length bs - j * RELSEG_SIZE + 1 = RELSEG_SIZE" by (simp only: of_nat_eq_iff)
    then show ?thesis using True le lt j(2) by auto
  next
    case False
    then have "Suc i * RELSEG_SIZE \<le> j * RELSEG_SIZE" using that c(2) j(2) by (intro mult_le_mono1) simp
    then show ?thesis using False hi c(1) that le by (auto simp: hints_def)
  qed
  show ?thesis
  proof (rule rets_mono [OF extend_at_blocks [OF ro od lt small b c(1) j_def]], clarify, intro conjI refl, goal_cases)
    case (1 t r st)
    show ?case
    proof (cases "BLCKSZ \<le> disk_room (sys (vfs s))")
      case True
      then have t: "st = SM_SUCCESS" "on_disk (vfs t) is (bs @ [buffer])" "t = put_chain (s\<lparr>vfs := vfs t\<rparr>) (rd_fd reln) ?d" using 1 by simp_all
      have "chain_at t (rd_fd reln) = Some ?d" by (subst t(3)) (use chain_put [of "s\<lparr>vfs := vfs t\<rparr>" "rd_fd reln" ?d "rd_fd reln"] c(1) in simp)
      then have "hints t (rd_fd reln) (bs @ [buffer])" using hd by (simp add: hints_def)
      moreover have "rel_open t I (rd_fd reln) is" by (subst t(3)) (rule rel_open_put [OF ro c(1) 1(2) d])
      ultimately show ?thesis using True t(1,2) by (simp add: relation_def)
    next
      case False
      then have t: "st = SM_FAIL" "t = s\<lparr>vfs := vfs t\<rparr>" "inodes (sys (vfs t)) = (inodes (sys (vfs s)))[is ! j := inodes (sys (vfs s)) ! (is ! j) @ take (disk_room (sys (vfs s))) buffer]"
        using 1 by simp_all
      have "torn_disk (vfs t) is bs (take (disk_room (sys (vfs s))) buffer)"
        by (rule torn_on_disk [OF od lt j(2) t(3)]) (use False b handles_vfd_inode [OF ro] in auto)
      moreover have "chain_at t (rd_fd reln) = chain_at s (rd_fd reln)" using t(2) by (metis chain_vfs(1))
      ultimately show ?thesis using False t(1) 1(2) ro hi by (simp add: torn_def rel_open_def hints_def)
    qed
  qed
qed

lemma mdextend_relation:
  assumes R: "relation s I (rd_fd reln) is bs" and g: "may_extend s reln is bs" and small: "length bs < 2 ^ 31 - 1" and b: "length buffer = BLCKSZ"
  shows "rets (mdextend s reln buffer) (\<lambda>(t, reln', st). reln' = reln \<and> (\<exists>J js.
    if BLCKSZ \<le> disk_room (sys (vfs s)) then st = SM_SUCCESS \<and> relation t J (rd_fd reln) js (bs @ [buffer])
    else st = SM_FAIL \<and> torn t J (rd_fd reln) js bs (take (disk_room (sys (vfs s))) buffer)))"
proof -
  have "length bs < 2 ^ 31" using small by simp
  from mdnblocks_relation [OF R g this] obtain t J js where t: "mdnblocks s reln = Some (t, int (length bs))" "relation t J (rd_fd reln) js bs" "length bs < length js * RELSEG_SIZE"
    "disk_room (sys (vfs t)) = disk_room (sys (vfs s))" by (elim retsE) (auto simp: counted_def)
  show ?thesis unfolding mdextend_def t(1)
    by simp (rule rets_mono [OF extend_relation [OF t(2,3) small b]], auto simp: t(4) split: if_splits)
qed

subsection \<open>Opening a relation\<close>

definition md_ok :: "md \<Rightarrow> bool" where
  "md_ok s \<longleftrightarrow> length (Md_fdvec s) = Nfds s \<and> 0 < Nfds s \<and> CurFd s \<le> Nfds s"

text \<open>The file of a relation and its first inode; a relation without a file has no blocks.\<close>

definition rel_file :: "vfds \<Rightarrow> RelationData \<Rightarrow> string option" where
  "rel_file v reln = map_option (filepath v) (relpath (DataDir v) (relname reln))"

definition file_blocks :: "vfds \<Rightarrow> string \<Rightarrow> byte list list \<Rightarrow> bool" where
  "file_blocks v path bs \<longleftrightarrow> blocks_ok bs \<and> (case names (sys v) path of None \<Rightarrow> bs = [] | Some i \<Rightarrow> inodes (sys v) ! i = concat bs)"

lemma make_room_ok:
  assumes "md_ok s"
  shows "md_ok (make_room s)" and "CurFd (make_room s) < length (Md_fdvec (make_room s))" and "CurFd (make_room s) = CurFd s" and "vfs (make_room s) = vfs s"
    and "\<And>g. g < CurFd s \<Longrightarrow> Md_fdvec (make_room s) ! g = Md_fdvec s ! g" and "bootstrap (make_room s) = bootstrap s"
  using assms by (auto simp: md_ok_def make_room_def fdvec_ext_def Let_def nth_append)

lemma open_flags: "O_RDWR AND O_CREAT = 0" "O_RDWR AND O_TRUNC = 0" "(O_RDWR OR O_CREAT OR O_EXCL) AND O_CREAT \<noteq> 0"
  by (simp_all add: O_RDWR_def O_CREAT_def O_TRUNC_def O_EXCL_def)

lemma open_or_create:
  assumes h: "fdl.handles v I" and path: "path = filepath v p"
  shows "rets (do { (v, file) \<leftarrow> FileNameOpenFile v p O_RDWR 384; if file < 0 then FileNameOpenFile v p (O_RDWR OR O_CREAT OR O_EXCL) 384 else Some (v, file) })
    (\<lambda>(w, x). 0 < x \<and> I x = None \<and> DataDir w = DataDir v \<and> DatabaseName w = DatabaseName v \<and> disk_room (sys w) = disk_room (sys v) \<and>
      (case names (sys v) path of
         Some i \<Rightarrow> fdl.handles w (I(x \<mapsto> i)) \<and> names (sys w) = names (sys v) \<and> inodes (sys w) = inodes (sys v)
       | None \<Rightarrow> fdl.handles w (I(x \<mapsto> length (inodes (sys v)))) \<and> names (sys w) = (names (sys v))(path \<mapsto> length (inodes (sys v))) \<and> inodes (sys w) = inodes (sys v) @ [[]]))"
proof (cases "names (sys v) path")
  case (Some i)
  then have op: "open_path (sys v) path O_RDWR = Some (sys v, i)" using open_flags by (simp add: open_path_def)
  from open_handles [OF h, of path O_RDWR 384, unfolded op] obtain w x where "fileNameOpenFile v path O_RDWR 384 = Some (w, x)" "0 < x" "I x = None" "fdl.handles w (I(x \<mapsto> i))"
    "DataDir w = DataDir v" "DatabaseName w = DatabaseName v" "disk_room (sys w) = disk_room (sys v)" "names (sys w) = names (sys v)" "inodes (sys w) = inodes (sys v)" by (elim retsE) auto
  then show ?thesis using Some path by (simp add: FileNameOpenFile_def)
next
  case None
  then have op: "open_path (sys v) path O_RDWR = None" using open_flags by (simp add: open_path_def)
  from open_handles [OF h, of path O_RDWR 384, unfolded op] obtain w where w: "fileNameOpenFile v path O_RDWR 384 = Some (w, -1)" "fdl.handles w I"
    "DataDir w = DataDir v" "DatabaseName w = DatabaseName v" "disk_room (sys w) = disk_room (sys v)" "names (sys w) = names (sys v)" "inodes (sys w) = inodes (sys v)" by (elim retsE) auto
  have path': "path = filepath w p" using path w(3,4) by (simp add: filepath_def)
  obtain u where op2: "open_path (sys w) path (O_RDWR OR O_CREAT OR O_EXCL) = Some (u, length (inodes (sys v)))" "names u = (names (sys v))(path \<mapsto> length (inodes (sys v)))" "inodes u = inodes (sys v) @ [[]]"
    using None w(6,7) open_flags(3) by (simp add: open_path_def)
  from open_handles [OF w(2), of path "O_RDWR OR O_CREAT OR O_EXCL" 384, unfolded op2(1)] obtain y x where "fileNameOpenFile w path (O_RDWR OR O_CREAT OR O_EXCL) 384 = Some (y, x)"
    "0 < x" "I x = None" "fdl.handles y (I(x \<mapsto> length (inodes (sys v))))" "DataDir y = DataDir w" "DatabaseName y = DatabaseName w" "disk_room (sys y) = disk_room (sys w)"
    "names (sys y) = names u" "inodes (sys y) = inodes u" by (elim retsE) auto
  then show ?thesis using None w path path' op2 by (simp add: FileNameOpenFile_def)
qed

text \<open>What \<open>mdopen\<close> does: a fresh slot for the first segment, all else as it was.\<close>

definition opened_slot :: "md \<Rightarrow> (int \<rightharpoonup> nat) \<Rightarrow> string \<Rightarrow> byte list list \<Rightarrow> md \<Rightarrow> int \<Rightarrow> int \<Rightarrow> nat \<Rightarrow> bool" where
  "opened_slot s I path bs t f x i \<longleftrightarrow> f = int (CurFd s) \<and> md_ok t \<and> CurFd t = Suc (CurFd s) \<and> bootstrap t = bootstrap s \<and>
     (\<forall>g<CurFd s. Md_fdvec t ! g = Md_fdvec s ! g) \<and> DataDir (vfs t) = DataDir (vfs s) \<and> DatabaseName (vfs t) = DatabaseName (vfs s) \<and>
     disk_room (sys (vfs t)) = disk_room (sys (vfs s)) \<and> I x = None \<and> fdl.handles (vfs t) (I(x \<mapsto> i)) \<and> inodes (sys (vfs t)) ! i = concat bs \<and>
     chain_at t f = Some [\<lparr>mdfd_vfd = x, mdfd_flags = 0, mdfd_lstbcnt = if length bs = RELSEG_SIZE then 0 else int (length bs)\<rparr>] \<and>
     (case names (sys (vfs s)) path of
        Some k \<Rightarrow> i = k \<and> names (sys (vfs t)) = names (sys (vfs s)) \<and> inodes (sys (vfs t)) = inodes (sys (vfs s))
      | None \<Rightarrow> i = length (inodes (sys (vfs s))) \<and> names (sys (vfs t)) = (names (sys (vfs s)))(path \<mapsto> i) \<and> inodes (sys (vfs t)) = inodes (sys (vfs s)) @ [[]])"

lemma fill_slot_ok:
  assumes "md_ok s" and "CurFd s < length (Md_fdvec s)"
  shows "fill_slot s file cnt = Some ((put_chain s (int (CurFd s)) [\<lparr>mdfd_vfd = file, mdfd_flags = 0, mdfd_lstbcnt = cnt\<rparr>])\<lparr>CurFd := CurFd s + 1\<rparr>, int (CurFd s))"
  using assms by (simp add: fill_slot_def chain_at_def)

lemma mdopen_slot:
  assumes ok: "md_ok s" and h: "fdl.handles (vfs s) I" and path: "rel_file (vfs s) reln = Some path" and bs: "file_blocks (vfs s) path bs" "length bs \<le> RELSEG_SIZE"
  shows "rets (mdopen s reln) (\<lambda>(t, f). \<exists>x i. opened_slot s I path bs t f x i)"
proof -
  note mr = make_room_ok [OF ok]
  obtain p where p: "relpath (DataDir (vfs s)) (relname reln) = Some p" "path = filepath (vfs s) p" using path by (auto simp: rel_file_def)
  define k where "k = (case names (sys (vfs s)) path of Some i \<Rightarrow> i | None \<Rightarrow> length (inodes (sys (vfs s))))"
  from open_or_create [OF h p(2)] obtain w x where w: "do { (v, file) \<leftarrow> FileNameOpenFile (vfs s) p O_RDWR 384; if file < 0 then FileNameOpenFile v p (O_RDWR OR O_CREAT OR O_EXCL) 384 else Some (v, file) } = Some (w, x)"
    "0 < x" "I x = None" "DataDir w = DataDir (vfs s)" "DatabaseName w = DatabaseName (vfs s)" "disk_room (sys w) = disk_room (sys (vfs s))" "fdl.handles w (I(x \<mapsto> k))"
    and io: "case names (sys (vfs s)) path of Some i \<Rightarrow> names (sys w) = names (sys (vfs s)) \<and> inodes (sys w) = inodes (sys (vfs s))
      | None \<Rightarrow> names (sys w) = (names (sys (vfs s)))(path \<mapsto> k) \<and> inodes (sys w) = inodes (sys (vfs s)) @ [[]]"
    by (elim retsE) (auto simp: k_def split: option.splits)
  have ik: "inodes (sys w) ! k = concat bs" using bs(1) io by (auto simp: file_blocks_def k_def split: option.splits)
  let ?s = "(make_room s)\<lparr>vfs := w\<rparr>" and ?n = "if length bs = RELSEG_SIZE then 0 else int (length bs)"
  have "rets (mdnblocks_file ?s x) (\<lambda>(t, n). n = ?n \<and> t = ?s\<lparr>vfs := vfs t\<rparr> \<and> fdl.handles (vfs t) (I(x \<mapsto> k)) \<and> fdl.same (vfs ?s) (vfs t))"
    by (rule count_file) (use w(7) ik bs in \<open>auto simp: file_blocks_def\<close>)
  then obtain t where t: "mdnblocks_file ?s x = Some (t, ?n)" "t = ?s\<lparr>vfs := vfs t\<rparr>" "fdl.handles (vfs t) (I(x \<mapsto> k))" "fdl.same w (vfs t)" by (elim retsE) auto
  have tm: "CurFd t = CurFd s" "Md_fdvec t = Md_fdvec (make_room s)" "Nfds t = Nfds (make_room s)" "bootstrap t = bootstrap s" using mr by (subst t(2); simp)+
  have tok: "md_ok t" "CurFd t < length (Md_fdvec t)" using mr(1-3) tm by (simp_all add: md_ok_def)
  let ?v = "\<lparr>mdfd_vfd = x, mdfd_flags = 0, mdfd_lstbcnt = ?n\<rparr>"
  let ?t = "(put_chain t (int (CurFd s)) [?v])\<lparr>CurFd := CurFd s + 1\<rparr>"
  have "mdopen s reln = fill_slot t x ?n" using p(1) w(1) t(1) mr(4) by (auto simp: mdopen_def Let_def bind_eq_Some_conv split: if_splits)
  then have eq: "mdopen s reln = Some (?t, int (CurFd s))" using fill_slot_ok [OF tok, of x ?n] tm(1) by simp
  have ch: "chain_at ?t (int (CurFd s)) = Some [?v]" using tok(2) tm(1) by (simp add: chain_at_def put_chain_def)
  have "opened_slot s I path bs ?t (int (CurFd s)) x k"
    using w(3-6) t(3,4) tok tm mr(5) ch io ik
    by (auto simp: opened_slot_def put_chain_def md_ok_def fdl.same_def same_config_def k_def split: option.splits)
  then show ?thesis unfolding eq rets_Some prod.case by (intro exI)
qed

lemma opened_relation:
  assumes "opened_slot s I path bs t f x i" and "blocks_ok bs" and "length bs < RELSEG_SIZE"
  shows "relation t (I(x \<mapsto> i)) f [i] bs"
proof -
  have ch: "chain_at t f = Some [\<lparr>mdfd_vfd = x, mdfd_flags = 0, mdfd_lstbcnt = int (length bs)\<rparr>]" using assms unfolding opened_slot_def by auto
  have "rel_open t (I(x \<mapsto> i)) f [i]" unfolding rel_open_def ch using assms(1) by (simp add: opened_slot_def)
  moreover have "hints t f bs" unfolding hints_def ch using assms(3) by simp
  ultimately show ?thesis using assms by (simp add: opened_slot_def relation_def on_disk_def seg_blocks_def)
qed

subsection \<open>Properties\<close>

text \<open>
  C15: While a relation is open, \<open>md.c\<close> implements a list of blocks. Whatever the number of segments, reading a block returns the element of the list and leaves the
  list alone, writing and flushing it replace the element, counting returns the length, and extending appends a block, in a new segment file when the
  last one is full. With less than a block of room on the disk extending fails; the list is then as before if there is no room at all, and otherwise the file keeps the bytes
  that went in behind its blocks.
\<close>

theorem md_refines_blocks:
  assumes "relation s I (rd_fd reln) is bs" and "unat b < length bs" and "length bs < 2 ^ 31 - 1" and "length buffer = BLCKSZ" and "may_extend s reln is bs"
  shows "rets (mdread s reln b old) (\<lambda>(t, _, st, data). st = SM_SUCCESS \<and> data = bs ! unat b \<and> relation t I (rd_fd reln) is bs) \<and>
    rets (mdwrite s reln b buffer) (\<lambda>(t, _, st). st = SM_SUCCESS \<and> relation t I (rd_fd reln) is (bs[unat b := buffer])) \<and>
    rets (mdflush s reln b buffer) (\<lambda>(t, _, st). st = SM_SUCCESS \<and> relation t I (rd_fd reln) is (bs[unat b := buffer])) \<and>
    rets (mdnblocks s reln) (\<lambda>(t, n). n = int (length bs) \<and> (\<exists>J js. relation t J (rd_fd reln) js bs)) \<and>
    rets (mdextend s reln buffer) (\<lambda>(t, _, st). \<exists>J js.
      if BLCKSZ \<le> disk_room (sys (vfs s)) then st = SM_SUCCESS \<and> relation t J (rd_fd reln) js (bs @ [buffer])
      else st = SM_FAIL \<and> torn t J (rd_fd reln) js bs (take (disk_room (sys (vfs s))) buffer) \<and> (disk_room (sys (vfs s)) = 0 \<longrightarrow> relation t J (rd_fd reln) js bs))"
proof (intro conjI)
  have small: "unat b < 2 ^ 31" "length bs < 2 ^ 31" using assms(2,3) by simp_all
  show "rets (mdread s reln b old) (\<lambda>(t, _, st, data). st = SM_SUCCESS \<and> data = bs ! unat b \<and> relation t I (rd_fd reln) is bs)"
    by (rule rets_mono [OF mdread_relation [OF assms(1,2) small(1)]]) auto
  show "rets (mdwrite s reln b buffer) (\<lambda>(t, _, st). st = SM_SUCCESS \<and> relation t I (rd_fd reln) is (bs[unat b := buffer]))"
    by (rule rets_mono [OF mdwrite_relation(1) [OF assms(1,2) small(1) assms(4)]]) auto
  show "rets (mdflush s reln b buffer) (\<lambda>(t, _, st). st = SM_SUCCESS \<and> relation t I (rd_fd reln) is (bs[unat b := buffer]))"
    by (rule rets_mono [OF mdwrite_relation(2) [OF assms(1,2) small(1) assms(4)]]) auto
  show "rets (mdnblocks s reln) (\<lambda>(t, n). n = int (length bs) \<and> (\<exists>J js. relation t J (rd_fd reln) js bs))"
    by (rule rets_mono [OF mdnblocks_relation [OF assms(1,5) small(2)]]) (auto simp: counted_def)
  show "rets (mdextend s reln buffer) (\<lambda>(t, _, st). \<exists>J js.
      if BLCKSZ \<le> disk_room (sys (vfs s)) then st = SM_SUCCESS \<and> relation t J (rd_fd reln) js (bs @ [buffer])
      else st = SM_FAIL \<and> torn t J (rd_fd reln) js bs (take (disk_room (sys (vfs s))) buffer) \<and> (disk_room (sys (vfs s)) = 0 \<longrightarrow> relation t J (rd_fd reln) js bs))"
  proof (rule rets_mono [OF mdextend_relation [OF assms(1,5,3,4)]], clarify)
    fix t st J js assume "if BLCKSZ \<le> disk_room (sys (vfs s)) then st = SM_SUCCESS \<and> relation t J (rd_fd reln) js (bs @ [buffer])
      else st = SM_FAIL \<and> torn t J (rd_fd reln) js bs (take (disk_room (sys (vfs s))) buffer)"
    moreover have "relation t J (rd_fd reln) js bs" if "torn t J (rd_fd reln) js bs (take (disk_room (sys (vfs s))) buffer)" "disk_room (sys (vfs s)) = 0"
      using that by (simp add: torn_Nil)
    ultimately show "\<exists>J js. if BLCKSZ \<le> disk_room (sys (vfs s)) then st = SM_SUCCESS \<and> relation t J (rd_fd reln) js (bs @ [buffer])
      else st = SM_FAIL \<and> torn t J (rd_fd reln) js bs (take (disk_room (sys (vfs s))) buffer) \<and> (disk_room (sys (vfs s)) = 0 \<longrightarrow> relation t J (rd_fd reln) js bs)"
      by (intro exI [of _ J] exI [of _ js]) (auto split: if_splits)
  qed
qed

text \<open>A disk with a relation of the given blocks and some room left, and the descriptor of the relation.\<close>

definition sample_room :: "nat \<Rightarrow> byte list list \<Rightarrow> md" where
  "sample_room n bs = \<lparr>vfs = with_head (sample_vfds\<lparr>sys := \<lparr>inodes = [[], concat bs], names = [''/dev/null'' \<mapsto> 0, ''/data/base/db/r'' \<mapsto> 1], ofiles = replicate 20 None, disk_room = n\<rparr>\<rparr>),
     Nfds = 2, Md_fdvec = replicate 2 [zero_vec], CurFd = 0, bootstrap = False\<rparr>"

abbreviation sample_md :: "byte list list \<Rightarrow> md" where "sample_md \<equiv> sample_room 100000"

definition sample_rel :: RelationData where "sample_rel = zero_relation\<lparr>rd_fd := 0, relname := ''r'', rd_id := 16993\<rparr>"

lemma sample_md_ok:
  assumes "blocks_ok bs"
  shows "md_ok (sample_room n bs)" and "fdl.handles (vfs (sample_room n bs)) (\<lambda>_. None)" and "rel_file (vfs (sample_room n bs)) sample_rel = Some ''/data/base/db/r''"
    and "file_blocks (vfs (sample_room n bs)) ''/data/base/db/r'' bs"
proof -
  let ?v = "sample_vfds\<lparr>sys := \<lparr>inodes = [[], concat bs], names = [''/dev/null'' \<mapsto> 0, ''/data/base/db/r'' \<mapsto> 1], ofiles = replicate 20 None, disk_room = n\<rparr>\<rparr>"
  have "free_descriptor (sys ?v) \<noteq> None" unfolding free_descriptor_None by (auto intro!: exI [of _ 0])
  then have "fresh ?v" by (auto simp: fresh_def sample_vfds_def os_ok_def Nulldev_def split: if_splits)
  from fresh_files [OF this] show "fdl.handles (vfs (sample_room n bs)) (\<lambda>_. None)" by (auto simp: fdl.handles_def fdl.inode_of_def sample_room_def intro!: exI [of _ "\<lambda>_. None"])
  show "md_ok (sample_room n bs)" by (simp add: md_ok_def sample_room_def)
  show "rel_file (vfs (sample_room n bs)) sample_rel = Some ''/data/base/db/r''"
    by (simp add: rel_file_def relpath_def cstr_def sample_rel_def sample_room_def with_head_simps NAMEDATALEN_def IsSharedSystemRelationName_def IsSystemRelationName_def filepath_def Sep_char_def)
      (simp add: with_head_def sample_vfds_def)
  show "file_blocks (vfs (sample_room n bs)) ''/data/base/db/r'' bs" using assms by (simp add: file_blocks_def sample_room_def with_head_simps)
qed

lemma sample_opened:
  assumes "blocks_ok bs" and "length bs \<le> RELSEG_SIZE"
  obtains t x where "mdopen (sample_room n bs) sample_rel = Some (t, 0)" "opened_slot (sample_room n bs) (\<lambda>_. None) ''/data/base/db/r'' bs t 0 x 1"
proof -
  note s = sample_md_ok [OF assms(1), of n]
  from mdopen_slot [OF s assms(2)] obtain t f x i where t: "mdopen (sample_room n bs) sample_rel = Some (t, f)" "opened_slot (sample_room n bs) (\<lambda>_. None) ''/data/base/db/r'' bs t f x i"
    by (elim retsE) auto
  then have "f = 0" "i = 1" by (auto simp: opened_slot_def sample_room_def with_head_simps)
  then show ?thesis using that t by simp
qed

theorem md_refines_blocks_witness:
  "\<exists>t. mdopen (sample_md [replicate BLCKSZ 7]) sample_rel = Some (t, 0) \<and> rets (mdread t sample_rel 0 []) (\<lambda>(_, _, _, data). data = replicate BLCKSZ 7) \<and>
     rets (mdnblocks t sample_rel) (\<lambda>(_, n). n = 1) \<and> rets (mdextend t sample_rel (replicate BLCKSZ 8)) (\<lambda>(_, _, st). st = SM_SUCCESS)"
proof -
  let ?bs = "[replicate BLCKSZ 7] :: byte list list"
  have bs: "blocks_ok ?bs" "length ?bs \<le> RELSEG_SIZE" "length ?bs < RELSEG_SIZE" by (simp_all add: RELSEG_SIZE_def)
  obtain t x where t: "mdopen (sample_md ?bs) sample_rel = Some (t, 0)" "opened_slot (sample_md ?bs) (\<lambda>_. None) ''/data/base/db/r'' ?bs t 0 x 1" using sample_opened [OF bs(1,2)] by blast
  have fd: "rd_fd sample_rel = 0" by (simp add: sample_rel_def)
  have R: "relation t [x \<mapsto> 1] (rd_fd sample_rel) [1] ?bs" using opened_relation [OF t(2) bs(1,3)] fd by simp
  have g: "may_extend t sample_rel [1] ?bs" by (simp add: may_extend_def RELSEG_SIZE_def)
  have room: "BLCKSZ \<le> disk_room (sys (vfs t))" using t(2) by (simp add: opened_slot_def sample_room_def with_head_simps BLCKSZ_def)
  note m = md_refines_blocks [OF R, of 0 "replicate BLCKSZ 8" "[]"] g
  have "rets (mdread t sample_rel 0 []) (\<lambda>(_, _, _, data). data = replicate BLCKSZ 7)" using m by (auto elim!: rets_mono)
  moreover have "rets (mdnblocks t sample_rel) (\<lambda>(_, n). n = 1)" using m by (auto elim!: rets_mono)
  moreover have "rets (mdextend t sample_rel (replicate BLCKSZ 8)) (\<lambda>(_, _, st). st = SM_SUCCESS)" using m room by (auto elim!: rets_mono)
  ultimately show ?thesis using t(1) by blast
qed

text \<open>
  Opening a relation of fewer than \<open>RELSEG_SIZE\<close> blocks gives access to exactly the blocks of its file, and a relation that has no file yet gets an empty one; the slots of
  other open relations stay as they are, also when the table of slots has to grow.
\<close>

theorem mdopen_finds_blocks:
  assumes "md_ok s" and "fdl.handles (vfs s) I" and "rel_file (vfs s) reln = Some path" and "file_blocks (vfs s) path bs" and "length bs < RELSEG_SIZE"
  shows "rets (mdopen s reln) (\<lambda>(t, f). md_ok t \<and> (\<exists>J i. relation t J f [i] bs \<and> names (sys (vfs t)) path = Some i) \<and> (\<forall>g<CurFd s. Md_fdvec t ! g = Md_fdvec s ! g))"
proof -
  have bs: "blocks_ok bs" "length bs \<le> RELSEG_SIZE" using assms(4,5) by (auto simp: file_blocks_def)
  show ?thesis
  proof (rule rets_mono [OF mdopen_slot [OF assms(1-4) bs(2)]], clarify)
    fix t f x i assume o: "opened_slot s I path bs t f x i"
    have "relation t (I(x \<mapsto> i)) f [i] bs" by (rule opened_relation [OF o bs(1) assms(5)])
    moreover have "names (sys (vfs t)) path = Some i" "md_ok t" "\<forall>g<CurFd s. Md_fdvec t ! g = Md_fdvec s ! g" using o by (auto simp: opened_slot_def split: option.splits)
    ultimately show "md_ok t \<and> (\<exists>J i. relation t J f [i] bs \<and> names (sys (vfs t)) path = Some i) \<and> (\<forall>g<CurFd s. Md_fdvec t ! g = Md_fdvec s ! g)" by blast
  qed
qed

theorem mdopen_finds_blocks_witness:
  "rets (mdopen (sample_md [replicate BLCKSZ 7]) sample_rel) (\<lambda>(t, f). md_ok t)"
proof -
  have bs: "blocks_ok [replicate BLCKSZ 7]" "length [replicate BLCKSZ 7] < RELSEG_SIZE" by (simp_all add: RELSEG_SIZE_def)
  show ?thesis by (rule rets_mono [OF mdopen_finds_blocks [OF sample_md_ok [OF bs(1)] bs(2)]]) auto
qed

text \<open>
  C35: An extension for which the disk has room in part reports failure and changes the relation: the torn block stays in the file, so \<open>mdnblocks\<close> counts one block more than before, which
  \<open>mdread\<close> cannot read.
\<close>

theorem mdextend_tears:
  assumes "relation s I (rd_fd reln) is bs" and "Suc (length bs) < length is * RELSEG_SIZE" and "length bs < 2 ^ 31 - 1" and "length buffer = BLCKSZ"
    and "0 < disk_room (sys (vfs s))" and "disk_room (sys (vfs s)) < BLCKSZ"
  shows "rets (mdextend s reln buffer) (\<lambda>(t, _, st). st = SM_FAIL \<and> rets (mdnblocks t reln) (\<lambda>(_, n). n = int (length bs) + 1) \<and>
    rets (mdread t reln (of_nat (length bs)) old) (\<lambda>(_, _, st, _). st = SM_FAIL))"
proof -
  let ?rest = "take (disk_room (sys (vfs s))) buffer" and ?b = "of_nat (length bs) :: uint32"
  have lt: "length bs < length is * RELSEG_SIZE" "length bs < 2 ^ 31" using assms(2,3) by simp_all
  have b: "unat ?b = length bs" using lt(2) by (simp add: unat_of_nat take_bit_nat_eq_self)
  have "?rest \<noteq> []" using assms(4-6) by auto
  have od: "rel_open s I (rd_fd reln) is" "on_disk (vfs s) is bs" "hints s (rd_fd reln) bs" using assms(1) by (simp_all add: relation_def)
  from mdnblocks_blocks [OF od lt] obtain u where u: "mdnblocks s reln = Some (u, int (length bs))" "u = s\<lparr>vfs := vfs u\<rparr>" "fdl.handles (vfs u) I" "fdl.same (vfs s) (vfs u)" by (elim retsE) auto
  have R: "relation u I (rd_fd reln) is bs" by (rule relation_vfs [OF assms(1) u(2-4)])
  have room: "disk_room (sys (vfs u)) = disk_room (sys (vfs s))" using u(4) by (simp add: fdl.same_def)
  from extend_relation [OF R lt(1) assms(3,4)] obtain t where t: "extend_at u reln (int (length bs)) buffer = Some (t, reln, SM_FAIL)" "torn t I (rd_fd reln) is bs ?rest"
    using assms(6) room by (elim retsE) auto
  show ?thesis using u(1) t(1) mdnblocks_torn [OF t(2) \<open>?rest \<noteq> []\<close> assms(2,3)] mdread_torn [OF t(2) \<open>?rest \<noteq> []\<close> lt(2) b, of old] by (simp add: mdextend_def)
qed

theorem mdextend_tears_witness:
  "\<exists>t. mdopen (sample_room 100 [replicate BLCKSZ 7]) sample_rel = Some (t, 0) \<and>
     rets (mdextend t sample_rel (replicate BLCKSZ 8)) (\<lambda>(u, _, st). st = SM_FAIL \<and> rets (mdnblocks u sample_rel) (\<lambda>(_, n). n = 2))"
proof -
  let ?bs = "[replicate BLCKSZ 7] :: byte list list"
  have bs: "blocks_ok ?bs" "length ?bs \<le> RELSEG_SIZE" "length ?bs < RELSEG_SIZE" by (simp_all add: RELSEG_SIZE_def)
  obtain t x where t: "mdopen (sample_room 100 ?bs) sample_rel = Some (t, 0)" "opened_slot (sample_room 100 ?bs) (\<lambda>_. None) ''/data/base/db/r'' ?bs t 0 x 1" using sample_opened [OF bs(1,2)] by blast
  have fd: "rd_fd sample_rel = 0" by (simp add: sample_rel_def)
  have R: "relation t [x \<mapsto> 1] (rd_fd sample_rel) [1] ?bs" using opened_relation [OF t(2) bs(1,3)] fd by simp
  have room: "disk_room (sys (vfs t)) = 100" using t(2) by (simp add: opened_slot_def sample_room_def with_head_simps)
  have "rets (mdextend t sample_rel (replicate BLCKSZ 8)) (\<lambda>(u, _, st). st = SM_FAIL \<and> rets (mdnblocks u sample_rel) (\<lambda>(_, n). n = 2))"
    by (rule rets_mono [OF mdextend_tears [OF R, of "replicate BLCKSZ 8" "[]"]]) (use room in \<open>auto simp: RELSEG_SIZE_def BLCKSZ_def elim!: rets_mono\<close>)
  then show ?thesis using t(1) by blast
qed

text \<open>
  C36: A relation whose first segment is full, \<open>2^31\<close> bytes, is lost when it is opened again: the size does not fit the \<open>int\<close> that \<open>FileSeek\<close> returns it
  through, so \<open>mdnblocks\<close> counts no block at all and \<open>mdextend\<close> fails.
\<close>

theorem mdopen_full_segment:
  assumes "md_ok s" and "fdl.handles (vfs s) I" and "rel_file (vfs s) reln = Some path" and "file_blocks (vfs s) path bs" and "length bs = RELSEG_SIZE"
  shows "rets (mdopen s reln) (\<lambda>(t, f). rets (mdnblocks t (reln\<lparr>rd_fd := f\<rparr>)) (\<lambda>(_, n). n = 0) \<and>
    rets (mdextend t (reln\<lparr>rd_fd := f\<rparr>) buffer) (\<lambda>(_, _, st). st = SM_FAIL))"
proof -
  have bs: "blocks_ok bs" "length bs \<le> RELSEG_SIZE" using assms(4,5) by (auto simp: file_blocks_def)
  show ?thesis
  proof (rule rets_mono [OF mdopen_slot [OF assms(1-4) bs(2)]], clarify)
    fix t f x i assume o: "opened_slot s I path bs t f x i"
    let ?r = "reln\<lparr>rd_fd := f\<rparr>" and ?v = "\<lparr>mdfd_vfd = x, mdfd_flags = 0, mdfd_lstbcnt = 0\<rparr>"
    have ch: "chain_at t f = Some [?v]" and h: "fdl.handles (vfs t) (I(x \<mapsto> i))" and c: "inodes (sys (vfs t)) ! i = concat bs" and f0: "\<not> f < 0"
      using o assms(5) by (auto simp: opened_slot_def)
    have v0: "vec_at t f 0 = Some ?v" using ch by (simp add: vec_at_def)
    have "rets (mdnblocks_file t x) (\<lambda>(u, n). n = 0 \<and> u = t\<lparr>vfs := vfs u\<rparr> \<and> fdl.handles (vfs u) (I(x \<mapsto> i)) \<and> fdl.same (vfs t) (vfs u))"
      by (rule rets_mono [OF count_file [OF h _ c bs]]) (use assms(5) in auto)
    then obtain u where u: "mdnblocks_file t x = Some (u, 0)" "u = t\<lparr>vfs := vfs u\<rparr>" "fdl.handles (vfs u) (I(x \<mapsto> i))" "fdl.same (vfs t) (vfs u)" by (elim retsE) auto
    have n: "mdnblocks t ?r = Some (u, 0)" unfolding mdnblocks_def by (subst nblocks_loop.simps) (use v0 u(1) in \<open>simp add: sint32_id RELSEG_SIZE_def\<close>)
    have chu: "chain_at u f = Some [?v]" using ch u(2) by (metis chain_vfs(1))
    have len: "RELSEG_SIZE * BLCKSZ = length (inodes (sys (vfs u)) ! i)" "RELSEG_SIZE * BLCKSZ \<le> 2 ^ 31" using c u(4) assms(5) by (simp_all add: fdl.same_def length_blocks [OF bs(1)] sizes)
    have ix: "(I(x \<mapsto> i)) x = Some i" by simp
    from fdl.seek_end [OF u(3) ix len] obtain w where "FileSeek (vfs u) x 0 SEEK_END = Some (w, - (2 ^ 31))" using sint32_bytes [of RELSEG_SIZE] by (elim retsE) auto
    then have "extend_at u ?r 0 buffer = Some (u\<lparr>vfs := w\<rparr>, ?r, SM_FAIL)" using chu f0 by (simp add: extend_at_def mdfd_getseg_def vec_at_def)
    then show "rets (mdnblocks t ?r) (\<lambda>(_, n). n = 0) \<and> rets (mdextend t ?r buffer) (\<lambda>(_, _, st). st = SM_FAIL)" using n by (simp add: mdextend_def)
  qed
qed

theorem mdopen_full_segment_witness:
  "rets (mdopen (sample_md (replicate RELSEG_SIZE (replicate BLCKSZ 7))) sample_rel) (\<lambda>(t, f). rets (mdnblocks t (sample_rel\<lparr>rd_fd := f\<rparr>)) (\<lambda>(_, n). n = 0))"
proof -
  have bs: "blocks_ok (replicate RELSEG_SIZE (replicate BLCKSZ 7))" "length (replicate RELSEG_SIZE (replicate BLCKSZ (7 :: byte))) = RELSEG_SIZE" by (simp_all add: blocks_ok_def)
  show ?thesis by (rule rets_mono [OF mdopen_full_segment [OF sample_md_ok [OF bs(1)] bs(2)]]) auto
qed

end
