(* ===== verification/LocalBuf.thy ===== *)
theory LocalBuf
  imports BufTable Md
begin

text \<open>
  The state of the buffer manager as one process sees it, and its local buffers, \<open>storage/buffer/localbuf.c\<close>.

  The blocks that descriptors point to, in shared memory or from \<open>malloc\<close>, are kept by their \<open>SHMEM_OFFSET\<close>
  (\<open>blocks\<close>; \<open>MAKE_PTR\<close> and \<open>MAKE_OFFSET\<close> are inverse). \<open>malloc_blocks\<close> is what \<open>malloc\<close> will return: offsets with
  the bytes that lie there. The locks of the buffers stand beside the descriptors, the buffer manager's spin
  lock is a flag. There is one process: waiting for a lock that is held does not end.

  \<open>None\<close> is a failed \<open>Assert\<close> (the code prints a message and goes on; the model does not follow such a run), \<open>elog(FATAL)\<close>, an access outside an array or through a null pointer, or a wait that
  does not end; \<open>elog(WARN)\<close> and \<open>elog(NOTICE)\<close> return.
\<close>

subsection \<open>The state\<close>

record bufs =
  bp :: pool
  be :: backend
  SharedBufHash :: buf_hash
  io_in_progress_lock :: "bool list"
  BufMgrLock :: bool
  blocks :: "64 word \<rightharpoonup> byte list"
  malloc_blocks :: "(64 word \<times> byte list) list"
  sm :: md
  MyDatabaseId :: uint32
  WriteMode :: int
  ReadBufferCount :: int
  BufferHitCount :: int
  BufferFlushCount :: int

definition DEFAULT_SMGR :: int where "DEFAULT_SMGR = 0"

definition zero_block :: "byte list" where "zero_block = replicate BLCKSZ 0"

subsection \<open>The relation of a buffer\<close>

text \<open>
  \<open>RelationIdCacheGetRelation\<close> does not look into a cache: it makes a descriptor from the name
  that the buffer carries, and opens the relation's file once more.
\<close>

definition RelationIdCacheGetRelation :: "bufs \<Rightarrow> BufferDesc \<Rightarrow> (bufs \<times> RelationData) option" where
  "RelationIdCacheGetRelation s buf = do {
     rdesc \<leftarrow> Some (zero_relation\<lparr>relname := namestrcpy (sb_relname buf), rd_isnailed := False, rd_islocal := False, rd_istemp := False,
                relsmgr := DEFAULT_SMGR\<rparr>);
     (m, fd) \<leftarrow> smgropen DEFAULT_SMGR (sm s) rdesc;
     Some (s\<lparr>sm := m\<rparr>, rdesc\<lparr>rd_fd := fd, rd_tmpunlinked := False\<rparr>)
   }"

subsection \<open>Local buffers\<close>

definition local_upd :: "bufs \<Rightarrow> nat \<Rightarrow> (BufferDesc \<Rightarrow> BufferDesc) \<Rightarrow> bufs option" where
  "local_upd s i f = do {
     d \<leftarrow> arr_get (LocalBufferDescriptors (be s)) i;
     Some (s\<lparr>be := (be s)\<lparr>LocalBufferDescriptors := (LocalBufferDescriptors (be s))[i := f d]\<rparr>\<rparr>)
   }"

definition local_count :: "bufs \<Rightarrow> nat \<Rightarrow> (int \<Rightarrow> int) \<Rightarrow> bufs option" where
  "local_count s i f = do {
     c \<leftarrow> arr_get (LocalRefCount (be s)) i;
     Some (s\<lparr>be := (be s)\<lparr>LocalRefCount := (LocalRefCount (be s))[i := f c]\<rparr>\<rparr>)
   }"

text \<open>The two searches of \<open>LocalBufferAlloc\<close>, over the indices in the order in which the loops try them.\<close>

fun local_search :: "BufferDesc list \<Rightarrow> uint32 \<Rightarrow> uint32 \<Rightarrow> nat list \<Rightarrow> nat option option" where
  "local_search ds rel blk [] = Some None"
| "local_search ds rel blk (i # is) = do {
     d \<leftarrow> arr_get ds i;
     if relId (tag d) = rel \<and> blockNum (tag d) = blk then Some (Some i) else local_search ds rel blk is
   }"

fun local_unused :: "int list \<Rightarrow> nat list \<Rightarrow> nat option option" where
  "local_unused cs [] = Some None"
| "local_unused cs (b # bs) = do {
     c \<leftarrow> arr_get cs b;
     if c = 0 then Some (Some b) else local_unused cs bs
   }"

text \<open>Writing a local buffer out through a relation made for it.\<close>

definition write_local :: "bufs \<Rightarrow> BufferDesc \<Rightarrow> (bufs \<times> int) option" where
  "write_local s buf = do {
     (s, bufrel) \<leftarrow> RelationIdCacheGetRelation s buf;
     page \<leftarrow> blocks s (data buf);
     (m, _, st) \<leftarrow> smgrwrite (relsmgr bufrel) (sm s) bufrel (blockNum (tag buf)) page;
     Some (s\<lparr>sm := m\<rparr>, st)
   }"

text \<open>Memory for the block of a buffer that has none yet. A null pointer from \<open>malloc\<close> is written through by the caller.\<close>

definition local_memory :: "bufs \<Rightarrow> nat \<Rightarrow> bufs option" where
  "local_memory s b = do {
     d \<leftarrow> arr_get (LocalBufferDescriptors (be s)) b;
     if data d = 0 then (case malloc_blocks s of
         [] \<Rightarrow> None
       | (off, bytes) # rest \<Rightarrow> local_upd (s\<lparr>malloc_blocks := rest, blocks := (blocks s)(off \<mapsto> bytes)\<rparr>) b (\<lambda>x. x\<lparr>data := off\<rparr>))
     else Some s
   }"

text \<open>The result is the index of the descriptor and \<open>foundPtr\<close>.\<close>

definition LocalBufferAlloc :: "bufs \<Rightarrow> RelationData \<Rightarrow> uint32 \<Rightarrow> (bufs \<times> RelationData \<times> nat \<times> bool) option" where
  "LocalBufferAlloc s reln blockNo = do {
     (reln, blockNo) \<leftarrow> Some (if blockNo = P_NEW then (reln\<lparr>rd_nblocks := rd_nblocks reln + 1\<rparr>, word_of_int (rd_nblocks reln)) else (reln, blockNo));
     n \<leftarrow> Some (NLocBuffer (be s));
     r \<leftarrow> local_search (LocalBufferDescriptors (be s)) (rd_id reln) blockNo [0..<n];
     case r of
       Some i \<Rightarrow> do { s \<leftarrow> local_count s i (\<lambda>c. c + 1); Some (s, reln, i, True) }
     | None \<Rightarrow> do {
         u \<leftarrow> local_unused (LocalRefCount (be s)) (map (\<lambda>i. (nextFreeLocalBuf (be s) + i) mod n) [0..<n]);
         case u of None \<Rightarrow> None
         | Some b \<Rightarrow> do {
             s \<leftarrow> local_count s b (\<lambda>c. c + 1);
             s \<leftarrow> Some (s\<lparr>be := (be s)\<lparr>nextFreeLocalBuf := (b + 1) mod n\<rparr>\<rparr>);
             d \<leftarrow> arr_get (LocalBufferDescriptors (be s)) b;
             (s, _) \<leftarrow> (if has_flag BM_DIRTY d then write_local s d else Some (s, SM_SUCCESS));
             s \<leftarrow> local_upd s b (\<lambda>x. x\<lparr>tag := (tag x)\<lparr>relId := rd_id reln, blockNum := blockNo\<rparr>\<rparr>);
             s \<leftarrow> local_upd s b (clear_flag BM_DIRTY);
             s \<leftarrow> local_memory s b;
             Some (s, reln, b, False)
           }
       }
   }"

definition WriteLocalBuffer :: "bufs \<Rightarrow> int \<Rightarrow> bool \<Rightarrow> (bufs \<times> int) option" where
  "WriteLocalBuffer s buffer release =
     (if \<not> BufferIsLocal buffer then None
      else do {
        bufid \<leftarrow> Some (nat (- (buffer + 1)));
        s \<leftarrow> local_upd s bufid (set_flag BM_DIRTY);
        s \<leftarrow> (if release then do {
                c \<leftarrow> arr_get (LocalRefCount (be s)) bufid;
                if c > 0 then local_count s bufid (\<lambda>c. c - 1) else None
              } else Some s);
        Some (s, 1)
      })"

definition FlushLocalBuffer :: "bufs \<Rightarrow> int \<Rightarrow> bool \<Rightarrow> (bufs \<times> int) option" where
  "FlushLocalBuffer s buffer release =
     (if \<not> BufferIsLocal buffer then None
      else do {
        bufid \<leftarrow> Some (nat (- (buffer + 1)));
        s \<leftarrow> local_upd s bufid (clear_flag BM_DIRTY);
        d \<leftarrow> arr_get (LocalBufferDescriptors (be s)) bufid;
        (s, bufrel) \<leftarrow> RelationIdCacheGetRelation s d;
        page \<leftarrow> blocks s (data d);
        (m, _, _) \<leftarrow> smgrflush (relsmgr bufrel) (sm s) bufrel (blockNum (tag d)) page;
        s \<leftarrow> Some (s\<lparr>sm := m\<rparr>);
        c \<leftarrow> arr_get (LocalRefCount (be s)) bufid;
        if c > 0 then do {
          s \<leftarrow> (if release then local_count s bufid (\<lambda>c. c - 1) else Some s);
          Some (s, 1)
        } else None
      })"

definition InitLocalBuffer :: "backend \<Rightarrow> backend" where
  "InitLocalBuffer me = me\<lparr>
     LocalBufferDescriptors := map (\<lambda>i. zero_desc\<lparr>buf_id := - int i - 2\<rparr>) [0..<NLocBuffer me],
     nextFreeLocalBuf := 0, LocalRefCount := replicate (NLocBuffer me) 0\<rparr>"

definition sync_local :: "nat \<Rightarrow> bufs \<Rightarrow> bufs option" where
  "sync_local i s = do {
     buf \<leftarrow> arr_get (LocalBufferDescriptors (be s)) i;
     if has_flag BM_DIRTY buf then do {
       (s, _) \<leftarrow> write_local s buf;
       s \<leftarrow> local_upd s i (\<lambda>x. x\<lparr>tag := (tag x)\<lparr>relId := 0\<rparr>\<rparr>);
       local_upd s i (clear_flag BM_DIRTY)
     } else Some s
   }"

definition LocalBufferSync :: "bufs \<Rightarrow> bufs option" where
  "LocalBufferSync s = do {
     s \<leftarrow> for_loop 0 (NLocBuffer (be s)) sync_local s;
     if length (LocalRefCount (be s)) < NLocBuffer (be s) then None
     else Some (s\<lparr>be := (be s)\<lparr>LocalRefCount := replicate (NLocBuffer (be s)) 0\<rparr>\<rparr>)
   }"

end
