(* ===== verification/BufMgr.thy ===== *)
theory BufMgr
  imports LocalBuf
begin

text \<open>
  The buffer manager, \<open>storage/buffer/bufmgr.c\<close>: finding a buffer for a block, reading it in, writing dirty buffers out
  when their place is needed, and the routines that go through the whole pool. The routines on
  pins alone are in theory \<open>Pins\<close>.
\<close>

subsection \<open>Locks and descriptors\<close>

definition BUFFER_FLUSH_WRITE :: int where "BUFFER_FLUSH_WRITE = 0"
definition BUFFER_LATE_WRITE :: int where "BUFFER_LATE_WRITE = 1"

definition SpinAcquire :: "bufs \<Rightarrow> bufs option" where
  "SpinAcquire s = (if BufMgrLock s then None else Some (s\<lparr>BufMgrLock := True\<rparr>))"

definition SpinRelease :: "bufs \<Rightarrow> bufs" where
  "SpinRelease s = s\<lparr>BufMgrLock := False\<rparr>"

definition S_LOCK :: "bufs \<Rightarrow> int \<Rightarrow> bufs option" where
  "S_LOCK s b = (if 0 \<le> b \<and> b < int (length (io_in_progress_lock s)) \<and> \<not> io_in_progress_lock s ! nat b
     then Some (s\<lparr>io_in_progress_lock := (io_in_progress_lock s)[nat b := True]\<rparr>) else None)"

definition S_UNLOCK :: "bufs \<Rightarrow> int \<Rightarrow> bufs" where
  "S_UNLOCK s b = s\<lparr>io_in_progress_lock := (io_in_progress_lock s)[nat b := False]\<rparr>"

definition upd_desc :: "bufs \<Rightarrow> int \<Rightarrow> (BufferDesc \<Rightarrow> BufferDesc) \<Rightarrow> bufs option" where
  "upd_desc s b f = do { p \<leftarrow> desc_upd (bp s) b f; Some (s\<lparr>bp := p\<rparr>) }"

definition set_private :: "bufs \<Rightarrow> int \<Rightarrow> int \<Rightarrow> bufs option" where
  "set_private s b c = do {
     _ \<leftarrow> ref_get (PrivateRefCount (be s)) b;
     Some (s\<lparr>be := (be s)\<lparr>PrivateRefCount := (PrivateRefCount (be s))[nat b := c]\<rparr>\<rparr>)
   }"

definition pin :: "bufs \<Rightarrow> int \<Rightarrow> bufs option" where
  "pin s b = do { (p, me) \<leftarrow> PinBuffer (bp s) (be s) b; Some (s\<lparr>bp := p, be := me\<rparr>) }"

definition unpin :: "bufs \<Rightarrow> int \<Rightarrow> bufs option" where
  "unpin s b = do { (p, me) \<leftarrow> UnpinBuffer (bp s) (be s) b; Some (s\<lparr>bp := p, be := me\<rparr>) }"

text \<open>\<open>ReleaseBuffer\<close> takes the spin lock when this backend's last pin goes.\<close>

definition last_pin :: "bufs \<Rightarrow> int \<Rightarrow> bool" where
  "last_pin s buffer \<longleftrightarrow> \<not> BufferIsLocal buffer \<and> \<not> BAD_BUFFER_ID (bp s) buffer \<and>
     ref_get (PrivateRefCount (be s)) (buffer - 1) = Some 1 \<and> ref_get (LastRefCount (be s)) (buffer - 1) = Some 0"

definition release :: "bufs \<Rightarrow> int \<Rightarrow> (bufs \<times> int) option" where
  "release s buffer = do {
     _ \<leftarrow> (if last_pin s buffer then SpinAcquire s else Some s);
     (p, me, st) \<leftarrow> ReleaseBuffer (bp s) (be s) buffer;
     Some (s\<lparr>bp := p, be := me\<rparr>, st)
   }"

definition WaitIO :: "bufs \<Rightarrow> int \<Rightarrow> bufs option" where
  "WaitIO s b = do {
     s \<leftarrow> Some (SpinRelease s);
     s \<leftarrow> S_LOCK s b;
     s \<leftarrow> Some (S_UNLOCK s b);
     SpinAcquire s
   }"

subsection \<open>Finding a buffer\<close>

text \<open>The result is true unless the storage manager fails.\<close>

definition BufferReplace :: "bufs \<Rightarrow> int \<Rightarrow> bool \<Rightarrow> (bufs \<times> bool) option" where
  "BufferReplace s bufHdr bufferLockHeld = do {
     s \<leftarrow> (if bufferLockHeld then Some s else SpinAcquire s);
     d \<leftarrow> desc_at (bp s) bufHdr;
     (s, reln) \<leftarrow> (if dbId (tag d) = MyDatabaseId s \<or> dbId (tag d) = 0 then do {
                    (s, r) \<leftarrow> RelationIdCacheGetRelation s d;
                    Some (s, Some r)
                  } else Some (s, None));
     s \<leftarrow> upd_desc s bufHdr (clear_flag BM_JUST_DIRTIED);
     s \<leftarrow> Some (SpinRelease s);
     page \<leftarrow> blocks s (data d);
     (m, status) \<leftarrow> (case reln of
         Some r \<Rightarrow> do { (m, _, st) \<leftarrow> smgrflush (sint (bufsmgr d)) (sm s) r (blockNum (tag d)) page; Some (m, st) }
       | None \<Rightarrow> smgrblindwrt (sint (bufsmgr d)) (sm s) (sb_dbname d) (sb_relname d) (dbId (tag d)) (blockNum (tag d)) page);
     Some (s\<lparr>sm := m\<rparr>, status \<noteq> SM_FAIL)
   }"

text \<open>A buffer found under its tag is pinned; the result says that its contents are valid. \<open>BufferAlloc\<close> does this in two places.\<close>

definition take_found :: "bufs \<Rightarrow> int \<Rightarrow> (bufs \<times> bool) option" where
  "take_found s buf = do {
     s \<leftarrow> pin s buf;
     d \<leftarrow> desc_at (bp s) buf;
     (s, found) \<leftarrow> (if has_flag BM_IO_IN_PROGRESS d then do {
                     s \<leftarrow> WaitIO s buf;
                     d \<leftarrow> desc_at (bp s) buf;
                     Some (s, \<not> has_flag BM_IO_ERROR d)
                   } else Some (s, True));
     Some (SpinRelease s, found)
   }"

text \<open>
  The loop that looks for a buffer to use, in pieces: the claim of a free buffer; a dirty one is written out, the result being
  whether the buffer is still claimed; and giving it up when the block turned up meanwhile.
\<close>

definition claim :: "bufs \<Rightarrow> (bufs \<times> int option) option" where
  "claim s = do { (p, me, r) \<leftarrow> claim_buffer (bp s) (be s); Some (s\<lparr>bp := p, be := me\<rparr>, r) }"

definition write_failed :: "bufs \<Rightarrow> int \<Rightarrow> bufs option" where
  "write_failed s buf = do {
     s \<leftarrow> upd_desc s buf (set_flag BM_IO_ERROR);
     s \<leftarrow> upd_desc s buf (clear_flag BM_IO_IN_PROGRESS);
     s \<leftarrow> Some (S_UNLOCK s buf);
     d \<leftarrow> desc_at (bp s) buf;
     s \<leftarrow> set_private s (BufferDescriptorGetBuffer d - 1) 0;
     p \<leftarrow> drop_shared (bp s) buf;
     Some (s\<lparr>bp := p\<rparr>)
   }"

definition pinned_by_others :: "bufs \<Rightarrow> int \<Rightarrow> (bufs \<times> bool) option" where
  "pinned_by_others s buf = do {
     d \<leftarrow> desc_at (bp s) buf;
     if refcount d > 1 then do {
       s \<leftarrow> upd_desc s buf (clear_flag BM_IO_IN_PROGRESS);
       s \<leftarrow> Some (S_UNLOCK s buf);
       s \<leftarrow> set_private s (BufferDescriptorGetBuffer d - 1) 0;
       s \<leftarrow> upd_desc s buf (\<lambda>x. x\<lparr>refcount := refcount x - 1\<rparr>);
       Some (s, False)
     } else Some (s, True)
   }"

definition write_victim :: "bufs \<Rightarrow> int \<Rightarrow> (bufs \<times> bool) option" where
  "write_victim s buf = do {
     s \<leftarrow> upd_desc s buf (set_flag BM_IO_IN_PROGRESS);
     s \<leftarrow> S_LOCK s buf;
     (s, smok) \<leftarrow> BufferReplace s buf True;
     s \<leftarrow> SpinAcquire s;
     if \<not> smok then do { s \<leftarrow> write_failed s buf; Some (s, False) }
     else do {
       s \<leftarrow> Some (s\<lparr>BufferFlushCount := BufferFlushCount s + 1\<rparr>);
       d \<leftarrow> desc_at (bp s) buf;
       if has_flag BM_JUST_DIRTIED d then None
       else do {
         s \<leftarrow> upd_desc s buf (clear_flag BM_DIRTY);
         pinned_by_others s buf
       }
     }
   }"

definition give_up :: "bufs \<Rightarrow> int \<Rightarrow> bufs option" where
  "give_up s buf = do {
     s \<leftarrow> Some (S_UNLOCK s buf);
     s \<leftarrow> upd_desc s buf (\<lambda>x. x\<lparr>refcount := refcount x - 1\<rparr>);
     d \<leftarrow> desc_at (bp s) buf;
     s \<leftarrow> set_private s (BufferDescriptorGetBuffer d - 1) 0;
     p \<leftarrow> AddBufferToFreelist (bp s) buf;
     s \<leftarrow> Some (s\<lparr>bp := p\<rparr>);
     s \<leftarrow> upd_desc s buf (set_flag BM_FREE);
     upd_desc s buf (clear_flag BM_IO_IN_PROGRESS)
   }"

datatype alloc = No_buffer | Claimed int bool | Already int bool

partial_function (option) alloc_loop :: "bufs \<Rightarrow> BufferTag \<Rightarrow> (bufs \<times> alloc) option" where
  "alloc_loop s newTag = do {
     (s, r) \<leftarrow> claim s;
     case r of
       None \<Rightarrow> Some (s, No_buffer)
     | Some buf \<Rightarrow> do {
         d \<leftarrow> desc_at (bp s) buf;
         if \<not> has_flag BM_DIRTY d then Some (s, Claimed buf False)
         else do {
           (s, kept) \<leftarrow> write_victim s buf;
           r2 \<leftarrow> BufTableLookup (SharedBufHash s) newTag;
           case r2 of
             Some buf2 \<Rightarrow> do {
               s \<leftarrow> (if kept then give_up s buf else Some s);
               (s, found) \<leftarrow> take_found s buf2;
               Some (s, Already buf2 found)
             }
           | None \<Rightarrow> if kept then Some (s, Claimed buf True) else alloc_loop s newTag
         }
       }
   }"

declare alloc_loop.simps [code]

text \<open>
  The claimed buffer gets its new name. \<open>sb_dbname\<close> has room for \<open>NAMEDATALEN + 1\<close> characters;
  a longer database name runs over.
\<close>

definition rename_buffer :: "bufs \<Rightarrow> RelationData \<Rightarrow> int \<Rightarrow> uint32 \<Rightarrow> bool \<Rightarrow> (bufs \<times> RelationData) option" where
  "rename_buffer s reln buf blockNo inProgress = do {
     (p, h, ok) \<leftarrow> BufTableDelete (bp s) (SharedBufHash s) buf;
     s \<leftarrow> Some (s\<lparr>bp := p, SharedBufHash := h\<rparr>);
     if \<not> ok then None
     else do {
       nm \<leftarrow> cstr (relname reln);
       s \<leftarrow> upd_desc s buf (\<lambda>x. x\<lparr>sb_relname := nm\<rparr>);
       db \<leftarrow> Some (DatabaseName (vfs (sm s)));
       s \<leftarrow> (if length db \<le> NAMEDATALEN then upd_desc s buf (\<lambda>x. x\<lparr>sb_dbname := db\<rparr>) else None);
       s \<leftarrow> upd_desc s buf (\<lambda>x. x\<lparr>bufsmgr := word_of_int (relsmgr reln)\<rparr>);
       (reln, t) \<leftarrow> INIT_BUFFERTAG (MyDatabaseId s) reln blockNo;
       s \<leftarrow> upd_desc s buf (\<lambda>x. x\<lparr>tag := t\<rparr>);
       (p, h, ok) \<leftarrow> BufTableInsert (bp s) (SharedBufHash s) buf;
       s \<leftarrow> Some (s\<lparr>bp := p, SharedBufHash := h\<rparr>);
       if \<not> ok then None
       else do {
         s \<leftarrow> (if inProgress then Some s else do {
                 s \<leftarrow> upd_desc s buf (set_flag BM_IO_IN_PROGRESS);
                 S_LOCK s buf
               });
         Some (SpinRelease s, reln)
       }
     }
   }"

text \<open>The result is the index of the descriptor, or \<open>None\<close> inside for the null pointer, and \<open>foundPtr\<close>.\<close>

definition BufferAlloc :: "bufs \<Rightarrow> RelationData \<Rightarrow> uint32 \<Rightarrow> bool \<Rightarrow> (bufs \<times> RelationData \<times> int option \<times> bool) option" where
  "BufferAlloc s reln blockNo bufferLockHeld = do {
     (s, blockNo) \<leftarrow> (if blockNo = P_NEW then do {
                       (m, n) \<leftarrow> smgrnblocks (relsmgr reln) (sm s) reln;
                       Some (s\<lparr>sm := m\<rparr>, word_of_int n)
                     } else Some (s, blockNo));
     (reln, newTag) \<leftarrow> INIT_BUFFERTAG (MyDatabaseId s) reln blockNo;
     s \<leftarrow> (if bufferLockHeld then Some s else SpinAcquire s);
     r \<leftarrow> BufTableLookup (SharedBufHash s) newTag;
     case r of
       Some buf \<Rightarrow> do { (s, found) \<leftarrow> take_found s buf; Some (s, reln, Some buf, found) }
     | None \<Rightarrow> do {
         (s, a) \<leftarrow> alloc_loop s newTag;
         case a of
           No_buffer \<Rightarrow> Some (s, reln, None, False)
         | Already buf found \<Rightarrow> Some (s, reln, Some buf, found)
         | Claimed buf inProgress \<Rightarrow> do {
             (s, reln) \<leftarrow> rename_buffer s reln buf blockNo inProgress;
             Some (s, reln, Some buf, False)
           }
       }
   }"

subsection \<open>Reading\<close>

definition InvalidBuffer :: int where "InvalidBuffer = 0"

text \<open>The block goes into the memory of the buffer, filled with zeros when it is new.\<close>

definition fill_buffer :: "bufs \<Rightarrow> RelationData \<Rightarrow> BufferDesc \<Rightarrow> uint32 \<Rightarrow> (bufs \<times> RelationData \<times> int) option" where
  "fill_buffer s reln d blockNo = do {
     page \<leftarrow> blocks s (data d);
     if blockNo = P_NEW then do {
       (m, reln, st) \<leftarrow> smgrextend (sint (bufsmgr d)) (sm s) reln zero_block;
       Some (s\<lparr>blocks := (blocks s)(data d \<mapsto> zero_block), sm := m\<rparr>, reln, st)
     } else do {
       (m, reln, st, page) \<leftarrow> smgrread (sint (bufsmgr d)) (sm s) reln blockNo page;
       Some (s\<lparr>blocks := (blocks s)(data d \<mapsto> page), sm := m\<rparr>, reln, st)
     }
   }"

definition read_local :: "bufs \<Rightarrow> RelationData \<Rightarrow> uint32 \<Rightarrow> (bufs \<times> RelationData \<times> int) option" where
  "read_local s reln blockNo = do {
     (s, reln, i, found) \<leftarrow> LocalBufferAlloc s reln blockNo;
     d \<leftarrow> arr_get (LocalBufferDescriptors (be s)) i;
     (s, reln, _) \<leftarrow> (if found \<and> blockNo \<noteq> P_NEW then Some (s, reln, SM_SUCCESS) else fill_buffer s reln d blockNo);
     Some (s, reln, BufferDescriptorGetBuffer d)
   }"

text \<open>What follows the input into a shared buffer: the flags, or the removal of the buffer from the table when it failed.\<close>

definition finish_read :: "bufs \<Rightarrow> int \<Rightarrow> int \<Rightarrow> (bufs \<times> int) option" where
  "finish_read s bufHdr status = do {
     s \<leftarrow> SpinAcquire s;
     s \<leftarrow> (if status = SM_FAIL then do {
             (p, h, ok) \<leftarrow> BufTableDelete (bp s) (SharedBufHash s) bufHdr;
             s \<leftarrow> Some (s\<lparr>bp := p, SharedBufHash := h\<rparr>);
             if \<not> ok then None
             else do {
               s \<leftarrow> unpin s bufHdr;
               s \<leftarrow> upd_desc s bufHdr (set_flag BM_IO_ERROR);
               upd_desc s bufHdr (clear_flag BM_IO_IN_PROGRESS)
             }
           } else upd_desc s bufHdr (clear_flag (BM_IO_ERROR OR BM_IO_IN_PROGRESS)));
     s \<leftarrow> Some (SpinRelease (S_UNLOCK s bufHdr));
     d \<leftarrow> desc_at (bp s) bufHdr;
     Some (s, if status = SM_FAIL then InvalidBuffer else BufferDescriptorGetBuffer d)
   }"

definition read_shared :: "bufs \<Rightarrow> RelationData \<Rightarrow> uint32 \<Rightarrow> bool \<Rightarrow> (bufs \<times> RelationData \<times> int) option" where
  "read_shared s reln blockNo bufferLockHeld = do {
     (s, reln, r, found) \<leftarrow> BufferAlloc s reln blockNo bufferLockHeld;
     s \<leftarrow> Some (if found then s\<lparr>BufferHitCount := BufferHitCount s + 1\<rparr> else s);
     case r of
       None \<Rightarrow> Some (s, reln, InvalidBuffer)
     | Some bufHdr \<Rightarrow> do {
         d \<leftarrow> desc_at (bp s) bufHdr;
         if found then do {
           (s, reln, _) \<leftarrow> (if blockNo = P_NEW then fill_buffer s reln d blockNo else Some (s, reln, SM_SUCCESS));
           Some (s, reln, BufferDescriptorGetBuffer d)
         } else do {
           (s, reln, status) \<leftarrow> fill_buffer s reln d blockNo;
           (s, buffer) \<leftarrow> finish_read s bufHdr status;
           Some (s, reln, buffer)
         }
       }
   }"

definition ReadBufferWithBufferLock :: "bufs \<Rightarrow> RelationData \<Rightarrow> uint32 \<Rightarrow> bool \<Rightarrow> (bufs \<times> RelationData \<times> int) option" where
  "ReadBufferWithBufferLock s reln blockNo bufferLockHeld = do {
     s \<leftarrow> Some (s\<lparr>ReadBufferCount := ReadBufferCount s + 1\<rparr>);
     if rd_islocal reln then read_local s reln blockNo else read_shared s reln blockNo bufferLockHeld
   }"

definition ReadBuffer :: "bufs \<Rightarrow> RelationData \<Rightarrow> uint32 \<Rightarrow> (bufs \<times> RelationData \<times> int) option" where
  "ReadBuffer s reln blockNo = ReadBufferWithBufferLock s reln blockNo False"

subsection \<open>Writing\<close>

definition FlushBuffer :: "bufs \<Rightarrow> int \<Rightarrow> bool \<Rightarrow> (bufs \<times> int) option" where
  "FlushBuffer s buffer releas =
     (if BufferIsLocal buffer then FlushLocalBuffer s buffer releas
      else if BAD_BUFFER_ID (bp s) buffer then Some (s, STATUS_ERROR)
      else do {
        d \<leftarrow> desc_at (bp s) (buffer - 1);
        if dbId (tag d) \<noteq> MyDatabaseId s \<and> dbId (tag d) \<noteq> 0 then None
        else do {
          (s, bufrel) \<leftarrow> RelationIdCacheGetRelation s d;
          s \<leftarrow> SpinAcquire s;
          s \<leftarrow> upd_desc s (buffer - 1) (clear_flag BM_JUST_DIRTIED);
          s \<leftarrow> Some (SpinRelease s);
          page \<leftarrow> blocks s (data d);
          (m, _, status) \<leftarrow> smgrflush (sint (bufsmgr d)) (sm s) bufrel (blockNum (tag d)) page;
          s \<leftarrow> Some (s\<lparr>sm := m\<rparr>);
          if status = SM_FAIL then Some (s, STATUS_ERROR)
          else do {
            s \<leftarrow> SpinAcquire s;
            d \<leftarrow> desc_at (bp s) (buffer - 1);
            s \<leftarrow> (if has_flag BM_JUST_DIRTIED d then Some s else upd_desc s (buffer - 1) (clear_flag BM_DIRTY));
            s \<leftarrow> (if releas then unpin s (buffer - 1) else Some s);
            Some (SpinRelease s, STATUS_OK)
          }
        }
      })"

text \<open>The result of \<open>WriteBuffer\<close> is that of \<open>FlushBuffer\<close> in one mode and a truth value in the other.\<close>

definition WriteBuffer :: "bufs \<Rightarrow> int \<Rightarrow> (bufs \<times> int) option" where
  "WriteBuffer s buffer =
     (if WriteMode s = BUFFER_FLUSH_WRITE then FlushBuffer s buffer True
      else if BufferIsLocal buffer then WriteLocalBuffer s buffer True
      else if BAD_BUFFER_ID (bp s) buffer then Some (s, 0)
      else do {
        s \<leftarrow> SpinAcquire s;
        d \<leftarrow> desc_at (bp s) (buffer - 1);
        if refcount d = 0 then None
        else do {
          s \<leftarrow> upd_desc s (buffer - 1) (set_flag (BM_DIRTY OR BM_JUST_DIRTIED));
          s \<leftarrow> unpin s (buffer - 1);
          Some (SpinRelease s, 1)
        }
      })"

definition WriteNoReleaseBuffer :: "bufs \<Rightarrow> int \<Rightarrow> (bufs \<times> int) option" where
  "WriteNoReleaseBuffer s buffer =
     (if WriteMode s = BUFFER_FLUSH_WRITE then FlushBuffer s buffer False
      else if BufferIsLocal buffer then WriteLocalBuffer s buffer False
      else if BAD_BUFFER_ID (bp s) buffer then Some (s, STATUS_ERROR)
      else do {
        s \<leftarrow> SpinAcquire s;
        s \<leftarrow> upd_desc s (buffer - 1) (set_flag (BM_DIRTY OR BM_JUST_DIRTIED));
        Some (SpinRelease s, STATUS_OK)
      })"

definition SetBufferWriteMode :: "bufs \<Rightarrow> int \<Rightarrow> bufs \<times> int" where
  "SetBufferWriteMode s mode = (s\<lparr>WriteMode := mode\<rparr>, WriteMode s)"

text \<open>The block is copied out and its buffer marked clean; the result is what \<open>dest\<close> receives.\<close>

definition DirtyBufferCopy :: "bufs \<Rightarrow> uint32 \<Rightarrow> uint32 \<Rightarrow> uint32 \<Rightarrow> (bufs \<times> byte list option) option" where
  "DirtyBufferCopy s dbid relid blkno = do {
     s \<leftarrow> SpinAcquire s;
     r \<leftarrow> BufTableLookup (SharedBufHash s) \<lparr>dbId = dbid, relId = relid, blockNum = blkno\<rparr>;
     case r of
       None \<Rightarrow> Some (SpinRelease s, None)
     | Some buf \<Rightarrow> do {
         d \<leftarrow> desc_at (bp s) buf;
         if \<not> has_flag BM_DIRTY d \<or> \<not> has_flag BM_VALID d then Some (SpinRelease s, None)
         else do {
           page \<leftarrow> blocks s (data d);
           s \<leftarrow> upd_desc s buf (clear_flag BM_DIRTY);
           Some (SpinRelease s, Some page)
         }
       }
   }"

subsection \<open>Combinations\<close>

definition ReleaseAndReadBuffer :: "bufs \<Rightarrow> int \<Rightarrow> RelationData \<Rightarrow> uint32 \<Rightarrow> (bufs \<times> RelationData \<times> int) option" where
  "ReleaseAndReadBuffer s buffer relation blockNo =
     (if BufferIsLocal buffer then do {
        c \<leftarrow> ref_get (LocalRefCount (be s)) (- buffer - 1);
        if c \<le> 0 then None
        else do {
          s \<leftarrow> local_count s (nat (- buffer - 1)) (\<lambda>c. c - 1);
          ReadBuffer s relation blockNo
        }
      } else do {
        v \<leftarrow> BufferIsValid (bp s) (be s) buffer;
        if \<not> v then ReadBuffer s relation blockNo
        else do {
          c \<leftarrow> ref_get (PrivateRefCount (be s)) (buffer - 1);
          if c \<le> 0 then None
          else do {
            s \<leftarrow> set_private s (buffer - 1) (c - 1);
            l \<leftarrow> ref_get (LastRefCount (be s)) (buffer - 1);
            if c - 1 = 0 \<and> l = 0 then do {
              s \<leftarrow> SpinAcquire s;
              p \<leftarrow> drop_shared (bp s) (buffer - 1);
              ReadBufferWithBufferLock (s\<lparr>bp := p\<rparr>) relation blockNo True
            } else ReadBuffer s relation blockNo
          }
        }
      })"

definition RelationGetBufferWithBuffer :: "bufs \<Rightarrow> RelationData \<Rightarrow> uint32 \<Rightarrow> int \<Rightarrow> (bufs \<times> RelationData \<times> int) option" where
  "RelationGetBufferWithBuffer s relation blockNo buffer = do {
     v \<leftarrow> BufferIsValid (bp s) (be s) buffer;
     if \<not> v then ReadBuffer s relation blockNo
     else if \<not> BufferIsLocal buffer then do {
       d \<leftarrow> desc_at (bp s) (buffer - 1);
       (relation, db, rel) \<leftarrow> RelationGetLRelId (MyDatabaseId s) relation;
       s \<leftarrow> SpinAcquire s;
       if blockNum (tag d) = blockNo \<and> relId (tag d) = rel \<and> dbId (tag d) = db then Some (SpinRelease s, relation, buffer)
       else ReadBufferWithBufferLock s relation blockNo True
     } else do {
       d \<leftarrow> arr_get (LocalBufferDescriptors (be s)) (nat (- buffer - 1));
       if relId (tag d) = rd_id relation \<and> blockNum (tag d) = blockNo then Some (s, relation, buffer)
       else ReadBuffer s relation blockNo
     }
   }"

definition RelationGetNumberOfBlocks :: "bufs \<Rightarrow> RelationData \<Rightarrow> (bufs \<times> uint32) option" where
  "RelationGetNumberOfBlocks s relation =
     (if rd_islocal relation then Some (s, word_of_int (rd_nblocks relation))
      else do {
        (m, n) \<leftarrow> smgrnblocks (relsmgr relation) (sm s) relation;
        Some (s\<lparr>sm := m\<rparr>, word_of_int n)
      })"

text \<open>The block is returned as its offset.\<close>

definition BufferGetBlock :: "bufs \<Rightarrow> int \<Rightarrow> 64 word option" where
  "BufferGetBlock s buffer = do {
     v \<leftarrow> BufferIsValid (bp s) (be s) buffer;
     if \<not> v then None
     else if BufferIsLocal buffer then map_option data (arr_get (LocalBufferDescriptors (be s)) (nat (- buffer - 1)))
     else map_option data (desc_at (bp s) (buffer - 1))
   }"

subsection \<open>The whole pool\<close>

text \<open>
  The loop of \<open>BufferSync\<close>; the second result says that the routine returned from inside it. \<open>RelationIdCacheGetRelation\<close> never
  returns null, so the blind write is not reached.
\<close>

fun sync_loop :: "nat list \<Rightarrow> bufs \<Rightarrow> (bufs \<times> bool) option" where
  "sync_loop [] s = Some (s, False)"
| "sync_loop (i # is) s = do {
     d \<leftarrow> desc_at (bp s) (int i);
     if has_flag BM_VALID d \<and> has_flag BM_DIRTY d \<and> (dbId (tag d) = MyDatabaseId s \<or> dbId (tag d) = 0) then do {
       (s, reln) \<leftarrow> RelationIdCacheGetRelation s d;
       s \<leftarrow> pin s (int i);
       d \<leftarrow> desc_at (bp s) (int i);
       if has_flag BM_IO_IN_PROGRESS d then do {
         s \<leftarrow> WaitIO s (int i);
         s \<leftarrow> unpin s (int i);
         sync_loop is s
       } else do {
         s \<leftarrow> upd_desc s (int i) (clear_flag BM_JUST_DIRTIED);
         s \<leftarrow> Some (SpinRelease s);
         page \<leftarrow> blocks s (data d);
         (m, _, _) \<leftarrow> smgrwrite (sint (bufsmgr d)) (sm s) reln (blockNum (tag d)) page;
         Some (s\<lparr>sm := m\<rparr>, True)
       }
     } else sync_loop is s
   }"

definition BufferSync :: "bufs \<Rightarrow> bufs option" where
  "BufferSync s = do {
     s \<leftarrow> SpinAcquire s;
     (s, returned) \<leftarrow> sync_loop [0..<NBuffers (bp s)] s;
     if returned then Some s else LocalBufferSync (SpinRelease s)
   }"

definition FlushBufferPool :: "bufs \<Rightarrow> bool \<Rightarrow> bufs option" where
  "FlushBufferPool s StableMainMemoryFlag =
     (if \<not> StableMainMemoryFlag then do {
        s \<leftarrow> BufferSync s;
        (m, _) \<leftarrow> smgrcommit (sm s);
        Some (s\<lparr>sm := m\<rparr>)
      } else Some s)"

fun any_valid :: "nat list \<Rightarrow> bufs \<Rightarrow> bool option" where
  "any_valid [] s = Some False"
| "any_valid (i # is) s = do {
     v \<leftarrow> BufferIsValid (bp s) (be s) (int i);
     e \<leftarrow> any_valid is s;
     Some (v \<or> e)
   }"

definition BufferPoolCheckLeak :: "bufs \<Rightarrow> int option" where
  "BufferPoolCheckLeak s = map_option (\<lambda>e. if e then 1 else 0) (any_valid [1..<NBuffers (bp s) + 1] s)"

definition forget_local :: "RelationData \<Rightarrow> nat \<Rightarrow> bufs \<Rightarrow> bufs option" where
  "forget_local rdesc i s = do {
     buf \<leftarrow> arr_get (LocalBufferDescriptors (be s)) i;
     if has_flag BM_DIRTY buf \<and> relId (tag buf) = rd_id rdesc then local_upd s i (clear_flag BM_DIRTY) else Some s
   }"

definition forget_shared :: "RelationData \<Rightarrow> nat \<Rightarrow> bufs \<times> bool \<Rightarrow> (bufs \<times> bool) option" where
  "forget_shared rdesc i = (\<lambda>(s, holding). do {
     s \<leftarrow> (if holding then Some s else SpinAcquire s);
     buf \<leftarrow> desc_at (bp s) (int i - 1);
     if has_flag BM_DIRTY buf \<and> dbId (tag buf) = MyDatabaseId s \<and> relId (tag buf) = rd_id rdesc then do {
       s \<leftarrow> upd_desc s (int i - 1) (clear_flag BM_DIRTY);
       if \<not> has_flag BM_FREE buf then do {
         (s, _) \<leftarrow> release (SpinRelease s) (int i);
         Some (s, False)
       } else Some (s, True)
     } else Some (s, True)
   })"

definition ReleaseRelationBuffers :: "bufs \<Rightarrow> RelationData \<Rightarrow> bufs option" where
  "ReleaseRelationBuffers s rdesc =
     (if rd_islocal rdesc then for_loop 0 (NLocBuffer (be s)) (forget_local rdesc) s
      else do {
        (s, holding) \<leftarrow> for_loop 1 (NBuffers (bp s) + 1) (forget_shared rdesc) (s, False);
        Some (if holding then SpinRelease s else s)
      })"

definition drop_one :: "uint32 \<Rightarrow> nat \<Rightarrow> bufs \<Rightarrow> bufs option" where
  "drop_one dbid i s = do {
     buf \<leftarrow> desc_at (bp s) (int i - 1);
     if dbId (tag buf) = dbid \<and> has_flag BM_DIRTY buf then upd_desc s (int i - 1) (clear_flag BM_DIRTY) else Some s
   }"

definition DropBuffers :: "bufs \<Rightarrow> uint32 \<Rightarrow> bufs option" where
  "DropBuffers s dbid = do {
     s \<leftarrow> SpinAcquire s;
     s \<leftarrow> for_loop 1 (NBuffers (bp s) + 1) (drop_one dbid) s;
     Some (SpinRelease s)
   }"

text \<open>\<open>while (BufferIsValid(i)) ReleaseBuffer(i);\<close>\<close>

partial_function (option) release_valid :: "bufs \<Rightarrow> int \<Rightarrow> bufs option" where
  "release_valid s i = do {
     v \<leftarrow> BufferIsValid (bp s) (be s) i;
     if v then do { (s, _) \<leftarrow> release s i; release_valid s i } else Some s
   }"

declare release_valid.simps [code]

definition blow_one :: "nat \<Rightarrow> bufs \<Rightarrow> bufs option" where
  "blow_one i s = do {
     s \<leftarrow> release_valid s (int i);
     (p, h, _) \<leftarrow> BufTableDelete (bp s) (SharedBufHash s) (int i - 1);
     Some (s\<lparr>bp := p, SharedBufHash := h\<rparr>)
   }"

definition BufferPoolBlowaway :: "bufs \<Rightarrow> bufs option" where
  "BufferPoolBlowaway s = do {
     s \<leftarrow> BufferSync s;
     for_loop 1 (NBuffers (bp s) + 1) blow_one s
   }"

end
