(* ===== verification/BufFrame.thy ===== *)
theory BufFrame
  imports BufMgr
begin

text \<open>
  What pinning, releasing and claiming buffers leave alone: the descriptors but for the links of the free list, the
  reference count and \<open>BM_FREE\<close>; and what the lookup table's operations leave alone of its memory.
\<close>

definition content :: "BufferDesc \<Rightarrow> BufferDesc" where
  "content d = (core d)\<lparr>refcount := 0\<rparr>"

definition frame :: "pool \<Rightarrow> nat \<times> BufferDesc list" where
  "frame s = (NBuffers s, map content (BufferDescriptors s))"

lemma content_simps [simp]:
  "content (d\<lparr>freeNext := v\<rparr>) = content d" "content (d\<lparr>freePrev := v\<rparr>) = content d" "content (d\<lparr>refcount := c\<rparr>) = content d"
  "content (set_flag BM_FREE d) = content d" "content (clear_flag BM_FREE d) = content d"
  by (simp_all add: content_def)

lemma desc_upd_frame: "desc_upd s k f = Some s' \<Longrightarrow> (\<And>x. content (f x) = content x) \<Longrightarrow> frame s' = frame s"
  by (auto simp: desc_upd_def put_desc_def frame_def desc_ok_def map_update list_update_same_conv split: if_splits)

lemma remove_desc_frame: "remove_desc s b = Some s' \<Longrightarrow> frame s' = frame s"
  by (auto simp: remove_desc_def bind_eq_Some_conv dest!: desc_upd_frame)

lemma add_desc_frame: "AddBufferToFreelist s b = Some s' \<Longrightarrow> frame s' = frame s"
  by (auto simp: AddBufferToFreelist_def bind_eq_Some_conv split: if_splits dest!: desc_upd_frame)

lemma drop_shared_frame: "drop_shared s b = Some s' \<Longrightarrow> frame s' = frame s"
proof -
  assume "drop_shared s b = Some s'"
  then obtain s1 where s1: "desc_upd s b (\<lambda>x. x\<lparr>refcount := refcount x - 1\<rparr>) = Some s1"
    and r: "s' = s1 \<or> (\<exists>s2. AddBufferToFreelist s1 b = Some s2 \<and> desc_upd s2 b (set_flag BM_FREE) = Some s')"
    by (auto simp: drop_shared_def bind_eq_Some_conv split: if_splits)
  have "frame s1 = frame s" by (rule desc_upd_frame [OF s1]) simp
  moreover have "frame s' = frame s1" using r by (metis add_desc_frame desc_upd_frame content_simps(4))
  ultimately show ?thesis by simp
qed

lemma pin_frame: "PinBuffer s me b = Some (s', me') \<Longrightarrow> frame s' = frame s"
  by (auto simp: PinBuffer_def bind_eq_Some_conv split: if_splits dest!: desc_upd_frame remove_desc_frame)

lemma release_frame: "ReleaseBuffer s me b = Some (s', me', r) \<Longrightarrow> frame s' = frame s"
  by (auto simp: ReleaseBuffer_def bind_eq_Some_conv split: if_splits dest!: drop_shared_frame)

lemma claim_frame: "claim_buffer s me = Some (s', me', r) \<Longrightarrow> frame s' = frame s"
  by (auto simp: claim_buffer_def GetFreeBuffer_def bind_eq_Some_conv split: if_splits option.splits dest!: desc_upd_frame remove_desc_frame)

subsection \<open>What the frame determines\<close>

lemma frame_size: "frame s' = frame s \<Longrightarrow> NBuffers s' = NBuffers s \<and> (\<forall>b. desc_ok s' b = desc_ok s b)"
  by (auto simp: frame_def desc_ok_def dest!: map_eq_imp_length_eq)

lemma frame_content: "frame s' = frame s \<Longrightarrow> desc_ok s b \<Longrightarrow> content (D s' b) = content (D s b)"
  by (auto simp: frame_def D_def desc_ok_def list_eq_iff_nth_eq)

lemma content_sel [simp]:
  "tag (content d) = tag d" "data (content d) = data d" "buf_id (content d) = buf_id d" "bufsmgr (content d) = bufsmgr d"
  "sb_relname (content d) = sb_relname d" "sb_dbname (content d) = sb_dbname d" "flags (content d) = flags d AND NOT BM_FREE"
  by (simp_all add: content_def core_def)

definition other_flag :: "uint16 \<Rightarrow> bool" where
  "other_flag m \<longleftrightarrow> m AND BM_FREE = 0"

lemma other_flags [simp]: "other_flag BM_DIRTY" "other_flag BM_DELETED" "other_flag BM_VALID" "other_flag BM_IO_IN_PROGRESS" "other_flag BM_IO_ERROR" "other_flag BM_JUST_DIRTIED"
  by (simp_all add: other_flag_def BM_DIRTY_def BM_DELETED_def BM_VALID_def BM_IO_IN_PROGRESS_def BM_IO_ERROR_def BM_JUST_DIRTIED_def BM_FREE_def)

lemma and_zero_bits: "(a :: uint16) AND b = 0 \<Longrightarrow> \<not> (bit a i \<and> bit b i)"
  by (metis bit_and_iff bit_0_eq bot_fun_def bot_bool_def)

lemma has_flag_content: "other_flag m \<Longrightarrow> has_flag m (content d) = has_flag m d"
proof -
  assume "other_flag m"
  then have "(flags d AND NOT BM_FREE) AND m = flags d AND m" using and_zero_bits [of m BM_FREE] by (auto simp: other_flag_def bit_eq_iff bit_simps)
  then show ?thesis by (simp add: has_flag_def)
qed

lemma content_eqD:
  assumes "content d = content d'"
  shows "tag d = tag d'" "data d = data d'" "buf_id d = buf_id d'" "bufsmgr d = bufsmgr d'" "sb_relname d = sb_relname d'" "other_flag m \<Longrightarrow> has_flag m d = has_flag m d'"
  using assms content_sel has_flag_content by metis+

text \<open>Setting and clearing flags, one bit against another.\<close>

definition apart :: "uint16 \<Rightarrow> uint16 \<Rightarrow> bool" where
  "apart m n \<longleftrightarrow> m AND n = 0"

lemma apart_or: "apart x (m OR n) \<longleftrightarrow> apart x m \<and> apart x n"
  by (auto simp: apart_def bit_eq_iff bit_simps)

lemma flag_other:
  assumes "apart m n"
  shows "has_flag m (set_flag n d) = has_flag m d" and "has_flag m (clear_flag n d) = has_flag m d"
proof -
  have "(flags d OR n) AND m = flags d AND m" "(flags d AND NOT n) AND m = flags d AND m"
    using assms and_zero_bits [of m n] by (auto simp: apart_def bit_eq_iff bit_simps)
  then show "has_flag m (set_flag n d) = has_flag m d" "has_flag m (clear_flag n d) = has_flag m d" by (simp_all add: has_flag_def set_flag_def clear_flag_def)
qed

lemma flag_same: "m \<noteq> 0 \<Longrightarrow> has_flag m (set_flag m d)" "\<not> has_flag m (clear_flag m d)"
proof -
  have "(flags d OR m) AND m = m" "(flags d AND NOT m) AND m = 0" by (auto simp: bit_eq_iff bit_simps)
  then show "m \<noteq> 0 \<Longrightarrow> has_flag m (set_flag m d)" "\<not> has_flag m (clear_flag m d)" by (simp_all add: has_flag_def set_flag_def clear_flag_def)
qed

lemmas flag_values = BM_DIRTY_def BM_DELETED_def BM_VALID_def BM_IO_IN_PROGRESS_def BM_IO_ERROR_def BM_JUST_DIRTIED_def BM_FREE_def

lemma flag_sel [simp]:
  "data (set_flag m d) = data d" "bufsmgr (set_flag m d) = bufsmgr d" "sb_relname (set_flag m d) = sb_relname d"
  "data (clear_flag m d) = data d" "bufsmgr (clear_flag m d) = bufsmgr d" "sb_relname (clear_flag m d) = sb_relname d"
  by (simp_all add: set_flag_def clear_flag_def)

lemma NotInQueue_flag: "apart BM_FREE m \<Longrightarrow> NotInQueue (set_flag m d) = NotInQueue d" "apart BM_FREE m \<Longrightarrow> NotInQueue (clear_flag m d) = NotInQueue d"
  by (simp_all add: NotInQueue_def flag_other)

subsection \<open>The table keeps room for an element\<close>

lemma drop_has_element: "hash_drop h k = Some (h', found) \<Longrightarrow> has_element h \<Longrightarrow> has_element h'"
  by (auto simp: hash_drop_def hash_search_def hash_remove_def has_element_def bind_eq_Some_conv split: if_splits)

lemma delete_has_element: "BufTableDelete s h b = Some (s', h', ok) \<Longrightarrow> has_element h \<Longrightarrow> has_element h'"
  using drop_has_element [of h "tag (D s b)" h' ok]
  by (auto simp: BufTableDelete_def hash_drop_def bind_eq_Some_conv desc_at_def D_def split: if_splits)

lemma drop_frees: "hash_drop h k = Some (h', True) \<Longrightarrow> has_element h'"
  by (auto simp: hash_drop_def hash_search_def hash_remove_def has_element_def bind_eq_Some_conv split: if_splits)

lemma delete_frees: "BufTableDelete s h b = Some (s', h', True) \<Longrightarrow> \<not> has_flag BM_DELETED (D s b) \<Longrightarrow> has_element h'"
  using drop_frees [of h "tag (D s b)" h']
  by (auto simp: BufTableDelete_def hash_drop_def bind_eq_Some_conv desc_at_def D_def split: if_splits)

end
