(* ===== verification/Store.thy ===== *)
theory Store
  imports Md_Props
begin

text \<open>
  What the buffer manager relies on of the storage manager: the interface \<open>block_store\<close>, a disk of relations of fewer than
  \<open>RELSEG_SIZE\<close> blocks each. \<open>R m F P K\<close> says that the state \<open>m\<close> keeps, for every relation \<open>r\<close> in the
  catalog \<open>F\<close> (its name and its file), the blocks \<open>K r\<close>, and that the slots of \<open>P\<close> are open on the relations that \<open>P\<close> gives.
\<close>

type_synonym rid = "uint32 \<times> uint32"
type_synonym catalog = "rid \<rightharpoonup> string \<times> nat"
type_synonym contents = "rid \<Rightarrow> byte list list"

subsection \<open>The interface\<close>

locale block_store =
  fixes R :: "'m \<Rightarrow> catalog \<Rightarrow> (int \<rightharpoonup> rid) \<Rightarrow> contents \<Rightarrow> bool"
    and room :: "'m \<Rightarrow> nat"
    and db :: "'m \<Rightarrow> string"
    and open_rel :: "'m \<Rightarrow> RelationData \<Rightarrow> ('m \<times> int) option"
    and rd_block :: "'m \<Rightarrow> RelationData \<Rightarrow> uint32 \<Rightarrow> byte list \<Rightarrow> ('m \<times> RelationData \<times> int \<times> byte list) option"
    and wr_block :: "'m \<Rightarrow> RelationData \<Rightarrow> uint32 \<Rightarrow> byte list \<Rightarrow> ('m \<times> RelationData \<times> int) option"
    and fl_block :: "'m \<Rightarrow> RelationData \<Rightarrow> uint32 \<Rightarrow> byte list \<Rightarrow> ('m \<times> RelationData \<times> int) option"
    and count :: "'m \<Rightarrow> RelationData \<Rightarrow> ('m \<times> int) option"
    and extend :: "'m \<Rightarrow> RelationData \<Rightarrow> byte list \<Rightarrow> ('m \<times> RelationData \<times> int) option"
  assumes sub: "R m F P K \<Longrightarrow> Q \<subseteq>\<^sub>m P \<Longrightarrow> R m F Q K"
    and known: "R m F P K \<Longrightarrow> P f = Some r \<Longrightarrow> \<exists>nm i. F r = Some (nm, i)"
    and sizes: "R m F P K \<Longrightarrow> F r = Some (nm, i) \<Longrightarrow> blocks_ok (K r) \<and> length (K r) < RELSEG_SIZE"
    and open_law: "R m F P K \<Longrightarrow> F r = Some (relname reln, i) \<Longrightarrow>
      rets (open_rel m reln) (\<lambda>(t, f). P f = None \<and> R t F (P(f \<mapsto> r)) K \<and> room t = room m \<and> db t = db m)"
    and read_law: "R m F P K \<Longrightarrow> P (rd_fd reln) = Some r \<Longrightarrow> unat b < RELSEG_SIZE \<Longrightarrow>
      rets (rd_block m reln b buffer) (\<lambda>(t, reln', st, page). reln' = reln \<and> st = SM_SUCCESS \<and> page = block_at (K r) b \<and> R t F P K \<and> room t = room m \<and> db t = db m)"
    and write_law: "R m F P K \<Longrightarrow> P (rd_fd reln) = Some r \<Longrightarrow> unat b < length (K r) \<Longrightarrow> length buffer = BLCKSZ \<Longrightarrow>
      rets (wr_block m reln b buffer) (\<lambda>(t, reln', st). reln' = reln \<and> st = SM_SUCCESS \<and> R t F P (K(r := (K r)[unat b := buffer])) \<and> room t = room m \<and> db t = db m)"
    and flush_law: "R m F P K \<Longrightarrow> P (rd_fd reln) = Some r \<Longrightarrow> unat b < length (K r) \<Longrightarrow> length buffer = BLCKSZ \<Longrightarrow>
      rets (fl_block m reln b buffer) (\<lambda>(t, reln', st). reln' = reln \<and> st = SM_SUCCESS \<and> R t F P (K(r := (K r)[unat b := buffer])) \<and> room t = room m \<and> db t = db m)"
    and count_law: "R m F P K \<Longrightarrow> P (rd_fd reln) = Some r \<Longrightarrow>
      rets (count m reln) (\<lambda>(t, n). n = int (length (K r)) \<and> R t F P K \<and> room t = room m \<and> db t = db m)"
    and extend_law: "R m F P K \<Longrightarrow> P (rd_fd reln) = Some r \<Longrightarrow> Suc (length (K r)) < RELSEG_SIZE \<Longrightarrow> length buffer = BLCKSZ \<Longrightarrow> BLCKSZ \<le> room m \<Longrightarrow>
      rets (extend m reln buffer) (\<lambda>(t, reln', st). reln' = reln \<and> db t = db m \<and> st = SM_SUCCESS \<and> R t F P (K(r := K r @ [buffer])) \<and> room t = room m - BLCKSZ)"
begin

text \<open>A block is written through a slot that is opened for it and then forgotten.\<close>

definition put_out :: "('m \<Rightarrow> RelationData \<Rightarrow> uint32 \<Rightarrow> byte list \<Rightarrow> ('m \<times> RelationData \<times> int) option) \<Rightarrow> 'm \<Rightarrow> RelationData \<Rightarrow> uint32 \<Rightarrow> byte list \<Rightarrow> ('m \<times> int) option" where
  "put_out out m reln b buffer = do { (m, f) \<leftarrow> open_rel m reln; (m, _, st) \<leftarrow> out m (reln\<lparr>rd_fd := f, rd_tmpunlinked := False\<rparr>) b buffer; Some (m, st) }"

lemma put_out_ok:
  assumes R: "R m F P K" and F: "F r = Some (relname reln, i)" and b: "unat b < length (K r)" "length buffer = BLCKSZ" and out: "out = wr_block \<or> out = fl_block"
  shows "rets (put_out out m reln b buffer) (\<lambda>(t, st). st = SM_SUCCESS \<and> R t F P (K(r := (K r)[unat b := buffer])) \<and> room t = room m \<and> db t = db m)"
proof -
  from open_law [OF R F] obtain t f where t: "open_rel m reln = Some (t, f)" "P f = None" "R t F (P(f \<mapsto> r)) K" "room t = room m" "db t = db m" by (elim retsE) auto
  let ?reln = "reln\<lparr>rd_fd := f, rd_tmpunlinked := False\<rparr>"
  have P: "(P(f \<mapsto> r)) (rd_fd ?reln) = Some r" by simp
  have le: "P \<subseteq>\<^sub>m P(f \<mapsto> r)" using t(2) by (simp add: map_le_def dom_def)
  have w: "rets (out t ?reln b buffer) (\<lambda>(u, reln', st). reln' = ?reln \<and> st = SM_SUCCESS \<and> R u F (P(f \<mapsto> r)) (K(r := (K r)[unat b := buffer])) \<and> room u = room t \<and> db u = db t)"
    using out by (rule disjE) (simp only:, rule write_law [OF t(3) P b] flush_law [OF t(3) P b])+
  show ?thesis unfolding put_out_def t(1) using w sub [OF _ le] t(4,5) by (elim retsE) auto
qed

end

subsection \<open>The magnetic disk provides it\<close>

definition slot :: "md \<Rightarrow> (int \<rightharpoonup> nat) \<Rightarrow> int \<Rightarrow> nat \<Rightarrow> bool" where
  "slot m I f i \<longleftrightarrow> f < int (CurFd m) \<and> (\<exists>v. chain_at m f = Some [v] \<and> I (mdfd_vfd v) = Some i \<and> mdfd_lstbcnt v \<noteq> int RELSEG_SIZE)"

definition catalog_files :: "vfds \<Rightarrow> catalog \<Rightarrow> contents \<Rightarrow> bool" where
  "catalog_files v F K \<longleftrightarrow> (\<forall>r nm i. F r = Some (nm, i) \<longrightarrow>
     (\<exists>p. rel_file v (zero_relation\<lparr>relname := nm\<rparr>) = Some p \<and> names (sys v) p = Some i) \<and>
     i < length (inodes (sys v)) \<and> inodes (sys v) ! i = concat (K r) \<and> blocks_ok (K r) \<and> length (K r) < RELSEG_SIZE) \<and>
     (\<forall>r r' nm nm' i. F r = Some (nm, i) \<and> F r' = Some (nm', i) \<longrightarrow> r = r')"

definition stored :: "md \<Rightarrow> catalog \<Rightarrow> (int \<rightharpoonup> rid) \<Rightarrow> contents \<Rightarrow> bool" where
  "stored m F P K \<longleftrightarrow> md_ok m \<and> catalog_files (vfs m) F K \<and>
     (\<exists>I. fdl.handles (vfs m) I \<and> (\<forall>f r. P f = Some r \<longrightarrow> (\<exists>nm i. F r = Some (nm, i) \<and> slot m I f i)))"

lemma catalog_filesD:
  assumes "catalog_files v F K" and "F r = Some (nm, i)"
  shows "\<exists>p. rel_file v (zero_relation\<lparr>relname := nm\<rparr>) = Some p \<and> names (sys v) p = Some i" and "i < length (inodes (sys v))"
    and "inodes (sys v) ! i = concat (K r)" and "blocks_ok (K r)" and "length (K r) < RELSEG_SIZE" and "F q = Some (nm', i) \<Longrightarrow> q = r"
  using assms unfolding catalog_files_def by metis+

lemma slot_relation:
  assumes "slot m I f i" and "fdl.handles (vfs m) I" and "catalog_files (vfs m) F K" and "F r = Some (nm, i)"
  shows "relation m I f [i] (K r)"
proof -
  obtain v where v: "chain_at m f = Some [v]" "I (mdfd_vfd v) = Some i" "mdfd_lstbcnt v \<noteq> int RELSEG_SIZE" using assms(1) by (auto simp: slot_def)
  have K: "inodes (sys (vfs m)) ! i = concat (K r)" "blocks_ok (K r)" "length (K r) < RELSEG_SIZE" using catalog_filesD [OF assms(3,4)] by simp_all
  have "on_disk (vfs m) [i] (K r)" using K by (simp add: on_disk_def seg_blocks_def)
  moreover have "hints m f (K r)" using v K(3) by (simp add: hints_def)
  ultimately show ?thesis using v assms(2) by (simp add: relation_def rel_open_def)
qed

lemma storedE:
  assumes "stored m F P K" and "P f = Some r"
  obtains I nm i where "fdl.handles (vfs m) I" "F r = Some (nm, i)" "relation m I f [i] (K r)" "slot m I f i"
    "\<And>g q. P g = Some q \<Longrightarrow> \<exists>nm i. F q = Some (nm, i) \<and> slot m I g i" "md_ok m" "catalog_files (vfs m) F K"
proof -
  obtain I where I: "fdl.handles (vfs m) I" "\<And>g q. P g = Some q \<Longrightarrow> \<exists>nm i. F q = Some (nm, i) \<and> slot m I g i" and m: "md_ok m" "catalog_files (vfs m) F K"
    using assms(1) by (auto simp: stored_def)
  obtain nm i where "F r = Some (nm, i)" "slot m I f i" using I(2) [OF assms(2)] by blast
  then show ?thesis using that slot_relation I m by blast
qed

lemma rel_file_same: "same_config v w \<Longrightarrow> rel_file w = rel_file v"
proof -
  assume "same_config v w"
  then have "DataDir w = DataDir v" "filepath w = filepath v" by (simp_all add: same_config_def filepath_def fun_eq_iff)
  then show ?thesis unfolding rel_file_def by (simp only:)
qed

lemma catalog_same: "catalog_files v F K \<Longrightarrow> fdl.same v w \<Longrightarrow> catalog_files w F K"
proof -
  assume F: "catalog_files v F K" and s: "fdl.same v w"
  have e: "same_config v w" "names (sys w) = names (sys v)" "inodes (sys w) = inodes (sys v)" using s by (auto simp: fdl.same_def same_config_def)
  show ?thesis using F unfolding catalog_files_def rel_file_same [OF e(1)] e(2,3) .
qed

lemma stored_vfs:
  assumes m: "md_ok m" "catalog_files (vfs m) F K" "\<And>g q. P g = Some q \<Longrightarrow> \<exists>nm i. F q = Some (nm, i) \<and> slot m I g i"
    and t: "t = m\<lparr>vfs := vfs t\<rparr>" "fdl.handles (vfs t) I" and same: "fdl.same (vfs m) (vfs t)"
  shows "stored t F P K"
proof -
  have e: "chain_at t g = chain_at m g" "CurFd t = CurFd m" "md_ok t = md_ok m" for g by (subst t(1), simp add: chain_at_def md_ok_def)+
  then have "slot t I g i = slot m I g i" for g i by (simp add: slot_def)
  then show ?thesis using m catalog_same [OF m(2) same] t(2) e unfolding stored_def by metis
qed

text \<open>A change of the blocks of one relation, through one of its slots.\<close>

lemma stored_changed:
  assumes m: "md_ok m" "catalog_files (vfs m) F K" "\<And>g q. P g = Some q \<Longrightarrow> \<exists>nm i. F q = Some (nm, i) \<and> slot m I g i" and r: "F r = Some (nm, i)"
    and t: "t = put_chain (m\<lparr>vfs := vfs t\<rparr>) f [w]" "fdl.handles (vfs t) I" "same_config (vfs m) (vfs t)"
    and f: "chain_at m f = Some [v]" "mdfd_vfd w = mdfd_vfd v" "mdfd_lstbcnt w \<noteq> int RELSEG_SIZE"
    and io: "inodes (sys (vfs t)) = (inodes (sys (vfs m)))[i := c]" "c = concat bs" "blocks_ok bs" "length bs < RELSEG_SIZE"
  shows "stored t F P (K(r := bs))"
proof -
  have ch: "chain_at t g = (if g = f then Some [w] else chain_at m g)" for g by (subst t(1)) (use chain_put [of "m\<lparr>vfs := vfs t\<rparr>" f "[w]" g] f(1) in simp)
  have e: "CurFd t = CurFd m" "md_ok t = md_ok m" by (subst t(1), simp add: md_ok_def put_chain_def)+
  have "slot t I g k" if "slot m I g k" for g k using that f by (auto simp: slot_def ch e)
  moreover have "catalog_files (vfs t) F (K(r := bs))"
  proof -
    have nf: "names (sys (vfs t)) = names (sys (vfs m))" using t(3) by (simp add: same_config_def)
    show ?thesis unfolding catalog_files_def rel_file_same [OF t(3)] nf io(1)
    proof (intro conjI allI impI, goal_cases)
      case (3 q n k)
      have k: "k < length (inodes (sys (vfs m)))" "inodes (sys (vfs m)) ! k = concat (K q)" using catalog_filesD(2,3) [OF m(2) 3] .
      have "i = k \<longleftrightarrow> q = r" using catalog_filesD(6) [OF m(2) r, of q n] 3 r by auto
      then show ?case using k io(2) by (cases "q = r") simp_all
    next
      case (6 q q' n n' k) then show ?case using catalog_filesD(6) [OF m(2)] by blast
    qed (use catalog_filesD(1,2,4,5) [OF m(2)] io(3,4) in auto)
  qed
  ultimately show ?thesis using m(1,3) e t(2) unfolding stored_def by metis
qed

text \<open>Opening a relation of the catalog once more.\<close>

lemma stored_open:
  assumes S: "stored m F P K" and F: "F r = Some (relname reln, i)"
  shows "rets (mdopen m reln) (\<lambda>(t, f). P f = None \<and> stored t F (P(f \<mapsto> r)) K \<and> disk_room (sys (vfs t)) = disk_room (sys (vfs m)) \<and> DatabaseName (vfs t) = DatabaseName (vfs m))"
proof -
  obtain I where m: "md_ok m" "catalog_files (vfs m) F K" "fdl.handles (vfs m) I" and P: "\<And>g q. P g = Some q \<Longrightarrow> \<exists>nm i. F q = Some (nm, i) \<and> slot m I g i"
    using S by (auto simp: stored_def)
  note D = catalog_filesD [OF m(2) F]
  obtain p where p: "rel_file (vfs m) reln = Some p" "names (sys (vfs m)) p = Some i" using D(1) by (auto simp: rel_file_def)
  have bs: "file_blocks (vfs m) p (K r)" "length (K r) \<le> RELSEG_SIZE" using p(2) D by (simp_all add: file_blocks_def)
  from mdopen_slot [OF m(1,3) p(1) bs] obtain t f x where t: "mdopen m reln = Some (t, f)" "opened_slot m I p (K r) t f x i"
    using p(2) by (elim retsE) (auto simp: opened_slot_def)
  then have o: "f = int (CurFd m)" "md_ok t" "CurFd t = Suc (CurFd m)" "\<And>g. g < CurFd m \<Longrightarrow> Md_fdvec t ! g = Md_fdvec m ! g" "DataDir (vfs t) = DataDir (vfs m)"
    "DatabaseName (vfs t) = DatabaseName (vfs m)" "disk_room (sys (vfs t)) = disk_room (sys (vfs m))" "I x = None" "fdl.handles (vfs t) (I(x \<mapsto> i))"
    "chain_at t f = Some [\<lparr>mdfd_vfd = x, mdfd_flags = 0, mdfd_lstbcnt = int (length (K r))\<rparr>]" "names (sys (vfs t)) = names (sys (vfs m))" "inodes (sys (vfs t)) = inodes (sys (vfs m))"
    using p(2) D(5) by (auto simp: opened_slot_def)
  have "P f = None" using P [of f] o(1) by (cases "P f") (fastforce simp: slot_def)+
  moreover have "filepath (vfs t) = filepath (vfs m)" using o(5,6) by (simp add: filepath_def fun_eq_iff)
  then have rf: "rel_file (vfs t) = rel_file (vfs m)" unfolding rel_file_def o(5) by (simp only:)
  have "catalog_files (vfs t) F K" using m(2) unfolding catalog_files_def rf o(11,12) .
  moreover have "slot t (I(x \<mapsto> i)) f i" using o(1,3,10) D(5) by (simp add: slot_def)
  moreover have "slot t (I(x \<mapsto> i)) g k" if sl: "slot m I g k" for g k
  proof -
    obtain v where v: "g < int (CurFd m)" "chain_at m g = Some [v]" "I (mdfd_vfd v) = Some k" "mdfd_lstbcnt v \<noteq> int RELSEG_SIZE" using sl by (auto simp: slot_def)
    then have g: "0 \<le> g" "nat g < CurFd m" by (auto simp: chain_at_def split: if_splits)
    then have "chain_at t g = Some [v]" using v(2) o(2,3) o(4) [of "nat g"] by (auto simp: chain_at_def md_ok_def split: if_splits)
    then show ?thesis using v o(3,8) by (auto simp: slot_def)
  qed
  then have "\<forall>g q. (P(f \<mapsto> r)) g = Some q \<longrightarrow> (\<exists>nm i'. F q = Some (nm, i') \<and> slot t (I(x \<mapsto> i)) g i')" using P F calculation(3) by (metis fun_upd_apply option.inject)
  ultimately show ?thesis unfolding t(1) using o(2,6,7,9) by (auto simp: stored_def)
qed

text \<open>Reading and counting leave the blocks alone; writing, flushing and extending change those of one relation.\<close>

lemma stored_read:
  assumes S: "stored m F P K" and f: "P (rd_fd reln) = Some r" and b: "unat b < RELSEG_SIZE"
  shows "rets (mdread m reln b buffer) (\<lambda>(t, reln', st, page). reln' = reln \<and> st = SM_SUCCESS \<and> page = block_at (K r) b \<and> stored t F P K \<and>
    disk_room (sys (vfs t)) = disk_room (sys (vfs m)) \<and> DatabaseName (vfs t) = DatabaseName (vfs m))"
proof -
  from S f obtain I nm i where m: "F r = Some (nm, i)" "relation m I (rd_fd reln) [i] (K r)"
    "md_ok m" "catalog_files (vfs m) F K" and P: "\<And>g q. P g = Some q \<Longrightarrow> \<exists>nm i. F q = Some (nm, i) \<and> slot m I g i" by (rule storedE) blast
  have ro: "rel_open m I (rd_fd reln) [i]" "on_disk (vfs m) [i] (K r)" using m(2) by (simp_all add: relation_def)
  have b': "unat b < 2 ^ 31" "unat b div RELSEG_SIZE < length [i]" using b by (simp_all add: RELSEG_SIZE_def)
  show ?thesis by (rule rets_mono [OF mdread_blocks [OF ro b']]) (use stored_vfs [OF m(3,4) P] in \<open>auto simp: fdl.same_def same_config_def\<close>)
qed

lemma stored_count:
  assumes S: "stored m F P K" and f: "P (rd_fd reln) = Some r"
  shows "rets (mdnblocks m reln) (\<lambda>(t, n). n = int (length (K r)) \<and> stored t F P K \<and>
    disk_room (sys (vfs t)) = disk_room (sys (vfs m)) \<and> DatabaseName (vfs t) = DatabaseName (vfs m))"
proof -
  from S f obtain I nm i where m: "F r = Some (nm, i)" "relation m I (rd_fd reln) [i] (K r)"
    "md_ok m" "catalog_files (vfs m) F K" and P: "\<And>g q. P g = Some q \<Longrightarrow> \<exists>nm i. F q = Some (nm, i) \<and> slot m I g i" by (rule storedE) blast
  have ro: "rel_open m I (rd_fd reln) [i]" "on_disk (vfs m) [i] (K r)" "hints m (rd_fd reln) (K r)" using m(2) by (simp_all add: relation_def)
  have b': "length (K r) < length [i] * RELSEG_SIZE" "length (K r) < 2 ^ 31" using catalog_filesD(5) [OF m(4,1)] by (simp_all add: RELSEG_SIZE_def)
  show ?thesis by (rule rets_mono [OF mdnblocks_blocks [OF ro b']]) (use stored_vfs [OF m(3,4) P] in \<open>auto simp: fdl.same_def same_config_def\<close>)
qed

lemma stored_wrote:
  assumes m: "md_ok m" "catalog_files (vfs m) F K" "\<And>g q. P g = Some q \<Longrightarrow> \<exists>nm i. F q = Some (nm, i) \<and> slot m I g i" and r: "F r = Some (nm, i)" "slot m I f i"
    and c: "chain_at m f = Some c" and b: "unat b < length (K r)" "length buffer = BLCKSZ"
    and t: "wrote (vfs m) [i] b buffer (vfs t)" "fdl.handles (vfs t) I" "t = put_chain (m\<lparr>vfs := vfs t\<rparr>) f (c[0 := g (c ! 0)])"
    and g: "\<And>v. mdfd_vfd (g v) = mdfd_vfd v \<and> mdfd_lstbcnt (g v) = mdfd_lstbcnt v"
  shows "stored t F P (K(r := (K r)[unat b := buffer])) \<and> disk_room (sys (vfs t)) = disk_room (sys (vfs m)) \<and> DatabaseName (vfs t) = DatabaseName (vfs m)"
proof -
  note D = catalog_filesD [OF m(2) r(1)]
  obtain v where v: "c = [v]" "mdfd_lstbcnt v \<noteq> int RELSEG_SIZE" using r(2) c by (auto simp: slot_def)
  have d: "unat b div RELSEG_SIZE = 0" "unat b mod RELSEG_SIZE = unat b" using b D(5) by simp_all
  have w: "same_config (vfs m) (vfs t)" "disk_room (sys (vfs t)) = disk_room (sys (vfs m))"
    "inodes (sys (vfs t)) = (inodes (sys (vfs m)))[i := concat ((K r)[unat b := buffer])]"
    using t(1) write_block [OF D(4) b(2,1)] by (simp_all add: wrote_def d D(3))
  have t': "t = put_chain (m\<lparr>vfs := vfs t\<rparr>) f [g v]" using t(3) v(1) by simp
  have "stored t F P (K(r := (K r)[unat b := buffer]))"
    by (rule stored_changed [OF m r(1) t' t(2) w(1) c [unfolded v(1)] _ _ w(3) refl]) (use v g D b in \<open>auto simp: blocks_ok_update\<close>)
  then show ?thesis using w by (simp add: same_config_def)
qed

lemma stored_write:
  assumes S: "stored m F P K" and f: "P (rd_fd reln) = Some r" and b: "unat b < length (K r)" "length buffer = BLCKSZ"
  shows "rets (mdwrite m reln b buffer) (\<lambda>(t, reln', st). reln' = reln \<and> st = SM_SUCCESS \<and> stored t F P (K(r := (K r)[unat b := buffer])) \<and>
      disk_room (sys (vfs t)) = disk_room (sys (vfs m)) \<and> DatabaseName (vfs t) = DatabaseName (vfs m))"
    and "rets (mdflush m reln b buffer) (\<lambda>(t, reln', st). reln' = reln \<and> st = SM_SUCCESS \<and> stored t F P (K(r := (K r)[unat b := buffer])) \<and>
      disk_room (sys (vfs t)) = disk_room (sys (vfs m)) \<and> DatabaseName (vfs t) = DatabaseName (vfs m))"
proof -
  from S f obtain I nm i where m: "F r = Some (nm, i)" "relation m I (rd_fd reln) [i] (K r)" "slot m I (rd_fd reln) i"
    "md_ok m" "catalog_files (vfs m) F K" and P: "\<And>g q. P g = Some q \<Longrightarrow> \<exists>nm i. F q = Some (nm, i) \<and> slot m I g i" by (rule storedE) blast
  have ro: "rel_open m I (rd_fd reln) [i]" "on_disk (vfs m) [i] (K r)" using m(2) by (simp_all add: relation_def)
  have b': "unat b < 2 ^ 31" "0 = unat b div RELSEG_SIZE" using b catalog_filesD(5) [OF m(5,1)] by (simp_all add: RELSEG_SIZE_def)
  obtain c where c: "chain_at m (rd_fd reln) = Some c" using m(3) by (auto simp: slot_def)
  note w = stored_wrote [OF m(4,5) P m(1,3) c b]
  show "rets (mdwrite m reln b buffer) (\<lambda>(t, reln', st). reln' = reln \<and> st = SM_SUCCESS \<and> stored t F P (K(r := (K r)[unat b := buffer])) \<and>
      disk_room (sys (vfs t)) = disk_room (sys (vfs m)) \<and> DatabaseName (vfs t) = DatabaseName (vfs m))"
    by (rule rets_mono [OF mdwrite_blocks [OF ro b'(1) b c b'(2)]]) (use w [where g = dirty_vec] in \<open>auto simp: dirty_vec_def\<close>)
  show "rets (mdflush m reln b buffer) (\<lambda>(t, reln', st). reln' = reln \<and> st = SM_SUCCESS \<and> stored t F P (K(r := (K r)[unat b := buffer])) \<and>
      disk_room (sys (vfs t)) = disk_room (sys (vfs m)) \<and> DatabaseName (vfs t) = DatabaseName (vfs m))"
    by (rule rets_mono [OF mdflush_blocks [OF ro b'(1) b c b'(2)]]) (use w [where g = clean_vec] in \<open>auto simp: clean_vec_def\<close>)
qed

lemma stored_extend:
  assumes S: "stored m F P K" and f: "P (rd_fd reln) = Some r" and len: "Suc (length (K r)) < RELSEG_SIZE" and b: "length buffer = BLCKSZ"
    and room: "BLCKSZ \<le> disk_room (sys (vfs m))"
  shows "rets (mdextend m reln buffer) (\<lambda>(t, reln', st). reln' = reln \<and> DatabaseName (vfs t) = DatabaseName (vfs m) \<and>
    st = SM_SUCCESS \<and> stored t F P (K(r := K r @ [buffer])) \<and> disk_room (sys (vfs t)) = disk_room (sys (vfs m)) - BLCKSZ)"
proof -
  from stored_count [OF S f] obtain n where n: "mdnblocks m reln = Some (n, int (length (K r)))" "stored n F P K" "disk_room (sys (vfs n)) = disk_room (sys (vfs m))" "DatabaseName (vfs n) = DatabaseName (vfs m)"
    by (elim retsE) auto
  from n(2) f obtain I nm i where m: "F r = Some (nm, i)" "relation n I (rd_fd reln) [i] (K r)" "slot n I (rd_fd reln) i"
    "md_ok n" "catalog_files (vfs n) F K" and P: "\<And>g q. P g = Some q \<Longrightarrow> \<exists>nm i. F q = Some (nm, i) \<and> slot n I g i" by (rule storedE) blast
  note D = catalog_filesD [OF m(5,1)]
  have ro: "rel_open n I (rd_fd reln) [i]" "on_disk (vfs n) [i] (K r)" using m(2) by (simp_all add: relation_def)
  obtain v where c: "chain_at n (rd_fd reln) = Some [v]" using m(3) by (auto simp: slot_def)
  have l: "length (K r) < length [i] * RELSEG_SIZE" "length (K r) < 2 ^ 31 - 1" "0 = length [i] - 1" using len by (simp_all add: RELSEG_SIZE_def)
  have sb: "seg_blocks (K r) 0 = K r" using len by (simp add: seg_blocks_def)
  let ?w = "(dirty_vec v)\<lparr>mdfd_lstbcnt := int (length (K r) + 1)\<rparr>"
  have new: "stored t F P (K(r := K r @ [buffer]))"
    if "fdl.handles (vfs t) I" "same_config (vfs n) (vfs t)" "inodes (sys (vfs t)) = (inodes (sys (vfs n)))[i := inodes (sys (vfs n)) ! i @ buffer]"
      "t = put_chain (n\<lparr>vfs := vfs t\<rparr>) (rd_fd reln) [?w]" for t
    by (rule stored_changed [OF m(4,5) P m(1) that(4,1,2) c _ _ that(3)]) (use len D b in \<open>auto simp: dirty_vec_def blocks_ok_def\<close>)
  have "rets (extend_at n reln (int (length (K r))) buffer) (\<lambda>(t, reln', st). reln' = reln \<and> DatabaseName (vfs t) = DatabaseName (vfs m) \<and>
    st = SM_SUCCESS \<and> stored t F P (K(r := K r @ [buffer])) \<and> disk_room (sys (vfs t)) = disk_room (sys (vfs m)) - BLCKSZ)"
    by (rule rets_mono [OF extend_at_blocks [OF ro l(1,2) b c l(3)]], clarify)
      (use new n(3,4) sb room in \<open>auto simp: fdl.same_def same_config_def split: if_splits\<close>)
  then show ?thesis by (simp add: mdextend_def n(1))
qed

interpretation disk: block_store stored "\<lambda>m. disk_room (sys (vfs m))" "\<lambda>m. DatabaseName (vfs m)" mdopen mdread mdwrite mdflush mdnblocks mdextend
proof (unfold_locales, goal_cases)
  case (1 m F P K Q) then show ?case unfolding stored_def map_le_def by (metis domI)
next
  case (2 m F P K f r) then show ?case unfolding stored_def by blast
next
  case (3 m F P K r nm i) then show ?case using catalog_filesD(4,5) unfolding stored_def by blast
qed (fact stored_open stored_read stored_write stored_count stored_extend)+

end
