(* ===== verification/BufMgr_Inv.thy ===== *)
theory BufMgr_Inv
  imports BufFrame Store
begin

text \<open>
  The invariant of the buffer manager of one process: every relation has logical blocks; a registered buffer holds the
  logical block of its tag, and a block on disk is the logical one unless a dirty buffer holds it. Blocks
  beyond the end of a relation count as zero.
\<close>

subsection \<open>The invariant\<close>

definition rel_of :: "BufferTag \<Rightarrow> rid" where
  "rel_of t = (dbId t, relId t)"

text \<open>A registered buffer belongs to a relation of the catalog, and \<open>RelationIdCacheGetRelation\<close> finds the relation by its name.\<close>

definition named :: "bufs \<Rightarrow> catalog \<Rightarrow> BufferDesc \<Rightarrow> bool" where
  "named s F d \<longleftrightarrow> (\<exists>i. F (rel_of (tag d)) = Some (sb_relname d, i)) \<and> bufsmgr d = 0 \<and> (dbId (tag d) = MyDatabaseId s \<or> dbId (tag d) = 0) \<and>
     unat (blockNum (tag d)) < RELSEG_SIZE"

definition holds :: "bufs \<Rightarrow> contents \<Rightarrow> BufferDesc \<Rightarrow> bool" where
  "holds s B d \<longleftrightarrow> blocks s (data d) = Some (block_at (B (rel_of (tag d))) (blockNum (tag d)))"

text \<open>The buffers of \<open>X\<close> are being filled.\<close>

definition in_pool :: "bufs \<Rightarrow> int \<Rightarrow> bool" where
  "in_pool s b \<longleftrightarrow> 0 \<le> b \<and> b < int (NBuffers (bp s))"

definition descs_ok :: "bufs \<Rightarrow> int set \<Rightarrow> catalog \<Rightarrow> contents \<Rightarrow> bool" where
  "descs_ok s X F B \<longleftrightarrow> (\<forall>b. in_pool s b \<longrightarrow>
     (\<exists>page. blocks s (data (D (bp s) b)) = Some page) \<and> has_flag BM_VALID (D (bp s) b) \<and>
     (\<not> has_flag BM_DELETED (D (bp s) b) \<longrightarrow> named s F (D (bp s) b) \<and> (b \<notin> X \<longrightarrow> holds s B (D (bp s) b))) \<and>
     (has_flag BM_DIRTY (D (bp s) b) \<longrightarrow> \<not> has_flag BM_DELETED (D (bp s) b) \<and> b \<notin> X \<and>
        unat (blockNum (tag (D (bp s) b))) < length (B (rel_of (tag (D (bp s) b))))))"

definition quiet :: "bufs \<Rightarrow> int set \<Rightarrow> bool" where
  "quiet s X \<longleftrightarrow> length (io_in_progress_lock s) = NBuffers (bp s) \<and>
     (\<forall>b. in_pool s b \<longrightarrow> (io_in_progress_lock s ! nat b \<longleftrightarrow> b \<in> X) \<and> (has_flag BM_IO_IN_PROGRESS (D (bp s) b) \<longleftrightarrow> b \<in> X))"

definition own_memory :: "bufs \<Rightarrow> bool" where
  "own_memory s \<longleftrightarrow> (\<forall>b c. in_pool s b \<and> in_pool s c \<and> data (D (bp s) b) = data (D (bp s) c) \<longrightarrow> b = c)"

definition dirty_block :: "bufs \<Rightarrow> rid \<Rightarrow> nat \<Rightarrow> bool" where
  "dirty_block s r k \<longleftrightarrow> (\<exists>b. in_pool s b \<and> has_flag BM_DIRTY (D (bp s) b) \<and> rel_of (tag (D (bp s) b)) = r \<and> unat (blockNum (tag (D (bp s) b))) = k)"

definition agree :: "bufs \<Rightarrow> catalog \<Rightarrow> contents \<Rightarrow> contents \<Rightarrow> bool" where
  "agree s F K B \<longleftrightarrow> (\<forall>r. F r \<noteq> None \<longrightarrow> length (K r) = length (B r) \<and> blocks_ok (B r) \<and>
     (\<forall>k<length (B r). K r ! k = B r ! k \<or> dirty_block s r k))"

definition steady :: "bufs \<Rightarrow> int set \<Rightarrow> catalog \<Rightarrow> (int \<rightharpoonup> rid) \<Rightarrow> contents \<Rightarrow> bool" where
  "steady s X F P B \<longleftrightarrow> (\<exists>xs. pool_inv (bp s) [be s] xs) \<and> buf_table (bp s) (SharedBufHash s) \<and> quiet s X \<and> own_memory s \<and> descs_ok s X F B \<and>
     (\<exists>K. stored (sm s) F P K \<and> agree s F K B)"

text \<open>Between the operations no input is under way and the lock is free.\<close>

definition coherent :: "bufs \<Rightarrow> catalog \<Rightarrow> (int \<rightharpoonup> rid) \<Rightarrow> contents \<Rightarrow> bool" where
  "coherent s F P B \<longleftrightarrow> steady s {} F P B \<and> \<not> BufMgrLock s"

lemma in_pool_ok: "steady s X F P B \<Longrightarrow> in_pool s b \<Longrightarrow> desc_ok (bp s) b \<and> buf_id (D (bp s) b) = b"
  using pool_shape_ok by (auto simp: steady_def buf_table_def in_pool_def)

lemma agreeD:
  assumes "agree s F K B" and "F r \<noteq> None"
  shows "length (K r) = length (B r)" "blocks_ok (B r)" "k < length (B r) \<Longrightarrow> K r ! k = B r ! k \<or> dirty_block s r k"
  using assms unfolding agree_def by blast+

lemma linked_shape: "linked s xs \<Longrightarrow> pool_shape s"
proof -
  assume l: "linked s xs"
  have "NBuffers s \<le> length (BufferDescriptors s)" using l by (simp add: linked_def)
  moreover have "buf_id (D s b) = b" if "0 \<le> b \<and> b < int (NBuffers s)" for b by (rule linked_buf_id [OF l]) (use that in \<open>simp add: linked_ok [OF l]\<close>)
  ultimately show ?thesis by (simp add: pool_shape_def)
qed

subsection \<open>Steps that change no contents\<close>

text \<open>The parts of the invariant beside the pins depend on the frame of the pool only.\<close>

lemma frame_owner:
  assumes S: "steady s X F P B" and fr: "frame (bp t) = frame (bp s)"
  shows "owner (bp t) = owner (bp s)"
proof
  fix b
  note N = frame_size [OF fr]
  show "owner (bp t) b = owner (bp s) b"
  proof (cases "in_pool s b")
    case True
    have "desc_ok (bp s) b" using in_pool_ok [OF S True] by simp
    note e = content_eqD [OF frame_content [OF fr this]]
    show ?thesis using N e(1) e(6) [of BM_DELETED] by (simp add: owner_def)
  qed (use N in \<open>auto simp: owner_def in_pool_def\<close>)
qed

lemma frame_agree:
  assumes S: "steady s X F P B" and fr: "frame (bp t) = frame (bp s)"
  shows "agree t F K B = agree s F K B"
proof -
  have ip: "in_pool t b = in_pool s b" for b using frame_size [OF fr] by (simp add: in_pool_def)
  have "desc_ok (bp s) b" if "in_pool s b" for b using in_pool_ok [OF S that] by simp
  note e = content_eqD [OF frame_content [OF fr this]]
  have "dirty_block t = dirty_block s" unfolding dirty_block_def fun_eq_iff using ip e(1,6) other_flags(1) by metis
  then show ?thesis by (simp add: agree_def)
qed

lemma steady_frame:
  assumes S: "steady s X F P B" and fr: "frame (bp t) = frame (bp s)" and inv: "pool_inv (bp t) [be t] xs"
    and same: "SharedBufHash t = SharedBufHash s" "io_in_progress_lock t = io_in_progress_lock s" "blocks t = blocks s" "sm t = sm s" "MyDatabaseId t = MyDatabaseId s"
  shows "steady t X F P B"
proof -
  note N = frame_size [OF fr]
  have ip: "in_pool t b = in_pool s b" for b using N by (simp add: in_pool_def)
  have ok: "desc_ok (bp s) b" if "in_pool s b" for b using in_pool_ok [OF S that] by simp
  have c: "content (D (bp t) b) = content (D (bp s) b)" if "in_pool s b" for b by (rule frame_content [OF fr ok [OF that]])
  note e = content_eqD [OF c]
  have own: "owner (bp t) = owner (bp s)" by (rule frame_owner [OF S fr])
  have "pool_shape (bp t)" using linked_shape inv by (auto simp: pool_inv_def)
  then have "buf_table (bp t) (SharedBufHash t)" using S own N same(1) by (auto simp: steady_def buf_table_registry wide_enough_def)
  moreover have "quiet t X" using S e(6) same N ip by (simp add: steady_def quiet_def)
  moreover have "own_memory t" using S e(2) ip unfolding steady_def own_memory_def by metis
  moreover have "named t F (D (bp t) b) = named s F (D (bp s) b)" "holds t B (D (bp t) b) = holds s B (D (bp s) b)" if "in_pool s b" for b
    using e [OF that] same by (simp_all add: named_def holds_def)
  then have "descs_ok t X F B" using S e ip same by (simp add: steady_def descs_ok_def)
  moreover note frame_agree [OF S fr]
  ultimately show ?thesis using S inv same(4) unfolding steady_def by auto
qed

lemma steady_other:
  assumes "steady s X F P B" and "bp t = bp s" "be t = be s" "SharedBufHash t = SharedBufHash s" "io_in_progress_lock t = io_in_progress_lock s" "blocks t = blocks s"
    "sm t = sm s" "MyDatabaseId t = MyDatabaseId s"
  shows "steady t X F P B"
proof -
  obtain xs where "pool_inv (bp s) [be s] xs" using assms(1) by (auto simp: steady_def)
  then show ?thesis using steady_frame [OF assms(1), of t xs] assms(2-) by simp
qed

text \<open>Pins. The process is the only one.\<close>

lemma one: "0 < length [me]"
  by simp

lemma holders_one [simp]: "holders [me] b = (if held me b then 1 else 0)"
  by (simp add: holders_def)

lemma steady_pin:
  assumes S: "steady s X F P B" and b: "in_pool s b"
  shows "rets (pin s b) (\<lambda>t. steady t X F P B \<and> t = s\<lparr>bp := bp t, be := be t\<rparr> \<and> frame (bp t) = frame (bp s) \<and>
    be t = (be s)\<lparr>PrivateRefCount := (PrivateRefCount (be s))[nat b := PrivateRefCount (be s) ! nat b + 1]\<rparr>)"
proof -
  obtain xs where xs: "pool_inv (bp s) [be s] xs" using S by (auto simp: steady_def)
  have nb: "0 \<le> b" "nat b < NBuffers (bp s)" using b by (auto simp: in_pool_def)
  from pin_inv [OF xs one nb(2)] obtain p me where p: "PinBuffer (bp s) (be s) b = Some (p, me)" "pool_inv p [me] (remove1 b xs)"
    "me = (be s)\<lparr>PrivateRefCount := (PrivateRefCount (be s))[nat b := PrivateRefCount (be s) ! nat b + 1]\<rparr>" by (elim retsE) (auto simp: nb)
  have fr: "frame p = frame (bp s)" by (rule pin_frame [OF p(1)])
  have "steady (s\<lparr>bp := p, be := me\<rparr>) X F P B" by (rule steady_frame [OF S, of _ "remove1 b xs"]) (use fr p(2) in simp_all)
  then show ?thesis using p fr by (simp add: pin_def)
qed

lemma steady_unpin:
  assumes S: "steady s X F P B" and b: "in_pool s b" and pos: "PrivateRefCount (be s) ! nat b > 0"
  shows "rets (unpin s b) (\<lambda>t. steady t X F P B \<and> t = s\<lparr>bp := bp t, be := be t\<rparr> \<and> frame (bp t) = frame (bp s) \<and>
    be t = (be s)\<lparr>PrivateRefCount := (PrivateRefCount (be s))[nat b := PrivateRefCount (be s) ! nat b - 1]\<rparr>)"
proof -
  obtain xs where xs: "pool_inv (bp s) [be s] xs" using S by (auto simp: steady_def)
  have nb: "0 \<le> b" "nat b < NBuffers (bp s)" using b by (auto simp: in_pool_def)
  have pos': "PrivateRefCount ([be s] ! 0) ! nat b > 0" using pos by simp
  from release_inv [OF xs one nb(2) pos'] obtain p me ys where p: "ReleaseBuffer (bp s) (be s) (b + 1) = Some (p, me, STATUS_OK)" "pool_inv p [me] ys"
    "me = (be s)\<lparr>PrivateRefCount := (PrivateRefCount (be s))[nat b := PrivateRefCount (be s) ! nat b - 1]\<rparr>" by (elim retsE) (auto simp: nb)
  have u: "UnpinBuffer (bp s) (be s) b = Some (p, me)" using unpin_release [OF xs one nb(2) pos'] p(1) by (simp add: nb)
  have fr: "frame p = frame (bp s)" by (rule release_frame [OF p(1)])
  have "steady (s\<lparr>bp := p, be := me\<rparr>) X F P B" by (rule steady_frame [OF S, of _ ys]) (use fr p(2) in simp_all)
  then show ?thesis using u p(3) fr by (simp add: unpin_def)
qed

definition can_claim :: "bufs \<Rightarrow> bool" where
  "can_claim s \<longleftrightarrow> (\<exists>b. in_pool s b \<and> \<not> held (be s) (nat b))"

lemma steady_claim:
  assumes S: "steady s X F P B" and free: "can_claim s"
  shows "rets (claim s) (\<lambda>(t, r). \<exists>b. r = Some b \<and> in_pool s b \<and> \<not> held (be s) (nat b) \<and> steady t X F P B \<and> t = s\<lparr>bp := bp t, be := be t\<rparr> \<and>
    frame (bp t) = frame (bp s) \<and> be t = (be s)\<lparr>PrivateRefCount := (PrivateRefCount (be s))[nat b := 1]\<rparr> \<and> refcount (D (bp t) b) = 1)"
proof -
  obtain xs where xs: "pool_inv (bp s) [be s] xs" using S by (auto simp: steady_def)
  obtain c where c: "in_pool s c" "\<not> held (be s) (nat c)" using free by (auto simp: can_claim_def)
  then have cn: "0 \<le> c" "nat c < NBuffers (bp s)" by (auto simp: in_pool_def)
  have "int (nat c) \<in> set xs \<longleftrightarrow> holders [be s] (nat c) = 0" using xs cn(2) unfolding pool_inv_def by blast
  then have "int (nat c) \<in> set xs" using c(2) by simp
  then obtain b0 ys where bs: "xs = b0 # ys" by (cases xs) auto
  have l: "linked (bp s) xs" using xs by (simp add: pool_inv_def)
  have r: "0 \<le> b0" "b0 < int (NBuffers (bp s))" using linked_range [OF l, of b0] bs by auto
  define b where "b = nat b0"
  have b: "b0 = int b" "b < NBuffers (bp s)" using r by (simp_all add: b_def)
  have xs': "pool_inv (bp s) [be s] (int b # ys)" using xs bs b by simp
  from claim_inv [OF xs' one] obtain p me where p: "claim_buffer (bp s) (be s) = Some (p, me, Some (int b))" "NBuffers p = NBuffers (bp s)"
    "me = (be s)\<lparr>PrivateRefCount := (PrivateRefCount (be s))[b := 1]\<rparr>" "pool_inv p [me] ys" by (elim retsE) auto
  have fr: "frame p = frame (bp s)" by (rule claim_frame [OF p(1)])
  have "steady (s\<lparr>bp := p, be := me\<rparr>) X F P B" by (rule steady_frame [OF S, of _ ys]) (use fr p(4) in simp_all)
  moreover have "int b \<in> set (int b # ys) \<longleftrightarrow> holders [be s] b = 0" using xs' b(2) unfolding pool_inv_def by blast
  then have "\<not> held (be s) b" by (simp split: if_splits)
  moreover have "backend_ok (NBuffers (bp s)) (be s)" using pool_inv_backend [OF xs one] by simp
  then have "held me b" using b by (simp add: p(3) held_def backend_ok_def)
  then have "unat (refcount (D p (int b))) = 1" using p(2,4) b by (simp add: pool_inv_def)
  then have "refcount (D p (int b)) = 1" by (metis unat_1 word_unat_eq_iff)
  ultimately show ?thesis using p(1,3) fr b by (simp add: claim_def in_pool_def)
qed

subsection \<open>A change to one buffer\<close>

definition inner :: "(BufferDesc \<Rightarrow> BufferDesc) \<Rightarrow> BufferDesc \<Rightarrow> bool" where
  "inner f d \<longleftrightarrow> refcount (f d) = refcount d \<and> freeNext (f d) = freeNext d \<and> freePrev (f d) = freePrev d \<and> buf_id (f d) = buf_id d \<and> data (f d) = data d \<and>
     has_flag BM_FREE (f d) = has_flag BM_FREE d \<and> has_flag BM_VALID (f d) = has_flag BM_VALID d"

lemma linked_inner:
  assumes "linked s xs" and "desc_ok s k" and f: "inner f (D s k)"
  shows "linked (put_desc s k f) xs"
proof -
  let ?s = "put_desc s k f"
  have ok: "desc_ok s c" if "c \<in> set (Free_List_Descriptor s # xs)" for c using that assms by (auto simp: linked_def fl.ring_def)
  have "fl.ring ?s (Free_List_Descriptor s) xs = fl.ring s (Free_List_Descriptor s) xs"
    by (rule fl.ring_cong) (use ok assms(2) f in \<open>simp add: inner_def\<close>)
  moreover have "desc_ok s c" if "0 \<le> c \<and> c < int (NBuffers s)" for c using that assms linked_ok [of s xs c] by simp
  ultimately show ?thesis using assms by (auto simp: linked_def NotInQueue_def inner_def)
qed

lemma pool_inv_inner:
  assumes inv: "pool_inv s ps xs" and k: "0 \<le> k" "k < int (NBuffers s)" and f: "inner f (D s k)"
  shows "pool_inv (put_desc s k f) ps xs"
proof -
  have l: "linked s xs" using inv by (simp add: pool_inv_def)
  have ok: "desc_ok s k" "\<And>b. b < NBuffers s \<Longrightarrow> desc_ok s (int b)" using k by (auto simp: linked_ok [OF l])
  have "refcount (D (put_desc s k f) (int b)) = refcount (D s (int b))" if "b < NBuffers s" for b using ok that f by (auto simp: inner_def)
  then show ?thesis using inv linked_inner [OF l ok(1) f] by (simp add: pool_inv_def)
qed

lemma put_desc_twice [simp]: "desc_ok s k \<Longrightarrow> put_desc (put_desc s k f) k g = put_desc s k (\<lambda>x. g (f x))"
  by (auto simp: put_desc_def desc_ok_def nth_list_update)

lemma buf_table_owner:
  assumes "buf_table s h" and "owner t = owner s" and "pool_shape t" and "NBuffers t = NBuffers s"
  shows "buf_table t h"
  using assms by (simp add: buf_table_registry wide_enough_def)

lemma owner_kept:
  assumes "steady s X F P B" and "in_pool s b" and "has_flag BM_DELETED (f (D (bp s) b)) = has_flag BM_DELETED (D (bp s) b)" and "tag (f (D (bp s) b)) = tag (D (bp s) b)"
  shows "owner (put_desc (bp s) b f) = owner (bp s)"
proof -
  have b: "pool_shape (bp s)" "0 \<le> b" "b < int (NBuffers (bp s))" using assms(1,2) by (auto simp: steady_def buf_table_def in_pool_def)
  show ?thesis unfolding owner_put [OF b] using assms(3,4) b by (auto simp: owner_def)
qed

lemma buf_table_put:
  assumes "buf_table s h" and b: "0 \<le> b" "b < int (NBuffers s)" and "buf_id (f (D s b)) = buf_id (D s b)"
    and "has_flag BM_DELETED (f (D s b)) = has_flag BM_DELETED (D s b)" and "has_flag BM_DELETED (D s b) \<or> tag (f (D s b)) = tag (D s b)"
  shows "buf_table (put_desc s b f) h"
proof -
  have sh: "pool_shape s" using assms(1) by (simp add: buf_table_def)
  have "owner (put_desc s b f) = owner s" unfolding owner_put [OF sh b] using assms(5,6) b by (auto simp: owner_def)
  then show ?thesis using buf_table_owner [OF assms(1)] pool_shape_put [where f = f, OF sh b assms(4)] by simp
qed

text \<open>What a change to buffer \<open>b\<close> has to establish.\<close>

lemma steady_change:
  assumes S: "steady s X F P B" and b: "in_pool s b" and t: "bp t = put_desc (bp s) b f" "be t = be s" "MyDatabaseId t = MyDatabaseId s" and f: "inner f (D (bp s) b)"
    and tab: "buf_table (bp t) (SharedBufHash t)" and w: "io_in_progress_lock t = (io_in_progress_lock s)[nat b := w]" "has_flag BM_IO_IN_PROGRESS (f (D (bp s) b)) = w"
    and X: "X' = (if w then insert b X else X - {b})"
    and mem: "\<And>c. in_pool s c \<Longrightarrow> c \<noteq> b \<Longrightarrow> blocks t (data (D (bp s) c)) = blocks s (data (D (bp s) c))"
    and B: "\<And>c. in_pool s c \<Longrightarrow> c \<noteq> b \<Longrightarrow> \<not> has_flag BM_DELETED (D (bp s) c) \<Longrightarrow>
      block_at (B' (rel_of (tag (D (bp s) c)))) (blockNum (tag (D (bp s) c))) = block_at (B (rel_of (tag (D (bp s) c)))) (blockNum (tag (D (bp s) c)))"
    and len: "\<And>r. length (B r) \<le> length (B' r)"
    and page: "blocks t (data (D (bp s) b)) = Some page"
    and reg: "\<not> has_flag BM_DELETED (f (D (bp s) b)) \<Longrightarrow> named s F (f (D (bp s) b)) \<and> (\<not> w \<longrightarrow> holds t B' (f (D (bp s) b)))"
    and dirt: "has_flag BM_DIRTY (f (D (bp s) b)) \<Longrightarrow> \<not> has_flag BM_DELETED (f (D (bp s) b)) \<and> \<not> w \<and>
      unat (blockNum (tag (f (D (bp s) b)))) < length (B' (rel_of (tag (f (D (bp s) b)))))"
    and disk: "stored (sm t) F P K'" "agree t F K' B'"
  shows "steady t X' F P B'"
proof -
  obtain xs where xs: "pool_inv (bp s) [be s] xs" using S by (auto simp: steady_def)
  have ok: "desc_ok (bp s) c" if "in_pool s c" for c using in_pool_ok [OF S that] by simp
  have ip: "in_pool t c = in_pool s c" for c by (simp add: in_pool_def t(1))
  have D: "D (bp t) c = (if c = b then f (D (bp s) b) else D (bp s) c)" if "in_pool s c" for c unfolding t(1) using ok [OF that] ok [OF b] by simp
  have data: "data (D (bp t) c) = data (D (bp s) c)" if "in_pool s c" for c using D [OF that] f by (simp add: inner_def)
  have "pool_inv (bp t) [be t] xs" unfolding t(1,2) by (rule pool_inv_inner [OF xs _ _ f]) (use b in \<open>simp_all add: in_pool_def\<close>)
  moreover have "quiet t X'"
  proof -
    have q: "length (io_in_progress_lock s) = NBuffers (bp s)" "\<And>c. in_pool s c \<Longrightarrow> (io_in_progress_lock s ! nat c \<longleftrightarrow> c \<in> X) \<and> (has_flag BM_IO_IN_PROGRESS (D (bp s) c) \<longleftrightarrow> c \<in> X)"
      using S by (simp_all add: steady_def quiet_def)
    have "(io_in_progress_lock t ! nat c \<longleftrightarrow> c \<in> X') \<and> (has_flag BM_IO_IN_PROGRESS (D (bp t) c) \<longleftrightarrow> c \<in> X')" if c: "in_pool s c" for c
    proof (cases "c = b")
      case True
      then show ?thesis using D [OF c] q(1) w X b by (auto simp: in_pool_def)
    next
      case False
      then have "nat c \<noteq> nat b" using c b by (auto simp: in_pool_def)
      then show ?thesis using False D [OF c] q(2) [OF c] w X by auto
    qed
    then show ?thesis using q(1) w(1) ip t(1) by (simp add: quiet_def)
  qed
  moreover have "own_memory t" using S data ip unfolding steady_def own_memory_def by metis
  moreover have "descs_ok t X' F B'" unfolding descs_ok_def ip
  proof (intro allI impI)
    fix c assume c: "in_pool s c"
    show "(\<exists>page. blocks t (data (D (bp t) c)) = Some page) \<and> has_flag BM_VALID (D (bp t) c) \<and> (\<not> has_flag BM_DELETED (D (bp t) c) \<longrightarrow> named t F (D (bp t) c) \<and> (c \<notin> X' \<longrightarrow> holds t B' (D (bp t) c))) \<and>
      (has_flag BM_DIRTY (D (bp t) c) \<longrightarrow> \<not> has_flag BM_DELETED (D (bp t) c) \<and> c \<notin> X' \<and> unat (blockNum (tag (D (bp t) c))) < length (B' (rel_of (tag (D (bp t) c)))))"
    proof (cases "c = b")
      case True
      moreover have "has_flag BM_VALID (D (bp s) b)" using S b by (simp add: steady_def descs_ok_def)
      ultimately show ?thesis using D [OF c] page reg dirt X f t(3) by (auto simp: named_def inner_def)
    next
      case False
      have d: "(\<exists>page. blocks s (data (D (bp s) c)) = Some page)" "has_flag BM_VALID (D (bp s) c)" "\<not> has_flag BM_DELETED (D (bp s) c) \<Longrightarrow> named s F (D (bp s) c) \<and> (c \<notin> X \<longrightarrow> holds s B (D (bp s) c))"
        "has_flag BM_DIRTY (D (bp s) c) \<Longrightarrow> \<not> has_flag BM_DELETED (D (bp s) c) \<and> c \<notin> X \<and> unat (blockNum (tag (D (bp s) c))) < length (B (rel_of (tag (D (bp s) c))))"
        using S c by (auto simp: steady_def descs_ok_def)
      have "c \<notin> X' \<longleftrightarrow> c \<notin> X" using False X by auto
      then show ?thesis using False D [OF c] d mem [OF c False] B [OF c False] len [of "rel_of (tag (D (bp s) c))"] t(3) by (auto simp: named_def holds_def)
    qed
  qed
  ultimately show ?thesis using tab disk unfolding steady_def by blast
qed

end
