(* ===== verification/BufMgr_Ops.thy ===== *)
theory BufMgr_Ops
  imports BufMgr_Inv
begin

text \<open>
  The operations of the buffer manager keep the invariant: writing out a dirty buffer to make place, giving a buffer a new
  name, reading a block in, and marking a buffer dirty.
\<close>

text \<open>What all of them leave alone.\<close>

definition same_env :: "bufs \<Rightarrow> bufs \<Rightarrow> bool" where
  "same_env s t \<longleftrightarrow> MyDatabaseId t = MyDatabaseId s \<and> WriteMode t = WriteMode s \<and> NBuffers (bp t) = NBuffers (bp s) \<and>
     DatabaseName (vfs (sm t)) = DatabaseName (vfs (sm s)) \<and> (\<forall>b. in_pool s b \<longrightarrow> data (D (bp t) b) = data (D (bp s) b)) \<and>
     dom (owner (bp s)) \<subseteq> dom (owner (bp t))"

lemma same_env_trans: "same_env s t \<Longrightarrow> same_env t u \<Longrightarrow> same_env s u"
  unfolding same_env_def in_pool_def by (metis subset_trans)

lemma steady_data:
  assumes "steady s X F P B" and "frame (bp t) = frame (bp s)" and "in_pool s b"
  shows "data (D (bp t) b) = data (D (bp s) b)"
proof -
  have "desc_ok (bp s) b" using in_pool_ok [OF assms(1,3)] by simp
  from content_eqD(2) [OF frame_content [OF assms(2) this]] show ?thesis .
qed

subsection \<open>Writing out\<close>

lemma stored_name:
  assumes "stored m F P K" and "F r = Some (nm, i)"
  shows "length nm < NAMEDATALEN"
proof -
  have "catalog_files (vfs m) F K" using assms(1) by (simp add: stored_def)
  then obtain p where "rel_file (vfs m) (zero_relation\<lparr>relname := nm\<rparr>) = Some p" using catalog_filesD(1) [where F = F, OF _ assms(2)] by blast
  then show ?thesis by (auto simp: rel_file_def relpath_def cstr_def split: Option.bind_splits if_splits)
qed

lemma relation_of_buffer:
  assumes "stored (sm s) F P K" and "F r = Some (sb_relname d, i)"
  shows "RelationIdCacheGetRelation s d = map_option (\<lambda>(m, f). (s\<lparr>sm := m\<rparr>, zero_relation\<lparr>relname := sb_relname d, rd_fd := f, rd_tmpunlinked := False\<rparr>))
    (mdopen (sm s) (zero_relation\<lparr>relname := sb_relname d\<rparr>))"
proof -
  have "namestrcpy (sb_relname d) = sb_relname d" using stored_name [OF assms] by (simp add: namestrcpy_def)
  then show ?thesis by (simp add: RelationIdCacheGetRelation_def smgropen_def smgrsw_def NSmgr_def DEFAULT_SMGR_def zero_relation_def map_conv_bind_option comp_def case_prod_unfold)
qed

text \<open>A block written out through the relation of its buffer.\<close>

lemma write_out:
  assumes out: "out = smgrflush \<or> out = smgrwrite" and st: "stored (sm s) F P K" and n: "named s F d" and k: "unat (blockNum (tag d)) < length (K (rel_of (tag d)))" "length page = BLCKSZ"
  shows "rets (do { (s, r) \<leftarrow> RelationIdCacheGetRelation s d; (m, _, st) \<leftarrow> out 0 (sm s) r (blockNum (tag d)) page; Some (m, st) })
    (\<lambda>(m, st). st = SM_SUCCESS \<and> stored m F P (K(rel_of (tag d) := (K (rel_of (tag d)))[unat (blockNum (tag d)) := page])) \<and> DatabaseName (vfs m) = DatabaseName (vfs (sm s)) \<and>
      disk_room (sys (vfs m)) = disk_room (sys (vfs (sm s))))"
proof -
  let ?r = "zero_relation\<lparr>relname := sb_relname d\<rparr>"
  obtain i where i: "F (rel_of (tag d)) = Some (relname ?r, i)" "F (rel_of (tag d)) = Some (sb_relname d, i)" using n by (auto simp: named_def)
  have "smgrflush 0 = mdflush" "smgrwrite 0 = mdwrite" by (simp_all add: smgrflush_def smgrwrite_def smgrsw_def NSmgr_def fun_eq_iff)
  then obtain mout where mo: "out 0 = mout" "mout = mdwrite \<or> mout = mdflush" using out by metis
  from disk.put_out_ok [OF st i(1) k mo(2)] show ?thesis unfolding relation_of_buffer [OF st i(2)] disk.put_out_def mo(1)
    by (auto simp: rets_def map_conv_bind_option bind_eq_Some_conv)
qed

lemma write_outE:
  assumes "out = smgrflush \<or> out = smgrwrite" and "stored (sm s) F P K" and "named s F d" and "unat (blockNum (tag d)) < length (K (rel_of (tag d)))" and "length page = BLCKSZ"
  obtains m1 r m r' where "RelationIdCacheGetRelation s d = Some (s\<lparr>sm := m1\<rparr>, r)" "out 0 m1 r (blockNum (tag d)) page = Some (m, r', SM_SUCCESS)"
    "stored m F P (K(rel_of (tag d) := (K (rel_of (tag d)))[unat (blockNum (tag d)) := page]))" "DatabaseName (vfs m) = DatabaseName (vfs (sm s))"
    "disk_room (sys (vfs m)) = disk_room (sys (vfs (sm s)))"
proof -
  from write_out [OF assms] obtain s1 r m r' where w: "RelationIdCacheGetRelation s d = Some (s1, r)" "out 0 (sm s1) r (blockNum (tag d)) page = Some (m, r', SM_SUCCESS)"
    "stored m F P (K(rel_of (tag d) := (K (rel_of (tag d)))[unat (blockNum (tag d)) := page]))" "DatabaseName (vfs m) = DatabaseName (vfs (sm s))"
    "disk_room (sys (vfs m)) = disk_room (sys (vfs (sm s)))" by (auto simp: rets_def bind_eq_Some_conv)
  have "s1 = s\<lparr>sm := sm s1\<rparr>" using w(1) by (auto simp: RelationIdCacheGetRelation_def bind_eq_Some_conv)
  then show ?thesis using w by (intro that [of "sm s1" r m r']) simp_all
qed

lemma BufferReplace_ok:
  assumes st: "stored (sm s) F P K" and d: "desc_ok (bp s) b" "d = D (bp s) b" and n: "named s F d" and page: "blocks s (data d) = Some page"
    and k: "unat (blockNum (tag d)) < length (K (rel_of (tag d)))" "length page = BLCKSZ"
  shows "rets (BufferReplace s b True) (\<lambda>(t, ok). ok \<and> t = s\<lparr>bp := put_desc (bp s) b (clear_flag BM_JUST_DIRTIED), BufMgrLock := False, sm := sm t\<rparr> \<and>
    stored (sm t) F P (K(rel_of (tag d) := (K (rel_of (tag d)))[unat (blockNum (tag d)) := page])) \<and> DatabaseName (vfs (sm t)) = DatabaseName (vfs (sm s)) \<and>
    disk_room (sys (vfs (sm t))) = disk_room (sys (vfs (sm s))))"
proof -
  obtain m1 r m r' where w: "RelationIdCacheGetRelation s d = Some (s\<lparr>sm := m1\<rparr>, r)" "smgrflush 0 m1 r (blockNum (tag d)) page = Some (m, r', SM_SUCCESS)"
    "stored m F P (K(rel_of (tag d) := (K (rel_of (tag d)))[unat (blockNum (tag d)) := page]))" "DatabaseName (vfs m) = DatabaseName (vfs (sm s))"
    "disk_room (sys (vfs m)) = disk_room (sys (vfs (sm s)))" by (rule write_outE [OF disjI1 [OF refl] st n k])
  have "SM_SUCCESS \<noteq> SM_FAIL" by (simp add: SM_SUCCESS_def SM_FAIL_def)
  then have "BufferReplace s b True = Some (s\<lparr>bp := put_desc (bp s) b (clear_flag BM_JUST_DIRTIED), BufMgrLock := False, sm := m\<rparr>, True)"
    using n d w(1,2) page by (simp add: BufferReplace_def named_def upd_desc_def SpinRelease_def)
  then show ?thesis using w(3-) by simp
qed

text \<open>
  A claimed dirty buffer is written out, stays claimed, and is then clean. The logical blocks stay as they are.
\<close>

lemma flush_agree:
  assumes ag: "agree s F K B" and S: "steady s X F P B" and b: "in_pool s b" and dirty: "has_flag BM_DIRTY (D (bp s) b)" and d: "d = D (bp s) b"
    and t: "bp t = put_desc (bp s) b f" and f: "tag (f d) = tag d" "\<not> has_flag BM_DIRTY (f d)" and r: "r = rel_of (tag d)" "k = unat (blockNum (tag d))"
    and K': "K' = K(r := (K r)[k := B r ! k])"
  shows "agree t F K' B"
  unfolding agree_def
proof (intro allI impI)
  fix q assume q: "F q \<noteq> None"
  have ok: "desc_ok (bp s) c" if "in_pool s c" for c using in_pool_ok [OF S that] by simp
  have A: "length (K q) = length (B q)" "blocks_ok (B q)" "\<And>j. j < length (B q) \<Longrightarrow> K q ! j = B q ! j \<or> dirty_block s q j" using agreeD [OF ag q] by blast+
  have "K' q ! j = B q ! j \<or> dirty_block t q j" if j: "j < length (B q)" for j
  proof (cases "q = r \<and> j = k")
    case True then show ?thesis using K' A(1) j by simp
  next
    case False
    then have e: "K' q ! j = K q ! j" using K' by auto
    have "dirty_block t q j" if db: "dirty_block s q j"
    proof -
      obtain c where c: "in_pool s c" "has_flag BM_DIRTY (D (bp s) c)" "rel_of (tag (D (bp s) c)) = q" "unat (blockNum (tag (D (bp s) c))) = j"
        using db by (auto simp: dirty_block_def)
      then have "c \<noteq> b" using False r d by auto
      then have "D (bp t) c = D (bp s) c" unfolding t using ok [OF c(1)] ok [OF b] by simp
      then show ?thesis unfolding dirty_block_def using c t by (intro exI [of _ c]) (simp add: in_pool_def)
    qed
    then show ?thesis using A(3) [OF j] e by auto
  qed
  then show "length (K' q) = length (B q) \<and> blocks_ok (B q) \<and> (\<forall>k<length (B q). K' q ! k = B q ! k \<or> dirty_block t q k)" using A(1,2) K' by auto
qed

lemma buffer_facts:
  assumes S: "steady s X F P B" and b: "in_pool s b" and d: "d = D (bp s) b"
  shows "\<not> has_flag BM_DELETED d \<Longrightarrow> named s F d" "\<not> has_flag BM_DELETED d \<Longrightarrow> b \<notin> X \<Longrightarrow> holds s B d" "has_flag BM_DIRTY d \<Longrightarrow> \<not> has_flag BM_DELETED d"
    "has_flag BM_DIRTY d \<Longrightarrow> unat (blockNum (tag d)) < length (B (rel_of (tag d)))" "has_flag BM_DIRTY d \<Longrightarrow> b \<notin> X"
    "has_flag BM_IO_IN_PROGRESS d \<longleftrightarrow> b \<in> X" "io_in_progress_lock s ! nat b \<longleftrightarrow> b \<in> X" "length (io_in_progress_lock s) = NBuffers (bp s)" "\<exists>page. blocks s (data d) = Some page"
    "has_flag BM_VALID d"
  using S b d by (simp_all add: steady_def descs_ok_def quiet_def)

lemma write_victim_ok:
  assumes S: "steady s {} F P B" and b: "in_pool s b" and dirty: "has_flag BM_DIRTY (D (bp s) b)" and one: "refcount (D (bp s) b) = 1" and lk: "BufMgrLock s"
  shows "rets (write_victim s b) (\<lambda>(t, kept). kept \<and> steady t {b} F P B \<and> \<not> has_flag BM_DIRTY (D (bp t) b) \<and> BufMgrLock t \<and> be t = be s \<and>
    SharedBufHash t = SharedBufHash s \<and> owner (bp t) = owner (bp s) \<and> same_env s t \<and> disk_room (sys (vfs (sm t))) = disk_room (sys (vfs (sm s))))"
proof -
  define d where "d = D (bp s) b"
  note bf = buffer_facts [OF S b d_def]
  have ok: "desc_ok (bp s) b" "buf_id (D (bp s) b) = b" using in_pool_ok [OF S b] by simp_all
  have nb: "0 \<le> b" "b < int (NBuffers (bp s))" "nat b < NBuffers (bp s)" using b by (auto simp: in_pool_def)
  have dirt: "has_flag BM_DIRTY d" using dirty by (simp add: d_def)
  have n: "named s F d" "holds s B d" using bf dirt by auto
  obtain K where K: "stored (sm s) F P K" "agree s F K B" using S by (auto simp: steady_def)
  define r k page where "r = rel_of (tag d)" and "k = unat (blockNum (tag d))" and "page = B r ! k"
  have Fr: "F r \<noteq> None" using n(1) by (auto simp: named_def r_def)
  note A = agreeD [OF K(2) Fr]
  have k: "k < length (B r)" "k < length (K r)" using bf(4) [OF dirt] A(1) by (simp_all add: r_def k_def)
  have page: "blocks s (data d) = Some page" "length page = BLCKSZ"
    using n(2) k A(2) by (simp_all add: holds_def block_at_def blocks_ok_nth page_def flip: r_def k_def)
  define s1 where "s1 = s\<lparr>bp := put_desc (bp s) b (set_flag BM_IO_IN_PROGRESS), io_in_progress_lock := (io_in_progress_lock s)[nat b := True]\<rparr>"
  have d1: "desc_ok (bp s1) b" "D (bp s1) b = set_flag BM_IO_IN_PROGRESS d" using ok by (simp_all add: s1_def d_def)
  have n1: "named s1 F (set_flag BM_IO_IN_PROGRESS d)" using n(1) by (simp add: named_def s1_def)
  have st1: "stored (sm s1) F P K" "blocks s1 (data (set_flag BM_IO_IN_PROGRESS d)) = Some page" using K(1) page by (simp_all add: s1_def)
  have k1: "unat (blockNum (tag (set_flag BM_IO_IN_PROGRESS d))) < length (K (rel_of (tag (set_flag BM_IO_IN_PROGRESS d))))" using k by (simp add: k_def r_def)
  from BufferReplace_ok [OF st1(1) d1(1) d1(2) [symmetric] n1 st1(2) k1 page(2)] obtain m where rep: "BufferReplace s1 b True =
      Some (s1\<lparr>bp := put_desc (bp s1) b (clear_flag BM_JUST_DIRTIED), BufMgrLock := False, sm := m\<rparr>, True)"
    "stored m F P (K(r := (K r)[k := page]))" "DatabaseName (vfs m) = DatabaseName (vfs (sm s))" "disk_room (sys (vfs m)) = disk_room (sys (vfs (sm s)))"
    by (elim retsE) (auto simp: k_def r_def s1_def)
  let ?f = "\<lambda>x. clear_flag BM_DIRTY (clear_flag BM_JUST_DIRTIED (set_flag BM_IO_IN_PROGRESS x))"
  define t where "t = s\<lparr>bp := put_desc (bp s) b ?f, io_in_progress_lock := (io_in_progress_lock s)[nat b := True], BufMgrLock := True, sm := m, BufferFlushCount := BufferFlushCount s + 1\<rparr>"
  have "write_victim s b = Some (t, True)"
    using ok nb bf(7,8) rep(1) one
    by (simp add: write_victim_def upd_desc_def S_LOCK_def flip: s1_def)
      (simp add: s1_def SpinAcquire_def upd_desc_def pinned_by_others_def flag_same flag_other apart_def flag_values t_def)
  moreover have "steady t {b} F P B"
  proof (rule steady_change [OF S b, of t ?f True])
    have fl: "has_flag BM_DELETED (?f (D (bp s) b)) = has_flag BM_DELETED (D (bp s) b)" by (simp add: flag_other apart_def flag_values)
    show "buf_table (bp t) (SharedBufHash t)" unfolding t_def using S fl nb
      by (simp add: steady_def) (rule buf_table_put, auto)
    show "inner ?f (D (bp s) b)" by (simp add: inner_def flag_other apart_def flag_values)
    show "has_flag BM_IO_IN_PROGRESS (?f (D (bp s) b)) = True" by (simp add: flag_other flag_same apart_def flag_values)
    show "named s F (?f (D (bp s) b)) \<and> (\<not> True \<longrightarrow> holds t B (?f (D (bp s) b)))" using n(1) by (simp add: named_def d_def)
    show "stored (sm t) F P (K(r := (K r)[k := page]))" using rep(2) by (simp add: t_def)
    show "agree t F (K(r := (K r)[k := page])) B"
      by (rule flush_agree [OF K(2) S b dirty d_def, of t ?f]) (auto simp: t_def flag_same r_def k_def page_def)
    show "blocks t (data (D (bp s) b)) = Some page" using page(1) by (simp add: t_def d_def)
  qed (simp_all add: t_def flag_same)
  moreover have "owner (bp t) = owner (bp s)" using owner_kept [OF S b, of ?f] by (simp add: t_def flag_other apart_def flag_values)
  moreover from this have "same_env s t" unfolding same_env_def using rep(3) ok in_pool_ok [OF S] by (auto simp: t_def)
  ultimately show ?thesis using rep(4) ok by (simp add: t_def flag_same)
qed

subsection \<open>Finding a place\<close>

lemma take_found_ok:
  assumes S: "steady s {} F P B" and b: "in_pool s b"
  shows "rets (take_found s b) (\<lambda>(t, found). found \<and> steady t {} F P B \<and> \<not> BufMgrLock t \<and> t = s\<lparr>bp := bp t, be := be t, BufMgrLock := False\<rparr> \<and> frame (bp t) = frame (bp s) \<and>
    be t = (be s)\<lparr>PrivateRefCount := (PrivateRefCount (be s))[nat b := PrivateRefCount (be s) ! nat b + 1]\<rparr>)"
proof -
  from steady_pin [OF S b] obtain t where t: "pin s b = Some t" "steady t {} F P B" "t = s\<lparr>bp := bp t, be := be t\<rparr>" "frame (bp t) = frame (bp s)"
    "be t = (be s)\<lparr>PrivateRefCount := (PrivateRefCount (be s))[nat b := PrivateRefCount (be s) ! nat b + 1]\<rparr>" by (elim retsE) auto
  have b': "in_pool t b" using b frame_size [OF t(4)] by (simp add: in_pool_def)
  have ok: "desc_ok (bp t) b" using in_pool_ok [OF t(2) b'] by simp
  have "\<not> has_flag BM_IO_IN_PROGRESS (D (bp t) b)" using buffer_facts(6) [OF t(2) b' refl] by simp
  then have "take_found s b = Some (SpinRelease t, True)" using t(1) ok by (simp add: take_found_def)
  moreover have "steady (SpinRelease t) {} F P B" by (rule steady_other [OF t(2)]) (simp_all add: SpinRelease_def)
  moreover have "SpinRelease t = s\<lparr>bp := bp t, be := be t, BufMgrLock := False\<rparr>" unfolding SpinRelease_def by (subst t(3)) simp
  ultimately show ?thesis using t(4,5) by (simp add: SpinRelease_def)
qed

lemma alloc_loop_ok:
  assumes S: "steady s {} F P B" and free: "can_claim s" and lk: "BufMgrLock s" and new: "BufTableLookup (SharedBufHash s) tg = Some None"
  shows "rets (alloc_loop s tg) (\<lambda>(t, a). \<exists>b w. a = Claimed b w \<and> in_pool s b \<and> \<not> held (be s) (nat b) \<and> steady t (if w then {b} else {}) F P B \<and> \<not> has_flag BM_DIRTY (D (bp t) b) \<and>
    BufMgrLock t \<and> be t = (be s)\<lparr>PrivateRefCount := (PrivateRefCount (be s))[nat b := 1]\<rparr> \<and> SharedBufHash t = SharedBufHash s \<and> same_env s t \<and>
    disk_room (sys (vfs (sm t))) = disk_room (sys (vfs (sm s))))"
proof -
  from steady_claim [OF S free] obtain t b where t: "claim s = Some (t, Some b)" "in_pool s b" "\<not> held (be s) (nat b)" "steady t {} F P B" "t = s\<lparr>bp := bp t, be := be t\<rparr>"
    "frame (bp t) = frame (bp s)" "be t = (be s)\<lparr>PrivateRefCount := (PrivateRefCount (be s))[nat b := 1]\<rparr>" "refcount (D (bp t) b) = 1" by (elim retsE) auto
  have b: "in_pool t b" using t(2) frame_size [OF t(6)] by (simp add: in_pool_def)
  have ok: "desc_ok (bp t) b" using in_pool_ok [OF t(4) b] by simp
  have e: "BufMgrLock t = BufMgrLock s" "SharedBufHash t = SharedBufHash s" "MyDatabaseId t = MyDatabaseId s" "WriteMode t = WriteMode s" "sm t = sm s" by (subst t(5), simp)+
  have env: "same_env s t" using e frame_size [OF t(6)] steady_data [OF S t(6)] frame_owner [OF S t(6)] by (simp add: same_env_def)
  show ?thesis
  proof (cases "has_flag BM_DIRTY (D (bp t) b)")
    case True
    have "BufMgrLock t" using e(1) lk by simp
    from write_victim_ok [OF t(4) b True t(8) this] obtain u where u: "write_victim t b = Some (u, True)" "steady u {b} F P B" "\<not> has_flag BM_DIRTY (D (bp u) b)" "BufMgrLock u"
      "be u = be t" "SharedBufHash u = SharedBufHash t" "same_env t u" "disk_room (sys (vfs (sm u))) = disk_room (sys (vfs (sm t)))" by (elim retsE) auto
    have "alloc_loop s tg = Some (u, Claimed b True)" by (subst alloc_loop.simps) (use t(1) ok True u(1,6) e(2) new in simp)
    then show ?thesis using t(2,3,7) u e same_env_trans [OF env u(7)] by auto
  next
    case False
    have "alloc_loop s tg = Some (t, Claimed b False)" by (subst alloc_loop.simps) (use t(1) ok False in simp)
    then show ?thesis using t(2,3,4,7) e env False lk by auto
  qed
qed

lemma has_flag_names [simp]:
  "has_flag m (d\<lparr>sb_relname := v\<rparr>) = has_flag m d" "has_flag m (d\<lparr>sb_dbname := v\<rparr>) = has_flag m d" "has_flag m (d\<lparr>bufsmgr := n\<rparr>) = has_flag m d" "has_flag m (d\<lparr>tag := g\<rparr>) = has_flag m d"
  by (simp_all add: has_flag_def)

lemma clean_agree:
  assumes ag: "agree s F K B" and S: "steady s X F P B" and b: "in_pool s b" and t: "bp t = put_desc (bp s) b f" and cl: "\<not> has_flag BM_DIRTY (D (bp s) b)" "\<not> has_flag BM_DIRTY (f (D (bp s) b))"
  shows "agree t F K B"
proof -
  have ok: "desc_ok (bp s) c" if "in_pool s c" for c using in_pool_ok [OF S that] by simp
  have "in_pool t c = in_pool s c" for c by (simp add: in_pool_def t)
  moreover have "D (bp t) c = (if c = b then f (D (bp s) b) else D (bp s) c)" if "in_pool s c" for c unfolding t using ok [OF that] ok [OF b] by simp
  ultimately have "dirty_block t = dirty_block s" unfolding dirty_block_def fun_eq_iff using cl by metis
  then show ?thesis using ag by (simp add: agree_def)
qed

text \<open>The relation descriptor of a caller: open, in the catalog, and with its identifier worked out.\<close>

definition client :: "bufs \<Rightarrow> catalog \<Rightarrow> (int \<rightharpoonup> rid) \<Rightarrow> RelationData \<Rightarrow> rid \<Rightarrow> bool" where
  "client s F P reln r \<longleftrightarrow> \<not> rd_islocal reln \<and> relsmgr reln = 0 \<and> P (rd_fd reln) = Some r \<and> (\<exists>i. F r = Some (relname reln, i)) \<and>
     RelationGetLRelId (MyDatabaseId s) reln = Some (reln, r) \<and> (fst r = MyDatabaseId s \<or> fst r = 0) \<and> length (DatabaseName (vfs (sm s))) \<le> NAMEDATALEN"

definition tag_of :: "rid \<Rightarrow> uint32 \<Rightarrow> BufferTag" where
  "tag_of r blk = \<lparr>dbId = fst r, relId = snd r, blockNum = blk\<rparr>"

lemma tag_of_simps [simp]: "rel_of (tag_of r blk) = r" "blockNum (tag_of r blk) = blk" "dbId (tag_of r blk) = fst r"
  by (simp_all add: rel_of_def tag_of_def)

lemma client_tag: "client s F P reln r \<Longrightarrow> INIT_BUFFERTAG (MyDatabaseId s) reln blk = Some (reln, tag_of r blk)"
  by (cases r) (simp add: client_def INIT_BUFFERTAG_def tag_of_def)

lemma client_env: "client s F P reln r \<Longrightarrow> same_env s t \<Longrightarrow> client t F P reln r"
  by (simp add: client_def same_env_def)

text \<open>The claimed buffer gets the tag of the block, and is marked as being filled.\<close>

lemma rename_ok:
  assumes S: "steady s (if w then {b} else {}) F P B" and b: "in_pool s b" and clean: "\<not> has_flag BM_DIRTY (D (bp s) b)" and c: "client s F P reln r"
    and blk: "unat blk < RELSEG_SIZE" and new: "tag_of r blk \<notin> ran (owner (bp s))" and el: "has_element (SharedBufHash s) \<or> owner (bp s) b \<noteq> None"
  shows "rets (rename_buffer s reln b blk w) (\<lambda>(t, reln'). reln' = reln \<and> steady t {b} F P B \<and> owner (bp t) b = Some (tag_of r blk) \<and> \<not> has_flag BM_DIRTY (D (bp t) b) \<and>
    \<not> BufMgrLock t \<and> be t = be s \<and> same_env s t \<and> sm t = sm s \<and> blocks t = blocks s \<and> bufsmgr (D (bp t) b) = 0)"
proof -
  have ok: "desc_ok (bp s) b" "buf_id (D (bp s) b) = b" using in_pool_ok [OF S b] by simp_all
  have nb: "0 \<le> b" "b < int (NBuffers (bp s))" "nat b < NBuffers (bp s)" using b by (auto simp: in_pool_def)
  note bf = buffer_facts [OF S b refl]
  obtain K where K: "stored (sm s) F P K" "agree s F K B" and tab: "buf_table (bp s) (SharedBufHash s)" using S by (auto simp: steady_def)
  obtain i where Fr: "F r = Some (relname reln, i)" using c by (auto simp: client_def)
  have nm: "cstr (relname reln) = Some (relname reln)" using stored_name [OF K(1) Fr] by (simp add: cstr_def)
  define g where "g = (if has_flag BM_DELETED (D (bp s) b) then (\<lambda>x. x) else set_flag BM_DELETED)"
  from delete_table [OF tab nb(1,2)] obtain p1 h1 where h1: "BufTableDelete (bp s) (SharedBufHash s) b = Some (p1, h1, True)" "buf_table p1 h1" "owner p1 = (owner (bp s))(b := None)"
    "p1 = (if has_flag BM_DELETED (D (bp s) b) then bp s else put_desc (bp s) b (set_flag BM_DELETED))" by (elim retsE) auto
  have p1: "p1 = put_desc (bp s) b g" using h1(4) ok by (auto simp: g_def put_desc_def D_def desc_ok_def)
  define e where "e x = (g x)\<lparr>sb_relname := relname reln, sb_dbname := DatabaseName (vfs (sm s)), bufsmgr := 0, tag := tag_of r blk\<rparr>" for x
  define p2 where "p2 = put_desc (bp s) b e"
  have del: "has_flag BM_DELETED (g (D (bp s) b))" "has_flag BM_DELETED (e (D (bp s) b))" by (simp_all add: g_def e_def)
  have p2: "p2 = put_desc p1 b (\<lambda>x. x\<lparr>sb_relname := relname reln, sb_dbname := DatabaseName (vfs (sm s)), bufsmgr := 0, tag := tag_of r blk\<rparr>)"
    using ok by (simp add: p2_def p1 e_def [abs_def])
  have tab2: "buf_table p2 h1" unfolding p2 by (rule buf_table_put [OF h1(2)]) (use ok nb del in \<open>simp_all add: p1\<close>)
  have sh: "pool_shape (bp s)" using tab by (simp add: buf_table_def)
  have own2: "owner p2 = (owner (bp s))(b := None)" unfolding p2_def owner_put [OF sh nb(1,2)] using del(2) by simp
  have D2: "D p2 b = e (D (bp s) b)" "NBuffers p2 = NBuffers (bp s)" "desc_ok p2 b" using ok by (simp_all add: p2_def)
  have "has_element h1" using el delete_has_element [OF h1(1)] delete_frees [OF h1(1)] by (auto simp: owner_def split: if_splits)
  moreover have "tag (D p2 b) \<notin> ran (owner p2)" using new by (auto simp: D2 e_def own2 ran_def split: if_splits)
  moreover have "has_flag BM_DELETED (D p2 b)" using del(2) D2 by simp
  ultimately have "rets (BufTableInsert p2 h1 b) (\<lambda>(s', h', ok). ok \<and> buf_table s' h' \<and> owner s' = (owner p2)(b \<mapsto> tag (D p2 b)) \<and>
    s' = put_desc p2 b (clear_flag BM_DELETED) \<and> max_bucket h' = max_bucket h1)" using nb D2 by (intro insert_table [OF tab2]) simp_all
  then obtain h3 where h3: "BufTableInsert p2 h1 b = Some (put_desc p2 b (clear_flag BM_DELETED), h3, True)" "buf_table (put_desc p2 b (clear_flag BM_DELETED)) h3" by (elim retsE) auto
  define u where "u = (if w then (\<lambda>x. x) else set_flag BM_IO_IN_PROGRESS)"
  let ?f = "\<lambda>x. u (clear_flag BM_DELETED (e x))"
  define t where "t = s\<lparr>bp := put_desc (bp s) b ?f, SharedBufHash := h3, io_in_progress_lock := (io_in_progress_lock s)[nat b := True], BufMgrLock := False\<rparr>"
  have u: "has_flag m (u x) = has_flag m x" if "apart m BM_IO_IN_PROGRESS" for m x using that by (simp add: u_def flag_other)
  have usel: "tag (u x) = tag x" "data (u x) = data x" "bufsmgr (u x) = bufsmgr x" "sb_relname (u x) = sb_relname x" "refcount (u x) = refcount x" "freeNext (u x) = freeNext x"
    "freePrev (u x) = freePrev x" "buf_id (u x) = buf_id x" for x by (simp_all add: u_def)
  have gsel: "data (g x) = data x" "refcount (g x) = refcount x" "freeNext (g x) = freeNext x" "freePrev (g x) = freePrev x" "buf_id (g x) = buf_id x"
    "apart m BM_DELETED \<Longrightarrow> has_flag m (g x) = has_flag m x" for x m by (simp_all add: g_def flag_other)
  have ap: "apart BM_DELETED BM_IO_IN_PROGRESS" "apart BM_DIRTY BM_IO_IN_PROGRESS" "apart BM_FREE BM_IO_IN_PROGRESS" "apart BM_DIRTY BM_DELETED" "apart BM_FREE BM_DELETED" "apart BM_IO_IN_PROGRESS BM_DELETED"
    "apart BM_VALID BM_DELETED" "apart BM_VALID BM_IO_IN_PROGRESS" by (simp_all add: apart_def flag_values)
  have p4: "put_desc (put_desc p2 b (clear_flag BM_DELETED)) b u = put_desc (bp s) b ?f" using ok by (simp add: p2_def)
  have lock: "(io_in_progress_lock s)[nat b := True] = io_in_progress_lock s" if w using bf(7) that by (simp add: list_update_same_conv bf(8) nb)
  have "rename_buffer s reln b blk w = Some (t, reln)"
    using h1(1) nm ok h3(1) c client_tag [OF c, of blk] bf(7,8) nb lock D2(3) p4
    by (cases w) (simp_all add: rename_buffer_def upd_desc_def p1 client_def p2_def e_def [abs_def] S_LOCK_def SpinRelease_def u_def t_def)
  moreover have "steady t {b} F P B"
  proof (rule steady_change [OF S b, of t ?f True])
    show "buf_table (bp t) (SharedBufHash t)" unfolding t_def
      by (simp flip: p4) (rule buf_table_put [OF h3(2)], use ok nb D2 u [OF ap(1)] usel in \<open>auto simp: p2_def\<close>)
    show "inner ?f (D (bp s) b)" using ap by (simp add: inner_def usel u flag_other e_def gsel)
    show "has_flag BM_IO_IN_PROGRESS (?f (D (bp s) b)) = True"
      using bf(6) ap flag_same(1) [of BM_IO_IN_PROGRESS] by (simp add: u_def flag_other e_def gsel) (simp add: flag_values)
    show "named s F (?f (D (bp s) b)) \<and> (\<not> True \<longrightarrow> holds t B (?f (D (bp s) b)))" using Fr c blk by (simp add: named_def usel e_def client_def)
    show "stored (sm t) F P K" using K(1) by (simp add: t_def)
    have "\<not> has_flag BM_DIRTY (?f (D (bp s) b))" using clean ap by (simp add: u flag_other e_def gsel)
    then show "agree t F K B" by (intro clean_agree [OF K(2) S b _ clean, of t ?f]) (simp_all add: t_def)
    then show "has_flag BM_DIRTY (?f (D (bp s) b)) \<Longrightarrow> \<not> has_flag BM_DELETED (?f (D (bp s) b)) \<and> \<not> True \<and> unat (blockNum (tag (?f (D (bp s) b)))) < length (B (rel_of (tag (?f (D (bp s) b)))))"
      using clean ap by (simp add: u flag_other e_def gsel)
    show "blocks t (data (D (bp s) b)) = Some (the (blocks s (data (D (bp s) b))))" using bf(9) by (auto simp: t_def)
  qed (auto simp: t_def)
  moreover have "owner (bp t) b = Some (tag_of r blk)" "\<not> has_flag BM_DIRTY (D (bp t) b)" "bufsmgr (D (bp t) b) = 0"
    using nb ok clean ap by (simp_all add: t_def owner_def u flag_other e_def gsel usel)
  moreover have "dom (owner (bp s)) \<subseteq> dom (owner (bp t))"
    unfolding t_def using owner_put [OF sh nb(1,2), of ?f] ap del by (auto simp: u flag_other)
  then have "same_env s t" using ok in_pool_ok [OF S] by (auto simp: same_env_def t_def usel e_def gsel)
  ultimately show ?thesis by (simp add: t_def)
qed

subsection \<open>Filling the buffer\<close>

lemma owner_unique:
  assumes "steady s X F P B" and "owner (bp s) b = Some tg" and "owner (bp s) c = Some tg"
  shows "c = b"
proof -
  obtain m where "\<And>t b. m t = Some b \<longleftrightarrow> owner (bp s) b = Some t" using assms(1) by (auto simp: steady_def buf_table_def)
  then have "m tg = Some b" "m tg = Some c" using assms(2,3) by simp_all
  then show ?thesis by simp
qed

lemma owner_pool: "owner (bp s) b = Some tg \<Longrightarrow> in_pool s b \<and> \<not> has_flag BM_DELETED (D (bp s) b) \<and> tag (D (bp s) b) = tg"
  by (auto simp: owner_def in_pool_def split: if_splits)

text \<open>The buffer that is registered for a block and clean is the only one that could be dirty for it.\<close>

lemma clean_block:
  assumes S: "steady s X F P B" and own: "owner (bp s) b = Some (tag_of r blk)" and clean: "\<not> has_flag BM_DIRTY (D (bp s) b)"
  shows "\<not> dirty_block s r (unat blk)"
proof
  assume "dirty_block s r (unat blk)"
  then obtain c where c: "in_pool s c" "has_flag BM_DIRTY (D (bp s) c)" "rel_of (tag (D (bp s) c)) = r" "unat (blockNum (tag (D (bp s) c))) = unat blk" by (auto simp: dirty_block_def)
  have "\<not> has_flag BM_DELETED (D (bp s) c)" using buffer_facts(3) [OF S c(1) refl c(2)] .
  moreover have "tag (D (bp s) c) = tag_of r blk" using c(3,4) by (cases "tag (D (bp s) c)") (auto simp: rel_of_def tag_of_def word_unat_eq_iff)
  ultimately have "owner (bp s) c = Some (tag_of r blk)" using c(1) by (simp add: owner_def in_pool_def)
  then show False using owner_unique [OF S own] clean c(2) by blast
qed

lemma filled_steady:
  assumes S: "steady s {b} F P B" and own: "owner (bp s) b = Some (tag_of r blk)" and clean: "\<not> has_flag BM_DIRTY (D (bp s) b)"
    and t: "t = s\<lparr>bp := put_desc (bp s) b (clear_flag (BM_IO_ERROR OR BM_IO_IN_PROGRESS)), io_in_progress_lock := (io_in_progress_lock s)[nat b := False], BufMgrLock := False,
      blocks := (blocks s)(data (D (bp s) b) \<mapsto> block_at (B' r) blk), sm := m\<rparr>"
    and disk: "stored m F P K'" "agree s F K' B'"
    and B': "\<And>q c. block_at (B' q) c = block_at (B q) c" "\<And>q. length (B q) \<le> length (B' q)"
  shows "steady t {} F P B'"
proof -
  have b: "in_pool s b" "\<not> has_flag BM_DELETED (D (bp s) b)" "tag (D (bp s) b) = tag_of r blk" using owner_pool [OF own] by auto
  have ok: "desc_ok (bp s) b" using in_pool_ok [OF S b(1)] by simp
  have nb: "0 \<le> b" "b < int (NBuffers (bp s))" using b(1) by (auto simp: in_pool_def)
  have om: "own_memory s" using S by (simp add: steady_def)
  let ?f = "clear_flag (BM_IO_ERROR OR BM_IO_IN_PROGRESS)"
  have ap: "apart BM_DELETED (BM_IO_ERROR OR BM_IO_IN_PROGRESS)" "apart BM_DIRTY (BM_IO_ERROR OR BM_IO_IN_PROGRESS)" "apart BM_FREE (BM_IO_ERROR OR BM_IO_IN_PROGRESS)"
    by (simp_all add: apart_def flag_values)
  have "agree t F K' B'"
  proof -
    have "dirty_block t = dirty_block s"
    proof -
      have "in_pool t c = in_pool s c" for c by (simp add: in_pool_def t)
      moreover have "tag (D (bp t) c) = tag (D (bp s) c) \<and> has_flag BM_DIRTY (D (bp t) c) = has_flag BM_DIRTY (D (bp s) c)" if "in_pool s c" for c
        using in_pool_ok [OF S that] ok ap by (auto simp: t flag_other)
      ultimately show ?thesis unfolding dirty_block_def fun_eq_iff by metis
    qed
    then show ?thesis using disk(2) by (simp add: agree_def)
  qed
  then show ?thesis
  proof (rule steady_change [OF S b(1), of t ?f False, rotated -1])
    show "buf_table (bp t) (SharedBufHash t)" unfolding t using S nb ap b by (simp add: steady_def) (rule buf_table_put, auto simp: flag_other)
    show "inner ?f (D (bp s) b)" using ap by (simp add: inner_def flag_other apart_or) (simp add: flag_other apart_def flag_values)
    have "flags (D (bp s) b) AND NOT (BM_IO_ERROR OR BM_IO_IN_PROGRESS) AND BM_IO_IN_PROGRESS = 0" by (auto simp: bit_eq_iff bit_simps)
    then show "has_flag BM_IO_IN_PROGRESS (?f (D (bp s) b)) = False" by (simp add: has_flag_def clear_flag_def and.assoc)
    show "blocks t (data (D (bp s) c)) = blocks s (data (D (bp s) c))" if "in_pool s c" "c \<noteq> b" for c using om that b(1) by (auto simp: t own_memory_def)
    show "named s F (?f (D (bp s) b)) \<and> (\<not> False \<longrightarrow> holds t B' (?f (D (bp s) b)))" using buffer_facts(1) [OF S b(1) refl b(2)] b(3) by (simp add: named_def holds_def t)
    show "stored (sm t) F P K'" using disk(1) by (simp add: t)
    show "has_flag BM_DIRTY (?f (D (bp s) b)) \<Longrightarrow> \<not> has_flag BM_DELETED (?f (D (bp s) b)) \<and> \<not> False \<and> unat (blockNum (tag (?f (D (bp s) b)))) < length (B' (rel_of (tag (?f (D (bp s) b)))))"
      using clean ap by (simp add: flag_other)
    show "blocks t (data (D (bp s) b)) = Some (block_at (B' r) blk)" by (simp add: t)
  qed (use B' in \<open>auto simp: t\<close>)
qed

text \<open>A block beyond the end of a relation reads as zeros, so appending one that is zero changes nothing read.\<close>

definition extended :: "contents \<Rightarrow> rid \<Rightarrow> contents" where
  "extended B r = B(r := B r @ [zero_block])"

lemma block_at_extended: "block_at (extended B r q) c = block_at (B q) c"
  by (auto simp: extended_def block_at_def nth_append zero_block_def)

lemma finish_read_ok:
  assumes ok: "desc_ok (bp s) b" "buf_id (D (bp s) b) = b" and lk: "\<not> BufMgrLock s"
  shows "finish_read s b SM_SUCCESS = Some (s\<lparr>bp := put_desc (bp s) b (clear_flag (BM_IO_ERROR OR BM_IO_IN_PROGRESS)), io_in_progress_lock := (io_in_progress_lock s)[nat b := False],
    BufMgrLock := False\<rparr>, b + 1)"
  using assms by (simp add: finish_read_def SpinAcquire_def SpinRelease_def S_UNLOCK_def upd_desc_def SM_SUCCESS_def SM_FAIL_def BufferDescriptorGetBuffer_def)

subsection \<open>Allocation\<close>

text \<open>
  There is a buffer for the block: it has one, or one can be claimed and registered. When all buffers are registered, the one that is claimed
  gives its table element back.
\<close>

definition in_use :: "bufs \<Rightarrow> bool" where
  "in_use s \<longleftrightarrow> (\<forall>b. in_pool s b \<longrightarrow> owner (bp s) b \<noteq> None)"

lemma in_use_env: "in_use s \<Longrightarrow> same_env s t \<Longrightarrow> in_use t"
  unfolding in_use_def same_env_def in_pool_def by (metis domIff subsetD)

definition has_place :: "bufs \<Rightarrow> BufferTag \<Rightarrow> bool" where
  "has_place s tg \<longleftrightarrow> (\<exists>b. owner (bp s) b = Some tg) \<or> can_claim s \<and> (has_element (SharedBufHash s) \<or> in_use s)"

definition pinned :: "bufs \<Rightarrow> int \<Rightarrow> bool" where
  "pinned s b \<longleftrightarrow> PrivateRefCount (be s) ! nat b > 0"

definition taken :: "bufs \<Rightarrow> bufs \<Rightarrow> int \<Rightarrow> bool" where
  "taken s t b \<longleftrightarrow> be t = (be s)\<lparr>PrivateRefCount := (PrivateRefCount (be s))[nat b := PrivateRefCount (be s) ! nat b + 1]\<rparr>"

lemma block_not_new: "unat blk < RELSEG_SIZE \<Longrightarrow> blk \<noteq> P_NEW"
  by (auto simp: P_NEW_def InvalidBlockNumber_def RELSEG_SIZE_def)

lemma steady_backend: "steady s X F P B \<Longrightarrow> backend_ok (NBuffers (bp s)) (be s)"
  using pool_inv_backend [OF _ one] by (auto simp: steady_def)

lemma taken_pinned: "steady s X F P B \<Longrightarrow> in_pool s b \<Longrightarrow> taken s t b \<Longrightarrow> pinned t b"
  using steady_backend [of s X F P B] by (auto simp: pinned_def taken_def backend_ok_def in_pool_def)

lemma BufferAlloc_ok:
  assumes S: "steady s {} F P B" and lk: "BufMgrLock s = hold" and c: "client s F P reln r" and blk: "unat blk < RELSEG_SIZE" and pl: "has_place s (tag_of r blk)"
  shows "rets (BufferAlloc s reln blk hold) (\<lambda>(t, reln', res, found). reln' = reln \<and> (\<exists>b. res = Some b \<and> owner (bp t) b = Some (tag_of r blk) \<and> \<not> BufMgrLock t \<and> same_env s t \<and> taken s t b \<and>
    (if found then steady t {} F P B else steady t {b} F P B \<and> \<not> has_flag BM_DIRTY (D (bp t) b)) \<and> disk_room (sys (vfs (sm t))) = disk_room (sys (vfs (sm s)))))"
proof -
  note nn = block_not_new [OF blk]
  define s1 where "s1 = s\<lparr>BufMgrLock := True\<rparr>"
  have S1: "steady s1 {} F P B" by (rule steady_other [OF S]) (simp_all add: s1_def)
  have acq: "(if hold then Some s else SpinAcquire s) = Some s1" using lk by (simp add: SpinAcquire_def s1_def)
  have same1: "bp s1 = bp s" "be s1 = be s" "SharedBufHash s1 = SharedBufHash s" "sm s1 = sm s" "MyDatabaseId s1 = MyDatabaseId s" by (simp_all add: s1_def)
  have env1: "same_env s s1" by (simp add: same_env_def s1_def)
  have tab: "buf_table (bp s) (SharedBufHash s)" using S by (simp add: steady_def)
  obtain res where res: "BufTableLookup (SharedBufHash s) (tag_of r blk) = Some res" "\<And>b. res = Some b \<longleftrightarrow> owner (bp s) b = Some (tag_of r blk)"
    using lookup_table [OF tab, of "tag_of r blk"] nn by auto
  show ?thesis
  proof (cases res)
    case (Some b)
    have own: "owner (bp s) b = Some (tag_of r blk)" using res(2) [of b] Some by simp
    have b: "in_pool s1 b" using owner_pool [OF own] by (simp add: in_pool_def s1_def)
    from take_found_ok [OF S1 b] obtain t where t: "take_found s1 b = Some (t, True)" "steady t {} F P B" "\<not> BufMgrLock t" "t = s1\<lparr>bp := bp t, be := be t, BufMgrLock := False\<rparr>" "frame (bp t) = frame (bp s)"
      "be t = (be s)\<lparr>PrivateRefCount := (PrivateRefCount (be s))[nat b := PrivateRefCount (be s) ! nat b + 1]\<rparr>" by (elim retsE) (auto simp: s1_def)
    have ok: "desc_ok (bp s) b" using in_pool_ok [OF S1 b] by (simp add: s1_def)
    note ct = content_eqD [OF frame_content [OF t(5) ok]]
    have "owner (bp t) b = Some (tag_of r blk)" using own frame_size [OF t(5)] ct(1) ct(6) [of BM_DELETED] by (auto simp: owner_def split: if_splits)
    moreover have e: "sm t = sm s" "MyDatabaseId t = MyDatabaseId s" "WriteMode t = WriteMode s" by (subst t(4), simp add: s1_def)+
    have "same_env s t" using e frame_size [OF t(5)] steady_data [OF S t(5)] frame_owner [OF S t(5)] by (simp add: same_env_def)
    moreover have "taken s t b" using t(6) by (simp add: taken_def)
    moreover have "BufferAlloc s reln blk hold = Some (t, reln, Some b, True)"
      using nn client_tag [OF c, of blk] acq res(1) Some t(1) same1 by (simp add: BufferAlloc_def)
    ultimately show ?thesis using t(2,3) e by simp
  next
    case None
    have new: "tag_of r blk \<notin> ran (owner (bp s))" using res(2) None by (auto simp: ran_def)
    then have cl: "can_claim s1" "has_element (SharedBufHash s) \<or> in_use s" using pl by (auto simp: has_place_def ran_def can_claim_def in_pool_def s1_def)
    have "BufMgrLock s1" "BufTableLookup (SharedBufHash s1) (tag_of r blk) = Some None" using res(1) None by (simp_all add: s1_def)
    from alloc_loop_ok [OF S1 cl(1) this] obtain t b w where t: "alloc_loop s1 (tag_of r blk) = Some (t, Claimed b w)" "in_pool s1 b" "steady t (if w then {b} else {}) F P B" "\<not> has_flag BM_DIRTY (D (bp t) b)"
      "be t = (be s)\<lparr>PrivateRefCount := (PrivateRefCount (be s))[nat b := 1]\<rparr>" "SharedBufHash t = SharedBufHash s" "same_env s1 t" "disk_room (sys (vfs (sm t))) = disk_room (sys (vfs (sm s)))" and nh: "\<not> held (be s) (nat b)"
      by (elim retsE) (auto simp: s1_def)
    have env: "same_env s t" by (rule same_env_trans [OF env1 t(7)])
    have b: "in_pool t b" using t(2) env by (simp add: in_pool_def same_env_def s1_def)
    have tabt: "buf_table (bp t) (SharedBufHash s)" using t(3,6) by (simp add: steady_def)
    have newt: "tag_of r blk \<notin> ran (owner (bp t))"
    proof -
      obtain q where "BufTableLookup (SharedBufHash s) (tag_of r blk) = Some q" "\<And>b. q = Some b \<longleftrightarrow> owner (bp t) b = Some (tag_of r blk)" using lookup_table [OF tabt, of "tag_of r blk"] nn by auto
      then show ?thesis using res(1) None by (auto simp: ran_def)
    qed
    have el: "has_element (SharedBufHash t) \<or> owner (bp t) b \<noteq> None" using cl(2) t(6) in_use_env [OF _ env] b by (auto simp: in_use_def)
    from rename_ok [OF t(3) b t(4) client_env [OF c env] blk newt el] obtain u where u: "rename_buffer t reln b blk w = Some (u, reln)" "steady u {b} F P B" "owner (bp u) b = Some (tag_of r blk)"
      "\<not> has_flag BM_DIRTY (D (bp u) b)" "\<not> BufMgrLock u" "be u = be t" "same_env t u" "sm u = sm t" by (elim retsE) auto
    have "BufferAlloc s reln blk hold = Some (u, reln, Some b, False)"
      using nn client_tag [OF c, of blk] acq res(1) None t(1) u(1) same1 by (simp add: BufferAlloc_def)
    moreover have "PrivateRefCount (be s) ! nat b = 0" using unheld(1) [OF steady_backend [OF S] _ nh] t(2) by (auto simp: in_pool_def s1_def)
    then have "taken s u b" using u(6) t(5) by (simp add: taken_def)
    ultimately show ?thesis using u same_env_trans [OF env u(7)] t(8) by simp
  qed
qed

end
