(* ===== verification/BufMgr_Read.thy ===== *)
theory BufMgr_Read
  imports BufMgr_Ops
begin

text \<open>
  Reading and writing through the buffer manager, against the logical blocks of the relations.
\<close>

subsection \<open>Reading\<close>

lemma client_stored:
  assumes "steady s X F P B" and "client s F P reln r"
  obtains K where "stored (sm s) F P K" "agree s F K B" "length (K r) = length (B r)" "P (rd_fd reln) = Some r" "blocks_ok (B r)" "length (B r) < RELSEG_SIZE"
proof -
  obtain K where K: "stored (sm s) F P K" "agree s F K B" using assms(1) by (auto simp: steady_def)
  obtain i where F: "F r = Some (relname reln, i)" using assms(2) by (auto simp: client_def)
  have "length (K r) < RELSEG_SIZE" using disk.sizes [OF K(1) F] by simp
  moreover have "length (K r) = length (B r)" "blocks_ok (B r)" using agreeD [OF K(2), of r] F by simp_all
  ultimately show ?thesis using that [OF K] assms(2) by (simp add: client_def)
qed

text \<open>The block of a clean registered buffer is on disk as it is logically.\<close>

lemma disk_block:
  assumes S: "steady s X F P B" and ag: "agree s F K B" and F: "F r \<noteq> None" and own: "owner (bp s) b = Some (tag_of r blk)" and clean: "\<not> has_flag BM_DIRTY (D (bp s) b)"
  shows "block_at (K r) blk = block_at (B r) blk"
  using agreeD(1) [OF ag F] agreeD(3) [OF ag F, of "unat blk"] clean_block [OF S own clean] by (auto simp: block_at_def)

text \<open>Input into a buffer that was registered for it.\<close>

lemma fill_read_ok:
  assumes S: "steady s {b} F P B" and lk: "\<not> BufMgrLock s" and own: "owner (bp s) b = Some (tag_of r blk)" and clean: "\<not> has_flag BM_DIRTY (D (bp s) b)"
    and c: "client s F P reln r" and blk: "unat blk < RELSEG_SIZE"
  shows "rets (do { (s, reln, status) \<leftarrow> fill_buffer s reln (D (bp s) b) blk; (s, buffer) \<leftarrow> finish_read s b status; Some (s, reln, buffer) })
    (\<lambda>(t, reln', buffer). reln' = reln \<and> buffer = b + 1 \<and> coherent t F P B \<and> owner (bp t) b = Some (tag_of r blk) \<and> be t = be s \<and> same_env s t \<and>
      disk_room (sys (vfs (sm t))) = disk_room (sys (vfs (sm s))))"
proof -
  have b: "in_pool s b" "\<not> has_flag BM_DELETED (D (bp s) b)" "tag (D (bp s) b) = tag_of r blk" using owner_pool [OF own] by auto
  note bf = buffer_facts [OF S b(1) refl]
  have ok: "desc_ok (bp s) b" "buf_id (D (bp s) b) = b" using in_pool_ok [OF S b(1)] by simp_all
  have z: "bufsmgr (D (bp s) b) = 0" using bf(1) b(2) by (simp add: named_def)
  obtain K where K: "stored (sm s) F P K" "agree s F K B" "P (rd_fd reln) = Some r" by (rule client_stored [OF S c])
  have Fr: "F r \<noteq> None" using c by (auto simp: client_def)
  obtain page where page: "blocks s (data (D (bp s) b)) = Some page" using bf(9) by blast
  from disk.read_law [OF K(1,3) blk, of page] obtain m where m: "mdread (sm s) reln blk page = Some (m, reln, SM_SUCCESS, block_at (K r) blk)" "stored m F P K"
    "DatabaseName (vfs m) = DatabaseName (vfs (sm s))" "disk_room (sys (vfs m)) = disk_room (sys (vfs (sm s)))" by (elim retsE) auto
  have eq: "block_at (K r) blk = block_at (B r) blk" by (rule disk_block [OF S K(2) Fr own clean])
  define s1 where "s1 = s\<lparr>blocks := (blocks s)(data (D (bp s) b) \<mapsto> block_at (B r) blk), sm := m\<rparr>"
  have fill: "fill_buffer s reln (D (bp s) b) blk = Some (s1, reln, SM_SUCCESS)"
    using page z m(1) block_not_new [OF blk] eq by (simp add: fill_buffer_def smgrread_def smgrsw_def NSmgr_def s1_def)
  have fin: "finish_read s1 b SM_SUCCESS = Some (s1\<lparr>bp := put_desc (bp s) b (clear_flag (BM_IO_ERROR OR BM_IO_IN_PROGRESS)), io_in_progress_lock := (io_in_progress_lock s)[nat b := False],
      BufMgrLock := False\<rparr>, b + 1)" (is "_ = Some (?t, _)")
    using finish_read_ok [of s1 b] ok lk by (simp add: s1_def)
  have st: "steady ?t {} F P B"
    by (rule filled_steady [OF S own clean _ m(2) K(2)]) (simp_all add: s1_def)
  have ow: "owner (bp ?t) = owner (bp s)" using owner_kept [OF S b(1)] by (simp add: flag_other apart_def flag_values)
  then have "owner (bp ?t) b = Some (tag_of r blk)" using own by simp
  moreover have "same_env s ?t" using m(3) ok in_pool_ok [OF S] ow by (auto simp: same_env_def s1_def)
  ultimately show ?thesis using fill fin st m(4) by (simp add: coherent_def s1_def)
qed

lemma read_shared_ok:
  assumes S: "steady s {} F P B" and lk: "BufMgrLock s = hold" and c: "client s F P reln r" and blk: "unat blk < RELSEG_SIZE" and pl: "has_place s (tag_of r blk)"
  shows "rets (read_shared s reln blk hold) (\<lambda>(t, reln', buffer). reln' = reln \<and> coherent t F P B \<and> owner (bp t) (buffer - 1) = Some (tag_of r blk) \<and> taken s t (buffer - 1) \<and> same_env s t \<and>
    disk_room (sys (vfs (sm t))) = disk_room (sys (vfs (sm s))))"
proof -
  from BufferAlloc_ok [OF assms] obtain t b found where t: "BufferAlloc s reln blk hold = Some (t, reln, Some b, found)" "owner (bp t) b = Some (tag_of r blk)" "\<not> BufMgrLock t" "same_env s t" "taken s t b"
    "if found then steady t {} F P B else steady t {b} F P B \<and> \<not> has_flag BM_DIRTY (D (bp t) b)" "disk_room (sys (vfs (sm t))) = disk_room (sys (vfs (sm s)))" by (elim retsE) auto
  have b: "in_pool t b" using owner_pool [OF t(2)] by simp
  show ?thesis
  proof (cases found)
    case True
    then have st: "steady t {} F P B" using t(6) by simp
    then have ok: "desc_ok (bp t) b" "buf_id (D (bp t) b) = b" using in_pool_ok [OF _ b] by auto
    let ?u = "t\<lparr>BufferHitCount := BufferHitCount t + 1\<rparr>"
    have "read_shared s reln blk hold = Some (?u, reln, b + 1)"
      using t(1) True ok block_not_new [OF blk] by (simp add: read_shared_def BufferDescriptorGetBuffer_def)
    moreover have "steady ?u {} F P B" by (rule steady_other [OF st]) simp_all
    ultimately show ?thesis using t by (simp add: coherent_def taken_def same_env_def)
  next
    case False
    then have st: "steady t {b} F P B" "\<not> has_flag BM_DIRTY (D (bp t) b)" using t(6) by simp_all
    have ok: "desc_ok (bp t) b" using in_pool_ok [OF st(1) b] by simp
    have "read_shared s reln blk hold = do { (s, reln, status) \<leftarrow> fill_buffer t reln (D (bp t) b) blk; (s, buffer) \<leftarrow> finish_read s b status; Some (s, reln, buffer) }"
      using t(1) False ok by (simp add: read_shared_def)
    moreover note fill_read_ok [OF st(1) t(3,2) st(2) client_env [OF c t(4)] blk]
    ultimately show ?thesis using t(5,7) by (auto simp: taken_def elim!: rets_mono intro: same_env_trans [OF t(4)])
  qed
qed

subsection \<open>Extending\<close>

lemma extended_agree:
  assumes "agree s F K B"
  shows "agree s F (K(r := K r @ [zero_block])) (extended B r)"
  unfolding agree_def
proof (intro allI impI)
  fix q assume q: "F q \<noteq> None"
  note A = agreeD [OF assms q]
  have z: "length zero_block = BLCKSZ" by (simp add: zero_block_def)
  show "length ((K(r := K r @ [zero_block])) q) = length (extended B r q) \<and> blocks_ok (extended B r q) \<and>
    (\<forall>k<length (extended B r q). (K(r := K r @ [zero_block])) q ! k = extended B r q ! k \<or> dirty_block s q k)"
  proof (cases "q = r")
    case True
    have "(K r @ [zero_block]) ! k = (B r @ [zero_block]) ! k \<or> dirty_block s r k" if "k < Suc (length (B r))" for k
      using A(1) A(3) [of k] that True by (cases "k = length (B r)") (auto simp: nth_append)
    then show ?thesis using A True z by (simp add: extended_def blocks_ok_def)
  qed (use A in \<open>simp add: extended_def\<close>)
qed

lemma length_extended: "length (B q) \<le> length (extended B r q)"
  by (simp add: extended_def)

text \<open>The next block: its buffer holds zeros and the file has it.\<close>

lemma extend_disk:
  assumes S: "steady s X F P B" and c: "client s F P reln r" and small: "Suc (length (B r)) < RELSEG_SIZE" and room: "BLCKSZ \<le> disk_room (sys (vfs (sm s)))"
    and z: "bufsmgr d = 0" and page: "blocks s (data d) = Some page"
  obtains m K' where "fill_buffer s reln d P_NEW = Some (s\<lparr>blocks := (blocks s)(data d \<mapsto> zero_block), sm := m\<rparr>, reln, SM_SUCCESS)" "stored m F P K'" "agree s F K' (extended B r)"
    "DatabaseName (vfs m) = DatabaseName (vfs (sm s))" "disk_room (sys (vfs m)) = disk_room (sys (vfs (sm s))) - BLCKSZ"
proof -
  obtain K where K: "stored (sm s) F P K" "agree s F K B" "length (K r) = length (B r)" "P (rd_fd reln) = Some r" by (rule client_stored [OF S c])
  have l: "Suc (length (K r)) < RELSEG_SIZE" "length zero_block = BLCKSZ" using small K(3) by (simp_all add: zero_block_def)
  from disk.extend_law [OF K(1,4) l room] obtain m where m: "mdextend (sm s) reln zero_block = Some (m, reln, SM_SUCCESS)" "stored m F P (K(r := K r @ [zero_block]))"
    "DatabaseName (vfs m) = DatabaseName (vfs (sm s))" "disk_room (sys (vfs m)) = disk_room (sys (vfs (sm s))) - BLCKSZ" by (elim retsE) auto
  have "fill_buffer s reln d P_NEW = Some (s\<lparr>blocks := (blocks s)(data d \<mapsto> zero_block), sm := m\<rparr>, reln, SM_SUCCESS)"
    using m(1) z page by (simp add: fill_buffer_def smgrextend_def smgrsw_def NSmgr_def)
  then show ?thesis using that m extended_agree [OF K(2)] by blast
qed

lemma next_zero: "unat n = length (B r) \<Longrightarrow> block_at (extended B r r) n = zero_block"
  by (simp add: extended_def block_at_def)

lemma read_new_ok:
  assumes S: "steady s {} F P B" and lk: "BufMgrLock s = hold" and c: "client s F P reln r" and small: "Suc (length (B r)) < RELSEG_SIZE"
    and room: "BLCKSZ \<le> disk_room (sys (vfs (sm s)))" and pl: "has_place s (tag_of r (of_nat (length (B r))))"
  shows "rets (read_shared s reln P_NEW hold) (\<lambda>(t, reln', buffer). reln' = reln \<and> coherent t F P (extended B r) \<and> owner (bp t) (buffer - 1) = Some (tag_of r (of_nat (length (B r)))) \<and>
    taken s t (buffer - 1) \<and> same_env s t)"
proof -
  define n :: uint32 where "n = of_nat (length (B r))"
  have "length (B r) < 2 ^ 32" using small by (simp add: RELSEG_SIZE_def)
  then have n: "unat n = length (B r)" "unat n < RELSEG_SIZE" using small by (simp_all add: n_def unat_of_nat take_bit_nat_eq_self)
  obtain K where K: "stored (sm s) F P K" "agree s F K B" "length (K r) = length (B r)" "P (rd_fd reln) = Some r" by (rule client_stored [OF S c])
  from disk.count_law [OF K(1,4)] obtain m0 where m0: "mdnblocks (sm s) reln = Some (m0, int (length (B r)))" "stored m0 F P K" "disk_room (sys (vfs m0)) = disk_room (sys (vfs (sm s)))"
    "DatabaseName (vfs m0) = DatabaseName (vfs (sm s))" using K(3) by (elim retsE) auto
  define s0 where "s0 = s\<lparr>sm := m0\<rparr>"
  have ag0: "agree s0 F K B" using K(2) by (simp add: agree_def dirty_block_def in_pool_def s0_def)
  have S0: "steady s0 {} F P B"
    using S m0(2) ag0 unfolding steady_def by (auto simp: s0_def quiet_def own_memory_def descs_ok_def in_pool_def named_def holds_def)
  have env0: "same_env s s0" using m0(4) by (simp add: same_env_def s0_def)
  have al: "BufferAlloc s reln P_NEW hold = BufferAlloc s0 reln n hold"
    using m0(1) c block_not_new [OF n(2)] by (simp add: BufferAlloc_def smgrnblocks_def smgrsw_def NSmgr_def client_def s0_def n_def)
  have pl0: "has_place s0 (tag_of r n)" using pl by (simp add: has_place_def can_claim_def in_use_def in_pool_def s0_def n_def)
  have lk0: "BufMgrLock s0 = hold" using lk by (simp add: s0_def)
  from BufferAlloc_ok [OF S0 lk0 client_env [OF c env0] n(2) pl0] obtain t b found where t: "BufferAlloc s0 reln n hold = Some (t, reln, Some b, found)" "owner (bp t) b = Some (tag_of r n)"
    "\<not> BufMgrLock t" "same_env s0 t" "taken s t b" "if found then steady t {} F P B else steady t {b} F P B \<and> \<not> has_flag BM_DIRTY (D (bp t) b)" "disk_room (sys (vfs (sm t))) = disk_room (sys (vfs (sm s)))"
    using m0(3) by (elim retsE) (auto simp: s0_def taken_def)
  have env: "same_env s t" by (rule same_env_trans [OF env0 t(4)])
  have b: "in_pool t b" "\<not> has_flag BM_DELETED (D (bp t) b)" "tag (D (bp t) b) = tag_of r n" using owner_pool [OF t(2)] by auto
  define X where "X = (if found then {} else {b})"
  have st: "steady t X F P B" using t(6) by (simp add: X_def)
  note bf = buffer_facts [OF st b(1) refl]
  have ok: "desc_ok (bp t) b" "buf_id (D (bp t) b) = b" using in_pool_ok [OF st b(1)] by simp_all
  have clean: "\<not> has_flag BM_DIRTY (D (bp t) b)" using bf(4) b(3) n(1) by auto
  obtain page where page: "blocks t (data (D (bp t) b)) = Some page" using bf(9) by blast
  have z: "bufsmgr (D (bp t) b) = 0" using bf(1) b(2) by (simp add: named_def)
  have rm: "BLCKSZ \<le> disk_room (sys (vfs (sm t)))" using room t(7) by simp
  define u where "u = (if found then t\<lparr>BufferHitCount := BufferHitCount t + 1\<rparr> else t)"
  have u: "bp u = bp t" "be u = be t" "sm u = sm t" "blocks u = blocks t" "BufMgrLock u = BufMgrLock t" "SharedBufHash u = SharedBufHash t" "io_in_progress_lock u = io_in_progress_lock t"
    "MyDatabaseId u = MyDatabaseId t" "WriteMode u = WriteMode t" by (simp_all add: u_def)
  have su: "steady u X F P B" by (rule steady_other [OF st]) (simp_all add: u)
  have cu: "client u F P reln r" using client_env [OF c env] by (simp add: client_def u)
  obtain m K' where f: "fill_buffer u reln (D (bp t) b) P_NEW = Some (u\<lparr>blocks := (blocks u)(data (D (bp t) b) \<mapsto> zero_block), sm := m\<rparr>, reln, SM_SUCCESS)" "stored m F P K'" "agree u F K' (extended B r)"
    "DatabaseName (vfs m) = DatabaseName (vfs (sm t))"
    by (rule extend_disk [OF su cu small, of "D (bp t) b" page]) (use rm z page u in auto)
  show ?thesis
  proof (cases found)
    case True
    let ?v = "u\<lparr>blocks := (blocks u)(data (D (bp t) b) \<mapsto> zero_block), sm := m\<rparr>"
    have "read_shared s reln P_NEW hold = Some (?v, reln, b + 1)" using al t(1) True ok f(1) by (simp add: read_shared_def BufferDescriptorGetBuffer_def u_def)
    moreover have h: "blocks u (data (D (bp t) b)) = Some zero_block" using bf(2) b True n(1) by (simp add: X_def holds_def block_at_def zero_block_def u)
    then have "?v = u\<lparr>sm := m\<rparr>" by (simp add: fun_upd_idem)
    moreover have "steady (u\<lparr>sm := m\<rparr>) {} F P (extended B r)"
    proof (rule steady_change [OF su, of b _ "\<lambda>x. x" False])
      show "agree (u\<lparr>sm := m\<rparr>) F K' (extended B r)" using f(3) by (simp add: agree_def dirty_block_def in_pool_def)
      show "io_in_progress_lock (u\<lparr>sm := m\<rparr>) = (io_in_progress_lock u)[nat b := False]"
        using bf(7) True list_update_id [of "io_in_progress_lock t" "nat b"] by (simp add: X_def u)
    qed (use su b True bf clean f(2) h in \<open>auto simp: inner_def u X_def in_pool_def put_desc_def D_def desc_ok_def steady_def named_def holds_def block_at_extended length_extended\<close>)
    ultimately show ?thesis using t(2,3,5) env f(4) by (simp add: coherent_def n_def taken_def same_env_def u)
  next
    case False
    let ?v = "u\<lparr>blocks := (blocks u)(data (D (bp t) b) \<mapsto> zero_block), sm := m\<rparr>"
    let ?w = "?v\<lparr>bp := put_desc (bp t) b (clear_flag (BM_IO_ERROR OR BM_IO_IN_PROGRESS)), io_in_progress_lock := (io_in_progress_lock t)[nat b := False], BufMgrLock := False\<rparr>"
    have "finish_read ?v b SM_SUCCESS = Some (?w, b + 1)" using finish_read_ok [of ?v b] ok t(3) by (simp add: u)
    then have "read_shared s reln P_NEW hold = Some (?w, reln, b + 1)" using al t(1) False ok f(1) by (simp add: read_shared_def u_def)
    moreover have "steady ?w {} F P (extended B r)"
      by (rule filled_steady [of u b F P B r n]) (use su False t(2) clean f(2,3) next_zero [where B = B and r = r, OF n(1)] in \<open>auto simp: u X_def block_at_extended length_extended\<close>)
    moreover have ow: "owner (bp ?w) = owner (bp t)" using owner_kept [OF st b(1)] by (simp add: flag_other apart_def flag_values)
    moreover have "same_env s ?w" using env f(4) ok in_pool_ok [OF st] ow by (auto simp: same_env_def in_pool_def u)
    ultimately show ?thesis using t(2,5) by (simp add: coherent_def n_def taken_def u)
  qed
qed

end
