(* ===== verification/BufMgr_Write.thy ===== *)
theory BufMgr_Write
  imports BufMgr_Read
begin

text \<open>
  Writing through the buffer manager: marking a buffer dirty, forcing it out, and the synchronisation of the pool.
\<close>

text \<open>A caller writes into the page that a buffer holds; it becomes the logical block.\<close>

definition poke :: "bufs \<Rightarrow> int \<Rightarrow> byte list \<Rightarrow> bufs" where
  "poke s b page = s\<lparr>blocks := (blocks s)(data (D (bp s) b) \<mapsto> page)\<rparr>"

definition changed :: "contents \<Rightarrow> rid \<Rightarrow> uint32 \<Rightarrow> byte list \<Rightarrow> contents" where
  "changed B r blk page = B(r := (B r)[unat blk := page])"

lemma changed_other: "q \<noteq> r \<or> c \<noteq> blk \<Longrightarrow> block_at (changed B r blk page q) c = block_at (B q) c"
  by (auto simp: changed_def block_at_def nth_list_update word_unat_eq_iff)

lemma changed_same: "unat blk < length (B r) \<Longrightarrow> block_at (changed B r blk page r) blk = page"
  by (simp add: changed_def block_at_def)

lemma length_changed [simp]: "length (changed B r blk page q) = length (B q)"
  by (simp add: changed_def)

text \<open>The disk agrees with the new contents: it has the block as well, or the buffer is dirty.\<close>

lemma changed_agree:
  assumes ag: "agree s F K B" and S: "steady s X F P B" and own: "owner (bp s) b = Some (tag_of r blk)" and t: "bp t = put_desc (bp s) b f" and f: "tag (f (D (bp s) b)) = tag (D (bp s) b)"
    and page: "length page = BLCKSZ" and K': "K' = K \<and> has_flag BM_DIRTY (f (D (bp s) b)) \<or> K' = changed K r blk page"
  shows "agree t F K' (changed B r blk page)"
  unfolding agree_def
proof (intro allI impI)
  fix q assume q: "F q \<noteq> None"
  note A = agreeD [OF ag q]
  have b: "in_pool s b" "tag (D (bp s) b) = tag_of r blk" using owner_pool [OF own] by auto
  have ok: "desc_ok (bp s) c" if "in_pool s c" for c using in_pool_ok [OF S that] by simp
  have Db: "D (bp t) b = f (D (bp s) b)" "in_pool t b" using ok [OF b(1)] b(1) t by (simp_all add: in_pool_def)
  have "K' q ! j = changed B r blk page q ! j \<or> dirty_block t q j" if j: "j < length (B q)" for j
  proof (cases "q = r \<and> j = unat blk")
    case True
    then have "K' q ! j = changed B r blk page q ! j" if "K' = changed K r blk page" using that A(1) j by (simp add: changed_def)
    moreover have "dirty_block t q j" if "has_flag BM_DIRTY (f (D (bp s) b))"
      unfolding dirty_block_def using that Db b(2) f True by (intro exI [of _ b]) simp
    ultimately show ?thesis using K' by blast
  next
    case False
    then have e: "K' q ! j = K q ! j" "changed B r blk page q ! j = B q ! j" using K' by (auto simp: changed_def)
    have "dirty_block t q j" if db: "dirty_block s q j"
    proof -
      obtain c where c: "in_pool s c" "has_flag BM_DIRTY (D (bp s) c)" "rel_of (tag (D (bp s) c)) = q" "unat (blockNum (tag (D (bp s) c))) = j" using db by (auto simp: dirty_block_def)
      then have "c \<noteq> b" using False b(2) by auto
      then have "D (bp t) c = D (bp s) c" unfolding t using ok [OF c(1)] ok [OF b(1)] by simp
      then show ?thesis unfolding dirty_block_def using c t by (intro exI [of _ c]) (simp add: in_pool_def)
    qed
    then show ?thesis using A(3) [OF j] e by auto
  qed
  moreover have "blocks_ok (changed B r blk page q)" using A(2) page by (auto simp: changed_def blocks_ok_update)
  moreover have "length (K' q) = length (B q)" using K' A(1) by (auto simp: changed_def)
  ultimately show "length (K' q) = length (changed B r blk page q) \<and> blocks_ok (changed B r blk page q) \<and>
    (\<forall>k<length (changed B r blk page q). K' q ! k = changed B r blk page q ! k \<or> dirty_block t q k)" by simp
qed

lemma changed_steady:
  assumes S: "steady s {} F P B" and own: "owner (bp s) b = Some (tag_of r blk)" and blk: "unat blk < length (B r)" and page: "length page = BLCKSZ"
    and t: "bp t = put_desc (bp s) b f" "be t = be s" "MyDatabaseId t = MyDatabaseId s" "SharedBufHash t = SharedBufHash s" "io_in_progress_lock t = io_in_progress_lock s"
      "blocks t = (blocks s)(data (D (bp s) b) \<mapsto> page)"
    and f: "\<And>m. apart m (BM_DIRTY OR BM_JUST_DIRTIED) \<Longrightarrow> has_flag m (f (D (bp s) b)) = has_flag m (D (bp s) b)" "(f (D (bp s) b))\<lparr>flags := 0\<rparr> = (D (bp s) b)\<lparr>flags := 0\<rparr>"
    and disk: "stored (sm t) F P K'" "agree t F K' (changed B r blk page)"
  shows "steady t {} F P (changed B r blk page)"
proof -
  let ?d = "D (bp s) b"
  have b: "in_pool s b" "\<not> has_flag BM_DELETED ?d" "tag ?d = tag_of r blk" using owner_pool [OF own] by auto
  have nb: "0 \<le> b" "b < int (NBuffers (bp s))" using b(1) by (auto simp: in_pool_def)
  note bf = buffer_facts [OF S b(1) refl]
  have ap: "apart BM_DELETED (BM_DIRTY OR BM_JUST_DIRTIED)" "apart BM_FREE (BM_DIRTY OR BM_JUST_DIRTIED)" "apart BM_IO_IN_PROGRESS (BM_DIRTY OR BM_JUST_DIRTIED)"
    "apart BM_VALID (BM_DIRTY OR BM_JUST_DIRTIED)" by (simp_all add: apart_def flag_values)
  have fs: "tag (f ?d) = tag ?d" "data (f ?d) = data ?d" "bufsmgr (f ?d) = bufsmgr ?d" "sb_relname (f ?d) = sb_relname ?d" "refcount (f ?d) = refcount ?d" "freeNext (f ?d) = freeNext ?d"
    "freePrev (f ?d) = freePrev ?d" "buf_id (f ?d) = buf_id ?d"
    using f(2) by (metis BufferDesc.select_convs BufferDesc.surjective BufferDesc.update_convs(6))+
  show ?thesis
  proof (rule steady_change [OF S b(1) t(1-3), where w = False and K' = K' and page = page])
    show "inner f ?d" using fs f(1) [OF ap(2)] f(1) [OF ap(4)] by (simp add: inner_def)
    show "buf_table (bp t) (SharedBufHash t)" unfolding t(1,4) by (rule buf_table_put) (use S nb fs f(1) [OF ap(1)] in \<open>auto simp: steady_def\<close>)
    show "io_in_progress_lock t = (io_in_progress_lock s)[nat b := False]" using t(5) bf(7) list_update_id [of "io_in_progress_lock s" "nat b"] by simp
    show "has_flag BM_IO_IN_PROGRESS (f ?d) = False" using f(1) [OF ap(3)] bf(6) by simp
    show "blocks t (data (D (bp s) c)) = blocks s (data (D (bp s) c))" if "in_pool s c" "c \<noteq> b" for c using that S b(1) by (auto simp: t(6) steady_def own_memory_def)
    show "block_at (changed B r blk page (rel_of (tag (D (bp s) c)))) (blockNum (tag (D (bp s) c))) = block_at (B (rel_of (tag (D (bp s) c)))) (blockNum (tag (D (bp s) c)))"
      if c: "in_pool s c" "c \<noteq> b" "\<not> has_flag BM_DELETED (D (bp s) c)" for c
    proof (rule changed_other, rule ccontr)
      assume "\<not> (rel_of (tag (D (bp s) c)) \<noteq> r \<or> blockNum (tag (D (bp s) c)) \<noteq> blk)"
      then have "tag (D (bp s) c) = tag_of r blk" by (cases "tag (D (bp s) c)") (auto simp: rel_of_def tag_of_def)
      then have "owner (bp s) c = Some (tag_of r blk)" using c by (simp add: owner_def in_pool_def)
      then show False using owner_unique [OF S own] c(2) by blast
    qed
    show "named s F (f ?d) \<and> (\<not> False \<longrightarrow> holds t (changed B r blk page) (f ?d))" using bf(1) b fs changed_same [where B = B and r = r, OF blk] by (simp add: named_def holds_def t(6))
    show "has_flag BM_DIRTY (f ?d) \<Longrightarrow> \<not> has_flag BM_DELETED (f ?d) \<and> \<not> False \<and> unat (blockNum (tag (f ?d))) < length (changed B r blk page (rel_of (tag (f ?d))))"
      using f(1) [OF ap(1)] b fs blk by simp
  qed (use disk t(6) in simp_all)
qed

subsection \<open>The operations\<close>

lemma pinned_refcount:
  assumes S: "steady s X F P B" and b: "in_pool s b" and pin: "pinned s b"
  shows "refcount (D (bp s) b) \<noteq> 0"
proof -
  obtain xs where xs: "pool_inv (bp s) [be s] xs" using S by (auto simp: steady_def)
  have nb: "nat b < NBuffers (bp s)" "int (nat b) = b" using b by (auto simp: in_pool_def)
  have "held (be s) (nat b)" using pin by (simp add: pinned_def held_def)
  then show ?thesis using pool_inv_refcount [OF xs nb(1)] nb(2) by simp
qed

definition unpinned :: "bufs \<Rightarrow> bufs \<Rightarrow> int \<Rightarrow> bool" where
  "unpinned s t b \<longleftrightarrow> be t = (be s)\<lparr>PrivateRefCount := (PrivateRefCount (be s))[nat b := PrivateRefCount (be s) ! nat b - 1]\<rparr>"

lemma flag_only: "(set_flag m d)\<lparr>flags := 0\<rparr> = d\<lparr>flags := 0\<rparr>" "(clear_flag m d)\<lparr>flags := 0\<rparr> = d\<lparr>flags := 0\<rparr>"
  by (simp_all add: set_flag_def clear_flag_def)

text \<open>The last steps of \<open>WriteBuffer\<close> and \<open>FlushBuffer\<close>.\<close>

lemma unpin_release_lock:
  assumes S: "steady s {} F P B" and b: "in_pool s b" and pin: "pinned s b"
  shows "rets (do { s \<leftarrow> unpin s b; Some (SpinRelease s, st) }) (\<lambda>(t, st'). st' = st \<and> coherent t F P B \<and> unpinned s t b \<and> same_env s t \<and> owner (bp t) = owner (bp s) \<and> sm t = sm s \<and>
    has_flag BM_DIRTY (D (bp t) b) = has_flag BM_DIRTY (D (bp s) b))"
proof -
  have pos: "0 < PrivateRefCount (be s) ! nat b" using pin by (simp add: pinned_def)
  from steady_unpin [OF S b pos] obtain t where t: "unpin s b = Some t" "steady t {} F P B" "t = s\<lparr>bp := bp t, be := be t\<rparr>" "frame (bp t) = frame (bp s)"
    "be t = (be s)\<lparr>PrivateRefCount := (PrivateRefCount (be s))[nat b := PrivateRefCount (be s) ! nat b - 1]\<rparr>" by (elim retsE) auto
  have "steady (SpinRelease t) {} F P B" by (rule steady_other [OF t(2)]) (simp_all add: SpinRelease_def)
  moreover have e: "sm t = sm s" "MyDatabaseId t = MyDatabaseId s" "WriteMode t = WriteMode s" by (subst t(3), simp)+
  have "same_env s t" using e frame_size [OF t(4)] steady_data [OF S t(4)] frame_owner [OF S t(4)] by (simp add: same_env_def)
  moreover have "owner (bp t) = owner (bp s)" by (rule frame_owner [OF S t(4)])
  moreover have "desc_ok (bp s) b" using in_pool_ok [OF S b] by simp
  note content_eqD(6) [OF frame_content [OF t(4) this] other_flags(1)]
  ultimately show ?thesis using t(1,5) e by (simp add: SpinRelease_def coherent_def unpinned_def same_env_def)
qed

lemma WriteBuffer_late:
  assumes C: "coherent s F P B" and own: "owner (bp s) b = Some (tag_of r blk)" and pin: "pinned s b" and blk: "unat blk < length (B r)" and page: "length page = BLCKSZ"
    and mode: "WriteMode s \<noteq> BUFFER_FLUSH_WRITE"
  shows "rets (WriteBuffer (poke s b page) (b + 1)) (\<lambda>(t, st). st = 1 \<and> coherent t F P (changed B r blk page) \<and> unpinned s t b \<and> same_env s t \<and> owner (bp t) = owner (bp s) \<and>
    has_flag BM_DIRTY (D (bp t) b))"
proof -
  have S: "steady s {} F P B" and lk: "\<not> BufMgrLock s" using C by (simp_all add: coherent_def)
  have b: "in_pool s b" "\<not> has_flag BM_DELETED (D (bp s) b)" "tag (D (bp s) b) = tag_of r blk" using owner_pool [OF own] by auto
  have ok: "desc_ok (bp s) b" using in_pool_ok [OF S b(1)] by simp
  have nb: "\<not> BufferIsLocal (b + 1)" "\<not> BAD_BUFFER_ID (bp s) (b + 1)" using b(1) by (simp_all add: in_pool_def BufferIsLocal_def BAD_BUFFER_ID_def)
  obtain K where K: "stored (sm s) F P K" "agree s F K B" using S by (auto simp: steady_def)
  let ?f = "set_flag (BM_DIRTY OR BM_JUST_DIRTIED)"
  define u where "u = (poke s b page)\<lparr>BufMgrLock := True, bp := put_desc (bp s) b ?f\<rparr>"
  have "flags (D (bp s) b) OR (BM_DIRTY OR BM_JUST_DIRTIED) = (flags (D (bp s) b) OR BM_JUST_DIRTIED) OR BM_DIRTY" by (simp add: or.assoc or.commute)
  then have "has_flag BM_DIRTY (?f (D (bp s) b)) = has_flag BM_DIRTY (set_flag BM_DIRTY (set_flag BM_JUST_DIRTIED (D (bp s) b)))" by (simp add: has_flag_def set_flag_def)
  then have dirty: "has_flag BM_DIRTY (?f (D (bp s) b))" using flag_same(1) [of BM_DIRTY] by (simp add: BM_DIRTY_def)
  have "agree u F K (changed B r blk page)" by (rule changed_agree [OF K(2) S own _ _ page, of u ?f]) (use dirty in \<open>simp_all add: u_def\<close>)
  then have Su: "steady u {} F P (changed B r blk page)"
    by (intro changed_steady [OF S own blk page, of u ?f K]) (use K(1) in \<open>simp_all add: u_def poke_def flag_other flag_only\<close>)
  have u: "in_pool u b" "pinned u b" "sm u = sm s" "be u = be s" using b(1) pin by (simp_all add: in_pool_def u_def poke_def pinned_def)
  have ow: "owner (bp u) = owner (bp s)" using owner_kept [OF S b(1), of ?f] by (simp add: u_def flag_other apart_def flag_values)
  moreover have "same_env s u" unfolding same_env_def ow using ok in_pool_ok [OF S] by (auto simp: u_def poke_def)
  moreover have "WriteBuffer (poke s b page) (b + 1) = do { s \<leftarrow> unpin u b; Some (SpinRelease s, 1) }"
    using mode nb ok lk pinned_refcount [OF S b(1) pin] by (simp add: WriteBuffer_def SpinAcquire_def upd_desc_def poke_def u_def)
  moreover have "has_flag BM_DIRTY (D (bp u) b)" using dirty ok by (simp add: u_def)
  moreover note unpin_release_lock [OF Su u(1,2), of 1]
  ultimately show ?thesis using u(4) by (auto elim!: rets_mono simp: unpinned_def intro: same_env_trans)
qed

text \<open>
  \<open>FlushBuffer\<close> also makes the block reach the disk.
\<close>

lemma FlushBuffer_ok:
  assumes C: "coherent s F P B" and own: "owner (bp s) b = Some (tag_of r blk)" and pin: "pinned s b" and blk: "unat blk < length (B r)" and page: "length page = BLCKSZ"
  shows "rets (FlushBuffer (poke s b page) (b + 1) True) (\<lambda>(t, st). st = STATUS_OK \<and> coherent t F P (changed B r blk page) \<and> unpinned s t b \<and> same_env s t \<and> owner (bp t) = owner (bp s) \<and>
    (\<exists>K. stored (sm t) F P K \<and> block_at (K r) blk = page))"
proof -
  have S: "steady s {} F P B" and lk: "\<not> BufMgrLock s" using C by (simp_all add: coherent_def)
  have b: "in_pool s b" "\<not> has_flag BM_DELETED (D (bp s) b)" "tag (D (bp s) b) = tag_of r blk" using owner_pool [OF own] by auto
  have ok: "desc_ok (bp s) b" using in_pool_ok [OF S b(1)] by simp
  have nb: "\<not> BufferIsLocal (b + 1)" "\<not> BAD_BUFFER_ID (bp s) (b + 1)" using b(1) by (simp_all add: in_pool_def BufferIsLocal_def BAD_BUFFER_ID_def)
  have n: "named s F (D (bp s) b)" using buffer_facts(1) [OF S b(1) refl b(2)] .
  obtain K where K: "stored (sm s) F P K" "agree s F K B" using S by (auto simp: steady_def)
  have Fr: "F r \<noteq> None" using n b(3) by (auto simp: named_def)
  have kl: "unat (blockNum (tag (D (bp s) b))) < length (K (rel_of (tag (D (bp s) b))))" "unat blk < length (K r)" using agreeD(1) [OF K(2) Fr] blk b(3) by simp_all
  have np: "named (poke s b page) F (D (bp s) b)" "stored (sm (poke s b page)) F P K" using n K(1) by (simp_all add: named_def poke_def)
  obtain m1 rel m rel' where w: "RelationIdCacheGetRelation (poke s b page) (D (bp s) b) = Some ((poke s b page)\<lparr>sm := m1\<rparr>, rel)" "smgrflush 0 m1 rel blk page = Some (m, rel', SM_SUCCESS)"
    "stored m F P (changed K r blk page)" "DatabaseName (vfs m) = DatabaseName (vfs (sm s))"
    by (rule write_outE [OF disjI1 [OF refl] np(2,1) kl(1) page]) (auto simp: changed_def b(3) poke_def)
  let ?f = "\<lambda>x. clear_flag BM_DIRTY (clear_flag BM_JUST_DIRTIED x)"
  define u where "u = (poke s b page)\<lparr>sm := m, BufMgrLock := True, bp := put_desc (bp s) b ?f\<rparr>"
  have "agree u F (changed K r blk page) (changed B r blk page)" by (rule changed_agree [OF K(2) S own _ _ page, of u ?f]) (simp_all add: u_def)
  moreover have fl: "has_flag x (?f (D (bp s) b)) = has_flag x (D (bp s) b)" if "apart x (BM_DIRTY OR BM_JUST_DIRTIED)" for x
    using that by (simp add: apart_or flag_other)
  ultimately have Su: "steady u {} F P (changed B r blk page)"
    by (intro changed_steady [OF S own blk page, of u ?f "changed K r blk page"]) (use w(3) in \<open>simp_all add: u_def poke_def flag_only\<close>)
  have u: "in_pool u b" "pinned u b" "be u = be s" "sm u = m" using b(1) pin by (simp_all add: in_pool_def u_def poke_def pinned_def)
  have ow: "owner (bp u) = owner (bp s)" using owner_kept [OF S b(1), of ?f] by (simp add: u_def flag_other apart_def flag_values)
  moreover have "same_env s u" unfolding same_env_def ow using ok in_pool_ok [OF S] w(4) by (auto simp: u_def poke_def)
  moreover have "FlushBuffer (poke s b page) (b + 1) True = do { s \<leftarrow> unpin u b; Some (SpinRelease s, STATUS_OK) }"
    using nb ok lk n w(1,2) b(3) by (auto simp: FlushBuffer_def named_def poke_def SpinAcquire_def SpinRelease_def upd_desc_def SM_SUCCESS_def SM_FAIL_def flag_same u_def)
  moreover have "block_at (changed K r blk page r) blk = page" using changed_same [where B = K and r = r, OF kl(2)] .
  moreover note unpin_release_lock [OF Su u(1,2), of STATUS_OK]
  ultimately show ?thesis using u(3,4) w(3) by (auto elim!: rets_mono simp: unpinned_def intro: same_env_trans)
qed

subsection \<open>Synchronisation\<close>

definition must_sync :: "bufs \<Rightarrow> nat \<Rightarrow> bool" where
  "must_sync s i \<longleftrightarrow> has_flag BM_VALID (D (bp s) (int i)) \<and> has_flag BM_DIRTY (D (bp s) (int i))"

lemma sync_skip:
  assumes "\<And>i. i \<in> set is \<Longrightarrow> desc_ok (bp s) (int i) \<and> \<not> must_sync s i"
  shows "sync_loop (is @ js) s = sync_loop js s"
  using assms by (induction "is") (auto simp: must_sync_def)

text \<open>The loop ends at the first dirty buffer: it is written out, but stays dirty, and pinned once more.\<close>

lemma BufferSync_first:
  assumes C: "coherent s F P B" and b: "b < NBuffers (bp s)" and d: "must_sync s b" and first: "\<And>i. i < b \<Longrightarrow> \<not> must_sync s i"
  shows "rets (BufferSync s) (\<lambda>t. coherent t F P B \<and> same_env s t \<and> owner (bp t) = owner (bp s) \<and>
    be t = (be s)\<lparr>PrivateRefCount := (PrivateRefCount (be s))[b := PrivateRefCount (be s) ! b + 1]\<rparr> \<and>
    (\<forall>c<NBuffers (bp s). has_flag BM_DIRTY (D (bp t) (int c)) = has_flag BM_DIRTY (D (bp s) (int c))))"
proof -
  have S: "steady s {} F P B" and lk: "\<not> BufMgrLock s" using C by (simp_all add: coherent_def)
  have pool: "in_pool s (int i)" "desc_ok (bp s) (int i)" if "i < NBuffers (bp s)" for i using that in_pool_ok [OF S, of "int i"] by (simp_all add: in_pool_def)
  define s1 where "s1 = s\<lparr>BufMgrLock := True\<rparr>"
  have S1: "steady s1 {} F P B" by (rule steady_other [OF S]) (simp_all add: s1_def)
  have b1: "in_pool s1 (int b)" using b by (simp add: in_pool_def s1_def)
  let ?d = "D (bp s) (int b)"
  have dirty: "has_flag BM_DIRTY ?d" "has_flag BM_VALID ?d" using d by (simp_all add: must_sync_def)
  have bf: "\<not> has_flag BM_DELETED ?d" "named s F ?d" "holds s B ?d" "unat (blockNum (tag ?d)) < length (B (rel_of (tag ?d)))" using buffer_facts [OF S pool(1) [OF b] refl] dirty by auto
  define r blk page where "r = rel_of (tag ?d)" and "blk = blockNum (tag ?d)" and "page = B r ! unat blk"
  have tg: "tag ?d = tag_of r blk" by (cases "tag ?d") (simp add: r_def blk_def rel_of_def tag_of_def)
  have own: "owner (bp s) (int b) = Some (tag_of r blk)" using b bf(1) tg by (simp add: owner_def)
  have Fr: "F r \<noteq> None" using bf(2) by (auto simp: named_def r_def)
  obtain K where K: "stored (sm s) F P K" "agree s F K B" using S by (auto simp: steady_def)
  have k: "unat blk < length (B r)" using bf(4) by (simp add: r_def blk_def)
  have pg: "length page = BLCKSZ" "blocks s (data ?d) = Some page"
    using bf(3) k agreeD(2) [OF K(2) Fr] by (simp_all add: holds_def block_at_def page_def blocks_ok_nth flip: r_def blk_def)
  have st1: "stored (sm s1) F P K" "named s1 F ?d" using K(1) bf(2) by (simp_all add: named_def s1_def)
  have kl: "unat (blockNum (tag ?d)) < length (K (rel_of (tag ?d)))" using agreeD(1) [OF K(2) Fr] k by (simp add: r_def blk_def)
  obtain m1 rel m rel' where w: "RelationIdCacheGetRelation s1 ?d = Some (s1\<lparr>sm := m1\<rparr>, rel)" "smgrwrite 0 m1 rel blk page = Some (m, rel', SM_SUCCESS)"
    "stored m F P (changed K r blk page)" "DatabaseName (vfs m) = DatabaseName (vfs (sm s))"
    by (rule write_outE [OF disjI2 [OF refl] st1 kl pg(1)]) (auto simp: changed_def r_def blk_def s1_def)
  from steady_pin [OF S1 b1] obtain t where t: "pin s1 (int b) = Some t" "steady t {} F P B" "t = s1\<lparr>bp := bp t, be := be t\<rparr>" "frame (bp t) = frame (bp s)"
    "be t = (be s)\<lparr>PrivateRefCount := (PrivateRefCount (be s))[b := PrivateRefCount (be s) ! b + 1]\<rparr>" by (elim retsE) (auto simp: s1_def)
  have te: "MyDatabaseId t = MyDatabaseId s" "SharedBufHash t = SharedBufHash s" "io_in_progress_lock t = io_in_progress_lock s" "blocks t = blocks s" by (subst t(3), simp add: s1_def)+
  have pin: "pin (s1\<lparr>sm := m1\<rparr>) (int b) = Some (s1\<lparr>sm := m1, bp := bp t, be := be t\<rparr>)" using t(1) by (auto simp: pin_def bind_eq_Some_conv)
  have fl: "has_flag x (D (bp t) (int c)) = has_flag x (D (bp s) (int c))" if "c < NBuffers (bp s)" "other_flag x" for c x
    using content_eqD(6) [OF frame_content [OF t(4) pool(2) [OF that(1)]] that(2)] .
  note ct = content_eqD [OF frame_content [OF t(4) pool(2) [OF b]]]
  have ownt: "owner (bp t) = owner (bp s)" using frame_owner [OF S t(4)] .
  have okt: "desc_ok (bp t) (int c)" if "c < NBuffers (bp s)" for c using frame_size [OF t(4)] pool(2) [OF that] by simp
  have np: "\<not> has_flag BM_IO_IN_PROGRESS (D (bp t) (int b))" using fl [OF b, of BM_IO_IN_PROGRESS] buffer_facts(6) [OF S pool(1) [OF b] refl] by simp
  let ?f = "clear_flag BM_JUST_DIRTIED"
  define u where "u = s1\<lparr>sm := m, bp := put_desc (bp t) (int b) ?f, be := be t, BufMgrLock := False\<rparr>"
  have cB: "changed B r blk page = B" by (simp add: changed_def page_def)
  have agt: "agree t F K B" using frame_agree [OF S t(4)] K(2) by simp
  have "agree u F (changed K r blk page) B"
    using changed_agree [OF agt t(2), of "int b" r blk u ?f page] ownt own pg(1) by (simp add: u_def cB)
  then have "steady u {} F P (changed B r blk page)"
    by (intro changed_steady [OF t(2), of "int b" r blk page u ?f "changed K r blk page"])
      (use ownt own k pg w(3) ct(2) te in \<open>auto simp: u_def cB flag_only flag_other apart_or s1_def fun_upd_idem\<close>)
  moreover have "sync_loop [b..<NBuffers (bp s)] s1 = Some (u, True)"
    using b pool(2) [OF b] dirty bf(2) w(1,2) pin okt [OF b] np pg(2) ct
    by (simp add: upt_conv_Cons) (auto simp: s1_def named_def upd_desc_def SpinRelease_def u_def blk_def)
  moreover have "sync_loop ([0..<b] @ [b..<NBuffers (bp s)]) s1 = sync_loop [b..<NBuffers (bp s)] s1"
    by (rule sync_skip) (use first b pool in \<open>auto simp: s1_def must_sync_def\<close>)
  moreover have "[0..<b] @ [b..<NBuffers (bp s)] = [0..<NBuffers (bp s)]" using b by (metis less_imp_le upt_add_eq_append le_add_diff_inverse zero_le)
  ultimately have "BufferSync s = Some u" "steady u {} F P B" using lk by (simp_all add: BufferSync_def SpinAcquire_def s1_def cB)
  moreover have "in_pool t (int b)" using b frame_size [OF t(4)] by (simp add: in_pool_def)
  then have ow: "owner (bp u) = owner (bp s)" using owner_kept [OF t(2), of "int b" ?f] ownt by (simp add: u_def flag_other apart_def flag_values)
  moreover have "same_env s u" unfolding same_env_def ow
  proof (intro conjI allI impI)
    fix c assume c: "in_pool s c"
    have "desc_ok (bp t) c" using in_pool_ok [OF S c] frame_size [OF t(4)] by simp
    then show "data (D (bp u) c) = data (D (bp s) c)" using okt [OF b] steady_data [OF S t(4) c] by (auto simp: u_def)
  qed (use w(4) frame_size [OF t(4)] in \<open>simp_all add: u_def s1_def\<close>)
  moreover have "has_flag BM_DIRTY (D (bp u) (int c)) = has_flag BM_DIRTY (D (bp s) (int c))" if "c < NBuffers (bp s)" for c
    unfolding fl [OF that other_flags(1), symmetric] using okt [OF that] okt [OF b] by (auto simp: u_def flag_other apart_def flag_values)
  ultimately show ?thesis using t(5) by (simp add: coherent_def u_def)
qed

end
