(* ===== verification/BufMgr_Props.thy ===== *)
theory BufMgr_Props
  imports BufMgr_Write BufTable_Props
begin

text \<open>
  The properties of the buffer manager: the invariant from initialisation on, what \<open>ReadBuffer\<close> and \<open>WriteBuffer\<close> do to the logical blocks, and
  what \<open>BufferSync\<close> does not do.
\<close>

subsection \<open>Initialisation\<close>

text \<open>The state after \<open>InitBufferPool\<close> and \<open>InitBufTable\<close>, in the default write mode.\<close>

definition start_bufs :: "pool \<Rightarrow> backend \<Rightarrow> buf_hash \<Rightarrow> (64 word \<rightharpoonup> byte list) \<Rightarrow> md \<Rightarrow> uint32 \<Rightarrow> bufs" where
  "start_bufs p me h mem m db = \<lparr>bp = p, be = me, SharedBufHash = h, io_in_progress_lock = replicate (NBuffers p) False, BufMgrLock = False, blocks = mem, malloc_blocks = [], sm = m,
     MyDatabaseId = db, WriteMode = BUFFER_LATE_WRITE, ReadBufferCount = 0, BufferHitCount = 0, BufferFlushCount = 0\<rparr>"

lemma block_offsets_distinct:
  assumes "base + of_nat (8192 * i) = base + (of_nat (8192 * j) :: 64 word)" and "i < 2 ^ 29" and "j < 2 ^ 29"
  shows "i = j"
proof -
  have small: "8192 * i < 2 ^ 64" "8192 * j < 2 ^ 64" using assms(2,3) by simp_all
  have u: "unat (of_nat k :: 64 word) = k" if "k < 2 ^ 64" for k using that by (simp add: unat_of_nat take_bit_nat_eq_self)
  have "(of_nat (8192 * i) :: 64 word) = of_nat (8192 * j)" using assms(1) by (simp only: add_left_cancel)
  then have "unat (of_nat (8192 * i) :: 64 word) = unat (of_nat (8192 * j) :: 64 word)" by (rule arg_cong)
  then have "8192 * i = 8192 * j" unfolding u [OF small(1)] u [OF small(2)] .
  then show ?thesis by simp
qed

lemma init_coherent:
  assumes mem: "length descs = Suc n" and n: "1 \<le> n" "n \<le> 2 ^ 29" and h: "dir h = Map.empty" "\<forall>i\<in>dom (elems h). i < ShmemFreeStart h"
      "0 < ShmemFreeStart h" "ShmemFreeStart h + 8 * max 256 (2 * n) \<le> ShmemSize h"
    and st: "stored m F P K" and blk: "\<forall>k<n. \<exists>page. blks (base + of_nat (8192 * k)) = Some page"
  shows "rets (InitBufferPool n base descs False me) (\<lambda>(p, me'). rets (InitBufTable h n False) (\<lambda>h'. coherent (start_bufs p me' h' blks m db) F P K \<and> owner p = Map.empty \<and>
    me' = me\<lparr>PrivateRefCount := replicate n 0, LastRefCount := replicate n 0\<rparr> \<and> NBuffers p = n))"
proof -
  have n0: "0 < n" using n(1) by simp
  obtain p me' where p: "InitBufferPool n base descs False me = Some (p, me')" "NBuffers p = n" "linked p (map int [1..<n] @ [0])"
    "\<And>k. k < n \<Longrightarrow> refcount (D p (int k)) = 0 \<and> data (D p (int k)) = base + of_nat (8192 * k) \<and> flags (D p (int k)) = BM_DELETED OR BM_FREE OR BM_VALID"
    "me' = me\<lparr>PrivateRefCount := replicate n 0, LastRefCount := replicate n 0\<rparr>"
    using InitBufferPool_linked [OF mem n0, of base me] by (elim retsE) auto
  from init_buf_table [OF mem n h, of base me] p(1) have tab: "rets (InitBufTable h n False) (\<lambda>h'. buf_table p h' \<and> owner p = Map.empty)" by simp
  have hd: "\<not> held me' k" if "k < n" for k using that by (simp add: held_def p(5))
  have inv: "pool_inv p [me'] (map int [1..<n] @ [0])"
  proof -
    have "int k \<in> set (map int [1..<n] @ [0])" if "k < n" for k using that by (cases "k = 0") auto
    moreover have "backend_ok n me'" by (simp add: backend_ok_def p(5))
    ultimately show ?thesis using p(2-4) hd by (simp add: pool_inv_def)
  qed
  have fl: "\<not> has_flag BM_DIRTY (D p b)" "\<not> has_flag BM_IO_IN_PROGRESS (D p b)" "has_flag BM_DELETED (D p b)" "data (D p b) = base + of_nat (8192 * nat b)" "has_flag BM_VALID (D p b)" if "0 \<le> b" "b < int n" for b
    using p(4) [of "nat b"] that by (simp_all add: has_flag_def flag_values)
  have "coherent (start_bufs p me' h' blks m db) F P K" if h': "buf_table p h'" for h'
  proof -
    let ?s = "start_bufs p me' h' blks m db"
    have ip: "in_pool ?s b \<longleftrightarrow> 0 \<le> b \<and> b < int n" for b using p(2) by (simp add: in_pool_def start_bufs_def)
    have "own_memory ?s" unfolding own_memory_def ip
    proof (intro allI impI, elim conjE)
      fix b c assume b: "0 \<le> b" "b < int n" and c: "0 \<le> c" "c < int n" and e: "data (D (bp ?s) b) = data (D (bp ?s) c)"
      have "nat b = nat c" using e fl(4) [OF b] fl(4) [OF c] block_offsets_distinct [of base "nat b" "nat c"] b c n(2) by (auto simp: start_bufs_def)
      then show "b = c" using b c by simp
    qed
    moreover have "quiet ?s {}" using fl(2) ip p(2) by (auto simp: quiet_def start_bufs_def)
    moreover have "\<exists>page. blocks ?s (data (D (bp ?s) b)) = Some page" if b: "0 \<le> b" "b < int n" for b
    proof -
      have "nat b < n" using b by simp
      with blk have "\<exists>page. blks (base + of_nat (8192 * nat b)) = Some page" by blast
      then show ?thesis by (simp only: start_bufs_def bufs.simps fl(4) [OF b])
    qed
    then have "descs_ok ?s {} F K" unfolding descs_ok_def ip using fl(1,3,5) by (simp add: start_bufs_def)
    moreover have "agree ?s F K K" using disk.sizes [OF st] by (fastforce simp: agree_def)
    ultimately show ?thesis using inv h' st unfolding coherent_def steady_def by (auto simp: start_bufs_def)
  qed
  then show ?thesis using p(1,2,5) tab by (auto elim!: rets_mono)
qed

subsection \<open>A caller's accesses\<close>

lemma buffer_page:
  assumes C: "coherent s F P B" and own: "owner (bp s) (buffer - 1) = Some (tag_of r blk)" and pin: "pinned s (buffer - 1)"
  shows "BufferIsValid (bp s) (be s) buffer = Some True" and "BufferGetBlock s buffer = Some (data (D (bp s) (buffer - 1)))"
    and "blocks s (data (D (bp s) (buffer - 1))) = Some (block_at (B r) blk)" and "BufferGetBlockNumber (bp s) (be s) buffer = Some blk"
proof -
  have S: "steady s {} F P B" using C by (simp add: coherent_def)
  have b: "in_pool s (buffer - 1)" "\<not> has_flag BM_DELETED (D (bp s) (buffer - 1))" "tag (D (bp s) (buffer - 1)) = tag_of r blk" using owner_pool [OF own] by auto
  have ok: "desc_ok (bp s) (buffer - 1)" using in_pool_ok [OF S b(1)] by simp
  have nb: "\<not> BufferIsLocal buffer" "\<not> BAD_BUFFER_ID (bp s) buffer" using b(1) by (simp_all add: in_pool_def BufferIsLocal_def BAD_BUFFER_ID_def)
  have "length (PrivateRefCount (be s)) = NBuffers (bp s)" using steady_backend [OF S] by (simp add: backend_ok_def)
  then have "ref_get (PrivateRefCount (be s)) (buffer - 1) = Some (PrivateRefCount (be s) ! nat (buffer - 1))" using b(1) by (simp add: ref_get_def in_pool_def)
  then show v: "BufferIsValid (bp s) (be s) buffer = Some True" using nb pin by (simp add: BufferIsValid_def pinned_def)
  show "BufferGetBlock s buffer = Some (data (D (bp s) (buffer - 1)))" using v nb ok by (simp add: BufferGetBlock_def)
  show "BufferGetBlockNumber (bp s) (be s) buffer = Some blk" using v nb ok b(3) by (simp add: BufferGetBlockNumber_def)
  show "blocks s (data (D (bp s) (buffer - 1))) = Some (block_at (B r) blk)" using buffer_facts(2) [OF S b(1) refl b(2)] b(3) by (simp add: holds_def)
qed

lemma release_ok:
  assumes C: "coherent s F P B" and b: "in_pool s b" and pin: "pinned s b"
  shows "rets (release s (b + 1)) (\<lambda>(t, st). coherent t F P B \<and> unpinned s t b \<and> same_env s t \<and> sm t = sm s \<and> owner (bp t) = owner (bp s))"
proof -
  have S: "steady s {} F P B" and lk: "\<not> BufMgrLock s" using C by (simp_all add: coherent_def)
  have pos: "0 < PrivateRefCount (be s) ! nat b" using pin by (simp add: pinned_def)
  obtain xs where xs: "pool_inv (bp s) [be s] xs" using S by (auto simp: steady_def)
  have nb: "0 \<le> b" "nat b < NBuffers (bp s)" using b by (auto simp: in_pool_def)
  have pos': "PrivateRefCount ([be s] ! 0) ! nat b > 0" using pos by simp
  from steady_unpin [OF S b pos] obtain t where t: "unpin s b = Some t" "steady t {} F P B" "t = s\<lparr>bp := bp t, be := be t\<rparr>" "frame (bp t) = frame (bp s)"
    "be t = (be s)\<lparr>PrivateRefCount := (PrivateRefCount (be s))[nat b := PrivateRefCount (be s) ! nat b - 1]\<rparr>" by (elim retsE) auto
  then obtain st where rel: "ReleaseBuffer (bp s) (be s) (b + 1) = Some (bp t, be t, st)"
    using unpin_release [OF xs one nb(2) pos'] nb(1) by (auto simp: unpin_def bind_eq_Some_conv)
  have e: "sm t = sm s" "MyDatabaseId t = MyDatabaseId s" "WriteMode t = WriteMode s" "BufMgrLock t = BufMgrLock s" by (subst t(3), simp)+
  have "release s (b + 1) = Some (t, st)" using rel lk by (simp add: release_def SpinAcquire_def flip: t(3))
  moreover have "same_env s t" using e frame_size [OF t(4)] steady_data [OF S t(4)] frame_owner [OF S t(4)] by (simp add: same_env_def)
  ultimately show ?thesis using t(2,5) lk e(1,4) frame_owner [OF S t(4)] by (simp add: coherent_def unpinned_def)
qed

lemma taken_back: "taken s t b \<Longrightarrow> unpinned t u b \<Longrightarrow> b < int (length (PrivateRefCount (be s))) \<Longrightarrow> 0 \<le> b \<Longrightarrow> be u = be s"
  by (simp add: taken_def unpinned_def)

text \<open>Reading a page, and replacing it, with the calls in the order in which a caller has to make them.\<close>

definition read_page :: "bufs \<Rightarrow> RelationData \<Rightarrow> uint32 \<Rightarrow> (bufs \<times> byte list) option" where
  "read_page s reln blk = do {
     (s, _, buffer) \<leftarrow> ReadBuffer s reln blk;
     off \<leftarrow> BufferGetBlock s buffer;
     page \<leftarrow> blocks s off;
     (s, _) \<leftarrow> release s buffer;
     Some (s, page)
   }"

definition write_page :: "bufs \<Rightarrow> RelationData \<Rightarrow> uint32 \<Rightarrow> byte list \<Rightarrow> bufs option" where
  "write_page s reln blk page = do {
     (s, _, buffer) \<leftarrow> ReadBuffer s reln blk;
     off \<leftarrow> BufferGetBlock s buffer;
     (s, _) \<leftarrow> WriteBuffer (s\<lparr>blocks := (blocks s)(off \<mapsto> page)\<rparr>) buffer;
     Some s
   }"

datatype request = Get RelationData rid uint32 | Put RelationData rid uint32 "byte list"

fun run :: "request list \<Rightarrow> bufs \<Rightarrow> (bufs \<times> byte list list) option" where
  "run [] s = Some (s, [])"
| "run (Get reln r blk # qs) s = do { (s, page) \<leftarrow> read_page s reln blk; (s, out) \<leftarrow> run qs s; Some (s, page # out) }"
| "run (Put reln r blk page # qs) s = do { s \<leftarrow> write_page s reln blk page; run qs s }"

text \<open>The same on lists of blocks.\<close>

fun serve :: "request list \<Rightarrow> contents \<Rightarrow> contents \<times> byte list list" where
  "serve [] B = (B, [])"
| "serve (Get reln r blk # qs) B = (fst (serve qs B), block_at (B r) blk # snd (serve qs B))"
| "serve (Put reln r blk page # qs) B = serve qs (changed B r blk page)"

fun valid :: "bufs \<Rightarrow> catalog \<Rightarrow> (int \<rightharpoonup> rid) \<Rightarrow> contents \<Rightarrow> request \<Rightarrow> bool" where
  "valid s F P B (Get reln r blk) \<longleftrightarrow> client s F P reln r \<and> unat blk < RELSEG_SIZE"
| "valid s F P B (Put reln r blk page) \<longleftrightarrow> client s F P reln r \<and> unat blk < length (B r) \<and> length page = BLCKSZ"

definition idle :: "bufs \<Rightarrow> bool" where
  "idle s \<longleftrightarrow> 0 < NBuffers (bp s) \<and> (\<forall>b<NBuffers (bp s). \<not> held (be s) b)"

lemma idle_claim: "idle s \<Longrightarrow> can_claim s"
  by (auto simp: idle_def can_claim_def in_pool_def intro!: exI [of _ 0])

text \<open>A block of a relation is read into a buffer, which gains a pin.\<close>

lemma block_read_in:
  assumes C: "coherent s F P B" and c: "client s F P reln r" and blk: "unat blk < RELSEG_SIZE" and pl: "has_place s (tag_of r blk)"
  obtains t buffer where "ReadBuffer s reln blk = Some (t, reln, buffer)" "coherent t F P B" "owner (bp t) (buffer - 1) = Some (tag_of r blk)"
    "taken s t (buffer - 1)" "same_env s t" "in_pool s (buffer - 1)" "in_pool t (buffer - 1)" "pinned t (buffer - 1)"
    "disk_room (sys (vfs (sm t))) = disk_room (sys (vfs (sm s)))"
proof -
  have S: "steady s {} F P B" "BufMgrLock s = False" using C by (simp_all add: coherent_def)
  let ?s = "s\<lparr>ReadBufferCount := ReadBufferCount s + 1\<rparr>"
  have pl': "has_place ?s (tag_of r blk)" "steady ?s {} F P B" "client ?s F P reln r" "BufMgrLock ?s = False"
    using pl c S steady_other [OF S(1), of ?s] by (simp_all add: has_place_def can_claim_def in_use_def in_pool_def client_def)
  from read_shared_ok [OF pl'(2,4,3) blk pl'(1)] obtain t buffer where t: "read_shared ?s reln blk False = Some (t, reln, buffer)" "coherent t F P B"
    "owner (bp t) (buffer - 1) = Some (tag_of r blk)" "taken s t (buffer - 1)" "same_env s t" "disk_room (sys (vfs (sm t))) = disk_room (sys (vfs (sm s)))"
    by (elim retsE) (auto simp: taken_def same_env_def in_pool_def)
  have rd: "ReadBuffer s reln blk = Some (t, reln, buffer)" using t(1) c by (simp add: ReadBuffer_def ReadBufferWithBufferLock_def client_def)
  have b: "in_pool t (buffer - 1)" "in_pool s (buffer - 1)" using owner_pool [OF t(3)] t(5) by (simp_all add: in_pool_def same_env_def)
  show ?thesis using that rd t(2-6) b taken_pinned [OF S(1) b(2) t(4)] by blast
qed

lemma idle_place: "idle s \<Longrightarrow> in_use s \<Longrightarrow> has_place s tg"
  using idle_claim by (simp add: has_place_def)

lemma read_page_ok:
  assumes C: "coherent s F P B" and c: "client s F P reln r" and blk: "unat blk < RELSEG_SIZE" and pl: "has_place s (tag_of r blk)"
  shows "rets (read_page s reln blk) (\<lambda>(t, page). page = block_at (B r) blk \<and> coherent t F P B \<and> same_env s t \<and> be t = be s \<and> (\<exists>b. in_pool s b \<and> owner (bp t) b = Some (tag_of r blk)) \<and>
    disk_room (sys (vfs (sm t))) = disk_room (sys (vfs (sm s))))"
proof -
  have S: "steady s {} F P B" using C by (simp add: coherent_def)
  obtain t buffer where t: "ReadBuffer s reln blk = Some (t, reln, buffer)" "coherent t F P B" "owner (bp t) (buffer - 1) = Some (tag_of r blk)"
    "taken s t (buffer - 1)" "same_env s t" "in_pool s (buffer - 1)" "in_pool t (buffer - 1)" "pinned t (buffer - 1)" "disk_room (sys (vfs (sm t))) = disk_room (sys (vfs (sm s)))" using block_read_in [OF assms] by blast
  note bp = buffer_page [OF t(2,3,8)]
  from release_ok [OF t(2,7,8)] obtain u st where u: "release t buffer = Some (u, st)" "coherent u F P B" "unpinned t u (buffer - 1)" "same_env t u" "sm u = sm t" "owner (bp u) = owner (bp t)" by (elim retsE) auto
  have "be u = be s" using taken_back [OF t(4) u(3)] steady_backend [OF S] t(6) by (simp add: backend_ok_def in_pool_def)
  moreover have "owner (bp u) (buffer - 1) = Some (tag_of r blk)" using u(6) t(3) by simp
  moreover have "same_env s u" by (rule same_env_trans [OF t(5) u(4)])
  ultimately show ?thesis using t(1,6,9) bp(2,3) u by (auto simp: read_page_def)
qed

text \<open>Writing back a page in either mode.\<close>

lemma block_written_back:
  assumes C: "coherent s F P B" and own: "owner (bp s) b = Some (tag_of r blk)" and pin: "pinned s b" and blk: "unat blk < length (B r)" and page: "length page = BLCKSZ"
  shows "rets (WriteBuffer (poke s b page) (b + 1)) (\<lambda>(t, st). coherent t F P (changed B r blk page) \<and> unpinned s t b \<and> same_env s t \<and> owner (bp t) = owner (bp s) \<and>
    (if WriteMode s = BUFFER_FLUSH_WRITE then st = STATUS_OK \<and> (\<exists>K. stored (sm t) F P K \<and> block_at (K r) blk = page) else st = 1 \<and> has_flag BM_DIRTY (D (bp t) b)))"
proof (cases "WriteMode s = BUFFER_FLUSH_WRITE")
  case True
  have "WriteBuffer (poke s b page) (b + 1) = FlushBuffer (poke s b page) (b + 1) True" using True by (simp add: WriteBuffer_def poke_def)
  then show ?thesis using FlushBuffer_ok [OF assms] True by (auto elim!: rets_mono)
next
  case False
  then show ?thesis using WriteBuffer_late [OF assms] by (auto elim!: rets_mono)
qed

lemma write_page_ok:
  assumes C: "coherent s F P B" and c: "client s F P reln r" and blk: "unat blk < length (B r)" and page: "length page = BLCKSZ" and pl: "has_place s (tag_of r blk)"
  shows "rets (write_page s reln blk page) (\<lambda>t. coherent t F P (changed B r blk page) \<and> same_env s t \<and> be t = be s \<and>
    (WriteMode s \<noteq> BUFFER_FLUSH_WRITE \<longrightarrow> (\<exists>b. in_pool s b \<and> has_flag BM_DIRTY (D (bp t) b))))"
proof -
  have S: "steady s {} F P B" using C by (simp add: coherent_def)
  have "length (B r) < RELSEG_SIZE" by (rule client_stored [OF S c])
  then have blk': "unat blk < RELSEG_SIZE" using blk by simp
  obtain t buffer where t: "ReadBuffer s reln blk = Some (t, reln, buffer)" "coherent t F P B" "owner (bp t) (buffer - 1) = Some (tag_of r blk)"
    "taken s t (buffer - 1)" "same_env s t" "in_pool s (buffer - 1)" "in_pool t (buffer - 1)" "pinned t (buffer - 1)" using block_read_in [OF C c blk' pl] by blast
  note bp = buffer_page [OF t(2,3,8)]
  from block_written_back [OF t(2,3,8) blk page] obtain u st where u: "WriteBuffer (poke t (buffer - 1) page) buffer = Some (u, st)" "coherent u F P (changed B r blk page)"
    "unpinned t u (buffer - 1)" "same_env t u" "WriteMode t \<noteq> BUFFER_FLUSH_WRITE \<longrightarrow> has_flag BM_DIRTY (D (bp u) (buffer - 1))" by (elim retsE) auto
  have "be u = be s" using taken_back [OF t(4) u(3)] steady_backend [OF S] t(6) by (simp add: backend_ok_def in_pool_def)
  moreover have "same_env s u" by (rule same_env_trans [OF t(5) u(4)])
  moreover have "WriteMode t = WriteMode s" using t(5) by (simp add: same_env_def)
  ultimately show ?thesis using t(1,6) bp(2) u by (auto simp: write_page_def poke_def)
qed

lemma valid_env: "valid s F P B q \<Longrightarrow> same_env s t \<Longrightarrow> valid t F P B q"
  using client_env by (cases q) auto

lemma run_ok:
  assumes "coherent s F P B" and "idle s" and "in_use s" and "\<forall>q\<in>set qs. valid s F P B q"
  shows "rets (run qs s) (\<lambda>(t, out). coherent t F P (fst (serve qs B)) \<and> out = snd (serve qs B) \<and> same_env s t \<and> be t = be s)"
  using assms
proof (induction qs arbitrary: s B)
  case Nil
  then show ?case by (simp add: same_env_def)
next
  case (Cons q qs)
  have next_ok: "idle t" "in_use t" if "same_env s t" "be t = be s" for t
    using that Cons.prems(2,3) in_use_env [of s t] by (simp_all add: idle_def same_env_def)
  show ?case
  proof (cases q)
    case (Get reln r blk)
    then have "client s F P reln r" "unat blk < RELSEG_SIZE" using Cons.prems(4) by simp_all
    from read_page_ok [OF Cons.prems(1) this idle_place [OF Cons.prems(2,3)]] obtain t where t: "read_page s reln blk = Some (t, block_at (B r) blk)" "coherent t F P B" "same_env s t" "be t = be s" by (elim retsE) auto
    have "\<forall>q\<in>set qs. valid t F P B q" using Cons.prems(4) valid_env [OF _ t(3)] by simp
    from Cons.IH [OF t(2) next_ok [OF t(3,4)] this] show ?thesis using Get t(1,4) same_env_trans [OF t(3)] by (auto simp: rets_def)
  next
    case (Put reln r blk page)
    then have "client s F P reln r" "unat blk < length (B r)" "length page = BLCKSZ" using Cons.prems(4) by simp_all
    from write_page_ok [OF Cons.prems(1) this idle_place [OF Cons.prems(2,3)]] obtain t where t: "write_page s reln blk page = Some t" "coherent t F P (changed B r blk page)" "same_env s t" "be t = be s" by (elim retsE) auto
    have "valid t F P (changed B r blk page) x" if "x \<in> set qs" for x
      using valid_env [OF _ t(3), of F P B x] Cons.prems(4) that by (cases x) auto
    from Cons.IH [OF t(2) next_ok [OF t(3,4)]] this show ?thesis using Put t(1,4) same_env_trans [OF t(3)] by (auto simp: rets_def)
  qed
qed

subsection \<open>A sample state\<close>

text \<open>A pool of one buffer above a disk with one relation.\<close>

definition pool_rel :: RelationData where "pool_rel = sample_rel\<lparr>lockInfo := Some (7, 16993)\<rparr>"
definition pool_rid :: rid where "pool_rid = (7, 16993)"
definition pool_catalog :: catalog where "pool_catalog = [pool_rid \<mapsto> (''r'', 1)]"
definition pool_slots :: "int \<rightharpoonup> rid" where "pool_slots = [0 \<mapsto> pool_rid]"
definition pool_contents :: "byte list list \<Rightarrow> contents" where "pool_contents bs = (\<lambda>r. if r = pool_rid then bs else [])"

definition sample_bufs :: "byte list list \<Rightarrow> bufs option" where
  "sample_bufs bs = do {
     (m, _) \<leftarrow> mdopen (sample_md bs) pool_rel;
     (p, me) \<leftarrow> InitBufferPool 1 0 (replicate 2 zero_desc) False backend0;
     h \<leftarrow> InitBufTable tag_memory 1 False;
     Some (start_bufs p me h (\<lambda>_. Some zero_block) m 7)
   }"

lemma sample_stored:
  assumes "blocks_ok bs" and "length bs < RELSEG_SIZE"
  shows "rets (mdopen (sample_md bs) pool_rel) (\<lambda>(m, f). stored m pool_catalog pool_slots (pool_contents bs) \<and>
    DatabaseName (vfs m) = ''db'' \<and> disk_room (sys (vfs m)) = 100000)"
proof -
  note s = sample_md_ok [OF assms(1)]
  have rf: "rel_file (vfs (sample_md bs)) reln = Some ''/data/base/db/r''" if "relname reln = ''r''" for reln
    using s(3) that by (simp add: rel_file_def sample_rel_def)
  have io: "names (sys (vfs (sample_md bs))) ''/data/base/db/r'' = Some 1" "inodes (sys (vfs (sample_md bs))) = [[], concat bs]"
    "DatabaseName (vfs (sample_md bs)) = ''db''" "disk_room (sys (vfs (sample_md bs))) = 100000" by (simp_all add: sample_room_def with_head_simps) (simp add: with_head_def sample_vfds_def)
  have "catalog_files (vfs (sample_md bs)) pool_catalog (pool_contents bs)"
    using rf io assms by (simp add: catalog_files_def pool_catalog_def pool_contents_def) (metis prod.inject)
  then have st: "stored (sample_md bs) pool_catalog Map.empty (pool_contents bs)" using s(1,2) unfolding stored_def by auto
  have cat: "pool_catalog pool_rid = Some (relname pool_rel, 1)" by (simp add: pool_catalog_def pool_rel_def sample_rel_def)
  have len: "length bs \<le> RELSEG_SIZE" using assms(2) by simp
  have "rel_file (vfs (sample_md bs)) pool_rel = Some ''/data/base/db/r''" by (rule rf) (simp add: pool_rel_def sample_rel_def)
  from mdopen_slot [OF s(1,2) this s(4) len] have "rets (mdopen (sample_md bs) pool_rel) (\<lambda>(t, f). f = 0)"
    by (rule rets_mono) (auto simp: opened_slot_def sample_room_def)
  with disk.open_law [OF st cat] show ?thesis using io(3,4) by (auto simp: rets_def pool_slots_def split: option.splits)
qed

lemma sample_ready:
  assumes "blocks_ok bs" and "length bs < RELSEG_SIZE"
  obtains s where "sample_bufs bs = Some s" "coherent s pool_catalog pool_slots (pool_contents bs)" "client s pool_catalog pool_slots pool_rel pool_rid"
    "NBuffers (bp s) = 1" "idle s" "\<And>tg. has_place s tg" "disk_room (sys (vfs (sm s))) = 100000" "WriteMode s = BUFFER_LATE_WRITE" "MyDatabaseId s = 7"
proof -
  from sample_stored [OF assms] obtain m f where m: "mdopen (sample_md bs) pool_rel = Some (m, f)" "stored m pool_catalog pool_slots (pool_contents bs)"
    "DatabaseName (vfs m) = ''db''" "disk_room (sys (vfs m)) = 100000" by (elim retsE) auto
  have "rets (InitBufferPool 1 0 (replicate 2 zero_desc) False backend0) (\<lambda>(p, me'). rets (InitBufTable tag_memory 1 False) (\<lambda>h'.
    coherent (start_bufs p me' h' (\<lambda>_. Some zero_block) m 7) pool_catalog pool_slots (pool_contents bs) \<and> owner p = Map.empty \<and>
    me' = backend0\<lparr>PrivateRefCount := replicate 1 0, LastRefCount := replicate 1 0\<rparr> \<and> NBuffers p = 1))"
    by (rule init_coherent) (simp_all add: tag_memory_def m(2))
  then obtain p h where p: "InitBufferPool 1 0 (replicate 2 zero_desc) False backend0 = Some (p, backend0\<lparr>PrivateRefCount := replicate 1 0, LastRefCount := replicate 1 0\<rparr>)"
    "InitBufTable tag_memory 1 False = Some h"
    "coherent (start_bufs p (backend0\<lparr>PrivateRefCount := replicate 1 0, LastRefCount := replicate 1 0\<rparr>) h (\<lambda>_. Some zero_block) m 7) pool_catalog pool_slots (pool_contents bs)" "NBuffers p = 1"
    by (elim retsE) (auto elim!: retsE)
  let ?s = "start_bufs p (backend0\<lparr>PrivateRefCount := replicate 1 0, LastRefCount := replicate 1 0\<rparr>) h (\<lambda>_. Some zero_block) m 7"
  have "has_element (the (InitBufTable tag_memory 1 False))" by code_simp
  then have e: "has_element (SharedBufHash ?s)" using p(2) by (simp add: start_bufs_def)
  have i: "idle ?s" using p(4) by (simp add: idle_def start_bufs_def held_def)
  have "client ?s pool_catalog pool_slots pool_rel pool_rid" using m(3)
    by (simp add: client_def start_bufs_def pool_rel_def sample_rel_def zero_relation_def pool_slots_def pool_catalog_def pool_rid_def RelationGetLRelId_def cstr_def NAMEDATALEN_def VariableRelationName_def)
  moreover have "sample_bufs bs = Some ?s" using m(1) p(1,2) by (simp add: sample_bufs_def)
  ultimately show ?thesis using that p(3,4) i e idle_claim [OF i] m(4) by (simp add: start_bufs_def has_place_def)
qed

text \<open>The same after one read, when the buffer is in use.\<close>

lemma sample_used:
  assumes "blocks_ok bs" and "length bs < RELSEG_SIZE"
  obtains s t page where "sample_bufs bs = Some s" "read_page s pool_rel 0 = Some (t, page)" "coherent t pool_catalog pool_slots (pool_contents bs)" "client t pool_catalog pool_slots pool_rel pool_rid"
    "idle t" "in_use t" "disk_room (sys (vfs (sm t))) = 100000" "owner (bp t) 0 = Some (tag_of pool_rid 0)" "MyDatabaseId t = 7" "MyDatabaseId s = 7"
proof -
  obtain s where s: "sample_bufs bs = Some s" "coherent s pool_catalog pool_slots (pool_contents bs)" "client s pool_catalog pool_slots pool_rel pool_rid"
    "\<And>tg. has_place s tg" "NBuffers (bp s) = 1" "idle s" "disk_room (sys (vfs (sm s))) = 100000" "MyDatabaseId s = 7" using sample_ready [OF assms] by blast
  have z: "unat (0 :: uint32) < RELSEG_SIZE" by (simp add: RELSEG_SIZE_def)
  from read_page_ok [OF s(2,3) z s(4)] obtain t page b where t: "read_page s pool_rel 0 = Some (t, page)" "coherent t pool_catalog pool_slots (pool_contents bs)"
    "same_env s t" "be t = be s" "in_pool s b" "owner (bp t) b = Some (tag_of pool_rid 0)" "disk_room (sys (vfs (sm t))) = disk_room (sys (vfs (sm s)))" by (elim retsE) auto
  have N: "NBuffers (bp t) = 1" using t(3) s(5) by (simp add: same_env_def)
  have "b = 0" "\<And>c. in_pool t c \<Longrightarrow> c = 0" using t(5) N s(5) by (simp_all add: in_pool_def)
  then have "in_use t" "owner (bp t) 0 = Some (tag_of pool_rid 0)" using t(6) by (auto simp: in_use_def)
  moreover have "idle t" using s(6) t(4) N s(5) by (simp add: idle_def)
  ultimately show ?thesis using that s(1,7,8) t client_env [OF s(3) t(3)] by (simp add: same_env_def)
qed

lemma sample_blocks: "blocks_ok [replicate BLCKSZ 7, replicate BLCKSZ 9]" "length [replicate BLCKSZ (7 :: byte), replicate BLCKSZ 9] < RELSEG_SIZE"
  by (simp_all add: blocks_ok_def RELSEG_SIZE_def)

subsection \<open>Properties\<close>

text \<open>
  C4: \<open>ReadBuffer\<close> returns the block that was asked for. Whether the block is in the pool or has to be read from disk, and whatever dirty buffer has to be
  written out for it, the buffer returned is valid, has the number of the block, and holds the current block of the relation, zeros beyond its end; the
  buffer gains one pin; and no relation changes.
\<close>

theorem ReadBuffer_returns_block:
  assumes "coherent s F P B" and "client s F P reln r" and "unat blk < RELSEG_SIZE" and "has_place s (tag_of r blk)"
  shows "rets (ReadBuffer s reln blk) (\<lambda>(t, _, buffer). coherent t F P B \<and> BufferIsValid (bp t) (be t) buffer = Some True \<and>
    BufferGetBlockNumber (bp t) (be t) buffer = Some blk \<and> rets (BufferGetBlock t buffer) (\<lambda>off. blocks t off = Some (block_at (B r) blk)) \<and>
    PrivateRefCount (be t) = (PrivateRefCount (be s))[nat (buffer - 1) := PrivateRefCount (be s) ! nat (buffer - 1) + 1])"
proof -
  obtain t buffer where t: "ReadBuffer s reln blk = Some (t, reln, buffer)" "coherent t F P B" "owner (bp t) (buffer - 1) = Some (tag_of r blk)"
    "taken s t (buffer - 1)" "pinned t (buffer - 1)" using block_read_in [OF assms] by blast
  then show ?thesis using buffer_page [OF t(2,3,5)] by (simp add: taken_def)
qed

theorem ReadBuffer_returns_block_witness:
  "rets (sample_bufs [replicate BLCKSZ 7, replicate BLCKSZ 9]) (\<lambda>s. rets (ReadBuffer s pool_rel 1) (\<lambda>(t, _, buffer).
     rets (BufferGetBlock t buffer) (\<lambda>off. blocks t off = Some (replicate BLCKSZ 9))))"
proof -
  obtain s where s: "sample_bufs [replicate BLCKSZ 7, replicate BLCKSZ 9] = Some s"
    "coherent s pool_catalog pool_slots (pool_contents [replicate BLCKSZ 7, replicate BLCKSZ 9])" "client s pool_catalog pool_slots pool_rel pool_rid" "\<And>tg. has_place s tg"
    using sample_ready [OF sample_blocks] by blast
  have "unat (1 :: uint32) < RELSEG_SIZE" by (simp add: RELSEG_SIZE_def)
  from ReadBuffer_returns_block [OF s(2,3) this s(4)] show ?thesis unfolding s(1) rets_Some
    by (rule rets_mono) (auto simp: block_at_def pool_contents_def)
qed

text \<open>
  C37: \<open>ReadBuffer\<close> of \<open>P_NEW\<close> makes the relation one block longer. When the disk has room, the buffer returned holds a block of zeros, whose number is the
  old length of the relation, and every other block stays.
\<close>

theorem ReadBuffer_extends:
  assumes "coherent s F P B" and "client s F P reln r" and "Suc (length (B r)) < RELSEG_SIZE" and "has_place s (tag_of r (of_nat (length (B r))))"
    and "BLCKSZ \<le> disk_room (sys (vfs (sm s)))"
  shows "rets (ReadBuffer s reln P_NEW) (\<lambda>(t, _, buffer). coherent t F P (B(r := B r @ [zero_block])) \<and> BufferIsValid (bp t) (be t) buffer = Some True \<and>
    BufferGetBlockNumber (bp t) (be t) buffer = Some (of_nat (length (B r))) \<and> rets (BufferGetBlock t buffer) (\<lambda>off. blocks t off = Some zero_block))"
proof -
  have S: "steady s {} F P B" "BufMgrLock s = False" using assms(1) by (simp_all add: coherent_def)
  let ?s = "s\<lparr>ReadBufferCount := ReadBufferCount s + 1\<rparr>" and ?n = "of_nat (length (B r)) :: uint32"
  have pl: "has_place ?s (tag_of r ?n)" "steady ?s {} F P B" "client ?s F P reln r" "BufMgrLock ?s = False" "BLCKSZ \<le> disk_room (sys (vfs (sm ?s)))"
    using assms S steady_other [OF S(1), of ?s] by (simp_all add: has_place_def can_claim_def in_use_def in_pool_def client_def)
  from read_new_ok [OF pl(2,4,3) assms(3) pl(5,1)] obtain t buffer where t: "read_shared ?s reln P_NEW False = Some (t, reln, buffer)" "coherent t F P (extended B r)"
    "owner (bp t) (buffer - 1) = Some (tag_of r ?n)" "taken s t (buffer - 1)" "same_env s t" by (elim retsE) (auto simp: taken_def same_env_def in_pool_def)
  have rd: "ReadBuffer s reln P_NEW = Some (t, reln, buffer)" using t(1) assms(2) by (simp add: ReadBuffer_def ReadBufferWithBufferLock_def client_def)
  have b: "in_pool s (buffer - 1)" using owner_pool [OF t(3)] t(5) by (simp add: in_pool_def same_env_def)
  note bp = buffer_page [OF t(2,3) taken_pinned [OF S(1) b t(4)]]
  have "unat ?n = length (B r)" using assms(3) by (simp add: unat_of_nat take_bit_nat_eq_self RELSEG_SIZE_def)
  then have "block_at (extended B r r) ?n = zero_block" by (simp add: block_at_def extended_def)
  then show ?thesis using rd bp t(2) by (simp add: extended_def)
qed

theorem ReadBuffer_extends_witness:
  "rets (sample_bufs [replicate BLCKSZ 7, replicate BLCKSZ 9]) (\<lambda>s. rets (ReadBuffer s pool_rel P_NEW) (\<lambda>(t, _, buffer).
     BufferGetBlockNumber (bp t) (be t) buffer = Some 2))"
proof -
  let ?bs = "[replicate BLCKSZ 7, replicate BLCKSZ 9]"
  obtain s where s: "sample_bufs ?bs = Some s" "coherent s pool_catalog pool_slots (pool_contents ?bs)" "client s pool_catalog pool_slots pool_rel pool_rid"
    "\<And>tg. has_place s tg" "disk_room (sys (vfs (sm s))) = 100000" using sample_ready [OF sample_blocks] by blast
  have "Suc (length (pool_contents ?bs pool_rid)) < RELSEG_SIZE" "BLCKSZ \<le> disk_room (sys (vfs (sm s)))" using s(5) by (simp_all add: RELSEG_SIZE_def pool_contents_def BLCKSZ_def)
  from ReadBuffer_extends [OF s(2,3) this(1) s(4) this(2)] show ?thesis unfolding s(1) rets_Some
    by (rule rets_mono) (auto simp: pool_contents_def)
qed

text \<open>
  C6: \<open>WriteBuffer\<close> makes the change of a page the current block of the relation and drops the pin. In the late mode it returns 1 and the page stays in the pool, marked dirty;
  in the flush mode it returns \<open>STATUS_OK\<close>, which is 0, and the block on disk is the page. No other block changes.
\<close>

theorem WriteBuffer_changes_block:
  assumes "coherent s F P B" and "owner (bp s) (buffer - 1) = Some (tag_of r blk)" and "pinned s (buffer - 1)" and "unat blk < length (B r)" and "length page = BLCKSZ"
  shows "rets (WriteBuffer (poke s (buffer - 1) page) buffer) (\<lambda>(t, st). coherent t F P (B(r := (B r)[unat blk := page])) \<and>
    PrivateRefCount (be t) = (PrivateRefCount (be s))[nat (buffer - 1) := PrivateRefCount (be s) ! nat (buffer - 1) - 1] \<and>
    (if WriteMode s = BUFFER_FLUSH_WRITE then st = 0 \<and> (\<exists>K. stored (sm t) F P K \<and> block_at (K r) blk = page) else st = 1 \<and> has_flag BM_DIRTY (D (bp t) (buffer - 1))))"
  using block_written_back [OF assms] by (auto simp: changed_def unpinned_def STATUS_OK_def elim!: rets_mono)

theorem WriteBuffer_changes_block_witness:
  "rets (sample_bufs [replicate BLCKSZ 7, replicate BLCKSZ 9]) (\<lambda>s. rets (ReadBuffer s pool_rel 1) (\<lambda>(t, _, buffer).
     rets (WriteBuffer (poke t (buffer - 1) (replicate BLCKSZ 8)) buffer) (\<lambda>(u, st). st = 1 \<and>
       coherent u pool_catalog pool_slots ((pool_contents [replicate BLCKSZ 7, replicate BLCKSZ 9])(pool_rid := [replicate BLCKSZ 7, replicate BLCKSZ 8])))))"
proof -
  let ?bs = "[replicate BLCKSZ 7, replicate BLCKSZ 9]"
  obtain s where s: "sample_bufs ?bs = Some s" "coherent s pool_catalog pool_slots (pool_contents ?bs)" "client s pool_catalog pool_slots pool_rel pool_rid"
    "\<And>tg. has_place s tg" "WriteMode s = BUFFER_LATE_WRITE" using sample_ready [OF sample_blocks] by blast
  have "unat (1 :: uint32) < RELSEG_SIZE" by (simp add: RELSEG_SIZE_def)
  then obtain t buffer where t: "ReadBuffer s pool_rel 1 = Some (t, pool_rel, buffer)" "coherent t pool_catalog pool_slots (pool_contents ?bs)"
    "owner (bp t) (buffer - 1) = Some (tag_of pool_rid 1)" "pinned t (buffer - 1)" "same_env s t" using block_read_in [OF s(2,3) _ s(4)] by blast
  have mode: "WriteMode t \<noteq> BUFFER_FLUSH_WRITE" using t(5) s(5) by (simp add: same_env_def BUFFER_LATE_WRITE_def BUFFER_FLUSH_WRITE_def)
  have "unat (1 :: uint32) < length (pool_contents ?bs pool_rid)" by (simp add: pool_contents_def)
  from WriteBuffer_changes_block [OF t(2-4) this, of "replicate BLCKSZ 8"] show ?thesis unfolding s(1) t(1) rets_Some prod.case
    by (rule rets_mono) (use mode in \<open>auto simp: pool_contents_def\<close>)
qed

text \<open>
  C1: The buffer manager refines blocks without buffers. When no buffer is pinned, every sequence of page reads and page replacements, each a \<open>ReadBuffer\<close> with the \<open>ReleaseBuffer\<close> or
  \<open>WriteBuffer\<close> that belongs to it, terminates and returns the pages that the same sequence on lists of blocks returns, in either write mode and however few buffers the
  pool has; afterwards the pool and the disk together keep the blocks of the sequence on lists, and no buffer is pinned.
\<close>

theorem buffers_refine_blocks:
  assumes "coherent s F P B" and "idle s" and "in_use s" and "\<forall>q\<in>set qs. valid s F P B q"
  shows "rets (run qs s) (\<lambda>(t, out). out = snd (serve qs B) \<and> coherent t F P (fst (serve qs B)) \<and> idle t)"
  using run_ok [OF assms] assms(2) by (auto simp: idle_def same_env_def elim!: rets_mono)

theorem buffers_refine_blocks_witness:
  "rets (sample_bufs [replicate BLCKSZ 7, replicate BLCKSZ 9]) (\<lambda>s. rets (read_page s pool_rel 0) (\<lambda>(s, _).
     rets (run [Put pool_rel pool_rid 0 (replicate BLCKSZ 8), Get pool_rel pool_rid 1, Get pool_rel pool_rid 0] s) (\<lambda>(t, out). out = [replicate BLCKSZ 9, replicate BLCKSZ 8])))"
proof -
  let ?bs = "[replicate BLCKSZ 7, replicate BLCKSZ 9]"
  let ?qs = "[Put pool_rel pool_rid 0 (replicate BLCKSZ 8), Get pool_rel pool_rid 1, Get pool_rel pool_rid 0]"
  obtain s t page where s: "sample_bufs ?bs = Some s" "read_page s pool_rel 0 = Some (t, page)" "coherent t pool_catalog pool_slots (pool_contents ?bs)"
    "client t pool_catalog pool_slots pool_rel pool_rid" "idle t" "in_use t" using sample_used [OF sample_blocks] by blast
  have "\<forall>q\<in>set ?qs. valid t pool_catalog pool_slots (pool_contents ?bs) q" using s(4) by (simp add: pool_contents_def RELSEG_SIZE_def)
  then have r: "rets (run ?qs t) (\<lambda>(u, out). out = snd (serve ?qs (pool_contents ?bs)) \<and> coherent u pool_catalog pool_slots (fst (serve ?qs (pool_contents ?bs))) \<and> idle u)"
    using buffers_refine_blocks [OF s(3,5,6)] by blast
  have "snd (serve ?qs (pool_contents ?bs)) = [replicate BLCKSZ 9, replicate BLCKSZ 8]" by (simp add: block_at_def changed_def pool_contents_def)
  with r show ?thesis unfolding s(1,2) rets_Some prod.case by (auto elim!: rets_mono)
qed

text \<open>
  C38: \<open>BufferSync\<close> does not synchronise the pool. It returns from inside its loop after the first valid dirty buffer, before the buffer's pin is dropped and its dirty flag is
  cleared: the buffer keeps one pin too many, and every buffer that was dirty is dirty afterwards. The invariant holds.
\<close>

theorem BufferSync_stops:
  assumes "coherent s F P B" and "b < NBuffers (bp s)" and "must_sync s b" and "\<forall>i<b. \<not> must_sync s i"
  shows "rets (BufferSync s) (\<lambda>t. coherent t F P B \<and> PrivateRefCount (be t) = (PrivateRefCount (be s))[b := PrivateRefCount (be s) ! b + 1] \<and>
    (\<forall>c<NBuffers (bp s). has_flag BM_DIRTY (D (bp t) (int c)) = has_flag BM_DIRTY (D (bp s) (int c))))"
  using BufferSync_first [OF assms(1-3)] assms(4) by (auto elim!: rets_mono)

theorem BufferSync_stops_witness:
  "rets (sample_bufs [replicate BLCKSZ 7, replicate BLCKSZ 9]) (\<lambda>s. rets (write_page s pool_rel 1 (replicate BLCKSZ 8)) (\<lambda>t. must_sync t 0 \<and>
     rets (BufferSync t) (\<lambda>u. PrivateRefCount (be t) = [0] \<and> PrivateRefCount (be u) = [1] \<and> has_flag BM_DIRTY (D (bp u) 0))))"
proof -
  let ?bs = "[replicate BLCKSZ 7, replicate BLCKSZ 9]"
  obtain s where s: "sample_bufs ?bs = Some s" "coherent s pool_catalog pool_slots (pool_contents ?bs)" "client s pool_catalog pool_slots pool_rel pool_rid"
    "\<And>tg. has_place s tg" "NBuffers (bp s) = 1" "idle s" "WriteMode s = BUFFER_LATE_WRITE" using sample_ready [OF sample_blocks] by blast
  have blk: "unat (1 :: uint32) < length (pool_contents ?bs pool_rid)" by (simp add: pool_contents_def)
  from write_page_ok [OF s(2,3) blk length_replicate s(4), of 8] obtain t where t: "write_page s pool_rel 1 (replicate BLCKSZ 8) = Some t"
    "coherent t pool_catalog pool_slots (changed (pool_contents ?bs) pool_rid 1 (replicate BLCKSZ 8))" "same_env s t" "be t = be s"
    "WriteMode s \<noteq> BUFFER_FLUSH_WRITE \<longrightarrow> (\<exists>b. in_pool s b \<and> has_flag BM_DIRTY (D (bp t) b))" by (elim retsE) auto
  have N: "NBuffers (bp t) = 1" using t(3) s(5) by (simp add: same_env_def)
  have St: "steady t {} pool_catalog pool_slots (changed (pool_contents ?bs) pool_rid 1 (replicate BLCKSZ 8))" using t(2) by (simp add: coherent_def)
  have "b = 0" if "in_pool s b" for b using that s(5) by (simp add: in_pool_def)
  then have "has_flag BM_DIRTY (D (bp t) 0)" using t(5) s(7) by (auto simp: BUFFER_LATE_WRITE_def BUFFER_FLUSH_WRITE_def)
  moreover have "has_flag BM_VALID (D (bp t) 0)" using buffer_facts(10) [OF St _ refl, of 0] N by (simp add: in_pool_def)
  ultimately have d: "must_sync t 0" by (simp add: must_sync_def)
  have "length (PrivateRefCount (be t)) = 1" using steady_backend [OF St] N by (simp add: backend_ok_def)
  moreover have "PrivateRefCount (be t) ! 0 = 0" using s(5,6) t(4) steady_backend [OF St] N by (simp add: idle_def held_def backend_ok_def)
  ultimately have pr: "PrivateRefCount (be t) = [0]" by (cases "PrivateRefCount (be t)") auto
  have "0 < NBuffers (bp t)" using N by simp
  from BufferSync_stops [OF t(2) this d] have "rets (BufferSync t) (\<lambda>u. PrivateRefCount (be u) = [1] \<and> has_flag BM_DIRTY (D (bp u) 0))"
    using d pr N by (auto simp: must_sync_def elim!: rets_mono)
  then show ?thesis unfolding s(1) t(1) rets_Some using d pr by simp
qed

end
