(* ===== verification/Heap.thy ===== *)
theory Heap
  imports BufMgr_Props Page_Props
begin

text \<open>
  The page interface of the program, \<open>main/main.c\<close>: creating a relation, adding items to its pages, and
  reading the items of a page; with \<open>BufferGetPage\<close> and \<open>BufferGetPageSize\<close> of \<open>storage/page/bufpage.c\<close>.

  A page is changed in the memory of its buffer, so the page routines work on the bytes in \<open>blocks\<close> and put them
  back there. \<open>PageManagerShuffle\<close> has its initial value; nothing in the program changes it.
\<close>

subsection \<open>Buffers as pages\<close>

definition BufferGetPageSize :: "bufs \<Rightarrow> int \<Rightarrow> size_word option" where
  "BufferGetPageSize s buffer = do {
     v \<leftarrow> BufferIsValid (bp s) (be s) buffer;
     if v then Some (of_nat BLCKSZ) else None
   }"

definition BufferGetPage :: "bufs \<Rightarrow> int \<Rightarrow> 64 word option" where
  "BufferGetPage s buffer = BufferGetBlock s buffer"

text \<open>Access to the page behind the pointer.\<close>

definition set_page :: "bufs \<Rightarrow> 64 word \<Rightarrow> page \<Rightarrow> bufs" where
  "set_page s off p = s\<lparr>blocks := (blocks s)(off \<mapsto> p)\<rparr>"

subsection \<open>Relations\<close>

text \<open>The object identifier is the same for every relation. The rest of \<open>rd_rel\<close> is not used by the storage engine.\<close>

definition heap_create :: "bufs \<Rightarrow> string \<Rightarrow> (bufs \<times> RelationData) option" where
  "heap_create s name = do {
     rdesc \<leftarrow> Some (zero_relation\<lparr>relname := namestrcpy name, rd_nblocks := 0, rd_id := 16993, rd_isnailed := False, rd_islocal := False,
                rd_istemp := False, rd_refcnt := 1, relsmgr := DEFAULT_SMGR, rd_tmpunlinked := True\<rparr>);
     (m, fd) \<leftarrow> smgropen DEFAULT_SMGR (sm s) rdesc;
     rdesc \<leftarrow> RelationInitLockInfo (MyDatabaseId s) (rdesc\<lparr>rd_fd := fd, rd_tmpunlinked := False\<rparr>);
     Some (s\<lparr>sm := m\<rparr>, rdesc)
   }"

subsection \<open>Adding items\<close>

text \<open>\<open>t_len\<close> is passed on as a \<open>Size\<close>. \<open>elog(WARN)\<close> returns, so an item that is too big is refused by \<open>PageAddItem\<close>, whose result nobody looks at.\<close>

definition add_item :: "bufs \<Rightarrow> 64 word \<Rightarrow> byte list \<Rightarrow> size_word \<Rightarrow> bufs option" where
  "add_item s off item t_len = do {
     p \<leftarrow> blocks s off;
     (p, _) \<leftarrow> PageAddItem True p item t_len InvalidOffsetNumber (ucast LP_USED);
     Some (set_page s off p)
   }"

text \<open>A fresh page at the end: \<open>ReleaseAndReadBuffer\<close> with \<open>P_NEW\<close>, and \<open>PageInit\<close>. \<open>RelationPutAtEnd\<close> does this in two places.\<close>

definition new_page :: "bufs \<Rightarrow> RelationData \<Rightarrow> int \<Rightarrow> (bufs \<times> RelationData \<times> int) option" where
  "new_page s reln buffer = do {
     (s, reln, buffer) \<leftarrow> ReleaseAndReadBuffer s buffer reln P_NEW;
     off \<leftarrow> BufferGetPage s buffer;
     sz \<leftarrow> BufferGetPageSize s buffer;
     p \<leftarrow> blocks s off;
     p \<leftarrow> PageInit p sz 0;
     Some (set_page s off p, reln, buffer)
   }"

definition last_page :: "bufs \<Rightarrow> RelationData \<Rightarrow> uint32 \<Rightarrow> (bufs \<times> RelationData \<times> int) option" where
  "last_page s reln lastblock =
     (if lastblock = 0 then do {
        (s, reln, buffer) \<leftarrow> ReadBuffer s reln lastblock;
        off \<leftarrow> BufferGetPage s buffer;
        p \<leftarrow> blocks s off;
        if PageIsNew p then new_page s reln buffer else Some (s, reln, buffer)
      } else ReadBuffer s reln (lastblock - 1))"

definition RelationPutAtEnd :: "bufs \<Rightarrow> RelationData \<Rightarrow> byte list \<Rightarrow> size_word \<Rightarrow> (bufs \<times> RelationData) option" where
  "RelationPutAtEnd s reln item t_len = do {
     (s, lastblock) \<leftarrow> RelationGetNumberOfBlocks s reln;
     (s, reln, buffer) \<leftarrow> last_page s reln lastblock;
     off \<leftarrow> BufferGetPage s buffer;
     p \<leftarrow> blocks s off;
     (s, reln, buffer) \<leftarrow> (if DOUBLEALIGN t_len > PageGetFreeSpace p then new_page s reln buffer else Some (s, reln, buffer));
     off \<leftarrow> BufferGetPage s buffer;
     s \<leftarrow> add_item s off item t_len;
     (s, _) \<leftarrow> WriteBuffer s buffer;
     Some (s, reln)
   }"

text \<open>
  The two assertions, that the block exists and that the page has room, print a message when they fail and the routine goes on: \<open>ExceptionalCondition\<close> returns. \<open>blockIndex == -1\<close>
  compares unsigned numbers.
\<close>

definition RelationPut :: "bufs \<Rightarrow> RelationData \<Rightarrow> uint32 \<Rightarrow> byte list \<Rightarrow> size_word \<Rightarrow> (bufs \<times> RelationData) option" where
  "RelationPut s reln blockIndex item t_len = do {
     (s, numberOfBlocks) \<leftarrow> RelationGetNumberOfBlocks s reln;
     if blockIndex = - 1 then RelationPutAtEnd s reln item t_len
     else do {
       (s, reln, buffer) \<leftarrow> ReadBuffer s reln blockIndex;
       _ \<leftarrow> BufferIsValid (bp s) (be s) buffer;
       off \<leftarrow> BufferGetPage s buffer;
       s \<leftarrow> add_item s off item t_len;
       (s, _) \<leftarrow> WriteBuffer s buffer;
       Some (s, reln)
     }
   }"

subsection \<open>Reading items\<close>

text \<open>
  The loop over the line pointers, from the last one down. The result is the array \<open>items\<close>, as the places of the items in the page;
  for an unused line pointer \<open>PageGetItem\<close> calls \<open>abort\<close>.
\<close>

primrec page_items :: "page \<Rightarrow> nat \<Rightarrow> nat list \<Rightarrow> nat list option" where
  "page_items p 0 items = Some items"
| "page_items p (Suc i) items = do {
     itemId \<leftarrow> get_linp p i;
     x \<leftarrow> PageGetItem p itemId;
     page_items p i (x # items)
   }"

text \<open>The items point into the page at the offset returned with them; \<open>None\<close> inside is the null pointer. The buffer is not released.\<close>

definition getAllItemsAtEnd :: "bufs \<Rightarrow> RelationData \<Rightarrow> (bufs \<times> RelationData \<times> (64 word \<times> nat list) option \<times> int) option" where
  "getAllItemsAtEnd s reln = do {
     (s, lastblock) \<leftarrow> RelationGetNumberOfBlocks s reln;
     if lastblock = 0 then Some (s, reln, None, 0)
     else do {
       (s, reln, buffer) \<leftarrow> ReadBuffer s reln (lastblock - 1);
       off \<leftarrow> BufferGetPage s buffer;
       p \<leftarrow> blocks s off;
       items \<leftarrow> page_items p (unat (PageGetMaxOffsetNumber p)) [];
       Some (s, reln, Some (off, items), uint (PageGetMaxOffsetNumber p))
     }
   }"

text \<open>The assertion that the block exists prints a message when it fails, and the routine goes on.\<close>

definition getAllItems :: "bufs \<Rightarrow> RelationData \<Rightarrow> uint32 \<Rightarrow> (bufs \<times> RelationData \<times> (64 word \<times> nat list) option \<times> int) option" where
  "getAllItems s reln blockIndex = do {
     (s, numberOfBlocks) \<leftarrow> RelationGetNumberOfBlocks s reln;
     if blockIndex = - 1 then getAllItemsAtEnd s reln
     else do {
       (s, reln, buffer) \<leftarrow> ReadBuffer s reln blockIndex;
       _ \<leftarrow> BufferIsValid (bp s) (be s) buffer;
       off \<leftarrow> BufferGetPage s buffer;
       p \<leftarrow> blocks s off;
       items \<leftarrow> page_items p (unat (PageGetMaxOffsetNumber p)) [];
       Some (s, reln, Some (off, items), uint (PageGetMaxOffsetNumber p))
     }
   }"

subsection \<open>The program\<close>

text \<open>
  \<open>init\<close> with the shared memory that \<open>CreateSharedMemoryAndSemaphores\<close> provides as arguments: the descriptors, the memory of the lookup table, the blocks. No database is
  chosen, so \<open>MyDatabaseId\<close> keeps its initial value. \<open>SetTransactionFlushEnabled\<close> makes the argument of the last \<open>FlushBufferPool\<close> false.
\<close>

definition NDBUFS :: nat where "NDBUFS = 64"

definition init :: "md \<Rightarrow> backend \<Rightarrow> 64 word \<Rightarrow> BufferDesc list \<Rightarrow> buf_hash \<Rightarrow> (64 word \<rightharpoonup> byte list) \<Rightarrow> bufs option" where
  "init m me base descs h mem = do {
     m \<leftarrow> Some (m\<lparr>vfs := (vfs m)\<lparr>DataDir := ''/home/ubuntu/data/postgres'', DatabaseName := ''Postgres''\<rparr>\<rparr>);
     (m, _) \<leftarrow> smgrinit m;
     (p, me) \<leftarrow> InitBufferPool NDBUFS base descs False me;
     h \<leftarrow> InitBufTable h NDBUFS False;
     Some (start_bufs p me h mem m 0)
   }"

text \<open>The part of \<open>main\<close> that works on pages; the rest prints, and times the bitmaps.\<close>

definition main_pages :: "bufs \<Rightarrow> bufs option" where
  "main_pages s = do {
     (s, rdesc) \<leftarrow> heap_create s ''Hellos'';
     item \<leftarrow> Some (map of_char ''Hello World in the Post gre'');
     (s, rdesc) \<leftarrow> RelationPut s rdesc 0 item (of_nat (length item));
     (s, _) \<leftarrow> getAllItems s rdesc 0;
     FlushBufferPool s False
   }"

end
