(* ===== verification/Heap_Props.thy ===== *)
theory Heap_Props
  imports Heap
begin

text \<open>
  The properties of the page interface: what \<open>RelationPut\<close>, \<open>RelationPutAtEnd\<close> and \<open>getAllItems\<close> do to the items of a relation, from the
  invariant of the buffer manager and the laws of the pages.
\<close>

subsection \<open>A page in the hands of its caller\<close>

text \<open>
  From the state \<open>s\<close> on, \<open>buffer\<close> was pinned for the block; the memory of the buffer is now \<open>p\<close>, and all else is as the invariant says.
\<close>

definition editing :: "bufs \<Rightarrow> catalog \<Rightarrow> (int \<rightharpoonup> rid) \<Rightarrow> contents \<Rightarrow> rid \<Rightarrow> uint32 \<Rightarrow> bufs \<Rightarrow> int \<Rightarrow> page \<Rightarrow> bool" where
  "editing s F P B r blk t buffer p \<longleftrightarrow> (\<exists>u. t = poke u (buffer - 1) p \<and> coherent u F P B \<and> owner (bp u) (buffer - 1) = Some (tag_of r blk) \<and>
     taken s u (buffer - 1) \<and> same_env s u \<and> in_pool s (buffer - 1) \<and> pinned u (buffer - 1))"

lemma poke_sel [simp]: "bp (poke s b p) = bp s" "be (poke s b p) = be s" "blocks (poke s b p) (data (D (bp s) b)) = Some p"
  by (simp_all add: poke_def)

lemma poke_twice: "set_page (poke s b p) (data (D (bp s) b)) q = poke s b q"
  by (simp add: set_page_def poke_def)

lemma poke_same: "blocks s (data (D (bp s) b)) = Some p \<Longrightarrow> poke s b p = s"
  by (simp add: poke_def fun_upd_idem)

lemma editing_page:
  assumes "editing s F P B r blk t buffer p"
  obtains off where "BufferGetPage t buffer = Some off" "blocks t off = Some p" "BufferIsValid (bp t) (be t) buffer = Some True" "BufferGetPageSize t buffer = Some 8192"
    "\<And>q. editing s F P B r blk (set_page t off q) buffer q"
proof -
  obtain u where u: "t = poke u (buffer - 1) p" "coherent u F P B" "owner (bp u) (buffer - 1) = Some (tag_of r blk)" "taken s u (buffer - 1)" "same_env s u" "in_pool s (buffer - 1)" "pinned u (buffer - 1)"
    using assms by (auto simp: editing_def)
  note bp = buffer_page [OF u(2,3,7)]
  have "BufferGetBlock t buffer = BufferGetBlock u buffer" unfolding u(1) BufferGetBlock_def by (simp only: poke_sel)
  then have "BufferGetPage t buffer = Some (data (D (bp u) (buffer - 1)))" using bp(2) by (simp add: BufferGetPage_def)
  moreover have "editing s F P B r blk (set_page t (data (D (bp u) (buffer - 1))) q) buffer q" for q unfolding u(1) poke_twice editing_def using u by blast
  ultimately show ?thesis using that [of "data (D (bp u) (buffer - 1))"] bp(1) by (simp add: u(1) BufferGetPageSize_def BLCKSZ_def)
qed

lemma editing_read:
  assumes "coherent s F P B" and "client s F P reln r" and "unat blk < RELSEG_SIZE" and "has_place s (tag_of r blk)"
  obtains t buffer where "ReadBuffer s reln blk = Some (t, reln, buffer)" "coherent t F P B" "owner (bp t) (buffer - 1) = Some (tag_of r blk)"
    "taken s t (buffer - 1)" "same_env s t" "in_pool s (buffer - 1)" "pinned t (buffer - 1)" "disk_room (sys (vfs (sm t))) = disk_room (sys (vfs (sm s)))"
    "editing s F P B r blk t buffer (block_at (B r) blk)"
proof -
  obtain t buffer where t: "ReadBuffer s reln blk = Some (t, reln, buffer)" "coherent t F P B" "owner (bp t) (buffer - 1) = Some (tag_of r blk)"
    "taken s t (buffer - 1)" "same_env s t" "in_pool s (buffer - 1)" "pinned t (buffer - 1)" "disk_room (sys (vfs (sm t))) = disk_room (sys (vfs (sm s)))"
    using block_read_in [OF assms] by blast
  have "t = poke t (buffer - 1) (block_at (B r) blk)" using poke_same [OF buffer_page(3) [OF t(2,3,7)]] by simp
  then show ?thesis using that t unfolding editing_def by blast
qed

lemma editing_write:
  assumes C: "coherent s F P C" and e: "editing s F P B r blk t buffer p" and blk: "unat blk < length (B r)" and p: "length p = BLCKSZ"
  shows "rets (WriteBuffer t buffer) (\<lambda>(v, st). coherent v F P (B(r := (B r)[unat blk := p])) \<and> be v = be s \<and> same_env s v)"
proof -
  obtain u where u: "t = poke u (buffer - 1) p" "coherent u F P B" "owner (bp u) (buffer - 1) = Some (tag_of r blk)" "taken s u (buffer - 1)" "same_env s u" "in_pool s (buffer - 1)" "pinned u (buffer - 1)"
    using e by (auto simp: editing_def)
  have "backend_ok (NBuffers (bp s)) (be s)" using C steady_backend by (auto simp: coherent_def)
  then have "be v = be s" if "unpinned u v (buffer - 1)" for v using taken_back [OF u(4) that] u(6) by (simp add: backend_ok_def in_pool_def)
  then show ?thesis using block_written_back [OF u(2,3,7) blk p] u(1) by (auto simp: changed_def intro: same_env_trans [OF u(5)] elim!: rets_mono)
qed

text \<open>An item is added to the page.\<close>

definition puts :: "page \<Rightarrow> byte list \<Rightarrow> size_word \<Rightarrow> page \<Rightarrow> bool" where
  "puts p item t_len q \<longleftrightarrow> page_ok q \<and>
     (if need p (free_slot p) + al (unat t_len) \<le> unat (pd_upper p)
      then contents q = (if free_slot p = nlines p then contents p @ [Some item] else (contents p)[free_slot p := Some item]) else q = p)"

lemma put_ok:
  assumes p: "page_ok p" and item: "length item = unat t_len" "item \<noteq> []" and sz: "unat t_len \<le> 2 ^ 30"
  shows "rets (PageAddItem True p item t_len InvalidOffsetNumber (ucast LP_USED)) (\<lambda>(q, _). puts p item t_len q)"
proof (cases "need p (free_slot p) + al (unat t_len) \<le> unat (pd_upper p)")
  case True
  show ?thesis by (rule rets_mono [OF PageAddItem_free [OF p _ item sz _ True]]) (use True in \<open>auto simp: puts_def OffsetNumberIsValid_def InvalidOffsetNumber_def LP_USED_def\<close>)
next
  case False
  then show ?thesis using PageAddItem_eq [OF p _ item(1) sz, of InvalidOffsetNumber True] p by (simp add: puts_def OffsetNumberIsValid_def)
qed

lemma puts_fit:
  assumes "puts p item t_len q" and "page_ok p" and "length item = unat t_len" and "item \<noteq> []" and "unat t_len \<le> 2 ^ 30" and "DOUBLEALIGN t_len \<le> PageGetFreeSpace p"
  shows "page_ok q" and "contents q = (if free_slot p = nlines p then contents p @ [Some item] else (contents p)[free_slot p := Some item])"
proof -
  have "al (unat t_len) \<le> unat (PageGetFreeSpace p)" using assms(5,6) unat_DOUBLEALIGN [of t_len] by (simp add: word_le_nat_alt)
  moreover have "0 < unat t_len" using assms(3,4) by (cases item) simp_all
  ultimately have "need p (free_slot p) + al (unat t_len) \<le> unat (pd_upper p)" using fits_free_space [OF page_okD(1) [OF assms(2)]] by simp
  then show "page_ok q" "contents q = (if free_slot p = nlines p then contents p @ [Some item] else (contents p)[free_slot p := Some item])" using assms(1) by (simp_all add: puts_def)
qed

lemma add_ok:
  assumes e: "editing s F P B r blk t buffer p" and off: "BufferGetPage t buffer = Some off" and p: "page_ok p"
    and item: "length item = unat t_len" "item \<noteq> []" and sz: "unat t_len \<le> 2 ^ 30"
  shows "rets (add_item t off item t_len) (\<lambda>u. \<exists>q. editing s F P B r blk u buffer q \<and> puts p item t_len q)"
proof -
  obtain off' where o: "BufferGetPage t buffer = Some off'" "blocks t off' = Some p" "\<And>q. editing s F P B r blk (set_page t off' q) buffer q"
    using editing_page [OF e] by blast
  from put_ok [OF p item sz] obtain q x where q: "PageAddItem True p item t_len InvalidOffsetNumber (ucast LP_USED) = Some (q, x)" "puts p item t_len q" by (elim retsE) auto
  then have "add_item t off item t_len = Some (set_page t off q)" using o off by (simp add: add_item_def)
  then show ?thesis using o off q(2) by auto
qed

text \<open>Counting the blocks.\<close>

lemma count_blocks:
  assumes C: "coherent s F P B" and c: "client s F P reln r"
  obtains t where "RelationGetNumberOfBlocks s reln = Some (t, of_nat (length (B r)))" "coherent t F P B" "client t F P reln r" "same_env s t" "be t = be s"
    "\<And>tg. has_place t tg = has_place s tg" "in_use t = in_use s" "disk_room (sys (vfs (sm t))) = disk_room (sys (vfs (sm s)))" "length (B r) < RELSEG_SIZE" "blocks_ok (B r)"
proof -
  have S: "steady s {} F P B" "\<not> BufMgrLock s" using C by (simp_all add: coherent_def)
  obtain K where K: "stored (sm s) F P K" "agree s F K B" "length (K r) = length (B r)" "P (rd_fd reln) = Some r" "length (B r) < RELSEG_SIZE" "blocks_ok (B r)"
    using client_stored [OF S(1) c] by blast
  from disk.count_law [OF K(1,4)] obtain m where m: "mdnblocks (sm s) reln = Some (m, int (length (B r)))" "stored m F P K" "disk_room (sys (vfs m)) = disk_room (sys (vfs (sm s)))"
    "DatabaseName (vfs m) = DatabaseName (vfs (sm s))" using K(3) by (elim retsE) auto
  let ?t = "s\<lparr>sm := m\<rparr>"
  have "agree ?t F K B" using K(2) by (simp add: agree_def dirty_block_def in_pool_def)
  then have "steady ?t {} F P B"
    using S m(2) unfolding steady_def by (auto simp: quiet_def own_memory_def descs_ok_def in_pool_def named_def holds_def)
  moreover have e: "same_env s ?t" using m(4) by (simp add: same_env_def)
  moreover have "RelationGetNumberOfBlocks s reln = Some (?t, of_nat (length (B r)))"
    using c m(1) by (simp add: RelationGetNumberOfBlocks_def client_def smgrnblocks_def smgrsw_def NSmgr_def)
  ultimately show ?thesis using that [of ?t] S(2) m(3) K(5,6) client_env [OF c e] by (simp add: coherent_def has_place_def can_claim_def in_use_def in_pool_def)
qed

lemma block_less: "length bs < RELSEG_SIZE \<Longrightarrow> blk < of_nat (length bs) \<longleftrightarrow> unat (blk :: uint32) < length bs"
  by (simp add: word_less_nat_alt unat_of_nat take_bit_nat_eq_self RELSEG_SIZE_def)

subsection \<open>A new page at the end\<close>

text \<open>The buffer that was read last is given up, with its only pin, and the relation is extended.\<close>

lemma release_extend:
  assumes s: "coherent s F P B" "idle s" "in_use s" and t: "coherent t F P B" "owner (bp t) (buffer - 1) = Some tg" "taken s t (buffer - 1)" "same_env s t" "in_pool s (buffer - 1)" "pinned t (buffer - 1)"
    and c: "client t F P reln r" and small: "Suc (length (B r)) < RELSEG_SIZE" and room: "BLCKSZ \<le> disk_room (sys (vfs (sm t)))"
  shows "rets (ReleaseAndReadBuffer t buffer reln P_NEW) (\<lambda>(u, reln', buffer'). reln' = reln \<and> coherent u F P (extended B r) \<and>
    owner (bp u) (buffer' - 1) = Some (tag_of r (of_nat (length (B r)))) \<and> taken s u (buffer' - 1) \<and> same_env s u)"
proof -
  let ?b = "buffer - 1" and ?n = "of_nat (length (B r)) :: uint32"
  have S: "steady s {} F P B" "steady t {} F P B" "\<not> BufMgrLock t" using s(1) t(1) by (simp_all add: coherent_def)
  have b: "in_pool t ?b" "0 \<le> ?b" "nat ?b < NBuffers (bp s)" "nat ?b < NBuffers (bp t)" using t(4,5) by (auto simp: in_pool_def same_env_def)
  have bo: "backend_ok (NBuffers (bp s)) (be s)" by (rule steady_backend [OF S(1)])
  have z: "PrivateRefCount (be s) ! nat ?b = 0" "LastRefCount (be s) ! nat ?b = 0" using s(2) bo b(3) by (auto simp: idle_def held_def backend_ok_def not_less intro: antisym)
  have one: "PrivateRefCount (be t) ! nat ?b = 1" "LastRefCount (be t) ! nat ?b = 0" "length (PrivateRefCount (be t)) = NBuffers (bp s)" "length (LastRefCount (be t)) = NBuffers (bp s)"
    using t(3) z bo b(3) by (simp_all add: taken_def backend_ok_def)
  have pos: "0 < PrivateRefCount (be t) ! nat ?b" using one(1) by simp
  from steady_unpin [OF S(2) b(1) pos] obtain u where u: "unpin t ?b = Some u" "steady u {} F P B" "u = t\<lparr>bp := bp u, be := be u\<rparr>" "frame (bp u) = frame (bp t)"
    "be u = (be t)\<lparr>PrivateRefCount := (PrivateRefCount (be t))[nat ?b := PrivateRefCount (be t) ! nat ?b - 1]\<rparr>" by (elim retsE) auto
  obtain xs where xs: "pool_inv (bp t) [be t] xs" using S(2) by (auto simp: steady_def)
  have pos': "PrivateRefCount ([be t] ! 0) ! nat ?b > 0" using pos by simp
  have nb: "\<not> BufferIsLocal buffer" "\<not> BAD_BUFFER_ID (bp t) buffer" using b(1) by (simp_all add: in_pool_def BufferIsLocal_def BAD_BUFFER_ID_def)
  have rg: "ref_get (PrivateRefCount (be t)) ?b = Some 1" "ref_get (LastRefCount (be t)) ?b = Some 0" using one b(2,3) by (simp_all add: ref_get_def)
  have dr: "drop_shared (bp t) ?b = Some (bp u)" using unpin_release [OF xs BufMgr_Inv.one b(4) pos'] u(1) b(2) nb rg
    by (auto simp: unpin_def ReleaseBuffer_def bind_eq_Some_conv)
  have bu: "be u = be s" using u(5) t(3) one(1) z(1) bo b(3) by (simp add: taken_def backend_ok_def list_update_same_conv)
  have bu': "(be t)\<lparr>PrivateRefCount := (PrivateRefCount (be t))[nat ?b := 0]\<rparr> = be u" using u(5) one(1) by simp
  have lr: "ref_get (LastRefCount (be u)) ?b = Some 0" using rg(2) u(5) by simp
  define v where "v = u\<lparr>BufMgrLock := True, ReadBufferCount := ReadBufferCount u + 1\<rparr>"
  have e: "sm u = sm t" "MyDatabaseId u = MyDatabaseId t" "WriteMode u = WriteMode t" by (subst u(3), simp)+
  have "same_env t u" using e frame_size [OF u(4)] steady_data [OF S(2) u(4)] frame_owner [OF S(2) u(4)] by (simp add: same_env_def)
  then have env: "same_env t v" by (simp add: v_def same_env_def)
  have "ReleaseAndReadBuffer t buffer reln P_NEW = ReadBufferWithBufferLock (t\<lparr>be := be u, BufMgrLock := True, bp := bp u\<rparr>) reln P_NEW True"
    using nb rg lr dr S(3) bu' by (simp add: ReleaseAndReadBuffer_def BufferIsValid_def set_private_def SpinAcquire_def)
  also have "t\<lparr>be := be u, BufMgrLock := True, bp := bp u\<rparr> = u\<lparr>BufMgrLock := True\<rparr>" by (subst (3) u(3)) simp
  also have "ReadBufferWithBufferLock (u\<lparr>BufMgrLock := True\<rparr>) reln P_NEW True = read_shared v reln P_NEW True"
    using c by (simp add: ReadBufferWithBufferLock_def v_def client_def)
  finally have eq: "ReleaseAndReadBuffer t buffer reln P_NEW = read_shared v reln P_NEW True" .
  have "in_use v" using in_use_env [OF s(3) same_env_trans [OF t(4) env]] .
  moreover have "idle v" using s(2) bu env t(4) by (simp add: idle_def v_def same_env_def)
  ultimately have pl: "has_place v (tag_of r ?n)" by (rule idle_place [rotated])
  have Sv: "steady v {} F P B" by (rule steady_other [OF u(2)]) (simp_all add: v_def)
  have rv: "BLCKSZ \<le> disk_room (sys (vfs (sm v)))" using room e(1) by (simp add: v_def)
  have "taken s w c" if "taken v w c" for w c using that bu by (simp add: taken_def v_def)
  moreover have "same_env s w" if "same_env v w" for w by (rule same_env_trans [OF same_env_trans [OF t(4) env] that])
  ultimately show ?thesis unfolding eq
    by (intro rets_mono [OF read_new_ok [OF Sv _ client_env [OF c env] small rv pl]]) (auto simp: v_def)
qed

lemma fresh_page:
  assumes "length p = BLCKSZ"
  shows "rets (PageInit p 8192 0) (\<lambda>q. page_ok q \<and> contents q = [] \<and> unat (PageGetFreeSpace q) = 8180)"
proof -
  have "unat (0 :: uint32) + 8 < BLCKSZ" by (simp add: BLCKSZ_def)
  from PageInit_ok [OF assms this] obtain q where q: "PageInit p 8192 0 = Some q" "page_ok q" "contents q = []" "unat (pd_special q) = 8192" "pd_upper q = pd_special q"
    by (elim retsE) (auto simp: al_def BLCKSZ_def)
  have "nlines q = 0" using arg_cong [OF q(3), of length] by simp
  then have "unat (pd_lower q) = 8" using header_okD(2) [OF page_okD(1) [OF q(2)]] by simp
  then show ?thesis using q free_space_eq [OF page_okD(1) [OF q(2)]] by simp
qed

lemma new_page_ok:
  assumes s: "coherent s F P B" "idle s" "in_use s" and t: "coherent t F P B" "owner (bp t) (buffer - 1) = Some tg" "taken s t (buffer - 1)" "same_env s t" "in_pool s (buffer - 1)" "pinned t (buffer - 1)"
    and c: "client t F P reln r" and small: "Suc (length (B r)) < RELSEG_SIZE" and room: "BLCKSZ \<le> disk_room (sys (vfs (sm t)))"
  shows "rets (new_page t reln buffer) (\<lambda>(u, reln', buffer'). reln' = reln \<and> (\<exists>p. editing s F P (extended B r) r (of_nat (length (B r))) u buffer' p \<and>
    page_ok p \<and> contents p = [] \<and> unat (PageGetFreeSpace p) = 8180))"
proof -
  let ?n = "of_nat (length (B r)) :: uint32"
  have n: "unat ?n = length (B r)" using small by (simp add: unat_of_nat take_bit_nat_eq_self RELSEG_SIZE_def)
  from release_extend [OF assms] obtain u buffer' where u: "ReleaseAndReadBuffer t buffer reln P_NEW = Some (u, reln, buffer')" "coherent u F P (extended B r)"
    "owner (bp u) (buffer' - 1) = Some (tag_of r ?n)" "taken s u (buffer' - 1)" "same_env s u" by (elim retsE) auto
  have b: "in_pool s (buffer' - 1)" using owner_pool [OF u(3)] u(5) by (simp add: in_pool_def same_env_def)
  have pin: "pinned u (buffer' - 1)" using s(1) taken_pinned [OF _ b u(4)] by (auto simp: coherent_def)
  have z: "block_at (extended B r r) ?n = zero_block" using n by (simp add: block_at_def extended_def)
  have "u = poke u (buffer' - 1) zero_block" using poke_same [OF buffer_page(3) [OF u(2,3) pin]] z by simp
  then have e: "editing s F P (extended B r) r ?n u buffer' zero_block" unfolding editing_def using u b pin by blast
  obtain off where o: "BufferGetPage u buffer' = Some off" "blocks u off = Some zero_block" "BufferGetPageSize u buffer' = Some 8192"
    "\<And>q. editing s F P (extended B r) r ?n (set_page u off q) buffer' q" using editing_page [OF e] by blast
  have "length zero_block = BLCKSZ" by (simp add: zero_block_def)
  from fresh_page [OF this] obtain q where q: "PageInit zero_block 8192 0 = Some q" "page_ok q" "contents q = []" "unat (PageGetFreeSpace q) = 8180" by (elim retsE) auto
  have "new_page t reln buffer = Some (set_page u off q, reln, buffer')" using u(1) o(1-3) q(1) by (simp add: new_page_def)
  then show ?thesis using o(4) q(2-4) by auto
qed

subsection \<open>Items of a relation\<close>

text \<open>A page that no item was deleted from.\<close>

definition heap_page :: "page \<Rightarrow> bool" where
  "heap_page p \<longleftrightarrow> page_ok p \<and> None \<notin> set (contents p)"

lemma heap_pageD: "heap_page p \<Longrightarrow> page_ok p" "heap_page p \<Longrightarrow> i < nlines p \<Longrightarrow> ItemIdIsUsed (linp p i)"
proof -
  show "heap_page p \<Longrightarrow> page_ok p" by (simp add: heap_page_def)
  assume p: "heap_page p" "i < nlines p"
  then have "contents p ! i \<noteq> None" by (metis heap_page_def length_contents nth_mem)
  then show "ItemIdIsUsed (linp p i)" using p(2) by (simp add: contents_nth Page_Inv.slot_def split: if_splits)
qed

lemma heap_page_free: "heap_page p \<Longrightarrow> free_slot p = nlines p"
  using free_slot_le [of p] free_slot_recyclable [of p] heap_pageD(2) [of p "free_slot p"] by (auto simp: recyclable_def le_less)

text \<open>The last steps of \<open>RelationPut\<close> and \<open>RelationPutAtEnd\<close>.\<close>

lemma finish_put:
  assumes C: "coherent s F P B'" and e: "editing s F P B r blk t buffer p" and p: "page_ok p" and blk: "unat blk < length (B r)"
    and item: "length item = unat t_len" "item \<noteq> []" and sz: "unat t_len \<le> 2 ^ 30"
  shows "rets (do { off \<leftarrow> BufferGetPage t buffer; s \<leftarrow> add_item t off item t_len; (s, _) \<leftarrow> WriteBuffer s buffer; Some (s, reln) }) (\<lambda>(v, reln'). reln' = reln \<and> be v = be s \<and> same_env s v \<and>
    (\<exists>q. coherent v F P (B(r := (B r)[unat blk := q])) \<and> puts p item t_len q))"
proof -
  obtain off where off: "BufferGetPage t buffer = Some off" using editing_page [OF e] by blast
  from add_ok [OF e off p item sz] obtain u q where u: "add_item t off item t_len = Some u" "editing s F P B r blk u buffer q" "puts p item t_len q" by (elim retsE) auto
  have "page_ok q" using u(3) by (simp add: puts_def)
  then have "length q = BLCKSZ" using page_okD(1) by (simp add: header_ok_def)
  from editing_write [OF C u(2) blk this] show ?thesis using off u by (auto elim!: retsE)
qed

text \<open>The loop over the line pointers.\<close>

lemma page_items_eq:
  assumes "header_ok p" and "n \<le> nlines p"
  shows "page_items p n items = (if \<forall>i<n. ItemIdIsUsed (linp p i) then Some (map (\<lambda>i. ioff (linp p i)) [0..<n] @ items) else None)"
  using assms(2)
proof (induction n arbitrary: items)
  case (Suc n)
  then show ?case using line_access(1) [OF assms(1), of n] by (auto simp: PageGetItem_def ioff_def less_Suc_eq)
qed simp

lemma item_place:
  assumes "page_ok p" and "i < nlines p" and "ItemIdIsUsed (linp p i)"
  shows "contents p ! i = Some (rd p (ioff (linp p i)) (ilen (linp p i)))" and "length (rd p (ioff (linp p i)) (ilen (linp p i))) = ilen (linp p i)"
proof -
  show "contents p ! i = Some (rd p (ioff (linp p i)) (ilen (linp p i)))" using assms(2,3) by (simp add: contents_nth Page_Inv.slot_def item_bytes_def)
  have "iend (linp p i) \<le> length p" using page_okD(2) [OF assms] header_okD(1,6) [OF page_okD(1) [OF assms(1)]] by (simp add: item_ok_def)
  then show "length (rd p (ioff (linp p i)) (ilen (linp p i))) = ilen (linp p i)" using al_bounds(1) [of "ilen (linp p i)"] by (intro length_rd) (simp add: iend_def)
qed

definition small_item :: "byte list \<Rightarrow> size_word \<Rightarrow> bool" where
  "small_item item t_len \<longleftrightarrow> length item = unat t_len \<and> item \<noteq> [] \<and> length item \<le> 8176"

lemma small_fits:
  assumes "small_item item t_len" and "unat (PageGetFreeSpace p) = 8180"
  shows "DOUBLEALIGN t_len \<le> PageGetFreeSpace p"
proof -
  have "al (unat t_len) \<le> 8176" using assms(1) by (intro al_le) (simp_all add: small_item_def)
  then show ?thesis using assms unat_DOUBLEALIGN [of t_len] by (simp add: word_le_nat_alt small_item_def)
qed

lemma put_fresh:
  assumes s: "coherent s F P B" and e: "editing s F P (extended B r) r (of_nat (length (B r))) t buffer p" and p: "page_ok p" "contents p = []" "unat (PageGetFreeSpace p) = 8180"
    and item: "small_item item t_len" and small: "Suc (length (B r)) < RELSEG_SIZE"
  shows "rets (do { off \<leftarrow> BufferGetPage t buffer; s \<leftarrow> add_item t off item t_len; (s, _) \<leftarrow> WriteBuffer s buffer; Some (s, reln) }) (\<lambda>(v, reln'). reln' = reln \<and> be v = be s \<and> same_env s v \<and>
    (\<exists>q. coherent v F P (B(r := B r @ [q])) \<and> heap_page q \<and> contents q = [Some item]))"
proof -
  let ?n = "of_nat (length (B r)) :: uint32"
  have n: "unat ?n = length (B r)" using small by (simp add: unat_of_nat take_bit_nat_eq_self RELSEG_SIZE_def)
  have i: "length item = unat t_len" "item \<noteq> []" "unat t_len \<le> 2 ^ 30" using item by (simp_all add: small_item_def)
  have "unat ?n < length (extended B r r)" using n by (simp add: extended_def)
  note f = finish_put [OF s e p(1) this i, of reln] and pf = puts_fit [OF _ p(1) i small_fits [OF item p(3)]]
  have "nlines p = 0" using arg_cong [OF p(2), of length] by simp
  then have "free_slot p = nlines p" using free_slot_le [of p] by simp
  moreover have "(extended B r)(r := (extended B r r)[unat ?n := q]) = B(r := B r @ [q])" for q unfolding n by (simp add: extended_def)
  ultimately show ?thesis using f p(2) pf unfolding heap_page_def by (fastforce elim!: rets_mono)
qed

lemma put_last:
  assumes s: "coherent s F P B" and e: "editing s F P B r blk t buffer p" and blk: "unat blk < length (B r)" "Suc (unat blk) = length (B r)" and p: "heap_page p"
    and item: "small_item item t_len" and fit: "DOUBLEALIGN t_len \<le> PageGetFreeSpace p"
  shows "rets (do { off \<leftarrow> BufferGetPage t buffer; s \<leftarrow> add_item t off item t_len; (s, _) \<leftarrow> WriteBuffer s buffer; Some (s, reln) }) (\<lambda>(v, reln'). reln' = reln \<and> be v = be s \<and> same_env s v \<and>
    (\<exists>q. coherent v F P (B(r := butlast (B r) @ [q])) \<and> heap_page q \<and> contents q = contents p @ [Some item]))"
proof -
  have i: "length item = unat t_len" "item \<noteq> []" "unat t_len \<le> 2 ^ 30" using item by (simp_all add: small_item_def)
  note f = finish_put [OF s e heap_pageD(1) [OF p] blk(1) i, of reln] and pf = puts_fit [OF _ heap_pageD(1) [OF p] i fit]
  have "(B r)[unat blk := q] = butlast (B r) @ [q]" for q using blk by (cases "B r" rule: rev_cases) (simp_all add: list_update_append)
  then show ?thesis using f heap_page_free [OF p] p pf unfolding heap_page_def by (fastforce elim!: rets_mono)
qed

definition appended :: "bufs \<Rightarrow> catalog \<Rightarrow> (int \<rightharpoonup> rid) \<Rightarrow> contents \<Rightarrow> rid \<Rightarrow> byte list \<Rightarrow> bufs \<Rightarrow> bool" where
  "appended s F P B r item v \<longleftrightarrow> be v = be s \<and> same_env s v \<and> (\<exists>bs. coherent v F P (B(r := bs)) \<and> (\<forall>p\<in>set bs. heap_page p) \<and>
     concat (map contents bs) = concat (map contents (B r)) @ [Some item] \<and> length bs \<le> Suc (length (B r)))"

lemma appended_new: "be v = be s \<Longrightarrow> same_env s v \<Longrightarrow> coherent v F P (B(r := B r @ [q])) \<Longrightarrow> heap_page q \<Longrightarrow> contents q = [Some item] \<Longrightarrow> \<forall>p\<in>set (B r). heap_page p \<Longrightarrow> appended s F P B r item v"
  unfolding appended_def by (intro conjI exI [of _ "B r @ [q]"]) auto

lemma appended_last:
  assumes "be v = be s" "same_env s v" "coherent v F P (B(r := butlast (B r) @ [q]))" "heap_page q" "contents q = contents (last (B r)) @ [Some item]" "\<forall>p\<in>set (B r). heap_page p" "B r \<noteq> []"
  shows "appended s F P B r item v"
proof -
  have "concat (map contents (B r)) = concat (map contents (butlast (B r))) @ contents (last (B r))"
    by (subst append_butlast_last_id [OF assms(7), symmetric]) (simp del: append_butlast_last_id)
  moreover have "\<forall>p\<in>set (butlast (B r) @ [q]). heap_page p" using assms(4,6) by (auto dest: in_set_butlastD)
  ultimately show ?thesis using assms(1-3,5) unfolding appended_def by (auto intro!: exI [of _ "butlast (B r) @ [q]"])
qed

text \<open>The first page of an empty relation.\<close>

lemma first_page:
  assumes s: "coherent s F P B" "idle s" "in_use s" and c: "client s F P reln r" and empty: "B r = []" and room: "BLCKSZ \<le> disk_room (sys (vfs (sm s)))"
  shows "rets (last_page s reln 0) (\<lambda>(u, reln', buffer'). reln' = reln \<and> (\<exists>p. editing s F P (extended B r) r (of_nat (length (B r))) u buffer' p \<and>
    page_ok p \<and> contents p = [] \<and> unat (PageGetFreeSpace p) = 8180))"
proof -
  have z: "unat (0 :: uint32) < RELSEG_SIZE" "Suc (length (B r)) < RELSEG_SIZE" using empty by (simp_all add: RELSEG_SIZE_def)
  obtain t buffer where t: "ReadBuffer s reln 0 = Some (t, reln, buffer)" "coherent t F P B" "owner (bp t) (buffer - 1) = Some (tag_of r 0)"
    "taken s t (buffer - 1)" "same_env s t" "in_pool s (buffer - 1)" "pinned t (buffer - 1)" "disk_room (sys (vfs (sm t))) = disk_room (sys (vfs (sm s)))"
    "editing s F P B r 0 t buffer (block_at (B r) 0)" using editing_read [OF s(1) c z(1) idle_place [OF s(2,3)]] by blast
  obtain off where o: "BufferGetPage t buffer = Some off" "blocks t off = Some (block_at (B r) 0)" using editing_page [OF t(9)] by blast
  have "rd (replicate 8192 (0 :: byte)) 2 2 = replicate 2 0" by (simp add: rd_def)
  then have "PageIsNew (block_at (B r) 0)" using empty by (simp add: block_at_def PageIsNew_def pd_upper_def BLCKSZ_def numeral_2_eq_2)
  then have "last_page s reln 0 = new_page t reln buffer" using t(1) o by (simp add: last_page_def)
  then show ?thesis using new_page_ok [OF s t(2-7) client_env [OF c t(5)] z(2)] room t(8) by simp
qed

lemma last_block:
  assumes "bs \<noteq> []" and "length bs < RELSEG_SIZE"
  shows "of_nat (length bs) \<noteq> (0 :: uint32)" and "Suc (unat (of_nat (length bs) - 1 :: uint32)) = length bs" and "block_at bs (of_nat (length bs) - 1) = List.last bs"
proof -
  let ?n = "of_nat (length bs) :: uint32"
  have n: "unat ?n = length bs" using assms(2) by (simp add: unat_of_nat take_bit_nat_eq_self RELSEG_SIZE_def)
  then show nz: "?n \<noteq> 0" using assms(1) by (metis length_0_conv unsigned_0)
  show k: "Suc (unat (?n - 1)) = length bs" using n nz assms(1) by (auto simp: unat_sub word_le_nat_alt Suc_le_eq unat_gt_0)
  then have "unat (?n - 1) = length bs - 1" "length bs - 1 < length bs" by simp_all
  then show "block_at bs (?n - 1) = List.last bs" by (simp only: block_at_def if_True last_conv_nth [OF assms(1)])
qed

lemma put_nonempty:
  assumes s: "coherent s1 F P B" "idle s1" "in_use s1" and c: "client s1 F P reln r" and pages: "\<forall>p\<in>set (B r). heap_page p" and item: "small_item item t_len"
    and small: "Suc (length (B r)) < RELSEG_SIZE" and room: "BLCKSZ \<le> disk_room (sys (vfs (sm s1)))" and ne: "B r \<noteq> []"
    and cnt: "RelationGetNumberOfBlocks s reln = Some (s1, of_nat (length (B r)))"
  shows "rets (RelationPutAtEnd s reln item t_len) (\<lambda>(v, reln'). reln' = reln \<and> appended s1 F P B r item v)"
proof -
  let ?n = "of_nat (length (B r)) :: uint32" and ?k = "of_nat (length (B r)) - 1 :: uint32"
  have "length (B r) < RELSEG_SIZE" using small by simp
  note l = last_block [OF ne this]
  have k: "unat ?k < length (B r)" "unat ?k < RELSEG_SIZE" using l(2) small by simp_all
  obtain t buffer where t: "ReadBuffer s1 reln ?k = Some (t, reln, buffer)" "coherent t F P B" "owner (bp t) (buffer - 1) = Some (tag_of r ?k)"
    "taken s1 t (buffer - 1)" "same_env s1 t" "in_pool s1 (buffer - 1)" "pinned t (buffer - 1)" "disk_room (sys (vfs (sm t))) = disk_room (sys (vfs (sm s1)))"
    "editing s1 F P B r ?k t buffer (List.last (B r))" using editing_read [OF s(1) c k(2) idle_place [OF s(2,3)]] unfolding l(3) by blast
  have hp: "heap_page (List.last (B r))" using pages ne by simp
  obtain off where o: "BufferGetPage t buffer = Some off" "blocks t off = Some (List.last (B r))" using editing_page [OF t(9)] by blast
  have lp: "last_page s1 reln ?n = Some (t, reln, buffer)" using t(1) l(1) by (simp add: last_page_def)
  show ?thesis
  proof (cases "DOUBLEALIGN t_len \<le> PageGetFreeSpace (List.last (B r))")
    case True
    have "RelationPutAtEnd s reln item t_len = do { off \<leftarrow> BufferGetPage t buffer; s \<leftarrow> add_item t off item t_len; (s, _) \<leftarrow> WriteBuffer s buffer; Some (s, reln) }"
      using cnt lp o leD [OF True] by (simp add: RelationPutAtEnd_def)
    then show ?thesis using put_last [OF s(1) t(9) k(1) l(2) hp item True, of reln] appended_last [of _ s1 F P B r _ item] pages ne by (auto elim!: rets_mono)
  next
    case full: False
    have "BLCKSZ \<le> disk_room (sys (vfs (sm t)))" using room t(8) by simp
    from new_page_ok [OF s t(2-7) client_env [OF c t(5)] small this] obtain u buffer' p where u: "new_page t reln buffer = Some (u, reln, buffer')"
      "editing s1 F P (extended B r) r ?n u buffer' p" "page_ok p" "contents p = []" "unat (PageGetFreeSpace p) = 8180" by (elim retsE) auto
    have "RelationPutAtEnd s reln item t_len = do { off \<leftarrow> BufferGetPage u buffer'; s \<leftarrow> add_item u off item t_len; (s, _) \<leftarrow> WriteBuffer s buffer'; Some (s, reln) }"
      using cnt lp o u(1) not_le_imp_less [OF full] by (simp add: RelationPutAtEnd_def)
    then show ?thesis using put_fresh [OF s(1) u(2-5) item small, of reln] appended_new [of _ s1 F P B r _ item] pages by (auto elim!: rets_mono)
  qed
qed

lemma put_at_end:
  assumes s: "coherent s F P B" "idle s" "in_use s" and c: "client s F P reln r" and pages: "\<forall>p\<in>set (B r). heap_page p" and item: "small_item item t_len"
    and small: "Suc (length (B r)) < RELSEG_SIZE" and room: "BLCKSZ \<le> disk_room (sys (vfs (sm s)))"
  shows "rets (RelationPutAtEnd s reln item t_len) (\<lambda>(v, reln'). reln' = reln \<and> appended s F P B r item v)"
proof -
  obtain s1 where s1: "RelationGetNumberOfBlocks s reln = Some (s1, of_nat (length (B r)))" "coherent s1 F P B" "client s1 F P reln r" "same_env s s1" "be s1 = be s"
    "in_use s1 = in_use s" "disk_room (sys (vfs (sm s1))) = disk_room (sys (vfs (sm s)))" using count_blocks [OF s(1) c] by blast
  have idl: "idle s1" "in_use s1" using s(2,3) s1(4-6) by (simp_all add: idle_def same_env_def)
  have room1: "BLCKSZ \<le> disk_room (sys (vfs (sm s1)))" using room s1(7) by simp
  have app: "appended s1 F P B r item v \<Longrightarrow> appended s F P B r item v" for v using s1(5) same_env_trans [OF s1(4)] by (auto simp: appended_def)
  show ?thesis
  proof (cases "B r = []")
    case True
    from first_page [OF s1(2) idl s1(3) True room1] obtain u buffer p where u: "last_page s1 reln 0 = Some (u, reln, buffer)"
      "editing s1 F P (extended B r) r (of_nat (length (B r))) u buffer p" "page_ok p" "contents p = []" "unat (PageGetFreeSpace p) = 8180" by (elim retsE) auto
    obtain off where o: "BufferGetPage u buffer = Some off" "blocks u off = Some p" using editing_page [OF u(2)] by blast
    have "RelationPutAtEnd s reln item t_len = do { off \<leftarrow> BufferGetPage u buffer; s \<leftarrow> add_item u off item t_len; (s, _) \<leftarrow> WriteBuffer s buffer; Some (s, reln) }"
      using s1(1) u(1) True o leD [OF small_fits [OF item u(5)]] by (simp add: RelationPutAtEnd_def)
    then show ?thesis using put_fresh [OF s1(2) u(2-5) item small, of reln] appended_new [of _ s1 F P B r _ item] pages app by (auto elim!: rets_mono)
  next
    case False
    then show ?thesis using put_nonempty [OF s1(2) idl s1(3) pages item small room1 False s1(1)] app by (auto elim!: rets_mono)
  qed
qed

subsection \<open>The program\<close>

lemma init_ok:
  assumes "length descs = 65" and "dir h = Map.empty" "\<forall>i\<in>dom (elems h). i < ShmemFreeStart h" "0 < ShmemFreeStart h" "ShmemFreeStart h + 2048 \<le> ShmemSize h"
    and "\<forall>k<64. \<exists>page. mem (base + of_nat (8192 * k)) = Some page"
    and "stored (fst (mdinit (m\<lparr>vfs := (vfs m)\<lparr>DataDir := ''/home/ubuntu/data/postgres'', DatabaseName := ''Postgres''\<rparr>\<rparr>))) F P K"
  shows "rets (init m me base descs h mem) (\<lambda>s. coherent s F P K \<and> idle s)"
proof -
  let ?m = "fst (mdinit (m\<lparr>vfs := (vfs m)\<lparr>DataDir := ''/home/ubuntu/data/postgres'', DatabaseName := ''Postgres''\<rparr>\<rparr>))"
  have "rets (InitBufferPool NDBUFS base descs False me) (\<lambda>(p, me'). rets (InitBufTable h NDBUFS False) (\<lambda>h'. coherent (start_bufs p me' h' mem ?m 0) F P K \<and> owner p = Map.empty \<and>
    me' = me\<lparr>PrivateRefCount := replicate NDBUFS 0, LastRefCount := replicate NDBUFS 0\<rparr> \<and> NBuffers p = NDBUFS))"
    by (rule init_coherent) (use assms in \<open>simp_all add: NDBUFS_def\<close>)
  then obtain p h' where p: "InitBufferPool NDBUFS base descs False me = Some (p, me\<lparr>PrivateRefCount := replicate NDBUFS 0, LastRefCount := replicate NDBUFS 0\<rparr>)" "InitBufTable h NDBUFS False = Some h'"
    "coherent (start_bufs p (me\<lparr>PrivateRefCount := replicate NDBUFS 0, LastRefCount := replicate NDBUFS 0\<rparr>) h' mem ?m 0) F P K" "NBuffers p = NDBUFS" by (elim retsE) (auto elim!: retsE)
  then show ?thesis by (simp add: init_def smgrinit_def mdinit_def SM_FAIL_def SM_SUCCESS_def idle_def start_bufs_def held_def NDBUFS_def)
qed

subsection \<open>Properties\<close>

lemma sample_page_blocks: "blocks_ok [sample_page]" "length [sample_page] < RELSEG_SIZE" "heap_page sample_page"
  by (simp_all add: blocks_ok_def sample_page_header BLCKSZ_def RELSEG_SIZE_def heap_page_def sample_page_ok)

lemma sample_page_room: "unat (PageGetFreeSpace sample_page) = 8180"
  using free_space_eq [OF page_okD(1) [OF sample_page_ok(1)]] by (simp add: sample_page_header)

text \<open>\<open>RelationPut\<close> on a block, which may lie behind the end: the page is read, the item added, and the buffer written.\<close>

lemma put_eq:
  assumes C: "coherent s F P B" and c: "client s F P reln r" and pl: "has_place s (tag_of r blk)" and blk: "unat blk < RELSEG_SIZE"
  obtains s1 t buffer where "editing s1 F P B r blk t buffer (block_at (B r) blk)" "coherent s1 F P B" "be s1 = be s" "same_env s s1"
    "RelationPut s reln blk item t_len = do { off \<leftarrow> BufferGetPage t buffer; s \<leftarrow> add_item t off item t_len; (s, _) \<leftarrow> WriteBuffer s buffer; Some (s, reln) }"
proof -
  obtain s1 where s1: "RelationGetNumberOfBlocks s reln = Some (s1, of_nat (length (B r)))" "coherent s1 F P B" "client s1 F P reln r" "same_env s s1" "be s1 = be s"
    "has_place s1 (tag_of r blk)" using count_blocks [OF C c] pl by blast
  have m1: "blk \<noteq> - 1" using blk by (auto simp: RELSEG_SIZE_def unsigned_minus_1_eq_mask mask_eq_exp_minus_1)
  obtain t buffer where t: "ReadBuffer s1 reln blk = Some (t, reln, buffer)" "editing s1 F P B r blk t buffer (block_at (B r) blk)"
    using editing_read [OF s1(2,3) blk s1(6)] by blast
  obtain off where o: "BufferGetPage t buffer = Some off" "BufferIsValid (bp t) (be t) buffer = Some True" using editing_page [OF t(2)] by blast
  show ?thesis by (rule that [OF t(2) s1(2,5,4)]) (use s1(1) m1 t(1) o in \<open>simp add: RelationPut_def\<close>)
qed

lemma put_page:
  assumes C: "coherent s F P B" and c: "client s F P reln r" and pl: "has_place s (tag_of r blk)" and blk: "unat blk < length (B r)" and p: "page_ok (B r ! unat blk)"
    and item: "length item = unat t_len" "item \<noteq> []" "unat t_len \<le> 2 ^ 30"
  shows "rets (RelationPut s reln blk item t_len) (\<lambda>(t, reln'). reln' = reln \<and> be t = be s \<and> same_env s t \<and>
    (\<exists>q. coherent t F P (B(r := (B r)[unat blk := q])) \<and> puts (B r ! unat blk) item t_len q))"
proof -
  have "length (B r) < RELSEG_SIZE" using count_blocks [OF C c] by blast
  then have sm: "unat blk < RELSEG_SIZE" using blk by simp
  have at: "block_at (B r) blk = B r ! unat blk" using blk by (simp add: block_at_def)
  obtain s1 t buffer where t: "editing s1 F P B r blk t buffer (B r ! unat blk)" "coherent s1 F P B" "be s1 = be s" "same_env s s1"
    "RelationPut s reln blk item t_len = do { off \<leftarrow> BufferGetPage t buffer; s \<leftarrow> add_item t off item t_len; (s, _) \<leftarrow> WriteBuffer s buffer; Some (s, reln) }"
    using put_eq [OF C c pl sm, unfolded at, of item t_len] by blast
  show ?thesis unfolding t(5)
    by (rule rets_mono [OF finish_put [OF t(2,1) p blk item]]) (use t(3) same_env_trans [OF t(4)] in auto)
qed

text \<open>What \<open>heap_create\<close> returns.\<close>

lemma heap_create_id:
  assumes "heap_create s name = Some (t, reln)" and "length name < NAMEDATALEN" and "\<not> IsSharedSystemRelationName name"
  shows "INIT_BUFFERTAG (MyDatabaseId s) reln blk = Some (reln, tag_of (MyDatabaseId s, 16993) blk)" and "\<not> rd_islocal reln" and "relsmgr reln = 0"
proof -
  have "name \<noteq> VariableRelationName" using assms(3) by (auto simp: IsSharedSystemRelationName_def IsSystemRelationName_def VariableRelationName_def SharedSystemRelationNames_def)
  then show "INIT_BUFFERTAG (MyDatabaseId s) reln blk = Some (reln, tag_of (MyDatabaseId s, 16993) blk)" "\<not> rd_islocal reln" "relsmgr reln = 0"
    using assms by (auto simp: heap_create_def RelationInitLockInfo_def INIT_BUFFERTAG_def RelationGetLRelId_def tag_of_def cstr_def namestrcpy_def zero_relation_def DEFAULT_SMGR_def
      bind_eq_Some_conv split: if_splits)
qed

text \<open>A relation of the catalog is opened: the descriptor can be used with the page interface.\<close>

lemma heap_create_client:
  assumes C: "coherent s F P B" and F: "F (MyDatabaseId s, 16993) = Some (name, i)" and name: "length name < NAMEDATALEN" "\<not> IsSharedSystemRelationName name"
    and db: "length (DatabaseName (vfs (sm s))) \<le> NAMEDATALEN"
  shows "rets (heap_create s name) (\<lambda>(t, reln). \<exists>f. coherent t F (P(f \<mapsto> (MyDatabaseId s, 16993))) B \<and> client t F (P(f \<mapsto> (MyDatabaseId s, 16993))) reln (MyDatabaseId s, 16993) \<and>
    same_env s t \<and> be t = be s \<and> (\<forall>tg. has_place t tg = has_place s tg))"
proof -
  let ?r = "(MyDatabaseId s, 16993)"
  let ?rel = "zero_relation\<lparr>relname := namestrcpy name, rd_nblocks := 0, rd_id := 16993, rd_isnailed := False, rd_islocal := False, rd_istemp := False, rd_refcnt := 1, relsmgr := DEFAULT_SMGR, rd_tmpunlinked := True\<rparr>"
  have S: "steady s {} F P B" "\<not> BufMgrLock s" using C by (simp_all add: coherent_def)
  obtain K where K: "stored (sm s) F P K" "agree s F K B" using S(1) by (auto simp: steady_def)
  have nm: "namestrcpy name = name" using name(1) by (simp add: namestrcpy_def)
  then have "F ?r = Some (relname ?rel, i)" using F by simp
  from disk.open_law [OF K(1) this] obtain m f where m: "mdopen (sm s) ?rel = Some (m, f)" "stored m F (P(f \<mapsto> ?r)) K" "DatabaseName (vfs m) = DatabaseName (vfs (sm s))" by (elim retsE) auto
  have "name \<noteq> VariableRelationName" using name(2) by (auto simp: IsSharedSystemRelationName_def IsSystemRelationName_def VariableRelationName_def SharedSystemRelationNames_def)
  then have "rets (heap_create s name) (\<lambda>(t, reln). t = s\<lparr>sm := m\<rparr> \<and> client t F (P(f \<mapsto> ?r)) reln ?r)"
    using m(1,3) F name db nm by (simp add: heap_create_def smgropen_def smgrsw_def NSmgr_def DEFAULT_SMGR_def RelationInitLockInfo_def RelationGetLRelId_def cstr_def zero_relation_def client_def)
  moreover have "coherent (s\<lparr>sm := m\<rparr>) F (P(f \<mapsto> ?r)) B"
  proof -
    have "agree (s\<lparr>sm := m\<rparr>) F K B" using K(2) by (simp add: agree_def dirty_block_def in_pool_def)
    then show ?thesis using S m(2) unfolding coherent_def steady_def by (auto simp: quiet_def own_memory_def descs_ok_def in_pool_def named_def holds_def)
  qed
  moreover have "same_env s (s\<lparr>sm := m\<rparr>)" using m(3) by (simp add: same_env_def)
  moreover have "has_place (s\<lparr>sm := m\<rparr>) tg = has_place s tg" for tg by (simp add: has_place_def can_claim_def in_use_def in_pool_def)
  ultimately show ?thesis by (auto elim!: rets_mono)
qed

text \<open>
  \<open>main\<close> puts its item into block 0 of a relation that may be empty. Behind the end of a relation \<open>ReadBuffer\<close> gives a page of zeros, whose upper bound leaves no room, so \<open>PageAddItem\<close> refuses the
  item: the routine writes the zeros back, and the item is lost.
\<close>

lemma zero_page_refused:
  assumes "0 < unat t_len" and "unat t_len \<le> 2 ^ 30"
  shows "PageAddItem True zero_block item t_len InvalidOffsetNumber fl = Some (zero_block, InvalidOffsetNumber)"
proof -
  have rdz: "rd zero_block i n = replicate n 0" if "i + n \<le> 8192" for i n using that by (simp add: rd_def zero_block_def BLCKSZ_def)
  have lw: "le_word (replicate n 0) = (0 :: 'w::len word)" for n by (induction n) simp_all
  have z: "pd_lower zero_block = 0" "pd_upper zero_block = 0" by (simp_all add: pd_lower_def pd_upper_def rdz lw)
  have m: "PageGetMaxOffsetNumber zero_block = 65534" by (simp add: PageGetMaxOffsetNumber_def z)
  define x where "x = word_itemid 0"
  have x: "get_linp zero_block 0 = Some x" "\<not> ItemIdIsUsed x" "lp_len x = 0"
    by (simp_all add: get_linp_def rd_opt_def rdz lw x_def word_itemid_def ItemIdIsUsed_def) (simp add: zero_block_def BLCKSZ_def)
  have "find_recyclable zero_block (Suc n) 1 = Some 1" for n using x by simp
  from this [of 65533] have f: "find_recyclable zero_block 65534 1 = Some 1" by simp
  have "sint (- DOUBLEALIGN t_len) < 0" using upper_eq [OF assms(2), of 0] al_bounds(1) [of "unat t_len"] assms(1) by simp
  then show ?thesis using f by (simp add: PageAddItem_def m z add_offset_def OffsetNumberIsValid_def)
qed

lemma put_behind_end:
  assumes C: "coherent s F P B" and c: "client s F P reln r" and pl: "has_place s (tag_of r blk)" and blk: "unat blk < RELSEG_SIZE" "length (B r) \<le> unat blk"
    and item: "0 < unat t_len" "unat t_len \<le> 2 ^ 30"
  shows "\<exists>s1 t buffer. editing s1 F P B r blk t buffer zero_block \<and> RelationPut s reln blk item t_len = do { (v, _) \<leftarrow> WriteBuffer t buffer; Some (v, reln) }"
proof -
  have at: "block_at (B r) blk = zero_block" using blk(2) by (simp add: block_at_def zero_block_def)
  obtain s1 t buffer where t: "editing s1 F P B r blk t buffer zero_block"
    "RelationPut s reln blk item t_len = do { off \<leftarrow> BufferGetPage t buffer; s \<leftarrow> add_item t off item t_len; (s, _) \<leftarrow> WriteBuffer s buffer; Some (s, reln) }"
    using put_eq [OF C c pl blk(1), unfolded at, of item t_len] by blast
  obtain off where o: "BufferGetPage t buffer = Some off" "blocks t off = Some zero_block" using editing_page [OF t(1)] by blast
  have "set_page t off zero_block = t" using o(2) by (simp add: set_page_def fun_upd_idem)
  then have "add_item t off item t_len = Some t" using o(2) zero_page_refused [OF item] by (simp add: add_item_def)
  then show ?thesis using t o(1) by auto
qed

text \<open>The block number -1 stands for the end of the relation, also when the assertion on the block number has printed its message.\<close>

theorem RelationPut_end:
  assumes "coherent s F P B" and "idle s" and "in_use s" and "client s F P reln r" and "\<forall>p\<in>set (B r). heap_page p" and "small_item item t_len"
    and "Suc (length (B r)) < RELSEG_SIZE" and "BLCKSZ \<le> disk_room (sys (vfs (sm s)))"
  shows "rets (RelationPut s reln (- 1) item t_len) (\<lambda>(t, _). idle t \<and> (\<exists>bs. coherent t F P (B(r := bs)) \<and> (\<forall>p\<in>set bs. heap_page p) \<and>
    concat (map contents bs) = concat (map contents (B r)) @ [Some item] \<and> length bs \<le> Suc (length (B r))))"
proof -
  obtain s1 where s1: "RelationGetNumberOfBlocks s reln = Some (s1, of_nat (length (B r)))" "coherent s1 F P B" "client s1 F P reln r" "same_env s s1" "be s1 = be s"
    "in_use s1" "disk_room (sys (vfs (sm s1))) = disk_room (sys (vfs (sm s)))" using count_blocks [OF assms(1,4)] assms(3) by metis
  have "idle s1" using assms(2) s1(4,5) by (simp add: idle_def same_env_def)
  moreover have "BLCKSZ \<le> disk_room (sys (vfs (sm s1)))" using assms(8) s1(7) by simp
  ultimately have "rets (RelationPutAtEnd s1 reln item t_len) (\<lambda>(t, _). appended s1 F P B r item t)"
    using put_at_end [OF s1(2) _ s1(6,3) assms(5-7)] by (auto elim!: rets_mono)
  then show ?thesis using s1(1,5) assms(2) s1(4) by (auto simp: RelationPut_def appended_def idle_def same_env_def elim!: rets_mono)
qed

text \<open>
  C17: \<open>RelationPut\<close> adds an item to the page it is told to. If the page has room, the item is stored under a free line pointer, as \<open>PageAddItem\<close> does; if it has not, the page is left as it
  was, whatever the assertion on its free space prints. The other items and the other pages stay, and the page's pin is given back.
\<close>

theorem RelationPut_correct:
  assumes "coherent s F P B" and "client s F P reln r" and "has_place s (tag_of r blk)" and "unat blk < length (B r)" and "p = B r ! unat blk" and "page_ok p"
    and "length item = unat t_len" and "item \<noteq> []" and "unat t_len \<le> 2 ^ 30"
  shows "rets (RelationPut s reln blk item t_len) (\<lambda>(t, _). be t = be s \<and>
    (if need p (free_slot p) + al (unat t_len) \<le> unat (pd_upper p)
     then \<exists>q. coherent t F P (B(r := (B r)[unat blk := q])) \<and> page_ok q \<and>
       contents q = (if free_slot p = nlines p then contents p @ [Some item] else (contents p)[free_slot p := Some item])
     else coherent t F P B))"
proof -
  have ok: "page_ok (B r ! unat blk)" using assms(5,6) by simp
  let ?res = "\<lambda>t. if need p (free_slot p) + al (unat t_len) \<le> unat (pd_upper p)
     then \<exists>q. coherent t F P (B(r := (B r)[unat blk := q])) \<and> page_ok q \<and>
       contents q = (if free_slot p = nlines p then contents p @ [Some item] else (contents p)[free_slot p := Some item])
     else coherent t F P B"
  have res: "?res t" if "coherent t F P (B(r := (B r)[unat blk := q]))" "puts p item t_len q" for t q
  proof (cases "need p (free_slot p) + al (unat t_len) \<le> unat (pd_upper p)")
    case True then show ?thesis using that unfolding puts_def by auto
  next
    case False
    then have "q = B r ! unat blk" using that(2) assms(5) by (simp add: puts_def)
    then show ?thesis using that(1) False by simp
  qed
  show ?thesis
    by (rule rets_mono [OF put_page [OF assms(1-4) ok assms(7-9)]]) (use res in \<open>unfold assms(5) [symmetric], blast\<close>)
qed

theorem RelationPut_correct_witness:
  "rets (sample_bufs [sample_page]) (\<lambda>s. rets (RelationPut s pool_rel 0 [72, 105] 2) (\<lambda>(t, _).
       \<exists>q. coherent t pool_catalog pool_slots ((pool_contents [sample_page])(pool_rid := [q])) \<and> contents q = [Some [72, 105]]) \<and>
     rets (RelationPut s pool_rel 0 (replicate 8185 1) 8185) (\<lambda>(t, _). coherent t pool_catalog pool_slots (pool_contents [sample_page])))"
proof -
  obtain s where s: "sample_bufs [sample_page] = Some s" "coherent s pool_catalog pool_slots (pool_contents [sample_page])" "client s pool_catalog pool_slots pool_rel pool_rid" "\<And>tg. has_place s tg"
    using sample_ready [OF sample_page_blocks(1,2)] by blast
  have "rets (RelationPut s pool_rel 0 [72, 105] 2) (\<lambda>(t, _). \<exists>q. coherent t pool_catalog pool_slots ((pool_contents [sample_page])(pool_rid := [q])) \<and> contents q = [Some [72, 105]])"
    using RelationPut_correct [OF s(2,3) s(4), of 0 sample_page "[72, 105]" 2]
    by (auto simp: pool_contents_def sample_page_ok sample_page_free sample_page_header al_def elim!: rets_mono)
  moreover have "rets (RelationPut s pool_rel 0 (replicate 8185 1) 8185) (\<lambda>(t, _). coherent t pool_catalog pool_slots (pool_contents [sample_page]))"
    using RelationPut_correct [OF s(2,3) s(4), of 0 sample_page "replicate 8185 1" 8185]
    by (auto simp: pool_contents_def sample_page_ok sample_page_free sample_page_header al_def elim!: rets_mono)
  ultimately show ?thesis unfolding s(1) by simp
qed

text \<open>
  C3: \<open>RelationPutAtEnd\<close> appends to the items of a relation. The new item is the last one of the relation, in the last page if that has room and in a new page otherwise, the first page
  included; all other items stay, no pin is left, and the relation grows by one page at most. Items of more than 8176 bytes do not fit into a page.
\<close>

theorem RelationPutAtEnd_appends:
  assumes "coherent s F P B" and "idle s" and "in_use s" and "client s F P reln r" and "\<forall>p\<in>set (B r). heap_page p" and "small_item item t_len"
    and "Suc (length (B r)) < RELSEG_SIZE" and "BLCKSZ \<le> disk_room (sys (vfs (sm s)))"
  shows "rets (RelationPutAtEnd s reln item t_len) (\<lambda>(t, _). idle t \<and> (\<exists>bs. coherent t F P (B(r := bs)) \<and> (\<forall>p\<in>set bs. heap_page p) \<and>
    concat (map contents bs) = concat (map contents (B r)) @ [Some item] \<and> length bs \<le> Suc (length (B r))))"
  by (rule rets_mono [OF put_at_end [OF assms]]) (use assms(2) in \<open>auto simp: appended_def idle_def same_env_def\<close>)

theorem RelationPutAtEnd_appends_witness:
  "rets (sample_bufs []) (\<lambda>s. rets (read_page s pool_rel 0) (\<lambda>(s, _). rets (RelationPutAtEnd s pool_rel [72, 105] 2) (\<lambda>(t, _).
     \<exists>bs. coherent t pool_catalog pool_slots ((pool_contents [])(pool_rid := bs)) \<and> concat (map contents bs) = [Some [72, 105]])))"
proof -
  have e: "blocks_ok []" "length ([] :: byte list list) < RELSEG_SIZE" by (simp_all add: blocks_ok_def RELSEG_SIZE_def)
  obtain s t page where s: "sample_bufs [] = Some s" "read_page s pool_rel 0 = Some (t, page)" "coherent t pool_catalog pool_slots (pool_contents [])" "client t pool_catalog pool_slots pool_rel pool_rid"
    "idle t" "in_use t" "disk_room (sys (vfs (sm t))) = 100000" using sample_used [OF e] by blast
  from RelationPutAtEnd_appends [OF s(3,5,6,4), of "[72, 105]" 2] show ?thesis unfolding s(1,2) rets_Some prod.case
    using s(7) by (auto simp: pool_contents_def small_item_def RELSEG_SIZE_def BLCKSZ_def elim!: rets_mono)
qed

lemma get_items:
  assumes C: "coherent s F P B" and c: "client s F P reln r" and pl: "has_place s (tag_of r blk)" and blk: "unat blk < length (B r)" and p: "page_ok (B r ! unat blk)"
  shows "if None \<in> set (contents (B r ! unat blk)) then getAllItems s reln blk = None
    else rets (getAllItems s reln blk) (\<lambda>(t, reln', res, num). reln' = reln \<and> coherent t F P B \<and> num = int (length (contents (B r ! unat blk))) \<and>
      (\<exists>b. in_pool s b \<and> PrivateRefCount (be t) = (PrivateRefCount (be s))[nat b := PrivateRefCount (be s) ! nat b + 1]) \<and>
      (\<exists>off items. res = Some (off, items) \<and> blocks t off = Some (B r ! unat blk) \<and> length items = length (contents (B r ! unat blk)) \<and>
        (\<forall>i<length items. \<exists>x. contents (B r ! unat blk) ! i = Some x \<and> rd (B r ! unat blk) (items ! i) (length x) = x)))"
proof -
  let ?p = "B r ! unat blk"
  obtain s1 where s1: "RelationGetNumberOfBlocks s reln = Some (s1, of_nat (length (B r)))" "coherent s1 F P B" "client s1 F P reln r" "same_env s s1" "be s1 = be s"
    "has_place s1 (tag_of r blk)" "length (B r) < RELSEG_SIZE" using count_blocks [OF C c] pl by blast
  have sm: "unat blk < RELSEG_SIZE" using blk s1(7) by simp
  then have m1: "blk \<noteq> - 1" by (auto simp: RELSEG_SIZE_def unsigned_minus_1_eq_mask mask_eq_exp_minus_1)
  have at: "block_at (B r) blk = ?p" using blk by (simp add: block_at_def)
  obtain t buffer where t: "ReadBuffer s1 reln blk = Some (t, reln, buffer)" "coherent t F P B" "taken s1 t (buffer - 1)" "in_pool s1 (buffer - 1)" "editing s1 F P B r blk t buffer ?p"
    using editing_read [OF s1(2,3) sm s1(6)] unfolding at by blast
  obtain off where o: "BufferGetPage t buffer = Some off" "blocks t off = Some ?p" "BufferIsValid (bp t) (be t) buffer = Some True" using editing_page [OF t(5)] by blast
  have hk: "header_ok ?p" by (rule page_okD(1) [OF p])
  have mu: "uint (PageGetMaxOffsetNumber ?p) = int (nlines ?p)" using arg_cong [OF max_offset_eq [OF hk], of int] by simp
  have ev: "getAllItems s reln blk = do { items \<leftarrow> page_items ?p (nlines ?p) []; Some (t, reln, Some (off, items), int (nlines ?p)) }"
    using s1(1) block_less [OF s1(7), of blk] blk m1 t(1) o mu by (simp add: getAllItems_def max_offset_eq [OF hk])
  have pin: "\<exists>b. in_pool s b \<and> PrivateRefCount (be t) = (PrivateRefCount (be s))[nat b := PrivateRefCount (be s) ! nat b + 1]"
    using t(3,4) s1(4,5) by (intro exI [of _ "buffer - 1"]) (simp add: taken_def in_pool_def same_env_def)
  have used: "None \<in> set (contents ?p) \<longleftrightarrow> \<not> (\<forall>i<nlines ?p. ItemIdIsUsed (linp ?p i))"
    by (auto simp: contents_def Page_Inv.slot_def image_iff split: if_splits)
  show ?thesis using ev used page_items_eq [OF hk order.refl, of "[]"] t(2) o(2) pin item_place [OF p] by auto
qed

text \<open>
  C39: \<open>getAllItems\<close> returns, for a page without deleted items, one pointer per item, in the order of the line pointers, each to the bytes of its item in the buffer, and their number; a
  page with an unused line pointer ends the program (\<open>abort\<close>). The buffer is never released: after every call one buffer has one more pin.
\<close>

theorem getAllItems_correct:
  assumes "coherent s F P B" and "client s F P reln r" and "has_place s (tag_of r blk)" and "unat blk < length (B r)" and "page_ok (B r ! unat blk)"
  shows "if None \<in> set (contents (B r ! unat blk)) then getAllItems s reln blk = None
    else rets (getAllItems s reln blk) (\<lambda>(t, _, res, num). coherent t F P B \<and> num = int (length (contents (B r ! unat blk))) \<and>
      (\<exists>b. in_pool s b \<and> PrivateRefCount (be t) = (PrivateRefCount (be s))[nat b := PrivateRefCount (be s) ! nat b + 1]) \<and>
      (\<exists>off items. res = Some (off, items) \<and> blocks t off = Some (B r ! unat blk) \<and> length items = length (contents (B r ! unat blk)) \<and>
        (\<forall>i<length items. \<exists>x. contents (B r ! unat blk) ! i = Some x \<and> rd (B r ! unat blk) (items ! i) (length x) = x)))"
  using get_items [OF assms] by (auto elim!: rets_mono split: if_splits)

theorem getAllItems_correct_witness:
  "rets (sample_bufs [sample_page]) (\<lambda>s. rets (getAllItems s pool_rel 0) (\<lambda>(t, _, res, num). num = 0 \<and> (\<exists>off. res = Some (off, []))))"
proof -
  obtain s where s: "sample_bufs [sample_page] = Some s" "coherent s pool_catalog pool_slots (pool_contents [sample_page])" "client s pool_catalog pool_slots pool_rel pool_rid" "\<And>tg. has_place s tg"
    using sample_ready [OF sample_page_blocks(1,2)] by blast
  from getAllItems_correct [OF s(2,3) s(4), of 0] show ?thesis unfolding s(1) rets_Some
    by (auto simp: pool_contents_def sample_page_ok elim!: rets_mono)
qed

text \<open>
  C16: What is put is got. After \<open>RelationPut\<close> of an item that fits, \<open>getAllItems\<close> on the same page returns one item more than the page had, and the last pointer
  it returns points to the bytes of the item; the earlier items are returned as well.
\<close>

theorem put_get_roundtrip:
  assumes "coherent s F P B" and "idle s" and "in_use s" and "client s F P reln r" and "unat blk < length (B r)" and "heap_page (B r ! unat blk)"
    and "length item = unat t_len" and "item \<noteq> []" and "unat t_len \<le> 2 ^ 30" and "DOUBLEALIGN t_len \<le> PageGetFreeSpace (B r ! unat blk)"
  shows "rets (RelationPut s reln blk item t_len) (\<lambda>(t, reln'). rets (getAllItems t reln' blk) (\<lambda>(u, _, res, num). \<exists>off items page. res = Some (off, items) \<and> blocks u off = Some page \<and>
    num = int (Suc (nlines (B r ! unat blk))) \<and> rd page (items ! nlines (B r ! unat blk)) (length item) = item \<and>
    (\<forall>i<nlines (B r ! unat blk). \<exists>x. contents (B r ! unat blk) ! i = Some x \<and> rd page (items ! i) (length x) = x)))"
proof -
  let ?p = "B r ! unat blk"
  have p: "page_ok ?p" by (rule heap_pageD(1) [OF assms(6)])
  from put_page [OF assms(1,4) idle_place [OF assms(2,3)] assms(5) p assms(7-9)] obtain t q where t: "RelationPut s reln blk item t_len = Some (t, reln)" "be t = be s" "same_env s t"
    "coherent t F P (B(r := (B r)[unat blk := q]))" "page_ok q" "contents q = contents ?p @ [Some item]" using heap_page_free [OF assms(6)] puts_fit [OF _ p assms(7-10)] by (elim retsE) auto
  have pl: "has_place t (tag_of r blk)" by (rule idle_place) (use assms(2,3) t(2,3) in_use_env in \<open>auto simp: idle_def same_env_def\<close>)
  have q: "(B(r := (B r)[unat blk := q])) r ! unat blk = q" "unat blk < length ((B(r := (B r)[unat blk := q])) r)" using assms(5) by simp_all
  have "None \<notin> set (contents q)" using t(6) assms(6) by (simp add: heap_page_def)
  moreover have "page_ok ((B(r := (B r)[unat blk := q])) r ! unat blk)" using t(5) q(1) by simp
  note get_items [OF t(4) client_env [OF assms(4) t(3)] pl q(2) this, unfolded q(1)]
  ultimately obtain u off items where u: "getAllItems t reln blk = Some (u, reln, Some (off, items), int (length (contents q)))" "blocks u off = Some q" "length items = length (contents q)"
    "\<And>i. i < length items \<Longrightarrow> \<exists>x. contents q ! i = Some x \<and> rd q (items ! i) (length x) = x" by (simp only: if_False) (erule retsE, auto)
  have c: "contents q ! nlines ?p = Some item" "length (contents q) = Suc (nlines ?p)" "\<And>i. i < nlines ?p \<Longrightarrow> contents q ! i = contents ?p ! i" unfolding t(6) by (simp_all add: nth_append)
  have "rd q (items ! nlines ?p) (length item) = item" using u(4) [of "nlines ?p"] u(3) c(1,2) by auto
  moreover have "\<exists>x. contents ?p ! i = Some x \<and> rd q (items ! i) (length x) = x" if "i < nlines ?p" for i using u(4) [of i] u(3) c(2) c(3) [OF that] that by auto
  ultimately show ?thesis unfolding t(1) rets_Some prod.case u(1) using u(2) c(2) by auto
qed

theorem put_get_roundtrip_witness:
  "rets (sample_bufs [sample_page]) (\<lambda>s. rets (read_page s pool_rel 0) (\<lambda>(s, _). rets (RelationPut s pool_rel 0 [72, 105] 2) (\<lambda>(t, reln).
     rets (getAllItems t reln 0) (\<lambda>(u, _, res, num). num = 1 \<and> (\<exists>off x page. res = Some (off, x) \<and> blocks u off = Some page \<and> rd page (x ! 0) (Suc (Suc 0)) = [72, 105])))))"
proof -
  obtain s t page where s: "sample_bufs [sample_page] = Some s" "read_page s pool_rel 0 = Some (t, page)" "coherent t pool_catalog pool_slots (pool_contents [sample_page])"
    "client t pool_catalog pool_slots pool_rel pool_rid" "idle t" "in_use t" using sample_used [OF sample_page_blocks(1,2)] by blast
  have fit: "DOUBLEALIGN 2 \<le> PageGetFreeSpace sample_page" by (rule small_fits [OF _ sample_page_room, of "[0, 0]"]) (simp add: small_item_def)
  from put_get_roundtrip [OF s(3,5,6,4), of 0 "[72, 105]" 2] show ?thesis unfolding s(1,2) rets_Some prod.case
    using fit by (auto simp: pool_contents_def sample_page_ok sample_page_blocks(3) elim!: rets_mono)
qed

lemma read_found:
  assumes C: "coherent s F P B" and own: "owner (bp s) b = Some tg" and tg: "INIT_BUFFERTAG (MyDatabaseId s) reln blk = Some (reln, tg)" and local: "\<not> rd_islocal reln" and new: "blk \<noteq> P_NEW"
  shows "rets (ReadBuffer s reln blk) (\<lambda>(t, reln', buffer). reln' = reln \<and> buffer = b + 1 \<and> coherent t F P B \<and> owner (bp t) b = Some tg \<and> pinned t b)"
proof -
  have S: "steady s {} F P B" "\<not> BufMgrLock s" using C by (simp_all add: coherent_def)
  have b: "in_pool s b" using owner_pool [OF own] by simp
  let ?s = "s\<lparr>ReadBufferCount := ReadBufferCount s + 1, BufMgrLock := True\<rparr>"
  have bt: "buf_table (bp s) (SharedBufHash s)" using S(1) by (simp add: steady_def)
  have num: "blockNum tg = blk" using tg by (auto simp: INIT_BUFFERTAG_def bind_eq_Some_conv)
  from lookup_table [OF bt, of tg] have lk: "BufTableLookup (SharedBufHash s) tg = Some (Some b)" using own num new by auto
  have S': "steady ?s {} F P B" by (rule steady_other [OF S(1)]) simp_all
  have b': "in_pool ?s b" using b by (simp add: in_pool_def)
  from take_found_ok [OF S' b'] obtain t where t: "take_found ?s b = Some (t, True)" "steady t {} F P B" "\<not> BufMgrLock t" "frame (bp t) = frame (bp s)"
    "be t = (be s)\<lparr>PrivateRefCount := (PrivateRefCount (be s))[nat b := PrivateRefCount (be s) ! nat b + 1]\<rparr>" by (elim retsE) auto
  let ?t = "t\<lparr>BufferHitCount := BufferHitCount t + 1\<rparr>"
  have bt': "in_pool t b" using b frame_size [OF t(4)] by (simp add: in_pool_def)
  have ok: "desc_ok (bp t) b" "buf_id (D (bp t) b) = b" using in_pool_ok [OF t(2) bt'] by simp_all
  have "BufferAlloc (s\<lparr>ReadBufferCount := ReadBufferCount s + 1\<rparr>) reln blk False = Some (t, reln, Some b, True)"
    using new tg S(2) lk t(1) by (simp add: BufferAlloc_def SpinAcquire_def)
  then have "ReadBuffer s reln blk = Some (?t, reln, b + 1)"
    using local ok new by (simp add: ReadBuffer_def ReadBufferWithBufferLock_def read_shared_def BufferDescriptorGetBuffer_def)
  moreover have "steady ?t {} F P B" by (rule steady_other [OF t(2)]) simp_all
  moreover have "owner (bp t) b = Some tg" using frame_owner [OF S(1) t(4)] own by simp
  moreover have "taken s t b" using t(5) by (simp add: taken_def)
  then have "pinned t b" by (rule taken_pinned [OF S(1) b])
  ultimately show ?thesis using t(3) by (simp add: coherent_def pinned_def)
qed

text \<open>
  C40: Relations made by \<open>heap_create\<close> cannot be told apart by the buffer manager, since all get the same object identifier: while a buffer holds block \<open>blk\<close> of one of them, \<open>ReadBuffer\<close> of block
  \<open>blk\<close> of any other returns that buffer, with the contents of the first.
\<close>

theorem heap_create_aliases:
  assumes "heap_create s name = Some (s', reln)" and "length name < NAMEDATALEN" and "\<not> IsSharedSystemRelationName name"
    and "coherent t F P B" and "MyDatabaseId t = MyDatabaseId s" and "owner (bp t) b = Some (tag_of (MyDatabaseId s, 16993) blk)" and "unat blk < RELSEG_SIZE"
  shows "rets (ReadBuffer t reln blk) (\<lambda>(u, _, buffer). buffer = b + 1 \<and>
    rets (BufferGetBlock u buffer) (\<lambda>off. blocks u off = Some (block_at (B (MyDatabaseId s, 16993)) blk)))"
proof -
  note h = heap_create_id [OF assms(1-3)]
  have "INIT_BUFFERTAG (MyDatabaseId t) reln blk = Some (reln, tag_of (MyDatabaseId s, 16993) blk)" using h(1) [of blk] assms(5) by simp
  from read_found [OF assms(4,6) this h(2) block_not_new [OF assms(7)]] obtain u where u: "ReadBuffer t reln blk = Some (u, reln, b + 1)" "coherent u F P B"
    "owner (bp u) b = Some (tag_of (MyDatabaseId s, 16993) blk)" "pinned u b" by (elim retsE) auto
  have u': "owner (bp u) (b + 1 - 1) = Some (tag_of (MyDatabaseId s, 16993) blk)" "pinned u (b + 1 - 1)" using u(3,4) by simp_all
  show ?thesis using u(1) buffer_page(2,3) [OF u(2) u'] by simp
qed

lemma create_sample:
  assumes "sm s = sample_md []"
  shows "rets (heap_create s ''q'') (\<lambda>(_, reln). relname reln = ''q'')"
proof -
  let ?rel = "zero_relation\<lparr>relname := ''q'', rd_nblocks := 0, rd_id := 16993, rd_isnailed := False, rd_islocal := False, rd_istemp := False, rd_refcnt := 1, relsmgr := DEFAULT_SMGR, rd_tmpunlinked := True\<rparr>"
  have ok: "md_ok (sample_md [])" "fdl.handles (vfs (sample_md [])) (\<lambda>_. None)" using sample_md_ok [of "[]"] by (simp_all add: blocks_ok_def)
  have "rel_file (vfs (sample_md [])) ?rel = Some ''/data/base/db/q''"
    by (simp add: rel_file_def relpath_def cstr_def sample_room_def with_head_simps NAMEDATALEN_def IsSharedSystemRelationName_def IsSystemRelationName_def filepath_def Sep_char_def)
      (simp add: with_head_def sample_vfds_def)
  moreover have "file_blocks (vfs (sample_md [])) ''/data/base/db/q'' []" by (simp add: file_blocks_def blocks_ok_def sample_room_def with_head_simps)
  ultimately obtain m f where "mdopen (sample_md []) ?rel = Some (m, f)" using mdopen_slot [OF ok] by (fastforce elim!: retsE)
  then show ?thesis using assms
    by (simp add: heap_create_def namestrcpy_def NAMEDATALEN_def smgropen_def smgrsw_def NSmgr_def DEFAULT_SMGR_def RelationInitLockInfo_def cstr_def zero_relation_def)
qed

text \<open>The witness makes a second relation; the buffer holds the first block of relation \<open>r\<close>.\<close>

theorem heap_create_aliases_witness:
  "rets (sample_bufs [replicate BLCKSZ 7, replicate BLCKSZ 9]) (\<lambda>s. rets (read_page s pool_rel 0) (\<lambda>(t, _).
     rets (heap_create (s\<lparr>sm := sample_md []\<rparr>) ''q'') (\<lambda>(_, reln). relname reln = ''q'' \<and>
       rets (ReadBuffer t reln 0) (\<lambda>(u, _, buffer). rets (BufferGetBlock u buffer) (\<lambda>off. blocks u off = Some (replicate BLCKSZ 7))))))"
proof -
  let ?bs = "[replicate BLCKSZ 7, replicate BLCKSZ 9]"
  obtain s t page where s: "sample_bufs ?bs = Some s" "read_page s pool_rel 0 = Some (t, page)" "coherent t pool_catalog pool_slots (pool_contents ?bs)" "MyDatabaseId t = 7"
    "owner (bp t) 0 = Some (tag_of pool_rid 0)" "MyDatabaseId s = 7" using sample_used [OF sample_blocks] by blast
  from create_sample [of "s\<lparr>sm := sample_md []\<rparr>"] obtain s' reln where h: "heap_create (s\<lparr>sm := sample_md []\<rparr>) ''q'' = Some (s', reln)" "relname reln = ''q''" by (auto elim!: retsE)
  have n: "length ''q'' < NAMEDATALEN" "\<not> IsSharedSystemRelationName ''q''" by (simp_all add: NAMEDATALEN_def IsSharedSystemRelationName_def IsSystemRelationName_def)
  have z: "unat (0 :: uint32) < RELSEG_SIZE" by (simp add: RELSEG_SIZE_def)
  from heap_create_aliases [OF h(1) n s(3) _ _ z, of 0] show ?thesis unfolding s(1,2) h(1) rets_Some prod.case
    using h(2) s(4,5,6) by (auto simp: pool_rid_def block_at_def pool_contents_def elim!: rets_mono)
qed

end
